(* ===== verification/NxPrelude.thy ===== *)
theory NxPrelude
  imports Main "HOL-Library.Word"
begin

text \<open>
  Shared vocabulary of the development: machine integers, bit lists, bytes and the return
  codes of the zlib interface. Bit lists are least significant bit first, which is the order in
  which the DEFLATE format packs bits in to bytes.
\<close>

unbundle bit_operations_syntax

type_synonym u8 = "8 word"
type_synonym u16 = "16 word"
type_synonym u32 = "32 word"
type_synonym u64 = "64 word"

named_theorems bit_lists \<open>equations that move bit lists through shifts, masks and casts\<close>

section \<open>Bit lists\<close>

definition bits :: "nat \<Rightarrow> 'a::semiring_bit_operations \<Rightarrow> bool list" where
  "bits n x = map (bit x) [0..<n]"

definition bval :: "bool list \<Rightarrow> nat" where
  "bval bs = horner_sum of_bool 2 bs"

definition byte_bits :: "u8 list \<Rightarrow> bool list" where
  "byte_bits ws = concat (map (bits 8) ws)"

lemma length_bits [simp]: "length (bits n x) = n"
  by (simp add: bits_def)

lemma nth_bits [simp]: "k < n \<Longrightarrow> bits n x ! k = bit x k"
  by (simp add: bits_def)

lemma bits_0 [simp]: "bits 0 x = []"
  by (simp add: bits_def)

lemma byte_bits_Nil [simp]: "byte_bits [] = []"
  by (simp add: byte_bits_def)

lemma byte_bits_Cons [simp]: "byte_bits (w # ws) = bits 8 w @ byte_bits ws"
  by (simp add: byte_bits_def)

lemma byte_bits_append [simp]: "byte_bits (xs @ ys) = byte_bits xs @ byte_bits ys"
  by (simp add: byte_bits_def)

lemma length_byte_bits [simp]: "length (byte_bits ws) = 8 * length ws"
  by (induction ws) auto

lemma bits_add: "bits (m + n) x = bits m x @ bits n (drop_bit m x)"
  by (rule nth_equalityI) (auto simp: nth_append bit_simps)

lemma bits_cong: "(\<And>k. k < n \<Longrightarrow> bit x k = bit y k) \<Longrightarrow> bits n x = bits n y"
  by (rule nth_equalityI) auto

lemma take_bits: "m \<le> n \<Longrightarrow> take m (bits n x) = bits m x"
  by (rule nth_equalityI) auto

lemma drop_bits: "m \<le> n \<Longrightarrow> drop m (bits n x) = bits (n - m) (drop_bit m x)"
  by (rule nth_equalityI) (auto simp: bit_simps)

lemma bits_take_bit [simp]: "m \<le> n \<Longrightarrow> bits m (take_bit n x) = bits m x"
  by (rule bits_cong) (simp add: bit_simps)

text \<open>Shifting new bits in above the \<open>p\<close> valid ones appends them.\<close>

lemma bits_or_push [bit_lists]:
  fixes b d :: "'a::len word"
  assumes "\<And>k. p \<le> k \<Longrightarrow> \<not> bit b k" and "p + n \<le> LENGTH('a)"
  shows "bits (p + n) (b OR push_bit p d) = bits p b @ bits n d"
  using assms by (intro nth_equalityI) (auto simp: nth_append bit_simps)

lemma bits_ucast [bit_lists]:
  fixes x :: "'a::len word"
  assumes "n \<le> LENGTH('b::len)"
  shows "bits n (ucast x :: 'b word) = bits n x"
  using assms by (intro bits_cong) (auto simp: bit_simps)

lemma bval_Nil [simp]: "bval [] = 0"
  by (simp add: bval_def)

lemma bval_Cons [simp]: "bval (b # bs) = of_bool b + 2 * bval bs"
  by (simp add: bval_def)

lemma bval_bits_nat: "bval (bits n (x::nat)) = take_bit n x"
  by (simp add: bval_def bits_def horner_sum_bit_eq_take_bit)

lemma bval_bits_word: "bval (bits n (x :: 'a::len word)) = unat (take_bit n x)"
proof -
  have "bits n x = bits n (unat x)"
    by (rule bits_cong) (simp add: bit_unsigned_iff bit_imp_le_length)
  then show ?thesis
    by (simp add: bval_bits_nat unsigned_take_bit_eq)
qed

lemma bval_less: "bval bs < 2 ^ length bs"
  by (induction bs) auto

lemma bval_append: "bval (xs @ ys) = bval xs + 2 ^ length xs * bval ys"
  by (induction xs) (auto simp: algebra_simps)

text \<open>A number that fits in \<open>n\<close> bits is read back from its bit list.\<close>

lemma bval_bits_small: "x < 2 ^ n \<Longrightarrow> bval (bits n (x::nat)) = x"
  by (simp add: bval_bits_nat take_bit_nat_eq_self)

lemma bit_word_of_nat_iff:
  "bit (word_of_nat x :: 'a::len word) k \<longleftrightarrow> k < LENGTH('a) \<and> bit x k"
  by transfer (auto simp: bit_take_bit_iff bit_of_nat_iff_bit)

lemma bits_of_nat_word:
  "n \<le> LENGTH('a::len) \<Longrightarrow> bits n (word_of_nat x :: 'a word) = bits n x"
  by (rule bits_cong) (simp add: bit_word_of_nat_iff)

lemma word_of_nat_high_bits:
  assumes "x < 2 ^ n" and "n \<le> k"
  shows "\<not> bit (word_of_nat x :: 'a::len word) k"
proof -
  have "x < 2 ^ k"
    using assms by (meson less_le_trans one_le_numeral power_increasing)
  then have "\<not> bit x k"
    by (metis bit_take_bit_iff less_irrefl take_bit_nat_eq_self)
  then show ?thesis by (simp add: bit_word_of_nat_iff)
qed

section \<open>Return codes of the zlib interface\<close>

definition Z_OK :: int where "Z_OK = 0"
definition Z_STREAM_END :: int where "Z_STREAM_END = 1"
definition Z_NEED_DICT :: int where "Z_NEED_DICT = 2"
definition Z_STREAM_ERROR :: int where "Z_STREAM_ERROR = -2"
definition Z_DATA_ERROR :: int where "Z_DATA_ERROR = -3"
definition Z_MEM_ERROR :: int where "Z_MEM_ERROR = -4"
definition Z_BUF_ERROR :: int where "Z_BUF_ERROR = -5"

lemmas z_codes = Z_OK_def Z_STREAM_END_def Z_NEED_DICT_def Z_STREAM_ERROR_def Z_DATA_ERROR_def
  Z_MEM_ERROR_def Z_BUF_ERROR_def

section \<open>Lists\<close>

lemma nth_append_left [simp]: "i < length xs \<Longrightarrow> (xs @ ys) ! i = xs ! i"
  by (simp add: nth_append)

lemma sum_list_le_const:
  "(\<And>x. x \<in> set xs \<Longrightarrow> x \<le> (c::nat)) \<Longrightarrow> sum_list xs \<le> length xs * c"
  by (induction xs) (auto simp: add_mono)

section \<open>Loops that may fail\<close>

text \<open>A \<^verbatim>\<open>for\<close> loop whose body may fail, over the list of the values of its variable.\<close>

primrec for_each :: "('a \<Rightarrow> 's \<Rightarrow> 's option) \<Rightarrow> 'a list \<Rightarrow> 's \<Rightarrow> 's option" where
  "for_each f [] s = Some s"
| "for_each f (x # xs) s = Option.bind (f x s) (for_each f xs)"

lemma for_each_append:
  "for_each f (xs @ ys) s = Option.bind (for_each f xs s) (for_each f ys)"
proof (induction xs arbitrary: s)
  case (Cons x xs)
  then show ?case by (cases "f x s") auto
qed simp

lemma for_each_invariant:
  assumes "P [] s"
    and "\<And>ys x s. P ys s \<Longrightarrow> x \<in> set xs \<Longrightarrow> \<exists>s'. f x s = Some s' \<and> P (ys @ [x]) s'"
  shows "\<exists>s'. for_each f xs s = Some s' \<and> P xs s'"
  using assms
proof (induction xs rule: rev_induct)
  case (snoc x xs)
  then obtain s1 where s1: "for_each f xs s = Some s1" "P xs s1" by fastforce
  then show ?case using snoc.prems(2) [OF s1(2), of x] by (auto simp: for_each_append)
qed simp

section \<open>Computations that may fault\<close>

text \<open>A result is \<open>Inl\<close> the fault or \<open>Inr\<close> the value.\<close>

primrec bindE :: "'e + 'a \<Rightarrow> ('a \<Rightarrow> 'e + 'b) \<Rightarrow> 'e + 'b" where
  "bindE (Inl e) f = Inl e"
| "bindE (Inr x) f = f x"

primrec for_eachE :: "('a \<Rightarrow> 's \<Rightarrow> 'e + 's) \<Rightarrow> 'a list \<Rightarrow> 's \<Rightarrow> 'e + 's" where
  "for_eachE f [] s = Inr s"
| "for_eachE f (x # xs) s = bindE (f x s) (for_eachE f xs)"

primrec timesE :: "nat \<Rightarrow> ('s \<Rightarrow> 'e + 's) \<Rightarrow> 's \<Rightarrow> 'e + 's" where
  "timesE 0 f s = Inr s"
| "timesE (Suc n) f s = bindE (f s) (timesE n f)"

lemma bindE_split:
  "P (bindE x f) \<longleftrightarrow> (\<forall>e. x = Inl e \<longrightarrow> P (Inl e)) \<and> (\<forall>y. x = Inr y \<longrightarrow> P (f y))"
  by (cases x) auto

lemma bindE_InrE:
  assumes "bindE x f = Inr z"
  obtains y where "x = Inr y" "f y = Inr z"
  using assms by (cases x) auto

lemma timesE_invariant:
  assumes "P 0 s" and "\<And>k s. k < n \<Longrightarrow> P k s \<Longrightarrow> \<exists>s'. f s = Inr s' \<and> P (Suc k) s'"
  shows "\<exists>s'. timesE n f s = Inr s' \<and> P n s'"
  using assms
proof (induction n arbitrary: P s)
  case (Suc n)
  obtain s1 where "f s = Inr s1" "P (Suc 0) s1" using Suc.prems by blast
  then show ?case
    using Suc.IH [of "\<lambda>k. P (Suc k)" s1] Suc.prems(2) by fastforce
qed simp

section \<open>Unrolled loops over a buffer\<close>

text \<open>
  \<^verbatim>\<open>while (len >= n) { body; buf += n; len -= n; }\<close> with a body that reads \<open>n\<close> bytes: the bytes
  left and the state.
\<close>

function unrolled :: "nat \<Rightarrow> ('b list \<Rightarrow> 's \<Rightarrow> 's) \<Rightarrow> 'b list \<Rightarrow> 's \<Rightarrow> 'b list \<times> 's" where
  "unrolled n body buf s =
     (if 0 < n \<and> n \<le> length buf then unrolled n body (drop n buf) (body (take n buf) s) else (buf, s))"
  by pat_completeness auto
termination by (relation "measure (\<lambda>(n, body, buf, s). length buf)") auto

declare unrolled.simps [simp del]

lemma unrolled_fold:
  assumes "\<And>bs s. length bs = n \<Longrightarrow> body bs s = fold f bs s"
  shows "case unrolled n body buf s of (rest, s') \<Rightarrow> fold f rest s' = fold f buf s"
  using assms
proof (induction n body buf s rule: unrolled.induct)
  case (1 n body buf s)
  show ?case
  proof (cases "0 < n \<and> n \<le> length buf")
    case True
    then have "fold f buf s = fold f (drop n buf) (fold f (take n buf) s)"
      by (metis append_take_drop_id comp_apply fold_append)
    then show ?thesis
      using "1.IH" [OF True "1.prems"] "1.prems" [of "take n buf" s] True
      by (subst unrolled.simps) simp
  next
    case False
    then show ?thesis by (subst unrolled.simps) auto
  qed
qed

end
