(* ===== verification/DhtQueue.thy ===== *)
theory DhtQueue
  imports NxPrelude
begin

text \<open>
  The queue macros of \<^verbatim>\<open>lib/nx_dhtgen.c\<close> (\<^verbatim>\<open>init_q\<close>, \<^verbatim>\<open>add_q\<close>, \<^verbatim>\<open>del_q\<close>, \<^verbatim>\<open>headof_q\<close>,
  \<^verbatim>\<open>countof_q\<close>) over a circular array, and the interface the Huffman algorithm relies on: a
  first-in first-out list, and for the node queue the additional promise that the array also
  stores every node that was ever enqueued, because the tree is read back from it.
  An array cell that was never written is \<open>None\<close>.
\<close>

section \<open>The code's queue\<close>

record 'a q_t =
  q_count :: nat
  q_num_elts :: nat
  q_head :: nat
  q_tail :: nat
  q_arr :: "'a option list"

definition init_q :: "'a option list \<Rightarrow> nat \<Rightarrow> 'a q_t" where
  "init_q a n = \<lparr>q_count = 0, q_num_elts = n, q_head = 0, q_tail = 0, q_arr = a\<rparr>"

definition add_q :: "'a \<Rightarrow> 'a q_t \<Rightarrow> 'a q_t" where
  "add_q e q = q\<lparr>q_arr := (q_arr q)[q_tail q := Some e],
                 q_tail := (q_tail q + 1) mod q_num_elts q,
                 q_count := q_count q + 1\<rparr>"

definition del_q :: "'a q_t \<Rightarrow> nat \<times> 'a q_t" where
  "del_q q =
     (if q_count q = 0 \<and> q_head q = q_tail q then (0, q)
      else (q_count q, q\<lparr>q_head := (q_head q + 1) mod q_num_elts q, q_count := q_count q - 1\<rparr>))"

definition headof_q :: "'a q_t \<Rightarrow> nat \<times> 'a option" where
  "headof_q q =
     (if q_count q = 0 \<and> q_head q = q_tail q then (0, None)
      else (q_count q, if q_head q < length (q_arr q) then q_arr q ! q_head q else None))"

definition countof_q :: "'a q_t \<Rightarrow> nat" where
  "countof_q q = q_count q"

section \<open>What the Huffman algorithm relies on\<close>

locale fifo_queue =
  fixes add :: "'a \<Rightarrow> 'q \<Rightarrow> 'q"
    and del :: "'q \<Rightarrow> nat \<times> 'q"
    and first :: "'q \<Rightarrow> nat \<times> 'a option"
    and number :: "'q \<Rightarrow> nat"
    and contents :: "'q \<Rightarrow> 'a list"
    and invar :: "'q \<Rightarrow> bool"
    and room :: "'q \<Rightarrow> bool"
  assumes contents_add: "invar q \<Longrightarrow> room q \<Longrightarrow> contents (add x q) = contents q @ [x]"
    and invar_add: "invar q \<Longrightarrow> room q \<Longrightarrow> invar (add x q)"
    and contents_del: "invar q \<Longrightarrow> contents q \<noteq> [] \<Longrightarrow> contents (snd (del q)) = tl (contents q)"
    and invar_del: "invar q \<Longrightarrow> contents q \<noteq> [] \<Longrightarrow> invar (snd (del q))"
    and number_contents: "invar q \<Longrightarrow> number q = length (contents q)"
    and first_number: "invar q \<Longrightarrow> fst (first q) = length (contents q)"
    and first_contents: "invar q \<Longrightarrow> contents q \<noteq> [] \<Longrightarrow> snd (first q) = Some (hd (contents q))"
begin

lemma first_Cons: "invar q \<Longrightarrow> contents q = x # xs \<Longrightarrow> first q = (Suc (length xs), Some x)"
  using first_number [of q] first_contents [of q] by (cases "first q") auto

lemma del_Cons:
  "invar q \<Longrightarrow> contents q = x # xs \<Longrightarrow> contents (snd (del q)) = xs \<and> invar (snd (del q))"
  using contents_del [of q] invar_del [of q] by auto

lemma first_Nil: "invar q \<Longrightarrow> contents q = [] \<Longrightarrow> fst (first q) = 0"
  using first_number [of q] by simp

end

text \<open>The node queue keeps what it enqueued: a node's position is the tail at that moment.\<close>

locale store_queue = fifo_queue +
  fixes next_slot :: "'b \<Rightarrow> nat" and store :: "'b \<Rightarrow> 'a list"
  assumes store_add: "invar q \<Longrightarrow> room q \<Longrightarrow> store (add x q) = store q @ [x]"
    and store_del: "invar q \<Longrightarrow> contents q \<noteq> [] \<Longrightarrow> store (snd (del q)) = store q"
    and next_slot_store: "invar q \<Longrightarrow> next_slot q = length (store q)"
    and contents_suffix: "invar q \<Longrightarrow> \<exists>k. contents q = drop k (store q)"
begin

lemma contents_in_store: "invar q \<Longrightarrow> set (contents q) \<subseteq> set (store q)"
  using contents_suffix [of q] set_drop_subset by metis

end

section \<open>The macros provide both interfaces\<close>

text \<open>
  Both queues of the algorithm run from the start of their array without wrapping around. The
  leaf queue is set up full; once it is drained its tail still is \<open>num_elts\<close> while its head is
  \<open>0\<close> again, so the macros' emptiness test fails and they return the count, which is \<open>0\<close>.
\<close>

definition q_contents :: "'a q_t \<Rightarrow> 'a list" where
  "q_contents q = map the (drop (q_tail q - q_count q) (take (q_tail q) (q_arr q)))"

definition q_store :: "'a q_t \<Rightarrow> 'a list" where
  "q_store q = map the (take (q_tail q) (q_arr q))"

definition q_ok :: "'a q_t \<Rightarrow> bool" where
  "q_ok q \<longleftrightarrow> q_tail q \<le> q_num_elts q \<and> q_tail q \<le> length (q_arr q) \<and> q_count q \<le> q_tail q
     \<and> 0 < q_num_elts q
     \<and> q_head q = (q_tail q - q_count q) mod q_num_elts q
     \<and> (\<forall>i < q_tail q. q_arr q ! i \<noteq> None)"

definition q_room :: "'a q_t \<Rightarrow> bool" where
  "q_room q \<longleftrightarrow> q_tail q + 1 < q_num_elts q \<and> q_tail q < length (q_arr q)"

lemma length_q_contents: "q_ok q \<Longrightarrow> length (q_contents q) = q_count q"
  by (auto simp: q_contents_def q_ok_def min_def)

lemma q_contents_empty: "q_ok q \<Longrightarrow> q_contents q = [] \<longleftrightarrow> q_count q = 0"
  using length_q_contents [of q] by auto

lemma q_head_contents: "q_ok q \<Longrightarrow> q_count q \<noteq> 0 \<Longrightarrow> q_head q = q_tail q - q_count q"
  by (auto simp: q_ok_def)

lemma q_contents_add:
  "q_ok q \<Longrightarrow> q_room q \<Longrightarrow> q_contents (add_q x q) = q_contents q @ [x]"
  by (simp add: q_contents_def add_q_def q_ok_def q_room_def take_Suc_conv_app_nth Suc_diff_le)

lemma q_store_add:
  "q_ok q \<Longrightarrow> q_room q \<Longrightarrow> q_store (add_q x q) = q_store q @ [x]"
  by (simp add: q_store_def add_q_def q_ok_def q_room_def take_Suc_conv_app_nth)

lemma q_ok_add: "q_ok q \<Longrightarrow> q_room q \<Longrightarrow> q_ok (add_q x q)"
  by (auto simp: add_q_def q_ok_def q_room_def nth_list_update less_Suc_eq)

lemma del_q_nonempty:
  "q_ok q \<Longrightarrow> q_count q \<noteq> 0 \<Longrightarrow>
     snd (del_q q) = q\<lparr>q_head := (q_head q + 1) mod q_num_elts q, q_count := q_count q - 1\<rparr>"
  by (simp add: del_q_def)

lemma q_contents_del:
  assumes "q_ok q" and "q_contents q \<noteq> []"
  shows "q_contents (snd (del_q q)) = tl (q_contents q)"
proof -
  have n: "q_count q \<noteq> 0" using assms q_contents_empty by blast
  have c: "q_count q \<le> q_tail q" using assms(1) by (simp add: q_ok_def)
  have "q_tail q - (q_count q - 1) = Suc (q_tail q - q_count q)"
    using n c by linarith
  then show ?thesis
    by (simp add: del_q_nonempty [OF assms(1) n] q_contents_def drop_Suc drop_tl map_tl)
qed

lemma q_ok_del:
  assumes "q_ok q" and "q_contents q \<noteq> []"
  shows "q_ok (snd (del_q q))"
proof -
  have n: "q_count q \<noteq> 0" using assms q_contents_empty by blast
  have "q_tail q - (q_count q - 1) = Suc (q_tail q - q_count q)"
    using n assms(1) by (auto simp: q_ok_def)
  then show ?thesis
    using assms(1) n by (simp add: del_q_nonempty [OF assms(1) n] q_ok_def mod_Suc_eq)
qed

lemma headof_q_first:
  assumes "q_ok q" and "q_contents q \<noteq> []"
  shows "snd (headof_q q) = Some (hd (q_contents q))"
proof -
  have n: "q_count q \<noteq> 0" using assms q_contents_empty by blast
  have h: "q_head q < q_tail q" "q_head q = q_tail q - q_count q"
    using q_head_contents [OF assms(1) n] n assms(1) by (auto simp: q_ok_def)
  have "hd (q_contents q) = the (q_arr q ! q_head q)"
    using h assms(1) by (simp add: q_contents_def hd_map hd_drop_conv_nth q_ok_def)
  then show ?thesis
    using h n assms(1) by (auto simp: headof_q_def q_ok_def)
qed

interpretation nxq:
  fifo_queue add_q del_q headof_q countof_q q_contents q_ok q_room
proof unfold_locales
  fix q :: "'a q_t"
  assume "q_ok q"
  then show "fst (headof_q q) = length (q_contents q)"
    by (auto simp: headof_q_def length_q_contents)
  show "countof_q q = length (q_contents q)"
    using \<open>q_ok q\<close> by (simp add: countof_q_def length_q_contents)
qed (simp_all add: q_contents_add q_ok_add q_contents_del q_ok_del headof_q_first)

interpretation nxq_store:
  store_queue add_q del_q headof_q countof_q q_contents q_ok q_room q_tail q_store
proof unfold_locales
  fix q :: "'a q_t"
  assume ok: "q_ok q"
  show "q_tail q = length (q_store q)"
    using ok by (simp add: q_store_def q_ok_def min_def)
  show "\<exists>k. q_contents q = drop k (q_store q)"
    by (auto simp: q_contents_def q_store_def drop_map)
  show "q_store (snd (del_q q)) = q_store q" if "q_contents q \<noteq> []"
    using ok that q_contents_empty [OF ok] by (simp add: del_q_nonempty q_store_def)
qed (simp add: q_store_add)

end
