(* ===== verification/DhtHuffman.thy ===== *)
theory DhtHuffman
  imports DhtQueue "HOL-Library.Multiset"
begin

text \<open>
  The Huffman part of \<^verbatim>\<open>lib/nx_dhtgen.c\<close>: \<^verbatim>\<open>copy_hist_to_leaf_node\<close>, \<^verbatim>\<open>length_limit\<close>,
  \<^verbatim>\<open>cmp_count\<close>, \<^verbatim>\<open>huffman_tree\<close>, \<^verbatim>\<open>tree_walk\<close> and \<^verbatim>\<open>huffmanize\<close>, followed by the proof that
  the code lengths they produce form a complete prefix code of at most 15 bits. Unsigned 32-bit and
  64-bit values are natural numbers with the wrap-around written out. \<open>None\<close> stands for
  undefined behaviour of the C code: a read of an array cell that was never written, an access
  outside an array, a division by zero, or a loop that does not end.
\<close>

section \<open>Data\<close>

record leaf_node_t =
  symbol :: nat
  count :: nat

record tree_node_t =
  sc :: leaf_node_t
  child0 :: nat
  child1 :: nat
  is_leaf0 :: bool
  is_leaf1 :: bool

definition NLEN :: nat where "NLEN = 286"
definition NDIS :: nat where "NDIS = 30"

section \<open>Histogram preparation\<close>

text \<open>\<^verbatim>\<open>fill_zero_lzcounts\<close>: every zero count becomes \<open>val\<close>.\<close>

definition fill_zero :: "nat \<Rightarrow> nat list \<Rightarrow> nat list" where
  "fill_zero v h = map (\<lambda>c. if c = 0 then v else c) h"

definition fill_zero_lzcounts :: "nat list \<Rightarrow> nat list \<Rightarrow> nat \<Rightarrow> nat list \<times> nat list" where
  "fill_zero_lzcounts llhist dhist v =
     (fill_zero v (take NLEN llhist) @ drop NLEN llhist,
      fill_zero v (take NDIS dhist) @ drop NDIS dhist)"

definition fill_zero_len_dist :: "nat list \<Rightarrow> nat list \<Rightarrow> nat \<Rightarrow> nat list \<times> nat list" where
  "fill_zero_len_dist llhist dhist v =
     (take 257 llhist @ fill_zero v (drop 257 (take NLEN llhist)) @ drop NLEN llhist,
      fill_zero v (take NDIS dhist) @ drop NDIS dhist)"

text \<open>The leaves, one per symbol, and the number of symbols with a non-zero count.\<close>

definition copy_hist_to_leaf_node :: "nat list \<Rightarrow> nat \<Rightarrow> leaf_node_t list \<times> nat" where
  "copy_hist_to_leaf_node hist nsym =
     (map (\<lambda>i. \<lparr>symbol = i, count = hist ! i\<rparr>) [0..<nsym],
      length (filter (\<lambda>i. hist ! i \<noteq> 0) [0..<nsym]))"

text \<open>
  \<^verbatim>\<open>length_limit\<close> scales the counts so that their sum is about \<open>limit\<close>; the sums are 64-bit
  and the counts are stored back as 32-bit values. A zero \<open>limit\<close> or a histogram of zeros
  divides by zero.
\<close>

definition length_limit :: "nat list \<Rightarrow> nat \<Rightarrow> nat \<Rightarrow> nat list option" where
  "length_limit hist nsym limit =
     (let sum = fold (\<lambda>h s. (s + h) mod 2 ^ 64) (take nsym hist) 0;
          divisor = ((sum + limit - 1) mod 2 ^ 64) div limit
      in if limit = 0 \<or> divisor = 0 then None
         else Some (map (\<lambda>h. (((h + divisor - 1) mod 2 ^ 64) div divisor) mod 2 ^ 32)
                      (take nsym hist) @ drop nsym hist))"

text \<open>
  The comparison given to \<^verbatim>\<open>qsort\<close>: ascending counts, zero counts last, ties by symbol. The
  counts are read as C ints.
\<close>

definition to_int32 :: "nat \<Rightarrow> int" where
  "to_int32 c = sint (word_of_nat c :: 32 word)"

definition cmp_key :: "leaf_node_t \<Rightarrow> int" where
  "cmp_key p = (if to_int32 (count p) \<noteq> 0 then to_int32 (count p) else 2147483647)"

definition cmp_count :: "leaf_node_t \<Rightarrow> leaf_node_t \<Rightarrow> int" where
  "cmp_count p1 p2 =
     (if cmp_key p1 < cmp_key p2 then -1
      else if cmp_key p1 = cmp_key p2 then (if symbol p1 < symbol p2 then -1 else 1)
      else 1)"

text \<open>
  The C library's \<^verbatim>\<open>qsort\<close>. The symbols are distinct, so the comparison is a strict total
  order and every sorting algorithm gives this result.
\<close>

fun qsort_insert :: "leaf_node_t \<Rightarrow> leaf_node_t list \<Rightarrow> leaf_node_t list" where
  "qsort_insert x [] = [x]"
| "qsort_insert x (y # ys) = (if cmp_count x y < 0 then x # y # ys else y # qsort_insert x ys)"

definition qsort_leaves :: "leaf_node_t list \<Rightarrow> leaf_node_t list" where
  "qsort_leaves xs = foldr qsort_insert xs []"

section \<open>Building the tree\<close>

text \<open>Step 3.1: take the lighter of the two queue heads, the leaf on a tie.\<close>

definition deq_min ::
  "leaf_node_t q_t \<Rightarrow> tree_node_t q_t \<Rightarrow>
   ((leaf_node_t \<times> bool) \<times> leaf_node_t q_t \<times> tree_node_t q_t) option" where
  "deq_min leaf_q node_q =
     (let (num_leaf, leaf) = headof_q leaf_q; (num_node, node) = headof_q node_q in
      if 0 < num_leaf \<and> 0 < num_node then
        (case (leaf, node) of
           (Some l, Some n) \<Rightarrow>
             if count l \<le> count (sc n) then Some ((l, True), snd (del_q leaf_q), node_q)
             else Some ((sc n, False), leaf_q, snd (del_q node_q))
         | _ \<Rightarrow> None)
      else if 0 < num_leaf then
        (case leaf of Some l \<Rightarrow> Some ((l, True), snd (del_q leaf_q), node_q) | None \<Rightarrow> None)
      else if 0 < num_node then
        (case node of Some n \<Rightarrow> Some ((sc n, False), leaf_q, snd (del_q node_q)) | None \<Rightarrow> None)
      else None)"

text \<open>Steps 3.1 to 3.3: two dequeues and the new internal node.\<close>

definition huff_step ::
  "leaf_node_t q_t \<Rightarrow> tree_node_t q_t \<Rightarrow> (leaf_node_t q_t \<times> tree_node_t q_t) option" where
  "huff_step leaf_q node_q =
     (case deq_min leaf_q node_q of
        None \<Rightarrow> None
      | Some ((a, leaf_a), lq1, nq1) \<Rightarrow>
          (case deq_min lq1 nq1 of
             None \<Rightarrow> None
           | Some ((b, leaf_b), lq2, nq2) \<Rightarrow>
               Some (lq2, add_q \<lparr>sc = \<lparr>symbol = q_tail nq2, count = (count a + count b) mod 2 ^ 32\<rparr>,
                                 child0 = symbol a, child1 = symbol b,
                                 is_leaf0 = leaf_a, is_leaf1 = leaf_b\<rparr> nq2)))"

partial_function (option) huff_loop ::
  "leaf_node_t q_t \<Rightarrow> tree_node_t q_t \<Rightarrow> (leaf_node_t q_t \<times> tree_node_t q_t) option" where
  "huff_loop leaf_q node_q =
     (if 1 < countof_q leaf_q + countof_q node_q
      then Option.bind (huff_step leaf_q node_q) (\<lambda>(lq, nq). huff_loop lq nq)
      else Some (leaf_q, node_q))"

text \<open>
  \<^verbatim>\<open>tree_walk\<close> records the depth of every leaf in \<open>sym_len\<close>, which is the part of
  \<^verbatim>\<open>lens\<close> that starts at \<open>base\<close>, and the largest depth in \<open>max_len\<close>; depths saturate at 31.
\<close>

definition write_len :: "nat list \<Rightarrow> nat \<Rightarrow> nat \<Rightarrow> nat list option" where
  "write_len lens i d = (if i < length lens then Some (lens[i := d]) else None)"

partial_function (option) tree_walk ::
  "tree_node_t option list \<Rightarrow> nat \<Rightarrow> nat \<Rightarrow> nat \<Rightarrow> nat list \<Rightarrow> nat \<Rightarrow> (nat list \<times> nat) option" where
  "tree_walk tree base node depth lens max_len =
     (if node < length tree then
        (case tree ! node of
           None \<Rightarrow> None
         | Some n \<Rightarrow>
             (let depth_plus = (if depth < 31 then depth + 1 else 31);
                  max_len = (if max_len < depth then depth else max_len)
              in Option.bind
                   (if is_leaf0 n
                    then Option.bind (write_len lens (base + child0 n) depth) (\<lambda>ls. Some (ls, max_len))
                    else tree_walk tree base (child0 n) depth_plus lens max_len)
                   (\<lambda>(lens1, max1).
                      if is_leaf1 n
                      then Option.bind (write_len lens1 (base + child1 n) depth) (\<lambda>ls. Some (ls, max1))
                      else tree_walk tree base (child1 n) depth_plus lens1 max1)))
      else None)"

text \<open>
  \<^verbatim>\<open>huffman_tree\<close>: returns the code lengths and the maximum depth. \<^verbatim>\<open>nodearr\<close> starts
  uninitialised; with fewer than two non-zero counts no node is ever written, and the walk reads
  an uninitialised node.
\<close>

definition huffman_tree :: "nat list \<Rightarrow> nat \<Rightarrow> nat list \<Rightarrow> nat \<Rightarrow> (nat list \<times> nat) option" where
  "huffman_tree hist nsym lens base =
     (let (leaves, nz_nsym) = copy_hist_to_leaf_node hist nsym;
          leafarr = map Some (qsort_leaves leaves) @ replicate (NLEN - nsym) None;
          leaf_q = (init_q leafarr nz_nsym)\<lparr>q_tail := nz_nsym, q_count := nz_nsym\<rparr>;
          node_q = init_q (replicate NLEN None) (2 * nz_nsym - 1)
      in Option.bind (huff_loop leaf_q node_q)
           (\<lambda>(lq, nq).
              let root = (case headof_q nq of (_, Some n) \<Rightarrow> symbol (sc n) | _ \<Rightarrow> 0)
              in tree_walk (q_arr nq) base root 1 lens 0))"

definition INITIAL_LIMIT :: nat where "INITIAL_LIMIT = 16384"

text \<open>\<^verbatim>\<open>huffmanize\<close>: rebuild with a smaller limit until no code is longer than 15 bits.\<close>

partial_function (option) huffmanize_loop ::
  "nat list \<Rightarrow> nat \<Rightarrow> nat list \<Rightarrow> nat \<Rightarrow> nat \<Rightarrow> (nat list \<times> nat list \<times> nat) option" where
  "huffmanize_loop hist nsym lens base limit =
     Option.bind (length_limit hist nsym limit)
       (\<lambda>hist1. Option.bind (huffman_tree hist1 nsym lens base)
          (\<lambda>(lens1, max_depth).
             if 15 < max_depth then huffmanize_loop hist1 nsym lens1 base (limit * 3 div 4)
             else Some (hist1, lens1, max_depth)))"

definition huffmanize ::
  "nat list \<Rightarrow> nat \<Rightarrow> nat list \<Rightarrow> nat \<Rightarrow> (nat list \<times> nat list \<times> nat) option" where
  "huffmanize hist nsym lens base = huffmanize_loop hist nsym lens base INITIAL_LIMIT"

end
