(* ===== verification/CodeTree.thy ===== *)
theory CodeTree
  imports NxPrelude "HOL-Library.Multiset"
begin

text \<open>
  The abstract side of the Huffman construction: binary code trees, their code lengths, Kraft's
  equality, and the two-queue merge on lists of trees. The merge keeps both queues sorted and
  bounds the height of every tree by its weight with Fibonacci numbers.
\<close>

section \<open>Code trees\<close>

datatype ctree = CLeaf nat nat | CNode ctree ctree

fun weight :: "ctree \<Rightarrow> nat" where
  "weight (CLeaf s w) = w"
| "weight (CNode l r) = weight l + weight r"

fun height :: "ctree \<Rightarrow> nat" where
  "height (CLeaf s w) = 0"
| "height (CNode l r) = Suc (max (height l) (height r))"

fun leaves :: "ctree \<Rightarrow> (nat \<times> nat) list" where
  "leaves (CLeaf s w) = [(s, w)]"
| "leaves (CNode l r) = leaves l @ leaves r"

text \<open>The heavier child, which no tree that is still queued undercuts.\<close>

fun cmax :: "ctree \<Rightarrow> nat" where
  "cmax (CLeaf s w) = 0"
| "cmax (CNode l r) = max (weight l) (weight r)"

fun is_node :: "ctree \<Rightarrow> bool" where
  "is_node (CLeaf s w) = False"
| "is_node (CNode l r) = True"

text \<open>The symbols with their code lengths, in the order of the code's tree walk.\<close>

fun clens :: "ctree \<Rightarrow> nat \<Rightarrow> (nat \<times> nat) list" where
  "clens (CLeaf s w) d = [(s, d)]"
| "clens (CNode l r) d = clens l (Suc d) @ clens r (Suc d)"

definition write_lens :: "nat \<Rightarrow> nat list \<Rightarrow> (nat \<times> nat) list \<Rightarrow> nat list" where
  "write_lens base lens ps = foldl (\<lambda>ls (s, d). ls[base + s := d]) lens ps"

lemma write_lens_Nil [simp]: "write_lens base lens [] = lens"
  by (simp add: write_lens_def)

lemma write_lens_Cons [simp]:
  "write_lens base lens ((s, d) # ps) = write_lens base (lens[base + s := d]) ps"
  by (simp add: write_lens_def)

lemma write_lens_append [simp]:
  "write_lens base lens (ps @ qs) = write_lens base (write_lens base lens ps) qs"
  by (simp add: write_lens_def)

lemma length_write_lens [simp]: "length (write_lens base lens ps) = length lens"
  by (induction ps arbitrary: lens) auto

lemma map_fst_clens: "map fst (clens t d) = map fst (leaves t)"
  by (induction t arbitrary: d) auto

lemma clens_bounds: "(s, n) \<in> set (clens t d) \<Longrightarrow> d \<le> n \<and> n \<le> d + height t"
  by (induction t arbitrary: d) (fastforce simp: max_def)+

lemma clens_node_bounds: "is_node t \<Longrightarrow> (s, n) \<in> set (clens t d) \<Longrightarrow> d < n"
  by (cases t) (auto dest!: clens_bounds)

lemma write_lens_frame:
  "(\<And>s d. (s, d) \<in> set ps \<Longrightarrow> i \<noteq> base + s) \<Longrightarrow> write_lens base lens ps ! i = lens ! i"
proof (induction ps arbitrary: lens)
  case (Cons p ps)
  then show ?case by (cases p) (metis list.set_intros nth_list_update_neq write_lens_Cons)
qed simp

lemma write_lens_lookup:
  assumes "distinct (map fst ps)" and "(s, d) \<in> set ps" and "base + s < length lens"
  shows "write_lens base lens ps ! (base + s) = d"
  using assms
proof (induction ps arbitrary: lens)
  case Nil
  then show ?case by simp
next
  case (Cons p ps)
  obtain s' d' where p: "p = (s', d')" by (cases p)
  show ?case
  proof (cases "s = s'")
    case True
    then have "d = d'" using Cons.prems p by (force simp: image_iff)
    moreover have "write_lens base (lens[base + s' := d']) ps ! (base + s) = lens[base + s' := d'] ! (base + s)"
      using Cons.prems p True by (intro write_lens_frame) (force simp: image_iff)
    ultimately show ?thesis using p True Cons.prems by simp
  next
    case False
    then show ?thesis using Cons p by auto
  qed
qed

section \<open>Kraft's equality\<close>

lemma kraft_clens:
  "height t + d \<le> H \<Longrightarrow> (\<Sum>(s, n) \<leftarrow> clens t d. 2 ^ (H - n)) = (2::nat) ^ (H - d)"
proof (induction t arbitrary: d)
  case (CLeaf s w)
  then show ?case by simp
next
  case (CNode l r)
  have "(\<Sum>(s, n) \<leftarrow> clens l (Suc d). 2 ^ (H - n)) = (2::nat) ^ (H - Suc d)"
    and "(\<Sum>(s, n) \<leftarrow> clens r (Suc d). 2 ^ (H - n)) = (2::nat) ^ (H - Suc d)"
    using CNode by auto
  moreover have "H - d = Suc (H - Suc d)" using CNode.prems by simp
  ultimately show ?case by simp
qed

section \<open>Heights and Fibonacci numbers\<close>

fun fib :: "nat \<Rightarrow> nat" where
  "fib 0 = 0"
| "fib (Suc 0) = 1"
| "fib (Suc (Suc n)) = fib (Suc n) + fib n"

lemma fib_step: "fib n \<le> fib (Suc n)"
  by (cases n) auto

lemma fib_mono: "m \<le> n \<Longrightarrow> fib m \<le> fib n"
  by (rule lift_Suc_mono_le [of fib]) (auto intro: fib_step)

definition fib_ok :: "ctree \<Rightarrow> bool" where
  "fib_ok t \<longleftrightarrow> fib (height t + 2) \<le> weight t
     \<and> (is_node t \<longrightarrow> fib (height t + 1) \<le> cmax t)"

text \<open>
  Joining two trees that do not undercut each other's children: the new tree is again tall
  only if it is heavy.
\<close>

lemma fib_ok_join_le:
  assumes "fib_ok a" "fib_ok b" "height b \<le> height a" "cmax a \<le> weight b"
  shows "fib (height a + 3) \<le> weight a + weight b \<and> fib (height a + 2) \<le> weight a"
proof -
  have wa: "fib (height a + 2) \<le> weight a"
    using assms(1) by (simp add: fib_ok_def)
  have "fib (height a + 1) \<le> weight b"
  proof (cases "is_node a")
    case True
    then show ?thesis using assms(1,4) by (simp add: fib_ok_def)
  next
    case False
    then obtain s w where "a = CLeaf s w" by (cases a) auto
    moreover have "1 \<le> weight b"
      using assms(2) fib_mono [of 2 "height b + 2"] by (simp add: fib_ok_def numeral_2_eq_2)
    ultimately show ?thesis by simp
  qed
  with wa show ?thesis by (simp add: numeral_3_eq_3)
qed

lemma fib_ok_join:
  assumes "fib_ok a" "fib_ok b" "cmax a \<le> weight b" "cmax b \<le> weight a"
  shows "fib_ok (CNode a b)"
proof (cases "height b \<le> height a")
  case True
  then show ?thesis
    using fib_ok_join_le [OF assms(1,2) True assms(3)]
    by (simp add: fib_ok_def max_def numeral_3_eq_3)
next
  case False
  then have "height a \<le> height b" by simp
  then show ?thesis
    using fib_ok_join_le [OF assms(2,1) _ assms(4)] False
    by (simp add: fib_ok_def max_def numeral_3_eq_3 add.commute)
qed

section \<open>The two-queue merge\<close>

text \<open>\<open>ls\<close> is the leaf queue and \<open>ts\<close> the node queue.\<close>

fun adeq :: "ctree list \<Rightarrow> ctree list \<Rightarrow> (ctree \<times> ctree list \<times> ctree list) option" where
  "adeq (l # ls) (t # ts) = (if weight l \<le> weight t then Some (l, ls, t # ts) else Some (t, l # ls, ts))"
| "adeq (l # ls) [] = Some (l, ls, [])"
| "adeq [] (t # ts) = Some (t, [], ts)"
| "adeq [] [] = None"

lemma adeq_total: "0 < length ls + length ts \<Longrightarrow> \<exists>a ls1 ts1. adeq ls ts = Some (a, ls1, ts1)"
  by (cases "(ls, ts)" rule: adeq.cases) auto

lemma adeq_mset: "adeq ls ts = Some (a, ls1, ts1) \<Longrightarrow> mset (ls @ ts) = add_mset a (mset (ls1 @ ts1))"
  by (cases "(ls, ts)" rule: adeq.cases) (auto split: if_splits)

lemma adeq_length:
  "adeq ls ts = Some (a, ls1, ts1) \<Longrightarrow> length ls + length ts = Suc (length ls1 + length ts1)"
  by (cases "(ls, ts)" rule: adeq.cases) (auto split: if_splits)

lemma adeq_sets:
  "adeq ls ts = Some (a, ls1, ts1) \<Longrightarrow>
     set ls1 \<subseteq> set ls \<and> set ts1 \<subseteq> set ts \<and> a \<in> set ls \<union> set ts"
  by (cases "(ls, ts)" rule: adeq.cases) (auto split: if_splits)

definition wsorted :: "ctree list \<Rightarrow> bool" where
  "wsorted ts \<longleftrightarrow> sorted (map weight ts)"

lemma adeq_min:
  assumes "adeq ls ts = Some (a, ls1, ts1)" "wsorted ls" "wsorted ts"
  shows "wsorted ls1 \<and> wsorted ts1 \<and> (\<forall>u \<in> set ls1 \<union> set ts1. weight a \<le> weight u)"
  using assms by (cases "(ls, ts)" rule: adeq.cases) (fastforce simp: wsorted_def split: if_splits)+

definition astep :: "ctree list \<Rightarrow> ctree list \<Rightarrow> (ctree list \<times> ctree list) option" where
  "astep ls ts =
     Option.bind (adeq ls ts) (\<lambda>(a, ls1, ts1).
       Option.bind (adeq ls1 ts1) (\<lambda>(b, ls2, ts2). Some (ls2, ts2 @ [CNode a b])))"

text \<open>The invariant of the merge.\<close>

definition hinv :: "ctree list \<Rightarrow> ctree list \<Rightarrow> bool" where
  "hinv ls ts \<longleftrightarrow> wsorted ls \<and> wsorted ts
     \<and> (\<forall>t \<in> set ls. \<not> is_node t) \<and> (\<forall>t \<in> set ts. is_node t)
     \<and> (\<forall>t \<in> set ls \<union> set ts. fib_ok t)
     \<and> (\<forall>t \<in> set ls \<union> set ts. \<forall>u \<in> set ls \<union> set ts. cmax t \<le> weight u)"

lemma weight_le_cmax: "is_node t \<Longrightarrow> weight t \<le> 2 * cmax t"
  by (cases t) auto

lemma wsorted_snoc:
  "wsorted ts \<Longrightarrow> (\<And>t. t \<in> set ts \<Longrightarrow> weight t \<le> weight u) \<Longrightarrow> wsorted (ts @ [u])"
  by (auto simp: wsorted_def sorted_append)

lemma astep_hinv:
  assumes inv: "hinv ls ts" and n: "1 < length ls + length ts"
  obtains a b ls1 ts1 ls2 ts2 where
    "adeq ls ts = Some (a, ls1, ts1)" "adeq ls1 ts1 = Some (b, ls2, ts2)"
    "hinv ls2 (ts2 @ [CNode a b])"
    "mset (ls @ ts) = add_mset a (add_mset b (mset (ls2 @ ts2)))"
proof -
  have n0: "0 < length ls + length ts" using n by linarith
  obtain a ls1 ts1 where d1: "adeq ls ts = Some (a, ls1, ts1)"
    using adeq_total [OF n0] by blast
  have n1: "0 < length ls1 + length ts1" using adeq_length [OF d1] n by linarith
  obtain b ls2 ts2 where d2: "adeq ls1 ts1 = Some (b, ls2, ts2)"
    using adeq_total [OF n1] by auto
  have s: "wsorted ls" "wsorted ts" using inv by (auto simp: hinv_def)
  note m1 = adeq_min [OF d1 s]
  note m2 = adeq_min [OF d2] 
  have m2': "wsorted ls2" "wsorted ts2" "\<forall>u \<in> set ls2 \<union> set ts2. weight b \<le> weight u"
    using m2 m1 by auto
  note sub1 = adeq_sets [OF d1] and sub2 = adeq_sets [OF d2]
  have ab: "a \<in> set ls \<union> set ts" "b \<in> set ls \<union> set ts" "weight a \<le> weight b"
    using sub1 sub2 m1 by auto
  have rest: "set ls2 \<subseteq> set ls" "set ts2 \<subseteq> set ts" using sub1 sub2 by auto
  have c: "\<And>t u. t \<in> set ls \<union> set ts \<Longrightarrow> u \<in> set ls \<union> set ts \<Longrightarrow> cmax t \<le> weight u"
    using inv by (auto simp: hinv_def)
  have fab: "fib_ok a" "fib_ok b" using inv ab by (auto simp: hinv_def)
  have join: "fib_ok (CNode a b)" using fib_ok_join [OF fab] c ab by blast
  have below: "weight t \<le> weight (CNode a b)" if "t \<in> set ts2" for t
  proof -
    have "t \<in> set ts" using that rest by auto
    then have "weight t \<le> 2 * cmax t" "cmax t \<le> weight a"
      using inv c ab weight_le_cmax by (auto simp: hinv_def)
    then show ?thesis using ab(3) by simp
  qed
  have above: "max (weight a) (weight b) \<le> weight u" if "u \<in> set ls2 \<union> set ts2" for u
    using that m2' ab(3) by auto
  have cn: "cmax t \<le> weight a + weight b" if "t \<in> set ls \<union> set ts" for t
    using c [OF that ab(1)] by simp
  have "hinv ls2 (ts2 @ [CNode a b])"
    using inv rest join wsorted_snoc [OF m2'(2) below] m2'(1) above cn c
    by (auto simp: hinv_def subset_iff)
  moreover have "mset (ls @ ts) = add_mset a (add_mset b (mset (ls2 @ ts2)))"
    using adeq_mset [OF d1] adeq_mset [OF d2] by simp
  ultimately show thesis using d1 d2 that by blast
qed

definition all_leaves :: "ctree list \<Rightarrow> (nat \<times> nat) multiset" where
  "all_leaves ts = mset (concat (map leaves ts))"

lemma all_leaves_mset: "mset xs = mset ys \<Longrightarrow> all_leaves xs = all_leaves ys"
proof -
  have "all_leaves zs = \<Sum>\<^sub># (image_mset (\<lambda>t. mset (leaves t)) (mset zs))" for zs
    by (induction zs) (auto simp: all_leaves_def)
  then show "mset xs = mset ys \<Longrightarrow> all_leaves xs = all_leaves ys" by simp
qed

lemma all_leaves_step:
  assumes "mset (ls @ ts) = add_mset a (add_mset b (mset (ls2 @ ts2)))"
  shows "all_leaves (ls2 @ ts2 @ [CNode a b]) = all_leaves (ls @ ts)"
proof -
  have "mset (ls @ ts) = mset (a # b # ls2 @ ts2)" using assms by simp
  then have "all_leaves (ls @ ts) = all_leaves (a # b # ls2 @ ts2)" by (rule all_leaves_mset)
  then show ?thesis by (simp add: all_leaves_def ac_simps)
qed

lemma weight_leaves: "weight t = (\<Sum>(s, w) \<leftarrow> leaves t. w)"
  by (induction t) auto

lemma weight_le_total:
  assumes "t \<in> set ts"
  shows "weight t \<le> (\<Sum>(s, w) \<in># all_leaves ts. w)"
  using assms
proof (induction ts)
  case Nil
  then show ?case by simp
next
  case (Cons u ts)
  have "(\<Sum>(s, w) \<in># all_leaves (u # ts). w) = weight u + (\<Sum>(s, w) \<in># all_leaves ts. w)"
    by (simp add: all_leaves_def weight_leaves sum_mset_sum_list flip: mset_map)
  then show ?case using Cons by auto
qed

end
