(* ===== verification/HuffmanCorrect.thy ===== *)
theory HuffmanCorrect
  imports DhtHuffman CodeTree
begin

text \<open>
  The refinement of \<^verbatim>\<open>huffman_tree\<close> to the abstract merge of \<open>CodeTree\<close>, and its
  consequences for the code lengths: Kraft's equality, the bound on the maximum depth, and the
  termination of \<^verbatim>\<open>huffmanize\<close>.
\<close>

section \<open>Nodes in the array represent trees\<close>

primrec item :: "tree_node_t list \<Rightarrow> bool \<Rightarrow> nat \<Rightarrow> ctree \<Rightarrow> bool" where
  "item ns f i (CLeaf s w) = (f \<and> i = s)"
| "item ns f i (CNode l r) =
     (\<not> f \<and> i < length ns \<and> symbol (sc (ns ! i)) = i \<and> count (sc (ns ! i)) = weight l + weight r
      \<and> item ns (is_leaf0 (ns ! i)) (child0 (ns ! i)) l
      \<and> item ns (is_leaf1 (ns ! i)) (child1 (ns ! i)) r)"

lemma item_append: "item ns f i t \<Longrightarrow> item (ns @ [x]) f i t"
  by (induction t arbitrary: f i) auto

lemma item_is_leaf: "item ns f i t \<Longrightarrow> f = (\<not> is_node t)"
  by (cases t) auto

definition leaf_rel :: "leaf_node_t \<Rightarrow> ctree \<Rightarrow> bool" where
  "leaf_rel l t \<longleftrightarrow> t = CLeaf (symbol l) (count l)"

definition node_rel :: "tree_node_t list \<Rightarrow> tree_node_t \<Rightarrow> ctree \<Rightarrow> bool" where
  "node_rel ns n t \<longleftrightarrow> item ns False (symbol (sc n)) t \<and> count (sc n) = weight t"

definition qcore ::
  "leaf_node_t q_t \<Rightarrow> tree_node_t q_t \<Rightarrow> ctree list \<Rightarrow> ctree list \<Rightarrow> bool" where
  "qcore lq nq ls ts \<longleftrightarrow>
     q_ok lq \<and> q_ok nq
     \<and> list_all2 leaf_rel (q_contents lq) ls
     \<and> list_all2 (node_rel (q_store nq)) (q_contents nq) ts"

definition same_array :: "'a q_t \<Rightarrow> 'a q_t \<Rightarrow> bool" where
  "same_array q q' \<longleftrightarrow>
     q_tail q' = q_tail q \<and> q_num_elts q' = q_num_elts q \<and> q_arr q' = q_arr q"

text \<open>
  One slot of the node array is used per merge: the position of the next node and the number
  of queued trees add up to the number of leaves.
\<close>

definition qrel ::
  "nat \<Rightarrow> leaf_node_t q_t \<Rightarrow> tree_node_t q_t \<Rightarrow> ctree list \<Rightarrow> ctree list \<Rightarrow> bool" where
  "qrel nz lq nq ls ts \<longleftrightarrow>
     qcore lq nq ls ts
     \<and> q_num_elts nq = 2 * nz - 1 \<and> length (q_arr nq) = NLEN \<and> nz \<le> NLEN
     \<and> q_tail nq + (length ls + length ts) = nz"

lemma same_array_refl [simp]: "same_array q q"
  by (simp add: same_array_def)

lemma same_array_del [simp]: "same_array q (snd (del_q q))"
  by (simp add: same_array_def del_q_def)

lemma same_array_trans: "same_array q q' \<Longrightarrow> same_array q' q'' \<Longrightarrow> same_array q q''"
  by (simp add: same_array_def)

lemma same_array_store: "same_array q q' \<Longrightarrow> q_store q' = q_store q"
  by (simp add: same_array_def q_store_def)

lemma qcore_number:
  "qcore lq nq ls ts \<Longrightarrow> countof_q lq = length ls \<and> countof_q nq = length ts"
  by (auto simp: qcore_def nxq.number_contents dest: list_all2_lengthD)

lemma qcore_del_leaf:
  assumes "qcore lq nq (l # ls) ts"
  obtains n x where "headof_q lq = (Suc n, Some x)" "leaf_rel x l"
    "qcore (snd (del_q lq)) nq ls ts"
proof -
  obtain x xs where c: "q_contents lq = x # xs" "leaf_rel x l" "list_all2 leaf_rel xs ls"
    using assms by (auto simp: qcore_def list_all2_Cons2)
  have ok: "q_ok lq" using assms by (simp add: qcore_def)
  show thesis
    using assms c nxq.first_Cons [OF ok c(1)] nxq.del_Cons [OF ok c(1)]
    by (intro that [of "length xs" x]) (auto simp: qcore_def)
qed

lemma qcore_del_node:
  assumes "qcore lq nq ls (t # ts)"
  obtains n y where "headof_q nq = (Suc n, Some y)" "node_rel (q_store nq) y t"
    "qcore lq (snd (del_q nq)) ls ts"
proof -
  obtain y ys where c: "q_contents nq = y # ys" "node_rel (q_store nq) y t"
      "list_all2 (node_rel (q_store nq)) ys ts"
    using assms by (auto simp: qcore_def list_all2_Cons2)
  have ok: "q_ok nq" using assms by (simp add: qcore_def)
  show thesis
    using assms c nxq.first_Cons [OF ok c(1)] nxq.del_Cons [OF ok c(1)]
    by (intro that [of "length ys" y]) (auto simp: qcore_def same_array_store [OF same_array_del])
qed

lemma qcore_empty:
  "qcore lq nq [] ts \<Longrightarrow> \<exists>o1. headof_q lq = (0, o1)" "qcore lq nq ls [] \<Longrightarrow> \<exists>o2. headof_q nq = (0, o2)"
  using nxq.first_Nil [of lq] nxq.first_Nil [of nq]
  by (cases "headof_q lq"; cases "headof_q nq"; auto simp: qcore_def)+

lemma leaf_rel_item: "leaf_rel x l \<Longrightarrow> item ns True (symbol x) l \<and> count x = weight l"
  by (auto simp: leaf_rel_def)

lemma deq_min_sim:
  assumes rel: "qcore lq nq ls ts" and deq: "adeq ls ts = Some (a, ls1, ts1)"
  shows "\<exists>e f lq1 nq1. deq_min lq nq = Some ((e, f), lq1, nq1) \<and> qcore lq1 nq1 ls1 ts1
    \<and> same_array nq nq1 \<and> item (q_store nq) f (symbol e) a \<and> count e = weight a"
proof (cases "(ls, ts)" rule: adeq.cases)
  case (1 l ls' t ts')
  then have rel': "qcore lq nq (l # ls') (t # ts')" using rel by simp
  obtain n x where x: "headof_q lq = (Suc n, Some x)" "leaf_rel x l"
    "qcore (snd (del_q lq)) nq ls' (t # ts')" by (rule qcore_del_leaf [OF rel'])
  obtain m y where y: "headof_q nq = (Suc m, Some y)"
    "node_rel (q_store nq) y t" "qcore lq (snd (del_q nq)) (l # ls') ts'"
    by (rule qcore_del_node [OF rel'])
  have w: "count x = weight l" "count (sc y) = weight t"
    using x(2) y(2) by (auto simp: leaf_rel_def node_rel_def)
  show ?thesis
  proof (cases "weight l \<le> weight t")
    case True
    have "deq_min lq nq = Some ((x, True), snd (del_q lq), nq)"
      using True w by (simp add: deq_min_def x(1) y(1))
    then show ?thesis using True 1 deq x(3) w leaf_rel_item [OF x(2)] by auto
  next
    case False
    have "deq_min lq nq = Some ((sc y, False), lq, snd (del_q nq))"
      using False w by (simp add: deq_min_def x(1) y(1))
    then show ?thesis using False 1 deq y(2,3) w by (auto simp: node_rel_def)
  qed
next
  case (2 l ls')
  then have rel': "qcore lq nq (l # ls') []" using rel by simp
  obtain n x where x: "headof_q lq = (Suc n, Some x)" "leaf_rel x l"
    "qcore (snd (del_q lq)) nq ls' []" by (rule qcore_del_leaf [OF rel'])
  obtain o2 where "headof_q nq = (0, o2)" using qcore_empty(2) [OF rel'] by blast
  then have "deq_min lq nq = Some ((x, True), snd (del_q lq), nq)"
    by (simp add: deq_min_def x(1))
  then show ?thesis using 2 deq x(3) leaf_rel_item [OF x(2)] by auto
next
  case (3 t ts')
  then have rel': "qcore lq nq [] (t # ts')" using rel by simp
  obtain m y where y: "headof_q nq = (Suc m, Some y)"
    "node_rel (q_store nq) y t" "qcore lq (snd (del_q nq)) [] ts'"
    by (rule qcore_del_node [OF rel'])
  obtain o1 where "headof_q lq = (0, o1)" using qcore_empty(1) [OF rel'] by blast
  then have "deq_min lq nq = Some ((sc y, False), lq, snd (del_q nq))"
    by (simp add: deq_min_def y(1))
  then show ?thesis using 3 deq y(2,3) by (auto simp: node_rel_def)
next
  case 4
  then show ?thesis using deq by simp
qed

lemma node_rel_append: "node_rel ns n t \<Longrightarrow> node_rel (ns @ [x]) n t"
  by (simp add: node_rel_def item_append)

lemma qcore_add:
  assumes rel: "qcore lq nq ls ts" and room: "q_room nq"
    and new: "node_rel (q_store nq @ [n]) n t"
  shows "qcore lq (add_q n nq) ls (ts @ [t])"
proof -
  have ok: "q_ok nq" using rel by (simp add: qcore_def)
  have "list_all2 (node_rel (q_store nq @ [n])) (q_contents nq) ts"
    using rel by (auto simp: qcore_def node_rel_append elim!: list_all2_mono)
  then show ?thesis
    using rel new
    by (simp add: qcore_def nxq.contents_add [OF ok room] nxq.invar_add [OF ok room]
        nxq_store.store_add [OF ok room] list_all2_appendI)
qed

lemma huff_step_sim:
  assumes rel: "qrel nz lq nq ls ts"
    and d1: "adeq ls ts = Some (a, ls1, ts1)" and d2: "adeq ls1 ts1 = Some (b, ls2, ts2)"
    and small: "weight a + weight b < 2 ^ 32"
  shows "\<exists>lq' nq'. huff_step lq nq = Some (lq', nq') \<and> qrel nz lq' nq' ls2 (ts2 @ [CNode a b])"
proof -
  have core: "qcore lq nq ls ts" using rel by (simp add: qrel_def)
  obtain e f lq1 nq1 where s1: "deq_min lq nq = Some ((e, f), lq1, nq1)" "qcore lq1 nq1 ls1 ts1"
    "same_array nq nq1" "item (q_store nq) f (symbol e) a" "count e = weight a"
    using deq_min_sim [OF core d1] by blast
  obtain e' f' lq2 nq2 where s2: "deq_min lq1 nq1 = Some ((e', f'), lq2, nq2)"
    "qcore lq2 nq2 ls2 ts2" "same_array nq1 nq2" "item (q_store nq1) f' (symbol e') b"
    "count e' = weight b"
    using deq_min_sim [OF s1(2) d2] by blast
  have arr: "same_array nq nq2" using s1(3) s2(3) by (rule same_array_trans)
  have st: "q_store nq1 = q_store nq" "q_store nq2 = q_store nq"
    using same_array_store [OF s1(3)] same_array_store [OF arr] by auto
  have len: "length ls + length ts = Suc (Suc (length ls2 + length ts2))"
    using adeq_length [OF d1] adeq_length [OF d2] by simp
  have tail: "q_tail nq2 + Suc (Suc (length ls2 + length ts2)) = nz" "nz \<le> NLEN"
    "q_num_elts nq2 = 2 * nz - 1" "length (q_arr nq2) = NLEN"
    using rel len arr by (auto simp: qrel_def same_array_def)
  have room: "q_room nq2" using tail by (auto simp: q_room_def)
  let ?n = "\<lparr>sc = \<lparr>symbol = q_tail nq2, count = (count e + count e') mod 2 ^ 32\<rparr>,
    child0 = symbol e, child1 = symbol e', is_leaf0 = f, is_leaf1 = f'\<rparr>"
  have pos: "q_tail nq2 = length (q_store nq)"
    using nxq_store.next_slot_store [of nq2] s2(2) st by (simp add: qcore_def)
  have "node_rel (q_store nq2 @ [?n]) ?n (CNode a b)"
    using s1(4,5) s2(4,5) st small pos item_append
    by (simp add: node_rel_def)
  then have core': "qcore lq2 (add_q ?n nq2) ls2 (ts2 @ [CNode a b])"
    by (rule qcore_add [OF s2(2) room])
  have "(q_tail nq2 + 1) mod q_num_elts nq2 = q_tail nq2 + 1"
    using room by (simp add: q_room_def)
  then have "qrel nz lq2 (add_q ?n nq2) ls2 (ts2 @ [CNode a b])"
    using core' tail by (simp add: qrel_def add_q_def)
  moreover have "huff_step lq nq = Some (lq2, add_q ?n nq2)"
    by (simp add: huff_step_def s1(1) s2(1))
  ultimately show ?thesis by blast
qed

section \<open>The whole merge\<close>

lemma all_leaves_single: "all_leaves [t] = mset (leaves t)"
  by (simp add: all_leaves_def)

lemma huff_loop_sim:
  assumes "qrel nz lq nq ls ts" "hinv ls ts" "(\<Sum>(s, w) \<in># all_leaves (ls @ ts). w) < 2 ^ 32"
    and "1 < length ls + length ts \<or> (ls = [] \<and> length ts = 1)"
  shows "\<exists>lq' nq' t. huff_loop lq nq = Some (lq', nq') \<and> qrel nz lq' nq' [] [t] \<and> hinv [] [t]
    \<and> mset (leaves t) = all_leaves (ls @ ts)"
  using assms
proof (induction "length ls + length ts" arbitrary: ls ts lq nq rule: less_induct)
  case less
  have num: "countof_q lq = length ls" "countof_q nq = length ts"
    using qcore_number less.prems(1) by (auto simp: qrel_def)
  show ?case
  proof (cases "1 < length ls + length ts")
    case False
    then obtain t where "ls = []" "ts = [t]"
      using less.prems(4) by (auto simp: length_Suc_conv)
    moreover have "huff_loop lq nq = Some (lq, nq)"
      using False num by (simp add: huff_loop.simps)
    ultimately show ?thesis
      using less.prems(1,2) by (auto simp: all_leaves_single)
  next
    case True
    obtain a b ls1 ts1 ls2 ts2 where st:
      "adeq ls ts = Some (a, ls1, ts1)" "adeq ls1 ts1 = Some (b, ls2, ts2)"
      "hinv ls2 (ts2 @ [CNode a b])"
      "mset (ls @ ts) = add_mset a (add_mset b (mset (ls2 @ ts2)))"
      by (rule astep_hinv [OF less.prems(2) True])
    have leaves: "all_leaves (ls2 @ ts2 @ [CNode a b]) = all_leaves (ls @ ts)"
      using st(4) by (rule all_leaves_step)
    have "weight (CNode a b) < 2 ^ 32"
      using weight_le_total [of "CNode a b" "ls2 @ ts2 @ [CNode a b]"] leaves less.prems(3) by simp
    then have small: "weight a + weight b < 2 ^ 32" by simp
    obtain lq' nq' where s: "huff_step lq nq = Some (lq', nq')"
      "qrel nz lq' nq' ls2 (ts2 @ [CNode a b])"
      using huff_step_sim [OF less.prems(1) st(1,2) small] by blast
    have shorter: "length ls2 + length (ts2 @ [CNode a b]) < length ls + length ts"
      using adeq_length [OF st(1)] adeq_length [OF st(2)] by simp
    have nonempty: "1 < length ls2 + length (ts2 @ [CNode a b])
        \<or> (ls2 = [] \<and> length (ts2 @ [CNode a b]) = 1)"
      by (cases ls2) auto
    have "huff_loop lq nq = huff_loop lq' nq'"
      using True num s(1) by (subst huff_loop.simps) simp
    then show ?thesis
      using less.hyps [OF shorter s(2) st(3) _ nonempty] leaves less.prems(3) by simp
  qed
qed

section \<open>The tree walk\<close>

lemma tree_walk_sim:
  assumes "item ns False i t" "is_node t" "\<forall>k < length ns. tree ! k = Some (ns ! k)"
    and "length ns \<le> length tree" "0 < d" "d + height t \<le> 32"
    and "\<forall>(s, w) \<in> set (leaves t). base + s < length lens"
  shows "tree_walk tree base i d lens m =
    Some (write_lens base lens (clens t (d - 1)), max m (d - 1 + height t))"
  using assms
proof (induction t arbitrary: i d lens m)
  case (CLeaf s w)
  then show ?case by simp
next
  case (CNode l r)
  let ?n = "ns ! i" and ?dp = "if d < 31 then d + 1 else (31::nat)"
  have i: "i < length tree" "tree ! i = Some ?n" using CNode.prems(1,3,4) by auto
  have child: "(if f then Option.bind (write_len ls (base + c) d) (\<lambda>l. Some (l, mx))
       else tree_walk tree base c ?dp ls mx)
     = Some (write_lens base ls (clens u d), max mx (d + height u))"
    if u: "u = l \<or> u = r" and it: "item ns f c u" and mx: "d \<le> mx" and ls: "length ls = length lens"
    for f c u ls mx
  proof (cases u)
    case (CLeaf s w)
    then have "c = s" "f" "base + s < length ls" using u it ls CNode.prems(7) by auto
    then show ?thesis using CLeaf mx by (simp add: write_len_def)
  next
    case (CNode l' r')
    have "height u < height (CNode l r)" using u by auto
    then have d: "d < 31" "d + 1 + height u \<le> 32" using CNode CNode.prems(6) by auto
    have nf: "\<not> f" "is_node u" using it CNode by auto
    have b: "\<forall>(s, w) \<in> set (leaves u). base + s < length ls"
      using u ls CNode.prems(7) by auto
    have it': "item ns False c u" using it nf by simp
    have "tree_walk tree base c (d + 1) ls mx
      = Some (write_lens base ls (clens u (d + 1 - 1)), max mx (d + 1 - 1 + height u))"
      using u
    proof
      assume "u = l"
      then show ?thesis
        using CNode.IH(1) [of c "d + 1" ls mx] it' nf b d(2) CNode.prems(3,4) by simp
    next
      assume "u = r"
      then show ?thesis
        using CNode.IH(2) [of c "d + 1" ls mx] it' nf b d(2) CNode.prems(3,4) by simp
    qed
    then show ?thesis using nf d(1) by simp
  qed
  have items: "item ns (is_leaf0 ?n) (child0 ?n) l" "item ns (is_leaf1 ?n) (child1 ?n) r"
    using CNode.prems(1) by auto
  let ?w1 = "write_lens base lens (clens l d)" and ?m1 = "max (max m d) (d + height l)"
  have c1: "(if is_leaf0 ?n then Option.bind (write_len lens (base + child0 ?n) d) (\<lambda>l. Some (l, max m d))
      else tree_walk tree base (child0 ?n) ?dp lens (max m d)) = Some (?w1, ?m1)"
    by (rule child [OF _ items(1)]) auto
  have c2: "(if is_leaf1 ?n then Option.bind (write_len ?w1 (base + child1 ?n) d) (\<lambda>l. Some (l, ?m1))
      else tree_walk tree base (child1 ?n) ?dp ?w1 ?m1)
    = Some (write_lens base ?w1 (clens r d), max ?m1 (d + height r))"
    by (rule child [OF _ items(2)]) auto
  have mx: "(if m < d then d else m) = max m d" by simp
  have "tree_walk tree base i d lens m
    = Some (write_lens base ?w1 (clens r d), max ?m1 (d + height r))"
    by (subst tree_walk.simps)
      (simp only: i if_True option.case Let_def mx c1 c2 bind.simps prod.case)
  moreover have "max ?m1 (d + height r) = max m (d - 1 + height (CNode l r))"
    using CNode.prems(5) by simp
  moreover have "clens (CNode l r) (d - 1) = clens l d @ clens r d"
    using CNode.prems(5) by simp
  ultimately show ?case by simp
qed

section \<open>Sorting the leaves\<close>

lemma mset_qsort_insert: "mset (qsort_insert x ys) = add_mset x (mset ys)"
  by (induction ys) auto

lemma mset_qsort: "mset (qsort_leaves xs) = mset xs"
  by (induction xs) (auto simp: qsort_leaves_def mset_qsort_insert)

lemma set_qsort_insert: "set (qsort_insert x ys) = insert x (set ys)"
  by (induction ys) auto

lemma cmp_count_key: "cmp_count x y < 0 \<Longrightarrow> cmp_key x \<le> cmp_key y"
  "\<not> cmp_count x y < 0 \<Longrightarrow> cmp_key y \<le> cmp_key x"
  by (auto simp: cmp_count_def split: if_splits)

lemma sorted_qsort_insert:
  "sorted (map cmp_key ys) \<Longrightarrow> sorted (map cmp_key (qsort_insert x ys))"
proof (induction ys)
  case (Cons y ys)
  then show ?case
    using cmp_count_key [of x y] by (fastforce simp: set_qsort_insert)
qed simp

lemma sorted_qsort: "sorted (map cmp_key (qsort_leaves xs))"
  by (induction xs) (auto simp: qsort_leaves_def sorted_qsort_insert)

lemma to_int32_small: "c < 2 ^ 31 \<Longrightarrow> to_int32 c = int c"
  by (simp add: to_int32_def signed_of_nat signed_take_bit_int_eq_self)

lemma take_filter_sorted:
  assumes "\<And>x y. x \<in> set xs \<Longrightarrow> y \<in> set xs \<Longrightarrow> P x \<Longrightarrow> \<not> P y \<Longrightarrow> f x < (f y :: int)"
    and "sorted (map f xs)"
  shows "take (length (filter P xs)) xs = filter P xs"
  using assms
proof (induction xs)
  case (Cons x xs)
  show ?case
  proof (cases "P x")
    case True
    then show ?thesis using Cons by simp
  next
    case False
    have "\<not> P y" if "y \<in> set xs" for y
      using Cons.prems that False by (metis list.set_intros linorder_not_le list.simps(9) sorted_simps(2) imageI list.set_map)
    then have "filter P xs = []" by (simp add: filter_empty_conv)
    then show ?thesis using False by simp
  qed
qed simp

text \<open>The sorted leaf array starts with the non-zero leaves in ascending order.\<close>

lemma sorted_leaves_prefix:
  assumes "\<forall>x \<in> set xs. count x < 2147483647"
  defines "nz \<equiv> filter (\<lambda>x. count x \<noteq> 0) (qsort_leaves xs)"
  shows "take (length (filter (\<lambda>x. count x \<noteq> 0) xs)) (qsort_leaves xs) = nz"
    and "sorted (map count nz)" and "mset nz = mset (filter (\<lambda>x. count x \<noteq> 0) xs)"
proof -
  have set: "set (qsort_leaves xs) = set xs"
    by (metis mset_qsort set_mset_mset)
  have key: "cmp_key x = (if count x = 0 then 2147483647 else int (count x))" if "x \<in> set xs" for x
    using that assms by (auto simp: cmp_key_def to_int32_small)
  show m: "mset nz = mset (filter (\<lambda>x. count x \<noteq> 0) xs)"
    by (simp add: nz_def mset_qsort)
  have "length nz = length (filter (\<lambda>x. count x \<noteq> 0) xs)"
    using mset_eq_length [OF m] by simp
  moreover have "take (length nz) (qsort_leaves xs) = nz"
    unfolding nz_def
    by (rule take_filter_sorted [where f = cmp_key, OF _ sorted_qsort])
       (use set key assms in auto)
  ultimately show "take (length (filter (\<lambda>x. count x \<noteq> 0) xs)) (qsort_leaves xs) = nz" by simp
  have "sorted (map cmp_key nz)"
    using sorted_qsort sorted_filter unfolding nz_def by blast
  moreover have "map cmp_key nz = map int (map count nz)"
    using set key by (auto simp: nz_def)
  ultimately show "sorted (map count nz)"
    by (simp add: sorted_map)
qed

section \<open>Correctness of \<^verbatim>\<open>huffman_tree\<close>\<close>

definition nonzero :: "nat list \<Rightarrow> nat \<Rightarrow> nat list" where
  "nonzero hist nsym = filter (\<lambda>i. hist ! i \<noteq> 0) [0..<nsym]"

lemma q_ok_leaf_queue:
  assumes "0 < nz" "nz \<le> length xs"
  shows "q_ok ((init_q (map Some xs @ replicate k None) nz)\<lparr>q_tail := nz, q_count := nz\<rparr>)"
    and "q_contents ((init_q (map Some xs @ replicate k None) nz)\<lparr>q_tail := nz, q_count := nz\<rparr>)
      = take nz xs"
  using assms by (auto simp: q_ok_def q_contents_def init_q_def take_map map_idI)

lemma q_ok_node_queue:
  "0 < n \<Longrightarrow> q_ok (init_q a n) \<and> q_contents (init_q a n) = [] \<and> q_store (init_q a n) = []"
  by (simp add: q_ok_def q_contents_def q_store_def init_q_def)

lemma q_store_cells: "q_ok q \<Longrightarrow> k < length (q_store q) \<Longrightarrow> q_arr q ! k = Some (q_store q ! k)"
  by (auto simp: q_ok_def q_store_def)

primrec fib_acc :: "nat \<Rightarrow> nat \<Rightarrow> nat \<Rightarrow> nat" where
  "fib_acc 0 a b = a"
| "fib_acc (Suc n) a b = fib_acc n b (a + b)"

lemma fib_acc_numeral [simp]:
  "fib_acc (numeral n) a b = fib_acc (pred_numeral n) b (a + b)"
  by (simp add: numeral_eq_Suc)

lemma fib_acc: "fib_acc n (fib k) (fib (Suc k)) = fib (n + k)"
proof (induction n arbitrary: k)
  case (Suc n)
  have "fib_acc (Suc n) (fib k) (fib (Suc k)) = fib_acc n (fib (Suc k)) (fib (Suc (Suc k)))"
    by (simp add: add.commute)
  then show ?case using Suc [of "Suc k"] by simp
qed simp

lemma fib_eq_fib_acc: "fib n = fib_acc n 0 1"
  using fib_acc [of n 0] by simp

lemma fib_values: "fib 18 = 2584" "fib 22 = 17711"
  using fib_acc.simps(2) [of 0, folded One_nat_def] by (simp_all add: fib_eq_fib_acc del: One_nat_def fib_acc.simps(2))

lemma huffman_tree_correct:
  assumes nsym: "nsym \<le> NLEN" and two: "2 \<le> length (nonzero hist nsym)"
    and total: "(\<Sum>i \<leftarrow> [0..<nsym]. hist ! i) < 17711"
    and lens: "base + nsym \<le> length lens"
  shows "\<exists>t. huffman_tree hist nsym lens base = Some (write_lens base lens (clens t 0), height t)
    \<and> is_node t \<and> fib (height t + 2) \<le> (\<Sum>i \<leftarrow> [0..<nsym]. hist ! i)
    \<and> mset (leaves t) = mset (map (\<lambda>i. (i, hist ! i)) (nonzero hist nsym))"
proof -
  define xs where "xs = map (\<lambda>i. \<lparr>symbol = i, count = hist ! i\<rparr>) [0..<nsym]"
  define nz where "nz = length (nonzero hist nsym)"
  define sel where "sel = filter (\<lambda>x. count x \<noteq> 0) (qsort_leaves xs)"
  let ?lq = "(init_q (map Some (qsort_leaves xs) @ replicate (NLEN - nsym) None) nz)\<lparr>q_tail := nz, q_count := nz\<rparr>"
  let ?nq = "init_q (replicate NLEN None) (2 * nz - 1) :: tree_node_t q_t"
  let ?ls = "map (\<lambda>l. CLeaf (symbol l) (count l)) sel"
  have filt: "filter (\<lambda>x. count x \<noteq> 0) xs = map (\<lambda>i. \<lparr>symbol = i, count = hist ! i\<rparr>) (nonzero hist nsym)"
    by (simp add: xs_def nonzero_def filter_map o_def)
  have small: "count x < 2147483647" if "x \<in> set xs" for x
    using that total member_le_sum_list [of "count x" "map (\<lambda>i. hist ! i) [0..<nsym]"]
    by (auto simp: xs_def)
  have len: "length (qsort_leaves xs) = nsym"
    using mset_eq_length [OF mset_qsort [of xs]] by (simp add: xs_def)
  have nzle: "nz \<le> nsym" "0 < nz"
    using two length_filter_le [of _ "[0..<nsym]"] by (auto simp: nz_def nonzero_def)
  have nzlen: "length (filter (\<lambda>x. count x \<noteq> 0) xs) = nz"
    unfolding filt by (simp add: nz_def)
  have pre: "take nz (qsort_leaves xs) = sel" "sorted (map count sel)"
    "mset sel = mset (filter (\<lambda>x. count x \<noteq> 0) xs)"
    using sorted_leaves_prefix [of xs] small unfolding sel_def nzlen by blast+
  have lensel: "length sel = nz"
    using mset_eq_length [OF pre(3)] unfolding nzlen .
  have selnz: "0 < count x" if "x \<in> set sel" for x
    using that by (simp add: sel_def)
  have core: "qcore ?lq ?nq ?ls []"
    using q_ok_leaf_queue [of nz "qsort_leaves xs" "NLEN - nsym"] q_ok_node_queue [of "2 * nz - 1" "replicate NLEN None :: tree_node_t option list"]
      nzle len pre(1)
    by (simp add: qcore_def leaf_rel_def list_all2_conv_all_nth)
  have rel: "qrel nz ?lq ?nq ?ls []"
    using core nzle nsym lensel by (simp add: qrel_def init_q_def)
  have inv: "hinv ?ls []"
    using pre(2) selnz by (fastforce simp: hinv_def wsorted_def comp_def fib_ok_def numeral_2_eq_2 Suc_le_eq)
  have leavesM: "all_leaves (?ls @ []) = mset (map (\<lambda>i. (i, hist ! i)) (nonzero hist nsym))"
  proof -
    have "all_leaves ?ls = image_mset (\<lambda>l. (symbol l, count l)) (mset sel)"
      by (induction sel) (auto simp: all_leaves_def)
    also have "\<dots> = image_mset (\<lambda>l. (symbol l, count l)) (mset (map (\<lambda>i. \<lparr>symbol = i, count = hist ! i\<rparr>) (nonzero hist nsym)))"
      unfolding pre(3) filt ..
    finally show ?thesis by (simp add: multiset.map_comp comp_def)
  qed
  have sumnz: "(\<Sum>(s, w) \<in># all_leaves (?ls @ []). w) = (\<Sum>i \<leftarrow> [0..<nsym]. hist ! i)"
    unfolding leavesM nonzero_def
    by (simp add: sum_mset_sum_list comp_def flip: mset_map) (induction nsym; simp)
  obtain lq' nq' t where run: "huff_loop ?lq ?nq = Some (lq', nq')" "qrel nz lq' nq' [] [t]"
    "hinv [] [t]" "mset (leaves t) = all_leaves (?ls @ [])"
    using huff_loop_sim [OF rel inv] sumnz total two lensel by (auto simp: nz_def)
  have tw: "weight t = (\<Sum>i \<leftarrow> [0..<nsym]. hist ! i)"
    using sumnz unfolding weight_leaves run(4) [symmetric]
    by (simp add: sum_mset_sum_list flip: mset_map)
  have fib: "fib (height t + 2) \<le> weight t" "is_node t"
    using run(3) by (auto simp: hinv_def fib_ok_def)
  have h: "height t \<le> 31"
  proof (rule ccontr)
    assume "\<not> height t \<le> 31"
    then have "fib 22 \<le> fib (height t + 2)" by (intro fib_mono) simp
    then show False using fib tw total fib_values by simp
  qed
  obtain n where n: "q_contents nq' = [n]" "node_rel (q_store nq') n t" and ok: "q_ok nq'"
    using run(2) by (auto simp: qrel_def qcore_def list_all2_Cons2)
  have root: "headof_q nq' = (1, Some n)"
    using nxq.first_Cons [OF ok n(1)] by simp
  have syms: "\<forall>(s, w) \<in> set (leaves t). base + s < length lens"
  proof -
    have "set (leaves t) = set (map (\<lambda>i. (i, hist ! i)) (nonzero hist nsym))"
      using run(4) leavesM by (metis set_mset_mset)
    then show ?thesis using lens by (auto simp: nonzero_def)
  qed
  have walk: "tree_walk (q_arr nq') base (symbol (sc n)) 1 lens 0
    = Some (write_lens base lens (clens t (1 - 1)), max 0 (1 - 1 + height t))"
    using n(2) fib(2) h syms q_store_cells [OF ok] ok
    by (intro tree_walk_sim [of "q_store nq'"]) (auto simp: node_rel_def q_store_def)
  have copy: "copy_hist_to_leaf_node hist nsym = (xs, nz)"
    by (simp add: copy_hist_to_leaf_node_def xs_def nz_def nonzero_def)
  have "huffman_tree hist nsym lens base = Some (write_lens base lens (clens t 0), height t)"
    using walk by (simp add: huffman_tree_def copy run(1) [unfolded One_nat_def] root)
  then show ?thesis using fib tw run(4) leavesM by auto
qed

end
