(* ===== verification/Huffmanize.thy ===== *)
theory Huffmanize
  imports HuffmanCorrect
begin

text \<open>
  The length-limiting loop \<^verbatim>\<open>huffmanize\<close> of \<^verbatim>\<open>lib/nx_dhtgen.c\<close>: the scaled histogram keeps the
  set of used symbols and has a sum near the limit, the Fibonacci bound on the height of a
  Huffman tree then bounds the depth, so the loop ends with codes of at most 15 bits that form a
  complete prefix code.
\<close>

section \<open>Scaling the histogram\<close>

definition hist_ok :: "nat list \<Rightarrow> nat \<Rightarrow> bool" where
  "hist_ok hist nsym \<longleftrightarrow>
     nsym \<le> NLEN \<and> nsym \<le> length hist \<and> (\<forall>i < nsym. hist ! i < 2 ^ 32)
     \<and> 2 \<le> length (nonzero hist nsym)"

lemma sum_list_bound: "(\<forall>x \<in> set xs. x < b) \<Longrightarrow> sum_list xs \<le> length xs * (b::nat)"
  by (induction xs) (auto simp: add_mono less_imp_le)

lemma fold_sum_mod:
  "s + sum_list xs < 2 ^ 64 \<Longrightarrow> fold (\<lambda>h s. (s + h) mod 2 ^ 64) xs s = s + (sum_list xs :: nat)"
  by (induction xs arbitrary: s) auto

lemma ceil_div_bounds:
  fixes d h :: nat
  assumes "0 < d"
  shows "(h + d - 1) div d \<le> h" and "(h + d - 1) div d = 0 \<longleftrightarrow> h = 0"
    and "(h + d - 1) div d * d \<le> h + (d - 1)" and "h \<le> (h + d - 1) div d * d"
proof -
  show "(h + d - 1) div d = 0 \<longleftrightarrow> h = 0"
    using assms by (cases h) (auto simp: div_eq_0_iff)
  show "(h + d - 1) div d * d \<le> h + (d - 1)"
    using div_times_less_eq_dividend [of "h + d - 1" d] assms by simp
  show "h \<le> (h + d - 1) div d * d"
  proof -
    have "h + d - 1 < (h + d - 1) div d * d + d"
      using assms by (metis add.commute dividend_less_div_times mult.commute)
    then show ?thesis using assms by simp
  qed
  show "(h + d - 1) div d \<le> h"
  proof (cases h)
    case (Suc k)
    have "h + d - 1 \<le> h * d" using assms Suc by (cases d) auto
    then have "(h + d - 1) div d \<le> h * d div d" by (rule div_le_mono)
    then show ?thesis using assms by simp
  qed (use assms in simp)
qed

lemma sum_ceil_div:
  fixes d :: nat
  assumes "0 < d"
  shows "(\<Sum>h \<leftarrow> hs. (h + d - 1) div d) * d \<le> sum_list hs + length hs * (d - 1)"
proof (induction hs)
  case (Cons h hs)
  then show ?case
    using add_mono [OF ceil_div_bounds(3) [OF assms, of h] Cons] by (simp add: add_mult_distrib)
qed simp

definition scaled :: "nat list \<Rightarrow> nat \<Rightarrow> nat \<Rightarrow> nat list" where
  "scaled hist nsym d = map (\<lambda>h. (h + d - 1) div d) (take nsym hist) @ drop nsym hist"

lemma nth_scaled:
  "nsym \<le> length hist \<Longrightarrow> i < nsym \<Longrightarrow> scaled hist nsym d ! i = (hist ! i + d - 1) div d"
  by (simp add: scaled_def nth_append)

lemma take_as_map: "nsym \<le> length hist \<Longrightarrow> map ((!) hist) [0..<nsym] = take nsym hist"
  by (simp add: list_eq_iff_nth_eq)

lemma nonzero_sum_pos: "nonzero hist nsym \<noteq> [] \<Longrightarrow> 0 < (\<Sum>i \<leftarrow> [0..<nsym]. hist ! i)"
proof -
  assume "nonzero hist nsym \<noteq> []"
  then obtain i where "i < nsym" "hist ! i \<noteq> 0"
    by (auto simp: nonzero_def filter_empty_conv)
  then show ?thesis
    using member_le_sum_list [of "hist ! i" "map ((!) hist) [0..<nsym]"] by fastforce
qed

lemma nonzero_cong:
  "(\<And>i. i < nsym \<Longrightarrow> h1 ! i = 0 \<longleftrightarrow> h2 ! i = (0::nat)) \<Longrightarrow> nonzero h1 nsym = nonzero h2 nsym"
  unfolding nonzero_def by (intro filter_cong) auto

lemma length_limit_correct:
  assumes ok: "hist_ok hist nsym" and lim: "0 < limit" "limit \<le> 16384"
  shows "\<exists>hist1. length_limit hist nsym limit = Some hist1 \<and> hist_ok hist1 nsym
    \<and> nonzero hist1 nsym = nonzero hist nsym
    \<and> (\<Sum>i \<leftarrow> [0..<nsym]. hist1 ! i) \<le> limit + nsym"
proof -
  let ?sum = "sum_list (take nsym hist)"
  define d where "d = (?sum + limit - 1) div limit"
  have n: "nsym \<le> 286" "nsym \<le> length hist" and small: "\<And>h. h \<in> set (take nsym hist) \<Longrightarrow> h < 2 ^ 32"
    using ok by (auto simp: hist_ok_def NLEN_def in_set_conv_nth)
  have len: "length (take nsym hist) = nsym" using n by simp
  have "?sum \<le> nsym * 2 ^ 32"
    using sum_list_bound [of "take nsym hist" "2 ^ 32"] small unfolding len by blast
  then have sum: "?sum + 2 ^ 32 < 2 ^ 64" using n by simp
  have "nonzero hist nsym \<noteq> []" using ok by (auto simp: hist_ok_def)
  then have pos: "0 < ?sum"
    using nonzero_sum_pos [of hist nsym] n by (simp add: take_as_map)
  have d: "0 < d" "?sum \<le> d * limit" "d \<le> ?sum"
    using ceil_div_bounds [OF lim(1), of ?sum] pos unfolding d_def by linarith+
  have wrap: "(h + d - Suc 0) mod 2 ^ 64 div d mod 2 ^ 32 = (h + d - Suc 0) div d" if "h \<in> set (take nsym hist)" for h
  proof -
    have "h < 2 ^ 32" "h + d - 1 < 2 ^ 64" using small [OF that] d(3) sum by simp_all
    moreover have "(h + d - 1) div d < 2 ^ 32"
      using ceil_div_bounds(1) [OF d(1), of h] \<open>h < 2 ^ 32\<close> by simp
    ultimately show ?thesis by simp
  qed
  have res: "length_limit hist nsym limit = Some (scaled hist nsym d)"
  proof -
    have "fold (\<lambda>h s. (s + h) mod 2 ^ 64) (take nsym hist) 0 = ?sum"
      using sum by (subst fold_sum_mod) auto
    moreover have "(?sum + limit - 1) mod 2 ^ 64 div limit = d"
      using sum lim by (simp add: d_def)
    ultimately show ?thesis
      unfolding length_limit_def Let_def using lim d(1) wrap by (simp add: scaled_def)
  qed
  have nth: "scaled hist nsym d ! i = (hist ! i + d - 1) div d" if "i < nsym" for i
    using nth_scaled that n by simp
  have nz: "nonzero (scaled hist nsym d) nsym = nonzero hist nsym"
    using ceil_div_bounds(2) [OF d(1)] nth by (intro nonzero_cong) simp
  have ok1: "hist_ok (scaled hist nsym d) nsym"
  proof -
    have "scaled hist nsym d ! i < 2 ^ 32" if "i < nsym" for i
    proof -
      have "(hist ! i + d - 1) div d \<le> hist ! i" by (rule ceil_div_bounds(1) [OF d(1)])
      also have "\<dots> < 2 ^ 32" using ok that by (simp add: hist_ok_def)
      finally show ?thesis using nth that by simp
    qed
    moreover have "nsym \<le> length (scaled hist nsym d)" using n by (simp add: scaled_def)
    ultimately show ?thesis using ok nz by (simp add: hist_ok_def)
  qed
  have "(\<Sum>i \<leftarrow> [0..<nsym]. scaled hist nsym d ! i) = (\<Sum>h \<leftarrow> take nsym hist. (h + d - 1) div d)"
    using ok1 n by (simp add: hist_ok_def take_as_map) (simp add: scaled_def)
  also have "\<dots> * d \<le> ?sum + nsym * (d - 1)"
    using sum_ceil_div [OF d(1), of "take nsym hist"] unfolding len .
  also have "\<dots> \<le> (limit + nsym) * d"
    using d(2) by (simp add: algebra_simps diff_mult_distrib2 le_diff_conv trans_le_add1)
  finally have "(\<Sum>i \<leftarrow> [0..<nsym]. scaled hist nsym d ! i) \<le> limit + nsym"
    using d(1) by simp
  then show ?thesis using res ok1 nz by blast
qed

text \<open>An executable form.\<close>

lemma length_nonzero:
  assumes "nsym \<le> length hist"
  shows "length (nonzero hist nsym) = length (filter (\<lambda>h. h \<noteq> 0) (take nsym hist))"
proof -
  have "filter (\<lambda>h. h \<noteq> 0) (map ((!) hist) [0..<nsym]) = map ((!) hist) (nonzero hist nsym)"
    by (simp add: filter_map nonzero_def comp_def)
  then show ?thesis using take_as_map [OF assms] by (metis length_map)
qed

lemma hist_ok_eval:
  "hist_ok hist nsym \<longleftrightarrow>
     nsym \<le> 286 \<and> nsym \<le> length hist \<and> list_all (\<lambda>h. h < 2 ^ 32) (take nsym hist)
     \<and> 2 \<le> length (filter (\<lambda>h. h \<noteq> 0) (take nsym hist))"
  using length_nonzero [of nsym hist]
  by (auto simp: hist_ok_def NLEN_def list_all_length simp del: One_nat_def)

section \<open>The loop\<close>

text \<open>
  What one call promises of the lengths it wrote for the used symbols of a histogram: lengths
  between 1 and \<open>m\<close>, a full Kraft sum, and no other cell of the array changed.
\<close>

definition code_lens_ok :: "nat list \<Rightarrow> nat \<Rightarrow> nat \<Rightarrow> nat list \<Rightarrow> nat list \<Rightarrow> nat \<Rightarrow> bool" where
  "code_lens_ok hist nsym base lens lens' m \<longleftrightarrow>
     length lens' = length lens
     \<and> (\<forall>i < nsym. hist ! i \<noteq> 0 \<longrightarrow> 1 \<le> lens' ! (base + i) \<and> lens' ! (base + i) \<le> m)
     \<and> (\<forall>j. (\<forall>i < nsym. hist ! i \<noteq> 0 \<longrightarrow> j \<noteq> base + i) \<longrightarrow> lens' ! j = lens ! j)
     \<and> (\<Sum>i \<leftarrow> nonzero hist nsym. 2 ^ (m - lens' ! (base + i))) = (2::nat) ^ m"

lemma set_nonzero: "set (nonzero hist nsym) = {i. i < nsym \<and> hist ! i \<noteq> 0}"
  by (auto simp: nonzero_def)

lemma distinct_nonzero: "distinct (nonzero hist nsym)"
  by (simp add: nonzero_def)

lemma tree_code_lens_ok:
  assumes t: "is_node t" "mset (map fst (leaves t)) = mset (nonzero hist nsym)"
    and len: "base + nsym \<le> length lens"
  shows "code_lens_ok hist nsym base lens (write_lens base lens (clens t 0)) (height t)"
proof -
  let ?out = "write_lens base lens (clens t 0)"
  have keys: "mset (map fst (clens t 0)) = mset (nonzero hist nsym)"
    using t(2) by (simp add: map_fst_clens)
  then have dist: "distinct (map fst (clens t 0))"
    by (metis distinct_nonzero mset_eq_imp_distinct_iff)
  have dom: "fst ` set (clens t 0) = {i. i < nsym \<and> hist ! i \<noteq> 0}"
    using keys by (metis list.set_map set_mset_mset set_nonzero)
  have look: "?out ! (base + s) = n" if "(s, n) \<in> set (clens t 0)" for s n
  proof -
    have "s < nsym" using that dom by force
    then show ?thesis using write_lens_lookup [OF dist that] len by simp
  qed
  have "1 \<le> ?out ! (base + i) \<and> ?out ! (base + i) \<le> height t" if "i < nsym" "hist ! i \<noteq> 0" for i
  proof -
    have "i \<in> fst ` set (clens t 0)" using dom that by simp
    then obtain n where n: "(i, n) \<in> set (clens t 0)" by auto
    then show ?thesis
      using look [OF n] clens_bounds [OF n] clens_node_bounds [OF t(1) n] by simp
  qed
  moreover have "?out ! j = lens ! j" if "\<forall>i < nsym. hist ! i \<noteq> 0 \<longrightarrow> j \<noteq> base + i" for j
  proof (rule write_lens_frame)
    fix s d assume "(s, d) \<in> set (clens t 0)"
    then have "s \<in> fst ` set (clens t 0)" by (rule image_eqI [rotated]) simp
    then show "j \<noteq> base + s" using that dom by simp
  qed
  moreover have "(\<Sum>i \<leftarrow> nonzero hist nsym. 2 ^ (height t - ?out ! (base + i))) = (2::nat) ^ height t"
  proof -
    have "(\<Sum>i \<leftarrow> nonzero hist nsym. 2 ^ (height t - ?out ! (base + i)))
      = (\<Sum>i \<leftarrow> map fst (clens t 0). (2::nat) ^ (height t - ?out ! (base + i)))"
      by (simp only: keys [symmetric] mset_map flip: sum_mset_sum_list)
    also have "\<dots> = (\<Sum>(s, n) \<leftarrow> clens t 0. 2 ^ (height t - n))"
      using look by (intro arg_cong [where f = sum_list]) (auto simp: case_prod_beta)
    finally show ?thesis using kraft_clens [of t 0 "height t"] by simp
  qed
  ultimately show ?thesis by (simp add: code_lens_ok_def)
qed

lemma code_lens_ok_cong:
  assumes "\<And>i. i < nsym \<Longrightarrow> hist ! i = 0 \<longleftrightarrow> hist1 ! i = 0"
  shows "code_lens_ok hist nsym base lens lens' m \<longleftrightarrow> code_lens_ok hist1 nsym base lens lens' m"
proof -
  have all: "(\<forall>i < nsym. hist ! i \<noteq> 0 \<longrightarrow> P i) \<longleftrightarrow> (\<forall>i < nsym. hist1 ! i \<noteq> 0 \<longrightarrow> P i)" for P
    using assms by (simp cong: imp_cong)
  have "nonzero hist nsym = nonzero hist1 nsym" by (rule nonzero_cong [OF assms])
  then show ?thesis
    unfolding code_lens_ok_def all by simp
qed

lemma code_lens_ok_trans:
  assumes "code_lens_ok hist nsym base lens lens1 m1" "code_lens_ok hist nsym base lens1 lens2 m2"
  shows "code_lens_ok hist nsym base lens lens2 m2"
  using assms unfolding code_lens_ok_def by simp

lemma huffmanize_round:
  assumes ok: "hist_ok hist nsym" and lim: "0 < limit" "limit \<le> 16384"
    and len: "base + nsym \<le> length lens"
  shows "\<exists>hist1 lens1 m. length_limit hist nsym limit = Some hist1
    \<and> huffman_tree hist1 nsym lens base = Some (lens1, m)
    \<and> hist_ok hist1 nsym \<and> nonzero hist1 nsym = nonzero hist nsym
    \<and> code_lens_ok hist1 nsym base lens lens1 m \<and> fib (m + 2) \<le> limit + nsym"
proof -
  obtain hist1 where h: "length_limit hist nsym limit = Some hist1" "hist_ok hist1 nsym"
      "nonzero hist1 nsym = nonzero hist nsym" "(\<Sum>i \<leftarrow> [0..<nsym]. hist1 ! i) \<le> limit + nsym"
    using length_limit_correct [OF ok lim] by blast
  have "nsym \<le> NLEN" "2 \<le> length (nonzero hist1 nsym)" using h(2) by (auto simp: hist_ok_def)
  moreover from this have "(\<Sum>i \<leftarrow> [0..<nsym]. hist1 ! i) < 17711"
    using h(4) lim by (simp add: NLEN_def)
  ultimately obtain t where t:
    "huffman_tree hist1 nsym lens base = Some (write_lens base lens (clens t 0), height t)"
    "is_node t" "fib (height t + 2) \<le> (\<Sum>i \<leftarrow> [0..<nsym]. hist1 ! i)"
    "mset (leaves t) = mset (map (\<lambda>i. (i, hist1 ! i)) (nonzero hist1 nsym))"
    using huffman_tree_correct len by blast
  have "mset (map fst (leaves t)) = mset (nonzero hist1 nsym)"
    unfolding mset_map t(4) by (simp add: multiset.map_comp comp_def)
  from tree_code_lens_ok [OF t(2) this len] show ?thesis
    using h t(1,3) by (metis order_trans)
qed

text \<open>
  A round that is too deep has \<open>fib 18 \<le> limit + nsym\<close>, so the limit is above 2297, the next one
  is smaller and still positive: from 16384 there are at most eight rounds.
\<close>

lemma huffmanize_loop_correct:
  assumes "hist_ok hist nsym" "0 < limit" "limit \<le> 16384" "base + nsym \<le> length lens"
  shows "\<exists>hist1 lens1 m. huffmanize_loop hist nsym lens base limit = Some (hist1, lens1, m)
    \<and> m \<le> 15 \<and> hist_ok hist1 nsym \<and> nonzero hist1 nsym = nonzero hist nsym
    \<and> code_lens_ok hist nsym base lens lens1 m"
  using assms
proof (induction limit arbitrary: hist lens rule: less_induct)
  case (less limit)
  obtain hist1 lens1 m where r: "length_limit hist nsym limit = Some hist1"
    "huffman_tree hist1 nsym lens base = Some (lens1, m)" "hist_ok hist1 nsym"
    "nonzero hist1 nsym = nonzero hist nsym" "code_lens_ok hist1 nsym base lens lens1 m"
    "fib (m + 2) \<le> limit + nsym"
    using huffmanize_round [OF less.prems] by blast
  have same: "hist ! i = 0 \<longleftrightarrow> hist1 ! i = 0" if "i < nsym" for i
  proof -
    have "i \<in> set (nonzero hist nsym) \<longleftrightarrow> i \<in> set (nonzero hist1 nsym)" using r(4) by simp
    then show ?thesis using that unfolding set_nonzero by auto
  qed
  have first: "code_lens_ok hist nsym base lens lens1 m"
    using r(5) code_lens_ok_cong [OF same] by simp
  show ?case
  proof (cases "15 < m")
    case True
    then have "fib 18 \<le> fib (m + 2)" by (intro fib_mono) simp
    then have "2297 < limit"
      using r(6) r(3) fib_values by (simp add: hist_ok_def NLEN_def)
    then have next_lim: "limit * 3 div 4 < limit" "0 < limit * 3 div 4" "limit * 3 div 4 \<le> 16384"
      using less.prems(3) by auto
    have "base + nsym \<le> length lens1"
      using less.prems(4) first by (simp add: code_lens_ok_def)
    then obtain hist2 lens2 m2 where r2:
      "huffmanize_loop hist1 nsym lens1 base (limit * 3 div 4) = Some (hist2, lens2, m2)"
      "m2 \<le> 15" "hist_ok hist2 nsym" "nonzero hist2 nsym = nonzero hist1 nsym"
      "code_lens_ok hist1 nsym base lens1 lens2 m2"
      using less.IH [OF next_lim(1) r(3) next_lim(2,3)] by blast
    then show ?thesis
      using r(1,2,4) True r2 code_lens_ok_trans [OF first, of lens2 m2] code_lens_ok_cong [OF same]
      by (subst huffmanize_loop.simps) simp
  next
    case False
    then show ?thesis
      using r(1-4) first by (subst huffmanize_loop.simps) auto
  qed
qed

section \<open>The property\<close>

text \<open>
  Claim C8. For every histogram of at most 286 symbols with 32-bit counts of which at least two
  are non-zero, \<^verbatim>\<open>huffmanize\<close> ends without undefined behaviour. It gives every used symbol a code
  length between 1 and the returned depth, which is at most 15, so that the lengths satisfy
  Kraft's equality (the code is complete, no bit string is wasted and none is ambiguous), and it
  writes no other cell of the length array. The histogram it leaves behind has the same used
  symbols.
\<close>

theorem huffmanize_complete_code:
  assumes "hist_ok hist nsym" and "base + nsym \<le> length lens"
  shows "\<exists>hist' lens' m. huffmanize hist nsym lens base = Some (hist', lens', m)
    \<and> m \<le> 15 \<and> hist_ok hist' nsym \<and> nonzero hist' nsym = nonzero hist nsym
    \<and> code_lens_ok hist nsym base lens lens' m"
  unfolding huffmanize_def INITIAL_LIMIT_def
  using assms by (intro huffmanize_loop_correct) simp_all

theorem huffmanize_complete_code_witness:
  "\<exists>hist' lens' m. huffmanize [5, 0, 1, 2000000, 7] 5 [9, 9, 9, 9, 9, 9, 9] 1 = Some (hist', lens', m)
    \<and> m \<le> 15 \<and> hist_ok hist' 5 \<and> nonzero hist' 5 = nonzero [5, 0, 1, 2000000, 7] 5
    \<and> code_lens_ok [5, 0, 1, 2000000, 7] 5 1 [9, 9, 9, 9, 9, 9, 9] lens' m"
proof (rule huffmanize_complete_code)
  show "hist_ok [5, 0, 1, 2000000, 7] 5"
    by (simp add: hist_ok_eval)
qed simp

end
