(* ===== verification/DhtEncodeCorrect.thy ===== *)
theory DhtEncodeCorrect
  imports DhtEncode
begin

text \<open>
  Correctness of the DHT writer: the bit writer appends bit lists, the run-length machine emits
  code-length tokens that expand to the input, and the output is bounded.
\<close>

section \<open>The bit writer appends bit lists\<close>

definition wbits :: "dht_writer \<Rightarrow> bool list" where
  "wbits w = byte_bits (dht_done w) @ bits (bitptr w) (bitbuf w)"

definition winv :: "dht_writer \<Rightarrow> bool" where
  "winv w \<longleftrightarrow> bitptr w < 8 \<and> (\<forall>k \<ge> bitptr w. \<not> bit (bitbuf w) k) \<and> dht_cur w OR ucast (bitbuf w) = ucast (bitbuf w)
     \<and> bittotal w = length (wbits w)"

lemma init_writer_inv: "winv init_writer" "wbits init_writer = []"
  by (simp_all add: winv_def wbits_def init_writer_def)

lemma mask_255: "(x::u32) AND 0xFF = take_bit 8 x"
  by (simp add: take_bit_eq_mask mask_numeral)

lemma ucast_take_bit8: "(ucast (take_bit 8 x) :: u8) = ucast (x::u32)"
  by (rule bit_word_eqI) (auto simp: bit_simps)

lemma append_bits_correct:
  assumes w: "winv w" and n: "n \<le> 8" and d: "d < 2 ^ n"
  shows "winv (append_bits d n w) \<and> wbits (append_bits d n w) = wbits w @ bits n d"
proof -
  define buf where "buf = bitbuf w OR push_bit (bitptr w) (word_of_nat d)"
  have p: "bitptr w < 8" and high: "\<And>k. bitptr w \<le> k \<Longrightarrow> \<not> bit (bitbuf w) k"
    and cur: "dht_cur w OR ucast (bitbuf w) = ucast (bitbuf w)"
    using w by (auto simp: winv_def)
  have dhigh: "\<not> bit (word_of_nat d :: u32) k" if "n \<le> k" for k
    using word_of_nat_high_bits [OF d that] .
  have cat: "bits (bitptr w + n) buf = bits (bitptr w) (bitbuf w) @ bits n d"
    unfolding buf_def using p n high by (subst bits_or_push) (auto simp: bits_of_nat_word)
  have bhigh: "\<not> bit buf k" if "bitptr w + n \<le> k" for k
    using that high dhigh by (auto simp: buf_def bit_simps)
  have newcur: "dht_cur w OR ucast (buf AND 0xFF) = ucast buf"
    unfolding mask_255
  proof (rule bit_word_eqI)
    fix k assume "k < LENGTH(8)"
    moreover have "bit (dht_cur w) k \<Longrightarrow> bit (ucast (bitbuf w) :: u8) k"
      by (metis cur bit_or_iff)
    ultimately show "bit (dht_cur w OR ucast (take_bit 8 buf)) k = bit (ucast buf :: u8) k"
      by (auto simp: buf_def bit_simps)
  qed
  have eight: "bits 8 (ucast buf :: u8) @ bits (m - 8) (drop_bit 8 buf) = bits m buf" if "7 < m" for m
    using bits_add [of 8 "m - 8" buf] that bits_ucast [where 'b = 8, of 8 buf] by simp
  show ?thesis
    using w p n cat bhigh newcur eight
    by (auto simp: append_bits_def Let_def winv_def wbits_def bit_simps simp flip: buf_def)
qed

lemma flush_bits_correct:
  assumes w: "winv w"
  shows "\<exists>pad. byte_bits (dht_done (flush_bits w)) = wbits w @ pad \<and> length pad < 8
    \<and> bittotal (flush_bits w) = length (wbits w)"
proof (cases "0 < bitptr w")
  case True
  have "dht_cur w OR ucast (bitbuf w AND 0xFF) = ucast (bitbuf w)"
    using w unfolding mask_255 winv_def by (metis ucast_take_bit8)
  moreover have "bits 8 (ucast (bitbuf w) :: u8) = bits (bitptr w) (bitbuf w) @ drop (bitptr w) (bits 8 (bitbuf w))"
    using w take_bits [of "bitptr w" 8 "bitbuf w"]
    by (simp add: bits_ucast winv_def) (metis append_take_drop_id)
  ultimately show ?thesis
    using True w by (auto simp: flush_bits_def wbits_def winv_def)
next
  case False
  then show ?thesis using w by (auto simp: flush_bits_def wbits_def winv_def)
qed

section \<open>Code-length tokens\<close>

text \<open>
  RFC 1951, 3.2.7: a length, 16 with a repeat count of 3 to 6, 17 and 18 with a number of zeros.
\<close>

datatype tok = Lit nat | Rep nat | Zeros3 nat | Zeros11 nat

primrec tok_expand :: "tok \<Rightarrow> nat list \<Rightarrow> nat list option" where
  "tok_expand (Lit s) acc = (if s \<le> 15 then Some (acc @ [s]) else None)"
| "tok_expand (Rep n) acc =
     (if acc \<noteq> [] \<and> 3 \<le> n \<and> n \<le> 6 then Some (acc @ replicate n (last acc)) else None)"
| "tok_expand (Zeros3 n) acc = (if 3 \<le> n \<and> n \<le> 10 then Some (acc @ replicate n 0) else None)"
| "tok_expand (Zeros11 n) acc = (if 11 \<le> n \<and> n \<le> 138 then Some (acc @ replicate n 0) else None)"

definition expand :: "tok list \<Rightarrow> nat list \<Rightarrow> nat list option" where
  "expand ts acc = for_each tok_expand ts acc"

definition sym_bits :: "nat \<Rightarrow> bool list" where
  "sym_bits s = bits (nbits (encode_hclen ! s)) (code (encode_hclen ! s))"

primrec tok_bits :: "tok \<Rightarrow> bool list" where
  "tok_bits (Lit s) = sym_bits s"
| "tok_bits (Rep n) = sym_bits 16 @ bits 2 (n - 3)"
| "tok_bits (Zeros3 n) = sym_bits 17 @ bits 3 (n - 3)"
| "tok_bits (Zeros11 n) = sym_bits 18 @ bits 7 (n - 11)"

definition toks_bits :: "tok list \<Rightarrow> bool list" where
  "toks_bits ts = concat (map tok_bits ts)"

lemma toks_bits_simps [simp]:
  "toks_bits [] = []" "toks_bits (t # ts) = tok_bits t @ toks_bits ts"
  "toks_bits (ts @ us) = toks_bits ts @ toks_bits us"
  by (simp_all add: toks_bits_def)

lemma expand_simps [simp]:
  "expand [] acc = Some acc"
  "expand (t # ts) acc = Option.bind (tok_expand t acc) (expand ts)"
  "expand (ts @ us) acc = Option.bind (expand ts acc) (expand us)"
  by (simp_all add: expand_def [abs_def] for_each_append)

lemma encode_hclen_ok:
  "list_all (\<lambda>h. 0 < nbits h \<and> nbits h \<le> 7 \<and> code h < 2 ^ nbits h) encode_hclen"
  by code_simp

lemma length_encode_hclen [simp]: "length encode_hclen = 19"
  by (simp add: encode_hclen_def)

lemma encode_hclen_nth:
  "s < 19 \<Longrightarrow> 0 < nbits (encode_hclen ! s) \<and> nbits (encode_hclen ! s) \<le> 7
     \<and> code (encode_hclen ! s) < 2 ^ nbits (encode_hclen ! s)"
  using encode_hclen_ok by (simp add: list_all_length)

lemma length_sym_bits: "s < 19 \<Longrightarrow> length (sym_bits s) \<le> 7"
  using encode_hclen_nth [of s] by (simp add: sym_bits_def)

lemma expand_length:
  "expand ts acc = Some acc' \<Longrightarrow> length (toks_bits ts) + 7 * length acc \<le> 7 * length acc'"
proof (induction ts arbitrary: acc)
  case (Cons t ts)
  then obtain acc1 where a: "tok_expand t acc = Some acc1" "expand ts acc1 = Some acc'"
    by (auto split: bind_splits)
  have "length (tok_bits t) + 7 * length acc \<le> 7 * length acc1"
    using a(1) length_sym_bits [of 16] length_sym_bits [of 17] length_sym_bits [of 18]
    by (cases t) (auto split: if_splits intro!: length_sym_bits)
  then show ?case using Cons.IH [OF a(2)] by simp
qed simp

section \<open>The run-length machine\<close>

text \<open>\<open>emits bs r r'\<close>: only the writer changed, by the bits \<open>bs\<close>.\<close>

definition emits :: "bool list \<Rightarrow> rle \<Rightarrow> rle \<Rightarrow> bool" where
  "emits bs r r' \<longleftrightarrow> r' = r\<lparr>writer := writer r'\<rparr> \<and> winv (writer r')
     \<and> wbits (writer r') = wbits (writer r) @ bs"

lemma emits_fields:
  "emits bs r r' \<Longrightarrow> rle_state r' = rle_state r \<and> rle_next r' = rle_next r
     \<and> rle_count r' = rle_count r \<and> cur_len r' = cur_len r \<and> next_len r' = next_len r
     \<and> winv (writer r') \<and> wbits (writer r') = wbits (writer r) @ bs"
  unfolding emits_def by (metis rle.select_convs rle.surjective rle.update_convs)

lemma put_code_emits:
  assumes "winv (writer r)" "s < 19"
  shows "\<exists>r'. put_code s r = Some r' \<and> emits (sym_bits s) r r'"
  using append_bits_correct [OF assms(1), of "nbits (encode_hclen ! s)" "code (encode_hclen ! s)"]
    encode_hclen_nth [OF assms(2)] assms(2)
  by (auto simp: put_code_def emits_def sym_bits_def)

lemma put_arg_emits:
  assumes "winv (writer r)" "n \<le> 8" "a < 2 ^ n"
  shows "\<exists>r'. put_arg a n r = Some r' \<and> emits (bits n a) r r'"
  using append_bits_correct [OF assms] by (auto simp: put_arg_def emits_def)

lemma emits_trans: "emits bs r r1 \<Longrightarrow> emits cs r1 r2 \<Longrightarrow> emits (bs @ cs) r r2"
  unfolding emits_def by (metis append.assoc rle.update_convs(6) rle.select_convs(6) rle.surjective)

lemma put_repeat_emits:
  assumes "winv (writer r)" "s < 19" "n \<le> 8" "a < 2 ^ n"
  shows "\<exists>r'. put_repeat s a n r = Some r' \<and> emits (sym_bits s @ bits n a) r r'"
proof -
  obtain r1 where r1: "put_code s r = Some r1" "emits (sym_bits s) r r1"
    using put_code_emits assms by blast
  obtain r2 where "put_arg a n r1 = Some r2" "emits (bits n a) r1 r2"
    using put_arg_emits [of r1 n a] emits_fields [OF r1(2)] assms by blast
  then show ?thesis using r1 emits_trans by (auto simp: put_repeat_def)
qed

lemma put_times_emits:
  assumes "winv (writer r)" "s < 19"
  shows "\<exists>r'. put_times n s r = Some r' \<and> emits (toks_bits (replicate n (Lit s))) r r'"
  using assms(1)
proof (induction n arbitrary: r)
  case 0
  then show ?case by (simp add: emits_def)
next
  case (Suc n)
  obtain r1 where r1: "put_code s r = Some r1" "emits (sym_bits s) r r1"
    using put_code_emits Suc.prems assms(2) by blast
  obtain r2 where "put_times n s r1 = Some r2" "emits (toks_bits (replicate n (Lit s))) r1 r2"
    using Suc.IH [of r1] emits_fields [OF r1(2)] by blast
  then show ?case using r1 emits_trans by fastforce
qed

text \<open>
  Four equal lengths in a row, other than 0: where the writer uses the code 16.
\<close>

fun four_equal :: "nat list \<Rightarrow> bool" where
  "four_equal (a # b # c # d # xs) \<longleftrightarrow>
     a \<noteq> 0 \<and> b = a \<and> c = a \<and> d = a \<or> four_equal (b # c # d # xs)"
| "four_equal _ \<longleftrightarrow> False"

lemma four_equal_iff: "four_equal xs \<longleftrightarrow> (\<exists>ys v zs. v \<noteq> 0 \<and> xs = ys @ [v, v, v, v] @ zs)"
proof (induction xs rule: four_equal.induct)
  case (1 a b c d xs)
  have "(\<exists>ys v zs. v \<noteq> 0 \<and> a # b # c # d # xs = ys @ [v, v, v, v] @ zs)
    \<longleftrightarrow> a \<noteq> 0 \<and> b = a \<and> c = a \<and> d = a
      \<or> (\<exists>ys v zs. v \<noteq> 0 \<and> b # c # d # xs = ys @ [v, v, v, v] @ zs)" (is "?l = (?h \<or> ?t)")
  proof
    assume ?l
    then obtain ys v zs where v: "v \<noteq> 0" "a # b # c # d # xs = ys @ [v, v, v, v] @ zs" by blast
    then show "?h \<or> ?t" by (cases ys) auto
  next
    assume "?h \<or> ?t"
    then show ?l
    proof
      assume ?h
      then show ?l by (intro exI [of _ "[]"] exI [of _ a] exI [of _ xs]) simp
    next
      assume ?t
      then obtain ys v zs where "v \<noteq> 0" "b # c # d # xs = ys @ [v, v, v, v] @ zs" by blast
      then show ?l by (intro exI [of _ "a # ys"] exI [of _ v] exI [of _ zs]) simp
    qed
  qed
  then show ?case using 1 by simp
qed (auto dest!: arg_cong [where f = length])

lemma four_equal_append: "four_equal xs \<Longrightarrow> four_equal (xs @ ys)"
  unfolding four_equal_iff by (metis append.assoc)

lemma four_equal_snoc:
  "four_equal (xs @ [x]) \<longleftrightarrow> four_equal xs \<or> x \<noteq> 0 \<and> (\<exists>ys. xs = ys @ [x, x, x])"
proof
  assume "four_equal (xs @ [x])"
  then obtain ys v zs where v: "v \<noteq> 0" "xs @ [x] = ys @ [v, v, v, v] @ zs"
    by (auto simp: four_equal_iff)
  show "four_equal xs \<or> x \<noteq> 0 \<and> (\<exists>ys. xs = ys @ [x, x, x])"
  proof (cases zs rule: rev_cases)
    case Nil
    then have "xs @ [x] = (ys @ [v, v, v]) @ [v]" using v(2) by simp
    then show ?thesis using v(1) by blast
  next
    case (snoc zs' z)
    then have "xs @ [x] = (ys @ [v, v, v, v] @ zs') @ [z]" using v(2) by simp
    then have "xs = ys @ [v, v, v, v] @ zs'" by blast
    then show ?thesis using v(1) four_equal_iff by blast
  qed
next
  have "four_equal (ys @ [x, x, x, x] @ [])" if "x \<noteq> 0" for ys
    using that four_equal_iff by blast
  moreover assume "four_equal xs \<or> x \<noteq> 0 \<and> (\<exists>ys. xs = ys @ [x, x, x])"
  ultimately show "four_equal (xs @ [x])"
    using four_equal_append [of xs "[x]"] by auto
qed

lemma four_equal_zeros: "four_equal (xs @ replicate n 0) = four_equal xs"
proof (induction n)
  case (Suc n)
  have "xs @ replicate (Suc n) 0 = (xs @ replicate n 0) @ [0]" by (simp add: replicate_append_same)
  then show ?case using Suc four_equal_snoc [of "xs @ replicate n 0" 0] by simp
qed simp

lemma four_equal_new: "xs = [] \<or> last xs \<noteq> x \<Longrightarrow> four_equal (xs @ [x]) = four_equal xs"
  by (auto simp: four_equal_snoc)

lemma four_equal_few:
  assumes "ys = [] \<or> last ys \<noteq> x" "n < 3"
  shows "four_equal (ys @ [x] @ replicate n x) = four_equal ys"
proof -
  have "n = 0 \<or> n = 1 \<or> n = 2" using assms(2) by auto
  then show ?thesis
    using assms(1) four_equal_new [of ys x] four_equal_snoc [of "ys @ [x]" x]
      four_equal_snoc [of "ys @ [x, x]" x]
    by (auto simp: numeral_2_eq_2 append_eq_Cons_conv)
qed

lemma four_equal_repeat:
  assumes "xs \<noteq> []" "last xs \<noteq> 0" "3 \<le> n"
  shows "four_equal (xs @ replicate n (last xs))"
proof -
  have "xs @ replicate n (last xs) = butlast xs @ [last xs] @ replicate (3 + (n - 3)) (last xs)"
    using assms by simp
  also have "\<dots> = butlast xs @ [last xs, last xs, last xs, last xs] @ replicate (n - 3) (last xs)"
    by (simp only: replicate_add) (simp add: numeral_3_eq_3)
  finally show ?thesis using assms(2) four_equal_iff by metis
qed

text \<open>
  The symbols read but not yet emitted, and the invariant of the machine: the emitted tokens
  expand to the symbols read without the pending ones.
\<close>

definition pending :: "rle \<Rightarrow> nat list" where
  "pending r = (if rle_state r = 1 then [cur_len r] else replicate (rle_count r) (cur_len r))"

definition rle_mode :: "rle \<Rightarrow> nat list \<Rightarrow> bool" where
  "rle_mode r acc \<longleftrightarrow>
     rle_state r = 1
     \<or> rle_state r = 16 \<and> 1 \<le> rle_count r \<and> rle_count r \<le> 6 \<and> cur_len r \<noteq> 0 \<and> acc \<noteq> [] \<and> last acc = cur_len r
     \<or> rle_state r = 17 \<and> 1 \<le> rle_count r \<and> rle_count r \<le> 10 \<and> cur_len r = 0
     \<or> rle_state r = 18 \<and> 11 \<le> rle_count r \<and> rle_count r \<le> 138 \<and> cur_len r = 0"

text \<open>
  When the code 16 was used: exactly for four equal lengths. \<open>rle_fresh\<close>: what the states 1 and 16
  know about the end of the emitted lengths as long as it was not used.
\<close>

definition has_rep :: "tok list \<Rightarrow> bool" where
  "has_rep ts \<longleftrightarrow> (\<exists>n. Rep n \<in> set ts)"

definition rle_fresh :: "rle \<Rightarrow> nat list \<Rightarrow> bool" where
  "rle_fresh r acc \<longleftrightarrow>
     (rle_state r = 1 \<longrightarrow> acc = [] \<or> last acc \<noteq> cur_len r)
     \<and> (rle_state r = 16 \<longrightarrow> (\<exists>ys. acc = ys @ [cur_len r] \<and> (ys = [] \<or> last ys \<noteq> cur_len r)))"

definition rep_used :: "tok list \<Rightarrow> nat list \<Rightarrow> rle \<Rightarrow> bool" where
  "rep_used ts acc r \<longleftrightarrow> has_rep ts = four_equal acc \<and> (has_rep ts \<or> rle_fresh r acc)"

lemma has_rep_simps [simp]:
  "\<not> has_rep []" "has_rep (Lit a # ts) = has_rep ts" "has_rep (Zeros3 n # ts) = has_rep ts"
  "has_rep (Zeros11 n # ts) = has_rep ts" "has_rep (Rep n # ts)"
  "has_rep (ts @ us) \<longleftrightarrow> has_rep ts \<or> has_rep us" "\<not> has_rep (replicate n (Lit a))"
  by (auto simp: has_rep_def)

definition rle_run :: "bool list \<Rightarrow> tok list \<Rightarrow> nat list \<Rightarrow> rle \<Rightarrow> bool" where
  "rle_run H ts acc r \<longleftrightarrow>
     winv (writer r) \<and> next_len r = cur_len r \<and> rle_mode r acc \<and> rep_used ts acc r
     \<and> expand ts [] = Some acc \<and> wbits (writer r) = H @ toks_bits ts"

definition rle_inv :: "bool list \<Rightarrow> nat list \<Rightarrow> rle \<Rightarrow> bool" where
  "rle_inv H xs r \<longleftrightarrow>
     (if xs = [] then rle_state r = 0 \<and> winv (writer r) \<and> wbits (writer r) = H
      else \<exists>ts acc. rle_run H ts acc r \<and> xs = acc @ pending r)"

lemma expand_lits: "s \<le> 15 \<Longrightarrow> expand (replicate n (Lit s)) acc = Some (acc @ replicate n s)"
  by (induction n arbitrary: acc) auto

lemma replicate_snoc: "replicate n x @ [x] = replicate (Suc n) x"
  by (simp add: replicate_append_same)

lemma rle_mode_pending: "rle_mode r acc \<Longrightarrow> pending r \<noteq> []"
  by (auto simp: rle_mode_def pending_def)

lemma rle_advance:
  assumes "rle_run H ts acc r" "emits (toks_bits us) r r1" "expand us acc = Some acc'"
    and "writer r' = writer r1" "next_len r' = cur_len r'" "rle_mode r' acc'" "ys = acc' @ pending r'"
    and "rep_used (ts @ us) acc' r'"
  shows "rle_inv H ys r'"
proof -
  have "rle_run H (ts @ us) acc' r'"
    using assms emits_fields [OF assms(2)] by (simp add: rle_run_def)
  then show ?thesis using assms(7) rle_mode_pending [OF assms(6)] by (auto simp: rle_inv_def)
qed

lemma rep_used_zeros:
  assumes "rep_used ts acc r" "0 < n" "\<not> has_rep us"
    and "rle_state r' \<noteq> 16" "rle_state r' = 1 \<longrightarrow> cur_len r' \<noteq> 0"
  shows "rep_used (ts @ us) (acc @ replicate n 0) r'"
  using assms by (simp add: rep_used_def four_equal_zeros rle_fresh_def)

lemma rep_used_stays:
  assumes "rep_used ts acc r" "rle_state r' \<noteq> 1" "rle_state r' = 16 \<longrightarrow> rle_state r = 16 \<and> cur_len r' = cur_len r"
  shows "rep_used ts acc r'"
  using assms by (auto simp: rep_used_def rle_fresh_def)

lemma rep_used_literal:
  assumes "rep_used ts acc r" "rle_state r = 1"
    and "rle_state r' = 1 \<longrightarrow> cur_len r' \<noteq> cur_len r" "rle_state r' = 16 \<longrightarrow> cur_len r' = cur_len r"
  shows "rep_used (ts @ [Lit (cur_len r)]) (acc @ [cur_len r]) r'"
proof (cases "has_rep ts")
  case True
  then show ?thesis using assms(1) four_equal_append by (simp add: rep_used_def)
next
  case False
  then have "acc = [] \<or> last acc \<noteq> cur_len r" using assms(1,2) by (simp add: rep_used_def rle_fresh_def)
  then show ?thesis
    using assms four_equal_new [of acc "cur_len r"] by (auto simp: rep_used_def rle_fresh_def)
qed

lemma rep_used_few:
  assumes "rep_used ts acc r" "rle_state r = 16" "n < 3"
    and "acc \<noteq> []" "last acc = cur_len r" "rle_state r' = 1" "cur_len r' \<noteq> cur_len r"
  shows "rep_used (ts @ replicate n (Lit (cur_len r))) (acc @ replicate n (cur_len r)) r'"
proof (cases "has_rep ts")
  case True
  then show ?thesis using assms(1) four_equal_append by (simp add: rep_used_def)
next
  case False
  then obtain ys where ys: "acc = ys @ [cur_len r]" "ys = [] \<or> last ys \<noteq> cur_len r"
    using assms(1,2) by (auto simp: rep_used_def rle_fresh_def)
  have "\<not> four_equal (ys @ [cur_len r])" using assms(1) False ys(1) by (simp add: rep_used_def)
  then have "\<not> four_equal ys" using four_equal_append by blast
  then have "\<not> four_equal (acc @ replicate n (cur_len r))"
    using four_equal_few [OF ys(2) assms(3)] ys(1) by simp
  moreover have "last (acc @ replicate n (cur_len r)) = cur_len r"
    using assms(4,5) by (cases n) auto
  ultimately show ?thesis using False assms(4-7) by (simp add: rep_used_def rle_fresh_def)
qed

lemma rep_used_repeat:
  assumes "acc \<noteq> []" "last acc = s" "s \<noteq> 0" "3 \<le> n"
  shows "rep_used (ts @ [Rep n]) (acc @ replicate n s) r'"
  using four_equal_repeat [of acc n] assms by (simp add: rep_used_def)

lemma emits_none: "winv (writer r) \<Longrightarrow> emits (toks_bits []) r r"
  by (simp add: emits_def)

text \<open>The invariant after each of the cases, for the next symbol \<open>x\<close>.\<close>

lemma rle_case1_inv:
  assumes run: "rle_run H ts acc r" and st: "rle_state r = 1" and le: "cur_len r \<le> 15"
  shows "\<exists>r'. rle_step x r = Some r' \<and> rle_inv H (acc @ pending r @ [x]) r'"
proof -
  have w: "winv (writer r)" and nl: "next_len r = cur_len r" and used: "rep_used ts acc r"
    using run by (auto simp: rle_run_def)
  obtain r1 where r1: "put_code (cur_len r) r = Some r1" "emits (sym_bits (cur_len r)) r r1"
    using put_code_emits [OF w, of "cur_len r"] le by auto
  note f = emits_fields [OF r1(2)]
  have lit: "emits (toks_bits [Lit (cur_len r)]) r r1" "expand [Lit (cur_len r)] acc = Some (acc @ [cur_len r])"
    using r1(2) le by simp_all
  consider (new) "cur_len r \<noteq> x" | (rep) "cur_len r = x" "x \<noteq> 0" | (zero) "cur_len r = x" "x = 0" by blast
  then show ?thesis
  proof cases
    case new
    show ?thesis
      using new st r1(1) f
      by (auto simp: rle_step_def rle_case1_def rle_mode_def pending_def intro!: rle_advance [OF run lit] rep_used_literal [OF used])
  next
    case rep
    show ?thesis
      using rep st r1(1) f nl
      by (auto simp: rle_step_def rle_case1_def rle_mode_def pending_def intro!: rle_advance [OF run lit] rep_used_literal [OF used])
  next
    case zero
    show ?thesis
      using zero st nl
      by (auto simp: rle_step_def rle_case1_def rle_mode_def pending_def numeral_2_eq_2
          intro!: rle_advance [OF run emits_none [OF w] expand_simps(1)] rep_used_stays [OF used])
  qed
qed

lemma rle_case16_inv:
  assumes run: "rle_run H ts acc r" and st: "rle_state r = 16" and le: "cur_len r \<le> 15"
  shows "\<exists>r'. rle_step x r = Some r' \<and> rle_inv H (acc @ pending r @ [x]) r'"
proof -
  let ?c = "rle_count r" and ?s = "cur_len r"
  have w: "winv (writer r)" and nl: "next_len r = cur_len r" and used: "rep_used ts acc r"
    using run by (auto simp: rle_run_def)
  have m: "1 \<le> ?c" "?c \<le> 6" "?s \<noteq> 0" "acc \<noteq> []" "last acc = ?s"
    using run st by (auto simp: rle_run_def rle_mode_def)
  have times: "\<exists>r1. put_times ?c ?s r = Some r1 \<and> emits (toks_bits (replicate ?c (Lit ?s))) r r1"
    using put_times_emits [OF w] le by simp
  have rep: "\<exists>r1. put_repeat 16 (?c - 3) 2 r = Some r1 \<and> emits (toks_bits [Rep ?c]) r r1"
    using put_repeat_emits [OF w, of 16 2 "?c - 3"] m by simp
  have full: "expand [Rep ?c] acc = Some (acc @ replicate ?c ?s)" if "3 \<le> ?c"
    using that m by simp
  consider (few) "x \<noteq> ?s" "?c < 3" | (stop) "x \<noteq> ?s" "3 \<le> ?c" | (max) "x = ?s" "?c = 6" | (more) "x = ?s" "?c < 6"
    using m by linarith
  then show ?thesis
  proof cases
    case few
    obtain r1 where r1: "put_times ?c ?s r = Some r1" "emits (toks_bits (replicate ?c (Lit ?s))) r r1"
      using times by blast
    show ?thesis
      using few st r1(1) m
      by (auto simp: rle_step_def rle_case16_def rle_mode_def pending_def
          intro!: rle_advance [OF run r1(2) expand_lits [OF le]] rep_used_few [OF used])
  next
    case stop
    then show ?thesis
      using st rep m
      by (auto simp: rle_step_def rle_case16_def rle_mode_def pending_def
          intro!: rle_advance [OF run _ full] rep_used_repeat)
  next
    case max
    then show ?thesis
      using st rep m
      by (fastforce simp: rle_step_def rle_case16_def rle_mode_def pending_def dest: emits_fields
          intro!: rle_advance [OF run _ full] rep_used_repeat)
  next
    case more
    then show ?thesis
      using st m
      by (auto simp: rle_step_def rle_case16_def rle_mode_def pending_def replicate_append_same
          intro!: rle_advance [OF run emits_none [OF w] expand_simps(1)] rep_used_stays [OF used])
  qed
qed

lemma rle_case17_inv:
  assumes run: "rle_run H ts acc r" and st: "rle_state r = 17"
  shows "\<exists>r'. rle_step x r = Some r' \<and> rle_inv H (acc @ pending r @ [x]) r'"
proof -
  let ?c = "rle_count r"
  have w: "winv (writer r)" and nl: "next_len r = cur_len r" and used: "rep_used ts acc r"
    using run by (auto simp: rle_run_def)
  have m: "1 \<le> ?c" "?c \<le> 10" "cur_len r = 0"
    using run st by (auto simp: rle_run_def rle_mode_def)
  consider (few) "x \<noteq> 0" "?c < 3" | (stop) "x \<noteq> 0" "3 \<le> ?c" | (more) "x = 0"
    using m by linarith
  then show ?thesis
  proof cases
    case few
    obtain r1 where r1: "put_times ?c 0 r = Some r1" "emits (toks_bits (replicate ?c (Lit 0))) r r1"
      using put_times_emits [OF w, of 0 ?c] by auto
    show ?thesis
      using few st r1(1) m
      by (auto simp: rle_step_def rle_case17_def rle_mode_def pending_def
          intro!: rle_advance [OF run r1(2) expand_lits] rep_used_zeros [OF used])
  next
    case stop
    have "?c - 3 < 2 ^ 3" using m by simp
    from put_repeat_emits [OF w _ _ this, of 17]
    obtain r1 where r1: "put_repeat 17 (?c - 3) 3 r = Some r1" "emits (toks_bits [Zeros3 ?c]) r r1"
      by auto
    have full: "expand [Zeros3 ?c] acc = Some (acc @ replicate ?c 0)"
      using stop m by simp
    show ?thesis
      using stop st r1(1) m
      by (auto simp: rle_step_def rle_case17_def rle_mode_def pending_def
          intro!: rle_advance [OF run r1(2) full] rep_used_zeros [OF used])
  next
    case more
    then show ?thesis
      using st m
      by (auto simp: rle_step_def rle_case17_def rle_mode_def pending_def replicate_append_same numeral_eq_Suc
          intro!: rle_advance [OF run emits_none [OF w] expand_simps(1)] rep_used_stays [OF used])
  qed
qed

lemma rle_case18_inv:
  assumes run: "rle_run H ts acc r" and st: "rle_state r = 18"
  shows "\<exists>r'. rle_step x r = Some r' \<and> rle_inv H (acc @ pending r @ [x]) r'"
proof -
  let ?c = "rle_count r"
  have w: "winv (writer r)" and nl: "next_len r = cur_len r" and used: "rep_used ts acc r"
    using run by (auto simp: rle_run_def)
  have m: "11 \<le> ?c" "?c \<le> 138" "cur_len r = 0"
    using run st by (auto simp: rle_run_def rle_mode_def)
  have "?c - 11 < 2 ^ 7" using m by simp
  from put_repeat_emits [OF w _ _ this, of 18]
  obtain r1 where r1: "put_repeat 18 (?c - 11) 7 r = Some r1" "emits (toks_bits [Zeros11 ?c]) r r1"
    by auto
  have full: "expand [Zeros11 ?c] acc = Some (acc @ replicate ?c 0)"
    using m by simp
  consider (stop) "x \<noteq> 0" | (max) "x = 0" "?c = 138" | (more) "x = 0" "?c < 138"
    using m by linarith
  then show ?thesis
  proof cases
    case stop
    then show ?thesis
      using st r1(1) m
      by (auto simp: rle_step_def rle_case18_def rle_mode_def pending_def
          intro!: rle_advance [OF run r1(2) full] rep_used_zeros [OF used])
  next
    case max
    then show ?thesis
      using st r1(1) m emits_fields [OF r1(2)]
      by (auto simp: rle_step_def rle_case18_def rle_mode_def pending_def
          intro!: rle_advance [OF run r1(2) full] rep_used_zeros [OF used])
  next
    case more
    then show ?thesis
      using st m
      by (auto simp: rle_step_def rle_case18_def rle_mode_def pending_def replicate_append_same
          intro!: rle_advance [OF run emits_none [OF w] expand_simps(1)] rep_used_stays [OF used])
  qed
qed

lemma rle_first:
  assumes "rle_state r = 0" "winv (writer r)" "wbits (writer r) = H"
  shows "\<exists>r'. rle_step x r = Some r' \<and> rle_inv H [x] r'"
  using assms
  by (auto simp: rle_step_def rle_inv_def rle_run_def rle_mode_def pending_def rep_used_def rle_fresh_def
      intro!: exI [where x = "[]"])

lemma rle_step_inv:
  assumes inv: "rle_inv H xs r" and le: "\<forall>s \<in> set xs. s \<le> 15"
  shows "\<exists>r'. rle_step x r = Some r' \<and> rle_inv H (xs @ [x]) r'"
proof (cases "xs = []")
  case True
  then show ?thesis using inv rle_first by (simp add: rle_inv_def)
next
  case False
  then obtain ts acc where run: "rle_run H ts acc r" and xs: "xs = acc @ pending r"
    using inv by (auto simp: rle_inv_def)
  have mode: "rle_mode r acc" using run by (simp add: rle_run_def)
  then have "cur_len r \<in> set (pending r)"
    by (auto simp: rle_mode_def pending_def)
  then have cur: "cur_len r \<le> 15" using le xs by simp
  show ?thesis
    using mode rle_case1_inv [OF run _ cur] rle_case16_inv [OF run _ cur]
      rle_case17_inv [OF run] rle_case18_inv [OF run]
    unfolding rle_mode_def xs by auto
qed

section \<open>The whole header\<close>

definition header_bits :: "nat \<Rightarrow> nat \<Rightarrow> bool list" where
  "header_bits nhlit nhdist =
     bits 5 (nhlit - 257) @ bits 5 (nhdist - 1) @ bits 4 (15::nat)
     @ concat (map (\<lambda>k. bits 3 (nbits (encode_hclen ! k))) horder)"

lemma append_fold:
  assumes "winv w" "\<forall>k \<in> set ks. g k < 2 ^ n" "n \<le> 8"
  shows "winv (fold (\<lambda>k. append_bits (g k) n) ks w)
    \<and> wbits (fold (\<lambda>k. append_bits (g k) n) ks w) = wbits w @ concat (map (\<lambda>k. bits n (g k)) ks)"
  using assms
proof (induction ks arbitrary: w)
  case (Cons k ks)
  then show ?case using append_bits_correct [of w n "g k"] by simp
qed simp

lemma write_counts_correct:
  assumes "nhlit \<le> 288" "nhdist \<le> 32"
  shows "winv (write_counts nhlit nhdist) \<and> wbits (write_counts nhlit nhdist) = header_bits nhlit nhdist"
proof -
  define w1 where "w1 = append_bits (nhlit - 257) 5 init_writer"
  define w2 where "w2 = append_bits (nhdist - 1) 5 w1"
  define w3 where "w3 = append_bits 15 4 w2"
  have w1: "winv w1 \<and> wbits w1 = bits 5 (nhlit - 257)"
    unfolding w1_def using append_bits_correct [of init_writer 5 "nhlit - 257"] init_writer_inv assms by simp
  have w2: "winv w2 \<and> wbits w2 = wbits w1 @ bits 5 (nhdist - 1)"
    unfolding w2_def using append_bits_correct [of w1 5 "nhdist - 1"] w1 assms by simp
  have w3: "winv w3 \<and> wbits w3 = wbits w2 @ bits 4 (15::nat)"
    unfolding w3_def using append_bits_correct [of w2 4 15] w2 by simp
  have "\<forall>k \<in> set horder. nbits (encode_hclen ! k) < 2 ^ 3"
  proof
    fix k assume "k \<in> set horder"
    then have "k < 19" by (auto simp: horder_def)
    then show "nbits (encode_hclen ! k) < 2 ^ 3" using encode_hclen_nth [of k] by simp
  qed
  then show ?thesis
    using append_fold [of w3 horder "\<lambda>k. nbits (encode_hclen ! k)" 3] w1 w2 w3
    by (simp add: write_counts_def header_bits_def w1_def w2_def w3_def)
qed

lemma length_header_bits: "length (header_bits nhlit nhdist) = 71"
  by (simp add: header_bits_def horder_def)

lemma rle_inv_end:
  assumes inv: "rle_inv H (xs @ [m]) r" and new: "m \<notin> set xs" and m: "m \<noteq> 0"
  shows "\<exists>ts. expand ts [] = Some xs \<and> has_rep ts = four_equal xs \<and> winv (writer r) \<and> wbits (writer r) = H @ toks_bits ts"
proof -
  obtain ts acc where run: "rle_run H ts acc r" and xs: "xs @ [m] = acc @ pending r"
    using inv by (auto simp: rle_inv_def)
  have "rle_mode r acc" using run by (simp add: rle_run_def)
  then have "rle_state r = 1"
  proof (rule contrapos_pp)
    assume st: "rle_state r \<noteq> 1"
    show "\<not> rle_mode r acc"
    proof
      assume mode: "rle_mode r acc"
      then obtain c where c: "rle_count r = Suc c"
        using st unfolding rle_mode_def by (cases "rle_count r") auto
      then have "xs @ [m] = (acc @ replicate c (cur_len r)) @ [cur_len r]"
        using xs st by (simp add: pending_def replicate_append_same)
      then have "xs = acc @ replicate c (cur_len r)" "cur_len r = m" by auto
      moreover have "cur_len r \<noteq> 0 \<Longrightarrow> acc \<noteq> [] \<and> last acc = cur_len r"
        using mode st by (auto simp: rle_mode_def)
      ultimately show False using new m by (metis Un_iff last_in_set set_append)
    qed
  qed
  then show ?thesis
    using run xs by (auto simp: rle_run_def pending_def rep_used_def)
qed

lemma encode_lengths_tokens:
  assumes n: "num_lsym \<le> 286" "num_dsym \<le> 30"
    and nhlit: "nhlit = max 257 num_lsym" and nhdist: "nhdist = max 1 num_dsym"
    and len: "nhlit + nhdist \<le> length sym_len"
    and le: "\<forall>s \<in> set (take (nhlit + nhdist) sym_len). s \<le> 15"
  shows "\<exists>dht ts pad. encode_lengths sym_len num_lsym num_dsym
      = Some (dht, length (header_bits nhlit nhdist @ toks_bits ts))
    \<and> expand ts [] = Some (take (nhlit + nhdist) sym_len)
    \<and> has_rep ts = four_equal (take (nhlit + nhdist) sym_len)
    \<and> byte_bits dht = header_bits nhlit nhdist @ toks_bits ts @ pad \<and> length pad < 8"
proof -
  let ?xs = "take (nhlit + nhdist) sym_len"
  define r where "r = \<lparr>rle_state = 0, rle_next = 0, rle_count = 0, cur_len = UINT32_MAX, next_len = 0,
               writer = write_counts nhlit nhdist\<rparr>"
  have "rle_inv (header_bits nhlit nhdist) [] r"
    using write_counts_correct [of nhlit nhdist] n nhlit nhdist by (simp add: rle_inv_def r_def)
  then obtain r1 where r1: "for_each rle_step ?xs r = Some r1" "rle_inv (header_bits nhlit nhdist) ?xs r1"
    using for_each_invariant [where P = "\<lambda>ys s. rle_inv (header_bits nhlit nhdist) ys s \<and> (\<forall>x \<in> set ys. x \<le> 15)",
        of r ?xs rle_step] rle_step_inv le by fastforce
  obtain r2 where r2: "rle_step UINT32_MAX r1 = Some r2" "rle_inv (header_bits nhlit nhdist) (?xs @ [UINT32_MAX]) r2"
    using rle_step_inv [OF r1(2) le] by blast
  have "UINT32_MAX \<notin> set ?xs" using le by (auto simp: UINT32_MAX_def)
  then obtain ts where ts: "expand ts [] = Some ?xs" "winv (writer r2)"
      "wbits (writer r2) = header_bits nhlit nhdist @ toks_bits ts" "has_rep ts = four_equal ?xs"
    using rle_inv_end [OF r2(2)] by (auto simp: UINT32_MAX_def)
  obtain pad where pad: "byte_bits (dht_done (flush_bits (writer r2))) = wbits (writer r2) @ pad"
      "length pad < 8" "bittotal (flush_bits (writer r2)) = length (wbits (writer r2))"
    using flush_bits_correct [OF ts(2)] by blast
  have "(if num_lsym < 257 then 257 else num_lsym) = nhlit" "(if num_dsym < 1 then 1 else num_dsym) = nhdist"
    using nhlit nhdist by auto
  then have "encode_lengths sym_len num_lsym num_dsym
    = Some (dht_done (flush_bits (writer r2)), length (header_bits nhlit nhdist @ toks_bits ts))"
    using len r1(1) r2(1) ts(3) pad(3) by (simp add: encode_lengths_def for_each_append flip: r_def)
  then show ?thesis using ts pad by auto
qed

end
