(* ===== verification/DhtRef.thy ===== *)
theory DhtRef
  imports DhtEncodeCorrect
begin

text \<open>
  A reader of dynamic Huffman tables written from RFC 1951 alone (sections 3.2.2 and 3.2.7), on
  bit lists and without any part of the library's code: canonical code words, a decoder that
  looks for the symbol whose code word starts the input, and the code lengths with the repeat
  codes 16, 17 and 18. Then: it reads back what the writer emits.
\<close>

section \<open>The reader of RFC 1951\<close>

text \<open>An unsigned number of \<open>n\<close> bits, least significant bit first.\<close>

primrec rfc_number :: "nat \<Rightarrow> bool list \<Rightarrow> (nat \<times> bool list) option" where
  "rfc_number 0 bs = Some (0, bs)"
| "rfc_number (Suc n) bs =
     (case bs of
        [] \<Rightarrow> None
      | b # bs \<Rightarrow> Option.bind (rfc_number n bs) (\<lambda>(v, rest). Some (of_bool b + 2 * v, rest)))"

text \<open>
  The code word of a symbol: the codes of length \<open>n\<close> are consecutive numbers, in the order of the
  symbols, and the first one follows the last of length \<open>n - 1\<close>. It is sent from its most
  significant bit.
\<close>

primrec rfc_first_code :: "nat list \<Rightarrow> nat \<Rightarrow> nat" where
  "rfc_first_code lens 0 = 0"
| "rfc_first_code lens (Suc n) =
     2 * (rfc_first_code lens n + (if n = 0 then 0 else count_list lens n))"

definition rfc_code_word :: "nat list \<Rightarrow> nat \<Rightarrow> bool list" where
  "rfc_code_word lens s =
     (let n = lens ! s; v = rfc_first_code lens n + count_list (take s lens) n
      in map (\<lambda>k. odd (v div 2 ^ (n - 1 - k))) [0..<n])"

definition rfc_symbol :: "nat list \<Rightarrow> bool list \<Rightarrow> (nat \<times> bool list) option" where
  "rfc_symbol lens bs =
     map_option (\<lambda>s. (s, drop (lens ! s) bs))
       (List.find (\<lambda>s. lens ! s \<noteq> 0 \<and> take (lens ! s) bs = rfc_code_word lens s) [0..<length lens])"

text \<open>One symbol of the code for code lengths, added to the lengths \<open>acc\<close> read before it.\<close>

definition rfc_length :: "nat list \<Rightarrow> nat list \<times> bool list \<Rightarrow> (nat list \<times> bool list) option" where
  "rfc_length cl = (\<lambda>(acc, bs).
     Option.bind (rfc_symbol cl bs) (\<lambda>(s, bs).
       if s \<le> 15 then Some (acc @ [s], bs)
       else if s = 16 then
         if acc = [] then None
         else Option.bind (rfc_number 2 bs) (\<lambda>(n, bs). Some (acc @ replicate (3 + n) (last acc), bs))
       else if s = 17 then Option.bind (rfc_number 3 bs) (\<lambda>(n, bs). Some (acc @ replicate (3 + n) 0, bs))
       else Option.bind (rfc_number 7 bs) (\<lambda>(n, bs). Some (acc @ replicate (11 + n) 0, bs))))"

text \<open>
  Exactly \<open>want\<close> lengths; every symbol adds at least one, so that \<open>want\<close> symbols are enough.
\<close>

primrec rfc_lengths :: "nat \<Rightarrow> nat list \<Rightarrow> nat \<Rightarrow> nat list \<times> bool list \<Rightarrow> (nat list \<times> bool list) option" where
  "rfc_lengths 0 cl want st = (if length (fst st) = want then Some st else None)"
| "rfc_lengths (Suc fuel) cl want st =
     (if want \<le> length (fst st) then (if length (fst st) = want then Some st else None)
      else Option.bind (rfc_length cl st) (rfc_lengths fuel cl want))"

definition rfc_order :: "nat list" where
  "rfc_order = [16, 17, 18, 0, 8, 7, 9, 6, 10, 5, 11, 4, 12, 3, 13, 2, 14, 1, 15]"

text \<open>The lengths of the code for code lengths, in the order of the RFC; the others are 0.\<close>

primrec rfc_hclens :: "nat list \<Rightarrow> nat list \<times> bool list \<Rightarrow> (nat list \<times> bool list) option" where
  "rfc_hclens [] st = Some st"
| "rfc_hclens (k # ks) st =
     Option.bind (rfc_number 3 (snd st)) (\<lambda>(n, bs). rfc_hclens ks ((fst st)[k := n], bs))"

text \<open>The whole table: the lengths of the two codes and the bits that follow.\<close>

definition rfc_table :: "bool list \<Rightarrow> (nat list \<times> nat list \<times> bool list) option" where
  "rfc_table bs =
     Option.bind (rfc_number 5 bs) (\<lambda>(hlit, bs).
     Option.bind (rfc_number 5 bs) (\<lambda>(hdist, bs).
     Option.bind (rfc_number 4 bs) (\<lambda>(hclen, bs).
     Option.bind (rfc_hclens (take (hclen + 4) rfc_order) (replicate 19 0, bs)) (\<lambda>(cl, bs).
     Option.bind (rfc_lengths (hlit + 257 + (hdist + 1)) cl (hlit + 257 + (hdist + 1)) ([], bs))
       (\<lambda>(lens, bs). Some (take (hlit + 257) lens, drop (hlit + 257) lens, bs))))))"

section \<open>It reads what the writer emits\<close>

lemma bits_Suc: "bits (Suc n) (v :: nat) = odd v # bits n (v div 2)"
  using bits_add [of 1 n v] by (simp add: bits_def drop_bit_eq_div bit_0)

lemma rfc_number_bits: "v < 2 ^ n \<Longrightarrow> rfc_number n (bits n v @ rest) = Some (v :: nat, rest)"
proof (induction n arbitrary: v)
  case (Suc n)
  have "v div 2 < 2 ^ n" using Suc.prems by (simp add: less_mult_imp_div_less)
  moreover have "of_bool (odd v) + 2 * (v div 2) = v"
    by (cases "odd v") (auto elim: oddE)
  ultimately show ?case using Suc.IH [of "v div 2"] by (simp add: bits_Suc del: of_bool_odd_eq_mod_2)
qed simp

text \<open>
  The lengths of the code for code lengths that the writer sends, its code words, and that none of
  them is the beginning of another one.
\<close>

definition hclens :: "nat list" where
  "hclens = map nbits encode_hclen"

lemma hclens_nth: "s < 19 \<Longrightarrow> hclens ! s = nbits (encode_hclen ! s)" "length hclens = 19"
  by (simp_all add: hclens_def)

lemma hclens_code_words: "list_all (\<lambda>s. rfc_code_word hclens s = sym_bits s) [0..<19]"
  by code_simp

lemma sym_bits_prefix_free:
  "list_all (\<lambda>s. list_all (\<lambda>i.
     take (min (hclens ! i) (hclens ! s)) (sym_bits i) \<noteq> take (min (hclens ! i) (hclens ! s)) (sym_bits s))
     [0..<s]) [0..<19]"
  by code_simp

lemma rfc_symbol_read:
  assumes s: "s < 19"
  shows "rfc_symbol hclens (sym_bits s @ rest) = Some (s, rest)"
proof -
  have len: "length (sym_bits i) = hclens ! i" "hclens ! i \<noteq> 0" "rfc_code_word hclens i = sym_bits i"
    if "i < 19" for i
    using that hclens_code_words encode_hclen_nth [OF that]
    by (simp_all add: sym_bits_def hclens_nth list_all_iff)
  define P where "P = (\<lambda>i. hclens ! i \<noteq> 0 \<and> take (hclens ! i) (sym_bits s @ rest) = rfc_code_word hclens i)"
  have "\<not> P i" if "i < s" for i
  proof
    assume p: "P i"
    let ?m = "min (hclens ! i) (hclens ! s)"
    have "take ?m (sym_bits i) = take ?m (take (hclens ! i) (sym_bits s @ rest))"
      using p len [of i] that s by (simp add: P_def)
    also have "\<dots> = take ?m (sym_bits s)" using len [of s] s by simp
    finally show False
      using sym_bits_prefix_free that s by (simp add: list_all_iff)
  qed
  moreover have "P s" using len [of s] s by (simp add: P_def)
  ultimately have "List.find P [0..<length hclens] = Some s"
    using s unfolding find_Some_iff by (intro exI [of _ s]) (simp add: hclens_nth(2))
  moreover have "rfc_symbol hclens (sym_bits s @ rest)
    = map_option (\<lambda>i. (i, drop (hclens ! i) (sym_bits s @ rest))) (List.find P [0..<length hclens])"
    unfolding rfc_symbol_def P_def ..
  ultimately show ?thesis using len [OF s] by simp
qed

lemma rfc_length_read:
  assumes "tok_expand t acc = Some acc'"
  shows "rfc_length hclens (acc, tok_bits t @ rest) = Some (acc', rest)"
proof (cases t)
  case (Lit a)
  then show ?thesis using assms by (auto simp: rfc_length_def rfc_symbol_read split: if_splits)
next
  case (Rep n)
  then show ?thesis
    using assms rfc_number_bits [of "n - 3" 2 rest] by (auto simp: rfc_length_def rfc_symbol_read split: if_splits)
next
  case (Zeros3 n)
  then show ?thesis
    using assms rfc_number_bits [of "n - 3" 3 rest] by (auto simp: rfc_length_def rfc_symbol_read split: if_splits)
next
  case (Zeros11 n)
  then show ?thesis
    using assms rfc_number_bits [of "n - 11" 7 rest] by (auto simp: rfc_length_def rfc_symbol_read split: if_splits)
qed

lemma tok_expand_longer: "tok_expand t acc = Some acc' \<Longrightarrow> length acc < length acc'"
  by (cases t) (auto split: if_splits)

lemma expand_longer: "expand ts acc = Some acc' \<Longrightarrow> length acc \<le> length acc'"
proof (induction ts arbitrary: acc)
  case (Cons t ts)
  then obtain acc1 where "tok_expand t acc = Some acc1" "expand ts acc1 = Some acc'"
    by (auto split: bind_splits)
  then show ?case using tok_expand_longer Cons.IH by fastforce
qed simp

lemma rfc_lengths_read:
  assumes "expand ts acc = Some lens" "want = length lens" "want \<le> fuel + length acc"
  shows "rfc_lengths fuel hclens want (acc, toks_bits ts @ rest) = Some (lens, rest)"
  using assms(1,3)
proof (induction ts arbitrary: acc fuel)
  case Nil
  then show ?case using assms(2) by (cases fuel) auto
next
  case (Cons t ts)
  obtain acc1 where t: "tok_expand t acc = Some acc1" and ts: "expand ts acc1 = Some lens"
    using Cons.prems(1) by (auto split: bind_splits)
  have len: "length acc < length acc1" "length acc1 \<le> want"
    using tok_expand_longer [OF t] expand_longer [OF ts] assms(2) by auto
  then obtain n where n: "fuel = Suc n" "want \<le> n + length acc1"
    using Cons.prems(2) by (cases fuel) auto
  show ?case
    using rfc_length_read [OF t, of "toks_bits ts @ rest"] Cons.IH [OF ts n(2)] n(1) len by simp
qed

lemma rfc_hclens_bits:
  assumes "\<forall>k \<in> set ks. f k < 8"
  shows "rfc_hclens ks (cl, concat (map (\<lambda>k. bits 3 (f k)) ks) @ rest)
    = Some (fold (\<lambda>k cl. cl[k := f k]) ks cl, rest)"
  using assms
proof (induction ks arbitrary: cl)
  case (Cons k ks)
  then show ?case
    using rfc_number_bits [of "f k" 3 "concat (map (\<lambda>k. bits 3 (f k)) ks) @ rest"] by simp
qed simp

lemma rfc_hclens_read:
  "rfc_hclens rfc_order (replicate 19 0, concat (map (\<lambda>k. bits 3 (nbits (encode_hclen ! k))) horder) @ rest)
   = Some (hclens, rest)"
proof -
  have "horder = rfc_order" by (simp add: horder_def rfc_order_def)
  moreover have "\<forall>k \<in> set rfc_order. nbits (encode_hclen ! k) < 8"
  proof
    fix k assume "k \<in> set rfc_order"
    then have "k < 19" by (auto simp: rfc_order_def)
    then show "nbits (encode_hclen ! k) < 8" using encode_hclen_nth [of k] by simp
  qed
  moreover have "fold (\<lambda>k cl. cl[k := nbits (encode_hclen ! k)]) rfc_order (replicate 19 0) = hclens"
    by code_simp
  ultimately show ?thesis
    using rfc_hclens_bits [of rfc_order "\<lambda>k. nbits (encode_hclen ! k)" "replicate 19 0" rest] by simp
qed

lemma rfc_table_read:
  assumes counts: "257 \<le> hlit" "hlit \<le> 286" "1 \<le> hdist" "hdist \<le> 30"
    and ts: "expand ts [] = Some lens" "length lens = hlit + hdist"
  shows "rfc_table (header_bits hlit hdist @ toks_bits ts @ rest) = Some (take hlit lens, drop hlit lens, rest)"
proof -
  let ?cls = "concat (map (\<lambda>k. bits 3 (nbits (encode_hclen ! k))) horder)"
  have n: "rfc_number 5 (bits 5 (hlit - 257) @ xs) = Some (hlit - 257, xs)"
    "rfc_number 5 (bits 5 (hdist - 1) @ xs) = Some (hdist - 1, xs)"
    "rfc_number 4 (bits 4 (15 :: nat) @ xs) = Some (15, xs)" for xs
    using counts by (simp_all add: rfc_number_bits)
  have eq: "hlit - 257 + 257 = hlit" "hdist - 1 + 1 = hdist" "take (15 + 4) rfc_order = rfc_order"
    using counts by (auto simp: rfc_order_def)
  show ?thesis
    unfolding rfc_table_def header_bits_def append_assoc
    by (simp only: n bind.bind_lunit prod.case eq rfc_hclens_read
        rfc_lengths_read [OF ts(1) ts(2) [symmetric], of "hlit + hdist"] list.size add_0_right le_refl)
qed

end
