(* ===== verification/DhtGen.thy ===== *)
theory DhtGen
  imports Huffmanize DhtRef
begin

text \<open>
  \<^verbatim>\<open>dhtgen\<close> and \<^verbatim>\<open>add_cpb_header\<close> of \<^verbatim>\<open>lib/nx_dhtgen.c\<close>: from the literal/length and distance
  histograms to a dynamic Huffman table in the format of the accelerator.
\<close>

definition CPB_HDR_SZ :: nat where "CPB_HDR_SZ = 16"

text \<open>The header bytes and the number of bytes with the header.\<close>

definition add_cpb_header :: "nat \<Rightarrow> nat \<Rightarrow> u8 list \<times> nat" where
  "add_cpb_header dht_num_bytes dht_num_valid_bits =
     (let invalid_bits = (if dht_num_valid_bits \<noteq> 0 then 8 - dht_num_valid_bits else 0);
          dht_bits = 8 * dht_num_bytes - invalid_bits
      in ((replicate CPB_HDR_SZ 0)[15 := word_of_nat (dht_bits AND 0xFF),
                                   14 := word_of_nat (drop_bit 8 dht_bits AND 0xFF)],
          dht_num_bytes + CPB_HDR_SZ))"

text \<open>
  The result holds what the C function returns through its pointers: the DHT buffer, the number
  of bytes and the number of valid bits in the last one, and the rescaled histograms.
\<close>

record dht_result =
  r_dht :: "u8 list"
  r_num_bytes :: nat
  r_valid_bits :: nat
  r_lhist :: "nat list"
  r_dhist :: "nat list"

text \<open>The distance codes: one distance of length 1 stands for none or one.\<close>

definition dist_code :: "nat list \<Rightarrow> nat \<Rightarrow> nat list \<Rightarrow> nat \<Rightarrow> (nat list \<times> nat list \<times> nat) option" where
  "dist_code dhist num_dhist lens base =
     (if 1 < num_dhist
      then Option.bind (huffmanize dhist num_dhist lens base) (\<lambda>(h, ls, _). Some (h, ls, num_dhist))
      else if base < length lens \<and> 0 < length dhist
      then Some (dhist[0 := 1], lens[base := 1], 1) else None)"

definition dhtgen :: "nat list \<Rightarrow> nat \<Rightarrow> nat list \<Rightarrow> nat \<Rightarrow> bool \<Rightarrow> dht_result option" where
  "dhtgen lhist num_lhist dhist num_dhist cpb_header =
     Option.bind (huffmanize lhist num_lhist (replicate (NLEN + NDIS) 0) 0) (\<lambda>(lhist, lens, _).
     Option.bind (dist_code dhist num_dhist lens (if num_lhist < 257 then 257 else num_lhist))
       (\<lambda>(dhist, lens, num_dhist).
     Option.bind (encode_lengths lens num_lhist num_dhist) (\<lambda>(dhtbuf, total_bits).
       let num_bytes = (total_bits + 7) div 8;
           valid_bits = total_bits mod 8;
           (header, bytes) = (if cpb_header then add_cpb_header num_bytes valid_bits else ([], num_bytes))
       in Some \<lparr>r_dht = header @ dhtbuf, r_num_bytes = bytes, r_valid_bits = valid_bits,
                r_lhist = lhist, r_dhist = dhist\<rparr>)))"

section \<open>Size and header\<close>

lemma header_cells: "(replicate 16 x)[15 := a, 14 := b] = replicate 14 x @ [b, a]"
  by (simp add: numeral_eq_Suc)

lemma add_cpb_header_correct:
  assumes "n < 2 ^ 16"
  shows "\<exists>hdr. add_cpb_header ((n + 7) div 8) (n mod 8) = (hdr, (n + 7) div 8 + 16)
    \<and> length hdr = 16 \<and> take 14 hdr = replicate 14 0
    \<and> 256 * unat (hdr ! 14) + unat (hdr ! 15) = n"
proof -
  define q r where "q = n div 8" and "r = n mod 8"
  have n: "n = 8 * q + r" "r < 8" by (simp_all add: q_def r_def)
  have valid: "8 * ((n + 7) div 8) - (if n mod 8 \<noteq> 0 then 8 - n mod 8 else 0) = n"
  proof (cases "r = 0")
    case True
    then have "(n + 7) div 8 = q" using n(1) by simp
    then show ?thesis using n(1) True by simp
  next
    case False
    then have "(n + 7) div 8 = q + 1" using n by (intro div_nat_eqI) auto
    then show ?thesis using n False by (simp add: r_def [symmetric])
  qed
  have mask: "k AND 255 = k mod 256" for k :: nat
    using take_bit_eq_mask [of 8 k] by (simp add: take_bit_eq_mod mask_eq_exp_minus_1)
  have "n div 256 mod 256 = n div 256" using assms by simp
  then have "256 * (n div 256 mod 256) + n mod 256 = n" by simp
  then show ?thesis
    unfolding add_cpb_header_def valid CPB_HDR_SZ_def Let_def header_cells
    by (simp add: mask drop_bit_eq_div unat_of_nat nth_append)
qed

section \<open>The generated code lengths\<close>

text \<open>
  \<open>kraft ls\<close> is Kraft's sum of the used code lengths in units of the longest code. \<open>complete_lens\<close>:
  exactly the symbols with a count have a code, of at most 15 bits, and the code is complete.
\<close>

definition kraft :: "nat list \<Rightarrow> nat" where
  "kraft ls = (\<Sum>l \<leftarrow> filter (\<lambda>l. l \<noteq> 0) ls. 2 ^ (15 - l))"

definition complete_lens :: "nat list \<Rightarrow> nat \<Rightarrow> nat list \<Rightarrow> bool" where
  "complete_lens hist nsym ls \<longleftrightarrow>
     (\<forall>i < length ls. ls ! i \<le> 15 \<and> (ls ! i \<noteq> 0 \<longleftrightarrow> i < nsym \<and> hist ! i \<noteq> 0)) \<and> kraft ls = 2 ^ 15"

lemma kraft_indices: "kraft ls = (\<Sum>i \<leftarrow> filter (\<lambda>i. ls ! i \<noteq> 0) [0..<length ls]. 2 ^ (15 - ls ! i))"
proof -
  have "filter (\<lambda>l. l \<noteq> 0) ls = map ((!) ls) (filter (\<lambda>i. ls ! i \<noteq> 0) [0..<length ls])"
    by (metis (no_types, lifting) filter_cong filter_map map_nth comp_apply)
  then show ?thesis by (simp add: kraft_def comp_def)
qed

lemma code_lens_complete:
  assumes ok: "code_lens_ok hist nsym base lens lens' m" and m: "m \<le> 15"
    and zero: "\<forall>i < k. lens ! (base + i) = 0" and k: "nsym \<le> k" "base + k \<le> length lens"
  shows "complete_lens hist nsym (take k (drop base lens'))"
proof -
  define ls where "ls = take k (drop base lens')"
  have len: "length ls = k" and nth: "ls ! i = lens' ! (base + i)" if "i < k" for i
    using ok k that by (auto simp: ls_def code_lens_ok_def)
  have len: "length ls = k" using ok k by (simp add: ls_def code_lens_ok_def)
  have used: "1 \<le> ls ! i \<and> ls ! i \<le> m" if "i < nsym" "hist ! i \<noteq> 0" for i
    using ok that k nth by (simp add: code_lens_ok_def)
  have unused: "ls ! i = 0" if "i < k" "\<not> (i < nsym \<and> hist ! i \<noteq> 0)" for i
  proof -
    have "\<And>j. (\<forall>i < nsym. hist ! i \<noteq> 0 \<longrightarrow> j \<noteq> base + i) \<Longrightarrow> lens' ! j = lens ! j"
      using ok unfolding code_lens_ok_def by blast
    moreover have "\<forall>j < nsym. hist ! j \<noteq> 0 \<longrightarrow> base + i \<noteq> base + j" using that by auto
    ultimately have "lens' ! (base + i) = lens ! (base + i)" .
    then show ?thesis using that zero nth by simp
  qed
  have iff: "ls ! i \<noteq> 0 \<longleftrightarrow> i < nsym \<and> hist ! i \<noteq> 0" if "i < k" for i
    using used [of i] unused [of i] that by fastforce
  have dom: "filter (\<lambda>i. ls ! i \<noteq> 0) [0..<k] = nonzero hist nsym"
  proof -
    have "[0..<k] = [0..<nsym] @ [nsym..<k]" using k(1) by (metis le_add_diff_inverse upt_add_eq_append zero_le)
    moreover have "filter (\<lambda>i. ls ! i \<noteq> 0) [0..<nsym] = nonzero hist nsym"
      unfolding nonzero_def using iff k(1) by (intro filter_cong) auto
    moreover have "filter (\<lambda>i. ls ! i \<noteq> 0) [nsym..<k] = []"
      using unused by (auto simp: filter_empty_conv)
    ultimately show ?thesis by simp
  qed
  have "kraft ls = (\<Sum>i \<leftarrow> nonzero hist nsym. 2 ^ (15 - ls ! i))"
    unfolding kraft_indices len dom ..
  also have "\<dots> = (\<Sum>i \<leftarrow> nonzero hist nsym. 2 ^ (15 - m) * 2 ^ (m - lens' ! (base + i)))"
  proof (intro arg_cong [where f = sum_list] map_cong refl)
    fix i assume "i \<in> set (nonzero hist nsym)"
    then have i: "i < nsym" "hist ! i \<noteq> 0" by (auto simp: set_nonzero)
    then have "15 - ls ! i = (15 - m) + (m - ls ! i)" using used m by fastforce
    then show "2 ^ (15 - ls ! i) = 2 ^ (15 - m) * (2::nat) ^ (m - lens' ! (base + i))"
      using nth i k(1) by (simp add: power_add)
  qed
  also have "\<dots> = 2 ^ (15 - m) * 2 ^ m"
    using ok by (simp add: sum_list_const_mult code_lens_ok_def)
  also have "\<dots> = 2 ^ 15" using m by (simp flip: power_add)
  finally have "kraft ls = 2 ^ 15" .
  moreover have "ls ! i \<le> 15" if "i < k" for i
    using used [of i] unused [of i] that m by fastforce
  ultimately show ?thesis
    using iff len by (simp add: complete_lens_def flip: ls_def)
qed

text \<open>A range of cells that one call does not write.\<close>

lemma code_lens_frame:
  assumes "code_lens_ok hist nsym base lens lens' m" "j < base \<or> base + nsym \<le> j"
  shows "lens' ! j = lens ! j"
  using assms unfolding code_lens_ok_def by (metis add_less_cancel_left linorder_not_less not_add_less1 trans_less_add1)

definition dist_ok :: "nat list \<Rightarrow> nat \<Rightarrow> nat list \<Rightarrow> bool" where
  "dist_ok dhist num_dhist ds \<longleftrightarrow>
     (if 1 < num_dhist then complete_lens dhist num_dhist ds \<and> length ds = num_dhist else ds = [1])"

lemma dist_code_correct:
  assumes nd: "num_dhist \<le> NDIS" "dhist \<noteq> []" "1 < num_dhist \<longrightarrow> hist_ok dhist num_dhist"
    and base: "base \<le> NLEN" and len: "length lens = NLEN + NDIS" and zero: "\<forall>j \<ge> base. j < NLEN + NDIS \<longrightarrow> lens ! j = 0"
  shows "\<exists>dhist' lens' n. dist_code dhist num_dhist lens base = Some (dhist', lens', n)
    \<and> n = max 1 num_dhist \<and> length lens' = NLEN + NDIS \<and> take base lens' = take base lens
    \<and> dist_ok dhist num_dhist (take n (drop base lens'))"
proof (cases "1 < num_dhist")
  case True
  have room: "base + num_dhist \<le> length lens" using base nd len by simp
  obtain h ls m where h: "huffmanize dhist num_dhist lens base = Some (h, ls, m)" "m \<le> 15"
      "code_lens_ok dhist num_dhist base lens ls m"
    using huffmanize_loop_correct [of dhist num_dhist INITIAL_LIMIT base lens] True nd room
    by (auto simp: huffmanize_def INITIAL_LIMIT_def)
  have ls: "length ls = length lens" using h(3) by (simp add: code_lens_ok_def)
  have "\<forall>i < num_dhist. lens ! (base + i) = 0" using zero base nd by auto
  then have "complete_lens dhist num_dhist (take num_dhist (drop base ls))"
    using code_lens_complete [OF h(3,2) _ order_refl room] by simp
  moreover have "take base ls = take base lens"
    using code_lens_frame [OF h(3)] ls by (intro nth_equalityI) auto
  ultimately show ?thesis
    using h(1) True ls room len by (simp add: dist_code_def dist_ok_def)
next
  case False
  have "base < length lens" using base len by (simp add: NLEN_def NDIS_def)
  then have "take 1 (drop base (lens[base := 1])) = [1]"
    by (intro nth_equalityI) auto
  then show ?thesis
    using False \<open>base < length lens\<close> nd len by (simp add: dist_code_def dist_ok_def)
qed

section \<open>The property\<close>

text \<open>
  Claim C1. End to end: for every literal/length histogram with at least two used symbols and
  every distance histogram (with at least two used symbols when it has more than one entry),
  \<^verbatim>\<open>dhtgen\<close> succeeds. The table it writes has at most 286 bytes (302 with the header of the
  accelerator). A reader written from RFC 1951 alone gets back from it, with fewer than eight
  padding bits left over, code lengths of at most 15 bits that give exactly the symbols of the
  histograms a code and make a complete prefix code; with a distance histogram of at most one
  entry the distance code is the single code of length 1, which is not complete. The number of
  valid bits in the last byte, and the number of bits in the last two bytes of the header of the
  accelerator, are those of the table without the padding.
\<close>

theorem dhtgen_correct:
  assumes "hist_ok lhist num_lhist" and "num_dhist \<le> NDIS" and "dhist \<noteq> []"
    and "1 < num_dhist \<longrightarrow> hist_ok dhist num_dhist"
  shows "\<exists>r table ll ds pad. dhtgen lhist num_lhist dhist num_dhist hdr = Some r
    \<and> table = drop (if hdr then 16 else 0) (r_dht r)
    \<and> rfc_table (byte_bits table) = Some (ll, ds, pad) \<and> length pad < 8
    \<and> length ll = max 257 num_lhist
    \<and> complete_lens lhist num_lhist ll \<and> dist_ok dhist num_dhist ds
    \<and> r_num_bytes r = length (r_dht r) \<and> length (r_dht r) \<le> 286 + (if hdr then 16 else 0)
    \<and> r_valid_bits r = (8 * length table - length pad) mod 8
    \<and> (hdr \<longrightarrow> 256 * unat (r_dht r ! 14) + unat (r_dht r ! 15) = 8 * length table - length pad)"
proof -
  define base n where "base = max 257 num_lhist" and "n = max 1 num_dhist"
  have nl: "num_lhist \<le> 286" "base \<le> 286" "num_lhist \<le> base" and nd: "n \<le> 30"
    using assms(1,2) by (auto simp: hist_ok_def NLEN_def NDIS_def base_def n_def)
  have b: "(if num_lhist < 257 then 257 else num_lhist) = base" by (simp add: base_def)
  obtain h1 l1 m1 where h1: "huffmanize lhist num_lhist (replicate (NLEN + NDIS) 0) 0 = Some (h1, l1, m1)"
      "m1 \<le> 15" "code_lens_ok lhist num_lhist 0 (replicate (NLEN + NDIS) 0) l1 m1"
    using huffmanize_loop_correct [of lhist num_lhist INITIAL_LIMIT 0 "replicate (NLEN + NDIS) 0"] assms(1) nl
    by (auto simp: huffmanize_def INITIAL_LIMIT_def NLEN_def)
  have len1: "length l1 = NLEN + NDIS" using h1(3) by (simp add: code_lens_ok_def)
  have zero1: "\<forall>j \<ge> base. j < NLEN + NDIS \<longrightarrow> l1 ! j = 0"
    using code_lens_frame [OF h1(3)] nl by simp
  have ll: "complete_lens lhist num_lhist (take base l1)"
    using code_lens_complete [OF h1(3,2) _ nl(3)] nl by (simp add: NLEN_def)
  have "base \<le> NLEN" using nl by (simp add: NLEN_def)
  from dist_code_correct [OF assms(2-4) this len1 zero1] obtain h2 l2 where h2:
    "dist_code dhist num_dhist l1 base = Some (h2, l2, n)" "length l2 = NLEN + NDIS"
    "take base l2 = take base l1" "dist_ok dhist num_dhist (take n (drop base l2))"
    by (auto simp: n_def)
  define ds where "ds = take n (drop base l2)"
  have split: "take (base + n) l2 = take base l1 @ ds"
    by (simp add: ds_def take_add h2(3))
  have "v \<le> 15" if "v \<in> set ds" for v
    using h2(4) that by (auto simp: dist_ok_def complete_lens_def in_set_conv_nth simp flip: ds_def split: if_splits)
  moreover have "v \<le> 15" if "v \<in> set (take base l1)" for v
    using ll that by (auto simp: complete_lens_def in_set_conv_nth)
  ultimately have le: "\<forall>s \<in> set (take (base + n) l2). s \<le> 15" by (auto simp: split)
  have room: "base + n \<le> length l2" using nl nd h2(2) by (simp add: NLEN_def NDIS_def)
  obtain dht ts pad where e: "encode_lengths l2 num_lhist n = Some (dht, length (header_bits base n @ toks_bits ts))"
    "expand ts [] = Some (take (base + n) l2)" "byte_bits dht = header_bits base n @ toks_bits ts @ pad"
    "length pad < 8"
    using encode_lengths_tokens [OF nl(1) nd _ _ room le] by (auto simp: base_def n_def)
  define total where "total = length (header_bits base n @ toks_bits ts)"
  have "length (take (base + n) l2) = base + n" using room by simp
  then have total: "total \<le> 2283"
    using expand_length [OF e(2)] nl nd by (simp add: total_def length_header_bits)
  have dlen: "8 * length dht = total + length pad"
    using arg_cong [OF e(3), of length] by (simp add: total_def)
  then have bytes: "(total + 7) div 8 = length dht" "length dht \<le> 286" using e(4) total by auto
  have counts: "257 \<le> base" "1 \<le> n" "length (take (base + n) l2) = base + n"
    using room by (auto simp: base_def n_def)
  have len_ll: "length (take base l1) = base" using nl len1 by (simp add: NLEN_def NDIS_def)
  then have "take base (take (base + n) l2) = take base l1" "drop base (take (base + n) l2) = ds"
    by (simp_all add: split)
  then have table: "rfc_table (byte_bits dht) = Some (take base l1, ds, pad)"
    using rfc_table_read [OF counts(1) nl(2) counts(2) nd e(2) counts(3), of pad] e(3) by simp
  obtain hd where hd: "add_cpb_header ((total + 7) div 8) (total mod 8) = (hd, (total + 7) div 8 + 16)"
    "length hd = 16" "256 * unat (hd ! 14) + unat (hd ! 15) = total"
    using add_cpb_header_correct [of total] total by auto
  define r where "r = \<lparr>r_dht = (if hdr then hd else []) @ dht, r_num_bytes = length dht + (if hdr then 16 else 0),
    r_valid_bits = total mod 8, r_lhist = h1, r_dhist = h2\<rparr>"
  have "dhtgen lhist num_lhist dhist num_dhist hdr = Some r"
    using h1(1) h2(1) e(1) [folded total_def] hd(1) bytes(1) by (simp add: dhtgen_def b r_def)
  moreover have "drop (if hdr then 16 else 0) (r_dht r) = dht" using hd(2) by (simp add: r_def)
  moreover have "8 * length dht - length pad = total" using dlen by simp
  ultimately show ?thesis
    using table e(4) len_ll ll h2(4) bytes(2) hd(2,3)
    by (intro exI [of _ r] exI [of _ dht] exI [of _ "take base l1"] exI [of _ ds] exI [of _ pad])
       (auto simp: r_def base_def ds_def)
qed

theorem dhtgen_correct_witness:
  "\<exists>r table ll ds pad. dhtgen (replicate 256 1 @ [1]) 257 [7, 0, 2] 3 True = Some r
    \<and> table = drop (if True then 16 else 0) (r_dht r)
    \<and> rfc_table (byte_bits table) = Some (ll, ds, pad) \<and> length pad < 8
    \<and> length ll = max 257 257
    \<and> complete_lens (replicate 256 1 @ [1]) 257 ll \<and> dist_ok [7, 0, 2] 3 ds
    \<and> r_num_bytes r = length (r_dht r) \<and> length (r_dht r) \<le> 286 + (if True then 16 else 0)
    \<and> r_valid_bits r = (8 * length table - length pad) mod 8
    \<and> (True \<longrightarrow> 256 * unat (r_dht r ! 14) + unat (r_dht r ! 15) = 8 * length table - length pad)"
  by (rule dhtgen_correct) (simp_all add: hist_ok_eval NDIS_def list_all_iff)

end
