(* ===== verification/DhtDecomp.thy ===== *)
theory DhtDecomp
  imports NxPrelude
begin

text \<open>
  The DHT reader of \<^verbatim>\<open>lib/nx_dht_decomp.c\<close>: the bit reader \<^verbatim>\<open>shift_then_get_bits\<close>, the code for
  code lengths and \<^verbatim>\<open>dht_decomp\<close>. The input is a byte list; a read after its end, a write
  outside one of the fixed-size tables, a failed assertion, a code that is not in the table
  (\<^verbatim>\<open>exit(-1)\<close>) and the use of \<^verbatim>\<open>prev_alp\<close> before it is set are faults. \<^verbatim>\<open>prev_alp\<close> is declared
  inside the body of the loop over the code lengths: every iteration starts with an
  indeterminate value, whatever the one before stored in it, so that the code 16, which repeats
  it, reads an uninitialised variable.
\<close>

datatype dht_fault = Input_End | Table_Overrun | Assert_Failed | Exit_No_Match | Uninit_Prev

section \<open>Data\<close>

record hclen_entry =
  h_len :: nat
  h_code :: nat

record len_entry =
  l_len :: nat
  l_idx :: nat

record ctx =
  hold :: u32
  hold_bits :: nat
  dbuf :: "u8 list"
  sum_used_bits :: nat
  sum2_used_bits :: nat
  hclen_tree :: "hclen_entry list"
  hclen_next_code :: "nat list"
  hclen_bl_count :: "nat list"
  ll_tree :: "len_entry list"
  ll_next_code_base :: "nat list"
  ll_bl_count :: "nat list"
  dist_tree :: "len_entry list"
  dist_next_code_base :: "nat list"
  dist_bl_count :: "nat list"

text \<open>The context after \<^verbatim>\<open>memset(&c, 0, sizeof(ctx))\<close> with the buffer attached.\<close>

definition zero_ctx :: "u8 list \<Rightarrow> ctx" where
  "zero_ctx buf =
     \<lparr>hold = 0, hold_bits = 0, dbuf = buf, sum_used_bits = 0, sum2_used_bits = 0,
      hclen_tree = replicate 19 \<lparr>h_len = 0, h_code = 0\<rparr>,
      hclen_next_code = replicate 8 0, hclen_bl_count = replicate 8 0,
      ll_tree = replicate 286 \<lparr>l_len = 0, l_idx = 0\<rparr>,
      ll_next_code_base = replicate 16 0, ll_bl_count = replicate 16 0,
      dist_tree = replicate 30 \<lparr>l_len = 0, l_idx = 0\<rparr>,
      dist_next_code_base = replicate 16 0, dist_bl_count = replicate 16 0\<rparr>"

section \<open>The bit reader\<close>

definition refill :: "nat \<Rightarrow> ctx \<Rightarrow> dht_fault + ctx" where
  "refill want c =
     (if hold_bits c < want
      then (case dbuf c of
              [] \<Rightarrow> Inl Input_End
            | b # bs \<Rightarrow> Inr (c\<lparr>hold := hold c OR push_bit (hold_bits c) (ucast b),
                              hold_bits := hold_bits c + 8, dbuf := bs\<rparr>))
      else Inr c)"

definition get_bits :: "nat \<Rightarrow> ctx \<Rightarrow> dht_fault + nat \<times> ctx" where
  "get_bits need c =
     (if \<not> (need < 8 \<and> 0 < need \<and> hold_bits c < 32) then Inl Assert_Failed
      else bindE (refill need c)
        (\<lambda>c. Inr (unat (hold c AND (push_bit need 1 - 1)),
                  c\<lparr>hold := drop_bit need (hold c), hold_bits := hold_bits c - need\<rparr>)))"

definition shift_then_get_bits :: "nat \<Rightarrow> nat \<Rightarrow> ctx \<Rightarrow> dht_fault + nat \<times> ctx" where
  "shift_then_get_bits need shf c =
     (if \<not> (need < 16 \<and> 0 < need \<and> hold_bits c < 32 \<and> shf < 16) then Inl Assert_Failed
      else bindE (refill (need + shf) c) (\<lambda>c. bindE (refill (need + shf) c)
        (\<lambda>c. let c = c\<lparr>hold := drop_bit shf (hold c), hold_bits := hold_bits c - shf\<rparr>
              in Inr (unat (hold c AND (push_bit need 1 - 1)),
                      c\<lparr>sum_used_bits := sum_used_bits c + shf\<rparr>))))"

section \<open>The code for code lengths\<close>

definition hclen_order :: "nat list" where
  "hclen_order = [16, 17, 18, 0, 8, 7, 9, 6, 10, 5, 11, 4, 12, 3, 13, 2, 14, 1, 15]"

primrec reverse_loop :: "nat \<Rightarrow> nat \<Rightarrow> nat \<Rightarrow> nat" where
  "reverse_loop 0 val result = result"
| "reverse_loop (Suc n) val result = reverse_loop n (val div 2) (2 * result + val mod 2)"

definition reverse_bits :: "nat \<Rightarrow> nat \<Rightarrow> nat" where
  "reverse_bits val n = reverse_loop n val 0"

fun search_hclen :: "hclen_entry list \<Rightarrow> nat \<Rightarrow> nat \<Rightarrow> nat option" where
  "search_hclen [] i hcode = None"
| "search_hclen (e # es) i hcode =
     (if h_len e \<noteq> 0 \<and> hcode AND (2 ^ h_len e - 1) = (2 ^ h_len e - 1) AND h_code e
      then Some i else search_hclen es (Suc i) hcode)"

definition search_hclen_tree :: "nat \<Rightarrow> ctx \<Rightarrow> nat option" where
  "search_hclen_tree hcode c = search_hclen (hclen_tree c) 0 hcode"

text \<open>One of the \<open>hclen\<close> length fields.\<close>

definition read_hclen :: "nat \<Rightarrow> nat \<times> ctx \<Rightarrow> dht_fault + nat \<times> ctx" where
  "read_hclen k = (\<lambda>(used, c).
     bindE (shift_then_get_bits 3 used c)
       (\<lambda>(len, c). Inr (3, c\<lparr>sum2_used_bits := sum2_used_bits c + 3,
          hclen_tree := (hclen_tree c)[k := (hclen_tree c ! k)\<lparr>h_len := len\<rparr>],
          hclen_bl_count := (if len \<noteq> 0 then (hclen_bl_count c)[len := hclen_bl_count c ! len + 1]
                             else hclen_bl_count c)\<rparr>)))"

text \<open>
  The smallest code of every length: entry \<open>k\<close> of the result is for length \<open>k\<close>, starting with
  \<open>code\<close> for the length before the list.
\<close>

primrec codeminima :: "nat \<Rightarrow> nat list \<Rightarrow> nat list" where
  "codeminima code [] = []"
| "codeminima code (n # ns) = 2 * (code + n) # codeminima (2 * (code + n)) ns"

definition next_codes :: "nat list \<Rightarrow> nat list" where
  "next_codes bl_count = 0 # codeminima 0 (butlast bl_count)"

definition assign_code :: "nat \<Rightarrow> ctx \<Rightarrow> ctx" where
  "assign_code i c =
     (let len = h_len (hclen_tree c ! i); nc = hclen_next_code c
      in if len \<noteq> 0
         then c\<lparr>hclen_tree := (hclen_tree c)[i := (hclen_tree c ! i)\<lparr>h_code := reverse_bits (nc ! len) len\<rparr>],
                hclen_next_code := nc[len := nc ! len + 1]\<rparr>
         else c)"

definition assign_codes :: "ctx \<Rightarrow> ctx" where
  "assign_codes c =
     fold assign_code [0..<19] (c\<lparr>hclen_next_code := next_codes (hclen_bl_count c)\<rparr>)"

section \<open>The code lengths\<close>

text \<open>The variables of the main loop; \<open>lp_prev\<close>, local to its body, is \<open>None\<close> while it is not set.\<close>

record dht_loop =
  lp_i :: nat
  lp_j :: nat
  lp_used :: nat
  lp_prev :: "nat option"
  lp_ctx :: ctx

definition store_len :: "nat \<Rightarrow> nat \<Rightarrow> dht_loop \<Rightarrow> dht_fault + dht_loop" where
  "store_len hlit alp s =
     (let c = lp_ctx s; i = lp_i s; j = lp_j s in
      if i < hlit then
        if i < length (ll_tree c)
        then Inr (s\<lparr>lp_i := i + 1, lp_ctx :=
               c\<lparr>ll_tree := (ll_tree c)[i := \<lparr>l_len = alp, l_idx = ll_bl_count c ! alp\<rparr>],
                 ll_bl_count := (if alp \<noteq> 0 then (ll_bl_count c)[alp := ll_bl_count c ! alp + 1]
                                 else ll_bl_count c)\<rparr>\<rparr>)
        else Inl Table_Overrun
      else if j < length (dist_tree c)
        then Inr (s\<lparr>lp_i := i + 1, lp_j := j + 1, lp_ctx :=
               c\<lparr>dist_tree := (dist_tree c)[j := \<lparr>l_len = alp, l_idx = dist_bl_count c ! alp\<rparr>],
                 dist_bl_count := (if alp \<noteq> 0 then (dist_bl_count c)[alp := dist_bl_count c ! alp + 1]
                                   else dist_bl_count c)\<rparr>\<rparr>)
        else Inl Table_Overrun)"

definition store_zero :: "nat \<Rightarrow> dht_loop \<Rightarrow> dht_fault + dht_loop" where
  "store_zero hlit s =
     (let c = lp_ctx s; i = lp_i s; j = lp_j s in
      if i < hlit then
        if i < length (ll_tree c)
        then Inr (s\<lparr>lp_i := i + 1, lp_prev := Some 0, lp_ctx :=
               c\<lparr>ll_tree := (ll_tree c)[i := \<lparr>l_len = 0, l_idx = 0\<rparr>]\<rparr>\<rparr>)
        else Inl Table_Overrun
      else if j < length (dist_tree c)
        then Inr (s\<lparr>lp_i := i + 1, lp_j := j + 1, lp_prev := Some 0, lp_ctx :=
               c\<lparr>dist_tree := (dist_tree c)[j := \<lparr>l_len = 0, l_idx = 0\<rparr>]\<rparr>\<rparr>)
        else Inl Table_Overrun)"

text \<open>The argument of 16, 17 or 18, with the number of its bits and the value added to it.\<close>

definition read_arg :: "nat \<Rightarrow> nat \<Rightarrow> dht_loop \<Rightarrow> dht_fault + nat \<times> dht_loop" where
  "read_arg nbits offset s =
     bindE (shift_then_get_bits nbits (lp_used s) (lp_ctx s))
       (\<lambda>(arg, c). Inr (arg + offset,
          s\<lparr>lp_used := nbits, lp_ctx := c\<lparr>sum2_used_bits := sum2_used_bits c + nbits\<rparr>\<rparr>))"

definition decode_alp :: "nat \<Rightarrow> nat \<Rightarrow> dht_loop \<Rightarrow> dht_fault + dht_loop" where
  "decode_alp hlit alp s =
     (if alp < 16 then bindE (store_len hlit alp s) (\<lambda>s. Inr (s\<lparr>lp_prev := Some alp\<rparr>))
      else if alp = 16 then
        bindE (read_arg 2 3 s)
          (\<lambda>(arg, s). case lp_prev s of
             None \<Rightarrow> Inl Uninit_Prev
           | Some prev \<Rightarrow> timesE arg (store_len hlit prev) s)
      else if alp = 17 then bindE (read_arg 3 3 s) (\<lambda>(arg, s). timesE arg (store_zero hlit) s)
      else bindE (read_arg 7 11 s) (\<lambda>(arg, s). timesE arg (store_zero hlit) s))"

text \<open>One iteration of the loop, whose \<^verbatim>\<open>prev_alp\<close> starts uninitialised.\<close>

definition decode_len :: "nat \<Rightarrow> dht_loop \<Rightarrow> dht_fault + dht_loop" where
  "decode_len hlit s =
     bindE (shift_then_get_bits 7 (lp_used s) (lp_ctx s))
       (\<lambda>(hcode, c).
          case search_hclen_tree hcode c of
            None \<Rightarrow> Inl Exit_No_Match
          | Some alp \<Rightarrow>
              (let used = h_len (hclen_tree c ! alp)
               in decode_alp hlit alp
                    (s\<lparr>lp_used := used, lp_prev := None,
                       lp_ctx := c\<lparr>sum2_used_bits := sum2_used_bits c + used\<rparr>\<rparr>)))"

partial_function (option) decode_lens :: "nat \<Rightarrow> nat \<Rightarrow> dht_loop \<Rightarrow> (dht_fault + dht_loop) option" where
  "decode_lens hlit num s =
     (if lp_i s < num
      then (case decode_len hlit s of Inl e \<Rightarrow> Some (Inl e) | Inr s' \<Rightarrow> decode_lens hlit num s')
      else Some (Inr s))"

text \<open>
  The three counts, the code for code lengths, and the rest. \<open>skip\<close> is the number of bits that
  the build options discard first: 3 for the block header of raw DEFLATE data, else 0.
\<close>

definition read_counts :: "nat \<Rightarrow> ctx \<Rightarrow> dht_fault + (nat \<times> nat \<times> nat) \<times> ctx" where
  "read_counts skip c =
     bindE (shift_then_get_bits 5 skip c) (\<lambda>(a, c).
     bindE (shift_then_get_bits 5 5 (c\<lparr>sum2_used_bits := sum2_used_bits c + 5\<rparr>)) (\<lambda>(b, c).
     bindE (shift_then_get_bits 4 5 (c\<lparr>sum2_used_bits := sum2_used_bits c + 5\<rparr>)) (\<lambda>(d, c).
     Inr ((a + 257, b + 1, d + 4), c\<lparr>sum2_used_bits := sum2_used_bits c + 4\<rparr>))))"

definition read_hclens :: "nat \<Rightarrow> ctx \<Rightarrow> dht_fault + nat \<times> ctx" where
  "read_hclens hclen c =
     bindE (for_eachE read_hclen (take hclen hclen_order)
              (4, c\<lparr>hclen_tree := replicate 19 \<lparr>h_len = 0, h_code = 0\<rparr>,
                    hclen_bl_count := replicate 8 0\<rparr>))
       (\<lambda>(used, c). Inr (used, assign_codes c))"

definition clear_counts :: "ctx \<Rightarrow> ctx" where
  "clear_counts c =
     c\<lparr>ll_next_code_base := take 1 (ll_next_code_base c) @ replicate 15 0,
       ll_bl_count := take 1 (ll_bl_count c) @ replicate 15 0,
       dist_next_code_base := take 1 (dist_next_code_base c) @ replicate 15 0,
       dist_bl_count := take 1 (dist_bl_count c) @ replicate 15 0\<rparr>"

definition finish_codes :: "dht_loop \<Rightarrow> ctx" where
  "finish_codes s =
     (let c = lp_ctx s
      in c\<lparr>sum_used_bits := sum_used_bits c + lp_used s,
           ll_next_code_base :=
             take 1 (ll_next_code_base c) @ codeminima 0 (butlast (ll_bl_count c)),
           dist_next_code_base :=
             take 1 (dist_next_code_base c) @ codeminima 0 (butlast (dist_bl_count c))\<rparr>)"

definition dht_decomp :: "nat \<Rightarrow> u8 list \<Rightarrow> ctx \<Rightarrow> (dht_fault + ctx) option" where
  "dht_decomp skip buf c =
     (case bindE (read_counts skip (c\<lparr>dbuf := buf\<rparr>)) (\<lambda>((hlit, hdist, hclen), c).
             bindE (read_hclens hclen c) (\<lambda>(used, c).
             Inr (hlit, hdist, \<lparr>lp_i = 0, lp_j = 0, lp_used = used, lp_prev = None,
                               lp_ctx = clear_counts c\<rparr>))) of
        Inl e \<Rightarrow> Some (Inl e)
      | Inr (hlit, hdist, s) \<Rightarrow>
          Option.bind (decode_lens hlit (hlit + hdist) s)
            (\<lambda>r. Some (case r of Inl e \<Rightarrow> Inl e | Inr s \<Rightarrow> Inr (finish_codes s))))"

section \<open>Checking for missing codes\<close>

definition find_missing_code :: "ctx \<Rightarrow> nat" where
  "find_missing_code c =
     length (filter (\<lambda>e. l_len e = 0) (ll_tree c)) + length (filter (\<lambda>e. l_len e = 0) (dist_tree c))"

definition check_dht :: "nat \<Rightarrow> u8 list \<Rightarrow> (dht_fault + nat) option" where
  "check_dht skip buf =
     Option.bind (dht_decomp skip buf (zero_ctx []))
       (\<lambda>r. Some (case r of Inl e \<Rightarrow> Inl e | Inr c \<Rightarrow> Inr (find_missing_code c)))"

end
