(* ===== verification/DhtRoundtrip.thy ===== *)
theory DhtRoundtrip
  imports DhtRef DhtDecomp
begin

text \<open>
  The DHT reader on the output of the DHT writer: on the bits that \<^verbatim>\<open>encode_lengths\<close> writes
  without the code 16, \<^verbatim>\<open>dht_decomp\<close> ends without a fault and fills its tables with exactly the
  given code lengths, and with their canonical code indices; at a code 16 it reads \<^verbatim>\<open>prev_alp\<close>,
  which is not initialised.
\<close>

section \<open>The bit reader\<close>

definition cstream :: "ctx \<Rightarrow> bool list" where
  "cstream c = bits (hold_bits c) (hold c) @ byte_bits (dbuf c)"

definition cinv :: "ctx \<Rightarrow> bool" where
  "cinv c \<longleftrightarrow> hold_bits c \<le> 23 \<and> (\<forall>k \<ge> hold_bits c. \<not> bit (hold c) k)"

text \<open>
  The reader has \<open>used\<close> bits to discard before the bits \<open>S\<close>; \<open>N\<close> is the number of bits of the
  whole input.
\<close>

definition reading :: "nat \<Rightarrow> ctx \<Rightarrow> nat \<Rightarrow> bool list \<Rightarrow> bool" where
  "reading N c used S \<longleftrightarrow>
     cinv c \<and> (\<exists>us. length us = used \<and> cstream c = us @ S)
     \<and> sum_used_bits c + used + length S = N"

definition same_tables :: "ctx \<Rightarrow> ctx \<Rightarrow> bool" where
  "same_tables c c' \<longleftrightarrow>
     c' = c\<lparr>hold := hold c', hold_bits := hold_bits c', dbuf := dbuf c',
            sum_used_bits := sum_used_bits c', sum2_used_bits := sum2_used_bits c'\<rparr>"

lemma refill_correct:
  assumes c: "cinv c" and w: "want \<le> 16" and n: "want \<le> length (cstream c)"
  shows "\<exists>c'. refill want c = Inr c' \<and> cinv c' \<and> cstream c' = cstream c \<and> same_tables c c'
    \<and> sum_used_bits c' = sum_used_bits c \<and> (want \<le> hold_bits c' \<or> hold_bits c' = hold_bits c + 8)"
proof (cases "hold_bits c < want")
  case True
  then obtain b bs where b: "dbuf c = b # bs"
    using n by (cases "dbuf c") (auto simp: cstream_def)
  have high: "\<And>k. hold_bits c \<le> k \<Longrightarrow> \<not> bit (hold c) k" and small: "hold_bits c \<le> 15"
    using c True w by (auto simp: cinv_def)
  have cat: "bits (hold_bits c + 8) (hold c OR push_bit (hold_bits c) (ucast b))
    = bits (hold_bits c) (hold c) @ bits 8 b"
    using high small by (subst bits_or_push) (auto simp: bits_ucast)
  have "\<not> bit (hold c OR push_bit (hold_bits c) (ucast b)) k" if "hold_bits c + 8 \<le> k" for k
    using that high [of k] by (auto simp: bit_simps dest: bit_imp_le_length)
  then show ?thesis
    using True b small cat by (simp add: refill_def cinv_def cstream_def same_tables_def)
next
  case False
  then show ?thesis using c by (simp add: refill_def same_tables_def)
qed

lemma same_tables_trans: "same_tables c c1 \<Longrightarrow> same_tables c1 c2 \<Longrightarrow> same_tables c c2"
  unfolding same_tables_def
  by (cases c; cases c1; cases c2) simp

lemma mask_word: "(x::u32) AND (2 ^ n - 1) = take_bit n x"
  by (simp add: take_bit_eq_mask mask_eq_exp_minus_1)

lemma shift_then_get_bits_correct:
  assumes r: "reading N c used (vs @ rest)" and need: "length vs = need" "0 < need" "need + used \<le> 15"
  shows "\<exists>c'. shift_then_get_bits need used c = Inr (bval vs, c') \<and> reading N c' 0 (vs @ rest)
    \<and> same_tables c c'"
proof -
  obtain us where c: "cinv c" and us: "length us = used" "cstream c = us @ vs @ rest"
    and N: "sum_used_bits c + used + length (vs @ rest) = N"
    using r by (auto simp: reading_def)
  have long: "need + used \<le> length (cstream c)" using us need by simp
  obtain c1 where c1: "refill (need + used) c = Inr c1" "cinv c1" "cstream c1 = cstream c"
      "same_tables c c1" "sum_used_bits c1 = sum_used_bits c"
      "need + used \<le> hold_bits c1 \<or> hold_bits c1 = hold_bits c + 8"
    using refill_correct [OF c _ long] need by auto
  obtain c2 where c2: "refill (need + used) c1 = Inr c2" "cinv c2" "cstream c2 = cstream c"
      "same_tables c1 c2" "sum_used_bits c2 = sum_used_bits c"
      "need + used \<le> hold_bits c2 \<or> hold_bits c2 = hold_bits c1 + 8"
    using refill_correct [OF c1(2), of "need + used"] c1 long need by auto
  have hb: "need + used \<le> hold_bits c2" using c1(6) c2(6) need by linarith
  have "take (used + need) (cstream c2) = bits (used + need) (hold c2)"
    using hb by (simp add: cstream_def take_bits add.commute)
  then have "us @ vs = bits used (hold c2) @ bits need (drop_bit used (hold c2))"
    using us need c2(3) by (simp add: bits_add)
  then have vs: "vs = bits need (drop_bit used (hold c2))"
    using us(1) by simp
  have "drop used (cstream c2) = bits (hold_bits c2 - used) (drop_bit used (hold c2)) @ byte_bits (dbuf c2)"
    using hb by (simp add: cstream_def drop_bits)
  then have rest: "vs @ rest = bits (hold_bits c2 - used) (drop_bit used (hold c2)) @ byte_bits (dbuf c2)"
    using us c2(3) by simp
  define c3 where "c3 = c2\<lparr>hold := drop_bit used (hold c2), hold_bits := hold_bits c2 - used,
    sum_used_bits := sum_used_bits c2 + used\<rparr>"
  have inv3: "cinv c3"
    using c2(2) hb by (auto simp: cinv_def c3_def bit_simps)
  have asserts: "need < 16 \<and> 0 < need \<and> hold_bits c < 32 \<and> used < 16"
    using need c by (simp add: cinv_def)
  have "shift_then_get_bits need used c = Inr (unat (take_bit need (drop_bit used (hold c2))), c3)"
    using asserts c1(1) c2(1) by (simp add: shift_then_get_bits_def mask_word Let_def c3_def)
  moreover have "unat (take_bit need (drop_bit used (hold c2))) = bval vs"
    by (simp add: vs bval_bits_word)
  moreover have "reading N c3 0 (vs @ rest)"
    using inv3 rest N c2(5) by (simp add: reading_def cstream_def c3_def)
  moreover have "same_tables c c3"
    using same_tables_trans [OF c1(4) c2(4)] by (cases c; cases c2) (simp add: same_tables_def c3_def)
  ultimately show ?thesis by (intro exI [of _ c3]) simp
qed

text \<open>Bits that were only looked at are discarded by the next read.\<close>

lemma reading_use:
  assumes "reading N c 0 (vs @ rest)" "length vs = k"
  shows "reading N c k rest"
  using assms by (auto simp: reading_def)

lemma same_tables_fields:
  assumes "same_tables c c'"
  shows "hclen_tree c' = hclen_tree c" "hclen_next_code c' = hclen_next_code c"
    "hclen_bl_count c' = hclen_bl_count c" "ll_tree c' = ll_tree c"
    "ll_next_code_base c' = ll_next_code_base c" "ll_bl_count c' = ll_bl_count c"
    "dist_tree c' = dist_tree c" "dist_next_code_base c' = dist_next_code_base c"
    "dist_bl_count c' = dist_bl_count c"
  using assms by (cases c; cases c'; simp add: same_tables_def)+

text \<open>Changing tables does not affect the reader.\<close>

lemma reading_cong:
  "hold c' = hold c \<Longrightarrow> hold_bits c' = hold_bits c \<Longrightarrow> dbuf c' = dbuf c \<Longrightarrow>
   sum_used_bits c' = sum_used_bits c \<Longrightarrow> reading N c' used S = reading N c used S"
  by (simp add: reading_def cinv_def cstream_def)

section \<open>The code for code lengths\<close>

definition code_tree :: "hclen_entry list" where
  "code_tree = map (\<lambda>e. \<lparr>h_len = nbits e, h_code = code e\<rparr>) encode_hclen"

definition assign_pure :: "nat \<Rightarrow> hclen_entry list \<times> nat list \<Rightarrow> hclen_entry list \<times> nat list" where
  "assign_pure i = (\<lambda>(t, nc).
     let len = h_len (t ! i)
     in if len \<noteq> 0 then (t[i := (t ! i)\<lparr>h_code := reverse_bits (nc ! len) len\<rparr>], nc[len := nc ! len + 1])
        else (t, nc))"

lemma assign_code_pure:
  "assign_code i c = (let (t, nc) = assign_pure i (hclen_tree c, hclen_next_code c)
                      in c\<lparr>hclen_tree := t, hclen_next_code := nc\<rparr>)"
  by (simp add: assign_code_def assign_pure_def Let_def)

lemma fold_assign_pure:
  "fold assign_code is c = (let (t, nc) = fold assign_pure is (hclen_tree c, hclen_next_code c)
                            in c\<lparr>hclen_tree := t, hclen_next_code := nc\<rparr>)"
proof (induction "is" arbitrary: c)
  case (Cons i "is")
  then show ?case
    by (simp add: assign_code_pure split: prod.splits)
qed simp

lemma list_update_Cons_numeral [simp]: "(x # xs)[numeral n := y] = x # xs[pred_numeral n := y]"
  by (simp add: numeral_eq_Suc)

lemma reverse_loop_numeral [simp]: "reverse_loop (numeral n) v r =
   reverse_loop (pred_numeral n) (v div 2) (2 * r + v mod 2)"
  by (simp add: numeral_eq_Suc)

lemma upt19: "[0..<19] = [0,1,2,3,4,5,6,7,8,9,10,11,12,13,14,15,16,17,18::nat]" by (simp add: upt_rec)

lemma next_codes_hclen: "next_codes [0, 0, 0, 4, 4, 6, 3, 2] = [0, 0, 0, 0, 8, 24, 60, 126]"
  by (simp add: next_codes_def)

lemma code_tree_assigned:
  "fst (fold assign_pure [0..<19]
      (map (\<lambda>e. \<lparr>h_len = nbits e, h_code = 0\<rparr>) encode_hclen, next_codes [0, 0, 0, 4, 4, 6, 3, 2]))
   = code_tree"
   unfolding next_codes_hclen upt19
  by (simp add: encode_hclen_def code_tree_def assign_pure_def reverse_bits_def)

lemma read_counts_correct:
  assumes r: "reading N c skip (bits 5 a @ bits 5 b @ bits 4 d @ rest)"
    and small: "a < 32" "b < 32" "d < (16::nat)" and skip: "skip \<le> 10"
  shows "\<exists>c'. read_counts skip c = Inr ((a + 257, b + 1, d + 4), c') \<and> reading N c' 4 rest
    \<and> same_tables c c'"
proof -
  let ?up = "\<lambda>n c. c\<lparr>sum2_used_bits := sum2_used_bits c + n\<rparr>"
  have up: "reading N (?up n c) u S = reading N c u S" "same_tables c (?up n c)" for n c u S
    by (rule reading_cong; simp) (simp add: same_tables_def)
  obtain c1 where c1: "shift_then_get_bits 5 skip c = Inr (bval (bits 5 a), c1)"
      "reading N c1 0 (bits 5 a @ bits 5 b @ bits 4 d @ rest)" "same_tables c c1"
    using shift_then_get_bits_correct [OF r] skip by fastforce
  have r1: "reading N (?up 5 c1) 5 (bits 5 b @ bits 4 d @ rest)"
    using reading_use [OF c1(2)] up by simp
  obtain c2 where c2: "shift_then_get_bits 5 5 (?up 5 c1) = Inr (bval (bits 5 b), c2)"
      "reading N c2 0 (bits 5 b @ bits 4 d @ rest)" "same_tables (?up 5 c1) c2"
    using shift_then_get_bits_correct [OF r1] by fastforce
  have r2: "reading N (?up 5 c2) 5 (bits 4 d @ rest)"
    using reading_use [OF c2(2)] up by simp
  obtain c3 where c3: "shift_then_get_bits 4 5 (?up 5 c2) = Inr (bval (bits 4 d), c3)"
      "reading N c3 0 (bits 4 d @ rest)" "same_tables (?up 5 c2) c3"
    using shift_then_get_bits_correct [OF r2] by fastforce
  have r3: "reading N (?up 4 c3) 4 rest"
    using reading_use [OF c3(2)] up by simp
  have "read_counts skip c = Inr ((a + 257, b + 1, d + 4), ?up 4 c3)"
    using c1(1) c2(1) c3(1) small by (simp add: read_counts_def bval_bits_small)
  moreover have "same_tables c (?up 4 c3)"
    using c1(3) c2(3) c3(3) up(2) same_tables_trans by metis
  ultimately show ?thesis using r3 by blast
qed

text \<open>The length fields, written as an update of the table and of the counts.\<close>

definition set_hclen :: "(nat \<Rightarrow> nat) \<Rightarrow> nat \<Rightarrow> hclen_entry list \<times> nat list \<Rightarrow> hclen_entry list \<times> nat list" where
  "set_hclen f k = (\<lambda>(t, bl).
     (t[k := (t ! k)\<lparr>h_len := f k\<rparr>], if f k \<noteq> 0 then bl[f k := bl ! f k + 1] else bl))"

lemma read_hclens_loop:
  assumes "reading N c used (concat (map (\<lambda>k. bits 3 (f k)) ks) @ rest)" "used \<le> 4"
    and "\<forall>k \<in> set ks. f k < 8" "ks \<noteq> []"
  shows "\<exists>c'. for_eachE read_hclen ks (used, c) = Inr (3, c') \<and> reading N c' 3 rest
    \<and> (hclen_tree c', hclen_bl_count c') = fold (set_hclen f) ks (hclen_tree c, hclen_bl_count c)
    \<and> same_tables (c\<lparr>hclen_tree := hclen_tree c', hclen_bl_count := hclen_bl_count c'\<rparr>) c'"
  using assms
proof (induction ks arbitrary: c used)
  case (Cons k ks)
  let ?S = "concat (map (\<lambda>k. bits 3 (f k)) ks) @ rest"
  obtain c1 where c1: "shift_then_get_bits 3 used c = Inr (bval (bits 3 (f k)), c1)"
      "reading N c1 0 (bits 3 (f k) @ ?S)" "same_tables c c1"
    using shift_then_get_bits_correct [of N c used "bits 3 (f k)" ?S] Cons.prems by fastforce
  have len: "bval (bits 3 (f k)) = f k" using Cons.prems by (simp add: bval_bits_small)
  define c2 where "c2 = c1\<lparr>sum2_used_bits := sum2_used_bits c1 + 3,
    hclen_tree := fst (set_hclen f k (hclen_tree c, hclen_bl_count c)),
    hclen_bl_count := snd (set_hclen f k (hclen_tree c, hclen_bl_count c))\<rparr>"
  have step: "read_hclen k (used, c) = Inr (3, c2)"
    using c1(1) same_tables_fields [OF c1(3)]
    by (simp add: read_hclen_def len c2_def set_hclen_def)
  have r2: "reading N c2 3 ?S"
    using reading_use [OF c1(2)] reading_cong [of c2 c1] by (simp add: c2_def)
  have t2: "same_tables (c\<lparr>hclen_tree := hclen_tree c2, hclen_bl_count := hclen_bl_count c2\<rparr>) c2"
    using c1(3) by (cases c; cases c1) (simp add: same_tables_def c2_def)
  have f2: "(hclen_tree c2, hclen_bl_count c2) = set_hclen f k (hclen_tree c, hclen_bl_count c)"
    by (simp add: c2_def)
  show ?case
  proof (cases "ks = []")
    case True
    then show ?thesis using step r2 t2 f2 by simp
  next
    case False
    obtain c3 where c3: "for_eachE read_hclen ks (3, c2) = Inr (3, c3)" "reading N c3 3 rest"
      "(hclen_tree c3, hclen_bl_count c3) = fold (set_hclen f) ks (hclen_tree c2, hclen_bl_count c2)"
      "same_tables (c2\<lparr>hclen_tree := hclen_tree c3, hclen_bl_count := hclen_bl_count c3\<rparr>) c3"
      using Cons.IH [OF r2 _ _ False] Cons.prems by auto
    have "same_tables (c\<lparr>hclen_tree := hclen_tree c3, hclen_bl_count := hclen_bl_count c3\<rparr>) c3"
      using t2 c3(4) by (cases c; cases c2; cases c3) (simp add: same_tables_def)
    then show ?thesis using step c3 f2 by simp
  qed
qed simp

lemma code_lengths_read:
  "fold (set_hclen (\<lambda>k. nbits (encode_hclen ! k))) horder (replicate 19 \<lparr>h_len = 0, h_code = 0\<rparr>, replicate 8 0)
   = (map (\<lambda>e. \<lparr>h_len = nbits e, h_code = 0\<rparr>) encode_hclen, [0, 0, 0, 4, 4, 6, 3, 2])"
  by code_simp

lemma read_hclens_correct:
  assumes r: "reading N c 4 (concat (map (\<lambda>k. bits 3 (nbits (encode_hclen ! k))) horder) @ rest)"
  shows "\<exists>c'. read_hclens 19 c = Inr (3, c') \<and> reading N c' 3 rest \<and> hclen_tree c' = code_tree
    \<and> ll_tree c' = ll_tree c \<and> ll_bl_count c' = ll_bl_count c
    \<and> ll_next_code_base c' = ll_next_code_base c
    \<and> dist_tree c' = dist_tree c \<and> dist_bl_count c' = dist_bl_count c
    \<and> dist_next_code_base c' = dist_next_code_base c"
proof -
  define c0 where "c0 = c\<lparr>hclen_tree := replicate 19 \<lparr>h_len = 0, h_code = 0\<rparr>, hclen_bl_count := replicate 8 0\<rparr>"
  have r0: "reading N c0 4 (concat (map (\<lambda>k. bits 3 (nbits (encode_hclen ! k))) horder) @ rest)"
    using r reading_cong [of c0 c] by (simp add: c0_def)
  have small: "\<forall>k \<in> set horder. nbits (encode_hclen ! k) < 8"
  proof
    fix k assume "k \<in> set horder"
    then have "k < 19" by (auto simp: horder_def)
    then show "nbits (encode_hclen ! k) < 8" using encode_hclen_nth [of k] by simp
  qed
  have "horder \<noteq> []" by (simp add: horder_def)
  from read_hclens_loop [OF r0 _ small this] obtain c1 where c1:
    "for_eachE read_hclen horder (4, c0) = Inr (3, c1)" "reading N c1 3 rest"
    "(hclen_tree c1, hclen_bl_count c1)
      = fold (set_hclen (\<lambda>k. nbits (encode_hclen ! k))) horder (hclen_tree c0, hclen_bl_count c0)"
    "same_tables (c0\<lparr>hclen_tree := hclen_tree c1, hclen_bl_count := hclen_bl_count c1\<rparr>) c1"
    by auto
  have t1: "hclen_tree c1 = map (\<lambda>e. \<lparr>h_len = nbits e, h_code = 0\<rparr>) encode_hclen"
      "hclen_bl_count c1 = [0, 0, 0, 4, 4, 6, 3, 2]"
    using c1(3) code_lengths_read by (simp_all add: c0_def)
  have tree: "hclen_tree (assign_codes c1) = code_tree"
    using code_tree_assigned
    by (simp add: assign_codes_def fold_assign_pure t1 case_prod_beta)
  obtain t nc where "fold assign_pure [0..<19] (hclen_tree c1, next_codes (hclen_bl_count c1)) = (t, nc)"
    by fastforce
  then have assigned: "assign_codes c1 = c1\<lparr>hclen_next_code := nc, hclen_tree := t\<rparr>"
    by (simp add: assign_codes_def fold_assign_pure)
  have "reading N (assign_codes c1) 3 rest"
    using c1(2) reading_cong [of "assign_codes c1" c1] by (simp add: assigned)
  moreover have "horder = take 19 hclen_order" by (simp add: horder_def hclen_order_def)
  ultimately show ?thesis
    using c1(1) tree same_tables_fields [OF c1(4)]
    by (simp add: read_hclens_def flip: c0_def) (simp add: assigned c0_def)
qed

text \<open>The table finds the symbol whose code starts the input; no other code does.\<close>

definition matches :: "hclen_entry \<Rightarrow> nat \<Rightarrow> bool" where
  "matches e h \<longleftrightarrow> h_len e \<noteq> 0 \<and> take_bit (h_len e) h = take_bit (h_len e) (h_code e)"

lemma mask_nat: "(x::nat) AND (2 ^ n - Suc 0) = take_bit n x" "(2 ^ n - Suc 0) AND (x::nat) = take_bit n x"
  by (simp_all add: take_bit_eq_mask mask_eq_exp_minus_1 and.commute)

lemma search_hclen_matches:
  "s < length es \<Longrightarrow> matches (es ! s) h \<Longrightarrow> \<forall>i < s. \<not> matches (es ! i) h \<Longrightarrow>
   search_hclen es k h = Some (k + s)"
proof (induction es arbitrary: s k)
  case (Cons e es)
  have step: "search_hclen (e # es) k h = (if matches e h then Some k else search_hclen es (Suc k) h)" for k
    by (simp add: matches_def mask_nat)
  show ?case
  proof (cases s)
    case 0
    then show ?thesis using Cons.prems unfolding step by simp
  next
    case (Suc s')
    have "\<not> matches e h" using Cons.prems(3) Suc by fastforce
    moreover have "search_hclen es (Suc k) h = Some (Suc k + s')"
      using Cons.prems Suc by (intro Cons.IH) auto
    ultimately show ?thesis unfolding step Suc by simp
  qed
qed simp

definition prefix_free :: "(nat \<times> nat) list \<Rightarrow> bool" where
  "prefix_free cs \<longleftrightarrow>
     list_all (\<lambda>i. list_all (\<lambda>j. take_bit (min (fst (cs ! i)) (fst (cs ! j))) (snd (cs ! i))
        \<noteq> take_bit (min (fst (cs ! i)) (fst (cs ! j))) (snd (cs ! j))) [0..<i]) [0..<length cs]"

lemma encode_hclen_prefix_free: "prefix_free (map (\<lambda>e. (nbits e, code e)) encode_hclen)"
  by code_simp

lemma prefix_freeD:
  "prefix_free cs \<Longrightarrow> i < j \<Longrightarrow> j < length cs \<Longrightarrow>
   take_bit (min (fst (cs ! j)) (fst (cs ! i))) (snd (cs ! j))
     \<noteq> take_bit (min (fst (cs ! j)) (fst (cs ! i))) (snd (cs ! i))"
  by (auto simp: prefix_free_def list_all_iff)

lemma search_code_tree:
  assumes s: "s < 19" and v: "take (nbits (encode_hclen ! s)) vs = sym_bits s" and len: "length vs = 7"
  shows "search_hclen code_tree 0 (bval vs) = Some s"
proof -
  let ?n = "\<lambda>i. nbits (encode_hclen ! i)" and ?c = "\<lambda>i. code (encode_hclen ! i)"
  have le: "?n s \<le> 7" "?c s < 2 ^ ?n s" "0 < ?n s" using encode_hclen_nth [OF s] by auto
  have "bval vs = bval (sym_bits s) + 2 ^ ?n s * bval (drop (?n s) vs)"
    using bval_append [of "sym_bits s" "drop (?n s) vs"] append_take_drop_id [of "?n s" vs, unfolded v]
    by (simp add: sym_bits_def)
  then have low: "take_bit (?n s) (bval vs) = ?c s"
    using le by (simp add: sym_bits_def bval_bits_small take_bit_eq_mod)
  have code: "code_tree ! i = \<lparr>h_len = ?n i, h_code = ?c i\<rparr>" if "i < 19" for i
    using that by (simp add: code_tree_def)
  have "matches (code_tree ! s) (bval vs)"
    using low le s by (simp add: code matches_def take_bit_nat_eq_self)
  moreover have "\<not> matches (code_tree ! i) (bval vs)" if "i < s" for i
  proof
    assume "matches (code_tree ! i) (bval vs)"
    then have m: "take_bit (?n i) (bval vs) = take_bit (?n i) (?c i)"
      using that s by (simp add: code matches_def)
    have "take_bit (min (?n s) (?n i)) (?c s) = take_bit (min (?n s) (?n i)) (take_bit (?n s) (bval vs))"
      by (simp only: low)
    also have "\<dots> = take_bit (min (?n s) (?n i)) (take_bit (?n i) (bval vs))"
      by (simp add: take_bit_take_bit)
    also have "\<dots> = take_bit (min (?n s) (?n i)) (?c i)"
      unfolding m by (simp add: take_bit_take_bit)
    finally have "take_bit (min (?n s) (?n i)) (?c s) = take_bit (min (?n s) (?n i)) (?c i)" .
    then show False
      using prefix_freeD [OF encode_hclen_prefix_free, of i s] that s by simp
  qed
  ultimately show ?thesis
    using search_hclen_matches [of s code_tree "bval vs" 0] s by (simp add: code_tree_def)
qed

section \<open>The tables of code lengths\<close>

text \<open>
  How often a length was used before, not counting the length 0: the canonical index of a code.
\<close>

definition occ :: "nat list \<Rightarrow> nat \<Rightarrow> nat" where
  "occ xs v = (if v = 0 then 0 else count_list xs v)"

definition table_ok :: "len_entry list \<Rightarrow> nat list \<Rightarrow> nat list \<Rightarrow> bool" where
  "table_ok tree bl xs \<longleftrightarrow>
     length xs \<le> length tree \<and> length bl = 16 \<and> (\<forall>v < 16. bl ! v = occ xs v)
     \<and> (\<forall>k < length xs. tree ! k = \<lparr>l_len = xs ! k, l_idx = occ (take k xs) (xs ! k)\<rparr>)"

lemma table_ok_snoc:
  assumes "table_ok tree bl xs" "length xs < length tree" "v < 16" "n = length xs"
  shows "table_ok (tree[n := \<lparr>l_len = v, l_idx = bl ! v\<rparr>])
    (if v \<noteq> 0 then bl[v := bl ! v + 1] else bl) (xs @ [v])"
  using assms
  by (auto simp: table_ok_def occ_def nth_append nth_list_update less_Suc_eq)

lemma table_ok_zero: "table_ok tree bl xs \<Longrightarrow> bl ! 0 = 0"
  by (simp add: table_ok_def occ_def)

definition lens_inv :: "nat \<Rightarrow> nat list \<Rightarrow> dht_loop \<Rightarrow> bool" where
  "lens_inv hlit acc s \<longleftrightarrow>
     table_ok (ll_tree (lp_ctx s)) (ll_bl_count (lp_ctx s)) (take hlit acc)
     \<and> table_ok (dist_tree (lp_ctx s)) (dist_bl_count (lp_ctx s)) (drop hlit acc)
     \<and> length (ll_tree (lp_ctx s)) = 286 \<and> length (dist_tree (lp_ctx s)) = 30
     \<and> length (ll_next_code_base (lp_ctx s)) = 16 \<and> length (dist_next_code_base (lp_ctx s)) = 16
     \<and> lp_i s = length acc \<and> lp_j s = length acc - hlit"

text \<open>\<open>reads\<close>: the reader's state and the code for code lengths, which storing does not touch.\<close>

definition reads :: "nat \<Rightarrow> dht_loop \<Rightarrow> bool list \<Rightarrow> bool" where
  "reads N s S \<longleftrightarrow> reading N (lp_ctx s) (lp_used s) S \<and> lp_used s \<le> 7 \<and> hclen_tree (lp_ctx s) = code_tree"

lemma reads_cong:
  "hold (lp_ctx s') = hold (lp_ctx s) \<Longrightarrow> hold_bits (lp_ctx s') = hold_bits (lp_ctx s) \<Longrightarrow>
   dbuf (lp_ctx s') = dbuf (lp_ctx s) \<Longrightarrow> sum_used_bits (lp_ctx s') = sum_used_bits (lp_ctx s) \<Longrightarrow>
   hclen_tree (lp_ctx s') = hclen_tree (lp_ctx s) \<Longrightarrow> lp_used s' = lp_used s \<Longrightarrow>
   reads N s' S = reads N s S"
  by (simp add: reads_def reading_def cinv_def cstream_def)

lemma store_len_correct:
  assumes inv: "lens_inv hlit acc s" and rd: "reads N s S" and v: "v < 16"
    and room: "length acc < hlit + hdist" "hlit \<le> 286" "hdist \<le> 30"
  shows "\<exists>s'. store_len hlit v s = Inr s' \<and> lens_inv hlit (acc @ [v]) s' \<and> reads N s' S
    \<and> lp_prev s' = lp_prev s"
proof -
  let ?c = "lp_ctx s"
  have i: "lp_i s = length acc" "lp_j s = length acc - hlit"
      "length (ll_tree ?c) = 286" "length (dist_tree ?c) = 30"
      "length (ll_next_code_base ?c) = 16" "length (dist_next_code_base ?c) = 16"
    and tl: "table_ok (ll_tree ?c) (ll_bl_count ?c) (take hlit acc)"
    and td: "table_ok (dist_tree ?c) (dist_bl_count ?c) (drop hlit acc)"
    using inv by (auto simp: lens_inv_def)
  show ?thesis
  proof (cases "length acc < hlit")
    case True
    define s' where "s' = s\<lparr>lp_i := length acc + 1, lp_ctx :=
      ?c\<lparr>ll_tree := (ll_tree ?c)[length acc := \<lparr>l_len = v, l_idx = ll_bl_count ?c ! v\<rparr>],
         ll_bl_count := (if v \<noteq> 0 then (ll_bl_count ?c)[v := ll_bl_count ?c ! v + 1] else ll_bl_count ?c)\<rparr>\<rparr>"
    have "store_len hlit v s = Inr s'"
      using True room i by (simp add: store_len_def Let_def s'_def)
    moreover have xs: "take hlit acc = acc" using True by simp
    have "table_ok (ll_tree (lp_ctx s')) (ll_bl_count (lp_ctx s')) (acc @ [v])"
    proof -
      have upd: "ll_tree (lp_ctx s') = (ll_tree ?c)[length acc := \<lparr>l_len = v, l_idx = ll_bl_count ?c ! v\<rparr>]"
        "ll_bl_count (lp_ctx s') = (if v \<noteq> 0 then (ll_bl_count ?c)[v := ll_bl_count ?c ! v + 1] else ll_bl_count ?c)"
        by (simp_all add: s'_def)
      show ?thesis
        unfolding upd by (rule table_ok_snoc [OF tl [unfolded xs] _ v refl]) (use True room i(3) in linarith)
    qed
    then have "lens_inv hlit (acc @ [v]) s'"
      using True td i by (simp add: lens_inv_def s'_def)
    moreover have "reads N s' S = reads N s S"
      by (rule reads_cong) (simp_all add: s'_def)
    moreover have "lp_prev s' = lp_prev s" by (simp add: s'_def)
    ultimately show ?thesis using rd by blast
  next
    case False
    define s' where "s' = s\<lparr>lp_i := length acc + 1, lp_j := length acc - hlit + 1, lp_ctx :=
      ?c\<lparr>dist_tree := (dist_tree ?c)[length acc - hlit := \<lparr>l_len = v, l_idx = dist_bl_count ?c ! v\<rparr>],
         dist_bl_count := (if v \<noteq> 0 then (dist_bl_count ?c)[v := dist_bl_count ?c ! v + 1] else dist_bl_count ?c)\<rparr>\<rparr>"
    have room': "length acc - hlit < 30" using False room by linarith
    have "store_len hlit v s = Inr s'"
      using False room' i by (simp add: store_len_def Let_def s'_def)
    moreover have "table_ok (dist_tree (lp_ctx s')) (dist_bl_count (lp_ctx s')) (drop hlit acc @ [v])"
    proof -
      have upd: "dist_tree (lp_ctx s') = (dist_tree ?c)[length acc - hlit := \<lparr>l_len = v, l_idx = dist_bl_count ?c ! v\<rparr>]"
        "dist_bl_count (lp_ctx s') = (if v \<noteq> 0 then (dist_bl_count ?c)[v := dist_bl_count ?c ! v + 1] else dist_bl_count ?c)"
        by (simp_all add: s'_def)
      show ?thesis
        unfolding upd by (rule table_ok_snoc [OF td _ v]) (use room' i(4) in simp_all)
    qed
    then have "lens_inv hlit (acc @ [v]) s'"
      using False tl i by (simp add: lens_inv_def s'_def Suc_diff_le)
    moreover have "reads N s' S = reads N s S"
      by (rule reads_cong) (simp_all add: s'_def)
    moreover have "lp_prev s' = lp_prev s" by (simp add: s'_def)
    ultimately show ?thesis using rd by blast
  qed
qed

lemma store_zero_eq:
  assumes "lens_inv hlit acc s"
  shows "store_zero hlit s = bindE (store_len hlit 0 s) (\<lambda>s. Inr (s\<lparr>lp_prev := Some 0\<rparr>))"
proof -
  have "ll_bl_count (lp_ctx s) ! 0 = 0" "dist_bl_count (lp_ctx s) ! 0 = 0"
    using assms table_ok_zero by (auto simp: lens_inv_def)
  then show ?thesis by (simp add: store_zero_def store_len_def Let_def)
qed

lemma set_prev:
  "lens_inv hlit acc (s\<lparr>lp_prev := p\<rparr>) = lens_inv hlit acc s" "reads N (s\<lparr>lp_prev := p\<rparr>) S = reads N s S"
  by (simp_all add: lens_inv_def reads_def)

lemma store_len_times:
  assumes "lens_inv hlit acc s" "reads N s S" "v < 16"
    and "length acc + n \<le> hlit + hdist" "hlit \<le> 286" "hdist \<le> 30"
  shows "\<exists>s'. timesE n (store_len hlit v) s = Inr s' \<and> lens_inv hlit (acc @ replicate n v) s'
    \<and> reads N s' S \<and> lp_prev s' = lp_prev s"
proof (rule timesE_invariant [where P = "\<lambda>k s'. lens_inv hlit (acc @ replicate k v) s' \<and> reads N s' S \<and> lp_prev s' = lp_prev s"])
  fix k s' assume "k < n" "lens_inv hlit (acc @ replicate k v) s' \<and> reads N s' S \<and> lp_prev s' = lp_prev s"
  then show "\<exists>s''. store_len hlit v s' = Inr s'' \<and> lens_inv hlit (acc @ replicate (Suc k) v) s''
      \<and> reads N s'' S \<and> lp_prev s'' = lp_prev s"
    using store_len_correct [of hlit "acc @ replicate k v" s' N S v hdist] assms(3-6)
    by (auto simp: replicate_append_same)
qed (use assms in simp)

lemma store_zero_times:
  assumes "lens_inv hlit acc s" "reads N s S"
    and "length acc + Suc n \<le> hlit + hdist" "hlit \<le> 286" "hdist \<le> 30"
  shows "\<exists>s'. timesE (Suc n) (store_zero hlit) s = Inr s' \<and> lens_inv hlit (acc @ replicate (Suc n) 0) s'
    \<and> reads N s' S \<and> lp_prev s' = Some 0"
proof -
  have "\<exists>s'. timesE (Suc n) (store_zero hlit) s = Inr s' \<and> lens_inv hlit (acc @ replicate (Suc n) 0) s'
    \<and> reads N s' S \<and> (Suc n = 0 \<or> lp_prev s' = Some 0)"
  proof (rule timesE_invariant [where P = "\<lambda>k s'. lens_inv hlit (acc @ replicate k 0) s' \<and> reads N s' S
      \<and> (k = 0 \<or> lp_prev s' = Some 0)"])
    fix k s' assume k: "k < Suc n" "lens_inv hlit (acc @ replicate k 0) s' \<and> reads N s' S \<and> (k = 0 \<or> lp_prev s' = Some 0)"
    then obtain s1 where "store_len hlit 0 s' = Inr s1" "lens_inv hlit (acc @ replicate (Suc k) 0) s1" "reads N s1 S"
      using store_len_correct [of hlit "acc @ replicate k 0" s' N S 0 hdist] assms(3-5)
      by (auto simp: replicate_append_same)
    then show "\<exists>s''. store_zero hlit s' = Inr s'' \<and> lens_inv hlit (acc @ replicate (Suc k) 0) s''
        \<and> reads N s'' S \<and> (Suc k = 0 \<or> lp_prev s'' = Some 0)"
      using k store_zero_eq [of hlit "acc @ replicate k 0" s'] by (auto simp: set_prev)
  qed (use assms in simp)
  then show ?thesis by simp
qed

section \<open>The main loop\<close>

lemma read_arg_correct:
  assumes rd: "reads N s (vs @ rest)" and len: "length vs = n" "0 < n" "n \<le> 7" and inv: "lens_inv hlit acc s"
  shows "\<exists>s'. read_arg n k s = Inr (bval vs + k, s') \<and> reads N s' rest \<and> lens_inv hlit acc s'
    \<and> lp_prev s' = lp_prev s"
proof -
  have r: "reading N (lp_ctx s) (lp_used s) (vs @ rest)" "lp_used s \<le> 7" "hclen_tree (lp_ctx s) = code_tree"
    using rd by (auto simp: reads_def)
  obtain c where c: "shift_then_get_bits n (lp_used s) (lp_ctx s) = Inr (bval vs, c)"
      "reading N c 0 (vs @ rest)" "same_tables (lp_ctx s) c"
    using shift_then_get_bits_correct [OF r(1) len(1,2)] len r by auto
  define s' where "s' = s\<lparr>lp_used := n, lp_ctx := c\<lparr>sum2_used_bits := sum2_used_bits c + n\<rparr>\<rparr>"
  have "read_arg n k s = Inr (bval vs + k, s')" by (simp add: read_arg_def c(1) s'_def)
  moreover have "reads N s' rest"
    using reading_use [OF c(2) len(1)] len r same_tables_fields [OF c(3)]
    by (simp add: reads_def s'_def reading_def cinv_def cstream_def)
  moreover have "lens_inv hlit acc s'"
    using inv same_tables_fields [OF c(3)] by (simp add: lens_inv_def s'_def)
  moreover have "lp_prev s' = lp_prev s" by (simp add: s'_def)
  ultimately show ?thesis by blast
qed

text \<open>Reading the code of the symbol \<open>a\<close>, with at least seven bits to come.\<close>

lemma decode_len_symbol:
  assumes rd: "reads N s (sym_bits a @ rest)" and a: "a < 19" and more: "7 \<le> length rest"
    and inv: "lens_inv hlit acc s"
  shows "\<exists>s'. decode_len hlit s = decode_alp hlit a s' \<and> reads N s' rest \<and> lens_inv hlit acc s'
    \<and> lp_prev s' = None"
proof -
  let ?n = "nbits (encode_hclen ! a)"
  have n: "?n \<le> 7" "length (sym_bits a) = ?n" using encode_hclen_nth [OF a] by (auto simp: sym_bits_def)
  define vs where "vs = sym_bits a @ take (7 - ?n) rest"
  have vs: "length vs = 7" "take ?n vs = sym_bits a" "vs @ drop (7 - ?n) rest = sym_bits a @ rest"
    using n more by (auto simp: vs_def)
  have r: "reading N (lp_ctx s) (lp_used s) (vs @ drop (7 - ?n) rest)" "lp_used s \<le> 7"
      "hclen_tree (lp_ctx s) = code_tree"
    using rd vs(3) by (auto simp: reads_def)
  obtain c where c: "shift_then_get_bits 7 (lp_used s) (lp_ctx s) = Inr (bval vs, c)"
      "reading N c 0 (vs @ drop (7 - ?n) rest)" "same_tables (lp_ctx s) c"
    using shift_then_get_bits_correct [OF r(1) vs(1)] r by auto
  have tree: "hclen_tree c = code_tree" using same_tables_fields [OF c(3)] r(3) by simp
  have find: "search_hclen_tree (bval vs) c = Some a"
    using search_code_tree [OF a vs(2,1)] by (simp add: search_hclen_tree_def tree)
  have used: "h_len (hclen_tree c ! a) = ?n" using a by (simp add: tree code_tree_def)
  define s' where "s' = s\<lparr>lp_used := ?n, lp_prev := None, lp_ctx := c\<lparr>sum2_used_bits := sum2_used_bits c + ?n\<rparr>\<rparr>"
  have "decode_len hlit s = decode_alp hlit a s'"
    by (simp add: decode_len_def c(1) find used s'_def Let_def)
  moreover have "reads N s' rest"
    using reading_use [of N c "sym_bits a" rest ?n] c(2) vs(3) n tree
    by (simp add: reads_def s'_def reading_def cinv_def cstream_def)
  moreover have "lens_inv hlit acc s'"
    using inv same_tables_fields [OF c(3)] by (simp add: lens_inv_def s'_def)
  moreover have "lp_prev s' = None" by (simp add: s'_def)
  ultimately show ?thesis by blast
qed

definition loop_ok :: "nat \<Rightarrow> nat \<Rightarrow> nat list \<Rightarrow> dht_loop \<Rightarrow> bool list \<Rightarrow> bool" where
  "loop_ok N hlit acc s S \<longleftrightarrow> reads N s S \<and> lens_inv hlit acc s"

lemma decode_literal:
  assumes ok: "loop_ok N hlit acc s (sym_bits a @ rest)" and a: "a \<le> 15" and more: "7 \<le> length rest"
    and room: "length acc < hlit + hdist" "hlit \<le> 286" "hdist \<le> 30"
  shows "\<exists>s'. decode_len hlit s = Inr s' \<and> loop_ok N hlit (acc @ [a]) s' rest"
proof -
  obtain s1 where s1: "decode_len hlit s = decode_alp hlit a s1" "reads N s1 rest" "lens_inv hlit acc s1"
    using decode_len_symbol [OF _ _ more, of N s a hlit acc] ok a by (auto simp: loop_ok_def)
  obtain s2 where "store_len hlit a s1 = Inr s2" "lens_inv hlit (acc @ [a]) s2" "reads N s2 rest"
    using store_len_correct [OF s1(3,2) _ room, of a] a by fastforce
  then show ?thesis
    using s1(1) a ok by (simp add: decode_alp_def loop_ok_def set_prev)
qed

lemma decode_repeat:
  assumes ok: "loop_ok N hlit acc s (sym_bits 16 @ bits 2 (n - 3) @ rest)" and more: "7 \<le> length rest"
  shows "decode_len hlit s = Inl Uninit_Prev"
proof -
  have "7 \<le> length (bits 2 (n - 3) @ rest)" using more by simp
  then obtain s1 where s1: "decode_len hlit s = decode_alp hlit 16 s1" "reads N s1 (bits 2 (n - 3) @ rest)"
      "lens_inv hlit acc s1" "lp_prev s1 = None"
    using decode_len_symbol [of N s 16 "bits 2 (n - 3) @ rest" hlit acc] ok by (auto simp: loop_ok_def)
  obtain s2 where "read_arg 2 3 s1 = Inr (bval (bits 2 (n - 3)) + 3, s2)" "lp_prev s2 = None"
    using read_arg_correct [OF s1(2) _ _ _ s1(3), of 2 3] s1(4) by auto
  then show ?thesis using s1(1) by (simp add: decode_alp_def)
qed

lemma decode_zeros:
  assumes ok: "loop_ok N hlit acc s (sym_bits a @ bits k (n - d) @ rest)"
    and a: "a = 17 \<and> k = 3 \<and> d = 3 \<or> a = 18 \<and> k = 7 \<and> d = 11"
    and n: "d \<le> n" "n - d < 2 ^ k" and more: "7 \<le> length rest"
    and room: "length acc + n \<le> hlit + hdist" "hlit \<le> 286" "hdist \<le> 30"
  shows "\<exists>s'. decode_len hlit s = Inr s' \<and> loop_ok N hlit (acc @ replicate n 0) s' rest"
proof -
  have "7 \<le> length (bits k (n - d) @ rest)" and k: "0 < k" "k \<le> 7" and a19: "a < 19"
    using more a by auto
  then obtain s1 where s1: "decode_len hlit s = decode_alp hlit a s1" "reads N s1 (bits k (n - d) @ rest)"
      "lens_inv hlit acc s1"
    using decode_len_symbol [of N s a "bits k (n - d) @ rest" hlit acc] ok by (auto simp: loop_ok_def)
  obtain s2 where s2: "read_arg k d s1 = Inr (bval (bits k (n - d)) + d, s2)" "reads N s2 rest"
      "lens_inv hlit acc s2"
    using read_arg_correct [OF s1(2) _ k s1(3), of d] by auto
  have arg: "bval (bits k (n - d)) + d = n" using n by (simp add: bval_bits_small)
  obtain m where m: "n = Suc m" using n a by (cases n) auto
  obtain s3 where s3: "timesE (Suc m) (store_zero hlit) s2 = Inr s3"
      "lens_inv hlit (acc @ replicate (Suc m) 0) s3" "reads N s3 rest" "lp_prev s3 = Some 0"
    using store_zero_times [OF s2(3,2), of m hdist] room m by auto
  have "decode_alp hlit a s1 = bindE (read_arg k d s1) (\<lambda>(arg, s). timesE arg (store_zero hlit) s)"
    using a by (auto simp: decode_alp_def)
  then have "decode_len hlit s = Inr s3"
    using s1(1) s2(1) arg m s3(1) by (simp only: bindE.simps prod.case)
  then show ?thesis
    using s3 ok m by (auto simp: loop_ok_def simp del: replicate_Suc)
qed

lemma decode_token:
  assumes ok: "loop_ok N hlit acc s (tok_bits t @ rest)" and t: "tok_expand t acc = Some acc'"
    and more: "7 \<le> length rest" and room: "length acc' \<le> hlit + hdist" "hlit \<le> 286" "hdist \<le> 30"
    and norep: "\<not> has_rep [t]"
  shows "\<exists>s'. decode_len hlit s = Inr s' \<and> loop_ok N hlit acc' s' rest"
proof (cases t)
  case (Lit a)
  then show ?thesis using decode_literal [of N hlit acc s a rest hdist] assms by (auto split: if_splits)
next
  case (Rep n)
  then show ?thesis using norep by simp
next
  case (Zeros3 n)
  then have "n - 3 < 2 ^ 3" using t by (auto split: if_splits)
  then show ?thesis
    using decode_zeros [of N hlit acc s 17 3 n 3 rest hdist] assms Zeros3 by (auto split: if_splits)
next
  case (Zeros11 n)
  then have "n - 11 < 2 ^ 7" using t by (auto split: if_splits)
  then show ?thesis
    using decode_zeros [of N hlit acc s 18 7 n 11 rest hdist] assms Zeros11 by (auto split: if_splits)
qed

lemma decode_tokens:
  assumes "loop_ok N hlit acc s (toks_bits ts @ trail)" "expand ts acc = Some acc'"
    and "length acc' = hlit + hdist" "7 \<le> length trail" "hlit \<le> 286" "hdist \<le> 30"
  shows "if has_rep ts then decode_lens hlit (hlit + hdist) s = Some (Inl Uninit_Prev)
    else \<exists>s'. decode_lens hlit (hlit + hdist) s = Some (Inr s') \<and> loop_ok N hlit acc' s' trail"
  using assms(1,2)
proof (induction ts arbitrary: acc s)
  case Nil
  then have "lp_i s = hlit + hdist" using assms(3) by (auto simp: loop_ok_def lens_inv_def)
  then show ?case using Nil by (subst decode_lens.simps) simp
next
  case (Cons t ts)
  obtain acc1 where t: "tok_expand t acc = Some acc1" and ts: "expand ts acc1 = Some acc'"
    using Cons.prems(2) by (auto split: bind_splits)
  have len: "length acc < length acc1" "length acc1 \<le> hlit + hdist"
    using tok_expand_longer [OF t] expand_longer [OF ts] assms(3) by auto
  have ok: "loop_ok N hlit acc s (tok_bits t @ toks_bits ts @ trail)" using Cons.prems(1) by simp
  have more: "7 \<le> length (toks_bits ts @ trail)" using assms(4) by simp
  have "lp_i s < hlit + hdist"
    using Cons.prems(1) len by (auto simp: loop_ok_def lens_inv_def)
  then have step: "decode_lens hlit (hlit + hdist) s
    = (case decode_len hlit s of Inl e \<Rightarrow> Some (Inl e) | Inr s' \<Rightarrow> decode_lens hlit (hlit + hdist) s')"
    by (subst decode_lens.simps) simp
  show ?case
  proof (cases "has_rep [t]")
    case True
    then obtain n where n: "t = Rep n" by (auto simp: has_rep_def)
    then have "decode_len hlit s = Inl Uninit_Prev"
      using decode_repeat [OF _ more, of N hlit acc s n] ok by simp
    then show ?thesis using step n by simp
  next
    case False
    then have more_reps: "has_rep (t # ts) = has_rep ts" by (cases t) auto
    obtain s1 where s1: "decode_len hlit s = Inr s1" "loop_ok N hlit acc1 s1 (toks_bits ts @ trail)"
      using decode_token [OF ok t more len(2) assms(5,6) False] by blast
    then show ?thesis using Cons.IH [OF s1(2) ts] step more_reps by simp
  qed
qed

section \<open>Round trip\<close>

text \<open>The first code of every length: each shorter code accounts for twice as many.\<close>

lemma length_codeminima [simp]: "length (codeminima c ns) = length ns"
  by (induction ns arbitrary: c) auto

lemma codeminima_nth:
  "i < length ns \<Longrightarrow> codeminima c ns ! i = c * 2 ^ Suc i + (\<Sum>j \<le> i. ns ! j * 2 ^ (Suc i - j))"
proof (induction ns arbitrary: c i)
  case (Cons n ns)
  show ?case
  proof (cases i)
    case (Suc k)
    have "(\<Sum>j \<le> Suc k. (n # ns) ! j * 2 ^ (Suc (Suc k) - j))
      = n * 2 ^ Suc (Suc k) + (\<Sum>j \<le> k. ns ! j * 2 ^ (Suc k - j))"
      by (subst sum.atMost_Suc_shift) simp
    then show ?thesis using Cons Suc by (simp add: algebra_simps)
  qed simp
qed simp

definition base_code :: "nat list \<Rightarrow> nat \<Rightarrow> nat" where
  "base_code xs v = (\<Sum>j < v. occ xs j * 2 ^ (v - j))"

lemma finished_base:
  assumes t: "table_ok tree bl xs" and b: "length base = 16" and v: "0 < v" "v < 16"
  shows "(take 1 base @ codeminima 0 (butlast bl)) ! v = base_code xs v"
proof -
  obtain i where i: "v = Suc i" using v(1) by (cases v) auto
  have bl: "length bl = 16" "\<forall>j < 16. bl ! j = occ xs j" using t by (auto simp: table_ok_def)
  have "(take 1 base @ codeminima 0 (butlast bl)) ! v = codeminima 0 (butlast bl) ! i"
    using b i by (simp add: nth_append)
  also have "\<dots> = (\<Sum>j \<le> i. butlast bl ! j * 2 ^ (Suc i - j))"
    using bl v i by (simp add: codeminima_nth)
  also have "\<dots> = (\<Sum>j \<le> i. occ xs j * 2 ^ (Suc i - j))"
    using bl v i by (intro sum.cong) (auto simp: nth_butlast)
  finally show ?thesis by (simp add: base_code_def i lessThan_Suc_atMost)
qed

text \<open>
  What the tables say about a list of lengths: the length of every symbol, its canonical index,
  and the first code of every length.
\<close>

definition tables_for :: "ctx \<Rightarrow> nat list \<Rightarrow> nat list \<Rightarrow> bool" where
  "tables_for c ll dist \<longleftrightarrow>
     table_ok (ll_tree c) (ll_bl_count c) ll \<and> table_ok (dist_tree c) (dist_bl_count c) dist
     \<and> (\<forall>v. 0 < v \<and> v < 16 \<longrightarrow> ll_next_code_base c ! v = base_code ll v
          \<and> dist_next_code_base c ! v = base_code dist v)"

lemma table_ok_empty: "length bl = 16 \<Longrightarrow> (\<forall>v < 16. bl ! v = 0) \<Longrightarrow> table_ok tree bl []"
  by (simp add: table_ok_def occ_def)

lemma dht_decomp_tokens:
  assumes buf: "byte_bits buf = pre @ header_bits hlit hdist @ toks_bits ts @ trail"
    and pre: "length pre = skip" "skip \<le> 10" and more: "7 \<le> length trail"
    and counts: "257 \<le> hlit" "hlit \<le> 286" "1 \<le> hdist" "hdist \<le> 30"
    and ts: "expand ts [] = Some lens" "length lens = hlit + hdist"
  shows "if has_rep ts then dht_decomp skip buf (zero_ctx []) = Some (Inl Uninit_Prev)
    else \<exists>c. dht_decomp skip buf (zero_ctx []) = Some (Inr c)
      \<and> tables_for c (take hlit lens) (drop hlit lens)
      \<and> sum_used_bits c = length pre + length (header_bits hlit hdist) + length (toks_bits ts)"
proof -
  define c0 where "c0 = (zero_ctx [])\<lparr>dbuf := buf\<rparr>"
  define N where "N = length (byte_bits buf)"
  let ?lens = "concat (map (\<lambda>k. bits 3 (nbits (encode_hclen ! k))) horder)"
  have r0: "reading N c0 skip (bits 5 (hlit - 257) @ bits 5 (hdist - 1) @ bits 4 (15::nat) @ ?lens @ toks_bits ts @ trail)"
    using buf pre by (auto simp: reading_def cinv_def cstream_def c0_def zero_ctx_def N_def header_bits_def)
  obtain c1 where c1: "read_counts skip c0 = Inr ((hlit, hdist, 19), c1)"
      "reading N c1 4 (?lens @ toks_bits ts @ trail)" "same_tables c0 c1"
  proof -
    have small: "hlit - 257 < 32" "hdist - 1 < 32" and eq: "hlit - 257 + 257 = hlit" "hdist - 1 + 1 = hdist"
      using counts by auto
    show ?thesis using read_counts_correct [OF r0 small _ pre(2)] that unfolding eq by fastforce
  qed
  obtain c2 where c2: "read_hclens 19 c1 = Inr (3, c2)" "reading N c2 3 (toks_bits ts @ trail)"
      "hclen_tree c2 = code_tree" "ll_tree c2 = ll_tree c1" "ll_bl_count c2 = ll_bl_count c1"
      "ll_next_code_base c2 = ll_next_code_base c1" "dist_tree c2 = dist_tree c1"
      "dist_bl_count c2 = dist_bl_count c1" "dist_next_code_base c2 = dist_next_code_base c1"
    using read_hclens_correct [OF c1(2)] by blast
  define s where "s = \<lparr>lp_i = 0, lp_j = 0, lp_used = 3, lp_prev = None, lp_ctx = clear_counts c2\<rparr>"
  note same = same_tables_fields [OF c1(3)]
  have zeros: "(x # replicate 15 (0::nat)) ! v = 0" if "x = 0" "v < 16" for x v
    using that by (cases v) auto
  have "reads N s (toks_bits ts @ trail)"
    using c2 by (simp add: s_def reads_def clear_counts_def reading_def cinv_def cstream_def)
  moreover have "lens_inv hlit [] s"
    using c2 same zeros
    by (simp add: lens_inv_def s_def clear_counts_def c0_def zero_ctx_def table_ok_empty)
  ultimately have ok: "loop_ok N hlit [] s (toks_bits ts @ trail)"
    by (simp add: loop_ok_def)
  note toks = decode_tokens [OF ok ts more counts(2,4)]
  show ?thesis
  proof (cases "has_rep ts")
    case True
    then show ?thesis using toks c1(1) c2(1) by (simp add: dht_decomp_def c0_def s_def)
  next
    case False
    then obtain s1 where s1: "decode_lens hlit (hlit + hdist) s = Some (Inr s1)" "loop_ok N hlit lens s1 trail"
      using toks by auto
    have run: "dht_decomp skip buf (zero_ctx []) = Some (Inr (finish_codes s1))"
      using c1(1) c2(1) s1(1) by (simp add: dht_decomp_def c0_def s_def)
    have inv: "lens_inv hlit lens s1" "reading N (lp_ctx s1) (lp_used s1) trail"
      using s1(2) by (auto simp: loop_ok_def reads_def)
    then have t: "table_ok (ll_tree (lp_ctx s1)) (ll_bl_count (lp_ctx s1)) (take hlit lens)"
        "table_ok (dist_tree (lp_ctx s1)) (dist_bl_count (lp_ctx s1)) (drop hlit lens)"
        "length (ll_next_code_base (lp_ctx s1)) = 16" "length (dist_next_code_base (lp_ctx s1)) = 16"
      by (auto simp: lens_inv_def)
    have "tables_for (finish_codes s1) (take hlit lens) (drop hlit lens)"
      using t finished_base [OF t(1,3)] finished_base [OF t(2,4)]
      by (simp add: tables_for_def finish_codes_def Let_def)
    moreover have "sum_used_bits (finish_codes s1) + length trail = N"
      using inv(2) by (simp add: reading_def finish_codes_def Let_def)
    then have "sum_used_bits (finish_codes s1) = length pre + length (header_bits hlit hdist) + length (toks_bits ts)"
      using buf by (simp add: N_def)
    ultimately show ?thesis using run False by auto
  qed
qed

text \<open>
  Claim C3. The reader on the writer's output: for the code lengths (0 to 15) of up to 286 literal
  and length symbols and up to 30 distance symbols, \<^verbatim>\<open>encode_lengths\<close> succeeds, and \<^verbatim>\<open>dht_decomp\<close>
  is run on the bytes it wrote, followed by at least one more byte of any value. When no length
  other than 0 occurs four times in a row it ends without a fault: it finds exactly the given
  length of every symbol, the canonical code index of every symbol and the canonical first code
  of every length, and it has consumed exactly the number of bits that the writer reported. When
  a length other than 0 does occur four times in a row (or more often) the writer uses the code
  16, and the reader then repeats a variable that is not initialised in this iteration.
\<close>

theorem dht_roundtrip:
  assumes "num_lsym \<le> 286" "num_dsym \<le> 30"
    and "nhlit = max 257 num_lsym" "nhdist = max 1 num_dsym"
    and "nhlit + nhdist \<le> length sym_len"
    and "\<forall>s \<in> set (take (nhlit + nhdist) sym_len). s \<le> 15"
    and "trailing \<noteq> []"
  shows "\<exists>dht nbits. encode_lengths sym_len num_lsym num_dsym = Some (dht, nbits)
    \<and> (if four_equal (take (nhlit + nhdist) sym_len)
       then dht_decomp 0 (dht @ trailing) (zero_ctx []) = Some (Inl Uninit_Prev)
       else \<exists>c. dht_decomp 0 (dht @ trailing) (zero_ctx []) = Some (Inr c)
         \<and> tables_for c (take nhlit sym_len) (take nhdist (drop nhlit sym_len))
         \<and> sum_used_bits c = nbits)"
proof -
  obtain dht ts pad where e: "encode_lengths sym_len num_lsym num_dsym
      = Some (dht, length (header_bits nhlit nhdist @ toks_bits ts))"
    "expand ts [] = Some (take (nhlit + nhdist) sym_len)"
    "has_rep ts = four_equal (take (nhlit + nhdist) sym_len)"
    "byte_bits dht = header_bits nhlit nhdist @ toks_bits ts @ pad" "length pad < 8"
    using encode_lengths_tokens [OF assms(1-6)] by blast
  have buf: "byte_bits (dht @ trailing)
    = [] @ header_bits nhlit nhdist @ toks_bits ts @ (pad @ byte_bits trailing)"
    using e(4) by simp
  have trail: "7 \<le> length (pad @ byte_bits trailing)" using assms(7) by (cases trailing) auto
  have counts: "257 \<le> nhlit" "nhlit \<le> 286" "1 \<le> nhdist" "nhdist \<le> 30"
    "length (take (nhlit + nhdist) sym_len) = nhlit + nhdist"
    using assms(1-5) by auto
  have split: "take nhlit (take (nhlit + nhdist) sym_len) = take nhlit sym_len"
    "drop nhlit (take (nhlit + nhdist) sym_len) = take nhdist (drop nhlit sym_len)"
    by (simp_all add: drop_take)
  have "if has_rep ts then dht_decomp 0 (dht @ trailing) (zero_ctx []) = Some (Inl Uninit_Prev)
    else \<exists>c. dht_decomp 0 (dht @ trailing) (zero_ctx []) = Some (Inr c)
      \<and> tables_for c (take nhlit sym_len) (take nhdist (drop nhlit sym_len))
      \<and> sum_used_bits c = length (header_bits nhlit nhdist @ toks_bits ts)"
    using dht_decomp_tokens [OF buf refl _ trail counts(1-4) e(2) counts(5)]
    unfolding split by (auto split: if_splits)
  then show ?thesis using e(1,3) by auto
qed

theorem dht_roundtrip_witness:
  "\<exists>dht nbits c. encode_lengths (concat (replicate 128 [8, 9]) @ [9, 1]) 257 1 = Some (dht, nbits)
    \<and> dht_decomp 0 (dht @ [0x5A]) (zero_ctx []) = Some (Inr c)
    \<and> tables_for c (take 257 (concat (replicate 128 [8, 9]) @ [9, 1])) [1]
    \<and> sum_used_bits c = nbits"
proof -
  have "\<not> four_equal (take 258 (concat (replicate 128 [8, 9]) @ [9, 1]))" by code_simp
  moreover have "take 1 (drop 257 (concat (replicate 128 [8, 9]) @ [9, 1])) = [1::nat]" by code_simp
  moreover have "list_all (\<lambda>s. s \<le> 15) (take 258 (concat (replicate 128 [8, 9]) @ [9, 1::nat]))"
    "258 \<le> length (concat (replicate 128 [8, 9]) @ [9, 1::nat])" by code_simp+
  ultimately show ?thesis
    using dht_roundtrip [of 257 1 257 1 "concat (replicate 128 [8, 9]) @ [9, 1]" "[0x5A]"]
    unfolding list_all_iff by simp
qed

end
