(* ===== verification/NxMap.thy ===== *)
theory NxMap
  imports NxPrelude "HOL-Library.Multiset"
begin

text \<open>
  The hash map of \<^verbatim>\<open>lib/nx_map.c\<close>: linear probing over an array of key/value pointers that doubles
  when it is half full. Pointers are 64-bit words, \<open>0\<close> is \<^verbatim>\<open>NULL\<close>, and a \<^verbatim>\<open>NULL\<close> map is \<open>None\<close>.
  The locks have no effect on a single thread. The counter of a search is an \<^verbatim>\<open>int\<close> in the code and a natural number here, which is
  the same for less than 2^31 cells. \<open>alloc n\<close> says whether \<^verbatim>\<open>calloc\<close> of \<open>n\<close> entries
  succeeds; it cannot for an array that does not fit in to the address space.
\<close>

section \<open>The map\<close>

record map_entry_t =
  key :: u64
  val :: u64

record nx_map_t =
  m_size :: nat
  nb_entries :: nat
  m_array :: "map_entry_t list"

definition MAP_INIT_SIZE :: nat where "MAP_INIT_SIZE = 32"

definition calloc_ok :: "(nat \<Rightarrow> bool) \<Rightarrow> nat \<Rightarrow> bool" where
  "calloc_ok alloc n \<longleftrightarrow> n \<le> 2 ^ 60 \<and> alloc n"

definition FNV_OFFSET :: u64 where "FNV_OFFSET = 14695981039346656037"
definition FNV_PRIME :: u64 where "FNV_PRIME = 1099511628211"

definition null_entry :: map_entry_t where "null_entry = \<lparr>key = 0, val = 0\<rparr>"

definition get_index :: "u64 \<Rightarrow> nat \<Rightarrow> nat" where
  "get_index k array_size =
     unat (fold (\<lambda>i hash. (hash XOR (drop_bit i k AND 0xff)) * FNV_PRIME) [0..<8] FNV_OFFSET)
       mod array_size"

definition nx_map_init :: "(nat \<Rightarrow> bool) \<Rightarrow> bool \<Rightarrow> nx_map_t option" where
  "nx_map_init alloc malloc_ok =
     (if \<not> malloc_ok then None
      else if \<not> calloc_ok alloc MAP_INIT_SIZE then None
      else Some \<lparr>m_size = MAP_INIT_SIZE, nb_entries = 0, m_array = replicate MAP_INIT_SIZE null_entry\<rparr>)"

text \<open>\<^verbatim>\<open>nx_map_destroy\<close> frees the map: afterwards there is none.\<close>

definition nx_map_destroy :: "nx_map_t option \<Rightarrow> int \<times> nx_map_t option" where
  "nx_map_destroy m = (0, None)"

text \<open>One step of the index, with the wrap-around.\<close>

definition next_index :: "nat \<Rightarrow> nat \<Rightarrow> nat" where
  "next_index n i = (if n \<le> i + 1 then 0 else i + 1)"

text \<open>The search loop of \<^verbatim>\<open>nx_map_get\<close> and \<^verbatim>\<open>nx_map_remove\<close>: the first cell with the key.\<close>

primrec find_key :: "map_entry_t list \<Rightarrow> u64 \<Rightarrow> nat \<Rightarrow> nat \<Rightarrow> nat option" where
  "find_key a k 0 i = None"
| "find_key a k (Suc cnt) i =
     (if key (a ! i) = k then Some i else find_key a k cnt (next_index (length a) i))"

text \<open>The search loop of \<^verbatim>\<open>insert_entry\<close>: where it stops, found or not.\<close>

primrec find_free :: "map_entry_t list \<Rightarrow> nat \<Rightarrow> nat \<Rightarrow> nat" where
  "find_free a 0 i = i"
| "find_free a (Suc cnt) i =
     (if key (a ! i) = 0 then i else find_free a cnt (next_index (length a) i))"

text \<open>The result is the return value and the value written to \<^verbatim>\<open>*val\<close>, if it is written.\<close>

definition nx_map_get :: "nx_map_t option \<Rightarrow> u64 \<Rightarrow> int \<times> u64 option" where
  "nx_map_get mo k =
     (case mo of
        None \<Rightarrow> (-1, None)
      | Some m \<Rightarrow>
          (case find_key (m_array m) k (m_size m) (get_index k (m_size m)) of
             Some i \<Rightarrow> (0, Some (val (m_array m ! i)))
           | None \<Rightarrow> (-1, Some 0)))"

definition insert_entry :: "u64 \<Rightarrow> u64 \<Rightarrow> nx_map_t \<Rightarrow> nx_map_t" where
  "insert_entry k v m =
     (let i = find_free (m_array m) (m_size m) (get_index k (m_size m))
      in m\<lparr>m_array := (m_array m)[i := \<lparr>key = k, val = v\<rparr>],
           nb_entries := (nb_entries m + 1) mod 2 ^ 64\<rparr>)"

definition rehash_entries :: "map_entry_t list \<Rightarrow> nx_map_t \<Rightarrow> nx_map_t" where
  "rehash_entries old m =
     fold (\<lambda>e m. if key e \<noteq> 0 then insert_entry (key e) (val e) m else m) old m"

definition nx_map_put :: "(nat \<Rightarrow> bool) \<Rightarrow> nx_map_t option \<Rightarrow> u64 \<Rightarrow> u64 \<Rightarrow> int \<times> nx_map_t option" where
  "nx_map_put alloc mo k v =
     (case mo of
        None \<Rightarrow> (-1, None)
      | Some m \<Rightarrow>
          if m_size m div 2 \<le> nb_entries m then
            (if \<not> calloc_ok alloc (2 * m_size m) then (-1, Some m)
             else (0, Some (insert_entry k v (rehash_entries (m_array m)
                     (m\<lparr>m_size := 2 * m_size m, m_array := replicate (2 * m_size m) null_entry\<rparr>)))))
          else (0, Some (insert_entry k v m)))"

definition nx_map_remove :: "nx_map_t option \<Rightarrow> u64 \<Rightarrow> u64 \<times> nx_map_t option" where
  "nx_map_remove mo k =
     (case mo of
        None \<Rightarrow> (0, None)
      | Some m \<Rightarrow>
          (case find_key (m_array m) k (m_size m) (get_index k (m_size m)) of
             Some i \<Rightarrow> (val (m_array m ! i),
                        Some (m\<lparr>m_array := (m_array m)[i := null_entry],
                                nb_entries := (nb_entries m + 2 ^ 64 - 1) mod 2 ^ 64\<rparr>))
           | None \<Rightarrow> (0, Some m)))"

section \<open>The probe sequence\<close>

lemma next_index_less: "i < n \<Longrightarrow> next_index n i < n"
  by (auto simp: next_index_def)

text \<open>\<open>cnt\<close> steps from \<open>i\<close> visit the cells \<open>i\<close>, \<open>i + 1\<close>, ... modulo the size.\<close>

definition visited :: "nat \<Rightarrow> nat \<Rightarrow> nat \<Rightarrow> nat set" where
  "visited n i cnt = (\<lambda>k. (i + k) mod n) ` {..<cnt}"

lemma visited_Suc: "i < n \<Longrightarrow> visited n i (Suc cnt) = insert i (visited n (next_index n i) cnt)"
proof -
  assume i: "i < n"
  have "(i + Suc k) mod n = (next_index n i + k) mod n" for k
  proof (cases "i + 1 = n")
    case True
    have "(Suc i + k) mod Suc i = k mod Suc i" by (rule mod_add_self1)
    then show ?thesis using True by (auto simp: next_index_def)
  qed (use i in \<open>simp add: next_index_def\<close>)
  moreover have "{..<Suc cnt} = insert 0 (Suc ` {..<cnt})" by (auto simp: image_iff less_Suc_eq_0_disj)
  ultimately show ?thesis using i by (auto simp: visited_def image_image)
qed

lemma visited_all:
  assumes "i < n"
  shows "visited n i n = {..<n}"
proof
  show "{..<n} \<subseteq> visited n i n"
  proof
    fix j assume j: "j \<in> {..<n}"
    define k where "k = (j + (n - i)) mod n"
    have "(i + k) mod n = (i + (j + (n - i))) mod n" by (simp add: k_def mod_add_right_eq)
    also have "\<dots> = j" using j assms by (simp add: add.commute)
    finally show "j \<in> visited n i n"
      using assms by (force simp: visited_def k_def)
  qed
qed (use assms in \<open>auto simp: visited_def\<close>)

lemma find_key_visited:
  assumes "i < length a"
  shows "(case find_key a k cnt i of
            Some j \<Rightarrow> j < length a \<and> key (a ! j) = k
          | None \<Rightarrow> \<forall>j \<in> visited (length a) i cnt. key (a ! j) \<noteq> k)"
  using assms
proof (induction cnt arbitrary: i)
  case 0
  then show ?case by (simp add: visited_def)
next
  case (Suc cnt)
  then show ?case
    using Suc.IH [OF next_index_less [OF Suc.prems]]
    by (auto simp: visited_Suc split: option.splits)
qed

lemma find_free_visited:
  assumes "i < length a" "\<exists>j \<in> visited (length a) i cnt. key (a ! j) = 0"
  shows "find_free a cnt i < length a \<and> key (a ! find_free a cnt i) = 0"
  using assms
proof (induction cnt arbitrary: i)
  case (Suc cnt)
  then show ?case
    using Suc.IH [OF next_index_less [OF Suc.prems(1)]] by (auto simp: visited_Suc)
qed (simp add: visited_def)

text \<open>The whole array is searched.\<close>

lemma find_key_some:
  "find_key a k (length a) i = Some j \<Longrightarrow> i < length a \<Longrightarrow> j < length a \<and> key (a ! j) = k"
  using find_key_visited [where i = i and a = a and k = k and cnt = "length a"] by simp

lemma find_key_none:
  "find_key a k (length a) i = None \<Longrightarrow> i < length a \<Longrightarrow> \<forall>j < length a. key (a ! j) \<noteq> k"
  using find_key_visited [where i = i and a = a and k = k and cnt = "length a"] visited_all [of i "length a"] by auto

lemma find_free_ok:
  assumes "i < length a" "\<exists>j < length a. key (a ! j) = 0"
  shows "find_free a (length a) i < length a" "key (a ! find_free a (length a) i) = 0"
  using find_free_visited [OF assms(1), of "length a"] assms visited_all [OF assms(1)] by auto

lemma get_index_less: "0 < n \<Longrightarrow> get_index k n < n"
  by (simp add: get_index_def)

section \<open>The contents\<close>

definition used :: "map_entry_t \<Rightarrow> bool" where "used e \<longleftrightarrow> key e \<noteq> 0"

definition pair :: "map_entry_t \<Rightarrow> u64 \<times> u64" where "pair e = (key e, val e)"

definition cells :: "map_entry_t list \<Rightarrow> (u64 \<times> u64) multiset" where
  "cells a = image_mset pair (filter_mset used (mset a))"

definition entries :: "nx_map_t \<Rightarrow> (u64 \<times> u64) multiset" where
  "entries m = cells (m_array m)"

lemma not_used_null [simp]: "\<not> used null_entry" "key null_entry = 0"
  by (simp_all add: used_def null_entry_def)

lemma cells_update_used:
  "i < length a \<Longrightarrow> \<not> used (a ! i) \<Longrightarrow> used e \<Longrightarrow> cells (a[i := e]) = add_mset (pair e) (cells a)"
  by (simp add: cells_def mset_update)

lemma cells_clear:
  "i < length a \<Longrightarrow> used (a ! i) \<Longrightarrow> cells (a[i := null_entry]) = cells a - {#pair (a ! i)#}"
  by (simp add: cells_def mset_update image_mset_Diff)

lemma cells_replicate [simp]: "cells (replicate n null_entry) = {#}"
  by (induction n) (auto simp: cells_def)

lemma cells_Cons: "cells (e # a) = (if used e then add_mset (pair e) (cells a) else cells a)"
  by (simp add: cells_def)

lemma in_cells: "p \<in># cells a \<longleftrightarrow> (\<exists>i < length a. used (a ! i) \<and> pair (a ! i) = p)"
  by (auto simp: cells_def in_set_conv_nth)

lemma free_cell:
  assumes "size (cells a) < length a"
  shows "\<exists>j < length a. key (a ! j) = 0"
proof (rule ccontr)
  assume "\<not> ?thesis"
  then have "\<forall>e \<in> set a. used e" by (auto simp: used_def in_set_conv_nth)
  then have "filter_mset used (mset a) = mset a" by (simp add: filter_mset_eq_conv)
  then have "size (cells a) = length a" by (simp add: cells_def)
  then show False using assms by simp
qed

text \<open>
  The invariant: the array has the recorded size, at most half of it is in use, and the counter
  lies between the number of used cells and the size. (The counter is not exact: rehashing
  counts every entry again.)
\<close>

definition map_ok :: "nx_map_t \<Rightarrow> bool" where
  "map_ok m \<longleftrightarrow>
     length (m_array m) = m_size m \<and> 32 \<le> m_size m \<and> m_size m \<le> 2 ^ 60
     \<and> 2 * size (entries m) \<le> m_size m
     \<and> size (entries m) \<le> nb_entries m \<and> nb_entries m \<le> m_size m"

lemma insert_entry_entries:
  assumes len: "length (m_array m) = m_size m" and room: "size (entries m) < m_size m" and k: "k \<noteq> 0"
  shows "entries (insert_entry k v m) = add_mset (k, v) (entries m)"
    and "length (m_array (insert_entry k v m)) = m_size m" "m_size (insert_entry k v m) = m_size m"
    and "nb_entries (insert_entry k v m) = (nb_entries m + 1) mod 2 ^ 64"
proof -
  define i where "i = find_free (m_array m) (m_size m) (get_index k (m_size m))"
  have "get_index k (m_size m) < length (m_array m)" using room len by (simp add: get_index_less)
  moreover have "\<exists>j < length (m_array m). key (m_array m ! j) = 0"
    using room len by (intro free_cell) (simp add: entries_def)
  ultimately have i: "i < length (m_array m)" "\<not> used (m_array m ! i)"
    using find_free_ok [of "get_index k (m_size m)" "m_array m"] len by (simp_all add: i_def used_def)
  show "entries (insert_entry k v m) = add_mset (k, v) (entries m)"
    using cells_update_used [OF i, of "\<lparr>key = k, val = v\<rparr>"] k
    by (simp add: entries_def insert_entry_def Let_def used_def pair_def flip: i_def)
qed (simp_all add: insert_entry_def Let_def len)

lemma rehash_entries_correct:
  assumes "length (m_array m) = m_size m" "size (entries m) + size (cells old) < m_size m"
    and "nb_entries m + size (cells old) < 2 ^ 64"
  shows "entries (rehash_entries old m) = entries m + cells old
    \<and> length (m_array (rehash_entries old m)) = m_size m \<and> m_size (rehash_entries old m) = m_size m
    \<and> nb_entries (rehash_entries old m) = nb_entries m + size (cells old)"
  using assms
proof (induction old arbitrary: m)
  case Nil
  then show ?case by (simp add: rehash_entries_def cells_def)
next
  case (Cons e old)
  show ?case
  proof (cases "used e")
    case True
    let ?m = "insert_entry (key e) (val e) m"
    have k: "key e \<noteq> 0" using True by (simp add: used_def)
    have room: "size (entries m) < m_size m" using Cons.prems True by (simp add: cells_Cons)
    note ins = insert_entry_entries [OF Cons.prems(1) room k, of "val e"]
    have "rehash_entries (e # old) m = rehash_entries old ?m"
      using k by (simp add: rehash_entries_def)
    then show ?thesis
      using Cons.IH [of ?m] Cons.prems True ins by (simp add: cells_Cons pair_def)
  next
    case False
    then have "rehash_entries (e # old) m = rehash_entries old m"
      by (simp add: rehash_entries_def used_def)
    then show ?thesis using Cons.IH [of m] Cons.prems False by (simp add: cells_Cons)
  qed
qed

section \<open>The operations on the contents\<close>

lemma nx_map_init_ok:
  assumes "nx_map_init alloc mok = Some m"
  shows "map_ok m \<and> entries m = {#}"
  using assms
  by (auto simp: nx_map_init_def MAP_INIT_SIZE_def map_ok_def entries_def split: if_splits)

lemma nx_map_put_ok:
  assumes m: "map_ok m" and k: "k \<noteq> 0"
    and put: "nx_map_put alloc (Some m) k v = (r, Some m')"
  shows "map_ok m' \<and> (if r = 0 then entries m' = add_mset (k, v) (entries m) else r = -1 \<and> m' = m)"
proof (cases "m_size m div 2 \<le> nb_entries m")
  case False
  then have m': "m' = insert_entry k v m" "r = 0" using put by (auto simp: nx_map_put_def)
  show ?thesis
    using insert_entry_entries [of m k v] m k False
    unfolding m' by (auto simp: map_ok_def)
next
  case True
  show ?thesis
  proof (cases "calloc_ok alloc (2 * m_size m)")
    case False
    then show ?thesis using put True m by (simp add: nx_map_put_def)
  next
    case alloc_ok: True
    define m0 where "m0 = m\<lparr>m_size := 2 * m_size m, m_array := replicate (2 * m_size m) null_entry\<rparr>"
    define m1 where "m1 = rehash_entries (m_array m) m0"
    have m': "m' = insert_entry k v m1" "r = 0"
      using put True alloc_ok by (auto simp: nx_map_put_def m0_def m1_def)
    have lim: "2 * m_size m \<le> 2 ^ 60" using alloc_ok by (simp add: calloc_ok_def)
    have e0: "entries m0 = {#}" "m_size m0 = 2 * m_size m" "length (m_array m0) = 2 * m_size m"
      "nb_entries m0 = nb_entries m"
      by (simp_all add: m0_def entries_def)
    have sizes: "2 * size (cells (m_array m)) \<le> m_size m" "nb_entries m \<le> m_size m" "32 \<le> m_size m"
      "size (cells (m_array m)) \<le> nb_entries m"
      using m by (auto simp: map_ok_def entries_def)
    have e1: "entries m1 = entries m" "length (m_array m1) = 2 * m_size m" "m_size m1 = 2 * m_size m"
      "nb_entries m1 = nb_entries m + size (entries m)"
      using rehash_entries_correct [of m0 "m_array m"] e0 sizes lim
      by (auto simp: m1_def entries_def)
    show ?thesis
      using insert_entry_entries [of m1 k v] e1 k sizes lim
      unfolding m' by (auto simp: map_ok_def entries_def)
  qed
qed

lemma nx_map_get_ok:
  assumes m: "map_ok m" and k: "k \<noteq> 0"
  shows "(\<exists>v. nx_map_get (Some m) k = (0, Some v) \<and> (k, v) \<in># entries m)
    \<or> nx_map_get (Some m) k = (-1, Some 0) \<and> (\<forall>v. (k, v) \<notin># entries m)"
proof -
  have i: "get_index k (m_size m) < length (m_array m)" and len: "m_size m = length (m_array m)"
    using m by (auto simp: map_ok_def intro: get_index_less)
  show ?thesis
  proof (cases "find_key (m_array m) k (m_size m) (get_index k (m_size m))")
    case None
    then show ?thesis
      using find_key_none [OF _ i, of k] len
      by (auto simp: nx_map_get_def entries_def in_cells pair_def)
  next
    case (Some j)
    then show ?thesis
      using find_key_some [OF _ i, of k j] len k
      by (auto simp: nx_map_get_def entries_def in_cells pair_def used_def)
  qed
qed

lemma nx_map_remove_ok:
  assumes m: "map_ok m" and k: "k \<noteq> 0" and rem: "nx_map_remove (Some m) k = (v, Some m')"
  shows "map_ok m' \<and> ((k, v) \<in># entries m \<and> entries m' = entries m - {#(k, v)#} \<and> nb_entries m' = nb_entries m - 1 \<and> m_size m' = m_size m
    \<or> v = 0 \<and> m' = m \<and> (\<forall>v. (k, v) \<notin># entries m))"
proof -
  have i: "get_index k (m_size m) < length (m_array m)" and len: "m_size m = length (m_array m)"
    using m by (auto simp: map_ok_def intro: get_index_less)
  show ?thesis
  proof (cases "find_key (m_array m) k (m_size m) (get_index k (m_size m))")
    case None
    then show ?thesis
      using find_key_none [OF _ i, of k] len rem m
      by (auto simp: nx_map_remove_def entries_def in_cells pair_def)
  next
    case (Some j)
    then have j: "j < length (m_array m)" "key (m_array m ! j) = k"
      using find_key_some [OF _ i, of k j] len by auto
    then have u: "used (m_array m ! j)" and p: "pair (m_array m ! j) = (k, val (m_array m ! j))"
      using k by (auto simp: used_def pair_def)
    have v: "v = val (m_array m ! j)" and m': "m' = m\<lparr>m_array := (m_array m)[j := null_entry],
        nb_entries := (nb_entries m + 2 ^ 64 - 1) mod 2 ^ 64\<rparr>"
      using rem Some by (auto simp: nx_map_remove_def)
    have mem: "(k, v) \<in># entries m" using j u p by (auto simp: entries_def in_cells v)
    have e: "entries m' = entries m - {#(k, v)#}"
      using cells_clear [OF j(1) u] p by (simp add: m' v entries_def)
    have sz: "size (entries m') = size (entries m) - 1" "0 < size (entries m)"
      using mem by (auto simp: e size_Diff_singleton nonempty_has_size intro: gr0I)
    have nb: "nb_entries m' = nb_entries m - 1"
    proof -
      have "0 < nb_entries m" "nb_entries m < 2 ^ 64" using m sz by (auto simp: map_ok_def)
      then obtain c where c: "nb_entries m = Suc c" "c < 2 ^ 64" by (cases "nb_entries m") auto
      then have "nb_entries m + 2 ^ 64 - 1 = c + 2 ^ 64" by simp
      then have "(nb_entries m + 2 ^ 64 - 1) mod 2 ^ 64 = c" using c(2) by (metis mod_add_self2 mod_less)
      then show ?thesis using c(1) by (simp add: m')
    qed
    then have "map_ok m'" using m sz by (auto simp: map_ok_def m')
    moreover have "m_size m' = m_size m" by (simp add: m')
    ultimately show ?thesis using mem e nb by blast
  qed
qed

section \<open>The interface of a map\<close>

text \<open>
  A client sees a store that is looked up, extended and reduced. Keys must be valid and an
  inserted key must be fresh; an insertion may fail and then changes nothing.
\<close>

datatype ('k, 'v) map_op = Put 'k 'v | Get 'k | Remove 'k

datatype 'v map_out = Done bool | Found "'v option" | Removed 'v

primrec map_step ::
  "('s \<Rightarrow> 'k \<Rightarrow> 'v option) \<Rightarrow> ('k \<Rightarrow> 'v \<Rightarrow> 's \<Rightarrow> bool \<times> 's) \<Rightarrow> ('k \<Rightarrow> 's \<Rightarrow> 'v \<times> 's) \<Rightarrow>
   ('k, 'v) map_op \<Rightarrow> 's \<Rightarrow> 'v map_out \<times> 's" where
  "map_step look ins del (Put k v) s = (let (b, s') = ins k v s in (Done b, s'))"
| "map_step look ins del (Get k) s = (Found (look s k), s)"
| "map_step look ins del (Remove k) s = (let (v, s') = del k s in (Removed v, s'))"

primrec run_map ::
  "('s \<Rightarrow> 'k \<Rightarrow> 'v option) \<Rightarrow> ('k \<Rightarrow> 'v \<Rightarrow> 's \<Rightarrow> bool \<times> 's) \<Rightarrow> ('k \<Rightarrow> 's \<Rightarrow> 'v \<times> 's) \<Rightarrow>
   ('k, 'v) map_op list \<Rightarrow> 's \<Rightarrow> 'v map_out list" where
  "run_map look ins del [] s = []"
| "run_map look ins del (oper # ops) s =
     (let (r, s') = map_step look ins del oper s in r # run_map look ins del ops s')"

text \<open>The same outputs, explained by a partial function; a failed insertion leaves it alone.\<close>

fun explained :: "'v \<Rightarrow> ('k, 'v) map_op list \<Rightarrow> 'v map_out list \<Rightarrow> ('k \<Rightarrow> 'v option) \<Rightarrow> bool" where
  "explained d [] [] M = True"
| "explained d (Put k v # ops) (Done b # rs) M = explained d ops rs (if b then M(k \<mapsto> v) else M)"
| "explained d (Get k # ops) (Found r # rs) M = (r = M k \<and> explained d ops rs M)"
| "explained d (Remove k # ops) (Removed v # rs) M =
     (v = (case M k of Some x \<Rightarrow> x | None \<Rightarrow> d) \<and> explained d ops rs (M(k := None)))"
| "explained d ops rs M = False"

text \<open>Valid keys only, and no key is put twice without a removal between.\<close>

fun disciplined :: "('k \<Rightarrow> bool) \<Rightarrow> ('k, 'v) map_op list \<Rightarrow> 'k set \<Rightarrow> bool" where
  "disciplined good [] P = True"
| "disciplined good (Put k v # ops) P = (good k \<and> k \<notin> P \<and> disciplined good ops (insert k P))"
| "disciplined good (Get k # ops) P = (good k \<and> disciplined good ops P)"
| "disciplined good (Remove k # ops) P = (good k \<and> disciplined good ops (P - {k}))"

locale finite_map =
  fixes invar :: "'s \<Rightarrow> bool"
    and good :: "'k \<Rightarrow> bool"
    and look :: "'s \<Rightarrow> 'k \<Rightarrow> 'v option"
    and ins :: "'k \<Rightarrow> 'v \<Rightarrow> 's \<Rightarrow> bool \<times> 's"
    and del :: "'k \<Rightarrow> 's \<Rightarrow> 'v \<times> 's"
    and dflt :: 'v
  assumes ins_done: "invar s \<Longrightarrow> good k \<Longrightarrow> look s k = None \<Longrightarrow> ins k v s = (True, s') \<Longrightarrow>
      invar s' \<and> (\<forall>j. good j \<longrightarrow> look s' j = ((look s)(k \<mapsto> v)) j)"
    and ins_failed: "invar s \<Longrightarrow> good k \<Longrightarrow> ins k v s = (False, s') \<Longrightarrow> s' = s"
    and del_done: "invar s \<Longrightarrow> good k \<Longrightarrow> del k s = (v, s') \<Longrightarrow>
      v = (case look s k of Some x \<Rightarrow> x | None \<Rightarrow> dflt) \<and> invar s'
      \<and> (\<forall>j. good j \<longrightarrow> look s' j = ((look s)(k := None)) j)"
begin

lemma run_explained:
  assumes "invar s" "disciplined good ops P" "\<forall>k. good k \<longrightarrow> look s k = M k" "dom M \<subseteq> P"
  shows "explained dflt ops (run_map look ins del ops s) M"
  using assms
proof (induction ops arbitrary: s M P)
  case (Cons oper ops)
  show ?case
  proof (cases oper)
    case (Put k v)
    have k: "good k" "k \<notin> P" "disciplined good ops (insert k P)" using Cons.prems(2) Put by auto
    then have fresh: "look s k = None" using Cons.prems(3,4) by auto
    obtain b s' where ins: "ins k v s = (b, s')" by fastforce
    show ?thesis
    proof (cases b)
      case True
      then have s': "invar s'" "\<forall>j. good j \<longrightarrow> look s' j = (M(k \<mapsto> v)) j"
        using ins_done [OF Cons.prems(1) k(1) fresh] ins Cons.prems(3) by auto
      have dom: "dom (M(k \<mapsto> v)) \<subseteq> insert k P" using Cons.prems(4) by auto
      have "run_map look ins del (oper # ops) s = Done True # run_map look ins del ops s'"
        by (simp add: Put ins True)
      then show ?thesis
        unfolding Put by (simp only: explained.simps if_True Cons.IH [OF s'(1) k(3) s'(2) dom])
    next
      case False
      then have "s' = s" using ins_failed [OF Cons.prems(1) k(1)] ins by auto
      then show ?thesis
        using Cons.IH [of s "insert k P" M] k(3) Cons.prems Put ins False by auto
    qed
  next
    case (Get k)
    then show ?thesis using Cons.IH [of s P M] Cons.prems by simp
  next
    case (Remove k)
    obtain v s' where d: "del k s = (v, s')" by fastforce
    have k: "good k" "disciplined good ops (P - {k})" using Cons.prems(2) Remove by auto
    have dom: "dom (M(k := None)) \<subseteq> P - {k}" using Cons.prems(4) by auto
    have s': "v = (case M k of Some x \<Rightarrow> x | None \<Rightarrow> dflt)" "invar s'"
        "\<forall>j. good j \<longrightarrow> look s' j = (M(k := None)) j"
      using del_done [OF Cons.prems(1) k(1) d] Cons.prems(3) k(1) by auto
    have "run_map look ins del (oper # ops) s = Removed v # run_map look ins del ops s'"
      by (simp add: Remove d)
    then show ?thesis
      using s'(1) unfolding Remove
      by (simp only: explained.simps simp_thms Cons.IH [OF s'(2) k(2) s'(3) dom])
  qed
qed simp

end

section \<open>The hash map implements it\<close>

definition uniq :: "(u64 \<times> u64) multiset \<Rightarrow> bool" where
  "uniq E \<longleftrightarrow> (\<forall>k. size (filter_mset (\<lambda>p. fst p = k) E) \<le> 1)"

definition nx_invar :: "nx_map_t \<Rightarrow> bool" where
  "nx_invar m \<longleftrightarrow> map_ok m \<and> uniq (entries m)"

definition nx_look :: "nx_map_t \<Rightarrow> u64 \<Rightarrow> u64 option" where
  "nx_look m k = (let (r, v) = nx_map_get (Some m) k in if r = 0 then v else None)"

definition nx_ins :: "(nat \<Rightarrow> bool) \<Rightarrow> u64 \<Rightarrow> u64 \<Rightarrow> nx_map_t \<Rightarrow> bool \<times> nx_map_t" where
  "nx_ins alloc k v m =
     (case nx_map_put alloc (Some m) k v of (r, Some m') \<Rightarrow> (r = 0, m') | (r, None) \<Rightarrow> (False, m))"

definition nx_del :: "u64 \<Rightarrow> nx_map_t \<Rightarrow> u64 \<times> nx_map_t" where
  "nx_del k m = (case nx_map_remove (Some m) k of (v, Some m') \<Rightarrow> (v, m') | (v, None) \<Rightarrow> (v, m))"

lemma uniq_same:
  assumes "uniq E" "(k, v) \<in># E" "(k, w) \<in># E"
  shows "v = w"
proof (rule ccontr)
  assume ne: "v \<noteq> w"
  obtain F where F: "E = add_mset (k, v) F" using assms(2) by (metis insert_DiffM)
  then obtain G where "E = add_mset (k, v) (add_mset (k, w) G)"
    using assms(3) ne by (metis add_mset_remove_trivial insert_DiffM insert_noteq_member prod.inject)
  then have "\<not> size (filter_mset (\<lambda>p. fst p = k) E) \<le> 1" by simp
  then show False using assms(1) unfolding uniq_def by blast
qed

lemma nx_look_iff:
  assumes "nx_invar m" "k \<noteq> 0"
  shows "nx_look m k = Some v \<longleftrightarrow> (k, v) \<in># entries m"
  using nx_map_get_ok [of m k] assms uniq_same [of "entries m" k]
  by (fastforce simp: nx_look_def nx_invar_def)

lemma nx_look_eqI:
  assumes "nx_invar m" "k \<noteq> 0" "\<And>v. (k, v) \<in># entries m \<longleftrightarrow> x = Some v"
  shows "nx_look m k = x"
proof (cases x)
  case None
  then have "nx_look m k \<noteq> Some v" for v using nx_look_iff [OF assms(1,2)] assms(3) by simp
  then show ?thesis using None by (cases "nx_look m k") auto
next
  case (Some v)
  then show ?thesis using nx_look_iff [OF assms(1,2)] assms(3) by simp
qed

lemma uniq_add:
  assumes u: "uniq E" and k: "\<forall>v. (k, v) \<notin># E"
  shows "uniq (add_mset (k, v) E)"
proof -
  have "p \<notin># filter_mset (\<lambda>p. fst p = k) E" for p using k by (cases p) auto
  then have "filter_mset (\<lambda>p. fst p = k) E = {#}" by (meson multiset_nonemptyE)
  then show ?thesis using u by (auto simp: uniq_def)
qed

lemma uniq_diff: "uniq E \<Longrightarrow> uniq (E - F)"
  unfolding uniq_def filter_diff_mset
  by (meson diff_subset_eq_self order_trans size_mset_mono)

lemma nx_ins_step:
  assumes m: "nx_invar m" and k: "k \<noteq> 0" and ins: "nx_ins alloc k v m = (b, m')"
  shows "if b then map_ok m' \<and> entries m' = add_mset (k, v) (entries m) else m' = m"
proof -
  obtain r where r: "nx_map_put alloc (Some m) k v = (r, Some m')" "b = (r = 0)"
    using ins by (auto simp: nx_ins_def nx_map_put_def split: if_splits)
  then show ?thesis using nx_map_put_ok [OF _ k r(1)] m by (auto simp: nx_invar_def)
qed

interpretation nx: finite_map nx_invar "\<lambda>k. k \<noteq> 0" nx_look "nx_ins alloc" nx_del 0
  for alloc
proof
  fix m m' :: nx_map_t and k v :: u64
  assume m: "nx_invar m" and k: "k \<noteq> 0" and fresh: "nx_look m k = None"
    and ins: "nx_ins alloc k v m = (True, m')"
  have e: "map_ok m'" "entries m' = add_mset (k, v) (entries m)"
    using nx_ins_step [OF m k ins] by auto
  have "\<forall>w. (k, w) \<notin># entries m" using nx_look_iff [OF m k] fresh by simp
  then have inv: "nx_invar m'" using e m by (simp add: nx_invar_def uniq_add)
  have "nx_look m' j = ((nx_look m)(k \<mapsto> v)) j" if "j \<noteq> 0" for j
    using nx_look_iff [OF m that] fresh e(2) by (intro nx_look_eqI [OF inv that]) auto
  then show "nx_invar m' \<and> (\<forall>j. j \<noteq> 0 \<longrightarrow> nx_look m' j = ((nx_look m)(k \<mapsto> v)) j)"
    using inv by blast
next
  fix m m' :: nx_map_t and k v :: u64
  assume "nx_invar m" "k \<noteq> 0" "nx_ins alloc k v m = (False, m')"
  then show "m' = m" using nx_ins_step by fastforce
next
  fix m m' :: nx_map_t and k v :: u64
  assume m: "nx_invar m" and k: "k \<noteq> 0" and del: "nx_del k m = (v, m')"
  have r: "nx_map_remove (Some m) k = (v, Some m')"
    using del by (auto simp: nx_del_def nx_map_remove_def split: option.splits)
  show "v = (case nx_look m k of Some x \<Rightarrow> x | None \<Rightarrow> 0) \<and> nx_invar m'
    \<and> (\<forall>j. j \<noteq> 0 \<longrightarrow> nx_look m' j = ((nx_look m)(k := None)) j)"
  proof (cases "nx_look m k")
    case None
    then have "\<forall>w. (k, w) \<notin># entries m" using nx_look_iff [OF m k] by simp
    then have "v = 0" "m' = m" using nx_map_remove_ok [OF _ k r] m by (auto simp: nx_invar_def)
    then show ?thesis using None m by auto
  next
    case (Some x)
    then have mem: "(k, x) \<in># entries m" using nx_look_iff [OF m k] by simp
    then have e: "map_ok m'" "(k, v) \<in># entries m" "entries m' = entries m - {#(k, v)#}"
      using nx_map_remove_ok [OF _ k r] m by (auto simp: nx_invar_def)
    have v: "v = x" using uniq_same [OF _ e(2) mem] m by (simp add: nx_invar_def)
    have inv: "nx_invar m'" using e m by (simp add: nx_invar_def uniq_diff)
    have gone: "(k, w) \<notin># entries m'" for w
    proof
      assume "(k, w) \<in># entries m'"
      then have w: "w = v" "(k, v) \<in># entries m - {#(k, v)#}"
        using uniq_same [OF _ e(2), of w] m e(3) in_diffD by (fastforce simp: nx_invar_def)+
      then have "2 \<le> size (filter_mset (\<lambda>p. fst p = k) (entries m))"
        using e(2) by (auto dest!: multi_member_split)
      then show False using m by (simp add: nx_invar_def uniq_def) (metis not_less_eq_eq numeral_2_eq_2 One_nat_def)
    qed
    have "nx_look m' j = ((nx_look m)(k := None)) j" if "j \<noteq> 0" for j
    proof (cases "j = k")
      case True
      then show ?thesis using gone by (intro nx_look_eqI [OF inv that]) simp
    next
      case False
      then have "(j, w) \<in># entries m' \<longleftrightarrow> (j, w) \<in># entries m" for w
        by (simp add: e(3) in_diff_count)
      then show ?thesis using nx_look_iff [OF m that] False by (intro nx_look_eqI [OF inv that]) auto
    qed
    then show ?thesis using Some v inv by simp
  qed
qed

section \<open>Properties\<close>

lemma init_some:
  "nx_map_init (\<lambda>_. True) True
     = Some \<lparr>m_size = 32, nb_entries = 0, m_array = replicate 32 null_entry\<rparr>"
  unfolding nx_map_init_def calloc_ok_def MAP_INIT_SIZE_def by simp

lemma nx_invar_init: "nx_map_init alloc mok = Some m \<Longrightarrow> nx_invar m \<and> nx_look m k = (if k = 0 then nx_look m 0 else None)"
  using nx_map_init_ok [of alloc mok m] nx_look_eqI [of m k None]
  by (auto simp: nx_invar_def uniq_def)

text \<open>
  Claim C4. A map that \<^verbatim>\<open>nx_map_init\<close> created behaves as a finite partial function under every
  sequence of \<^verbatim>\<open>nx_map_put\<close>, \<^verbatim>\<open>nx_map_get\<close> and \<^verbatim>\<open>nx_map_remove\<close> with non-null keys in which no key
  is put again before it is removed, whatever allocations fail: every output is the one of the
  partial function, across collisions, wrap-around, removals and any number of resizes.
\<close>

theorem nx_map_behaves_as_function:
  assumes "nx_map_init alloc mok = Some m" and "disciplined (\<lambda>k. k \<noteq> 0) ops {}"
  shows "explained 0 ops (run_map nx_look (nx_ins alloc) nx_del ops m) (\<lambda>_. None)"
  by (rule nx.run_explained) (use assms nx_invar_init in auto)

theorem nx_map_behaves_as_function_witness:
  "\<exists>m. nx_map_init (\<lambda>_. True) True = Some m
    \<and> explained 0 [Put 8 1, Get 8, Put (16::u64) 2, Remove 8, Get 8, Put 8 (3::u64)]
        (run_map nx_look (nx_ins (\<lambda>_. True)) nx_del [Put 8 1, Get 8, Put 16 2, Remove 8, Get 8, Put 8 3] m) (\<lambda>_. None)"
proof -
  obtain m where m: "nx_map_init (\<lambda>_. True) True = Some m"
    by (simp add: init_some)
  have "disciplined (\<lambda>k::u64. k \<noteq> 0) [Put 8 1, Get 8, Put 16 2, Remove 8, Get 8, Put 8 (3::u64)] {}"
    by simp
  from nx_map_behaves_as_function [OF m this] m show ?thesis by (intro exI [of _ m] conjI)
qed

text \<open>
  Claim C15. Putting a key that is already in the map does not replace its value: the call succeeds
  and adds a second entry, and both entries stay in the map until they are removed one by one.
\<close>

theorem nx_map_put_adds_duplicate:
  assumes "map_ok m" and "k \<noteq> 0" and "nx_map_put alloc (Some m) k v = (0, Some m')"
  shows "entries m' = add_mset (k, v) (entries m) \<and> map_ok m'"
  using nx_map_put_ok [OF assms] by simp

theorem nx_map_put_adds_duplicate_witness:
  "\<exists>m m1 m2. nx_map_init (\<lambda>_. True) True = Some m
     \<and> nx_map_put (\<lambda>_. True) (Some m) 8 1 = (0, Some m1) \<and> nx_map_put (\<lambda>_. True) (Some m1) 8 2 = (0, Some m2)
     \<and> entries m2 = {#(8, 2), (8, 1)#}"
proof -
  obtain m where m: "nx_map_init (\<lambda>_. True) True = Some m"
    by (simp add: init_some)
  have put: "\<exists>m'. nx_map_put (\<lambda>_. True) (Some m) k v = (0, Some m')"
    if "map_ok m" "size (entries m) < 2" "m_size m = 32" "nb_entries m < 16" for m k v
    using that by (auto simp: nx_map_put_def)
  have m0: "map_ok m" "entries m = {#}" "m_size m = 32" "nb_entries m = 0"
    using m nx_map_init_ok [OF m] by (auto simp: nx_map_init_def MAP_INIT_SIZE_def calloc_ok_def)
  then obtain m1 where m1: "nx_map_put (\<lambda>_. True) (Some m) 8 1 = (0, Some m1)" using put by fastforce
  have e1: "entries m1 = {#(8, 1)#}" "map_ok m1" using nx_map_put_adds_duplicate [OF m0(1) _ m1] m0 by auto
  have "m1 = insert_entry 8 1 m" using m1 m0 by (simp add: nx_map_put_def)
  then have "m_size m1 = 32" "nb_entries m1 = 1" using m0 by (simp_all add: insert_entry_def Let_def)
  then obtain m2 where m2: "nx_map_put (\<lambda>_. True) (Some m1) 8 2 = (0, Some m2)" using put e1 by fastforce
  have "entries m2 = {#(8, 2), (8, 1)#}" using nx_map_put_adds_duplicate [OF e1(2) _ m2] e1 by simp
  then show ?thesis using m m1 m2 by blast
qed

text \<open>The maps that any sequence of calls with non-null keys can produce, duplicates included.\<close>

inductive reachable_map :: "(nat \<Rightarrow> bool) \<Rightarrow> nx_map_t \<Rightarrow> bool" for alloc where
  init: "nx_map_init alloc mok = Some m \<Longrightarrow> reachable_map alloc m"
| put: "reachable_map alloc m \<Longrightarrow> k \<noteq> 0 \<Longrightarrow> nx_map_put alloc (Some m) k v = (r, Some m') \<Longrightarrow>
    reachable_map alloc m'"
| remove: "reachable_map alloc m \<Longrightarrow> k \<noteq> 0 \<Longrightarrow> nx_map_remove (Some m) k = (v, Some m') \<Longrightarrow>
    reachable_map alloc m'"

text \<open>Before the first resize the counter is exact.\<close>

definition counted :: "nx_map_t \<Rightarrow> bool" where
  "counted m \<longleftrightarrow> (m_size m = MAP_INIT_SIZE \<longrightarrow> nb_entries m = size (entries m))"

lemma nx_map_put_counted:
  assumes m: "map_ok m" "counted m" and k: "k \<noteq> 0" and put: "nx_map_put alloc (Some m) k v = (r, Some m')"
  shows "counted m'"
proof (cases "m_size m div 2 \<le> nb_entries m")
  case False
  then have m': "m' = insert_entry k v m" using put by (auto simp: nx_map_put_def)
  have "length (m_array m) = m_size m" "size (entries m) < m_size m" using m(1) by (auto simp: map_ok_def)
  from insert_entry_entries [OF this k, of v] show ?thesis using m unfolding m' counted_def map_ok_def by auto
next
  case True
  have e: "map_ok m'" "m' = m \<or> m_size m' = 2 * m_size m"
  proof -
    show "map_ok m'" using nx_map_put_ok [OF m(1) k put] by blast
    show "m' = m \<or> m_size m' = 2 * m_size m"
    proof (cases "calloc_ok alloc (2 * m_size m)")
      case True
      define m0 where "m0 = m\<lparr>m_size := 2 * m_size m, m_array := replicate (2 * m_size m) null_entry\<rparr>"
      have "m' = insert_entry k v (rehash_entries (m_array m) m0)"
        using put True \<open>m_size m div 2 \<le> nb_entries m\<close> by (auto simp: nx_map_put_def m0_def)
      moreover have "m_size (insert_entry a b x) = m_size x" for a b x by (simp add: insert_entry_def Let_def)
      moreover have "m_size (rehash_entries es x) = m_size x" for es x
        by (induction es arbitrary: x) (simp_all add: rehash_entries_def insert_entry_def Let_def)
      ultimately show ?thesis by (simp add: m0_def)
    qed (use put True in \<open>simp add: nx_map_put_def\<close>)
  qed
  then show ?thesis using m by (auto simp: counted_def map_ok_def MAP_INIT_SIZE_def)
qed

lemma nx_map_remove_counted:
  assumes "map_ok m" "counted m" "k \<noteq> 0" "nx_map_remove (Some m) k = (v, Some m')"
  shows "counted m'"
  using nx_map_remove_ok [OF assms(1,3,4)] assms(2) by (auto simp: counted_def size_Diff_singleton)

text \<open>
  Claim C14. In every map that calls with non-null keys can produce, the array has the recorded size, at most half of it is in
  use, a search for a free cell succeeds, so that an insertion never overwrites an entry, and the counter never wraps around: it
  lies between the number of used cells and the size of the array. It is exact as long as the array has not been resized;
  rehashing counts every moved entry a second time.
\<close>

theorem nx_map_invariant:
  assumes "reachable_map alloc m"
  shows "length (m_array m) = m_size m \<and> 2 * size (entries m) \<le> m_size m \<and> (\<exists>j < m_size m. key (m_array m ! j) = 0)
    \<and> size (entries m) \<le> nb_entries m \<and> nb_entries m \<le> m_size m
    \<and> (m_size m = MAP_INIT_SIZE \<longrightarrow> nb_entries m = size (entries m))"
proof -
  have "map_ok m \<and> counted m"
    using assms
  proof (induction rule: reachable_map.induct)
    case (put m k v r m')
    then show ?case using nx_map_put_ok [of m k alloc v r m'] nx_map_put_counted [of m k alloc v r m'] by auto
  next
    case (remove m k v m')
    then show ?case using nx_map_remove_ok [of m k v m'] nx_map_remove_counted [of m k v m'] by auto
  next
    case (init mok m)
    have "nb_entries m = 0" using init by (auto simp: nx_map_init_def split: if_splits)
    then show ?case using nx_map_init_ok [OF init] by (simp add: counted_def)
  qed
  then show ?thesis
    using free_cell [of "m_array m"] by (auto simp: map_ok_def counted_def entries_def)
qed

text \<open>A map with an entry.\<close>

theorem nx_map_invariant_witness:
  "\<exists>m m'. nx_map_init (\<lambda>_. True) True = Some m \<and> nx_map_put (\<lambda>_. True) (Some m) 8 1 = (0, Some m')
    \<and> entries m' = {#(8, 1)#} \<and> nb_entries m' = 1 \<and> m_size m' = 32 \<and> (\<exists>j < 32. key (m_array m' ! j) = 0)"
proof -
  obtain m where m: "nx_map_init (\<lambda>_. True) True = Some m" by (simp add: init_some)
  have e: "entries m = {#}" "map_ok m" "m_size m = 32" "nb_entries m = 0"
    using nx_map_init_ok [OF m] m by (auto simp: nx_map_init_def MAP_INIT_SIZE_def split: if_splits)
  define m' where "m' = insert_entry 8 1 m"
  have put: "nx_map_put (\<lambda>_. True) (Some m) 8 1 = (0, Some m')" using e by (simp add: nx_map_put_def m'_def)
  have e': "entries m' = {#(8, 1)#}" using nx_map_put_ok [OF e(2) _ put] e(1) by simp
  have s: "m_size m' = 32" using e(3) by (simp add: m'_def insert_entry_def Let_def)
  have "reachable_map (\<lambda>_. True) m'" by (rule reachable_map.put [OF reachable_map.init [OF m] _ put]) simp
  from nx_map_invariant [OF this] show ?thesis
    using m put e' s by (intro exI [of _ m] exI [of _ m']) (simp add: MAP_INIT_SIZE_def)
qed

end
