(* ===== verification/NxBuffer.thy ===== *)
theory NxBuffer
  imports NxPrelude "HOL-Library.Monad_Syntax"
begin

text \<open>
  Memory as the stream code uses it: a buffer is a list of bytes, a pointer in to it an index, and
  an access outside it is \<open>None\<close>. \<open>wr_block\<close> and \<open>rd_block\<close> are \<^verbatim>\<open>memcpy\<close> to and from a buffer.
\<close>

definition rd :: "'a list \<Rightarrow> nat \<Rightarrow> 'a option" where
  "rd m i = (if i < length m then Some (m ! i) else None)"

definition wr :: "'a list \<Rightarrow> nat \<Rightarrow> 'a \<Rightarrow> 'a list option" where
  "wr m i b = (if i < length m then Some (m[i := b]) else None)"

definition rd_block :: "'a list \<Rightarrow> nat \<Rightarrow> nat \<Rightarrow> 'a list option" where
  "rd_block m i n = (if i + n \<le> length m then Some (take n (drop i m)) else None)"

definition wr_block :: "'a list \<Rightarrow> nat \<Rightarrow> 'a list \<Rightarrow> 'a list option" where
  "wr_block m i bs = (if i + length bs \<le> length m then Some (take i m @ bs @ drop (i + length bs) m) else None)"

lemma rd_Some [simp]: "i < length m \<Longrightarrow> rd m i = Some (m ! i)"
  by (simp add: rd_def)

lemma wr_Some [simp]: "i < length m \<Longrightarrow> wr m i b = Some (m[i := b])"
  by (simp add: wr_def)

lemma rd_block_Some [simp]: "i + n \<le> length m \<Longrightarrow> rd_block m i n = Some (take n (drop i m))"
  by (simp add: rd_block_def)

lemma wr_block_Some [simp]:
  "i + length bs \<le> length m \<Longrightarrow> wr_block m i bs = Some (take i m @ bs @ drop (i + length bs) m)"
  by (simp add: wr_block_def)

lemma wr_one: "i < length m \<Longrightarrow> m[i := b] = take i m @ b # drop (Suc i) m"
  by (rule upd_conv_take_nth_drop)

text \<open>A write before the end of a prefix changes the prefix only there.\<close>

lemma take_wr: "n \<le> i \<Longrightarrow> take n (m[i := b]) = take n m"
  by simp

lemma take_Suc_wr: "i < length m \<Longrightarrow> take (Suc i) (m[i := b]) = take i m @ [b]"
  by (simp add: wr_one)

section \<open>Bytes written from a word\<close>

text \<open>\<^verbatim>\<open>while (shift > 0) { *buf++ = flush & 0xff; flush >>= 8; shift -= 8; }\<close>\<close>

fun emit :: "nat \<Rightarrow> u64 \<Rightarrow> u8 list" where
  "emit shift flush =
     (if 0 < shift then ucast flush # emit (shift - 8) (drop_bit 8 flush) else [])"

declare emit.simps [simp del]

lemma emit_0 [simp]: "emit 0 x = []"
  by (simp add: emit.simps)

lemma emit_bytes: "byte_bits (emit (8 * n) x) = bits (8 * n) x" if "8 * n \<le> 64"
  using that
proof (induction n arbitrary: x)
  case (Suc n)
  have "emit (8 * Suc n) x = ucast x # emit (8 * n) (drop_bit 8 x)"
    by (subst emit.simps) simp
  moreover have "bits (8 * Suc n) x = bits 8 x @ bits (8 * n) (drop_bit 8 x)"
    using bits_add [of 8 "8 * n" x] by simp
  ultimately show ?case
    using Suc by (simp add: bits_ucast)
qed simp

lemma length_emit: "length (emit (8 * n) x) = n"
proof (induction n arbitrary: x)
  case (Suc n)
  have "emit (8 * Suc n) x = ucast x # emit (8 * n) (drop_bit 8 x)"
    by (subst emit.simps) simp
  then show ?case using Suc by simp
qed simp

end
