(* ===== verification/DeflateBlock.thy ===== *)
theory DeflateBlock
  imports NxBuffer
begin

text \<open>
  The block headers that \<^verbatim>\<open>lib/nx_deflate.c\<close> writes itself: stored blocks (\<^verbatim>\<open>append_btype00_header\<close>),
  the empty stored block of a sync or full flush (\<^verbatim>\<open>append_sync_flush\<close>) and the empty fixed block of
  a partial flush (\<^verbatim>\<open>append_partial_flush\<close>). \<open>tebc\<close> is the number of valid bits in the byte before
  the pointer, \<open>0\<close> for a full byte. The reference reads the blocks as RFC 1951 prescribes.
\<close>

section \<open>The code\<close>

text \<open>Where the new bits start: at the partial byte with its upper bits cleared, or at a zero byte.\<close>

definition partial_byte :: "u8 list \<Rightarrow> nat \<Rightarrow> nat \<Rightarrow> (nat \<times> u8) option" where
  "partial_byte buf p tebc =
     (if 0 < tebc
      then (if p = 0 then None else do { b \<leftarrow> rd buf (p - 1); Some (p - 1, b AND mask tebc) })
      else do { b \<leftarrow> rd buf p; Some (p, 0) })"

definition append_btype00_header :: "u8 list \<Rightarrow> nat \<Rightarrow> nat \<Rightarrow> bool \<Rightarrow> nat \<Rightarrow> (u8 list \<times> nat) option" where
  "append_btype00_header buf p tebc final block_len =
     (if 8 \<le> tebc \<or> 0x10000 \<le> block_len then None
      else do {
        (q, b) \<leftarrow> partial_byte buf p tebc;
        let shift = tebc mod 8;
        let blen = word_of_nat block_len;
        let blen = 0xffffffff AND (push_bit 16 (NOT blen) OR blen);
        let flush = push_bit shift (of_bool final) OR ucast b;
        let shift = shift + 3;
        let shift = (if shift \<le> 8 then 8 else 16);
        let flush = flush OR push_bit shift blen;
        buf \<leftarrow> wr_block buf q (emit (shift + 32) flush);
        Some (buf, if 5 < tebc \<or> tebc = 0 then 5 else 4)
      })"

definition append_sync_flush :: "u8 list \<Rightarrow> nat \<Rightarrow> nat \<Rightarrow> bool \<Rightarrow> (u8 list \<times> nat) option" where
  "append_sync_flush buf p tebc final =
     do {
       (q, b) \<leftarrow> partial_byte buf p tebc;
       let shift = tebc mod 8;
       let flush = push_bit shift (of_bool final) OR ucast b;
       let shift = shift + 3;
       let shift = (if shift \<le> 8 then 8 else 16);
       let flush = flush OR push_bit shift 0xFFFF0000;
       buf \<leftarrow> wr_block buf q (emit (shift + 32) flush);
       Some (buf, if 5 < tebc \<or> tebc = 0 then 5 else 4)
     }"

text \<open>The result also holds the new \<open>tebc\<close>. The old bits of the partial byte are not written back.\<close>

definition append_partial_flush :: "u8 list \<Rightarrow> nat \<Rightarrow> nat \<Rightarrow> bool \<Rightarrow> (u8 list \<times> nat \<times> nat) option" where
  "append_partial_flush buf p tebc final =
     (if 8 \<le> tebc then None
      else do {
        (q, b) \<leftarrow> partial_byte buf p tebc;
        let shift = tebc mod 8;
        let flush = push_bit shift (2 OR of_bool final);
        let shift = shift + 10;
        let bytes = (if shift = 10 \<or> shift = 17 then 2 else 1);
        buf \<leftarrow> wr_block buf q (emit shift flush);
        Some (buf, bytes, shift mod 8)
      })"

section \<open>The reference\<close>

text \<open>
  A reader of one block, in the bit order of the format. \<open>pos\<close> counts the bits before the block, and
  the result is the final bit, the bytes of the block and the bits that follow. Of the fixed
  Huffman blocks only the empty one is read here: seven zero bits, the end-of-block code.
\<close>

definition pad :: "nat \<Rightarrow> nat" where
  "pad pos = (8 - (pos + 3) mod 8) mod 8"

fun bytes_of :: "bool list \<Rightarrow> u8 list" where
  "bytes_of bs = (if length bs < 8 then [] else word_of_nat (bval (take 8 bs)) # bytes_of (drop 8 bs))"

declare bytes_of.simps [simp del]

definition read_stored :: "nat \<Rightarrow> bool list \<Rightarrow> (u8 list \<times> bool list) option" where
  "read_stored pos bs =
     (let bs = drop (pad pos) bs;
          len = bval (take 16 bs); nlen = bval (take 16 (drop 16 bs)); bs' = drop 32 bs
      in if length bs < 32 \<or> len + nlen \<noteq> 0xffff \<or> length bs' < 8 * len then None
         else Some (bytes_of (take (8 * len) bs'), drop (8 * len) bs'))"

definition read_block :: "nat \<Rightarrow> bool list \<Rightarrow> (bool \<times> u8 list \<times> bool list) option" where
  "read_block pos bs =
     (case bs of
        f # False # False # bs' \<Rightarrow> map_option (\<lambda>(d, r). (f, d, r)) (read_stored pos bs')
      | f # True # False # bs' \<Rightarrow>
          if take 7 bs' = replicate 7 False then Some (f, [], drop 7 bs') else None
      | _ \<Rightarrow> None)"

text \<open>The bits of a stored block header and of an empty fixed block.\<close>

definition stored_header :: "nat \<Rightarrow> bool \<Rightarrow> nat \<Rightarrow> bool list" where
  "stored_header pos final len =
     [final, False, False] @ replicate (pad pos) False @ bits 16 len @ map Not (bits 16 len)"

definition empty_fixed :: "bool \<Rightarrow> bool list" where
  "empty_fixed final = [final, True, False] @ replicate 7 False"

lemma bytes_of_byte_bits [simp]: "bytes_of (byte_bits ws) = ws"
proof (induction ws)
  case (Cons w ws)
  have "word_of_nat (bval (bits 8 w)) = w"
    by (simp add: bval_bits_word take_bit_word_eq_self)
  then show ?case using Cons by (subst bytes_of.simps) simp
qed (simp add: bytes_of.simps)

lemma bval_Not: "bval bs + bval (map Not bs) = 2 ^ length bs - 1"
proof (induction bs)
  case (Cons b bs)
  have "1 \<le> (2 :: nat) ^ length bs" by simp
  moreover have "of_bool b + of_bool (\<not> b) = (1 :: nat)" by simp
  ultimately show ?case
    using Cons unfolding list.map bval_Cons length_Cons power_Suc by linarith
qed simp

text \<open>A stored block that was written is read back, whatever follows it.\<close>

lemma read_stored_header:
  assumes "length data < 0x10000"
  shows "read_block pos (stored_header pos final (length data) @ byte_bits data @ rest) = Some (final, data, rest)"
proof -
  have len: "bval (bits 16 (length data)) = length data"
    using assms by (intro bval_bits_small) simp
  moreover have "length data + bval (map Not (bits 16 (length data))) = 0xffff"
    using bval_Not [of "bits 16 (length data)"] len by simp
  ultimately show ?thesis
    by (simp add: read_block_def stored_header_def read_stored_def Let_def)
qed

lemma read_empty_fixed: "read_block pos (empty_fixed final @ rest) = Some (final, [], rest)"
  by (simp add: read_block_def empty_fixed_def)

end
