(* ===== verification/DeflateBlockCorrect.thy ===== *)
theory DeflateBlockCorrect
  imports DeflateBlock
begin

text \<open>
  The writers of \<^verbatim>\<open>DeflateBlock\<close> append exactly the bits of their block to the valid bits of the
  buffer, and change nothing after the bytes they report.
\<close>

text \<open>The valid bits before the pointer, and what it means to append bits to them.\<close>

definition valid_bits :: "nat \<Rightarrow> nat \<Rightarrow> u8 list \<Rightarrow> bool list" where
  "valid_bits p tebc buf = take (if tebc = 0 then 8 * p else 8 * (p - 1) + tebc) (byte_bits buf)"

definition appends :: "u8 list \<Rightarrow> nat \<Rightarrow> nat \<Rightarrow> u8 list \<Rightarrow> nat \<Rightarrow> bool list \<Rightarrow> bool" where
  "appends buf p tebc buf' n bs \<longleftrightarrow>
     length buf' = length buf \<and> drop (p + n) buf' = drop (p + n) buf
     \<and> byte_bits (take (p + n) buf') = valid_bits p tebc buf @ bs"

lemma take_byte_bits: "take (8 * n) (byte_bits ws) = byte_bits (take n ws)"
proof (induction ws arbitrary: n)
  case (Cons w ws)
  then show ?case by (cases n) simp_all
qed simp

lemma drop_byte_bits: "drop (8 * n) (byte_bits ws) = byte_bits (drop n ws)"
proof (induction ws arbitrary: n)
  case (Cons w ws)
  then show ?case by (cases n) simp_all
qed simp

lemma valid_bits_full: "valid_bits p 0 buf = byte_bits (take p buf)"
  by (simp add: valid_bits_def take_byte_bits)

lemma valid_bits_partial:
  assumes "0 < p" and "p \<le> length buf" and "0 < tebc" and "tebc \<le> 8"
  shows "valid_bits p tebc buf = byte_bits (take (p - 1) buf) @ bits tebc (buf ! (p - 1))"
proof -
  have "drop (p - 1) buf = buf ! (p - 1) # drop p buf"
    using assms by (metis Suc_pred' diff_less_Suc Cons_nth_drop_Suc less_le_trans diff_less zero_less_one)
  then have "byte_bits (drop (p - 1) buf) = bits 8 (buf ! (p - 1)) @ byte_bits (drop p buf)" by simp
  moreover have "valid_bits p tebc buf = take (8 * (p - 1)) (byte_bits buf) @ take tebc (drop (8 * (p - 1)) (byte_bits buf))"
    using assms by (simp add: valid_bits_def take_add)
  ultimately show ?thesis
    using assms by (simp add: take_byte_bits drop_byte_bits take_bits)
qed

text \<open>The partial byte carries the valid bits of the last byte and nothing else.\<close>

lemma partial_byte_valid:
  assumes "tebc < 8" and "0 < tebc \<longrightarrow> 0 < p" and "p < length buf"
  obtains q b where "partial_byte buf p tebc = Some (q, b)" and "q + (if 0 < tebc then 1 else 0) = p"
    and "\<And>k. tebc \<le> k \<Longrightarrow> \<not> bit b k" and "valid_bits p tebc buf = byte_bits (take q buf) @ bits tebc b"
proof (cases "tebc = 0")
  case True
  then show ?thesis
    using assms by (intro that [of p 0]) (simp_all add: partial_byte_def valid_bits_full)
next
  case False
  have "bits tebc (buf ! (p - 1) AND mask tebc) = bits tebc (buf ! (p - 1))"
    using assms(1) by (intro bits_cong) (auto simp: bit_simps)
  then show ?thesis
    using assms False
    by (intro that [of "p - 1" "buf ! (p - 1) AND mask tebc"])
      (simp_all add: partial_byte_def valid_bits_partial bit_simps)
qed

lemma appends_write:
  assumes "q \<le> p" and "length E = p + n - q" and "p + n \<le> length buf"
    and "byte_bits (take q buf) @ byte_bits E = valid_bits p tebc buf @ bs"
  obtains buf' where "wr_block buf q E = Some buf'" and "appends buf p tebc buf' n bs"
proof
  have stop: "q + length E = p + n" using assms by simp
  let ?b = "take q buf @ E @ drop (p + n) buf"
  show "wr_block buf q E = Some ?b" using assms stop by simp
  have "length (take q buf @ E) = p + n" using stop assms(3) by simp
  then have "take (p + n) ?b = take q buf @ E" and "drop (p + n) ?b = drop (p + n) buf"
    by (metis append.assoc append_eq_conv_conj)+
  moreover have "length ?b = length buf" using stop assms(3) by simp
  ultimately show "appends buf p tebc ?b n bs"
    using assms(4) by (simp add: appends_def)
qed

lemma emit_header:
  fixes b :: u8
  assumes "k < 8" and "\<And>i. k \<le> i \<Longrightarrow> \<not> bit b i" and sh: "sh = (if k + 3 \<le> 8 then 8 else 16)"
  shows "byte_bits (emit (sh + 32) ((push_bit k (of_bool final) OR ucast b) OR push_bit sh v))
      = bits k b @ [final, False, False] @ replicate (pad k) False @ bits 32 v"
    and "length (emit (sh + 32) w) = (if 5 < k then 6 else 5)"
proof -
  have n: "sh + 32 = 8 * (if 5 < k then 6 else 5)" using assms by simp
  show "length (emit (sh + 32) w) = (if 5 < k then 6 else 5)"
    unfolding n by (rule length_emit)
  have "k = 0 \<or> k = 1 \<or> k = 2 \<or> k = 3 \<or> k = 4 \<or> k = 5 \<or> k = 6 \<or> k = 7" using assms(1) by linarith
  then have padk: "k + 3 + pad k = sh" by (auto simp: pad_def sh)
  let ?Y = "push_bit k (of_bool final) OR ucast b :: u64"
  have high: "\<not> bit ?Y i" if "sh \<le> i" for i
    using that assms sh by (auto simp: bit_simps split: if_splits)
  have "bits (sh + 32) (?Y OR push_bit sh v) = bits sh ?Y @ bits 32 v"
    using high sh by (intro bits_or_push) auto
  moreover have "bits sh ?Y = bits k b @ [final, False, False] @ replicate (pad k) False"
  proof (rule nth_equalityI)
    fix i
    assume "i < length (bits sh ?Y)"
    then have "i < sh" by simp
    then consider "i < k" | "i = k" | "k < i" by linarith
    then show "bits sh ?Y ! i = (bits k b @ [final, False, False] @ replicate (pad k) False) ! i"
    proof cases
      case 3
      moreover from 3 have "[final, False, False] ! (i - k) = False" if "i - k < 3"
        using that by (cases "i - k") (auto simp: nth_Cons')
      ultimately show ?thesis
        using \<open>i < sh\<close> assms padk by (auto simp: nth_append bit_simps nth_Cons')
    qed (use \<open>i < sh\<close> assms in \<open>auto simp: nth_append bit_simps\<close>)
  qed (use padk in simp)
  ultimately show "byte_bits (emit (sh + 32) (?Y OR push_bit sh v)) = bits k b @ [final, False, False] @ replicate (pad k) False @ bits 32 v"
    unfolding n by (subst emit_bytes) (auto simp: sh simp flip: n)
qed

section \<open>Stored blocks\<close>

definition stored_bytes :: "nat \<Rightarrow> nat" where
  "stored_bytes tebc = (if 5 < tebc \<or> tebc = 0 then 5 else 4)"

lemma nlen_bits:
  assumes "len < 0x10000"
  shows "bits 32 (0xffffffff AND (push_bit 16 (NOT (word_of_nat len)) OR word_of_nat len) :: u64)
    = bits 16 len @ map Not (bits 16 len)"
proof -
  have high: "\<not> bit (word_of_nat len :: u64) i" if "16 \<le> i" for i
    using that assms by (intro word_of_nat_high_bits) auto
  have low: "bit (0xffffffff :: u64) i \<longleftrightarrow> i < 32" if "i < 64" for i
  proof -
    have "(0xffffffff :: u64) = mask 32" by (simp add: mask_eq_exp_minus_1)
    then show ?thesis using that by (simp only: bit_mask_iff) auto
  qed
  show ?thesis
  proof (rule nth_equalityI)
    fix i
    assume "i < length (bits 32 (0xffffffff AND (push_bit 16 (NOT (word_of_nat len)) OR word_of_nat len) :: u64))"
    then have "i < 32" by simp
    then have "bit (0xffffffff :: u64) i" using low [of i] by simp
    then show "bits 32 (0xffffffff AND (push_bit 16 (NOT (word_of_nat len)) OR word_of_nat len) :: u64) ! i
        = (bits 16 len @ map Not (bits 16 len)) ! i"
      using \<open>i < 32\<close> high [of i] less_imp_diff_less [of i 64 16]
      by (simp add: nth_append bit_and_iff bit_or_iff bit_push_bit_iff bit_not_iff bit_word_of_nat_iff)
  qed simp
qed

lemma append_btype00_header_correct:
  assumes "tebc < 8" and "0 < tebc \<longrightarrow> 0 < p" and "p + stored_bytes tebc \<le> length buf" and "len < 0x10000"
  obtains buf' where "append_btype00_header buf p tebc final len = Some (buf', stored_bytes tebc)"
    and "appends buf p tebc buf' (stored_bytes tebc) (stored_header tebc final len)"
proof -
  have "p < length buf" using assms(3) by (auto simp: stored_bytes_def split: if_splits)
  then obtain q b where qb: "partial_byte buf p tebc = Some (q, b)" "q + (if 0 < tebc then 1 else 0) = p"
      "\<And>k. tebc \<le> k \<Longrightarrow> \<not> bit b k" "valid_bits p tebc buf = byte_bits (take q buf) @ bits tebc b"
    using partial_byte_valid assms(1,2) by metis
  define sh where "sh = (if tebc + 3 \<le> 8 then 8 else 16 :: nat)"
  define v where "v = (0xffffffff AND (push_bit 16 (NOT (word_of_nat len)) OR word_of_nat len) :: u64)"
  define E where "E = emit (sh + 32) ((push_bit tebc (of_bool final) OR ucast b) OR push_bit sh v)"
  have bits_E: "byte_bits E = bits tebc b @ stored_header tebc final len"
    using emit_header(1) [OF assms(1) qb(3) sh_def, of final v] nlen_bits [OF assms(4)]
    by (simp add: stored_header_def v_def E_def)
  have len: "length E = p + stored_bytes tebc - q"
    using emit_header(2) [OF assms(1) qb(3) sh_def, of "(push_bit tebc (of_bool final) OR ucast b) OR push_bit sh v"] qb(2)
    by (simp add: E_def stored_bytes_def split: if_splits)
  obtain buf' where buf': "wr_block buf q E = Some buf'" "appends buf p tebc buf' (stored_bytes tebc) (stored_header tebc final len)"
    using appends_write [OF _ len assms(3), of tebc "stored_header tebc final len"] qb bits_E by auto
  have "append_btype00_header buf p tebc final len = Some (buf', stored_bytes tebc)"
    using assms(1,4) qb(1) buf'(1)
    by (simp add: append_btype00_header_def Let_def stored_bytes_def E_def sh_def v_def del: push_bit_and push_bit_or)
  then show ?thesis using that buf'(2) by blast
qed

lemma sync_is_stored: "tebc < 8 \<Longrightarrow> append_sync_flush buf p tebc final = append_btype00_header buf p tebc final 0"
  by (simp add: append_sync_flush_def append_btype00_header_def Let_def push_bit_eq_mult)

section \<open>Partial flush\<close>

lemma append_partial_flush_correct:
  assumes "p + 2 \<le> length buf"
  obtains buf' where "append_partial_flush buf p 0 final = Some (buf', 2, 2)"
    and "appends buf p 0 buf' 2 (empty_fixed final @ replicate 6 False)"
proof -
  let ?w = "2 OR of_bool final :: u64"
  have "emit 10 ?w = emit 16 ?w"
    by (subst (1 2) emit.simps, subst (1 2) emit.simps) (simp add: emit.simps)
  moreover have "replicate 7 False @ replicate 6 False = [False, False, False, False, False, False, False, False, False,
      False, False, False, False]"
    by (simp add: numeral_eq_Suc)
  then have "byte_bits (emit 16 ?w) = empty_fixed final @ replicate 6 False"
    using emit_bytes [of 2 ?w] by (cases final) (simp_all add: empty_fixed_def bits_def upt_rec bit_simps)
  moreover have "length (emit 16 ?w) = 2" using length_emit [of 2 ?w] by simp
  ultimately obtain buf' where "wr_block buf p (emit 10 ?w) = Some buf'" "appends buf p 0 buf' 2 (empty_fixed final @ replicate 6 False)"
    using appends_write [of p p "emit 10 ?w" 2 buf 0] assms by (auto simp: valid_bits_full)
  then show ?thesis
    using that assms by (auto simp: append_partial_flush_def partial_byte_def Let_def)
qed

end
