(* ===== verification/NxOut.thy ===== *)
theory NxOut
  imports DeflateBlock
begin

text \<open>
  The output side of a deflate stream in \<^verbatim>\<open>lib/nx_deflate.c\<close>: the user's buffer, the overflow
  buffer \<^verbatim>\<open>fifo_out\<close> and the partial last byte. \<open>obuf\<close> is the memory of the user's buffer and
  \<open>next_out\<close> the index that the pointer has reached in it. The copy of these fields in the parent
  \<^verbatim>\<open>z_stream\<close> moves in step with the fields of \<^verbatim>\<open>nx_stream\<close> and is not kept twice.
\<close>

section \<open>The state\<close>

record nx_out =
  obuf :: "u8 list"
  next_out :: nat
  avail_out :: nat
  total_out :: nat
  fifo_out :: "u8 list"
  len_out :: nat
  cur_out :: nat
  used_out :: nat
  tebc :: nat

definition Z_NO_FLUSH :: int where "Z_NO_FLUSH = 0"
definition Z_PARTIAL_FLUSH :: int where "Z_PARTIAL_FLUSH = 1"
definition Z_SYNC_FLUSH :: int where "Z_SYNC_FLUSH = 2"
definition Z_FULL_FLUSH :: int where "Z_FULL_FLUSH = 3"
definition Z_FINISH :: int where "Z_FINISH = 4"
definition Z_BLOCK :: int where "Z_BLOCK = 5"

lemmas flush_codes = Z_NO_FLUSH_def Z_PARTIAL_FLUSH_def Z_SYNC_FLUSH_def Z_FULL_FLUSH_def Z_FINISH_def Z_BLOCK_def

text \<open>The update of the stream pointers by \<open>n\<close> bytes; a negative \<open>n\<close> only occurs as a rewind by one.\<close>

definition update_stream_out :: "nat \<Rightarrow> 'a nx_out_scheme \<Rightarrow> 'a nx_out_scheme" where
  "update_stream_out n s = s\<lparr>next_out := next_out s + n, total_out := total_out s + n, avail_out := avail_out s - n\<rparr>"

definition rewind_stream_out :: "'a nx_out_scheme \<Rightarrow> 'a nx_out_scheme" where
  "rewind_stream_out s = s\<lparr>next_out := next_out s - 1, total_out := total_out s - 1, avail_out := avail_out s + 1\<rparr>"

text \<open>A byte in to the user's buffer, and a byte in to the overflow buffer.\<close>

definition put_user :: "u8 \<Rightarrow> 'a nx_out_scheme \<Rightarrow> 'a nx_out_scheme option" where
  "put_user b s = do { m \<leftarrow> wr (obuf s) (next_out s) b; Some (update_stream_out 1 (s\<lparr>obuf := m\<rparr>)) }"

definition put_fifo :: "u8 \<Rightarrow> 'a nx_out_scheme \<Rightarrow> 'a nx_out_scheme option" where
  "put_fifo b s =
     do { m \<leftarrow> wr (fifo_out s) (cur_out s + used_out s) b; Some (s\<lparr>fifo_out := m, used_out := used_out s + 1\<rparr>) }"

definition nx_put_byte :: "u8 \<Rightarrow> 'a nx_out_scheme \<Rightarrow> 'a nx_out_scheme option" where
  "nx_put_byte b s = (if 0 < avail_out s then put_user b s else put_fifo b s)"

section \<open>Flush blocks that may span both buffers\<close>

text \<open>The loop in to the user's buffer: the bytes that did not fit and the state.\<close>

fun fill_user :: "u8 list \<Rightarrow> 'a nx_out_scheme \<Rightarrow> (u8 list \<times> 'a nx_out_scheme) option" where
  "fill_user [] s = Some ([], s)"
| "fill_user (b # bs) s =
     (if 0 < avail_out s then do { s \<leftarrow> put_user b s; fill_user bs s } else Some (b # bs, s))"

text \<open>After the block is in \<open>tmp\<close>: the partial byte, the two copies, the withheld last byte.\<close>

definition span_tail :: "u8 list \<Rightarrow> nat \<Rightarrow> nat \<Rightarrow> 'a nx_out_scheme \<Rightarrow> ('a nx_out_scheme \<times> nat) option" where
  "span_tail tmp nb told s =
     do {
       s \<leftarrow> (if 0 < told then do { m \<leftarrow> wr (obuf s) (next_out s - 1) (tmp ! 0); Some (s\<lparr>obuf := m\<rparr>) } else Some s);
       (rest, s) \<leftarrow> fill_user (take nb (drop 1 tmp)) s;
       s \<leftarrow> for_each put_fifo rest s;
       if used_out s = 0 \<and> 0 < tebc s then
         do {
           let s = rewind_stream_out s;
           b \<leftarrow> rd (obuf s) (next_out s);
           m \<leftarrow> wr (fifo_out s) 0 b;
           Some (s\<lparr>fifo_out := m, used_out := 1, cur_out := 0\<rparr>, nb - 1)
         }
       else Some (s, nb)
     }"

definition append_spanning_flush ::
  "int \<Rightarrow> nat \<Rightarrow> bool \<Rightarrow> 'a nx_out_scheme \<Rightarrow> ('a nx_out_scheme \<times> nat) option" where
  "append_spanning_flush flush t final s =
     (if 5 < avail_out s \<and> (flush = Z_SYNC_FLUSH \<or> flush = Z_FULL_FLUSH) then
        do {
          (m, nb) \<leftarrow> append_sync_flush (obuf s) (next_out s) t final;
          Some (update_stream_out nb (s\<lparr>obuf := m, tebc := 0\<rparr>), nb)
        }
      else do {
        tmp \<leftarrow> (if 0 < t
                then (if next_out s = 0 then None
                      else do { b \<leftarrow> rd (obuf s) (next_out s - 1); Some ((replicate 16 0)[0 := b]) })
                else Some (replicate 16 0));
        if flush = Z_SYNC_FLUSH \<or> flush = Z_FULL_FLUSH then
          do { (tmp, nb) \<leftarrow> append_sync_flush tmp 1 t final; span_tail tmp nb t (s\<lparr>tebc := 0\<rparr>) }
        else if flush = Z_PARTIAL_FLUSH then
          do {
            (tmp, nb) \<leftarrow> append_sync_flush tmp 1 t False;
            (tmp, nb2, next_tebc) \<leftarrow> append_partial_flush tmp (1 + nb) 0 final;
            span_tail tmp (nb + nb2) t (s\<lparr>tebc := next_tebc\<rparr>)
          }
        else Some (s, 0)
      })"

text \<open>
  The header of a stored block at \<open>buf\<close>, where \<open>avail\<close> bytes of the user's buffer were free when the
  block was started: the length and the final bit are filled in later.
\<close>

fun fill_at :: "nat \<Rightarrow> nat \<Rightarrow> u8 list \<Rightarrow> u8 list \<Rightarrow> (u8 list \<times> u8 list) option" where
  "fill_at p avail [] m = Some ([], m)"
| "fill_at p avail (b # bs) m =
     (if 0 < avail then do { m \<leftarrow> wr m p b; fill_at (p + 1) (avail - 1) bs m } else Some (b # bs, m))"

definition rewrite_spanning_flush ::
  "nat \<Rightarrow> nat \<Rightarrow> nat \<Rightarrow> bool \<Rightarrow> nat \<Rightarrow> 'a nx_out_scheme \<Rightarrow> ('a nx_out_scheme \<times> nat) option" where
  "rewrite_spanning_flush buf avail t final block_len s =
     (if 5 < avail then
        do { (m, nb) \<leftarrow> append_btype00_header (obuf s) buf t final block_len; Some (s\<lparr>obuf := m\<rparr>, nb) }
      else do {
        tmp \<leftarrow> (if 0 < t
                then (if buf = 0 then None else do { b \<leftarrow> rd (obuf s) (buf - 1); Some ((replicate 6 0)[0 := b]) })
                else Some (replicate 6 0));
        (tmp, nb) \<leftarrow> append_btype00_header tmp 1 t final block_len;
        s \<leftarrow> (if 0 < t then do { m \<leftarrow> wr (obuf s) (buf - 1) (tmp ! 0); Some (s\<lparr>obuf := m\<rparr>) } else Some s);
        (rest, m) \<leftarrow> fill_at buf avail (take nb (drop 1 tmp)) (obuf s);
        f \<leftarrow> wr_block (fifo_out s) 0 rest;
        Some (s\<lparr>obuf := m, fifo_out := f\<rparr>, nb)
      })"

section \<open>Emptying the overflow buffer\<close>

definition fifo_out_len_check :: "'a nx_out_scheme \<Rightarrow> 'a nx_out_scheme option" where
  "fifo_out_len_check s =
     do {
       s \<leftarrow> (if len_out s div 2 < cur_out s
             then do {
               b \<leftarrow> rd_block (fifo_out s) (cur_out s) (used_out s);
               m \<leftarrow> wr_block (fifo_out s) 0 b;
               Some (s\<lparr>fifo_out := m, cur_out := 0\<rparr>)
             }
             else Some s);
       Some (if used_out s = 0 then s\<lparr>cur_out := 0\<rparr> else s)
     }"

text \<open>\<open>closed\<close>: the final bit was set or the trailer was written. The result says whether it copied.\<close>

definition nx_copy_fifo_out_to_nxstrm_out :: "bool \<Rightarrow> 'a nx_out_scheme \<Rightarrow> ('a nx_out_scheme \<times> bool) option" where
  "nx_copy_fifo_out_to_nxstrm_out closed s =
     (if used_out s = 0 \<or> avail_out s = 0 then Some (s, False)
      else do {
        let copy_bytes = min (used_out s) (avail_out s);
        b \<leftarrow> rd_block (fifo_out s) (cur_out s) copy_bytes;
        m \<leftarrow> wr_block (obuf s) (next_out s) b;
        let s = update_stream_out copy_bytes (s\<lparr>obuf := m\<rparr>);
        s \<leftarrow> fifo_out_len_check (s\<lparr>used_out := used_out s - copy_bytes, cur_out := cur_out s + copy_bytes\<rparr>);
        if 0 < tebc s \<and> used_out s = 0 \<and> \<not> closed
        then do { (s, nb) \<leftarrow> append_spanning_flush Z_SYNC_FLUSH (tebc s) False s; Some (s, True) }
        else Some (s, True)
      })"

end
