(* ===== verification/NxOutCorrect.thy ===== *)
theory NxOutCorrect
  imports NxOut DeflateBlockCorrect
begin

text \<open>
  The bits that a deflate stream has produced are those in the user's buffer followed by those in
  the overflow buffer. A spanning flush appends its block to them wherever the buffers end, and
  moving the overflow to the user keeps them.
\<close>

section \<open>The produced bits\<close>

definition out_ok :: "'a nx_out_scheme \<Rightarrow> bool" where
  "out_ok s \<longleftrightarrow> next_out s + avail_out s \<le> length (obuf s) \<and> cur_out s + used_out s \<le> length (fifo_out s)"

definition delivered :: "'a nx_out_scheme \<Rightarrow> u8 list" where
  "delivered s = take (next_out s) (obuf s)"

definition pending :: "'a nx_out_scheme \<Rightarrow> u8 list" where
  "pending s = take (used_out s) (drop (cur_out s) (fifo_out s))"

definition out_bytes :: "'a nx_out_scheme \<Rightarrow> u8 list" where
  "out_bytes s = delivered s @ pending s"

definition out_bits :: "nat \<Rightarrow> 'a nx_out_scheme \<Rightarrow> bool list" where
  "out_bits t s = valid_bits (length (out_bytes s)) t (out_bytes s)"

lemmas out_defs = out_ok_def delivered_def pending_def out_bytes_def

lemma length_out_bytes: "out_ok s \<Longrightarrow> length (out_bytes s) = next_out s + used_out s"
  by (simp add: out_defs) arith

lemma out_bits_0: "out_bits 0 s = byte_bits (out_bytes s)"
  by (simp add: out_bits_def valid_bits_full)

text \<open>The bits of the produced bytes: those of the whole bytes and those of the partial last one.\<close>

lemma out_bits_split:
  assumes "t < 8" and "out_bytes s = base @ (if 0 < t then [b] else [])"
  shows "out_bits t s = byte_bits base @ bits t b"
proof (cases "t = 0")
  case True
  then show ?thesis using assms by (simp add: out_bits_0)
next
  case False
  then show ?thesis
    using assms valid_bits_partial [of "Suc (length base)" "base @ [b]" t] by (simp add: out_bits_def)
qed

text \<open>What every operation on the output side leaves alone.\<close>

definition out_frame :: "'a nx_out_scheme \<Rightarrow> 'a nx_out_scheme \<Rightarrow> bool" where
  "out_frame s s' \<longleftrightarrow>
     length (obuf s') = length (obuf s) \<and> length (fifo_out s') = length (fifo_out s) \<and> len_out s' = len_out s
     \<and> next_out s \<le> next_out s' \<and> next_out s' + avail_out s' = next_out s + avail_out s
     \<and> total_out s' + next_out s = total_out s + next_out s' \<and> nx_out.more s' = nx_out.more s"

lemma out_frame_refl [simp]: "out_frame s s"
  by (simp add: out_frame_def)

lemma out_frame_trans: "out_frame s s' \<Longrightarrow> out_frame s' s'' \<Longrightarrow> out_frame s s''"
  by (simp add: out_frame_def)

section \<open>The copy loops\<close>

lemma fill_user_eq:
  assumes "next_out s + avail_out s \<le> length (obuf s)" and "n = min (length bs) (avail_out s)"
  shows "fill_user bs s = Some (drop n bs, update_stream_out n
    (s\<lparr>obuf := take (next_out s) (obuf s) @ take n bs @ drop (next_out s + n) (obuf s)\<rparr>))"
  using assms
proof (induction bs arbitrary: s n)
  case (Cons b bs)
  show ?case
  proof (cases "avail_out s = 0")
    case True
    then show ?thesis using Cons.prems by (simp add: update_stream_out_def)
  next
    case False
    define s1 where "s1 = update_stream_out 1 (s\<lparr>obuf := (obuf s)[next_out s := b]\<rparr>)"
    have put: "put_user b s = Some s1"
      using False Cons.prems by (simp add: put_user_def s1_def)
    define k where "k = min (length bs) (avail_out s - 1)"
    have n: "n = Suc k" using False Cons.prems(2) unfolding k_def by (cases "avail_out s") auto
    have "fill_user bs s1 = Some (drop k bs, update_stream_out k
        (s1\<lparr>obuf := take (next_out s1) (obuf s1) @ take k bs @ drop (next_out s1 + k) (obuf s1)\<rparr>))"
      using Cons.prems False by (intro Cons.IH) (simp_all add: s1_def k_def update_stream_out_def)
    then show ?thesis
      using put False Cons.prems(1) unfolding n
      by (simp add: s1_def update_stream_out_def take_Suc_wr)
  qed
qed (simp add: update_stream_out_def)

lemma put_fifo_all:
  assumes "cur_out s + used_out s + length bs \<le> length (fifo_out s)"
  shows "for_each put_fifo bs s = Some (s\<lparr>used_out := used_out s + length bs,
    fifo_out := take (cur_out s + used_out s) (fifo_out s) @ bs @ drop (cur_out s + used_out s + length bs) (fifo_out s)\<rparr>)"
  using assms
proof (induction bs arbitrary: s)
  case (Cons b bs)
  define s1 where "s1 = s\<lparr>fifo_out := (fifo_out s)[cur_out s + used_out s := b], used_out := used_out s + 1\<rparr>"
  have "put_fifo b s = Some s1" using Cons.prems by (simp add: put_fifo_def s1_def)
  moreover have "for_each put_fifo bs s1 = Some (s1\<lparr>used_out := used_out s1 + length bs,
    fifo_out := take (cur_out s1 + used_out s1) (fifo_out s1) @ bs @ drop (cur_out s1 + used_out s1 + length bs) (fifo_out s1)\<rparr>)"
    using Cons.prems by (intro Cons.IH) (simp add: s1_def)
  ultimately show ?case
    using Cons.prems by (simp add: s1_def take_Suc_wr)
qed simp

text \<open>Both loops together: with an empty overflow buffer, the bytes follow what was delivered.\<close>

lemma span_copy:
  assumes ok: "out_ok s" and empty: "used_out s = 0" and room: "cur_out s + length bs \<le> length (fifo_out s)"
  obtains s' where "Option.bind (fill_user bs s) (\<lambda>(rest, s). for_each put_fifo rest s) = Some s'"
    and "out_frame s s'" and "out_ok s'" and "out_bytes s' = delivered s @ bs" and "tebc s' = tebc s"
    and "next_out s' + used_out s' = next_out s + length bs" and "used_out s' = 0 \<longrightarrow> next_out s' = next_out s + length bs"
    and "cur_out s' = cur_out s"
proof -
  define n where "n = min (length bs) (avail_out s)"
  define s1 where "s1 = update_stream_out n
    (s\<lparr>obuf := take (next_out s) (obuf s) @ take n bs @ drop (next_out s + n) (obuf s)\<rparr>)"
  have n: "n \<le> length bs" "n \<le> avail_out s" by (simp_all add: n_def)
  have 1: "fill_user bs s = Some (drop n bs, s1)"
    using fill_user_eq [OF _ n_def] ok by (simp add: out_ok_def s1_def)
  define s2 where "s2 = s1\<lparr>used_out := used_out s1 + length (drop n bs),
    fifo_out := take (cur_out s1 + used_out s1) (fifo_out s1) @ drop n bs @ drop (cur_out s1 + used_out s1 + length (drop n bs)) (fifo_out s1)\<rparr>"
  have 2: "for_each put_fifo (drop n bs) s1 = Some s2"
    unfolding s2_def using room empty by (intro put_fifo_all) (simp add: s1_def update_stream_out_def)
  have f: "out_frame s s2" and k: "out_ok s2"
    using ok room empty n by (simp_all add: out_frame_def out_ok_def s2_def s1_def update_stream_out_def)
  have "delivered s2 = delivered s @ take n bs"
    using ok n by (simp add: delivered_def out_ok_def s2_def s1_def update_stream_out_def min_def)
  moreover have "pending s2 = drop n bs"
    using ok room empty n by (simp add: pending_def s2_def s1_def update_stream_out_def min_def)
  ultimately have "out_bytes s2 = delivered s @ bs" by (simp add: out_bytes_def)
  then show ?thesis
    using that [of s2] 1 2 f k n empty by (simp add: s2_def s1_def update_stream_out_def)
qed

section \<open>Spanning flushes\<close>

text \<open>
  The end of a spanning flush: \<open>E\<close> is the last byte with its new bits, if it is partial, and the \<open>nb\<close>
  bytes of the block. They follow the bytes before them.
\<close>

lemma span_tail_bytes:
  assumes ok: "out_ok s" and empty: "used_out s = 0" and room: "cur_out s + nb \<le> length (fifo_out s)" "0 < length (fifo_out s)"
    and tmp: "Suc nb \<le> length tmp" and told: "0 < t \<longrightarrow> 0 < next_out s" and nb: "0 < nb"
  obtains s' nb' where "span_tail tmp nb t s = Some (s', nb')"
    and "out_frame s s'" and "out_ok s'" and "tebc s' = tebc s"
    and "out_bytes s' = (if 0 < t then take (next_out s - 1) (obuf s) @ [tmp ! 0] else delivered s) @ take nb (drop 1 tmp)"
    and "0 < tebc s \<longrightarrow> 0 < used_out s'" and "next_out s' + used_out s' = next_out s + nb"
    and "tebc s = 0 \<longrightarrow> nb' = nb"
proof -
  define s1 where "s1 = (if 0 < t then s\<lparr>obuf := (obuf s)[next_out s - 1 := tmp ! 0]\<rparr> else s)"
  have ok1: "out_ok s1" and e1: "used_out s1 = 0" "cur_out s1 = cur_out s" "fifo_out s1 = fifo_out s" "tebc s1 = tebc s"
      "next_out s1 = next_out s" and f1: "out_frame s s1"
    using ok empty by (auto simp: s1_def out_ok_def out_frame_def)
  have put: "(if 0 < t then do { m \<leftarrow> wr (obuf s) (next_out s - 1) (tmp ! 0); Some (s\<lparr>obuf := m\<rparr>) } else Some s) = Some s1"
    using ok told by (auto simp: s1_def out_ok_def)
  have d1: "delivered s1 = (if 0 < t then take (next_out s - 1) (obuf s) @ [tmp ! 0] else delivered s)"
  proof (cases "0 < t")
    case True
    then obtain k where k: "next_out s = Suc k" using told by (cases "next_out s") auto
    then show ?thesis using True ok by (simp add: s1_def delivered_def out_ok_def take_Suc_wr)
  qed (simp add: s1_def)
  define bs where "bs = take nb (drop 1 tmp)"
  have lbs: "length bs = nb" using tmp by (simp add: bs_def)
  obtain s2 where s2: "Option.bind (fill_user bs s1) (\<lambda>(rest, s). for_each put_fifo rest s) = Some s2"
    "out_frame s1 s2" "out_ok s2" "out_bytes s2 = delivered s1 @ bs" "tebc s2 = tebc s1"
    "next_out s2 + used_out s2 = next_out s1 + length bs" "used_out s2 = 0 \<longrightarrow> next_out s2 = next_out s1 + length bs"
    "cur_out s2 = cur_out s1"
    using span_copy [OF ok1 e1(1), of bs] room e1 lbs by auto
  obtain rest sx where fu: "fill_user bs s1 = Some (rest, sx)" "for_each put_fifo rest sx = Some s2"
    using s2(1) by (cases "fill_user bs s1") auto
  have f2: "out_frame s s2" using f1 s2(2) by (rule out_frame_trans)
  show ?thesis
  proof (cases "used_out s2 = 0 \<and> 0 < tebc s2")
    case False
    have "span_tail tmp nb t s = Some (s2, nb)"
      using put fu False by (auto simp: span_tail_def bs_def)
    then show ?thesis
      using that [of s2 nb] s2 f2 False d1 e1 lbs by (auto simp: bs_def)
  next
    case True
    then obtain k where k: "next_out s2 = Suc k" "next_out s \<le> k"
      using s2(7) e1 lbs nb by (cases "next_out s2") auto
    have room2: "0 < length (fifo_out s2)" "length (obuf s2) > k"
      using s2(2,3) f1 room(2) k by (auto simp: out_frame_def out_ok_def)
    define s3 where "s3 = (rewind_stream_out s2)\<lparr>fifo_out := (fifo_out s2)[0 := obuf s2 ! k], used_out := 1, cur_out := 0\<rparr>"
    have tl: "span_tail tmp nb t s = Some (s3, nb - 1)"
      using put fu True room2 k by (simp add: span_tail_def bs_def s3_def rewind_stream_out_def)
    have "out_bytes s3 = out_bytes s2"
      using True room2 k by (simp add: out_defs s3_def rewind_stream_out_def take_Suc_conv_app_nth hd_drop_conv_nth [symmetric] drop_Suc neq_Nil_conv) (cases "fifo_out s2"; simp)
    moreover have "out_ok s3" using s2(3) room2 k by (cases "fifo_out s2") (simp_all add: out_ok_def s3_def rewind_stream_out_def)
    moreover have "out_frame s s3"
      using f2 k by (auto simp: out_frame_def s3_def rewind_stream_out_def)
    ultimately show ?thesis
      using that [OF tl] s2 d1 e1 lbs k True by (auto simp: bs_def s3_def rewind_stream_out_def)
  qed
qed

lemma valid_bits_last:
  assumes "t < 8" and "0 < t \<longrightarrow> 0 < p" and "p \<le> length buf"
  shows "valid_bits p t buf = byte_bits (if 0 < t then take (p - 1) buf else take p buf)
      @ (if 0 < t then bits t (buf ! (p - 1)) else [])"
  using assms by (cases "t = 0") (simp_all add: valid_bits_full valid_bits_partial)

lemma out_bits_empty:
  assumes "out_ok s" and "used_out s = 0"
  shows "out_bits t s = valid_bits (next_out s) t (take (next_out s) (obuf s))"
  using assms by (simp add: out_bits_def out_defs)

text \<open>The bits of a block that was built in \<^verbatim>\<open>tmp\<close>, after the copy of the partial byte.\<close>

lemma tmp_block:
  assumes "byte_bits (take (1 + nb) tmp) = valid_bits 1 t tmp0 @ bs" and "t < 8" and "tmp0 \<noteq> []" and "tmp \<noteq> []"
  shows "byte_bits ((if 0 < t then [tmp ! 0] else []) @ take nb (drop 1 tmp)) = (if 0 < t then bits t (tmp0 ! 0) else []) @ bs"
proof -
  have tk: "take (1 + nb) tmp = tmp ! 0 # take nb (drop 1 tmp)"
    using assms(4) by (cases tmp) simp_all
  have v: "valid_bits 1 t tmp0 = (if 0 < t then bits t (tmp0 ! 0) else bits 8 (tmp0 ! 0))"
    using assms(2,3) by (cases tmp0) (simp_all add: valid_bits_last)
  show ?thesis
    using assms(1) unfolding tk v by (cases "t = 0") simp_all
qed

lemma span_tail_block:
  assumes ok: "out_ok s" and empty: "used_out s = 0" and room: "cur_out s + nb \<le> length (fifo_out s)"
    and t: "t < 8" and told: "0 < t \<longrightarrow> 0 < next_out s" and nb: "0 < nb"
    and tmp: "appends tmp0 1 t tmp nb bs" "Suc nb \<le> length tmp0" "0 < t \<longrightarrow> tmp0 ! 0 = obuf s ! (next_out s - 1)"
  obtains s' nb' where "span_tail tmp nb t s = Some (s', nb')"
    and "out_frame s s'" and "out_ok s'" and "tebc s' = tebc s" and "out_bits 0 s' = out_bits t s @ bs"
    and "0 < tebc s \<longrightarrow> 0 < used_out s'" and "next_out s' + used_out s' = next_out s + nb" and "tebc s = 0 \<longrightarrow> nb' = nb"
proof -
  have len: "length tmp = length tmp0" using tmp(1) by (simp add: appends_def)
  have "0 < length (fifo_out s)" "Suc nb \<le> length tmp" using room nb tmp(2) len by auto
  then obtain s' nb' where s': "span_tail tmp nb t s = Some (s', nb')" "out_frame s s'" "out_ok s'" "tebc s' = tebc s"
    "out_bytes s' = (if 0 < t then take (next_out s - 1) (obuf s) @ [tmp ! 0] else delivered s) @ take nb (drop 1 tmp)"
    "0 < tebc s \<longrightarrow> 0 < used_out s'" "next_out s' + used_out s' = next_out s + nb" "tebc s = 0 \<longrightarrow> nb' = nb"
    using span_tail_bytes [OF ok empty room _ _ told nb] by metis
  have E: "byte_bits ((if 0 < t then [tmp ! 0] else []) @ take nb (drop 1 tmp)) = (if 0 < t then bits t (tmp0 ! 0) else []) @ bs"
    using tmp len by (intro tmp_block t) (auto simp: appends_def)
  have "out_bits t s = byte_bits (if 0 < t then take (next_out s - 1) (obuf s) else delivered s)
      @ (if 0 < t then bits t (tmp0 ! 0) else [])"
    using ok empty t told tmp(3)
    by (auto simp: out_bits_empty valid_bits_last out_ok_def delivered_def min_def)
  then have "out_bits 0 s' = out_bits t s @ bs"
    using E by (cases "0 < t") (simp_all add: out_bits_0 s'(5))
  then show ?thesis by (rule that [OF s'(1-4) _ s'(6-8)])
qed

lemma stored_bytes_le: "0 < stored_bytes t" "stored_bytes t \<le> 5"
  by (simp_all add: stored_bytes_def)

lemma append_spanning_sync:
  assumes ok: "out_ok s" and empty: "used_out s = 0" and room: "cur_out s + 5 \<le> length (fifo_out s)"
    and t: "t < 8" and told: "0 < t \<longrightarrow> 0 < next_out s" and fl: "flush = Z_SYNC_FLUSH \<or> flush = Z_FULL_FLUSH"
  obtains s' where "append_spanning_flush flush t final s = Some (s', stored_bytes t)"
    and "out_bits 0 s' = out_bits t s @ stored_header t final 0" and "tebc s' = 0" and "out_ok s'" and "out_frame s s'"
    and "next_out s' + used_out s' = next_out s + stored_bytes t"
proof (cases "5 < avail_out s")
  case True
  have "next_out s + stored_bytes t \<le> length (obuf s)"
    using ok True stored_bytes_le [of t] by (simp add: out_ok_def)
  then obtain m where m: "append_sync_flush (obuf s) (next_out s) t final = Some (m, stored_bytes t)"
    "appends (obuf s) (next_out s) t m (stored_bytes t) (stored_header t final 0)"
    using append_btype00_header_correct [OF t told, of "obuf s" 0 final] t by (auto simp: sync_is_stored)
  define s' where "s' = update_stream_out (stored_bytes t) (s\<lparr>obuf := m, tebc := 0\<rparr>)"
  have "append_spanning_flush flush t final s = Some (s', stored_bytes t)"
    using True fl m(1) by (simp add: append_spanning_flush_def s'_def)
  moreover have "out_bits 0 s' = byte_bits (take (next_out s + stored_bytes t) m)"
    using empty by (simp add: out_bits_0 out_bytes_def delivered_def pending_def s'_def update_stream_out_def)
  moreover have "out_bits t s = valid_bits (next_out s) t (obuf s)"
    using ok empty t told by (auto simp: out_bits_empty valid_bits_last out_ok_def min_def)
  moreover have "out_ok s'" "out_frame s s'" "tebc s' = 0" "next_out s' + used_out s' = next_out s + stored_bytes t"
    using ok True empty m(2) stored_bytes_le [of t]
    by (simp_all add: out_ok_def out_frame_def s'_def update_stream_out_def appends_def)
  ultimately show ?thesis using that m(2) by (simp add: appends_def)
next
  case False
  define tmp0 where "tmp0 = (if 0 < t then (replicate 16 (0::u8))[0 := obuf s ! (next_out s - 1)] else replicate 16 0)"
  have tmp0: "length tmp0 = 16" "0 < t \<longrightarrow> tmp0 ! 0 = obuf s ! (next_out s - 1)" by (simp_all add: tmp0_def)
  have start: "(if 0 < t then (if next_out s = 0 then None
      else do { b \<leftarrow> rd (obuf s) (next_out s - 1); Some ((replicate 16 0)[0 := b]) }) else Some (replicate 16 0)) = Some tmp0"
    using ok told by (auto simp: tmp0_def out_ok_def)
  have "1 + stored_bytes t \<le> length tmp0" using stored_bytes_le [of t] tmp0 by simp
  then obtain tmp where tmp: "append_sync_flush tmp0 1 t final = Some (tmp, stored_bytes t)"
    "appends tmp0 1 t tmp (stored_bytes t) (stored_header t final 0)"
    using append_btype00_header_correct [OF t, of 1 tmp0 0 final] t by (auto simp: sync_is_stored)
  define s1 where "s1 = s\<lparr>tebc := 0\<rparr>"
  have eq: "append_spanning_flush flush t final s = span_tail tmp (stored_bytes t) t s1"
    using False fl tmp(1) start by (auto simp: append_spanning_flush_def s1_def)
  have s1: "out_ok s1" "used_out s1 = 0" "next_out s1 = next_out s" "obuf s1 = obuf s" "cur_out s1 = cur_out s"
      "fifo_out s1 = fifo_out s" "tebc s1 = 0" "out_bits t s1 = out_bits t s"
    using ok empty by (simp_all add: s1_def out_bits_def out_defs)
  have side: "cur_out s1 + stored_bytes t \<le> length (fifo_out s1)" "0 < t \<longrightarrow> 0 < next_out s1"
      "Suc (stored_bytes t) \<le> length tmp0" "0 < t \<longrightarrow> tmp0 ! 0 = obuf s1 ! (next_out s1 - 1)"
    using s1 room told tmp0 stored_bytes_le [of t] by simp_all
  obtain s' nb' where s': "span_tail tmp (stored_bytes t) t s1 = Some (s', nb')"
    "out_frame s1 s'" "out_ok s'" "tebc s' = tebc s1" "out_bits 0 s' = out_bits t s1 @ stored_header t final 0"
    "next_out s' + used_out s' = next_out s1 + stored_bytes t" "tebc s1 = 0 \<longrightarrow> nb' = stored_bytes t"
    by (rule span_tail_block [OF s1(1,2) side(1) t side(2) stored_bytes_le(1) tmp(2) side(3,4)])
  then show ?thesis
    using that [of s'] eq s1 by (simp add: out_frame_def s1_def)
qed

lemma appends_trans:
  assumes "appends b0 p t b1 m xs" and "appends b1 (p + m) 0 b2 n ys"
  shows "appends b0 p t b2 (m + n) (xs @ ys)"
proof -
  have "drop n (drop (p + m) b1) = drop n (drop (p + m) b0)" using assms(1) by (simp add: appends_def)
  then have "drop (p + (m + n)) b1 = drop (p + (m + n)) b0" by (simp add: add.commute add.left_commute)
  then show ?thesis
    using assms by (simp add: appends_def valid_bits_full add.assoc)
qed

lemma out_bits_cut:
  assumes "out_bits 0 s = bs @ replicate (8 - t) False" and "0 < t" and "t < 8"
  shows "out_bits t s = bs"
proof -
  have "byte_bits (out_bytes s) = bs @ replicate (8 - t) False" using assms(1) by (simp add: out_bits_0)
  moreover from this have "length bs + (8 - t) = 8 * length (out_bytes s)"
    by (metis length_append length_byte_bits length_replicate)
  ultimately show ?thesis
    using assms(2,3) by (simp add: out_bits_def valid_bits_def)
qed

lemma append_spanning_partial:
  assumes ok: "out_ok s" and empty: "used_out s = 0" and room: "cur_out s + 7 \<le> length (fifo_out s)"
    and t: "t < 8" and told: "0 < t \<longrightarrow> 0 < next_out s"
  obtains s' nb where "append_spanning_flush Z_PARTIAL_FLUSH t final s = Some (s', nb)"
    and "out_bits 2 s' = out_bits t s @ stored_header t False 0 @ empty_fixed final" and "tebc s' = 2"
    and "out_ok s'" and "out_frame s s'" and "0 < used_out s'"
proof -
  define tmp0 where "tmp0 = (if 0 < t then (replicate 16 (0::u8))[0 := obuf s ! (next_out s - 1)] else replicate 16 0)"
  have tmp0: "length tmp0 = 16" "0 < t \<longrightarrow> tmp0 ! 0 = obuf s ! (next_out s - 1)" by (simp_all add: tmp0_def)
  have start: "(if 0 < t then (if next_out s = 0 then None
      else do { b \<leftarrow> rd (obuf s) (next_out s - 1); Some ((replicate 16 0)[0 := b]) }) else Some (replicate 16 0)) = Some tmp0"
    using ok told by (auto simp: tmp0_def out_ok_def)
  let ?n = "stored_bytes t"
  have "1 + ?n \<le> length tmp0" using stored_bytes_le [of t] tmp0 by simp
  then obtain tmp1 where tmp1: "append_sync_flush tmp0 1 t False = Some (tmp1, ?n)"
    "appends tmp0 1 t tmp1 ?n (stored_header t False 0)"
    using append_btype00_header_correct [OF t, of 1 tmp0 0 False] t by (auto simp: sync_is_stored)
  have "length tmp1 = 16" using tmp1(2) tmp0 by (simp add: appends_def)
  then have "1 + ?n + 2 \<le> length tmp1" using stored_bytes_le [of t] by simp
  then obtain tmp2 where tmp2: "append_partial_flush tmp1 (1 + ?n) 0 final = Some (tmp2, 2, 2)"
    "appends tmp1 (1 + ?n) 0 tmp2 2 (empty_fixed final @ replicate 6 False)"
    using append_partial_flush_correct by blast
  have both: "appends tmp0 1 t tmp2 (?n + 2) (stored_header t False 0 @ empty_fixed final @ replicate 6 False)"
    using appends_trans [OF tmp1(2) tmp2(2)] by simp
  define s1 where "s1 = s\<lparr>tebc := 2\<rparr>"
  have eq: "append_spanning_flush Z_PARTIAL_FLUSH t final s = span_tail tmp2 (?n + 2) t s1"
    using tmp1(1) tmp2(1) start by (auto simp: append_spanning_flush_def s1_def flush_codes)
  have s1: "out_ok s1" "used_out s1 = 0" "next_out s1 = next_out s" "obuf s1 = obuf s" "cur_out s1 = cur_out s"
      "fifo_out s1 = fifo_out s" "tebc s1 = 2" "out_bits t s1 = out_bits t s"
    using ok empty by (simp_all add: s1_def out_bits_def out_defs)
  have side: "cur_out s1 + (?n + 2) \<le> length (fifo_out s1)" "0 < t \<longrightarrow> 0 < next_out s1" "0 < ?n + 2"
      "Suc (?n + 2) \<le> length tmp0" "0 < t \<longrightarrow> tmp0 ! 0 = obuf s1 ! (next_out s1 - 1)"
    using s1 room told tmp0 stored_bytes_le [of t] by simp_all
  show ?thesis
  proof (rule span_tail_block [OF s1(1,2) side(1) t side(2,3) both side(4,5)])
    fix s' nb'
    assume s': "span_tail tmp2 (?n + 2) t s1 = Some (s', nb')" "out_frame s1 s'" "out_ok s'" "tebc s' = tebc s1"
      "out_bits 0 s' = out_bits t s1 @ stored_header t False 0 @ empty_fixed final @ replicate 6 False"
      "0 < tebc s1 \<longrightarrow> 0 < used_out s'"
    have "out_bits 2 s' = out_bits t s @ stored_header t False 0 @ empty_fixed final"
      by (rule out_bits_cut) (use s'(5) s1(8) in simp_all)
    then show ?thesis
      using that [of s' nb'] eq s' s1 by (simp add: out_frame_def s1_def)
  qed
qed

section \<open>Emptying the overflow buffer\<close>

lemma fifo_out_len_check_keeps:
  assumes "out_ok s"
  obtains s' where "fifo_out_len_check s = Some s'" and "out_ok s'" and "out_bytes s' = out_bytes s" and "out_frame s s'"
    and "tebc s' = tebc s" and "used_out s' = used_out s" and "used_out s = 0 \<longrightarrow> cur_out s' = 0"
    and "next_out s' = next_out s" and "avail_out s' = avail_out s"
proof (cases "len_out s div 2 < cur_out s")
  case False
  then show ?thesis
    using assms that [of "if used_out s = 0 then s\<lparr>cur_out := 0\<rparr> else s"]
    by (simp add: fifo_out_len_check_def out_defs out_frame_def)
next
  case True
  define m where "m = take (used_out s) (drop (cur_out s) (fifo_out s)) @ drop (used_out s) (fifo_out s)"
  have len: "cur_out s + used_out s \<le> length (fifo_out s)" using assms by (simp add: out_ok_def)
  then have "length (take (used_out s) (drop (cur_out s) (fifo_out s))) = used_out s" by simp
  then have "take (used_out s) m = take (used_out s) (drop (cur_out s) (fifo_out s))" "length m = length (fifo_out s)"
    using len by (simp_all add: m_def)
  then show ?thesis
    using assms True len that [of "s\<lparr>fifo_out := m, cur_out := 0\<rparr>"]
    by (simp add: fifo_out_len_check_def out_defs out_frame_def m_def)
qed

lemma copy_fifo_correct:
  assumes ok: "out_ok s" and some: "0 < used_out s" "0 < avail_out s" and room: "5 \<le> length (fifo_out s)" and t: "tebc s < 8"
  obtains s' where "nx_copy_fifo_out_to_nxstrm_out closed s = Some (s', True)" and "out_ok s'" and "out_frame s s'"
    and "if 0 < tebc s \<and> used_out s \<le> avail_out s \<and> \<not> closed
         then tebc s' = 0 \<and> out_bits 0 s' = out_bits (tebc s) s @ stored_header (tebc s) False 0
         else tebc s' = tebc s \<and> out_bytes s' = out_bytes s \<and> used_out s' = used_out s - avail_out s"
proof -
  define n where "n = min (used_out s) (avail_out s)"
  have n: "0 < n" "n \<le> used_out s" "n \<le> avail_out s" using some by (simp_all add: n_def)
  define b where "b = take n (drop (cur_out s) (fifo_out s))"
  have lb: "length b = n" using ok n by (simp add: b_def out_ok_def) arith
  define m where "m = take (next_out s) (obuf s) @ b @ drop (next_out s + n) (obuf s)"
  define s1 where "s1 = (update_stream_out n (s\<lparr>obuf := m\<rparr>))\<lparr>used_out := used_out s - n, cur_out := cur_out s + n\<rparr>"
  have ok1: "out_ok s1" and f1: "out_frame s s1"
    using ok n lb by (simp_all add: out_ok_def out_frame_def s1_def update_stream_out_def m_def)
  have "take (next_out s + n) m = take (next_out s) (obuf s) @ b"
    using ok n lb by (simp add: m_def out_ok_def min_def)
  moreover have "pending s = b @ take (used_out s - n) (drop (cur_out s + n) (fifo_out s))"
    using n(2) by (metis add.commute b_def drop_drop le_add_diff_inverse pending_def take_add)
  ultimately have same1: "out_bytes s1 = out_bytes s"
    by (simp add: out_bytes_def delivered_def pending_def s1_def update_stream_out_def)
  obtain s2 where s2: "fifo_out_len_check s1 = Some s2" "out_ok s2" "out_bytes s2 = out_bytes s1" "out_frame s1 s2"
    "tebc s2 = tebc s1" "used_out s2 = used_out s1" "used_out s1 = 0 \<longrightarrow> cur_out s2 = 0" "next_out s2 = next_out s1"
    "avail_out s2 = avail_out s1"
    by (rule fifo_out_len_check_keeps [OF ok1])
  have step: "nx_copy_fifo_out_to_nxstrm_out closed s =
      (if 0 < tebc s2 \<and> used_out s2 = 0 \<and> \<not> closed
       then do { (s, nb) \<leftarrow> append_spanning_flush Z_SYNC_FLUSH (tebc s2) False s2; Some (s, True) } else Some (s2, True))"
    using ok some n lb s2(1)
    by (simp add: nx_copy_fifo_out_to_nxstrm_out_def out_ok_def Let_def b_def m_def s1_def update_stream_out_def flip: n_def)
  have f2: "out_frame s s2" using f1 s2(4) by (rule out_frame_trans)
  have fields: "tebc s2 = tebc s" "used_out s2 = used_out s - n" "next_out s2 = next_out s + n"
    using s2 by (simp_all add: s1_def update_stream_out_def)
  show ?thesis
  proof (cases "0 < tebc s \<and> used_out s \<le> avail_out s \<and> \<not> closed")
    case True
    then have u: "used_out s2 = 0" and c: "cur_out s2 = 0" using fields s2 by (simp_all add: n_def)
    have room2: "cur_out s2 + 5 \<le> length (fifo_out s2)" using c room f2 by (simp add: out_frame_def)
    obtain s3 where s3: "append_spanning_flush Z_SYNC_FLUSH (tebc s) False s2 = Some (s3, stored_bytes (tebc s))"
      "out_bits 0 s3 = out_bits (tebc s) s2 @ stored_header (tebc s) False 0" "tebc s3 = 0" "out_ok s3" "out_frame s2 s3"
      "next_out s3 + used_out s3 = next_out s2 + stored_bytes (tebc s)"
      by (rule append_spanning_sync [OF s2(2) u room2 t]) (use fields n in auto)
    have "out_bits (tebc s) s2 = out_bits (tebc s) s" using s2(3) same1 by (simp add: out_bits_def)
    then show ?thesis
      using that [of s3] step True u fields s3 f2 by (auto intro: out_frame_trans)
  next
    case False
    then have "\<not> (0 < tebc s2 \<and> used_out s2 = 0 \<and> \<not> closed)" using fields by (auto simp: n_def min_def split: if_splits)
    moreover have "used_out s2 = used_out s - avail_out s" using fields(2) by (simp add: n_def min_def)
    ultimately show ?thesis
      using that [of s2] step False s2(2,3) f2 fields(1) same1 by (auto split: if_splits)
  qed
qed

section \<open>Filling in the header of a stored block\<close>

definition hdr_bytes :: "nat \<Rightarrow> u8 \<Rightarrow> bool \<Rightarrow> nat \<Rightarrow> u8 list" where
  "hdr_bytes t b final len =
     emit ((if t + 3 \<le> 8 then 8 else 16) + 32)
       ((push_bit t (of_bool final) OR ucast (if 0 < t then b AND mask t else 0))
        OR push_bit (if t + 3 \<le> 8 then 8 else 16)
             (0xffffffff AND (push_bit 16 (NOT (word_of_nat len)) OR word_of_nat len)))"

lemma length_hdr_bytes: "t < 8 \<Longrightarrow> length (hdr_bytes t b final len) = stored_bytes t + (if 0 < t then 1 else 0)"
  unfolding hdr_bytes_def by (subst emit_header(2) [OF _ _ refl, of t 0]) (auto simp: stored_bytes_def)

lemma header_write:
  assumes "t < 8" and "len < 0x10000" and "0 < t \<longrightarrow> 0 < p" and "p < length buf"
  shows "append_btype00_header buf p t final len =
    do { m \<leftarrow> wr_block buf (if 0 < t then p - 1 else p) (hdr_bytes t (buf ! (p - 1)) final len); Some (m, stored_bytes t) }"
  using assms
  by (cases "t = 0")
    (auto simp: append_btype00_header_def partial_byte_def Let_def hdr_bytes_def stored_bytes_def simp del: push_bit_and push_bit_or)

lemma fill_at_eq:
  assumes "p + min (length bs) avail \<le> length m"
  shows "fill_at p avail bs m = Some (drop avail bs, take p m @ take avail bs @ drop (p + min (length bs) avail) m)"
  using assms
proof (induction bs arbitrary: p avail m)
  case (Cons b bs)
  show ?case
  proof (cases avail)
    case (Suc k)
    then show ?thesis
      using Cons.prems Cons.IH [of "p + 1" k "m[p := b]"] by (simp add: take_Suc_wr)
  qed simp
qed simp

text \<open>
  The header lies at the positions \<open>buf\<close> to \<open>buf + stored_bytes t\<close> of the produced bytes, wherever
  the user's buffer ended: rewriting it is rewriting it there.
\<close>

definition header_at :: "nat \<Rightarrow> nat \<Rightarrow> nat \<Rightarrow> 'a nx_out_scheme \<Rightarrow> bool" where
  "header_at buf avail t s \<longleftrightarrow> (0 < t \<longrightarrow> 0 < buf) \<and>
     (stored_bytes t \<le> avail \<and> buf + stored_bytes t \<le> next_out s
      \<or> avail < stored_bytes t \<and> next_out s = buf + avail \<and> stored_bytes t - avail \<le> used_out s)"

lemma rewrite_spanning_correct:
  assumes ok: "out_ok s" and cur: "cur_out s = 0" and t: "t < 8" and len: "len < 0x10000" and at: "header_at buf avail t s"
  obtains s' where "rewrite_spanning_flush buf avail t final len s = Some (s', stored_bytes t)"
    and "append_btype00_header (out_bytes s) buf t final len = Some (out_bytes s', stored_bytes t)"
    and "out_ok s'" and "out_frame s s'" and "next_out s' = next_out s" and "used_out s' = used_out s"
    and "cur_out s' = 0" and "tebc s' = tebc s"
proof -
  define nb where "nb = stored_bytes t"
  define q where "q = (if 0 < t then buf - 1 else buf)"
  define E where "E = hdr_bytes t (obuf s ! (buf - 1)) final len"
  have lE: "length E = nb + (if 0 < t then 1 else 0)" using t by (simp add: E_def length_hdr_bytes nb_def)
  have nb: "0 < nb" "nb \<le> 5" using stored_bytes_le [of t] by (simp_all add: nb_def)
  have told: "0 < t \<longrightarrow> 0 < buf" using at by (simp add: header_at_def)
  have q: "q + length E = buf + nb" using lE told by (auto simp: q_def)
  have pos: "buf + nb \<le> next_out s + used_out s" "buf \<le> next_out s" using at by (auto simp: header_at_def nb_def)
  have lO: "length (out_bytes s) = next_out s + used_out s" by (rule length_out_bytes [OF ok])
  have same: "0 < t \<longrightarrow> out_bytes s ! (buf - 1) = obuf s ! (buf - 1)"
    using pos told ok by (auto simp: out_defs nth_append)
  have E': "hdr_bytes t (out_bytes s ! (buf - 1)) final len = E"
    using same by (cases "0 < t") (simp_all add: E_def hdr_bytes_def)
  have spec: "append_btype00_header (out_bytes s) buf t final len
      = Some (take q (out_bytes s) @ E @ drop (buf + nb) (out_bytes s), nb)"
  proof -
    have "buf < length (out_bytes s)" using pos nb lO by linarith
    then have "append_btype00_header (out_bytes s) buf t final len = do { m \<leftarrow> wr_block (out_bytes s) q E; Some (m, nb) }"
      using header_write [OF t len told, where buf = "out_bytes s" and final = final]
      unfolding E' q_def [symmetric] nb_def [symmetric] by blast
    then show ?thesis using q pos lO by simp
  qed
  show ?thesis
  proof (cases "5 < avail")
    case True
    then have room: "buf + nb \<le> next_out s" using at nb by (auto simp: header_at_def nb_def)
    define m where "m = take q (obuf s) @ E @ drop (buf + nb) (obuf s)"
    define s' where "s' = s\<lparr>obuf := m\<rparr>"
    have O: "next_out s \<le> length (obuf s)" using ok by (simp add: out_ok_def)
    have "append_btype00_header (obuf s) buf t final len = Some (m, nb)"
      using room O nb q header_write [OF t len told, where buf = "obuf s" and final = final]
      unfolding E_def [symmetric] q_def [symmetric] nb_def [symmetric] by (simp add: m_def)
    then have 1: "rewrite_spanning_flush buf avail t final len s = Some (s', nb)"
      using True by (simp add: rewrite_spanning_flush_def s'_def)
    have "\<not> next_out s \<le> q" "length E \<le> next_out s - q" using room q lE nb by auto
    then have "take (next_out s) m = take q (obuf s) @ E @ drop (buf + nb) (take (next_out s) (obuf s))"
      using room O q by (simp add: m_def drop_take min_def)
    moreover have "drop (buf + nb) (out_bytes s) = drop (buf + nb) (take (next_out s) (obuf s)) @ pending s"
      using room O by (simp add: out_bytes_def delivered_def)
    moreover have "take q (out_bytes s) = take q (obuf s)"
      using room O q by (simp add: out_bytes_def delivered_def min_def)
    moreover have "out_bytes s' = take (next_out s) m @ pending s"
      by (simp add: out_bytes_def delivered_def pending_def s'_def)
    ultimately have "out_bytes s' = take q (out_bytes s) @ E @ drop (buf + nb) (out_bytes s)" by simp
    moreover have "length m = length (obuf s)" using room O q by (simp add: m_def)
    ultimately show ?thesis
      using that [of s'] 1 spec ok cur by (simp add: s'_def nb_def out_ok_def out_frame_def)
  next
    case False
    define tmp0 where "tmp0 = (if 0 < t then (replicate 6 (0::u8))[0 := obuf s ! (buf - 1)] else replicate 6 0)"
    have O: "next_out s \<le> length (obuf s)" using ok by (simp add: out_ok_def)
    have start: "(if 0 < t then (if buf = 0 then None
        else do { b \<leftarrow> rd (obuf s) (buf - 1); Some ((replicate 6 0)[0 := b]) }) else Some (replicate 6 0)) = Some tmp0"
      using told pos O by (auto simp: tmp0_def)
    define T where "T = (if 0 < t then tl E else E)"
    have lT: "length T = nb" using lE by (auto simp: T_def)
    have E_eq: "E = (if 0 < t then [hd E] else []) @ T" using lE nb by (cases E) (auto simp: T_def)
    define tmp where "tmp = (if 0 < t then [hd E] else [0]) @ T @ replicate (5 - nb) 0"
    have tmp: "append_btype00_header tmp0 1 t final len = Some (tmp, nb)"
    proof -
      have l0: "length tmp0 = 6" "0 < t \<longrightarrow> tmp0 ! 0 = obuf s ! (buf - 1)" by (simp_all add: tmp0_def)
      have e: "hdr_bytes t (tmp0 ! (1 - 1)) final len = E"
        using l0 by (cases "0 < t") (simp_all add: E_def hdr_bytes_def)
      have "append_btype00_header tmp0 1 t final len
          = do { m \<leftarrow> wr_block tmp0 (if 0 < t then 1 - 1 else 1) E; Some (m, nb) }"
        using header_write [OF t len, where p = 1 and buf = tmp0 and final = final] l0 unfolding e nb_def by simp
      moreover note E_eq
      moreover have "drop (Suc nb) tmp0 = replicate (5 - nb) 0"
        by (cases "0 < t") (simp_all add: tmp0_def)
      ultimately show ?thesis
        using lE l0 nb lT by (cases "0 < t") (auto simp: tmp_def tmp0_def)
    qed
    define o1 where "o1 = (if 0 < t then (obuf s)[buf - 1 := hd E] else obuf s)"
    have put: "(if 0 < t then do { m \<leftarrow> wr (obuf s) (buf - 1) (tmp ! 0); Some (s\<lparr>obuf := m\<rparr>) } else Some s) = Some (s\<lparr>obuf := o1\<rparr>)"
      using told pos O by (auto simp: o1_def tmp_def)
    have lo1: "length o1 = length (obuf s)" by (simp add: o1_def)
    have o1: "take buf o1 = take q (obuf s) @ (if 0 < t then [hd E] else [])"
        "\<And>k. buf \<le> k \<Longrightarrow> drop k o1 = drop k (obuf s)"
      using told pos O by (cases buf; auto simp: o1_def q_def take_Suc_wr)+
    define n where "n = min nb avail"
    have n: "n \<le> nb" "buf + n \<le> next_out s" using at pos by (auto simp: header_at_def nb_def n_def)
    define m where "m = take buf o1 @ take n T @ drop (buf + n) o1"
    have fill: "fill_at buf avail (take nb (drop 1 tmp)) o1 = Some (drop n T, m)"
    proof -
      have "take nb (drop 1 tmp) = T" using lT by (simp add: tmp_def)
      moreover have "take avail T = take n T" "drop avail T = drop n T" using lT by (auto simp: n_def min_def)
      ultimately show ?thesis
        using fill_at_eq [of buf T avail o1] lT n O lo1 by (simp add: m_def n_def)
    qed
    have rest: "length (drop n T) \<le> used_out s" and full: "n < nb \<longrightarrow> next_out s = buf + n"
      using at lT by (auto simp: header_at_def nb_def n_def)
    define f where "f = drop n T @ drop (nb - n) (fifo_out s)"
    have wf: "wr_block (fifo_out s) 0 (drop n T) = Some f"
      using rest ok cur lT by (simp add: f_def out_ok_def)
    define s' where "s' = s\<lparr>obuf := m, fifo_out := f\<rparr>"
    have 1: "rewrite_spanning_flush buf avail t final len s = Some (s', nb)"
      using False start tmp put fill wf by (simp add: rewrite_spanning_flush_def s'_def)
    have lm: "length m = length (obuf s)" using n O lT lo1 by (simp add: m_def)
    have lf: "length f = length (fifo_out s)" using rest ok cur lT n(1) unfolding f_def out_ok_def by simp arith
    have deliv: "take (next_out s) m = take buf o1 @ take n T @ drop (buf + n) (take (next_out s) o1)"
    proof -
      define A where "A = take buf o1 @ take n T"
      have "length A = buf + n" using n O lT lo1 by (simp add: A_def)
      then have "take (next_out s) (A @ drop (buf + n) o1) = A @ drop (buf + n) (take (next_out s) o1)"
        using n(2) by (simp add: drop_take)
      then show ?thesis by (simp add: m_def A_def)
    qed
    have pend: "take (used_out s) f = drop n T @ drop (nb - n) (take (used_out s) (fifo_out s))"
      using rest lT by (simp add: f_def drop_take)
    have qb: "q \<le> buf" by (simp add: q_def)
    have pre: "take buf o1 @ T = take q (out_bytes s) @ E"
      using o1(1) E_eq qb O pos(2) by (simp add: out_bytes_def delivered_def min_def)
    have O': "out_bytes s' = take (next_out s) m @ take (used_out s) f"
      using cur by (simp add: out_bytes_def delivered_def pending_def s'_def)
    have "out_bytes s' = take q (out_bytes s) @ E @ drop (buf + nb) (out_bytes s)"
    proof (cases "n = nb")
      case True
      have "drop (buf + nb) (out_bytes s) = drop (buf + nb) (take (next_out s) o1) @ take (used_out s) (fifo_out s)"
        using cur O n True o1(2) [of "buf + nb"] by (simp add: out_bytes_def delivered_def pending_def drop_take)
      moreover have "out_bytes s' = (take buf o1 @ T) @ drop (buf + nb) (take (next_out s) o1) @ take (used_out s) (fifo_out s)"
        unfolding O' deliv pend using True lT by simp
      ultimately show ?thesis unfolding pre by simp
    next
      case False
      then have nx: "next_out s = buf + n" using full n by auto
      then have "drop (buf + nb) (out_bytes s) = drop (nb - n) (take (used_out s) (fifo_out s))"
        using cur O n by (simp add: out_bytes_def delivered_def pending_def)
      moreover have "out_bytes s' = (take buf o1 @ T) @ drop (nb - n) (take (used_out s) (fifo_out s))"
        unfolding O' deliv pend using nx by simp
      ultimately show ?thesis unfolding pre by simp
    qed
    then show ?thesis
      using that [of s'] 1 spec ok cur lm lf by (simp add: s'_def nb_def out_ok_def out_frame_def)
  qed
qed

section \<open>The properties\<close>

lemma length_out_bits:
  assumes "out_ok s" and "t < 8" and "0 < t \<longrightarrow> 0 < next_out s + used_out s"
  shows "length (out_bits t s) mod 8 = t"
proof (cases "t = 0")
  case False
  then obtain k where "next_out s + used_out s = Suc k" using assms(3) by (cases "next_out s + used_out s") auto
  then have "length (out_bits t s) = 8 * k + t"
    using False assms(1,2) by (simp add: out_bits_def valid_bits_def length_out_bytes)
  then show ?thesis using assms(2) by simp
qed (simp add: out_bits_0)

lemma stored_header_pos: "pos mod 8 = t \<Longrightarrow> stored_header t final len = stored_header pos final len"
  unfolding stored_header_def pad_def by (metis mod_add_left_eq)

text \<open>Blocks without data, read one after the other from a position.\<close>

fun empty_blocks :: "nat \<Rightarrow> bool list \<Rightarrow> bool list \<Rightarrow> bool" where
  "empty_blocks pos bs [] \<longleftrightarrow> bs = []"
| "empty_blocks pos bs (f # fs) \<longleftrightarrow>
     (case read_block pos bs of
        Some (f', d, r) \<Rightarrow> f' = f \<and> d = [] \<and> empty_blocks (pos + (length bs - length r)) r fs
      | None \<Rightarrow> False)"

lemma read_empty_stored: "read_block pos (stored_header pos final 0 @ rest) = Some (final, [], rest)"
  using read_stored_header [of "[]" pos final rest] by simp

text \<open>
  Claim C18. A spanning flush appends to the produced bits exactly one empty stored block (sync and
  full flush), or an empty stored and an empty fixed block (partial flush), as RFC 1951 reads them,
  with the requested final bit, whatever part of it fits in to the user's buffer; it returns, writes
  only inside the two buffers, keeps the stream's counters in step, and after a partial flush withholds the
  incomplete byte from the user.
\<close>

theorem append_spanning_flush_correct:
  assumes "out_ok s" and "used_out s = 0" and "cur_out s + 7 \<le> length (fifo_out s)" and "t < 8"
    and "0 < t \<longrightarrow> 0 < next_out s" and "flush \<in> {Z_SYNC_FLUSH, Z_FULL_FLUSH, Z_PARTIAL_FLUSH}"
  shows "\<exists>s' nb blocks. append_spanning_flush flush t final s = Some (s', nb) \<and> out_ok s' \<and> out_frame s s'
    \<and> out_bits (tebc s') s' = out_bits t s @ blocks
    \<and> empty_blocks (length (out_bits t s)) blocks (if flush = Z_PARTIAL_FLUSH then [False, final] else [final])
    \<and> (0 < tebc s' \<longrightarrow> 0 < used_out s')"
proof -
  define pos where "pos = length (out_bits t s)"
  have pos: "pos mod 8 = t" unfolding pos_def using assms(1,4,5) by (intro length_out_bits) auto
  show ?thesis
  proof (cases "flush = Z_PARTIAL_FLUSH")
    case True
    obtain s' nb where s': "append_spanning_flush Z_PARTIAL_FLUSH t final s = Some (s', nb)"
      "out_bits 2 s' = out_bits t s @ stored_header t False 0 @ empty_fixed final" "tebc s' = 2"
      "out_ok s'" "out_frame s s'" "0 < used_out s'"
      by (rule append_spanning_partial [OF assms(1-5)])
    have "empty_blocks pos (stored_header pos False 0 @ empty_fixed final) [False, final]"
      using read_empty_stored [of pos False "empty_fixed final"] read_empty_fixed [of _ final "[]"] by simp
    then show ?thesis
      using s' True stored_header_pos [OF pos]
      by (intro exI [of _ s'] exI [of _ nb] exI [of _ "stored_header pos False 0 @ empty_fixed final"]) (simp add: pos_def)
  next
    case False
    then have fl: "flush = Z_SYNC_FLUSH \<or> flush = Z_FULL_FLUSH" using assms(6) by auto
    have room: "cur_out s + 5 \<le> length (fifo_out s)" using assms(3) by simp
    obtain s' where s': "append_spanning_flush flush t final s = Some (s', stored_bytes t)"
      "out_bits 0 s' = out_bits t s @ stored_header t final 0" "tebc s' = 0" "out_ok s'" "out_frame s s'"
      "next_out s' + used_out s' = next_out s + stored_bytes t"
      by (rule append_spanning_sync [OF assms(1,2) room assms(4,5) fl])
    have "empty_blocks pos (stored_header pos final 0) [final]"
      using read_empty_stored [of pos final "[]"] by simp
    then show ?thesis
      using s' False stored_header_pos [OF pos]
      by (intro exI [of _ s'] exI [of _ "stored_bytes t"] exI [of _ "stored_header pos final 0"]) (simp add: pos_def)
  qed
qed

definition out_example :: nx_out where
  "out_example = \<lparr>obuf = [7, 0, 0, 0, 0, 0], next_out = 1, avail_out = 3, total_out = 1, fifo_out = replicate 16 0,
     len_out = 16, cur_out = 0, used_out = 0, tebc = 3\<rparr>"

theorem append_spanning_flush_correct_witness:
  "\<exists>s' nb blocks. append_spanning_flush Z_PARTIAL_FLUSH 3 True out_example = Some (s', nb) \<and> out_ok s' \<and> out_frame out_example s'
    \<and> out_bits (tebc s') s' = out_bits 3 out_example @ blocks
    \<and> empty_blocks (length (out_bits 3 out_example)) blocks (if Z_PARTIAL_FLUSH = Z_PARTIAL_FLUSH then [False, True] else [True])
    \<and> (0 < tebc s' \<longrightarrow> 0 < used_out s')"
  by (rule append_spanning_flush_correct) (simp_all add: out_example_def out_ok_def)

text \<open>
  Claim C20. Filling in the length and the final bit of a stored block whose header may lie across the
  user's buffer and the overflow buffer is the same as writing the header in to the produced bytes
  taken as one sequence; nothing else of the state changes.
\<close>

theorem rewrite_spanning_flush_refines:
  assumes "out_ok s" and "cur_out s = 0" and "t < 8" and "len < 0x10000" and "header_at buf avail t s"
  shows "\<exists>s'. rewrite_spanning_flush buf avail t final len s = Some (s', stored_bytes t)
    \<and> append_btype00_header (out_bytes s) buf t final len = Some (out_bytes s', stored_bytes t)
    \<and> out_ok s' \<and> out_frame s s' \<and> next_out s' = next_out s \<and> used_out s' = used_out s"
  by (rule rewrite_spanning_correct [OF assms, of final]) blast

theorem rewrite_spanning_flush_refines_witness:
  "\<exists>s'. rewrite_spanning_flush 1 1 3 True 2 (out_example\<lparr>next_out := 2, used_out := 5\<rparr>) = Some (s', stored_bytes 3)
    \<and> append_btype00_header (out_bytes (out_example\<lparr>next_out := 2, used_out := 5\<rparr>)) 1 3 True 2 = Some (out_bytes s', stored_bytes 3)
    \<and> out_ok s' \<and> out_frame (out_example\<lparr>next_out := 2, used_out := 5\<rparr>) s' \<and> next_out s' = 2 \<and> used_out s' = 5"
  using rewrite_spanning_flush_refines [of "out_example\<lparr>next_out := 2, used_out := 5\<rparr>" 3 2 1 1 True]
  by (simp add: out_example_def out_ok_def header_at_def stored_bytes_def)

text \<open>
  Claim C21. Moving the overflow buffer to the user loses and reorders nothing: the produced bytes stay
  the same, and when the last of them is moved and is incomplete, an empty stored block aligns it.
\<close>

theorem copy_fifo_out_keeps_bits:
  assumes "out_ok s" and "0 < used_out s" and "0 < avail_out s" and "5 \<le> length (fifo_out s)" and "tebc s < 8"
  shows "\<exists>s'. nx_copy_fifo_out_to_nxstrm_out closed s = Some (s', True) \<and> out_ok s' \<and> out_frame s s'
    \<and> (if 0 < tebc s \<and> used_out s \<le> avail_out s \<and> \<not> closed
        then tebc s' = 0 \<and> out_bits 0 s' = out_bits (tebc s) s @ stored_header (tebc s) False 0
        else tebc s' = tebc s \<and> out_bytes s' = out_bytes s \<and> used_out s' = used_out s - avail_out s)"
  by (rule copy_fifo_correct [OF assms, of closed]) blast

theorem copy_fifo_out_keeps_bits_witness:
  "\<exists>s'. nx_copy_fifo_out_to_nxstrm_out False (out_example\<lparr>used_out := 2\<rparr>) = Some (s', True) \<and> out_ok s'
    \<and> tebc s' = 0 \<and> out_bits 0 s' = out_bits 3 (out_example\<lparr>used_out := 2\<rparr>) @ stored_header 3 False 0"
  using copy_fifo_out_keeps_bits [of "out_example\<lparr>used_out := 2\<rparr>" False] by (auto simp: out_example_def out_ok_def)

end
