(* ===== verification/DeflateHeader.thy ===== *)
theory DeflateHeader
  imports NxOutCorrect
begin

text \<open>
  The state of a deflate stream in \<^verbatim>\<open>lib/nx_deflate.c\<close> and what it writes around the compressed data:
  the zlib and gzip headers (\<^verbatim>\<open>nx_deflate_add_header\<close>, \<^verbatim>\<open>gzip_header_blank\<close>) and the trailers
  (\<^verbatim>\<open>nx_compress_append_trailer\<close>).
\<close>

section \<open>The state\<close>

text \<open>
  \<^verbatim>\<open>gz_header\<close> of the zlib interface. The fields that point to buffers of the caller hold the memory
  there, \<open>None\<close> for \<^verbatim>\<open>NULL\<close>.
\<close>

record gz_header =
  gz_text :: int
  gz_time :: u64
  gz_xflags :: int
  gz_os :: int
  gz_extra :: "u8 list option"
  gz_extra_len :: nat
  gz_extra_max :: nat
  gz_name :: "u8 list option"
  gz_name_max :: nat
  gz_comment :: "u8 list option"
  gz_comm_max :: nat
  gz_hcrc :: int
  gz_done :: int

text \<open>
  \<open>next_in\<close> is the input that the caller provides and the stream has not consumed, so \<^verbatim>\<open>avail_in\<close> is its
  length; \<open>zadler\<close> is \<^verbatim>\<open>adler\<close> of the parent \<^verbatim>\<open>z_stream\<close>.
\<close>

record nx_def = nx_out +
  status :: nat
  wrap :: nat
  windowBits :: nat
  level :: int
  strategy :: int
  flush :: int
  next_in :: "u8 list"
  total_in :: nat
  fifo_in :: "u8 list option"
  len_in :: nat
  used_in :: nat
  cur_in :: nat
  history_len :: nat
  max_history_len :: nat
  dict_len :: nat
  dict_id :: u32
  header_len :: nat
  gzhead :: "gz_header option"
  adler32 :: u32
  crc32 :: u32
  checksum_set :: bool
  zadler :: u32
  spbc :: nat
  tpbc :: nat
  need_stored_block :: nat
  invoke_cnt :: nat

abbreviation avail_in :: "nx_def \<Rightarrow> nat" where "avail_in s \<equiv> length (next_in s)"

definition NX_RAW_INIT_ST :: nat where "NX_RAW_INIT_ST = 1"
definition NX_ZLIB_INIT_ST :: nat where "NX_ZLIB_INIT_ST = 2"
definition NX_GZIP_INIT_ST :: nat where "NX_GZIP_INIT_ST = 4"
definition NX_DEFLATE_ST :: nat where "NX_DEFLATE_ST = 8"
definition NX_BFINAL_ST :: nat where "NX_BFINAL_ST = 16"
definition NX_TRAILER_ST :: nat where "NX_TRAILER_ST = 32"

lemmas status_codes = NX_RAW_INIT_ST_def NX_ZLIB_INIT_ST_def NX_GZIP_INIT_ST_def NX_DEFLATE_ST_def NX_BFINAL_ST_def
  NX_TRAILER_ST_def

definition HEADER_RAW :: nat where "HEADER_RAW = 0"
definition HEADER_ZLIB :: nat where "HEADER_ZLIB = 1"
definition HEADER_GZIP :: nat where "HEADER_GZIP = 2"

lemmas header_codes = HEADER_RAW_def HEADER_ZLIB_def HEADER_GZIP_def

definition INIT_CRC :: u32 where "INIT_CRC = 0"
definition INIT_ADLER :: u32 where "INIT_ADLER = 1"

section \<open>The headers\<close>

text \<open>\<^verbatim>\<open>put_byte\<close> and \<^verbatim>\<open>put_short\<close> write at \<^verbatim>\<open>fifo_out[used_out]\<close>, whatever \<^verbatim>\<open>cur_out\<close> is.\<close>

definition put_byte :: "nat \<Rightarrow> nx_def \<Rightarrow> nx_def option" where
  "put_byte c s =
     do { m \<leftarrow> wr (fifo_out s) (used_out s) (word_of_nat (c AND 0xff)); Some (s\<lparr>fifo_out := m, used_out := used_out s + 1\<rparr>) }"

definition put_short :: "nat \<Rightarrow> nx_def \<Rightarrow> nx_def option" where
  "put_short b s = do { s \<leftarrow> put_byte (drop_bit 8 b) s; put_byte b s }"

definition put_bytes :: "u8 list \<Rightarrow> nx_def \<Rightarrow> nx_def option" where
  "put_bytes bs s = for_each nx_put_byte bs s"

definition add_header_len :: "nat \<Rightarrow> nx_def \<Rightarrow> nx_def" where
  "add_header_len n s = s\<lparr>header_len := header_len s + n\<rparr>"

definition gzip_header_blank :: "u8 list" where
  "gzip_header_blank = [0x1f, 0x8b, 0x08, 0, 0, 0, 0, 0, 4, 3]"

text \<open>The value of the two bytes of a zlib header.\<close>

definition zlib_header :: "nat \<Rightarrow> int \<Rightarrow> nat \<Rightarrow> nat" where
  "zlib_header wbits lvl dlen =
     (let header = push_bit 8 (8 + push_bit 4 (wbits - 8));
          level_flags = (if lvl < 2 then 0 else if lvl < 6 then 1 else if lvl = 6 then 2 else 3);
          header = header OR push_bit 6 level_flags;
          header = (if dlen \<noteq> 0 then header OR 0x20 else header)
      in header + (31 - header mod 31))"

text \<open>\<^verbatim>\<open>do { val = name[j++]; nx_put_byte(s, val); } while (val != 0)\<close>\<close>

fun put_string :: "u8 list \<Rightarrow> nx_def \<Rightarrow> nx_def option" where
  "put_string [] s = None"
| "put_string (c # cs) s =
     do { s \<leftarrow> nx_put_byte c s; let s = add_header_len 1 s; if c \<noteq> 0 then put_string cs s else Some s }"

definition put_opt_string :: "u8 list option \<Rightarrow> nx_def \<Rightarrow> nx_def option" where
  "put_opt_string so s = (case so of None \<Rightarrow> Some s | Some cs \<Rightarrow> put_string cs s)"

definition gzip_flags :: "gz_header \<Rightarrow> u8" where
  "gzip_flags h =
     (if gz_text h \<noteq> 0 then 1 else 0) + (if gz_extra h = None then 0 else 4)
     + (if gz_name h = None then 0 else 8) + (if gz_comment h = None then 0 else 16)"

definition put_extra :: "gz_header \<Rightarrow> nx_def \<Rightarrow> nx_def option" where
  "put_extra h s =
     (case gz_extra h of
        None \<Rightarrow> Some s
      | Some m \<Rightarrow> do {
          let xlen = gz_extra_len h;
          s \<leftarrow> put_bytes [word_of_nat (xlen AND 0xff), word_of_nat (drop_bit 8 xlen AND 0xff)] s;
          let s = add_header_len (2 + xlen) s;
          for_each (\<lambda>j s. Option.bind (rd m j) (\<lambda>val. nx_put_byte val s)) [0..<xlen] s
        })"

definition put_gzip_header :: "gz_header \<Rightarrow> nx_def \<Rightarrow> nx_def option" where
  "put_gzip_header h s =
     do {
       s \<leftarrow> put_bytes [0x1f, 0x8b, 0x08] s;
       let s = add_header_len 3 s;
       s \<leftarrow> put_bytes [gzip_flags h] s;
       let s = add_header_len 1 s;
       s \<leftarrow> put_bytes [ucast (gz_time h), ucast (drop_bit 8 (gz_time h)), ucast (drop_bit 16 (gz_time h)),
                       ucast (drop_bit 24 (gz_time h))] s;
       let s = add_header_len 4 s;
       s \<leftarrow> put_bytes [4, word_of_int (gz_os h)] s;
       let s = add_header_len 2 s;
       s \<leftarrow> put_extra h s;
       s \<leftarrow> put_opt_string (gz_name h) s;
       put_opt_string (gz_comment h) s
     }"

definition nx_deflate_add_header :: "nx_def \<Rightarrow> nx_def option" where
  "nx_deflate_add_header s =
     (let s = s\<lparr>header_len := 0\<rparr> in
      if status s = NX_ZLIB_INIT_ST then
        do {
          s \<leftarrow> put_short (zlib_header (windowBits s) (level s) (dict_len s)) s;
          let s = add_header_len 2 s;
          s \<leftarrow> (if dict_len s \<noteq> 0
                then do {
                  s \<leftarrow> put_short (unat (drop_bit 16 (dict_id s))) s;
                  s \<leftarrow> put_short (unat (dict_id s AND 0xffff)) s;
                  Some (add_header_len 4 s)
                }
                else Some s);
          Some (s\<lparr>adler32 := INIT_ADLER, zadler := INIT_ADLER, status := NX_DEFLATE_ST\<rparr>)
        }
      else if status s = NX_GZIP_INIT_ST then
        do {
          s \<leftarrow> (case gzhead s of
                  None \<Rightarrow> put_bytes gzip_header_blank (add_header_len (length gzip_header_blank) s)
                | Some h \<Rightarrow> put_gzip_header h s);
          Some (s\<lparr>zadler := crc32 s, status := NX_DEFLATE_ST\<rparr>)
        }
      else if status s = NX_RAW_INIT_ST then Some (s\<lparr>zadler := 0, status := NX_DEFLATE_ST\<rparr>)
      else None)"

section \<open>The trailers\<close>

text \<open>\<^verbatim>\<open>k=0; while (k++ < 4) { nx_put_byte(s, (cksum & 0xFF000000) >> 24); cksum = cksum << 8; }\<close>\<close>

definition put_high_bytes :: "u32 \<Rightarrow> nx_def \<Rightarrow> nx_def option" where
  "put_high_bytes cksum s =
     for_each (\<lambda>k s. nx_put_byte (ucast (drop_bit 24 (push_bit (8 * k) cksum AND 0xFF000000))) s) [0..<4] s"

definition put_low_bytes :: "u32 \<Rightarrow> nx_def \<Rightarrow> nx_def option" where
  "put_low_bytes isize s = for_each (\<lambda>k s. nx_put_byte (ucast (drop_bit (8 * k) isize AND 0xFF)) s) [0..<4] s"

text \<open>The return value is the loop counter after its last test.\<close>

definition nx_compress_append_trailer :: "nx_def \<Rightarrow> (nx_def \<times> nat) option" where
  "nx_compress_append_trailer s =
     (if wrap s = HEADER_GZIP then
        do {
          let isize = word_of_nat (total_in s);
          s \<leftarrow> put_high_bytes (crc32 s) s;
          s \<leftarrow> put_low_bytes isize s;
          Some (s, 5)
        }
      else if wrap s = HEADER_ZLIB then do { s \<leftarrow> put_high_bytes (adler32 s) s; Some (s, 5) }
      else Some (s, 0))"

end
