(* ===== verification/InflateHeader.thy ===== *)
theory InflateHeader
  imports DeflateHeader
begin

text \<open>
  The header part of \<^verbatim>\<open>nx_inflate\<close> in \<^verbatim>\<open>lib/nx_inflate.c\<close>: a state machine that reads the zlib or gzip
  header byte by byte and can be left and entered again at every byte, and the resets of a stream.
  The body of the stream, \<^verbatim>\<open>nx_inflate_\<close>, is an argument.
\<close>

section \<open>The state\<close>

definition Z_TREES :: int where "Z_TREES = 6"

datatype inf_state_t = inf_state_header
  | inf_state_gzip_id1 | inf_state_gzip_id2 | inf_state_gzip_cm | inf_state_gzip_flg | inf_state_gzip_mtime
  | inf_state_gzip_xfl | inf_state_gzip_os | inf_state_gzip_xlen | inf_state_gzip_extra | inf_state_gzip_name
  | inf_state_gzip_comment | inf_state_gzip_hcrc
  | inf_state_zlib_id1 | inf_state_zlib_flg | inf_state_zlib_dict | inf_state_zlib_dictid
  | inf_state_inflate
  | inf_state_data_error | inf_state_mem_error | inf_state_buf_error | inf_state_stream_error

text \<open>
  The fields of \<^verbatim>\<open>nx_stream\<close> that inflate uses before and after the engine. \<open>i_next_in\<close> is the input
  that is still available, so \<^verbatim>\<open>avail_in\<close> is its length; \<open>i_zadler\<close> and \<open>i_msg\<close> are \<^verbatim>\<open>adler\<close> and \<^verbatim>\<open>msg\<close> of the
  parent \<^verbatim>\<open>z_stream\<close>; its copy of the stream pointers moves in step and is not kept twice.
\<close>

record nx_inf =
  i_next_in :: "u8 list"
  i_total_in :: nat
  i_avail_out :: nat
  i_total_out :: nat
  i_wrap :: nat
  i_windowBits :: int
  inf_state :: inf_state_t
  inf_held :: nat
  i_gzhead :: "gz_header option"
  gzflags :: u8
  inf_length :: nat
  cksum :: u32
  ckbuf :: "u8 list"
  ckidx :: nat
  hcrc16 :: u16
  zlib_cmf :: u8
  i_dict_len :: nat
  i_dict_id :: u32
  i_adler :: u32
  i_adler32 :: u32
  i_crc32 :: u32
  i_zadler :: u32
  i_msg :: "string option"
  i_used_in :: nat
  i_cur_in :: nat
  i_used_out :: nat
  i_cur_out :: nat
  i_history_len :: nat
  resuming :: nat
  is_final :: nat
  trailer_len :: nat

abbreviation i_avail_in :: "nx_inf \<Rightarrow> nat" where "i_avail_in s \<equiv> length (i_next_in s)"

abbreviation upd_gzhead :: "(gz_header \<Rightarrow> gz_header) \<Rightarrow> nx_inf \<Rightarrow> nx_inf" where
  "upd_gzhead f s \<equiv> s\<lparr>i_gzhead := map_option f (i_gzhead s)\<rparr>"

section \<open>Reading a byte\<close>

text \<open>
  What a case of the switch does: goes round again (\<^verbatim>\<open>goto inf_forever\<close>, and a fall through to the next case,
  which always is the case of the new state), leaves through \<^verbatim>\<open>inf_return\<close> with a return code, returns
  \<^verbatim>\<open>Z_NEED_DICT\<close>, enters \<^verbatim>\<open>nx_inflate_\<close>, or faults: an access outside a buffer, a \<^verbatim>\<open>NULL\<close> pointer or a failed
  assertion.
\<close>

datatype inf_result = Again nx_inf | Leave int nx_inf | NeedDict nx_inf | Body nx_inf | Fault

definition update_stream_in :: "nat \<Rightarrow> nx_inf \<Rightarrow> nx_inf" where
  "update_stream_in n s = s\<lparr>i_next_in := drop n (i_next_in s), i_total_in := i_total_in s + n\<rparr>"

definition or_fault :: "'a option \<Rightarrow> ('a \<Rightarrow> inf_result) \<Rightarrow> inf_result" where
  "or_fault x k = (case x of None \<Rightarrow> Fault | Some y \<Rightarrow> k y)"

text \<open>\<open>crc\<close> is \<^verbatim>\<open>crc32\<close> of the library; \<open>k\<close> is the code that follows.\<close>

definition nx_inflate_get_byte ::
  "(u32 \<Rightarrow> u8 list \<Rightarrow> u32) \<Rightarrow> (u8 \<Rightarrow> nx_inf \<Rightarrow> inf_result) \<Rightarrow> nx_inf \<Rightarrow> inf_result" where
  "nx_inflate_get_byte crc k s =
     (case i_next_in s of
        [] \<Rightarrow> Leave Z_OK s
      | c # _ \<Rightarrow>
          or_fault (wr (ckbuf s) (ckidx s) c) (\<lambda>m.
            (let s = update_stream_in 1 (s\<lparr>ckbuf := m, ckidx := ckidx s + 1\<rparr>)
             in k c (if gzflags s AND 0x02 \<noteq> 0 then s\<lparr>cksum := crc (cksum s) (take (ckidx s) (ckbuf s)), ckidx := 0\<rparr> else s))))"

text \<open>\<^verbatim>\<open>while (s->inf_held < n) { nx_inflate_get_byte(s, c); ...; ++s->inf_held; }\<close>, \<open>n - inf_held\<close> rounds to go\<close>

primrec while_held ::
  "(u32 \<Rightarrow> u8 list \<Rightarrow> u32) \<Rightarrow> nat \<Rightarrow> (u8 \<Rightarrow> nx_inf \<Rightarrow> nx_inf) \<Rightarrow> (nx_inf \<Rightarrow> inf_result) \<Rightarrow> nx_inf \<Rightarrow> inf_result" where
  "while_held crc 0 f k s = k s"
| "while_held crc (Suc n) f k s =
     nx_inflate_get_byte crc (\<lambda>c s. let s = f c s in while_held crc n f k (s\<lparr>inf_held := inf_held s + 1\<rparr>)) s"

definition data_error :: "string \<Rightarrow> nx_inf \<Rightarrow> inf_result" where
  "data_error m s = Again (s\<lparr>i_msg := Some m, inf_state := inf_state_data_error\<rparr>)"

definition go :: "inf_state_t \<Rightarrow> nx_inf \<Rightarrow> inf_result" where
  "go st s = Again (s\<lparr>inf_state := st\<rparr>)"

section \<open>The cases of the switch\<close>

definition inf_header :: "(u32 \<Rightarrow> u8 list \<Rightarrow> u32) \<Rightarrow> nx_inf \<Rightarrow> inf_result" where
  "inf_header crc s =
     (if i_wrap s = HEADER_ZLIB OR HEADER_GZIP then
        nx_inflate_get_byte crc (\<lambda>c s.
          if c = 0x1f then go inf_state_gzip_id2 (s\<lparr>i_wrap := HEADER_GZIP\<rparr>)
          else if c AND 0x0f = 0x08 \<and> drop_bit 4 c AND 0x0f < 8
          then go inf_state_zlib_flg (s\<lparr>zlib_cmf := c, i_wrap := HEADER_ZLIB\<rparr>)
          else data_error ''incorrect header'' s) s
      else if i_wrap s = HEADER_ZLIB then go inf_state_zlib_id1 (upd_gzhead (\<lambda>h. h\<lparr>gz_done := -1\<rparr>) s)
      else if i_wrap s = HEADER_GZIP then go inf_state_gzip_id1 (upd_gzhead (\<lambda>h. h\<lparr>gz_done := 0\<rparr>) s)
      else go inf_state_inflate (s\<lparr>i_crc32 := INIT_CRC, i_adler32 := INIT_ADLER\<rparr>))"

text \<open>A byte that has to have one value.\<close>

definition expect_byte :: "(u32 \<Rightarrow> u8 list \<Rightarrow> u32) \<Rightarrow> u8 \<Rightarrow> string \<Rightarrow> inf_state_t \<Rightarrow> nx_inf \<Rightarrow> inf_result" where
  "expect_byte crc b m st s = nx_inflate_get_byte crc (\<lambda>c s. if c \<noteq> b then data_error m s else go st s) s"

definition inf_flg :: "(u32 \<Rightarrow> u8 list \<Rightarrow> u32) \<Rightarrow> nx_inf \<Rightarrow> inf_result" where
  "inf_flg crc s =
     nx_inflate_get_byte crc (\<lambda>c s.
       let s = s\<lparr>gzflags := c\<rparr> in
       if c AND 0xe0 \<noteq> 0 then data_error ''unknown header flags set'' s
       else go inf_state_gzip_mtime
         ((upd_gzhead (\<lambda>h. h\<lparr>gz_text := uint (c AND 1), gz_time := 0\<rparr>) s)\<lparr>inf_held := 0\<rparr>)) s"

text \<open>The assertion looks at bit 31 and above, because \<^verbatim>\<open>1<<31\<close> is a negative \<^verbatim>\<open>int\<close>.\<close>

definition inf_mtime :: "(u32 \<Rightarrow> u8 list \<Rightarrow> u32) \<Rightarrow> nx_inf \<Rightarrow> inf_result" where
  "inf_mtime crc s =
     while_held crc (4 - inf_held s)
       (\<lambda>c s. upd_gzhead (\<lambda>h. h\<lparr>gz_time := ucast (push_bit (8 * inf_held s) (ucast c :: u32)) OR gz_time h\<rparr>) s)
       (\<lambda>s. let s = s\<lparr>inf_held := 0\<rparr> in
            case i_gzhead s of
              None \<Rightarrow> go inf_state_gzip_xfl s
            | Some h \<Rightarrow> if gz_time h AND 0xffffffff80000000 \<noteq> 0 then Fault else go inf_state_gzip_xfl s)
       s"

definition inf_xfl :: "(u32 \<Rightarrow> u8 list \<Rightarrow> u32) \<Rightarrow> nx_inf \<Rightarrow> inf_result" where
  "inf_xfl crc s =
     nx_inflate_get_byte crc (\<lambda>c s. go inf_state_gzip_os (upd_gzhead (\<lambda>h. h\<lparr>gz_xflags := uint c\<rparr>) s)) s"

definition inf_os :: "(u32 \<Rightarrow> u8 list \<Rightarrow> u32) \<Rightarrow> nx_inf \<Rightarrow> inf_result" where
  "inf_os crc s =
     nx_inflate_get_byte crc (\<lambda>c s.
       go inf_state_gzip_xlen ((upd_gzhead (\<lambda>h. h\<lparr>gz_os := uint c\<rparr>) s)\<lparr>inf_held := 0, inf_length := 0\<rparr>)) s"

definition inf_xlen :: "(u32 \<Rightarrow> u8 list \<Rightarrow> u32) \<Rightarrow> nx_inf \<Rightarrow> inf_result" where
  "inf_xlen crc s =
     (let k = (\<lambda>s. go inf_state_gzip_extra (s\<lparr>inf_held := 0\<rparr>)) in
      if gzflags s AND 0x04 \<noteq> 0 then
        while_held crc (2 - inf_held s)
          (\<lambda>c s. s\<lparr>inf_length := inf_length s OR push_bit (inf_held s * 8) (unat c)\<rparr>)
          (\<lambda>s. k (upd_gzhead (\<lambda>h. h\<lparr>gz_extra_len := inf_length s\<rparr>) s))
          s
      else k (upd_gzhead (\<lambda>h. h\<lparr>gz_extra := None\<rparr>) s))"

text \<open>\<^verbatim>\<open>memcpy\<close> of a piece of the extra field; the lengths are 32-bit.\<close>

definition copy_extra :: "nat \<Rightarrow> nx_inf \<Rightarrow> nx_inf option" where
  "copy_extra copy s =
     (case i_gzhead s of
        None \<Rightarrow> Some s
      | Some h \<Rightarrow>
          (case gz_extra h of
             None \<Rightarrow> Some s
           | Some m \<Rightarrow>
               do {
                 let len = (word_of_nat (gz_extra_len h) - word_of_nat (inf_length s) :: u32);
                 let mx = (word_of_nat (gz_extra_max h) :: u32);
                 let n = (if mx < len + word_of_nat copy then mx - len else word_of_nat copy);
                 b \<leftarrow> rd_block (i_next_in s) 0 (unat n);
                 m \<leftarrow> wr_block m (unat len) b;
                 Some (s\<lparr>i_gzhead := Some (h\<lparr>gz_extra := Some m\<rparr>)\<rparr>)
               }))"

definition inf_extra :: "(u32 \<Rightarrow> u8 list \<Rightarrow> u32) \<Rightarrow> nx_inf \<Rightarrow> inf_result" where
  "inf_extra crc s =
     (let k = (\<lambda>s. go inf_state_gzip_name (s\<lparr>inf_length := 0\<rparr>)) in
      if gzflags s AND 0x04 \<noteq> 0 then
        let copy = min (inf_length s) (i_avail_in s) in
        or_fault
          (if copy = 0 then Some s
           else do {
             s \<leftarrow> copy_extra copy s;
             let s = (if gzflags s AND 0x02 \<noteq> 0 then s\<lparr>cksum := crc (cksum s) (take copy (i_next_in s))\<rparr> else s);
             let s = update_stream_in copy s;
             Some (s\<lparr>inf_length := inf_length s - copy\<rparr>)
           })
          (\<lambda>s. if inf_length s \<noteq> 0 then Leave Z_OK s else k s)
      else k s)"

text \<open>
  The loop over a string: the destination of the caller (\<open>None\<close> when there is none), its size, what it
  holds, the input, the last byte read and the number of bytes read.
\<close>

fun copy_string :: "u8 list option \<Rightarrow> nat \<Rightarrow> nat \<Rightarrow> u8 list \<Rightarrow> u8 \<Rightarrow> nat \<Rightarrow> (u8 list option \<times> nat \<times> u8 \<times> nat) option" where
  "copy_string d mx len [] c copy = Some (d, len, c, copy)"
| "copy_string d mx len (b # bs) c copy =
     do {
       (d, len) \<leftarrow> (case d of
                       None \<Rightarrow> Some (d, len)
                     | Some m \<Rightarrow> if len < mx then do { m \<leftarrow> wr m len b; Some (Some m, len + 1) } else Some (d, len));
       if b \<noteq> 0 then copy_string d mx len bs b (copy + 1) else Some (d, len, b, copy + 1)
     }"

text \<open>The cases of the name and of the comment differ in the flag, the fields and the next state.\<close>

definition inf_string :: "(u32 \<Rightarrow> u8 list \<Rightarrow> u32) \<Rightarrow> u8 \<Rightarrow> (gz_header \<Rightarrow> u8 list option) \<Rightarrow> (gz_header \<Rightarrow> nat)
    \<Rightarrow> (u8 list option \<Rightarrow> gz_header \<Rightarrow> gz_header) \<Rightarrow> (nx_inf \<Rightarrow> inf_result) \<Rightarrow> nx_inf \<Rightarrow> inf_result" where
  "inf_string crc flag dest mx set_dest k s =
     (if gzflags s AND flag \<noteq> 0 then
        if i_next_in s = [] then Leave Z_OK s
        else or_fault (copy_string (Option.bind (i_gzhead s) dest) (case i_gzhead s of None \<Rightarrow> 0 | Some h \<Rightarrow> mx h)
                         (inf_length s) (i_next_in s) 0 0)
          (\<lambda>(d, len, c, copy).
            let s = (upd_gzhead (set_dest d) s)\<lparr>inf_length := len\<rparr>;
                s = (if gzflags s AND 0x02 \<noteq> 0 then s\<lparr>cksum := crc (cksum s) (take copy (i_next_in s))\<rparr> else s);
                s = update_stream_in copy s
            in if c \<noteq> 0 then Leave Z_OK s else k s)
      else k (upd_gzhead (set_dest None) s))"

definition inf_name :: "(u32 \<Rightarrow> u8 list \<Rightarrow> u32) \<Rightarrow> nx_inf \<Rightarrow> inf_result" where
  "inf_name crc = inf_string crc 0x08 gz_name gz_name_max (\<lambda>d h. h\<lparr>gz_name := d\<rparr>)
     (\<lambda>s. go inf_state_gzip_comment (s\<lparr>inf_length := 0\<rparr>))"

definition inf_comment :: "(u32 \<Rightarrow> u8 list \<Rightarrow> u32) \<Rightarrow> nx_inf \<Rightarrow> inf_result" where
  "inf_comment crc = inf_string crc 0x10 gz_comment gz_comm_max (\<lambda>d h. h\<lparr>gz_comment := d\<rparr>)
     (\<lambda>s. go inf_state_gzip_hcrc (s\<lparr>inf_length := 0, inf_held := 0\<rparr>))"

definition inf_hcrc :: "(u32 \<Rightarrow> u8 list \<Rightarrow> u32) \<Rightarrow> nx_inf \<Rightarrow> inf_result" where
  "inf_hcrc crc s =
     (let k = (\<lambda>s. go inf_state_inflate (s\<lparr>inf_held := 0, i_crc32 := INIT_CRC, i_adler := INIT_CRC\<rparr>)) in
      if gzflags s AND 0x02 \<noteq> 0 then
        let checksum = cksum s in
        while_held crc (2 - inf_held s)
          (\<lambda>c s. s\<lparr>hcrc16 := hcrc16 s OR ucast (push_bit (inf_held s * 8) (ucast c :: u32))\<rparr>)
          (\<lambda>s. case i_gzhead s of
                 None \<Rightarrow> Fault
               | Some h \<Rightarrow>
                   let s = s\<lparr>i_gzhead := Some (h\<lparr>gz_hcrc := 1, gz_done := 1\<rparr>)\<rparr> in
                   if ucast (hcrc16 s) \<noteq> checksum AND 0xffff then data_error ''header crc mismatch'' s else k s)
          s
      else k (upd_gzhead (\<lambda>h. h\<lparr>gz_hcrc := 0, gz_done := 1\<rparr>) s))"

definition inf_zlib_id1 :: "(u32 \<Rightarrow> u8 list \<Rightarrow> u32) \<Rightarrow> nx_inf \<Rightarrow> inf_result" where
  "inf_zlib_id1 crc s =
     nx_inflate_get_byte crc (\<lambda>c s.
       if c AND 0x0f \<noteq> 0x08 then data_error ''unknown compression method'' s
       else if 8 \<le> drop_bit 4 c AND 0x0f then data_error ''invalid window size'' s
       else go inf_state_zlib_flg (s\<lparr>zlib_cmf := c\<rparr>)) s"

definition inf_zlib_flg :: "(u32 \<Rightarrow> u8 list \<Rightarrow> u32) \<Rightarrow> nx_inf \<Rightarrow> inf_result" where
  "inf_zlib_flg crc s =
     nx_inflate_get_byte crc (\<lambda>c s.
       if (unat (zlib_cmf s) * 256 + unat c) mod 31 \<noteq> 0 then data_error ''incorrect header check'' s
       else if bit c 5 then go inf_state_zlib_dictid (s\<lparr>i_dict_id := 0, i_dict_len := 0, inf_held := 0\<rparr>)
       else go inf_state_inflate (s\<lparr>i_adler := INIT_ADLER, i_adler32 := INIT_ADLER, inf_held := 0\<rparr>)) s"

definition inf_zlib_dictid :: "(u32 \<Rightarrow> u8 list \<Rightarrow> u32) \<Rightarrow> nx_inf \<Rightarrow> inf_result" where
  "inf_zlib_dictid crc s =
     while_held crc (4 - inf_held s)
       (\<lambda>c s. s\<lparr>i_dict_id := push_bit 8 (i_dict_id s) OR ucast c\<rparr>)
       (\<lambda>s. go inf_state_zlib_dict (s\<lparr>i_zadler := i_dict_id s, inf_held := 0, i_dict_len := 0\<rparr>))
       s"

definition inf_zlib_dict :: "nx_inf \<Rightarrow> inf_result" where
  "inf_zlib_dict s =
     (if i_dict_len s = 0 then NeedDict s
      else go inf_state_inflate (s\<lparr>i_adler := INIT_ADLER, i_adler32 := INIT_ADLER\<rparr>))"

text \<open>One round of the switch; the last three states go round again without changing anything.\<close>

definition inf_step :: "(u32 \<Rightarrow> u8 list \<Rightarrow> u32) \<Rightarrow> nx_inf \<Rightarrow> inf_result" where
  "inf_step crc s =
     (case inf_state s of
        inf_state_header \<Rightarrow> inf_header crc s
      | inf_state_gzip_id1 \<Rightarrow> expect_byte crc 0x1f ''incorrect gzip header'' inf_state_gzip_id2 s
      | inf_state_gzip_id2 \<Rightarrow> expect_byte crc 0x8b ''incorrect gzip header'' inf_state_gzip_cm s
      | inf_state_gzip_cm \<Rightarrow> expect_byte crc 0x08 ''unknown compression method'' inf_state_gzip_flg s
      | inf_state_gzip_flg \<Rightarrow> inf_flg crc s
      | inf_state_gzip_mtime \<Rightarrow> inf_mtime crc s
      | inf_state_gzip_xfl \<Rightarrow> inf_xfl crc s
      | inf_state_gzip_os \<Rightarrow> inf_os crc s
      | inf_state_gzip_xlen \<Rightarrow> inf_xlen crc s
      | inf_state_gzip_extra \<Rightarrow> inf_extra crc s
      | inf_state_gzip_name \<Rightarrow> inf_name crc s
      | inf_state_gzip_comment \<Rightarrow> inf_comment crc s
      | inf_state_gzip_hcrc \<Rightarrow> inf_hcrc crc s
      | inf_state_zlib_id1 \<Rightarrow> inf_zlib_id1 crc s
      | inf_state_zlib_flg \<Rightarrow> inf_zlib_flg crc s
      | inf_state_zlib_dictid \<Rightarrow> inf_zlib_dictid crc s
      | inf_state_zlib_dict \<Rightarrow> inf_zlib_dict s
      | inf_state_inflate \<Rightarrow> Body s
      | inf_state_data_error \<Rightarrow> Leave Z_DATA_ERROR s
      | _ \<Rightarrow> Again s)"

text \<open>The loop; \<open>None\<close> means that it does not end.\<close>

partial_function (option) inf_run :: "(u32 \<Rightarrow> u8 list \<Rightarrow> u32) \<Rightarrow> nx_inf \<Rightarrow> inf_result option" where
  "inf_run crc s = (case inf_step crc s of Again s' \<Rightarrow> inf_run crc s' | r \<Rightarrow> Some r)"

end
