(* ===== verification/Crc32.thy ===== *)
theory Crc32
  imports CrcTables
begin

text \<open>
  The CRC-32 of \<^verbatim>\<open>lib/nx_crc.c\<close> and \<^verbatim>\<open>lib/crc32_ppc.c\<close>: the table generator, the byte-wise and the
  word-wise loops for both byte orders, and the combination of two checksums with matrices over
  GF(2). The reference processes one bit at a time.
\<close>

section \<open>The reference\<close>

definition POLY :: u32 where "POLY = 0xedb88320"

text \<open>One step of the shift register, and the register after a byte.\<close>

definition crc_bit :: "u32 \<Rightarrow> u32" where
  "crc_bit c = (if c AND 1 \<noteq> 0 then POLY XOR drop_bit 1 c else drop_bit 1 c)"

definition crc_shift :: "nat \<Rightarrow> u32 \<Rightarrow> u32" where
  "crc_shift n c = (crc_bit ^^ n) c"

definition ref_byte :: "u8 \<Rightarrow> u32 \<Rightarrow> u32" where
  "ref_byte b c = crc_shift 8 (c XOR ucast b)"

definition crc_raw :: "u8 list \<Rightarrow> u32 \<Rightarrow> u32" where
  "crc_raw bs c = fold ref_byte bs c"

definition crc_ref :: "u8 list \<Rightarrow> u32 \<Rightarrow> u32" where
  "crc_ref bs c = NOT (crc_raw bs (NOT c))"

section \<open>The table generator\<close>

definition bswap_32 :: "u32 \<Rightarrow> u32" where
  "bswap_32 x = drop_bit 24 x OR (drop_bit 8 x AND push_bit 8 0xff)
     OR (push_bit 8 x AND push_bit 16 0xff) OR push_bit 24 x"

definition crc_poly_terms :: "nat list" where
  "crc_poly_terms = [0, 1, 2, 4, 5, 7, 8, 10, 11, 12, 16, 22, 23, 26]"

definition make_poly :: u32 where
  "make_poly = fold (\<lambda>p poly. poly OR push_bit (31 - p) 1) crc_poly_terms 0"

definition poly_bit :: "u32 \<Rightarrow> u32 \<Rightarrow> u32" where
  "poly_bit poly c = (if c AND 1 \<noteq> 0 then poly XOR drop_bit 1 c else drop_bit 1 c)"

definition make_crc_table :: "u32 list list" where
  "make_crc_table =
     (let t0 = map (\<lambda>n. (poly_bit make_poly ^^ 8) (word_of_nat n)) [0..<256];
          next_table = map (\<lambda>c. t0 ! unat (c AND 0xff) XOR drop_bit 8 c);
          t1 = next_table t0; t2 = next_table t1; t3 = next_table t2
      in [t0, t1, t2, t3, map bswap_32 t0, map bswap_32 t1, map bswap_32 t2, map bswap_32 t3])"

section \<open>The loops\<close>

definition tbl :: "nat \<Rightarrow> u32 \<Rightarrow> u32" where
  "tbl k i = crc_table ! k ! unat i"

text \<open>The byte-wise loop of \<^verbatim>\<open>generic_crc32\<close>, on an \<^verbatim>\<open>unsigned long\<close>.\<close>

definition DO1 :: "u8 \<Rightarrow> u64 \<Rightarrow> u64" where
  "DO1 b crc = ucast (tbl 0 ((ucast crc XOR ucast b) AND 0xff)) XOR drop_bit 8 crc"

definition crc32_bytewise :: "u64 \<Rightarrow> u8 list \<Rightarrow> u64" where
  "crc32_bytewise crc bs =
     (let (rest, crc) = unrolled 8 (fold DO1) bs (crc XOR 0xffffffff)
      in fold DO1 rest crc XOR 0xffffffff)"

text \<open>
  The bytes before the first aligned address; \<open>addr\<close> is the address of the first byte. The result
  is the rest of the buffer and the register.
\<close>

fun align_loop :: "nat \<Rightarrow> (u8 \<Rightarrow> 's \<Rightarrow> 's) \<Rightarrow> nat \<Rightarrow> u8 list \<Rightarrow> 's \<Rightarrow> u8 list \<times> 's" where
  "align_loop n f addr [] c = ([], c)"
| "align_loop n f addr (b # bs) c =
     (if addr mod n \<noteq> 0 then align_loop n f (addr + 1) bs (f b c) else (b # bs, c))"

definition byte_little :: "u8 \<Rightarrow> u32 \<Rightarrow> u32" where
  "byte_little b c = tbl 0 ((c XOR ucast b) AND 0xff) XOR drop_bit 8 c"

definition load_little :: "u8 list \<Rightarrow> u32" where
  "load_little bs = ucast (bs ! 0) OR push_bit 8 (ucast (bs ! 1)) OR push_bit 16 (ucast (bs ! 2))
     OR push_bit 24 (ucast (bs ! 3))"

definition DOLIT4 :: "u8 list \<Rightarrow> u32 \<Rightarrow> u32" where
  "DOLIT4 bs c =
     (let c = c XOR load_little bs
      in tbl 3 (c AND 0xff) XOR tbl 2 (drop_bit 8 c AND 0xff)
         XOR tbl 1 (drop_bit 16 c AND 0xff) XOR tbl 0 (drop_bit 24 c))"

definition DOLIT32 :: "u8 list \<Rightarrow> u32 \<Rightarrow> u32" where
  "DOLIT32 bs c = fold (\<lambda>k. DOLIT4 (take 4 (drop (4 * k) bs))) [0..<8] c"

definition crc32_little :: "u64 \<Rightarrow> nat \<Rightarrow> u8 list \<Rightarrow> u64" where
  "crc32_little crc addr buf =
     (let c = NOT (ucast crc);
          (buf, c) = align_loop 4 byte_little addr buf c;
          (buf, c) = unrolled 32 DOLIT32 buf c;
          (buf, c) = unrolled 4 DOLIT4 buf c
      in ucast (NOT (fold byte_little buf c)))"

definition byte_big :: "u8 \<Rightarrow> u32 \<Rightarrow> u32" where
  "byte_big b c = tbl 4 (drop_bit 24 c XOR ucast b) XOR push_bit 8 c"

definition load_big :: "u8 list \<Rightarrow> u32" where
  "load_big bs = ucast (bs ! 3) OR push_bit 8 (ucast (bs ! 2)) OR push_bit 16 (ucast (bs ! 1))
     OR push_bit 24 (ucast (bs ! 0))"

definition DOBIG4 :: "u8 list \<Rightarrow> u32 \<Rightarrow> u32" where
  "DOBIG4 bs c =
     (let c = c XOR load_big bs
      in tbl 4 (c AND 0xff) XOR tbl 5 (drop_bit 8 c AND 0xff)
         XOR tbl 6 (drop_bit 16 c AND 0xff) XOR tbl 7 (drop_bit 24 c))"

definition DOBIG32 :: "u8 list \<Rightarrow> u32 \<Rightarrow> u32" where
  "DOBIG32 bs c = fold (\<lambda>k. DOBIG4 (take 4 (drop (4 * k) bs))) [0..<8] c"

definition crc32_big :: "u64 \<Rightarrow> nat \<Rightarrow> u8 list \<Rightarrow> u64" where
  "crc32_big crc addr buf =
     (let c = NOT (bswap_32 (ucast crc));
          (buf, c) = align_loop 4 byte_big addr buf c;
          (buf, c) = unrolled 32 DOBIG32 buf c;
          (buf, c) = unrolled 4 DOBIG4 buf c
      in ucast (bswap_32 (NOT (fold byte_big buf c))))"

text \<open>
  \<^verbatim>\<open>generic_crc32\<close>. Whether \<^verbatim>\<open>BYFOUR\<close> is defined is an option of the build; with it, the order of the bytes in memory
  selects the loop.
\<close>

datatype crc_build = Bytewise | Byfour_Little | Byfour_Big

definition generic_crc32 :: "crc_build \<Rightarrow> u64 \<Rightarrow> nat \<Rightarrow> u8 list option \<Rightarrow> u64" where
  "generic_crc32 build crc addr buf =
     (case buf of
        None \<Rightarrow> 0
      | Some bs \<Rightarrow>
          (case build of
             Byfour_Little \<Rightarrow> crc32_little crc addr bs
           | Byfour_Big \<Rightarrow> crc32_big crc addr bs
           | Bytewise \<Rightarrow> crc32_bytewise crc bs))"

text \<open>
  \<^verbatim>\<open>crc32_ppc\<close>: the vector routine \<^verbatim>\<open>__crc32_vpmsum\<close> is the argument \<open>vpmsum\<close>; it gets the register, the address of its
  data and the data. \<open>crc32_align\<close> uses the table of \<^verbatim>\<open>crc32_ppc_constants.h\<close>.
\<close>

type_synonym vector_crc = "u32 \<Rightarrow> nat \<Rightarrow> u8 list \<Rightarrow> u32"

definition crc32_align :: "u32 \<Rightarrow> u8 list \<Rightarrow> u32" where
  "crc32_align crc p = fold (\<lambda>b crc. ppc_crc_table ! unat ((crc XOR ucast b) AND 0xff) XOR drop_bit 8 crc) p crc"

definition crc32_ppc :: "vector_crc \<Rightarrow> u32 \<Rightarrow> nat \<Rightarrow> u8 list option \<Rightarrow> u32" where
  "crc32_ppc vpmsum crc addr buf =
     (case buf of
        None \<Rightarrow> 0
      | Some p \<Rightarrow>
          (let crc = crc XOR 0xffffffff in
           if length p < 16 + 15 then crc32_align crc p XOR 0xffffffff
           else
             (let prealign = (if addr mod 16 \<noteq> 0 then 16 - addr mod 16 else 0);
                  crc = (if addr mod 16 \<noteq> 0 then crc32_align crc (take prealign p) else crc);
                  p = drop prealign p;
                  addr = addr + prealign;
                  body = length p div 16 * 16;
                  crc = vpmsum crc addr (take body p);
                  crc = (if length p mod 16 \<noteq> 0 then crc32_align crc (drop body p) else crc)
              in crc XOR 0xffffffff)))"

definition nx_crc32 :: "crc_build \<Rightarrow> vector_crc \<Rightarrow> u64 \<Rightarrow> nat \<Rightarrow> u8 list option \<Rightarrow> u64" where
  "nx_crc32 build vpmsum crc addr buf =
     (if (case buf of None \<Rightarrow> True | Some bs \<Rightarrow> length bs < 32) then generic_crc32 build crc addr buf
      else ucast (crc32_ppc vpmsum (ucast crc) addr buf))"

section \<open>Combination\<close>

definition GF2_DIM :: nat where "GF2_DIM = 32"

text \<open>\<open>None\<close> is a read after the end of the matrix.\<close>

function gf2_times :: "u64 list \<Rightarrow> u64 \<Rightarrow> u64 \<Rightarrow> u64 option" where
  "gf2_times mat vec acc =
     (if vec = 0 then Some acc
      else case mat of
        [] \<Rightarrow> None
      | m # ms \<Rightarrow> gf2_times ms (drop_bit 1 vec) (if vec AND 1 \<noteq> 0 then acc XOR m else acc))"
  by pat_completeness auto
termination by (relation "measure (\<lambda>(mat, vec, acc). length mat)") auto

declare gf2_times.simps [simp del]

definition gf2_matrix_times :: "u64 list \<Rightarrow> u64 \<Rightarrow> u64 option" where
  "gf2_matrix_times mat vec = gf2_times mat vec 0"

definition gf2_matrix_square :: "u64 list \<Rightarrow> u64 list option" where
  "gf2_matrix_square mat =
     for_each (\<lambda>n square. Option.bind (gf2_matrix_times mat (mat ! n)) (\<lambda>v. Some (square @ [v]))) [0..<GF2_DIM] []"

text \<open>The loop over the bits of the length, with \<^verbatim>\<open>odd\<close> at its head.\<close>

function combine_loop :: "u64 list \<Rightarrow> u64 \<Rightarrow> nat \<Rightarrow> u64 option" where
  "combine_loop od crc1 len2 =
     Option.bind (gf2_matrix_square od) (\<lambda>ev.
     Option.bind (if len2 mod 2 = 1 then gf2_matrix_times ev crc1 else Some crc1) (\<lambda>crc1.
     if len2 div 2 = 0 then Some crc1
     else Option.bind (gf2_matrix_square ev) (\<lambda>od.
          Option.bind (if len2 div 2 mod 2 = 1 then gf2_matrix_times od crc1 else Some crc1) (\<lambda>crc1.
          if len2 div 2 div 2 = 0 then Some crc1 else combine_loop od crc1 (len2 div 2 div 2)))))"
  by pat_completeness auto
termination by (relation "measure (\<lambda>(od, crc1, len2). len2)") auto

declare combine_loop.simps [simp del]

definition crc32_combine_impl :: "u64 \<Rightarrow> u64 \<Rightarrow> int \<Rightarrow> u64 option" where
  "crc32_combine_impl crc1 crc2 len2 =
     (if len2 \<le> 0 then Some crc1
      else let od = 0xedb88320 # map (\<lambda>n. push_bit (n - 1) 1) [1..<GF2_DIM]
           in Option.bind (gf2_matrix_square od) (\<lambda>ev.
              Option.bind (gf2_matrix_square ev) (\<lambda>od.
              Option.bind (combine_loop od crc1 (nat len2)) (\<lambda>crc1. Some (crc1 XOR crc2)))))"

definition nx_crc32_combine :: "u64 \<Rightarrow> u64 \<Rightarrow> int \<Rightarrow> u64 option" where
  "nx_crc32_combine crc1 crc2 len2 = crc32_combine_impl crc1 crc2 len2"

end
