(* ===== verification/Crc32Correct.thy ===== *)
theory Crc32Correct
  imports Crc32
begin

text \<open>
  Correctness of the CRC-32 routines: the shipped tables are the generated ones, every loop
  computes the bit-by-bit reference, and the GF(2) matrices append zero bytes.
\<close>

section \<open>The shift register is linear\<close>

lemma and_one_bit: "c AND 1 \<noteq> 0 \<longleftrightarrow> bit (c :: 'a::len word) 0"
  by (simp add: and_one_eq bit_0 odd_iff_mod_2_eq_one)

lemma crc_bit_eq: "crc_bit c = (if bit c 0 then POLY else 0) XOR drop_bit 1 c"
  by (simp add: crc_bit_def and_one_bit)

lemma crc_bit_xor: "crc_bit (x XOR y) = crc_bit x XOR crc_bit y"
  unfolding crc_bit_eq by (rule bit_eqI) (auto simp: bit_simps)

lemma crc_shift_0 [simp]: "crc_shift 0 c = c"
  by (simp add: crc_shift_def)

lemma crc_shift_Suc: "crc_shift (Suc n) c = crc_shift n (crc_bit c)"
  by (simp add: crc_shift_def funpow_swap1)

lemma crc_shift_add: "crc_shift (m + n) c = crc_shift m (crc_shift n c)"
  by (simp add: crc_shift_def funpow_add)

lemma crc_shift_xor: "crc_shift n (x XOR y) = crc_shift n x XOR crc_shift n y"
  by (induction n arbitrary: x y) (simp_all add: crc_shift_Suc crc_bit_xor)

lemma crc_shift_zero [simp]: "crc_shift n 0 = 0"
  using crc_shift_xor [of n 0 0] by simp

lemma crc_shift_drop: "take_bit n c = 0 \<Longrightarrow> crc_shift n c = drop_bit n c"
proof (induction n arbitrary: c)
  case (Suc n)
  have low: "\<not> bit c k" if "k < Suc n" for k
    using Suc.prems that by (metis bit_take_bit_iff bit_0_eq bot_apply bot_bool_def)
  then have "crc_bit c = drop_bit 1 c" by (simp add: crc_bit_eq)
  moreover have "take_bit n (drop_bit 1 c) = 0"
    by (rule bit_eqI) (auto simp: bit_simps low)
  ultimately show ?case using Suc.IH [of "drop_bit 1 c"] by (simp add: crc_shift_Suc)
qed simp

text \<open>The low \<open>n\<close> bits go through the register, the others are only shifted.\<close>

lemma crc_shift_split: "crc_shift n c = crc_shift n (take_bit n c) XOR drop_bit n c"
proof -
  define h where "h = c XOR take_bit n c"
  have "take_bit n h = 0" "drop_bit n h = drop_bit n c"
    by (rule bit_eqI; auto simp: h_def bit_simps)+
  then have "crc_shift n h = drop_bit n c" using crc_shift_drop by metis
  moreover have "c = take_bit n c XOR h" by (rule bit_eqI) (auto simp: h_def bit_simps)
  ultimately show ?thesis using crc_shift_xor [of n "take_bit n c" h] by simp
qed

section \<open>Byte order\<close>

lemma ff_mask: "(0xff :: u32) = mask 8" "(0xff :: u64) = mask 8"
  by (simp_all add: mask_eq_exp_minus_1)

lemma and_ff: "(x :: u32) AND 0xff = take_bit 8 x"
  by (simp add: ff_mask take_bit_eq_mask)

lemma bit_bswap:
  "bit (bswap_32 x) i \<longleftrightarrow> (i < 8 \<and> bit x (24 + i)) \<or> (8 \<le> i \<and> i < 16 \<and> bit x (8 + i))
     \<or> (16 \<le> i \<and> i < 24 \<and> bit x (i - 8)) \<or> (24 \<le> i \<and> i < 32 \<and> bit x (i - 24))"
  unfolding bswap_32_def ff_mask by (auto simp: bit_simps dest: bit_imp_le_length)

definition swapped :: "nat \<Rightarrow> nat" where
  "swapped i = (if i < 8 then 24 + i else if i < 16 then 8 + i else if i < 24 then i - 8 else i - 24)"

lemma bit_bswap_swapped: "bit (bswap_32 x) i \<longleftrightarrow> i < 32 \<and> bit x (swapped i)"
  unfolding bit_bswap swapped_def by auto

lemma swapped_less: "i < 32 \<Longrightarrow> swapped i < 32"
  by (auto simp: swapped_def)

lemma bswap_xor: "bswap_32 (x XOR y) = bswap_32 x XOR bswap_32 y"
  by (rule bit_eqI) (auto simp: bit_bswap_swapped bit_xor_iff)

lemma bswap_not: "bswap_32 (NOT x) = NOT (bswap_32 x)"
proof (rule bit_eqI)
  fix i assume "possible_bit TYPE(u32) i"
  then have i: "i < 32" by simp
  have "bit (NOT x) (swapped i) \<longleftrightarrow> \<not> bit x (swapped i)" for x :: u32
    using swapped_less [OF i] by (simp add: bit_not_iff)
  moreover have "bit (NOT y) i \<longleftrightarrow> \<not> bit y i" for y :: u32
    using i by (simp add: bit_not_iff)
  ultimately show "bit (bswap_32 (NOT x)) i = bit (NOT (bswap_32 x)) i"
    using i by (simp only: bit_bswap_swapped simp_thms)
qed

lemma swapped_swapped: "i < 32 \<Longrightarrow> swapped (swapped i) = i"
  by (auto simp: swapped_def)

lemma bswap_bswap: "bswap_32 (bswap_32 x) = x"
  by (rule bit_eqI) (simp add: bit_bswap_swapped swapped_swapped swapped_less)

lemma bswap_bytes:
  "drop_bit 24 (bswap_32 x) = take_bit 8 x" "push_bit 8 (bswap_32 x) = bswap_32 (drop_bit 8 x)"
  "take_bit 8 (bswap_32 x) = drop_bit 24 x"
  "take_bit 8 (drop_bit 8 (bswap_32 x)) = take_bit 8 (drop_bit 16 x)"
  "take_bit 8 (drop_bit 16 (bswap_32 x)) = take_bit 8 (drop_bit 8 x)"
  by (rule bit_eqI; auto simp: bit_bswap_swapped swapped_def bit_simps dest: bit_imp_le_length)+

section \<open>The tables\<close>

text \<open>The table of a linear function from its values at the powers of two, highest first.\<close>

fun xor_table :: "u32 list \<Rightarrow> u32 list" where
  "xor_table [] = [0]"
| "xor_table (b # bs) = (let t = xor_table bs in t @ map (\<lambda>x. b XOR x) t)"

definition powers :: "nat \<Rightarrow> u32 list" where
  "powers m = map (\<lambda>i. 2 ^ i) (rev [0..<m])"

lemma length_xor_table: "length (xor_table bs) = 2 ^ length bs"
  by (induction bs) (simp_all add: Let_def)

lemma xor_pow:
  assumes "m < 32" "k < 2 ^ m"
  shows "(2 ^ m :: u32) XOR word_of_nat k = word_of_nat (2 ^ m + k)"
proof -
  have "(2 ^ m :: u32) AND word_of_nat k = 0"
    using word_of_nat_high_bits [OF assms(2), where 'a = 32] by (intro bit_eqI) (auto simp: bit_simps)
  then show ?thesis by (simp add: disjunctive_add_eq_xor)
qed

lemma xor_table_nth:
  assumes lin: "\<And>x y. f (x XOR y) = f x XOR f y"
  shows "m \<le> 32 \<Longrightarrow> n < 2 ^ m \<Longrightarrow> xor_table (map f (powers m)) ! n = f (word_of_nat n)"
proof (induction m arbitrary: n)
  case 0
  then show ?case using lin [of 0 0] by (simp add: powers_def)
next
  case (Suc m)
  have p: "powers (Suc m) = 2 ^ m # powers m" by (simp add: powers_def)
  have len: "length (xor_table (map f (powers m))) = 2 ^ m" by (simp add: length_xor_table powers_def)
  show ?case
  proof (cases "n < 2 ^ m")
    case True
    then show ?thesis using Suc by (simp add: p Let_def nth_append len)
  next
    case False
    then have k: "n - 2 ^ m < 2 ^ m" "2 ^ m + (n - 2 ^ m) = n" using Suc.prems(2) by auto
    have "xor_table (map f (powers (Suc m))) ! n = f (2 ^ m) XOR f (word_of_nat (n - 2 ^ m))"
      using False k Suc by (simp add: p Let_def nth_append len)
    also have "\<dots> = f (word_of_nat n)"
      using xor_pow [of m "n - 2 ^ m"] k Suc.prems(1) by (simp flip: lin)
    finally show ?thesis .
  qed
qed

lemma crc_table0_xor: "crc_table0 = xor_table [0xedb88320, 0x76dc4190, 0x3b6e20c8, 0x1db71064, 0x0edb8832, 0x076dc419, 0xee0e612c, 0x77073096]"
  by (simp add: crc_table0_def)

lemma crc_table1_xor: "crc_table1 = xor_table [0x3b83984b, 0xf0794f05, 0x958424a2, 0x4ac21251, 0xc8d98a08, 0x646cc504, 0x32366282, 0x191b3141]"
  by (simp add: crc_table1_def)

lemma crc_table2_xor: "crc_table2 = xor_table [0xe1351b80, 0x709a8dc0, 0x384d46e0, 0x1c26a370, 0x0e1351b8, 0x0709a8dc, 0x0384d46e, 0x01c26a37]"
  by (simp add: crc_table2_def)

lemma crc_table3_xor: "crc_table3 = xor_table [0xed59b63b, 0x9b14583d, 0xa032af3e, 0x5019579f, 0xc5b428ef, 0x8f629757, 0xaa09c88b, 0xb8bc6765]"
  by (simp add: crc_table3_def)

lemma crc_table4_xor: "crc_table4 = xor_table [0x2083b8ed, 0x9041dc76, 0xc8206e3b, 0x6410b71d, 0x3288db0e, 0x19c46d07, 0x2c610eee, 0x96300777]"
  by (simp add: crc_table4_def)

lemma crc_table5_xor: "crc_table5 = xor_table [0x4b98833b, 0x054f79f0, 0xa2248495, 0x5112c24a, 0x088ad9c8, 0x04c56c64, 0x82623632, 0x41311b19]"
  by (simp add: crc_table5_def)

lemma crc_table6_xor: "crc_table6 = xor_table [0x801b35e1, 0xc08d9a70, 0xe0464d38, 0x70a3261c, 0xb851130e, 0xdca80907, 0x6ed48403, 0x376ac201]"
  by (simp add: crc_table6_def)

lemma crc_table7_xor: "crc_table7 = xor_table [0x3bb659ed, 0x3d58149b, 0x3eaf32a0, 0x9f571950, 0xef28b4c5, 0x5797628f, 0x8bc809aa, 0x6567bcb8]"
  by (simp add: crc_table7_def)

lemma crc_bit_pow: "crc_bit c = (if bit c 0 then 0xedb88320 XOR drop_bit 1 c else drop_bit 1 c)"
  by (simp add: crc_bit_def and_one_bit POLY_def)

text \<open>The powers of two of the first table, shifted bit by bit.\<close>

lemma powers_8: "powers 8 = [0x80, 0x40, 0x20, 0x10, 8, 4, 2, 1]"
  by (simp add: powers_def upt_rec)

lemma crc_shift_numeral: "crc_shift (numeral n) c = crc_shift (pred_numeral n) (crc_bit c)"
  by (simp add: numeral_eq_Suc crc_shift_Suc)

lemma table0_powers:
  "map (crc_shift 8) (powers 8) = [0xedb88320, 0x76dc4190, 0x3b6e20c8, 0x1db71064, 0x0edb8832, 0x076dc419, 0xee0e612c, 0x77073096]"
  by (simp add: powers_8 crc_shift_numeral crc_shift_Suc crc_bit_pow bit_0)

lemma crc_shift_8_8: "map (crc_shift (n + 8)) xs = map (crc_shift 8) (map (crc_shift n) xs)"
  by (simp add: crc_shift_add [of 8 n, unfolded add.commute [of 8 n]])

lemma table1_powers:
  "map (crc_shift 16) (powers 8) = [0x3b83984b, 0xf0794f05, 0x958424a2, 0x4ac21251, 0xc8d98a08, 0x646cc504, 0x32366282, 0x191b3141]"
  using crc_shift_8_8 [of 8 "powers 8"] unfolding table0_powers
  by (simp add: crc_shift_numeral crc_shift_Suc crc_bit_pow bit_0)

lemma table2_powers:
  "map (crc_shift 24) (powers 8) = [0xe1351b80, 0x709a8dc0, 0x384d46e0, 0x1c26a370, 0x0e1351b8, 0x0709a8dc, 0x0384d46e, 0x01c26a37]"
  using crc_shift_8_8 [of 16 "powers 8"] unfolding table1_powers
  by (simp add: crc_shift_numeral crc_shift_Suc crc_bit_pow bit_0)

lemma table3_powers:
  "map (crc_shift 32) (powers 8) = [0xed59b63b, 0x9b14583d, 0xa032af3e, 0x5019579f, 0xc5b428ef, 0x8f629757, 0xaa09c88b, 0xb8bc6765]"
  using crc_shift_8_8 [of 24 "powers 8"] unfolding table2_powers
  by (simp add: crc_shift_numeral crc_shift_Suc crc_bit_pow bit_0)

lemma table4_powers:
  "map (\<lambda>c. bswap_32 (crc_shift 8 c)) (powers 8) = [0x2083b8ed, 0x9041dc76, 0xc8206e3b, 0x6410b71d, 0x3288db0e, 0x19c46d07, 0x2c610eee, 0x96300777]"
  unfolding map_map [symmetric, unfolded comp_def] table0_powers
  by (simp add: bswap_32_def)

lemma table5_powers:
  "map (\<lambda>c. bswap_32 (crc_shift 16 c)) (powers 8) = [0x4b98833b, 0x054f79f0, 0xa2248495, 0x5112c24a, 0x088ad9c8, 0x04c56c64, 0x82623632, 0x41311b19]"
  unfolding map_map [symmetric, unfolded comp_def] table1_powers
  by (simp add: bswap_32_def)

lemma table6_powers:
  "map (\<lambda>c. bswap_32 (crc_shift 24 c)) (powers 8) = [0x801b35e1, 0xc08d9a70, 0xe0464d38, 0x70a3261c, 0xb851130e, 0xdca80907, 0x6ed48403, 0x376ac201]"
  unfolding map_map [symmetric, unfolded comp_def] table2_powers
  by (simp add: bswap_32_def)

lemma table7_powers:
  "map (\<lambda>c. bswap_32 (crc_shift 32 c)) (powers 8) = [0x3bb659ed, 0x3d58149b, 0x3eaf32a0, 0x9f571950, 0xef28b4c5, 0x5797628f, 0x8bc809aa, 0x6567bcb8]"
  unfolding map_map [symmetric, unfolded comp_def] table3_powers
  by (simp add: bswap_32_def)

text \<open>What the shipped tables hold.\<close>

lemma crc_shift_table:
  assumes "t = xor_table (map f (powers 8))" "\<And>x y. f (x XOR y) = f x XOR f y"
  shows "length t = 256 \<and> (\<forall>n < 256. t ! n = f (word_of_nat n))"
  using assms xor_table_nth [of f 8] by (simp add: length_xor_table powers_def)

lemma tables_low:
  "length crc_table0 = 256 \<and> (\<forall>n < 256. crc_table0 ! n = crc_shift 8 (word_of_nat n))"
  "length crc_table1 = 256 \<and> (\<forall>n < 256. crc_table1 ! n = crc_shift 16 (word_of_nat n))"
  "length crc_table2 = 256 \<and> (\<forall>n < 256. crc_table2 ! n = crc_shift 24 (word_of_nat n))"
  "length crc_table3 = 256 \<and> (\<forall>n < 256. crc_table3 ! n = crc_shift 32 (word_of_nat n))"
  by (intro crc_shift_table crc_shift_xor;
      simp only: table0_powers table1_powers table2_powers table3_powers
        crc_table0_xor crc_table1_xor crc_table2_xor crc_table3_xor)+

lemma bswap_shift_xor:
  "bswap_32 (crc_shift n (x XOR y)) = bswap_32 (crc_shift n x) XOR bswap_32 (crc_shift n y)"
  by (simp add: crc_shift_xor bswap_xor)

lemma tables_high:
  "length crc_table4 = 256 \<and> (\<forall>n < 256. crc_table4 ! n = bswap_32 (crc_shift 8 (word_of_nat n)))"
  "length crc_table5 = 256 \<and> (\<forall>n < 256. crc_table5 ! n = bswap_32 (crc_shift 16 (word_of_nat n)))"
  "length crc_table6 = 256 \<and> (\<forall>n < 256. crc_table6 ! n = bswap_32 (crc_shift 24 (word_of_nat n)))"
  "length crc_table7 = 256 \<and> (\<forall>n < 256. crc_table7 ! n = bswap_32 (crc_shift 32 (word_of_nat n)))"
  by (rule crc_shift_table [OF crc_table4_xor [folded table4_powers] bswap_shift_xor]
      crc_shift_table [OF crc_table5_xor [folded table5_powers] bswap_shift_xor]
      crc_shift_table [OF crc_table6_xor [folded table6_powers] bswap_shift_xor]
      crc_shift_table [OF crc_table7_xor [folded table7_powers] bswap_shift_xor])+

lemma tbl_low:
  assumes "i < 256"
  shows "tbl 0 i = crc_shift 8 i" "tbl 1 i = crc_shift 16 i" "tbl 2 i = crc_shift 24 i" "tbl 3 i = crc_shift 32 i"
    "tbl 4 i = bswap_32 (crc_shift 8 i)" "tbl 5 i = bswap_32 (crc_shift 16 i)"
    "tbl 6 i = bswap_32 (crc_shift 24 i)" "tbl 7 i = bswap_32 (crc_shift 32 i)"
proof -
  have "unat i < 256" using assms by (simp add: word_less_nat_alt)
  then show "tbl 0 i = crc_shift 8 i" "tbl 1 i = crc_shift 16 i" "tbl 2 i = crc_shift 24 i" "tbl 3 i = crc_shift 32 i"
    "tbl 4 i = bswap_32 (crc_shift 8 i)" "tbl 5 i = bswap_32 (crc_shift 16 i)"
    "tbl 6 i = bswap_32 (crc_shift 24 i)" "tbl 7 i = bswap_32 (crc_shift 32 i)"
    using tables_low tables_high by (simp_all add: tbl_def crc_table_def)
qed

lemma byte_less: "take_bit 8 (x :: u32) < 256" "drop_bit 24 (x :: u32) < 256"
proof -
  show "take_bit 8 x < 256"
    using take_bit_nat_less_exp [of 8 "unat x"] by (simp only: word_less_nat_alt unsigned_take_bit_eq) simp
  have "unat x div 2 ^ 24 < 256" using unsigned_less [of x, where 'a = nat] by simp
  then show "drop_bit 24 x < 256"
    using take_bit_nat_eq_self [of "unat x" 32] unsigned_less [of x, where 'a = nat]
    by (simp only: word_less_nat_alt unsigned_drop_bit_eq) (simp add: drop_bit_eq_div)
qed

section \<open>One byte\<close>

lemma take_8_ucast: "take_bit 8 (ucast (b :: u8) :: u32) = ucast b" "drop_bit 8 (ucast b :: u32) = 0"
  by (rule bit_eqI; auto simp: bit_simps dest: bit_imp_le_length)+

lemma shift8_table: "crc_shift 8 x = tbl 0 (take_bit 8 x) XOR drop_bit 8 x"
  using crc_shift_split [of 8 x] by (simp add: tbl_low(1) byte_less)

lemma ref_byte_table: "ref_byte b c = tbl 0 (take_bit 8 (c XOR ucast b)) XOR drop_bit 8 c"
proof -
  have "drop_bit 8 (c XOR ucast b) = drop_bit 8 c"
    by (rule bit_eqI) (auto simp: bit_simps dest: bit_imp_le_length)
  then show ?thesis unfolding ref_byte_def shift8_table [of "c XOR ucast b"] by (simp only:)
qed

lemma byte_little_ref: "byte_little b c = ref_byte b c"
  by (simp add: byte_little_def ref_byte_table and_ff)

lemma crc32_align_ref: "crc32_align c p = crc_raw p c"
  unfolding crc32_align_def crc_raw_def and_ff
  by (intro arg_cong [where f = "\<lambda>f. fold f p c"] ext) (simp add: ref_byte_table ppc_crc_table tbl_def crc_table_def)

lemma byte_big_ref: "byte_big b (bswap_32 c) = bswap_32 (ref_byte b c)"
proof -
  have "take_bit 8 c XOR ucast b = take_bit 8 (c XOR ucast b)"
    by (rule bit_eqI) (auto simp: bit_simps dest: bit_imp_le_length)
  then have "tbl 4 (take_bit 8 c XOR ucast b) = bswap_32 (tbl 0 (take_bit 8 (c XOR ucast b)))"
    by (simp only: tbl_low byte_less)
  then show ?thesis
    unfolding byte_big_def ref_byte_table bswap_bytes bswap_xor by (simp only:)
qed

lemma DO1_ref: "DO1 b (ucast c) = ucast (ref_byte b c)"
proof -
  have "ucast (ucast c :: u64) = c" by (rule bit_eqI) (auto simp: bit_simps)
  then have "(ucast (ucast c :: u64) XOR ucast b) AND 0xff = take_bit 8 (c XOR ucast b)"
    by (simp only: and_ff)
  moreover have "(ucast (x XOR y) :: u64) = ucast x XOR ucast (y :: u32)" for x y
    by (rule bit_eqI) (auto simp: bit_simps)
  moreover have "(ucast (drop_bit 8 c) :: u64) = drop_bit 8 (ucast c)"
    by (rule bit_eqI) (auto simp: bit_simps dest: bit_imp_le_length)
  ultimately show ?thesis unfolding DO1_def ref_byte_table by (simp only:)
qed

section \<open>Four bytes\<close>

lemma shift_word:
  "crc_shift 32 y = crc_shift 32 (take_bit 8 y) XOR crc_shift 24 (take_bit 8 (drop_bit 8 y))
     XOR crc_shift 16 (take_bit 8 (drop_bit 16 y)) XOR crc_shift 8 (drop_bit 24 y)"
proof -
  have step: "crc_shift (n + 8) z = crc_shift (n + 8) (take_bit 8 z) XOR crc_shift n (drop_bit 8 z)" for n z
    using crc_shift_split [of 8 z] by (simp add: crc_shift_add crc_shift_xor)
  have last: "take_bit 8 (drop_bit 24 y) = drop_bit 24 y"
    by (rule bit_eqI) (auto simp: bit_simps dest: bit_imp_le_length)
  have "crc_shift 8 (drop_bit 24 y) = crc_shift 8 (take_bit 8 (drop_bit 24 y))" by (simp only: last)
  then show ?thesis
    using step [of 24 y] step [of 16 "drop_bit 8 y"] step [of 8 "drop_bit 16 y"] step [of 0 "drop_bit 24 y"]
    by (simp add: xor.assoc)
qed

lemma shift_byte: "crc_shift 8 x XOR ucast b = crc_shift 8 (x XOR push_bit 8 (ucast (b :: u8)))"
proof -
  have "take_bit 8 (push_bit 8 (ucast b :: u32)) = 0" by (rule bit_eqI) (auto simp: bit_simps)
  moreover have "drop_bit 8 (push_bit 8 (ucast b :: u32)) = ucast b"
    by (rule bit_eqI) (auto simp: bit_simps dest: bit_imp_le_length)
  ultimately have "crc_shift 8 (push_bit 8 (ucast b)) = ucast b" using crc_shift_drop by metis
  then show ?thesis by (simp add: crc_shift_xor)
qed

lemma shift_byte_more:
  assumes "n \<le> 24" "n = 8 * k"
  shows "crc_shift n x XOR ucast b = crc_shift n (x XOR push_bit n (ucast (b :: u8)))"
proof -
  have "take_bit n (push_bit n (ucast b :: u32)) = 0" by (rule bit_eqI) (auto simp: bit_simps)
  moreover have "drop_bit n (push_bit n (ucast b :: u32)) = ucast b"
    using assms by (intro bit_eqI) (auto simp: bit_simps dest: bit_imp_le_length)
  ultimately have "crc_shift n (push_bit n (ucast b)) = ucast b" using crc_shift_drop by metis
  then show ?thesis by (simp add: crc_shift_xor)
qed

lemma four_bytes:
  "crc_raw [b0, b1, b2, b3] c = crc_shift 32 (c XOR load_little [b0, b1, b2, b3])"
proof -
  have "load_little [b0, b1, b2, b3]
    = ucast b0 XOR push_bit 8 (ucast b1) XOR push_bit 16 (ucast b2) XOR push_bit 24 (ucast b3)"
    by (rule bit_eqI) (auto simp: load_little_def bit_simps dest: bit_imp_le_length)
  moreover have "crc_raw [b0, b1, b2, b3] c
    = crc_shift 8 (crc_shift 8 (crc_shift 8 (crc_shift 8 (c XOR ucast b0) XOR ucast b1) XOR ucast b2) XOR ucast b3)"
    by (simp add: crc_raw_def ref_byte_def)
  moreover have "\<dots> = crc_shift 32 ((((c XOR ucast b0) XOR push_bit 8 (ucast b1)) XOR push_bit 16 (ucast b2)) XOR push_bit 24 (ucast b3))"
  proof -
    have more: "crc_shift 8 (crc_shift 8 x) = crc_shift 16 x" "crc_shift 8 (crc_shift 16 x) = crc_shift 24 x"
      "crc_shift 8 (crc_shift 24 x) = crc_shift 32 x" for x
      using crc_shift_add [of 8 8 x] crc_shift_add [of 8 16 x] crc_shift_add [of 8 24 x] by simp_all
    have "crc_shift 8 x XOR ucast b = crc_shift 8 (x XOR push_bit 8 (ucast b))"
      "crc_shift 16 x XOR ucast b = crc_shift 16 (x XOR push_bit 16 (ucast b))"
      "crc_shift 24 x XOR ucast b = crc_shift 24 (x XOR push_bit 24 (ucast b))" for x and b :: u8
      by (rule shift_byte_more [of _ 1] shift_byte_more [of _ 2] shift_byte_more [of _ 3]; simp)+
    then show ?thesis by (simp only: more)
  qed
  ultimately show ?thesis by (simp add: xor.assoc)
qed

lemma list_of_4: "length bs = 4 \<Longrightarrow> bs = [bs ! 0, bs ! 1, bs ! 2, bs ! 3]"
  by (rule nth_equalityI) (auto simp: less_Suc_eq numeral_eq_Suc)

lemma DOLIT4_ref:
  assumes "length bs = 4"
  shows "DOLIT4 bs c = fold ref_byte bs c"
proof -
  have "DOLIT4 bs c = crc_shift 32 (c XOR load_little bs)"
    unfolding DOLIT4_def Let_def and_ff shift_word [of "c XOR load_little bs"]
    by (simp only: tbl_low byte_less)
  then show ?thesis using four_bytes list_of_4 [OF assms] by (metis crc_raw_def)
qed

lemma load_big_swap: "load_big bs = bswap_32 (load_little bs)"
proof (rule bit_eqI)
  fix i assume "possible_bit TYPE(u32) i"
  then have "i < 32" by simp
  then consider "i < 8" | "8 \<le> i" "i < 16" | "16 \<le> i" "i < 24" | "24 \<le> i" "i < 32" by linarith
  then show "bit (load_big bs) i = bit (bswap_32 (load_little bs)) i"
    by cases (auto simp: bit_bswap_swapped swapped_def load_big_def load_little_def bit_simps dest: bit_imp_le_length)
qed

lemma DOBIG4_ref:
  assumes "length bs = 4"
  shows "DOBIG4 bs (bswap_32 c) = bswap_32 (fold ref_byte bs c)"
proof -
  let ?y = "c XOR load_little bs"
  have swap: "bswap_32 c XOR load_big bs = bswap_32 ?y"
    by (simp only: load_big_swap bswap_xor)
  have "DOBIG4 bs (bswap_32 c) = bswap_32 (crc_shift 8 (drop_bit 24 ?y)) XOR bswap_32 (crc_shift 16 (take_bit 8 (drop_bit 16 ?y)))
      XOR bswap_32 (crc_shift 24 (take_bit 8 (drop_bit 8 ?y))) XOR bswap_32 (crc_shift 32 (take_bit 8 ?y))"
    unfolding DOBIG4_def Let_def and_ff swap bswap_bytes by (simp only: tbl_low byte_less)
  also have "\<dots> = bswap_32 (crc_shift 32 ?y)"
    unfolding shift_word [of ?y] bswap_xor by (simp only: xor.assoc xor.commute xor.left_commute)
  finally show ?thesis using four_bytes list_of_4 [OF assms] by (metis crc_raw_def)
qed

lemma eight_rounds:
  assumes len: "length bs = 32" and body: "\<And>bs c. length bs = 4 \<Longrightarrow> body bs (g c) = g (fold ref_byte bs c)"
  shows "fold (\<lambda>k. body (take 4 (drop (4 * k) bs))) [0..<8] (g c) = g (fold ref_byte bs c)"
proof -
  have "fold (\<lambda>k. body (take 4 (drop (4 * k) bs))) [0..<n] (g c) = g (fold ref_byte (take (4 * n) bs) c)"
    if "n \<le> 8" for n
    using that
  proof (induction n)
    case (Suc n)
    have "take (4 * Suc n) bs = take (4 * n) bs @ take 4 (drop (4 * n) bs)"
      using take_add [of "4 * n" 4 bs] by (simp add: add.commute)
    moreover have "length (take 4 (drop (4 * n) bs)) = 4" using len Suc.prems by simp
    ultimately show ?case using Suc body by simp
  qed simp
  from this [of 8] show ?thesis using len by simp
qed

section \<open>The loops\<close>

text \<open>
  A loop over an unrolled body, seen through an encoding \<open>g\<close> of the register.
\<close>

lemma unrolled_encoded:
  assumes "\<And>bs c. length bs = n \<Longrightarrow> body bs (g c) = g (fold ref_byte bs c)"
  shows "\<exists>rest c'. unrolled n body buf (g c) = (rest, g c') \<and> fold ref_byte rest c' = fold ref_byte buf c"
proof (induction "length buf" arbitrary: buf c rule: less_induct)
  case less
  show ?case
  proof (cases "0 < n \<and> n \<le> length buf")
    case True
    have "unrolled n body buf (g c) = unrolled n body (drop n buf) (g (fold ref_byte (take n buf) c))"
      using True by (subst unrolled.simps) (simp add: assms)
    moreover have "fold ref_byte (drop n buf) (fold ref_byte (take n buf) c) = fold ref_byte buf c"
      by (metis append_take_drop_id comp_apply fold_append)
    moreover have "length (drop n buf) < length buf" using True unfolding length_drop by linarith
    ultimately show ?thesis using less [of "drop n buf" "fold ref_byte (take n buf) c"] by simp
  next
    case False
    then show ?thesis by (subst unrolled.simps) auto
  qed
qed

lemma align_encoded:
  assumes "\<And>b c. f b (g c) = g (ref_byte b c)"
  shows "\<exists>rest c'. align_loop n f addr buf (g c) = (rest, g c') \<and> fold ref_byte rest c' = fold ref_byte buf c"
proof (induction buf arbitrary: addr c)
  case (Cons b buf)
  show ?case
  proof (cases "addr mod n = 0")
    case True
    then show ?thesis by (intro exI [of _ "b # buf"] exI [of _ c]) simp
  next
    case False
    then show ?thesis using Cons [of "addr + 1" "ref_byte b c"] by (simp add: assms)
  qed
qed simp

lemma fold_encoded:
  assumes "\<And>b c. f b (g c) = g (ref_byte b c)"
  shows "fold f buf (g c) = g (fold ref_byte buf c)"
  by (induction buf arbitrary: c) (simp_all add: assms)

lemma crc32_little_ref: "crc32_little crc addr buf = ucast (crc_ref buf (ucast crc))"
proof -
  let ?c = "NOT (ucast crc)"
  obtain b1 c1 where 1: "align_loop 4 byte_little addr buf (id ?c) = (b1, id c1)" "fold ref_byte b1 c1 = fold ref_byte buf ?c"
    using align_encoded [of byte_little id] byte_little_ref by (metis id_apply)
  have "DOLIT32 bs (id c) = id (fold ref_byte bs c)" if "length bs = 32" for bs c
    using eight_rounds [OF that, of DOLIT4 id c] by (simp add: DOLIT32_def DOLIT4_ref)
  then obtain b2 c2 where 2: "unrolled 32 DOLIT32 b1 (id c1) = (b2, id c2)" "fold ref_byte b2 c2 = fold ref_byte b1 c1"
    using unrolled_encoded [of 32 DOLIT32 id] by blast
  obtain b3 c3 where 3: "unrolled 4 DOLIT4 b2 (id c2) = (b3, id c3)" "fold ref_byte b3 c3 = fold ref_byte b2 c2"
    using unrolled_encoded [of 4 DOLIT4 id] DOLIT4_ref by (metis id_apply)
  have "fold byte_little b3 c3 = fold ref_byte b3 c3"
    using fold_encoded [of byte_little id b3 c3] byte_little_ref by simp
  then show ?thesis
    using 1 2 3 by (simp add: crc32_little_def crc_ref_def crc_raw_def)
qed

lemma crc32_big_ref: "crc32_big crc addr buf = ucast (crc_ref buf (ucast crc))"
proof -
  let ?c = "NOT (ucast crc)"
  obtain b1 c1 where 1: "align_loop 4 byte_big addr buf (bswap_32 ?c) = (b1, bswap_32 c1)" "fold ref_byte b1 c1 = fold ref_byte buf ?c"
    using align_encoded [of byte_big bswap_32] byte_big_ref by metis
  have "DOBIG32 bs (bswap_32 c) = bswap_32 (fold ref_byte bs c)" if "length bs = 32" for bs c
    using eight_rounds [OF that, of DOBIG4 bswap_32 c] by (simp add: DOBIG32_def DOBIG4_ref)
  then obtain b2 c2 where 2: "unrolled 32 DOBIG32 b1 (bswap_32 c1) = (b2, bswap_32 c2)" "fold ref_byte b2 c2 = fold ref_byte b1 c1"
    using unrolled_encoded [of 32 DOBIG32 bswap_32] by blast
  obtain b3 c3 where 3: "unrolled 4 DOBIG4 b2 (bswap_32 c2) = (b3, bswap_32 c3)" "fold ref_byte b3 c3 = fold ref_byte b2 c2"
    using unrolled_encoded [of 4 DOBIG4 bswap_32] DOBIG4_ref by blast
  have "fold byte_big b3 (bswap_32 c3) = bswap_32 (fold ref_byte b3 c3)"
    by (rule fold_encoded) (rule byte_big_ref)
  then show ?thesis
    using 1 2 3 by (simp add: crc32_big_def crc_ref_def crc_raw_def bswap_not [symmetric] bswap_bswap)
qed

lemma low_32: "(0xffffffff :: u32) = NOT 0" "(0xffffffff :: u64) = ucast (NOT 0 :: u32)"
  by (simp_all add: unsigned_minus_1_eq_mask mask_eq_exp_minus_1)

lemma ucast_not: "(ucast (c :: u32) :: u64) XOR 0xffffffff = ucast (NOT c)"
  unfolding low_32(2)
  by (rule bit_eqI) (auto simp only: bit_xor_iff bit_not_iff bit_unsigned_iff bit_0_eq bot_fun_def bot_bool_def possible_bit_word dest: bit_imp_le_length)

lemma crc32_bytewise_ref: "crc32_bytewise (ucast c) buf = ucast (crc_ref buf c)"
proof -
  have body: "fold DO1 bs (ucast c) = (ucast (fold ref_byte bs c) :: u64)" for bs c
    by (rule fold_encoded) (rule DO1_ref)
  obtain rest c1 where "unrolled 8 (fold DO1) buf (ucast (NOT c) :: u64) = (rest, ucast c1)"
      "fold ref_byte rest c1 = fold ref_byte buf (NOT c)"
    using unrolled_encoded [of 8 "fold DO1" ucast buf "NOT c"] body by blast
  then show ?thesis
    by (simp add: crc32_bytewise_def ucast_not body crc_ref_def crc_raw_def)
qed

lemma generic_crc32_ref: "generic_crc32 build (ucast c) addr (Some buf) = ucast (crc_ref buf c)"
proof -
  have "ucast (ucast c :: u64) = c" by (rule bit_eqI) (auto simp: bit_simps)
  then show ?thesis
    by (cases build) (simp_all add: generic_crc32_def crc32_bytewise_ref crc32_little_ref crc32_big_ref)
qed

text \<open>
  The contract of the vector routine, as \<^verbatim>\<open>lib/crc32_power.c\<close> states it: the register after data that is aligned to 16 bytes and
  a multiple of 16 bytes long. Nothing is known of it for other data.
\<close>

definition vpmsum_ok :: "vector_crc \<Rightarrow> bool" where
  "vpmsum_ok vpmsum \<longleftrightarrow> (\<forall>c addr bs. addr mod 16 = 0 \<and> bs \<noteq> [] \<and> length bs mod 16 = 0 \<longrightarrow> vpmsum c addr bs = crc_raw bs c)"

lemma aligned_start: "(addr + (if addr mod 16 \<noteq> 0 then 16 - addr mod 16 else 0)) mod 16 = (0 :: nat)"
proof (cases "addr mod 16 = 0")
  case False
  have "addr + (16 - addr mod 16) = 16 * (addr div 16) + 16" by (simp add: minus_mod_eq_mult_div [symmetric])
  then show ?thesis using False by simp
qed simp

lemma crc_raw_append: "crc_raw (xs @ ys) c = crc_raw ys (crc_raw xs c)"
  by (simp add: crc_raw_def)

lemma crc32_ppc_ref:
  assumes "vpmsum_ok vpmsum"
  shows "crc32_ppc vpmsum c addr (Some buf) = crc_ref buf c"
proof -
  have inv: "x XOR 0xffffffff = NOT x" for x :: u32
    unfolding low_32(1) by (rule bit_eqI) (simp add: bit_simps)
  show ?thesis
  proof (cases "length buf < 31")
    case True
    then show ?thesis by (simp add: crc32_ppc_def crc32_align_ref inv crc_ref_def)
  next
    case False
    define pre where "pre = (if addr mod 16 \<noteq> 0 then 16 - addr mod 16 else 0)"
    define p where "p = drop pre buf"
    define body where "body = length p div 16 * 16"
    define c1 where "c1 = crc_raw (take pre buf) (NOT c)"
    have c1: "(if addr mod 16 \<noteq> 0 then crc32_align (NOT c) (take pre buf) else NOT c) = c1"
      by (simp add: c1_def crc32_align_ref pre_def crc_raw_def)
    have "body \<le> length p" unfolding body_def by (metis div_times_less_eq_dividend)
    then have "length (take body p) mod 16 = 0" by (simp add: body_def)
    moreover have "16 \<le> length p" using False by (simp add: p_def pre_def) linarith
    then have "16 \<le> body" unfolding body_def by (simp add: div_greater_zero_iff)
    then have "take body p \<noteq> []" using \<open>16 \<le> length p\<close> by auto
    moreover have "(addr + pre) mod 16 = 0" unfolding pre_def by (rule aligned_start)
    ultimately have v: "vpmsum c1 (addr + pre) (take body p) = crc_raw (take body p) c1"
      using assms by (simp add: vpmsum_ok_def)
    have tail: "(if length p mod 16 \<noteq> 0 then crc32_align x (drop body p) else x) = crc_raw (drop body p) x" for x
    proof (cases "length p mod 16 = 0")
      case True
      then have "body = length p" by (simp add: body_def) (metis True div_mult_mod_eq add_0_right)
      then show ?thesis using True by (simp add: crc_raw_def)
    qed (simp add: crc32_align_ref)
    have "crc32_ppc vpmsum c addr (Some buf) = NOT (crc_raw (drop body p) (crc_raw (take body p) c1))"
      using False unfolding crc32_ppc_def Let_def option.case inv
      by (simp only: c1 v tail if_False flip: pre_def p_def body_def) simp
    also have "\<dots> = NOT (crc_raw p c1)" by (simp flip: crc_raw_append)
    also have "\<dots> = crc_ref buf c" unfolding c1_def p_def crc_ref_def by (simp flip: crc_raw_append)
    finally show ?thesis .
  qed
qed

section \<open>The table generator\<close>

lemma make_poly_value: "make_poly = POLY"
  by (simp add: make_poly_def crc_poly_terms_def POLY_def)

lemma make_crc_table_correct: "make_crc_table = crc_table"
proof -
  have bits: "(poly_bit make_poly ^^ 8) c = crc_shift 8 c" for c
    by (simp add: make_poly_value crc_shift_def poly_bit_def [abs_def] crc_bit_def [abs_def])
  have t: "map f [0..<256] = t" if "length t = 256 \<and> (\<forall>n < 256. t ! n = f n)" for t :: "u32 list" and f
    using that by (intro nth_equalityI) auto
  have t0: "map (\<lambda>n. (poly_bit make_poly ^^ 8) (word_of_nat n)) [0..<256] = crc_table0"
    using tables_low(1) by (intro t) (simp add: bits)
  have entry: "crc_table0 ! unat (c AND 0xff) XOR drop_bit 8 c = crc_shift 8 c" for c
    using shift8_table [of c] by (simp only: and_ff) (simp add: tbl_def crc_table_def)
  have next_table: "map (\<lambda>c. crc_table0 ! unat (c AND 0xff) XOR drop_bit 8 c) ta = tb"
    if a: "length ta = 256 \<and> (\<forall>n < 256. ta ! n = crc_shift k (word_of_nat n))"
      and b: "length tb = 256 \<and> (\<forall>n < 256. tb ! n = crc_shift (8 + k) (word_of_nat n))" for ta tb k
    unfolding entry using a b by (intro nth_equalityI) (auto simp: crc_shift_add)
  have swap: "map bswap_32 ta = tb"
    if "length ta = 256 \<and> (\<forall>n < 256. ta ! n = crc_shift k (word_of_nat n))"
      and "length tb = 256 \<and> (\<forall>n < 256. tb ! n = bswap_32 (crc_shift k (word_of_nat n)))" for ta tb k
    using that by (intro nth_equalityI) auto
  have n1: "map (\<lambda>c. crc_table0 ! unat (c AND 0xff) XOR drop_bit 8 c) crc_table0 = crc_table1"
    and n2: "map (\<lambda>c. crc_table0 ! unat (c AND 0xff) XOR drop_bit 8 c) crc_table1 = crc_table2"
    and n3: "map (\<lambda>c. crc_table0 ! unat (c AND 0xff) XOR drop_bit 8 c) crc_table2 = crc_table3"
    using next_table [OF tables_low(1)] next_table [OF tables_low(2)] next_table [OF tables_low(3)] tables_low by simp_all
  show ?thesis
    unfolding make_crc_table_def Let_def t0 n1 n2 n3 crc_table_def
    using swap [OF tables_low(1) tables_high(1)] swap [OF tables_low(2) tables_high(2)]
      swap [OF tables_low(3) tables_high(3)] swap [OF tables_low(4) tables_high(4)] by simp
qed

end
