(* ===== verification/InflateHeaderCorrect.thy ===== *)
theory InflateHeaderCorrect
  imports InflateHeaderRef
begin

text \<open>The state machine of \<^verbatim>\<open>InflateHeader\<close> agrees with the reference parser.\<close>

section \<open>Running\<close>

lemma inf_run_again: "inf_step crc s = Again s' \<Longrightarrow> inf_run crc s = inf_run crc s'"
  by (subst inf_run.simps) simp

lemma inf_run_stop: "inf_step crc s = r \<Longrightarrow> (\<And>s'. r \<noteq> Again s') \<Longrightarrow> inf_run crc s = Some r"
  by (subst inf_run.simps) (cases r; auto)

text \<open>The state after a byte was read.\<close>

definition got :: "(u32 \<Rightarrow> u8 list \<Rightarrow> u32) \<Rightarrow> u8 \<Rightarrow> nx_inf \<Rightarrow> nx_inf" where
  "got crc c s =
     (let s = update_stream_in 1 (s\<lparr>ckbuf := (ckbuf s)[ckidx s := c], ckidx := ckidx s + 1\<rparr>)
      in if gzflags s AND 0x02 \<noteq> 0 then s\<lparr>cksum := crc (cksum s) (take (ckidx s) (ckbuf s)), ckidx := 0\<rparr> else s)"

lemma get_byte_Nil: "i_next_in s = [] \<Longrightarrow> nx_inflate_get_byte crc k s = Leave Z_OK s"
  by (simp add: nx_inflate_get_byte_def)

lemma get_byte_Cons:
  "i_next_in s = c # bs \<Longrightarrow> ckidx s < length (ckbuf s) \<Longrightarrow> nx_inflate_get_byte crc k s = k c (got crc c s)"
  by (simp add: nx_inflate_get_byte_def or_fault_def got_def Let_def)

lemma got_simps [simp]:
  "i_next_in (got crc c s) = tl (i_next_in s)" "i_total_in (got crc c s) = i_total_in s + 1"
  "length (ckbuf (got crc c s)) = length (ckbuf s)" "i_wrap (got crc c s) = i_wrap s" "inf_held (got crc c s) = inf_held s"
  "inf_state (got crc c s) = inf_state s" "i_gzhead (got crc c s) = i_gzhead s" "gzflags (got crc c s) = gzflags s"
  "inf_length (got crc c s) = inf_length s" "hcrc16 (got crc c s) = hcrc16 s" "zlib_cmf (got crc c s) = zlib_cmf s"
  "i_dict_id (got crc c s) = i_dict_id s" "i_dict_len (got crc c s) = i_dict_len s"
  by (simp_all add: got_def Let_def update_stream_in_def drop_Suc)

lemma ckidx_got: "ckidx (got crc c s) \<le> Suc (ckidx s)" "gzflags s AND 0x02 \<noteq> 0 \<Longrightarrow> ckidx (got crc c s) = 0"
  by (simp_all add: got_def Let_def update_stream_in_def)

section \<open>Copying a string\<close>

text \<open>The bytes that the loop reads, and the destination after it.\<close>

definition upto0 :: "u8 list \<Rightarrow> u8 list" where
  "upto0 xs = takeWhile (\<lambda>c. c \<noteq> 0) xs @ (if 0 \<in> set xs then [0] else [])"

definition store_at :: "nat \<Rightarrow> u8 list \<Rightarrow> nat \<Rightarrow> u8 list \<Rightarrow> u8 list" where
  "store_at len w mx m = take len m @ take (mx - len) w @ drop (len + length (take (mx - len) w)) m"

lemma upto0_Cons: "upto0 (b # bs) = b # (if b = 0 then [] else upto0 bs)"
  by (simp add: upto0_def)

lemma upto0_no_end: "0 \<notin> set xs \<Longrightarrow> upto0 xs = xs"
  unfolding upto0_def by (simp add: takeWhile_eq_all_conv) metis

lemma store_at_0: "store_at 0 w mx m = store w mx m"
  by (simp add: store_at_def store_def)

lemma upto0_simps [simp]: "upto0 [] = []" "upto0 xs = [] \<longleftrightarrow> xs = []"
  by (cases xs; simp add: upto0_def)+

lemma store_at_Nil [simp]: "store_at len [] mx m = m"
  by (simp add: store_at_def)

lemma store_at_Cons: "len < mx \<Longrightarrow> mx \<le> length m \<Longrightarrow> store_at len (b # w) mx m = store_at (Suc len) w mx (m[len := b])"
  by (simp add: store_at_def take_Suc_wr Suc_diff_Suc take_Cons' drop_update_cancel)

lemma copy_string_Some:
  "mx \<le> length m \<Longrightarrow> copy_string (Some m) mx len xs c n =
     Some (Some (store_at len (upto0 xs) mx m), len + length (take (mx - len) (upto0 xs)),
       (if xs = [] then c else last (upto0 xs)), n + length (upto0 xs))"
proof (induction xs arbitrary: m len c n)
  case Nil
  then show ?case by simp
next
  case (Cons b bs)
  show ?case
  proof (cases "len < mx")
    case True
    then show ?thesis
      using Cons by (simp add: upto0_Cons store_at_Cons take_Cons' Suc_diff_Suc)
  next
    case False
    then show ?thesis
      using Cons by (simp add: upto0_Cons store_at_def)
  qed
qed

lemma copy_string_None:
  "copy_string None mx len xs c n = Some (None, len, (if xs = [] then c else last (upto0 xs)), n + length (upto0 xs))"
  by (induction xs arbitrary: c n) (simp_all add: upto0_Cons)

lemma last_upto0: "xs \<noteq> [] \<Longrightarrow> last (upto0 xs) = 0 \<longleftrightarrow> 0 \<in> set xs"
proof -
  assume "xs \<noteq> []"
  show ?thesis
  proof (cases "0 \<in> set xs")
    case False
    then have "last xs \<noteq> 0" using \<open>xs \<noteq> []\<close> last_in_set by metis
    then show ?thesis using False by (simp add: upto0_no_end)
  qed (simp add: upto0_def)
qed

lemma take_upto0: "take (length (upto0 xs)) xs = upto0 xs"
  by (induction xs) (simp_all add: upto0_Cons)

text \<open>The caller's buffers are as long as the caller says; the sizes are 32-bit.\<close>

definition request_ok :: "gz_header \<Rightarrow> bool" where
  "request_ok g \<longleftrightarrow> gz_extra_max g < 2 ^ 32 \<and> (\<forall>m. gz_extra g = Some m \<longrightarrow> gz_extra_max g \<le> length m)
     \<and> (\<forall>m. gz_name g = Some m \<longrightarrow> gz_name_max g \<le> length m) \<and> (\<forall>m. gz_comment g = Some m \<longrightarrow> gz_comm_max g \<le> length m)"

text \<open>A stream before its first byte, that was asked for gzip, or for either format when gzip follows.\<close>

definition gzip_start :: "nx_inf \<Rightarrow> bool" where
  "gzip_start s \<longleftrightarrow> inf_state s = inf_state_header
     \<and> (i_wrap s = HEADER_GZIP \<or> i_wrap s = HEADER_ZLIB OR HEADER_GZIP \<and> i_next_in s \<noteq> [] \<and> hd (i_next_in s) = 0x1f)
     \<and> ckidx s = 0 \<and> cksum s = INIT_CRC \<and> hcrc16 s = 0 \<and> length (ckbuf s) = 128
     \<and> (\<forall>g. i_gzhead s = Some g \<longrightarrow> request_ok g)"

definition gzip_request :: "nx_inf \<Rightarrow> gz_header option" where
  "gzip_request s = (if i_wrap s = HEADER_GZIP then map_option (\<lambda>h. h\<lparr>gz_done := 0\<rparr>) (i_gzhead s) else i_gzhead s)"

lemma wrap_codes: "HEADER_ZLIB OR HEADER_GZIP = 3"
  by (simp add: header_codes)

context running_checksum
begin

lemma header_sum_got:
  assumes "ckidx s < length (ckbuf s)"
  shows "header_sum (got crc c s) = crc (header_sum s) [c]"
  using assms by (simp add: header_sum_def got_def Let_def update_stream_in_def take_Suc_wr crc_append crc_Nil)

text \<open>\<open>pos acc s\<close>: the bytes \<open>acc\<close> of the header were read.\<close>

definition pos :: "u8 list \<Rightarrow> nx_inf \<Rightarrow> bool" where
  "pos acc s \<longleftrightarrow> header_sum s = crc INIT_CRC acc \<and> ckidx s \<le> length acc \<and> length (ckbuf s) = 128 \<and> hcrc16 s = 0"

lemma pos_got: "pos acc s \<Longrightarrow> length acc < 128 \<Longrightarrow> pos (acc @ [c]) (got crc c s)"
  using ckidx_got(1) [of crc c s] by (simp add: pos_def header_sum_got crc_append)

lemma get_byte_pos:
  "pos acc s \<Longrightarrow> length acc < 128 \<Longrightarrow> i_next_in s = c # bs \<Longrightarrow> nx_inflate_get_byte crc k s = k c (got crc c s)"
  by (rule get_byte_Cons) (auto simp: pos_def)

text \<open>Fields that \<open>pos\<close> does not look at.\<close>

lemma pos_upd [simp]:
  "pos acc (s\<lparr>inf_state := st\<rparr>) = pos acc s" "pos acc (s\<lparr>i_gzhead := h\<rparr>) = pos acc s" "pos acc (s\<lparr>gzflags := f\<rparr>) = pos acc s"
  "pos acc (s\<lparr>inf_held := n\<rparr>) = pos acc s" "pos acc (s\<lparr>inf_length := n\<rparr>) = pos acc s" "pos acc (s\<lparr>i_wrap := n\<rparr>) = pos acc s"
  by (simp_all add: pos_def header_sum_def)

section \<open>Agreement with the parser\<close>

definition ready :: "gz_header option \<Rightarrow> u8 list \<Rightarrow> nx_inf \<Rightarrow> nx_inf \<Rightarrow> bool" where
  "ready h rest s s' \<longleftrightarrow> i_next_in s' = rest \<and> i_gzhead s' = h \<and> i_crc32 s' = INIT_CRC \<and> i_adler s' = INIT_CRC
     \<and> inf_state s' = inf_state_inflate \<and> i_wrap s' = i_wrap s
     \<and> i_total_in s' + length rest = i_total_in s + i_avail_in s"

definition agrees :: "nx_inf \<Rightarrow> gz_header option parse \<Rightarrow> bool" where
  "agrees s p \<longleftrightarrow>
     (case p of
        Done h rest \<Rightarrow> \<exists>s'. inf_run crc s = Some (Body s') \<and> ready h rest s s'
      | Reject \<Rightarrow> \<exists>s'. inf_run crc s = Some (Leave Z_DATA_ERROR s') \<and> inf_state s' = inf_state_data_error \<and> i_msg s' \<noteq> None
      | More \<Rightarrow> \<exists>s'. inf_run crc s = Some (Leave Z_OK s') \<and> i_wrap s' = i_wrap s
      | Broken \<Rightarrow> inf_run crc s = Some Fault)"

lemma agrees_again:
  assumes "inf_step crc s = Again s'" and "agrees s' p" and "i_wrap s' = i_wrap s"
    and "i_total_in s' + i_avail_in s' = i_total_in s + i_avail_in s"
  shows "agrees s p"
  using assms by (cases p) (auto simp: agrees_def ready_def inf_run_again)

lemma agrees_back:
  assumes "agrees s' p" and "inf_step crc s = Again s'" and "i_wrap s' = i_wrap s"
    and "i_total_in s' + i_avail_in s' = i_total_in s + i_avail_in s"
  shows "agrees s p"
  using assms(2,1,3,4) by (rule agrees_again)

lemma agrees_more: "inf_step crc s = Leave Z_OK s' \<Longrightarrow> i_wrap s' = i_wrap s \<Longrightarrow> agrees s More"
  using inf_run_stop [of crc s "Leave Z_OK s'"] by (auto simp: agrees_def)

lemma agrees_fault: "inf_step crc s = Fault \<Longrightarrow> agrees s Broken"
  using inf_run_stop [of crc s Fault] by (auto simp: agrees_def)

lemma agrees_reject: "inf_step crc s = data_error m s' \<Longrightarrow> agrees s Reject"
proof -
  assume a: "inf_step crc s = data_error m s'"
  define e where "e = s'\<lparr>i_msg := Some m, inf_state := inf_state_data_error\<rparr>"
  have "inf_run crc s = inf_run crc e" using a by (intro inf_run_again) (simp add: data_error_def e_def)
  also have "\<dots> = Some (Leave Z_DATA_ERROR e)" by (rule inf_run_stop) (simp_all add: inf_step_def e_def)
  finally show ?thesis by (simp add: agrees_def e_def)
qed

lemma step_simps:
  "inf_state s = inf_state_gzip_id1 \<Longrightarrow> inf_step crc s = expect_byte crc 0x1f ''incorrect gzip header'' inf_state_gzip_id2 s"
  "inf_state s = inf_state_gzip_id2 \<Longrightarrow> inf_step crc s = expect_byte crc 0x8b ''incorrect gzip header'' inf_state_gzip_cm s"
  "inf_state s = inf_state_gzip_cm \<Longrightarrow> inf_step crc s = expect_byte crc 0x08 ''unknown compression method'' inf_state_gzip_flg s"
  "inf_state s = inf_state_gzip_flg \<Longrightarrow> inf_step crc s = inf_flg crc s"
  "inf_state s = inf_state_gzip_mtime \<Longrightarrow> inf_step crc s = inf_mtime crc s"
  "inf_state s = inf_state_gzip_xfl \<Longrightarrow> inf_step crc s = inf_xfl crc s"
  "inf_state s = inf_state_gzip_os \<Longrightarrow> inf_step crc s = inf_os crc s"
  "inf_state s = inf_state_gzip_xlen \<Longrightarrow> inf_step crc s = inf_xlen crc s"
  "inf_state s = inf_state_gzip_extra \<Longrightarrow> inf_step crc s = inf_extra crc s"
  "inf_state s = inf_state_gzip_name \<Longrightarrow> inf_step crc s = inf_name crc s"
  "inf_state s = inf_state_gzip_comment \<Longrightarrow> inf_step crc s = inf_comment crc s"
  "inf_state s = inf_state_gzip_hcrc \<Longrightarrow> inf_step crc s = inf_hcrc crc s"
  "inf_state s = inf_state_inflate \<Longrightarrow> inf_step crc s = Body s"
  by (simp_all add: inf_step_def)

text \<open>The counted loops: all bytes are there, or the machine is left in the middle.\<close>

definition held_step :: "(u8 \<Rightarrow> nx_inf \<Rightarrow> nx_inf) \<Rightarrow> u8 \<Rightarrow> nx_inf \<Rightarrow> nx_inf" where
  "held_step f c s = (let s = f c (got crc c s) in s\<lparr>inf_held := inf_held s + 1\<rparr>)"

definition quiet :: "(u8 \<Rightarrow> nx_inf \<Rightarrow> nx_inf) \<Rightarrow> bool" where
  "quiet f \<longleftrightarrow> (\<forall>c s. i_next_in (f c s) = i_next_in s \<and> ckidx (f c s) = ckidx s \<and> length (ckbuf (f c s)) = length (ckbuf s)
     \<and> i_wrap (f c s) = i_wrap s)"

lemma while_held_all:
  assumes "quiet f" and "i_next_in s = bs @ ys" and "length bs = n" and "ckidx s + n \<le> length (ckbuf s)"
  shows "while_held crc n f k s = k (fold (held_step f) bs s)"
  using assms(2-)
proof (induction n arbitrary: s bs)
  case (Suc n)
  then obtain c cs where bs: "bs = c # cs" by (cases bs) auto
  have n: "i_next_in (held_step f c s) = cs @ ys" "length (ckbuf (held_step f c s)) = length (ckbuf s)"
      "ckidx (held_step f c s) \<le> Suc (ckidx s)"
    using assms(1) Suc.prems bs ckidx_got(1) [of crc c s] by (simp_all add: held_step_def quiet_def Let_def)
  have "while_held crc (Suc n) f k s = while_held crc n f k (held_step f c s)"
    using Suc.prems bs by (simp add: get_byte_Cons held_step_def Let_def)
  also have "\<dots> = k (fold (held_step f) cs (held_step f c s))"
    using Suc.prems bs n by (intro Suc.IH) simp_all
  finally show ?case by (simp add: bs)
qed simp

lemma while_held_short:
  assumes "quiet f" and "i_avail_in s < n" and "ckidx s + n \<le> length (ckbuf s)"
  shows "\<exists>s'. while_held crc n f k s = Leave Z_OK s' \<and> i_wrap s' = i_wrap s"
  using assms(2-)
proof (induction n arbitrary: s)
  case (Suc n)
  show ?case
  proof (cases "i_next_in s")
    case Nil
    then show ?thesis by (simp add: get_byte_Nil)
  next
    case (Cons c cs)
    have n: "i_avail_in (held_step f c s) = length cs" "length (ckbuf (held_step f c s)) = length (ckbuf s)"
        "ckidx (held_step f c s) \<le> Suc (ckidx s)" "i_wrap (held_step f c s) = i_wrap s"
      using assms(1) Cons ckidx_got(1) [of crc c s] by (simp_all add: held_step_def quiet_def Let_def)
    have "while_held crc (Suc n) f k s = while_held crc n f k (held_step f c s)"
      using Suc.prems Cons by (simp add: get_byte_Cons held_step_def Let_def)
    moreover have "\<exists>s'. while_held crc n f k (held_step f c s) = Leave Z_OK s' \<and> i_wrap s' = i_wrap (held_step f c s)"
      using Suc.prems Cons n by (intro Suc.IH) simp_all
    ultimately show ?thesis by (simp add: n(4))
  qed
qed simp

section \<open>Between two fields\<close>

text \<open>\<open>mid acc s\<close>: after the fixed part and after a field, when the checksum has seen \<open>acc\<close> if it is needed.\<close>

definition mid :: "u8 list \<Rightarrow> nx_inf \<Rightarrow> bool" where
  "mid acc s \<longleftrightarrow> (gzflags s AND 0x02 \<noteq> 0 \<longrightarrow> cksum s = crc INIT_CRC acc \<and> ckidx s = 0) \<and> length (ckbuf s) = 128
     \<and> hcrc16 s = 0 \<and> inf_held s = 0 \<and> inf_length s = 0 \<and> (\<forall>g. i_gzhead s = Some g \<longrightarrow> request_ok g)"

section \<open>The checksum of the header\<close>

lemma hcrc_compare:
  "ucast (ucast (ucast a :: u32) OR ucast (push_bit 8 (ucast b :: u32)) :: u16) = (c :: u32) AND 0xffff
     \<longleftrightarrow> le_val [a, b] = unat c mod 65536" for a b :: u8
proof -
  have m: "(0xffff :: u32) = mask 16" by (simp add: mask_eq_exp_minus_1)
  have up: "unat (ucast x :: u32) = unat x" for x :: u16
    using unsigned_less [of x, where 'a=nat] by (simp add: unsigned_ucast_eq take_bit_nat_eq_self)
  have cast: "unat (ucast y :: u16) = take_bit 16 (unat y)" for y :: u32
    by (simp add: unsigned_ucast_eq)
  have "push_bit 8 (unat b) < 2 ^ 16"
    using unat_byte [of b] by (simp add: push_bit_eq_mult)
  then have "unat (ucast (push_bit 8 (ucast b :: u32)) :: u16) = push_bit 8 (unat b)"
    unfolding cast by (simp only: unat_byte_shift) (simp add: take_bit_nat_eq_self)
  moreover have "unat (ucast (ucast a :: u32) :: u16) = unat a"
    using unat_byte [of a] unat_byte_shift [of 0 a] unfolding cast by (simp add: take_bit_nat_eq_self)
  ultimately have "unat (ucast (ucast (ucast a :: u32) OR ucast (push_bit 8 (ucast b :: u32)) :: u16) :: u32) = le_val [a, b]"
    by (simp add: up unsigned_or_eq le_val_2)
  moreover have "unat (c AND 0xffff) = unat c mod 65536"
    by (simp add: m take_bit_eq_mod unat_mod_distrib flip: take_bit_eq_mask)
  ultimately show ?thesis by (simp add: word_unat_eq_iff)
qed

lemma agrees_hcrc:
  assumes "mid acc s" and "inf_state s = inf_state_gzip_hcrc"
  shows "agrees s (gz_p_hcrc crc (gzflags s) acc (i_gzhead s) (i_next_in s))"
proof (cases "gzflags s AND 0x02 = 0")
  case True
  define s' where "s' = s\<lparr>i_gzhead := map_option (\<lambda>g. g\<lparr>gz_hcrc := 0, gz_done := 1\<rparr>) (i_gzhead s), inf_held := 0,
    i_crc32 := INIT_CRC, i_adler := INIT_CRC, inf_state := inf_state_inflate\<rparr>"
  have "inf_step crc s = Again s'"
    using True assms(2) by (simp add: step_simps inf_hcrc_def go_def s'_def)
  moreover have "inf_run crc s' = Some (Body s')"
    by (rule inf_run_stop) (simp_all add: step_simps s'_def)
  ultimately show ?thesis
    using True by (auto simp: agrees_def gz_p_hcrc_def ready_def inf_run_again s'_def)
next
  case False
  define f where "f = (\<lambda>(c :: u8) (s :: nx_inf). s\<lparr>hcrc16 := hcrc16 s OR ucast (push_bit (inf_held s * 8) (ucast c :: u32))\<rparr>)"
  define k where "k = (\<lambda>s'. case i_gzhead s' of
      None \<Rightarrow> Fault
    | Some h \<Rightarrow>
        let s' = s'\<lparr>i_gzhead := Some (h\<lparr>gz_hcrc := 1, gz_done := 1\<rparr>)\<rparr> in
        if ucast (hcrc16 s') \<noteq> cksum s AND 0xffff then data_error ''header crc mismatch'' s'
        else go inf_state_inflate (s'\<lparr>inf_held := 0, i_crc32 := INIT_CRC, i_adler := INIT_CRC\<rparr>))"
  note flag = False
  have held: "inf_held s = 0" using assms(1) by (simp add: mid_def)
  have q: "quiet f" by (simp add: quiet_def f_def)
  have step: "inf_step crc s = while_held crc 2 f k s"
    using False assms(2) held by (simp add: step_simps inf_hcrc_def f_def k_def)
  show ?thesis
  proof (cases "i_avail_in s < 2")
    case True
    obtain s' where s': "inf_step crc s = Leave Z_OK s'" "i_wrap s' = i_wrap s"
      using while_held_short [OF q True, of k] assms(1) False step by (auto simp: mid_def)
    have "gz_p_hcrc crc (gzflags s) acc (i_gzhead s) (i_next_in s) = More"
      using True False by (auto simp: gz_p_hcrc_def split: list.split)
    then show ?thesis using agrees_more [OF s'] by simp
  next
    case more: False
    then obtain a b ys where xs: "i_next_in s = a # b # ys" by (cases "i_next_in s"; cases "tl (i_next_in s)") auto
    define s1 where "s1 = fold (held_step f) [a, b] s"
    have s1: "i_next_in s1 = ys" "i_gzhead s1 = i_gzhead s" "i_wrap s1 = i_wrap s" "i_total_in s1 = i_total_in s + 2"
        "hcrc16 s1 = ucast (ucast a :: u32) OR ucast (push_bit 8 (ucast b :: u32))"
      using assms(1) xs by (simp_all add: s1_def held_step_def Let_def f_def mid_def)
    have "cksum s = crc INIT_CRC acc" using assms(1) False by (simp add: mid_def)
    then have sum: "ucast (hcrc16 s1) = cksum s AND 0xffff \<longleftrightarrow> le_val [a, b] = unat (crc INIT_CRC acc) mod 65536"
      using hcrc_compare [of a b "cksum s"] s1(5) by simp
    have "inf_step crc s = k s1"
      unfolding step s1_def using assms(1) False xs by (intro while_held_all [OF q, of _ _ ys]) (simp_all add: mid_def)
    show ?thesis
    proof (cases "i_gzhead s")
      case None
      then have "inf_step crc s = Fault" using \<open>inf_step crc s = k s1\<close> s1 by (simp add: k_def)
      then show ?thesis using None False xs agrees_fault by (simp add: gz_p_hcrc_def)
    next
      case (Some h)
      define s2 where "s2 = s1\<lparr>i_gzhead := Some (h\<lparr>gz_hcrc := 1, gz_done := 1\<rparr>)\<rparr>"
      show ?thesis
      proof (cases "le_val [a, b] = unat (crc INIT_CRC acc) mod 65536")
        case True
        define s3 where "s3 = s2\<lparr>inf_held := 0, i_crc32 := INIT_CRC, i_adler := INIT_CRC, inf_state := inf_state_inflate\<rparr>"
        have "inf_step crc s = Again s3"
          using \<open>inf_step crc s = k s1\<close> Some True sum s1 by (simp add: k_def s3_def s2_def go_def Let_def)
        moreover have "inf_run crc s3 = Some (Body s3)"
          by (rule inf_run_stop) (simp_all add: step_simps s3_def)
        ultimately show ?thesis
          using False Some True xs s1 by (simp add: agrees_def gz_p_hcrc_def ready_def inf_run_again s3_def s2_def)
      next
        case False
        then have "inf_step crc s = data_error ''header crc mismatch'' s2"
          using \<open>inf_step crc s = k s1\<close> Some sum s1 by (simp add: k_def s2_def Let_def)
        then show ?thesis
          using flag False Some xs agrees_reject by (simp add: gz_p_hcrc_def)
      qed
    qed
  qed
qed

section \<open>The strings\<close>

text \<open>Bytes that are consumed at once.\<close>

definition skip :: "u8 list \<Rightarrow> nx_inf \<Rightarrow> nx_inf" where
  "skip w s = update_stream_in (length w) (if gzflags s AND 0x02 \<noteq> 0 then s\<lparr>cksum := crc (cksum s) w\<rparr> else s)"

lemma skip_simps [simp]:
  "i_next_in (skip w s) = drop (length w) (i_next_in s)" "i_total_in (skip w s) = i_total_in s + length w"
  "ckbuf (skip w s) = ckbuf s" "ckidx (skip w s) = ckidx s" "i_wrap (skip w s) = i_wrap s" "inf_held (skip w s) = inf_held s"
  "inf_state (skip w s) = inf_state s" "i_gzhead (skip w s) = i_gzhead s" "gzflags (skip w s) = gzflags s"
  "inf_length (skip w s) = inf_length s" "hcrc16 (skip w s) = hcrc16 s"
  by (simp_all add: skip_def update_stream_in_def)

lemma mid_skip: "mid acc s \<Longrightarrow> mid (acc @ w) (skip w s)"
  by (simp add: mid_def) (simp add: skip_def update_stream_in_def crc_append)

lemma agrees_string:
  assumes step: "inf_step crc s = inf_string crc flag dest mx set_dest k s" and mid: "mid acc s"
    and k: "\<And>s. inf_held s = 0 \<Longrightarrow> k s = Again (s\<lparr>inf_length := 0, inf_held := 0, inf_state := st\<rparr>)"
    and ok: "\<And>g m. request_ok g \<Longrightarrow> dest g = Some m \<Longrightarrow> mx g \<le> length m"
    and set: "\<And>g d. request_ok g \<Longrightarrow> (\<And>m. d = Some m \<Longrightarrow> mx g \<le> length m) \<Longrightarrow> request_ok (set_dest d g)"
    and same: "\<And>g. set_dest (dest g) g = g"
    and "next": "\<And>acc' s'. mid acc' s' \<Longrightarrow> inf_state s' = st \<Longrightarrow> gzflags s' = gzflags s
       \<Longrightarrow> agrees s' (kp acc' (i_gzhead s') (i_next_in s'))"
  shows "agrees s (gz_p_string flag dest mx set_dest kp (gzflags s) acc (i_gzhead s) (i_next_in s))"
proof (cases "gzflags s AND flag = 0")
  case True
  define s1 where "s1 = s\<lparr>i_gzhead := map_option (set_dest None) (i_gzhead s), inf_length := 0, inf_held := 0, inf_state := st\<rparr>"
  have "inf_step crc s = Again s1" using True k mid by (simp add: step inf_string_def s1_def mid_def)
  moreover have "mid acc s1" using mid set by (auto simp: mid_def s1_def)
  then have "agrees s1 (kp acc (map_option (set_dest None) (i_gzhead s)) (i_next_in s))"
    using "next" [of acc s1] by (simp add: s1_def)
  ultimately show ?thesis using True by (auto simp: gz_p_string_def s1_def intro: agrees_again)
next
  case flag: False
  define xs where "xs = i_next_in s"
  define w where "w = upto0 xs"
  define d' where "d' = Option.bind (i_gzhead s) (\<lambda>g. map_option (store w (mx g)) (dest g))"
  define h' where "h' = map_option (set_dest d') (i_gzhead s)"
  have len: "inf_length s = 0" and good: "\<And>g. i_gzhead s = Some g \<Longrightarrow> request_ok g" using mid by (simp_all add: mid_def)
  have h': "h' = map_option (\<lambda>g. set_dest (map_option (store w (mx g)) (dest g)) g) (i_gzhead s)"
    by (cases "i_gzhead s") (simp_all add: h'_def d'_def)
  obtain len' where copied: "copy_string (Option.bind (i_gzhead s) dest) (case i_gzhead s of None \<Rightarrow> 0 | Some h \<Rightarrow> mx h) (inf_length s) xs 0 0
      = Some (d', len', if xs = [] then 0 else last w, length w)"
  proof (cases "Option.bind (i_gzhead s) dest")
    case None
    then have "d' = None" by (cases "i_gzhead s") (simp_all add: d'_def)
    then show ?thesis using that None by (simp add: copy_string_None w_def)
  next
    case (Some m)
    then obtain g where g: "i_gzhead s = Some g" "dest g = Some m" by (cases "i_gzhead s") auto
    then have "mx g \<le> length m" using ok good by blast
    then show ?thesis using that g by (simp add: copy_string_Some len w_def d'_def store_at_0)
  qed
  define s1 where "s1 = skip w (s\<lparr>i_gzhead := h', inf_length := len'\<rparr>)"
  have w: "take (length w) xs = w" by (simp add: w_def take_upto0)
  have step1: "xs \<noteq> [] \<Longrightarrow> inf_step crc s = (if last w \<noteq> 0 then Leave Z_OK s1 else k s1)"
    using flag copied w unfolding step inf_string_def xs_def [symmetric]
    by (simp add: or_fault_def s1_def skip_def h'_def update_stream_in_def xs_def)
  show ?thesis
  proof (cases "0 \<in> set xs")
    case False
    have "\<exists>s'. inf_step crc s = Leave Z_OK s' \<and> i_wrap s' = i_wrap s"
    proof (cases "xs = []")
      case True
      then show ?thesis using flag by (simp add: step inf_string_def xs_def)
    next
      case ne: False
      then have "last w \<noteq> 0" using False by (simp add: w_def last_upto0)
      then show ?thesis using step1 [OF ne] by (simp add: s1_def)
    qed
    moreover have "gz_p_string flag dest mx set_dest kp (gzflags s) acc (i_gzhead s) xs = More"
      using flag False by (simp add: gz_p_string_def)
    ultimately show ?thesis using agrees_more by (auto simp: xs_def)
  next
    case True
    then have ne: "xs \<noteq> []" by auto
    then have "last w = 0" using True by (simp add: w_def last_upto0)
    define s2 where "s2 = s1\<lparr>inf_length := 0, inf_held := 0, inf_state := st\<rparr>"
    have "inf_held s1 = 0" using mid by (simp add: s1_def mid_def)
    then have "inf_step crc s = Again s2" using step1 [OF ne] k \<open>last w = 0\<close> by (simp add: s2_def)
    moreover have "agrees s2 (kp (acc @ w) h' (drop (length w) xs))"
    proof -
      have stored: "mx g \<le> length m \<Longrightarrow> mx g \<le> length (store w (mx g) m)" for g m by (auto simp: store_def)
      have "request_ok (set_dest (map_option (store w (mx g)) (dest g)) g)" if "request_ok g" for g
        using that by (rule set) (use stored ok [OF that] in auto)
      then have "\<forall>g. h' = Some g \<longrightarrow> request_ok g"
        using good by (auto simp: h')
      then have "mid acc (s\<lparr>i_gzhead := h', inf_length := 0, inf_held := 0, inf_state := st\<rparr>)"
        using mid by (simp add: mid_def)
      from mid_skip [OF this, of w] have "mid (acc @ w) s2"
        by (simp add: s2_def s1_def mid_def) (simp add: skip_def update_stream_in_def)
      from "next" [OF this] show ?thesis by (simp add: s2_def s1_def xs_def)
    qed
    moreover have "w = takeWhile (\<lambda>c. c \<noteq> 0) xs @ [0]" using True by (simp add: w_def upto0_def)
    then have "gz_p_string flag dest mx set_dest kp (gzflags s) acc (i_gzhead s) xs = kp (acc @ w) h' (drop (length w) xs)"
      using flag True by (simp add: gz_p_string_def h' Let_def)
    moreover have "length w \<le> length xs" using w by (metis length_take min.cobounded1 min.absorb_iff1)
    ultimately show ?thesis
      by (auto simp: xs_def s2_def s1_def intro: agrees_again)
  qed
qed

lemma agrees_comment:
  assumes "mid acc s" and "inf_state s = inf_state_gzip_comment"
  shows "agrees s (gz_p_comment crc (gzflags s) acc (i_gzhead s) (i_next_in s))"
  unfolding gz_p_comment_def
proof (rule agrees_string [where st = inf_state_gzip_hcrc])
  show "inf_step crc s = inf_string crc 0x10 gz_comment gz_comm_max (\<lambda>d g. g\<lparr>gz_comment := d\<rparr>)
      (\<lambda>s. go inf_state_gzip_hcrc (s\<lparr>inf_length := 0, inf_held := 0\<rparr>)) s"
    using assms(2) by (simp add: step_simps inf_comment_def)
  show "agrees s' (gz_p_hcrc crc (gzflags s) acc' (i_gzhead s') (i_next_in s'))"
    if "mid acc' s'" "inf_state s' = inf_state_gzip_hcrc" "gzflags s' = gzflags s" for acc' s'
    using agrees_hcrc [OF that(1,2)] that(3) by simp
qed (use assms(1) in \<open>auto simp: go_def request_ok_def\<close>)

lemma agrees_name:
  assumes "mid acc s" and "inf_state s = inf_state_gzip_name"
  shows "agrees s (gz_p_name crc (gzflags s) acc (i_gzhead s) (i_next_in s))"
  unfolding gz_p_name_def
proof (rule agrees_string [where st = inf_state_gzip_comment])
  show "inf_step crc s = inf_string crc 0x08 gz_name gz_name_max (\<lambda>d g. g\<lparr>gz_name := d\<rparr>)
      (\<lambda>s. go inf_state_gzip_comment (s\<lparr>inf_length := 0\<rparr>)) s"
    using assms(2) by (simp add: step_simps inf_name_def)
  show "agrees s' (gz_p_comment crc (gzflags s) acc' (i_gzhead s') (i_next_in s'))"
    if "mid acc' s'" "inf_state s' = inf_state_gzip_comment" "gzflags s' = gzflags s" for acc' s'
    using agrees_comment [OF that(1,2)] that(3) by simp
qed (use assms(1) in \<open>auto simp: go_def request_ok_def\<close>)

section \<open>The extra field\<close>

text \<open>The copy of the whole field, or of its first piece.\<close>

lemma copy_extra_first:
  assumes "\<And>g. i_gzhead s = Some g \<Longrightarrow> request_ok g \<and> gz_extra_len g = inf_length s"
    and "copy \<le> inf_length s" and "copy \<le> i_avail_in s" and "inf_length s < 2 ^ 16"
  shows "copy_extra copy s = Some (s\<lparr>i_gzhead := map_option (\<lambda>g. g\<lparr>gz_extra :=
     map_option (store (take copy (i_next_in s)) (gz_extra_max g)) (gz_extra g)\<rparr>) (i_gzhead s)\<rparr>)"
proof (cases "i_gzhead s")
  case None
  then show ?thesis by (simp add: copy_extra_def)
next
  case (Some g)
  show ?thesis
  proof (cases "gz_extra g")
    case None
    then show ?thesis using Some by (simp add: copy_extra_def)
  next
    case m: (Some m)
    have g: "gz_extra_max g < 2 ^ 32" "gz_extra_max g \<le> length m" "gz_extra_len g = inf_length s"
      using assms(1) [OF Some] m by (auto simp: request_ok_def)
    have c: "unat (word_of_nat copy :: u32) = copy" "unat (word_of_nat (gz_extra_max g) :: u32) = gz_extra_max g"
      using assms(2,4) g(1) by (simp_all add: unsigned_of_nat take_bit_nat_eq_self)
    define n where "n = (if (word_of_nat (gz_extra_max g) :: u32) < word_of_nat copy then word_of_nat (gz_extra_max g) else word_of_nat copy :: u32)"
    have n: "unat n = min (gz_extra_max g) copy"
      using c by (simp add: n_def word_less_nat_alt)
    have "rd_block (i_next_in s) 0 (unat n) = Some (take (unat n) (i_next_in s))"
      using n assms(3) by simp
    moreover have "wr_block m 0 (take (unat n) (i_next_in s)) = Some (store (take copy (i_next_in s)) (gz_extra_max g) m)"
      using n assms(3) g(2) by (simp add: store_def take_take) 
    moreover have "copy_extra copy s = do { b \<leftarrow> rd_block (i_next_in s) 0 (unat n); m \<leftarrow> wr_block m 0 b;
        Some (s\<lparr>i_gzhead := Some (g\<lparr>gz_extra := Some m\<rparr>)\<rparr>) }"
      using Some m g(3) by (simp add: copy_extra_def n_def Let_def)
    ultimately show ?thesis
      using Some m by simp
  qed
qed

lemma skip_Nil [simp]: "skip [] s = s"
  by (cases s) (simp add: skip_def update_stream_in_def crc_Nil)

lemma store_Nil [simp]: "store [] n m = m" "map_option (store [] n) d = d"
  by (simp add: store_def) (cases d; simp add: store_def)

lemma inf_extra_piece:
  assumes "gzflags s AND 0x04 \<noteq> 0" and "\<And>g. i_gzhead s = Some g \<Longrightarrow> request_ok g \<and> gz_extra_len g = inf_length s"
    and "inf_length s < 2 ^ 16"
  defines "w \<equiv> take (inf_length s) (i_next_in s)"
  shows "inf_extra crc s =
    (let s' = (skip w (upd_gzhead (\<lambda>g. g\<lparr>gz_extra := map_option (store w (gz_extra_max g)) (gz_extra g)\<rparr>) s))
           \<lparr>inf_length := inf_length s - length w\<rparr>
     in if inf_length s' \<noteq> 0 then Leave Z_OK s' else go inf_state_gzip_name (s'\<lparr>inf_length := 0\<rparr>))"
proof -
  define copy where "copy = min (inf_length s) (i_avail_in s)"
  have w: "w = take copy (i_next_in s)" "length w = copy" by (simp_all add: w_def copy_def min_def)
  define s1 where "s1 = (skip w (upd_gzhead (\<lambda>g. g\<lparr>gz_extra := map_option (store w (gz_extra_max g)) (gz_extra g)\<rparr>) s))
           \<lparr>inf_length := inf_length s - length w\<rparr>"
  have "(if copy = 0 then Some s else do {
      s \<leftarrow> copy_extra copy s;
      let s = (if gzflags s AND 0x02 \<noteq> 0 then s\<lparr>cksum := crc (cksum s) (take copy (i_next_in s))\<rparr> else s);
      let s = update_stream_in copy s;
      Some (s\<lparr>inf_length := inf_length s - copy\<rparr>) }) = Some s1"
  proof (cases "copy = 0")
    case True
    then have "w = []" using w(2) by simp
    then have "s1 = s" by (cases s; cases "i_gzhead s") (simp_all add: s1_def)
    then show ?thesis using True by simp
  next
    case False
    have "copy_extra copy s = Some (upd_gzhead (\<lambda>g. g\<lparr>gz_extra := map_option (store w (gz_extra_max g)) (gz_extra g)\<rparr>) s)"
      unfolding w(1) using assms(2,3) by (intro copy_extra_first) (simp_all add: copy_def)
    then show ?thesis using False w by (simp add: s1_def skip_def update_stream_in_def Let_def)
  qed
  then show ?thesis
    using assms(1) by (simp add: inf_extra_def or_fault_def Let_def s1_def copy_def [symmetric])
qed

lemma agrees_extra:
  assumes "mid acc (s\<lparr>inf_length := 0\<rparr>)" and "inf_state s = inf_state_gzip_extra" and "gzflags s AND 0x04 \<noteq> 0"
    and "\<And>g. i_gzhead s = Some g \<Longrightarrow> gz_extra_len g = inf_length s" and "inf_length s < 2 ^ 16"
  shows "agrees s (if inf_length s \<le> i_avail_in s
     then gz_p_name crc (gzflags s) (acc @ take (inf_length s) (i_next_in s))
       (map_option (\<lambda>g. g\<lparr>gz_extra := map_option (store (take (inf_length s) (i_next_in s)) (gz_extra_max g)) (gz_extra g)\<rparr>) (i_gzhead s))
       (drop (inf_length s) (i_next_in s))
     else More)"
proof -
  have ok: "request_ok g" if "i_gzhead s = Some g" for g using assms(1) that by (simp add: mid_def)
  define w where "w = take (inf_length s) (i_next_in s)"
  define h where "h = map_option (\<lambda>g. g\<lparr>gz_extra := map_option (store w (gz_extra_max g)) (gz_extra g)\<rparr>) (i_gzhead s)"
  define s1 where "s1 = (skip w (s\<lparr>i_gzhead := h\<rparr>))\<lparr>inf_length := inf_length s - length w\<rparr>"
  have step: "inf_step crc s = (if inf_length s1 \<noteq> 0 then Leave Z_OK s1 else go inf_state_gzip_name (s1\<lparr>inf_length := 0\<rparr>))"
    using inf_extra_piece [of s] assms(2-5) ok by (simp add: step_simps s1_def h_def w_def Let_def)
  show ?thesis
  proof (cases "inf_length s \<le> i_avail_in s")
    case False
    then show ?thesis using step agrees_more [of s s1] by (simp add: s1_def w_def)
  next
    case True
    define s2 where "s2 = s1\<lparr>inf_length := 0, inf_state := inf_state_gzip_name\<rparr>"
    have lw: "length w = inf_length s" using True by (simp add: w_def)
    have stored: "gz_extra_max g \<le> length m \<Longrightarrow> gz_extra_max g \<le> length (store w (gz_extra_max g) m)" for g m
      by (auto simp: store_def)
    have "\<forall>g. h = Some g \<longrightarrow> request_ok g"
      using ok stored by (auto simp: h_def request_ok_def)
    then have "mid acc (s\<lparr>i_gzhead := h, inf_length := 0, inf_state := inf_state_gzip_name\<rparr>)"
      using assms(1) by (simp add: mid_def)
    from mid_skip [OF this, of w] have "mid (acc @ w) s2"
      by (simp add: s2_def s1_def mid_def) (simp add: skip_def update_stream_in_def)
    then have "agrees s2 (gz_p_name crc (gzflags s2) (acc @ w) (i_gzhead s2) (i_next_in s2))"
      by (rule agrees_name) (simp add: s2_def)
    moreover have "inf_step crc s = Again s2" using step lw by (simp add: s2_def go_def s1_def)
    ultimately have "agrees s (gz_p_name crc (gzflags s2) (acc @ w) (i_gzhead s2) (i_next_in s2))"
      by (rule agrees_back) (use True lw in \<open>simp_all add: s2_def s1_def\<close>)
    moreover have "gzflags s2 = gzflags s" "i_gzhead s2 = h" "i_next_in s2 = drop (inf_length s) (i_next_in s)"
      by (simp_all add: s2_def s1_def lw)
    ultimately have "agrees s (gz_p_name crc (gzflags s) (acc @ w) h (drop (inf_length s) (i_next_in s)))" by (simp only:)
    then show ?thesis unfolding if_P [OF True] w_def h_def .
  qed
qed

lemma cksum_got:
  assumes "gzflags s AND 0x02 \<noteq> 0" and "ckidx s = 0" and "ckbuf s \<noteq> []"
  shows "cksum (got crc c s) = crc (cksum s) [c]" "ckidx (got crc c s) = 0"
  using assms by (simp_all add: got_def Let_def update_stream_in_def take_Suc_wr)

lemma agrees_xlen:
  assumes "mid acc s" and "inf_state s = inf_state_gzip_xlen" and "ckidx s \<le> 126"
  shows "agrees s (gz_p_extra crc (gzflags s) acc (i_gzhead s) (i_next_in s))"
proof (cases "gzflags s AND 0x04 = 0")
  case True
  define s1 where "s1 = s\<lparr>i_gzhead := map_option (\<lambda>g. g\<lparr>gz_extra := None\<rparr>) (i_gzhead s), inf_held := 0, inf_state := inf_state_gzip_extra\<rparr>"
  define s2 where "s2 = s1\<lparr>inf_length := 0, inf_state := inf_state_gzip_name\<rparr>"
  have "mid acc s2" using assms(1) by (auto simp: mid_def s2_def s1_def request_ok_def)
  then have "agrees s2 (gz_p_name crc (gzflags s2) acc (i_gzhead s2) (i_next_in s2))"
    by (rule agrees_name) (simp add: s2_def)
  moreover have "inf_step crc s1 = Again s2" using True by (simp add: step_simps inf_extra_def s1_def s2_def go_def)
  ultimately have "agrees s1 (gz_p_name crc (gzflags s2) acc (i_gzhead s2) (i_next_in s2))"
    by (rule agrees_back) (simp_all add: s2_def)
  moreover have "inf_step crc s = Again s1" using True assms(2) by (simp add: step_simps inf_xlen_def s1_def go_def)
  ultimately have "agrees s (gz_p_name crc (gzflags s2) acc (i_gzhead s2) (i_next_in s2))"
    by (rule agrees_back) (simp_all add: s1_def)
  moreover have "gzflags s2 = gzflags s" "i_gzhead s2 = map_option (\<lambda>g. g\<lparr>gz_extra := None\<rparr>) (i_gzhead s)" "i_next_in s2 = i_next_in s"
    by (simp_all add: s2_def s1_def)
  ultimately show ?thesis using True by (simp only: gz_p_extra_def) simp
next
  case flag: False
  define f where "f = (\<lambda>(c :: u8) (s :: nx_inf). s\<lparr>inf_length := inf_length s OR push_bit (inf_held s * 8) (unat c)\<rparr>)"
  define k where "k = (\<lambda>s. go inf_state_gzip_extra ((upd_gzhead (\<lambda>h. h\<lparr>gz_extra_len := inf_length s\<rparr>) s)\<lparr>inf_held := 0\<rparr>))"
  have q: "quiet f" by (simp add: quiet_def f_def)
  have held: "inf_held s = 0" and z: "inf_length s = 0" and b: "length (ckbuf s) = 128" using assms(1) by (simp_all add: mid_def)
  have step: "inf_step crc s = while_held crc 2 f k s"
    using flag assms(2) held by (simp add: step_simps inf_xlen_def f_def k_def Let_def)
  show ?thesis
  proof (cases "i_avail_in s < 2")
    case True
    obtain s' where s': "inf_step crc s = Leave Z_OK s'" "i_wrap s' = i_wrap s"
      using while_held_short [OF q True, of k] assms(3) b step by auto
    have "gz_p_extra crc (gzflags s) acc (i_gzhead s) (i_next_in s) = More"
      using True flag by (auto simp: gz_p_extra_def split: list.split)
    then show ?thesis using agrees_more [OF s'] by simp
  next
    case False
    then obtain x y ys where xs: "i_next_in s = x # y # ys" by (cases "i_next_in s"; cases "tl (i_next_in s)") auto
    define s1 where "s1 = fold (held_step f) [x, y] s"
    have s1: "i_next_in s1 = ys" "i_gzhead s1 = i_gzhead s" "i_wrap s1 = i_wrap s" "i_total_in s1 = i_total_in s + 2"
        "inf_length s1 = le_val [x, y]" "length (ckbuf s1) = 128" "hcrc16 s1 = hcrc16 s" "gzflags s1 = gzflags s"
      using held z b xs by (simp_all add: s1_def held_step_def Let_def f_def le_val_2)
    have c1: "gzflags s AND 0x02 \<noteq> 0 \<Longrightarrow> cksum s1 = crc INIT_CRC (acc @ [x, y]) \<and> ckidx s1 = 0"
    proof -
      assume fl: "gzflags s AND 0x02 \<noteq> 0"
      have "ckbuf s \<noteq> []" using b by auto
      define s' where "s' = held_step f x s"
      have s': "cksum s' = crc (crc INIT_CRC acc) [x]" "ckidx s' = 0" "gzflags s' = gzflags s" "ckbuf s' \<noteq> []"
        using cksum_got [OF fl _ \<open>ckbuf s \<noteq> []\<close>, of x] assms(1) fl \<open>ckbuf s \<noteq> []\<close> got_simps(3) [of crc x s]
        by (auto simp: s'_def held_step_def Let_def f_def mid_def simp del: got_simps(3))
      have "s1 = held_step f y s'" by (simp add: s1_def s'_def)
      then show ?thesis
        using cksum_got [of s' y] s' fl by (simp add: held_step_def Let_def f_def flip: crc_append)
    qed
    define s2 where "s2 = s1\<lparr>i_gzhead := map_option (\<lambda>h. h\<lparr>gz_extra_len := inf_length s1\<rparr>) (i_gzhead s1), inf_held := 0, inf_state := inf_state_gzip_extra\<rparr>"
    have "inf_step crc s = k s1"
      unfolding step s1_def using assms(3) b xs by (intro while_held_all [OF q, of _ _ ys]) simp_all
    then have again: "inf_step crc s = Again s2" by (simp add: k_def s2_def go_def)
    have "mid (acc @ [x, y]) (s2\<lparr>inf_length := 0\<rparr>)"
      using assms(1) s1 c1 by (auto simp: mid_def s2_def request_ok_def)
    then have "agrees s2 (if inf_length s2 \<le> i_avail_in s2
     then gz_p_name crc (gzflags s2) ((acc @ [x, y]) @ take (inf_length s2) (i_next_in s2))
       (map_option (\<lambda>g. g\<lparr>gz_extra := map_option (store (take (inf_length s2) (i_next_in s2)) (gz_extra_max g)) (gz_extra g)\<rparr>) (i_gzhead s2))
       (drop (inf_length s2) (i_next_in s2))
     else More)"
      using flag s1 unat_byte [of x] unat_byte [of y] by (intro agrees_extra) (auto simp: s2_def le_val_def)
    then have "agrees s (if inf_length s2 \<le> i_avail_in s2
     then gz_p_name crc (gzflags s2) ((acc @ [x, y]) @ take (inf_length s2) (i_next_in s2))
       (map_option (\<lambda>g. g\<lparr>gz_extra := map_option (store (take (inf_length s2) (i_next_in s2)) (gz_extra_max g)) (gz_extra g)\<rparr>) (i_gzhead s2))
       (drop (inf_length s2) (i_next_in s2))
     else More)"
      by (rule agrees_back [OF _ again]) (use s1 xs in \<open>simp_all add: s2_def\<close>)
    moreover have "i_next_in s2 = ys" "gzflags s2 = gzflags s" "inf_length s2 = le_val [x, y]"
        "i_gzhead s2 = map_option (\<lambda>h. h\<lparr>gz_extra_len := le_val [x, y]\<rparr>) (i_gzhead s)"
      using s1 by (simp_all add: s2_def)
    ultimately show ?thesis
      using flag xs by (simp add: gz_p_extra_def Let_def option.map_comp comp_def split: if_splits)
  qed
qed

section \<open>The fixed part\<close>

definition early :: "u8 list \<Rightarrow> nx_inf \<Rightarrow> bool" where
  "early acc s \<longleftrightarrow> pos acc s \<and> length acc \<le> 20 \<and> (\<forall>g. i_gzhead s = Some g \<longrightarrow> request_ok g)"

lemma get_byte_early:
  "early acc s \<Longrightarrow> i_next_in s = c # bs \<Longrightarrow> nx_inflate_get_byte crc k s = k c (got crc c s)"
  by (rule get_byte_pos) (auto simp: early_def)

lemma early_got: "early acc s \<Longrightarrow> length acc < 20 \<Longrightarrow> early (acc @ [c]) (got crc c s)"
  by (simp add: early_def pos_got)

lemma early_upd [simp]:
  "early acc (s\<lparr>inf_state := st\<rparr>) = early acc s" "early acc (s\<lparr>gzflags := f\<rparr>) = early acc s"
  "early acc (s\<lparr>inf_held := n\<rparr>) = early acc s" "early acc (s\<lparr>inf_length := n\<rparr>) = early acc s" "early acc (s\<lparr>i_wrap := n\<rparr>) = early acc s"
  by (simp_all add: early_def)

lemma early_upd_gzhead:
  "early acc s \<Longrightarrow> (\<And>g. request_ok g \<Longrightarrow> request_ok (f g)) \<Longrightarrow> early acc (upd_gzhead f s)"
  by (auto simp: early_def)

lemma early_mid:
  assumes "early acc s" and "gzflags s AND 0x02 \<noteq> 0 \<longrightarrow> ckidx s = 0" and "inf_held s = 0" and "inf_length s = 0"
  shows "mid acc s"
  using assms by (auto simp: early_def mid_def pos_def header_sum_def crc_Nil)

lemma agrees_os:
  assumes "early acc s" and "length acc < 20" and "inf_state s = inf_state_gzip_os" and "gzflags s AND 0x02 \<noteq> 0 \<longrightarrow> ckidx s = 0"
  shows "agrees s (case i_next_in s of [] \<Rightarrow> More
    | c # ys \<Rightarrow> gz_p_extra crc (gzflags s) (acc @ [c]) (map_option (\<lambda>g. g\<lparr>gz_os := uint c\<rparr>) (i_gzhead s)) ys)"
proof (cases "i_next_in s")
  case Nil
  then have "inf_step crc s = Leave Z_OK s" using assms(3) by (simp add: step_simps inf_os_def get_byte_Nil)
  then show ?thesis using Nil agrees_more by simp
next
  case (Cons c ys)
  define s1 where "s1 = (upd_gzhead (\<lambda>g. g\<lparr>gz_os := uint c\<rparr>) (got crc c s))\<lparr>inf_held := 0, inf_length := 0, inf_state := inf_state_gzip_xlen\<rparr>"
  have step: "inf_step crc s = Again s1"
    using assms(3) Cons get_byte_early [OF assms(1)] by (simp add: step_simps inf_os_def go_def s1_def)
  have "early (acc @ [c]) (upd_gzhead (\<lambda>g. g\<lparr>gz_os := uint c\<rparr>) (got crc c s))"
    using assms(1,2) by (intro early_upd_gzhead early_got) (simp_all add: request_ok_def)
  then have "early (acc @ [c]) s1" by (simp add: s1_def)
  then have m: "mid (acc @ [c]) s1"
    using assms(4) ckidx_got(2) [of s crc c] by (intro early_mid) (simp_all add: s1_def)
  have "ckidx s1 \<le> 126" using \<open>early (acc @ [c]) s1\<close> assms(2) by (simp add: early_def pos_def)
  with m have "agrees s1 (gz_p_extra crc (gzflags s1) (acc @ [c]) (i_gzhead s1) (i_next_in s1))"
    by (intro agrees_xlen) (simp_all add: s1_def)
  then have "agrees s (gz_p_extra crc (gzflags s1) (acc @ [c]) (i_gzhead s1) (i_next_in s1))"
    by (rule agrees_back [OF _ step]) (simp_all add: s1_def Cons)
  then show ?thesis by (simp add: s1_def Cons)
qed

lemma agrees_xfl:
  assumes "early acc s" and "length acc < 19" and "inf_state s = inf_state_gzip_xfl" and "gzflags s AND 0x02 \<noteq> 0 \<longrightarrow> ckidx s = 0"
  shows "agrees s (case i_next_in s of
      c # d # ys \<Rightarrow> gz_p_extra crc (gzflags s) (acc @ [c, d]) (map_option (\<lambda>g. g\<lparr>gz_xflags := uint c, gz_os := uint d\<rparr>) (i_gzhead s)) ys
    | _ \<Rightarrow> More)"
proof (cases "i_next_in s")
  case Nil
  then have "inf_step crc s = Leave Z_OK s" using assms(3) by (simp add: step_simps inf_xfl_def get_byte_Nil)
  then show ?thesis using Nil agrees_more by simp
next
  case (Cons c ys)
  define s1 where "s1 = (upd_gzhead (\<lambda>g. g\<lparr>gz_xflags := uint c\<rparr>) (got crc c s))\<lparr>inf_state := inf_state_gzip_os\<rparr>"
  have step: "inf_step crc s = Again s1"
    using assms(3) Cons get_byte_early [OF assms(1)] by (simp add: step_simps inf_xfl_def go_def s1_def)
  have "early (acc @ [c]) (upd_gzhead (\<lambda>g. g\<lparr>gz_xflags := uint c\<rparr>) (got crc c s))"
    using assms(1,2) by (intro early_upd_gzhead early_got) (simp_all add: request_ok_def)
  then have "early (acc @ [c]) s1" by (simp add: s1_def)
  then have "agrees s1 (case i_next_in s1 of [] \<Rightarrow> More
    | d # ys \<Rightarrow> gz_p_extra crc (gzflags s1) ((acc @ [c]) @ [d]) (map_option (\<lambda>g. g\<lparr>gz_os := uint d\<rparr>) (i_gzhead s1)) ys)"
    using assms(2,4) ckidx_got(2) [of s crc c] by (intro agrees_os) (simp_all add: s1_def)
  then have "agrees s (case i_next_in s1 of [] \<Rightarrow> More
    | d # ys \<Rightarrow> gz_p_extra crc (gzflags s1) ((acc @ [c]) @ [d]) (map_option (\<lambda>g. g\<lparr>gz_os := uint d\<rparr>) (i_gzhead s1)) ys)"
    by (rule agrees_back [OF _ step]) (simp_all add: s1_def Cons)
  then show ?thesis by (cases ys) (simp_all add: s1_def Cons option.map_comp comp_def)
qed

text \<open>The bytes of a counted loop.\<close>

lemma pos_fold:
  assumes "\<And>acc c s. pos acc (f c s) = pos acc s" and "\<And>acc n s. pos acc (s\<lparr>inf_held := n\<rparr>) = pos acc s"
  shows "pos acc s \<Longrightarrow> length acc + length bs \<le> 128 \<Longrightarrow> pos (acc @ bs) (fold (held_step f) bs s)"
proof (induction bs arbitrary: acc s)
  case (Cons c cs)
  then have "pos (acc @ [c]) (held_step f c s)"
    using assms pos_got [of acc s c] by (simp add: held_step_def Let_def)
  then show ?case using Cons.IH [of "acc @ [c]" "held_step f c s"] Cons.prems by simp
qed simp

definition set_mtime :: "u8 \<Rightarrow> nx_inf \<Rightarrow> nx_inf" where
  "set_mtime c s = upd_gzhead (\<lambda>h. h\<lparr>gz_time := ucast (push_bit (8 * inf_held s) (ucast c :: u32)) OR gz_time h\<rparr>) s"

lemma quiet_mtime: "quiet set_mtime"
  by (simp add: quiet_def set_mtime_def)

lemma time_value:
  "ucast (push_bit 24 (ucast d :: u32)) OR (ucast (push_bit 16 (ucast c :: u32)) OR (ucast (push_bit 8 (ucast b :: u32)) OR
     ucast (ucast a :: u32))) = (word_of_nat (le_val [a, b, c, d]) :: u64)" for a b c d :: u8
proof -
  have up: "unat (ucast x :: u64) = unat x" for x :: u32
    using unsigned_less [of x, where 'a=nat] by (simp add: unsigned_ucast_eq take_bit_nat_eq_self)
  have a: "unat (ucast a :: u32) = unat a" using unat_byte_shift [of 0 a] by simp
  have v: "le_val [a, b, c, d] < 2 ^ 32"
    using unat_byte [of a] unat_byte [of b] unat_byte [of c] unat_byte [of d] by (simp add: le_val_def)
  then have "unat (word_of_nat (le_val [a, b, c, d]) :: u64) = le_val [a, b, c, d]"
    by (simp add: unsigned_of_nat take_bit_nat_eq_self)
  then show ?thesis
    unfolding word_unat_eq_iff unsigned_or_eq up a by (simp add: unat_byte_shift le_val_4)
qed

lemma time_range: "(word_of_nat t :: u64) AND 0xffffffff80000000 \<noteq> 0 \<longleftrightarrow> 2 ^ 31 \<le> t" if "t < 2 ^ 32"
proof -
  have "(0xffffffff80000000 :: u64) = NOT (mask 31)" by (simp add: mask_eq_exp_minus_1)
  moreover have "(x :: u64) AND NOT (mask 31) = 0 \<longleftrightarrow> unat x < 2 ^ 31" for x
  proof -
    have "x AND NOT (mask 31) = 0 \<longleftrightarrow> take_bit 31 x = x"
      by (simp add: bit_eq_iff bit_simps) blast
    also have "\<dots> \<longleftrightarrow> take_bit 31 (unat x) = unat x"
      by (simp add: word_unat_eq_iff unsigned_take_bit_eq)
    also have "\<dots> \<longleftrightarrow> unat x < 2 ^ 31" by (rule take_bit_nat_eq_self_iff)
    finally show ?thesis .
  qed
  moreover have "unat (word_of_nat t :: u64) = t" using that by (simp add: unsigned_of_nat take_bit_nat_eq_self)
  ultimately show ?thesis by (simp add: not_less)
qed

lemma fold_mtime:
  assumes "inf_held s = 0" and "\<And>g. i_gzhead s = Some g \<Longrightarrow> gz_time g = 0" and "i_next_in s = [a, b, c, d] @ ys"
  defines "s1 \<equiv> fold (held_step set_mtime) [a, b, c, d] s"
  shows "i_next_in s1 = ys" "i_gzhead s1 = map_option (\<lambda>g. g\<lparr>gz_time := word_of_nat (le_val [a, b, c, d])\<rparr>) (i_gzhead s)"
    "i_wrap s1 = i_wrap s" "i_total_in s1 = i_total_in s + 4" "gzflags s1 = gzflags s" "inf_state s1 = inf_state s"
    "gzflags s AND 0x02 \<noteq> 0 \<Longrightarrow> ckidx s1 = 0"
proof -
  show "i_next_in s1 = ys" "i_wrap s1 = i_wrap s" "i_total_in s1 = i_total_in s + 4" "gzflags s1 = gzflags s" "inf_state s1 = inf_state s"
    using assms(3) by (simp_all add: s1_def held_step_def Let_def set_mtime_def)
  show "i_gzhead s1 = map_option (\<lambda>g. g\<lparr>gz_time := word_of_nat (le_val [a, b, c, d])\<rparr>) (i_gzhead s)"
    using assms(1,2) by (cases "i_gzhead s") (simp_all add: s1_def held_step_def Let_def set_mtime_def flip: time_value)
  assume "gzflags s AND 0x02 \<noteq> 0"
  then show "ckidx s1 = 0"
    using ckidx_got(2) by (simp add: s1_def held_step_def Let_def set_mtime_def)
qed

lemma agrees_mtime:
  assumes "early acc s" and "length acc < 15" and "inf_state s = inf_state_gzip_mtime" and "inf_held s = 0"
    and "\<And>g. i_gzhead s = Some g \<Longrightarrow> gz_time g = 0"
  shows "agrees s (if i_avail_in s < 4 then More
    else let t = le_val (take 4 (i_next_in s)) in
      if i_gzhead s \<noteq> None \<and> 2 ^ 31 \<le> t then Broken
      else if i_avail_in s < 6 then More
      else gz_p_extra crc (gzflags s) (acc @ take 6 (i_next_in s))
        (map_option (\<lambda>g. g\<lparr>gz_time := word_of_nat t, gz_xflags := uint (i_next_in s ! 4), gz_os := uint (i_next_in s ! 5)\<rparr>) (i_gzhead s))
        (drop 6 (i_next_in s)))"
proof -
  define k where "k = (\<lambda>s. let s = s\<lparr>inf_held := 0\<rparr> in
      case i_gzhead s of
        None \<Rightarrow> go inf_state_gzip_xfl s
      | Some h \<Rightarrow> if gz_time h AND 0xffffffff80000000 \<noteq> 0 then Fault else go inf_state_gzip_xfl s)"
  have step: "inf_step crc s = while_held crc 4 set_mtime k s"
    using assms(3,4) by (simp add: step_simps inf_mtime_def set_mtime_def [abs_def] k_def)
  have room: "ckidx s + 4 \<le> length (ckbuf s)" using assms(1,2) by (simp add: early_def pos_def)
  show ?thesis
  proof (cases "i_avail_in s < 4")
    case True
    then show ?thesis
      using while_held_short [OF quiet_mtime True room, of k] step agrees_more by auto
  next
    case False
    then have "length (take 4 (i_next_in s)) = 4" by simp
    then obtain a b c d where "take 4 (i_next_in s) = [a, b, c, d]" using list_of_4 by blast
    then obtain ys where xs: "i_next_in s = [a, b, c, d] @ ys" by (metis append_take_drop_id)
    define t where "t = le_val [a, b, c, d]"
    define s1 where "s1 = fold (held_step set_mtime) [a, b, c, d] s"
    note f = fold_mtime [OF assms(4,5) xs, folded s1_def t_def]
    have "inf_step crc s = k s1"
      unfolding step s1_def by (rule while_held_all [OF quiet_mtime xs _ room]) simp
    have t: "t < 2 ^ 32"
      using unat_byte [of a] unat_byte [of b] unat_byte [of c] unat_byte [of d] by (simp add: t_def le_val_def)
    have e1: "early (acc @ [a, b, c, d]) s1"
    proof -
      have "pos (acc @ [a, b, c, d]) s1" unfolding s1_def
        using assms(1,2) by (intro pos_fold) (simp_all add: set_mtime_def early_def)
      then show ?thesis using assms(1,2) f(2) by (auto simp: early_def request_ok_def)
    qed
    show ?thesis
    proof (cases "i_gzhead s \<noteq> None \<and> 2 ^ 31 \<le> t")
      case True
      then have "inf_step crc s = Fault"
        using \<open>inf_step crc s = k s1\<close> f(2) time_range [OF t] by (auto simp: k_def Let_def)
      then show ?thesis using True False agrees_fault xs by (simp add: t_def Let_def)
    next
      case small: False
      define s2 where "s2 = s1\<lparr>inf_held := 0, inf_state := inf_state_gzip_xfl\<rparr>"
      have step2: "inf_step crc s = Again s2"
        using \<open>inf_step crc s = k s1\<close> small f(2) time_range [OF t] by (cases "i_gzhead s") (auto simp: k_def s2_def go_def Let_def)
      have "agrees s2 (case i_next_in s2 of
          x # y # ys \<Rightarrow> gz_p_extra crc (gzflags s2) ((acc @ [a, b, c, d]) @ [x, y]) (map_option (\<lambda>g. g\<lparr>gz_xflags := uint x, gz_os := uint y\<rparr>) (i_gzhead s2)) ys
        | _ \<Rightarrow> More)"
        using e1 assms(2) f by (intro agrees_xfl) (simp_all add: s2_def)
      then have "agrees s (case i_next_in s2 of
          x # y # ys \<Rightarrow> gz_p_extra crc (gzflags s2) ((acc @ [a, b, c, d]) @ [x, y]) (map_option (\<lambda>g. g\<lparr>gz_xflags := uint x, gz_os := uint y\<rparr>) (i_gzhead s2)) ys
        | _ \<Rightarrow> More)"
        by (intro agrees_back [OF _ step2]) (use f xs in \<open>simp_all add: s2_def\<close>)
      moreover have "i_next_in s2 = ys" "gzflags s2 = gzflags s" "i_gzhead s2 = map_option (\<lambda>g. g\<lparr>gz_time := word_of_nat t\<rparr>) (i_gzhead s)"
        using f by (simp_all add: s2_def)
      ultimately show ?thesis
        using small xs by (cases ys; cases "tl ys") (auto simp: t_def Let_def option.map_comp comp_def)
    qed
  qed
qed

lemma agrees_flg:
  assumes "early acc s" and "length acc < 14" and "inf_state s = inf_state_gzip_flg"
  shows "agrees s (gz_p_flg crc acc (i_gzhead s) (i_next_in s))"
proof (cases "i_next_in s")
  case Nil
  then have "inf_step crc s = Leave Z_OK s" using assms(3) by (simp add: step_simps inf_flg_def get_byte_Nil)
  then show ?thesis using Nil agrees_more by (simp add: gz_p_flg_def)
next
  case (Cons c ys)
  define s0 where "s0 = (got crc c s)\<lparr>gzflags := c\<rparr>"
  define s1 where "s1 = (upd_gzhead (\<lambda>h. h\<lparr>gz_text := uint (c AND 1), gz_time := 0\<rparr>) s0)\<lparr>inf_held := 0, inf_state := inf_state_gzip_mtime\<rparr>"
  have step: "inf_step crc s = (if c AND 0xe0 \<noteq> 0 then data_error ''unknown header flags set'' s0 else Again s1)"
    using assms(3) Cons get_byte_early [OF assms(1)] by (simp add: step_simps inf_flg_def go_def s1_def s0_def Let_def)
  show ?thesis
  proof (cases "c AND 0xe0 = 0")
    case False
    then show ?thesis using step agrees_reject Cons by (simp add: gz_p_flg_def)
  next
    case True
    have "early (acc @ [c]) (got crc c s)" using assms(1,2) by (intro early_got) simp_all
    then have "early (acc @ [c]) s1" by (auto simp: s1_def s0_def early_def request_ok_def)
    then have "agrees s1 (if i_avail_in s1 < 4 then More
      else let t = le_val (take 4 (i_next_in s1)) in
        if i_gzhead s1 \<noteq> None \<and> 2 ^ 31 \<le> t then Broken
        else if i_avail_in s1 < 6 then More
        else gz_p_extra crc (gzflags s1) ((acc @ [c]) @ take 6 (i_next_in s1))
          (map_option (\<lambda>g. g\<lparr>gz_time := word_of_nat t, gz_xflags := uint (i_next_in s1 ! 4), gz_os := uint (i_next_in s1 ! 5)\<rparr>) (i_gzhead s1))
          (drop 6 (i_next_in s1)))" (is "agrees s1 ?p")
      using assms(2) by (intro agrees_mtime) (auto simp: s1_def)
    then have "agrees s ?p"
      by (rule agrees_back) (use step True Cons in \<open>simp_all add: s1_def s0_def\<close>)
    moreover have "i_next_in s1 = ys" "gzflags s1 = c"
        "i_gzhead s1 = map_option (\<lambda>h. h\<lparr>gz_text := uint (c AND 1), gz_time := 0\<rparr>) (i_gzhead s)"
      using Cons by (simp_all add: s1_def s0_def)
    ultimately show ?thesis
      using True by (auto simp: gz_p_flg_def Cons Let_def option.map_comp comp_def split: if_splits)
  qed
qed

text \<open>The three bytes before it.\<close>

lemma agrees_magic_byte:
  assumes "inf_step crc s = expect_byte crc m msg st s" and "early acc s" and "length acc < 14"
    and "\<And>s'. early (acc @ [m]) s' \<Longrightarrow> inf_state s' = st \<Longrightarrow> agrees s' (gz_p_magic ms (k (i_gzhead s')) (i_next_in s'))"
  shows "agrees s (gz_p_magic (m # ms) (k (i_gzhead s)) (i_next_in s))"
proof (cases "i_next_in s")
  case Nil
  then have "inf_step crc s = Leave Z_OK s" using assms(1) by (simp add: expect_byte_def get_byte_Nil)
  then show ?thesis using Nil agrees_more by simp
next
  case (Cons c ys)
  define s1 where "s1 = (got crc c s)\<lparr>inf_state := st\<rparr>"
  have step: "inf_step crc s = (if c \<noteq> m then data_error msg (got crc c s) else Again s1)"
    using Cons get_byte_early [OF assms(2)] by (simp add: assms(1) expect_byte_def go_def s1_def)
  show ?thesis
  proof (cases "c = m")
    case False
    then show ?thesis using step agrees_reject Cons by simp
  next
    case True
    have "early (acc @ [m]) s1" unfolding s1_def True using assms(2,3) early_got [of acc s m] by simp
    then have "agrees s1 (gz_p_magic ms (k (i_gzhead s1)) (i_next_in s1))" by (rule assms(4)) (simp add: s1_def)
    then have "agrees s (gz_p_magic ms (k (i_gzhead s1)) (i_next_in s1))"
      by (rule agrees_back) (use step True Cons in \<open>simp_all add: s1_def\<close>)
    then show ?thesis using True Cons by (simp add: s1_def)
  qed
qed

lemma agrees_cm:
  assumes "early [0x1f, 0x8b] s" and "inf_state s = inf_state_gzip_cm"
  shows "agrees s (gz_p_magic [8] (gz_p_flg crc [0x1f, 0x8b, 8] (i_gzhead s)) (i_next_in s))"
  by (rule agrees_magic_byte [where k = "gz_p_flg crc [0x1f, 0x8b, 8]", OF step_simps(3) [OF assms(2)] assms(1)])
    (use agrees_flg [of "[0x1f, 0x8b, 8]"] in simp_all)

lemma agrees_id2:
  assumes "early [0x1f] s" and "inf_state s = inf_state_gzip_id2"
  shows "agrees s (gz_p_magic [0x8b, 8] (gz_p_flg crc [0x1f, 0x8b, 8] (i_gzhead s)) (i_next_in s))"
  by (rule agrees_magic_byte [where k = "gz_p_flg crc [0x1f, 0x8b, 8]", OF step_simps(2) [OF assms(2)] assms(1)])
    (use agrees_cm in simp_all)

lemma agrees_id1:
  assumes "early [] s" and "inf_state s = inf_state_gzip_id1"
  shows "agrees s (gz_parse crc (i_gzhead s) (i_next_in s))"
  unfolding gz_parse_def
  by (rule agrees_magic_byte [where k = "gz_p_flg crc [0x1f, 0x8b, 8]", OF step_simps(1) [OF assms(2)] assms(1)])
    (use agrees_id2 in simp_all)

section \<open>From the start\<close>

lemma agrees_start:
  assumes "gzip_start s"
  obtains s0 where "inf_step crc s = Again s0" "agrees s0 (gz_parse crc (gzip_request s) (i_next_in s))"
    "i_wrap s0 = HEADER_GZIP" "i_total_in s0 + i_avail_in s0 = i_total_in s + i_avail_in s"
proof (cases "i_wrap s = HEADER_GZIP")
  case True
  define s0 where "s0 = (upd_gzhead (\<lambda>h. h\<lparr>gz_done := 0\<rparr>) s)\<lparr>inf_state := inf_state_gzip_id1\<rparr>"
  have "inf_step crc s = Again s0"
    using assms True by (simp add: gzip_start_def inf_step_def inf_header_def wrap_codes go_def s0_def) (simp add: header_codes)
  moreover have "early [] s0"
    using assms by (auto simp: gzip_start_def early_def pos_def header_sum_def crc_Nil s0_def request_ok_def)
  then have "agrees s0 (gz_parse crc (gzip_request s) (i_next_in s))"
    using agrees_id1 [of s0] True by (simp add: s0_def gzip_request_def)
  ultimately show ?thesis using that True by (simp add: s0_def)
next
  case False
  then obtain xs where w: "i_wrap s = HEADER_ZLIB OR HEADER_GZIP" and xs: "i_next_in s = 0x1f # xs"
    using assms by (cases "i_next_in s") (auto simp: gzip_start_def)
  have e: "early [] s" using assms by (auto simp: gzip_start_def early_def pos_def header_sum_def crc_Nil)
  define s0 where "s0 = (got crc 0x1f s)\<lparr>i_wrap := HEADER_GZIP, inf_state := inf_state_gzip_id2\<rparr>"
  have "inf_step crc s = Again s0"
    using assms w xs get_byte_early [OF e] by (simp add: gzip_start_def inf_step_def inf_header_def go_def s0_def)
  moreover have "early [0x1f] s0" using early_got [OF e, of "0x1f"] by (simp add: s0_def)
  then have "agrees s0 (gz_parse crc (gzip_request s) (i_next_in s))"
    using agrees_id2 [of s0] False xs by (simp add: s0_def gzip_request_def gz_parse_def)
  ultimately show ?thesis using that xs by (simp add: s0_def)
qed

end

text \<open>
  Claim C23. On every input, the resumable state machine does what the reference parser of RFC 1952 does that sees the
  input at once: it hands over to the decompressor exactly behind a well-formed header and has then stored
  every field that the caller asked for within the sizes given, rejects a malformed header with
  Z_DATA_ERROR, asks for more input inside a header, and crashes exactly where the parser says \<open>Broken\<close>.
\<close>

theorem gzip_header_read:
  assumes "gzip_start s"
  shows "case gz_parse lib_crc32 (gzip_request s) (i_next_in s) of
      Done h rest \<Rightarrow> \<exists>s'. inf_run lib_crc32 s = Some (Body s') \<and> i_next_in s' = rest \<and> i_gzhead s' = h
        \<and> i_wrap s' = HEADER_GZIP \<and> i_crc32 s' = INIT_CRC \<and> i_total_in s' + length rest = i_total_in s + i_avail_in s
    | Reject \<Rightarrow> \<exists>s'. inf_run lib_crc32 s = Some (Leave Z_DATA_ERROR s')
    | More \<Rightarrow> \<exists>s'. inf_run lib_crc32 s = Some (Leave Z_OK s')
    | Broken \<Rightarrow> inf_run lib_crc32 s = Some Fault"
proof -
  obtain s0 where s0: "inf_step lib_crc32 s = Again s0" "lib.agrees s0 (gz_parse lib_crc32 (gzip_request s) (i_next_in s))"
      "i_wrap s0 = HEADER_GZIP" "i_total_in s0 + i_avail_in s0 = i_total_in s + i_avail_in s"
    using lib.agrees_start [OF assms] .
  have "inf_run lib_crc32 s = inf_run lib_crc32 s0" by (rule inf_run_again) (rule s0(1))
  then show ?thesis using s0(2-4) by (auto simp: lib.agrees_def lib.ready_def split: parse.split)
qed

definition blank_header :: gz_header where
  "blank_header = \<lparr>gz_text = 0, gz_time = 0, gz_xflags = 0, gz_os = 3, gz_extra = None, gz_extra_len = 0, gz_extra_max = 0,
     gz_name = None, gz_name_max = 0, gz_comment = None, gz_comm_max = 0, gz_hcrc = 0, gz_done = 0\<rparr>"

definition inf_example :: nx_inf where
  "inf_example = \<lparr>i_next_in = [], i_total_in = 0, i_avail_out = 9, i_total_out = 0, i_wrap = HEADER_GZIP, i_windowBits = 15,
     inf_state = inf_state_header, inf_held = 0, i_gzhead = Some (blank_header\<lparr>gz_extra := Some [0, 0], gz_extra_max := 1,
     gz_name := Some [0, 0, 0], gz_name_max := 3\<rparr>), gzflags = 0, inf_length = 0, cksum = INIT_CRC, ckbuf = replicate 128 0,
     ckidx = 0, hcrc16 = 0, zlib_cmf = 0, i_dict_len = 0, i_dict_id = 0, i_adler = 0, i_adler32 = INIT_ADLER, i_crc32 = INIT_CRC,
     i_zadler = 0, i_msg = None, i_used_in = 0, i_cur_in = 0, i_used_out = 0, i_cur_out = 32768, i_history_len = 0, resuming = 0,
     is_final = 0, trailer_len = 0\<rparr>"

lemma gzip_start_example: "gzip_start (inf_example\<lparr>i_next_in := xs\<rparr>)"
  by (simp add: gzip_start_def inf_example_def request_ok_def blank_header_def)

theorem gzip_header_read_witness:
  "\<exists>s'. inf_run lib_crc32 (inf_example\<lparr>i_next_in := [0x1f, 0x8b, 8, 0x20, 1, 2]\<rparr>) = Some (Leave Z_DATA_ERROR s')"
proof -
  have "gz_parse lib_crc32 h [0x1f, 0x8b, 8, 0x20, 1, 2] = Reject" for h
    by (simp add: gz_parse_def gz_p_flg_def)
  then show ?thesis using gzip_header_read [OF gzip_start_example, of "[0x1f, 0x8b, 8, 0x20, 1, 2]"] by simp
qed

end
