(* ===== verification/InflateZlib.thy ===== *)
theory InflateZlib
  imports InflateHeaderCorrect
begin

text \<open>
  The zlib branch of the header machine (RFC 1950) against a parser that sees the whole input, with the
  detour through \<^verbatim>\<open>Z_NEED_DICT\<close> when the stream was compressed with a dictionary.
\<close>

section \<open>The reference parser\<close>

text \<open>\<open>Done None\<close>: a header without a dictionary; \<open>Done (Some id)\<close>: the dictionary \<open>id\<close> is needed.\<close>

definition be_val :: "u8 list \<Rightarrow> u32" where
  "be_val bs = fold (\<lambda>c v. push_bit 8 v OR ucast c) bs 0"

definition z_parse :: "u8 list \<Rightarrow> u32 option parse" where
  "z_parse xs =
     (case xs of
        [] \<Rightarrow> More
      | cmf # ys \<Rightarrow>
          if cmf AND 0x0f \<noteq> 8 \<or> 8 \<le> drop_bit 4 cmf AND 0x0f then Reject
          else (case ys of
                  [] \<Rightarrow> More
                | flg # zs \<Rightarrow>
                    if (unat cmf * 256 + unat flg) mod 31 \<noteq> 0 then Reject
                    else if \<not> bit flg 5 then Done None zs
                    else if length zs < 4 then More
                    else Done (Some (be_val (take 4 zs))) (drop 4 zs)))"

definition zlib_start :: "nx_inf \<Rightarrow> bool" where
  "zlib_start s \<longleftrightarrow> inf_state s = inf_state_header
     \<and> (i_wrap s = HEADER_ZLIB \<or> i_wrap s = HEADER_ZLIB OR HEADER_GZIP \<and> (i_next_in s = [] \<or> hd (i_next_in s) \<noteq> 0x1f))
     \<and> ckidx s + 8 \<le> length (ckbuf s)"

section \<open>Agreement\<close>

text \<open>The dictionary was supplied with \<^verbatim>\<open>inflateSetDictionary\<close>.\<close>

definition with_dict :: "nat \<Rightarrow> nx_inf \<Rightarrow> nx_inf" where
  "with_dict n s = s\<lparr>i_dict_len := n\<rparr>"

definition z_ready :: "u8 list \<Rightarrow> nx_inf \<Rightarrow> bool" where
  "z_ready rest s' \<longleftrightarrow> i_next_in s' = rest \<and> inf_state s' = inf_state_inflate \<and> i_adler32 s' = INIT_ADLER \<and> i_adler s' = INIT_ADLER"

definition z_parse_flg :: "u8 \<Rightarrow> u8 list \<Rightarrow> u32 option parse" where
  "z_parse_flg cmf ys =
     (case ys of
        [] \<Rightarrow> More
      | flg # zs \<Rightarrow>
          if (unat cmf * 256 + unat flg) mod 31 \<noteq> 0 then Reject
          else if \<not> bit flg 5 then Done None zs
          else if length zs < 4 then More
          else Done (Some (be_val (take 4 zs))) (drop 4 zs))"

context running_checksum
begin

definition z_agrees :: "nx_inf \<Rightarrow> u32 option parse \<Rightarrow> bool" where
  "z_agrees s p \<longleftrightarrow>
     (case p of
        Done None rest \<Rightarrow> \<exists>s'. inf_run crc s = Some (Body s') \<and> z_ready rest s' \<and> i_wrap s' = HEADER_ZLIB
      | Done (Some d) rest \<Rightarrow> \<exists>s'. inf_run crc s = Some (NeedDict s') \<and> i_zadler s' = d \<and> i_next_in s' = rest
          \<and> (\<forall>n > 0. \<exists>s''. inf_run crc (with_dict n s') = Some (Body s'') \<and> z_ready rest s'' \<and> i_wrap s'' = HEADER_ZLIB)
      | Reject \<Rightarrow> \<exists>s'. inf_run crc s = Some (Leave Z_DATA_ERROR s')
      | More \<Rightarrow> \<exists>s'. inf_run crc s = Some (Leave Z_OK s')
      | Broken \<Rightarrow> False)"

lemma z_agrees_back: "z_agrees s' p \<Longrightarrow> inf_step crc s = Again s' \<Longrightarrow> z_agrees s p"
proof -
  assume a: "z_agrees s' p" and "inf_step crc s = Again s'"
  then have run: "inf_run crc s = inf_run crc s'" by (intro inf_run_again)
  show ?thesis using a unfolding z_agrees_def run .
qed

lemma z_agrees_more: "inf_step crc s = Leave Z_OK s' \<Longrightarrow> z_agrees s More"
  using inf_run_stop [of crc s "Leave Z_OK s'"] by (auto simp: z_agrees_def)

lemma z_agrees_reject: "inf_step crc s = data_error m s' \<Longrightarrow> z_agrees s Reject"
  using agrees_reject [of s m s'] by (auto simp: z_agrees_def agrees_def)

lemma z_step_simps:
  "inf_state s = inf_state_zlib_id1 \<Longrightarrow> inf_step crc s = inf_zlib_id1 crc s"
  "inf_state s = inf_state_zlib_flg \<Longrightarrow> inf_step crc s = inf_zlib_flg crc s"
  "inf_state s = inf_state_zlib_dictid \<Longrightarrow> inf_step crc s = inf_zlib_dictid crc s"
  "inf_state s = inf_state_zlib_dict \<Longrightarrow> inf_step crc s = inf_zlib_dict s"
  by (simp_all add: inf_step_def)

definition dict_byte :: "u8 \<Rightarrow> nx_inf \<Rightarrow> nx_inf" where
  "dict_byte c s = s\<lparr>i_dict_id := push_bit 8 (i_dict_id s) OR ucast c\<rparr>"

lemma fold_dict:
  "i_next_in s = bs @ ys \<Longrightarrow> i_next_in (fold (held_step dict_byte) bs s) = ys
   \<and> i_dict_id (fold (held_step dict_byte) bs s) = fold (\<lambda>c v. push_bit 8 v OR ucast c) bs (i_dict_id s)
   \<and> i_wrap (fold (held_step dict_byte) bs s) = i_wrap s"
  by (induction bs arbitrary: s) (simp_all add: held_step_def dict_byte_def Let_def)

lemma z_agrees_dictid:
  assumes "inf_state s = inf_state_zlib_dictid" and "inf_held s = 0" and "i_dict_id s = 0" and "i_wrap s = HEADER_ZLIB"
    and "ckidx s + 4 \<le> length (ckbuf s)"
  shows "z_agrees s (if i_avail_in s < 4 then More else Done (Some (be_val (take 4 (i_next_in s)))) (drop 4 (i_next_in s)))"
proof -
  define k where "k = (\<lambda>s. go inf_state_zlib_dict (s\<lparr>i_zadler := i_dict_id s, inf_held := 0, i_dict_len := 0\<rparr>))"
  have q: "quiet dict_byte" by (simp add: quiet_def dict_byte_def)
  have step: "inf_step crc s = while_held crc 4 dict_byte k s"
    using assms(1,2) by (simp add: z_step_simps inf_zlib_dictid_def k_def dict_byte_def [abs_def])
  show ?thesis
  proof (cases "i_avail_in s < 4")
    case True
    then show ?thesis using while_held_short [OF q True assms(5), of k] step z_agrees_more by auto
  next
    case False
    define bs where "bs = take 4 (i_next_in s)"
    define ys where "ys = drop 4 (i_next_in s)"
    have xs: "i_next_in s = bs @ ys" "length bs = 4" using False by (simp_all add: bs_def ys_def)
    define s1 where "s1 = fold (held_step dict_byte) bs s"
    have s1: "i_next_in s1 = ys" "i_dict_id s1 = be_val bs" "i_wrap s1 = HEADER_ZLIB"
      using fold_dict [OF xs(1)] assms(3,4) by (simp_all add: s1_def be_val_def)
    define s2 where "s2 = s1\<lparr>i_zadler := be_val bs, inf_held := 0, i_dict_len := 0, inf_state := inf_state_zlib_dict\<rparr>"
    have "inf_step crc s = Again s2"
      using while_held_all [OF q xs assms(5), of k] s1(2) by (simp add: step s1_def [symmetric] k_def go_def s2_def)
    moreover have "inf_run crc s2 = Some (NeedDict s2)"
      by (rule inf_run_stop) (simp_all add: z_step_simps inf_zlib_dict_def s2_def)
    moreover have "\<exists>s''. inf_run crc (with_dict n s2) = Some (Body s'') \<and> z_ready ys s'' \<and> i_wrap s'' = HEADER_ZLIB" if "0 < n" for n
    proof -
      define s3 where "s3 = (with_dict n s2)\<lparr>i_adler := INIT_ADLER, i_adler32 := INIT_ADLER, inf_state := inf_state_inflate\<rparr>"
      have "inf_step crc (with_dict n s2) = Again s3"
        using that by (simp add: z_step_simps inf_zlib_dict_def s2_def s3_def with_dict_def go_def)
      moreover have "inf_run crc s3 = Some (Body s3)" by (rule inf_run_stop) (simp_all add: step_simps s3_def)
      ultimately show ?thesis using s1 by (simp add: inf_run_again z_ready_def s3_def with_dict_def s2_def)
    qed
    ultimately show ?thesis
      using False s1 by (auto simp: z_agrees_def inf_run_again bs_def [symmetric] ys_def [symmetric]) (simp_all add: s2_def)
  qed
qed

lemma z_agrees_flg:
  assumes "inf_state s = inf_state_zlib_flg" and "i_wrap s = HEADER_ZLIB" and "ckidx s + 6 \<le> length (ckbuf s)"
  shows "z_agrees s (z_parse_flg (zlib_cmf s) (i_next_in s))"
proof (cases "i_next_in s")
  case Nil
  then have "inf_step crc s = Leave Z_OK s" using assms(1) by (simp add: z_step_simps inf_zlib_flg_def get_byte_Nil)
  then show ?thesis using Nil z_agrees_more by (simp add: z_parse_flg_def)
next
  case (Cons c ys)
  define s1 where "s1 = got crc c s"
  have s1: "i_next_in s1 = ys" "i_wrap s1 = HEADER_ZLIB" "ckidx s1 + 5 \<le> length (ckbuf s1)" "zlib_cmf s1 = zlib_cmf s"
    using Cons assms(2,3) ckidx_got(1) [of crc c s] by (simp_all add: s1_def)
  have step: "inf_step crc s = (if (unat (zlib_cmf s) * 256 + unat c) mod 31 \<noteq> 0 then data_error ''incorrect header check'' s1
       else if bit c 5 then Again (s1\<lparr>i_dict_id := 0, i_dict_len := 0, inf_held := 0, inf_state := inf_state_zlib_dictid\<rparr>)
       else Again (s1\<lparr>i_adler := INIT_ADLER, i_adler32 := INIT_ADLER, inf_held := 0, inf_state := inf_state_inflate\<rparr>))"
    using assms(1,3) Cons s1(4) by (simp add: z_step_simps inf_zlib_flg_def get_byte_Cons go_def s1_def)
  show ?thesis
  proof (cases "(unat (zlib_cmf s) * 256 + unat c) mod 31 = 0")
    case False
    then show ?thesis using step z_agrees_reject Cons by (simp add: z_parse_flg_def)
  next
    case valid: True
    show ?thesis
    proof (cases "bit c 5")
      case True
      define s2 where "s2 = s1\<lparr>i_dict_id := 0, i_dict_len := 0, inf_held := 0, inf_state := inf_state_zlib_dictid\<rparr>"
      have "z_agrees s2 (if i_avail_in s2 < 4 then More else Done (Some (be_val (take 4 (i_next_in s2)))) (drop 4 (i_next_in s2)))"
        using s1 by (intro z_agrees_dictid) (simp_all add: s2_def)
      then have "z_agrees s (if i_avail_in s2 < 4 then More else Done (Some (be_val (take 4 (i_next_in s2)))) (drop 4 (i_next_in s2)))"
        by (rule z_agrees_back) (use step valid True in \<open>simp add: s2_def\<close>)
      moreover have "i_next_in s2 = ys" by (simp add: s2_def s1(1))
      ultimately show ?thesis using valid True Cons by (simp add: z_parse_flg_def split: if_splits)
    next
      case False
      define s2 where "s2 = s1\<lparr>i_adler := INIT_ADLER, i_adler32 := INIT_ADLER, inf_held := 0, inf_state := inf_state_inflate\<rparr>"
      have "inf_run crc s2 = Some (Body s2)" by (rule inf_run_stop) (simp_all add: step_simps s2_def)
      moreover have "inf_step crc s = Again s2" using step valid False by (simp add: s2_def)
      ultimately show ?thesis using valid False Cons s1
        by (simp add: z_agrees_def z_parse_flg_def inf_run_again z_ready_def s2_def)
    qed
  qed
qed

lemma z_parse_alt:
  "z_parse xs = (case xs of [] \<Rightarrow> More | cmf # ys \<Rightarrow>
     if cmf AND 0x0f \<noteq> 8 \<or> 8 \<le> drop_bit 4 cmf AND 0x0f then Reject else z_parse_flg cmf ys)"
  by (simp add: z_parse_def z_parse_flg_def split: list.split)

lemma z_agrees_first:
  assumes "i_wrap s = HEADER_ZLIB" and "ckidx s + 8 \<le> length (ckbuf s)" and "i_next_in s = c # ys"
  defines "s1 \<equiv> (got crc c s)\<lparr>zlib_cmf := c, inf_state := inf_state_zlib_flg\<rparr>"
  shows "z_agrees s1 (z_parse_flg c ys)"
  using z_agrees_flg [of s1] assms ckidx_got(1) [of crc c s] by (simp add: s1_def)

lemma z_agrees_id1:
  assumes "inf_state s = inf_state_zlib_id1" and "i_wrap s = HEADER_ZLIB" and "ckidx s + 8 \<le> length (ckbuf s)"
  shows "z_agrees s (z_parse (i_next_in s))"
proof (cases "i_next_in s")
  case Nil
  then have "inf_step crc s = Leave Z_OK s" using assms(1) by (simp add: z_step_simps inf_zlib_id1_def get_byte_Nil)
  then show ?thesis using Nil z_agrees_more by (simp add: z_parse_alt)
next
  case (Cons c ys)
  define s1 where "s1 = got crc c s"
  have step: "inf_step crc s = (if c AND 0x0f \<noteq> 0x08 then data_error ''unknown compression method'' s1
       else if 8 \<le> drop_bit 4 c AND 0x0f then data_error ''invalid window size'' s1
       else Again (s1\<lparr>zlib_cmf := c, inf_state := inf_state_zlib_flg\<rparr>))"
    using assms(1,3) Cons by (simp add: z_step_simps inf_zlib_id1_def get_byte_Cons go_def s1_def)
  show ?thesis
  proof (cases "c AND 0x0f = 0x08 \<and> \<not> 8 \<le> drop_bit 4 c AND 0x0f")
    case True
    then have "inf_step crc s = Again (s1\<lparr>zlib_cmf := c, inf_state := inf_state_zlib_flg\<rparr>)" using step by simp
    with z_agrees_first [OF assms(2,3) Cons] have "z_agrees s (z_parse_flg c ys)" unfolding s1_def by (rule z_agrees_back)
    then show ?thesis using True Cons by (simp add: z_parse_alt)
  next
    case False
    then have "\<exists>m. inf_step crc s = data_error m s1" using step by auto
    then show ?thesis using False Cons z_agrees_reject by (auto simp: z_parse_alt)
  qed
qed

lemma z_agrees_start:
  assumes "zlib_start s"
  shows "z_agrees s (z_parse (i_next_in s))"
proof (cases "i_wrap s = HEADER_ZLIB")
  case True
  define s1 where "s1 = (upd_gzhead (\<lambda>h. h\<lparr>gz_done := -1\<rparr>) s)\<lparr>inf_state := inf_state_zlib_id1\<rparr>"
  have "inf_step crc s = Again s1"
    using assms True by (simp add: zlib_start_def inf_step_def inf_header_def wrap_codes go_def s1_def) (simp add: header_codes)
  moreover have "z_agrees s1 (z_parse (i_next_in s1))"
    using assms True by (intro z_agrees_id1) (simp_all add: zlib_start_def s1_def)
  ultimately show ?thesis using z_agrees_back by (simp add: s1_def)
next
  case False
  then have w: "i_wrap s = HEADER_ZLIB OR HEADER_GZIP" and st: "inf_state s = inf_state_header" and ck: "ckidx s + 8 \<le> length (ckbuf s)"
    using assms by (auto simp: zlib_start_def)
  show ?thesis
  proof (cases "i_next_in s")
    case Nil
    then have "inf_step crc s = Leave Z_OK s" using w st by (simp add: inf_step_def inf_header_def get_byte_Nil)
    then show ?thesis using Nil z_agrees_more by (simp add: z_parse_alt)
  next
    case (Cons c ys)
    then have c: "c \<noteq> 0x1f" using False assms by (auto simp: zlib_start_def)
    have step: "inf_step crc s = (if c AND 0x0f = 0x08 \<and> drop_bit 4 c AND 0x0f < 8
        then Again ((got crc c s)\<lparr>zlib_cmf := c, i_wrap := HEADER_ZLIB, inf_state := inf_state_zlib_flg\<rparr>)
        else data_error ''incorrect header'' (got crc c s))"
      using w st ck Cons c by (simp add: inf_step_def inf_header_def get_byte_Cons go_def)
    have next_flg: "z_agrees ((got crc c s)\<lparr>zlib_cmf := c, i_wrap := HEADER_ZLIB, inf_state := inf_state_zlib_flg\<rparr>) (z_parse_flg c ys)"
      using z_agrees_flg [of "(got crc c s)\<lparr>zlib_cmf := c, i_wrap := HEADER_ZLIB, inf_state := inf_state_zlib_flg\<rparr>"]
        ck Cons ckidx_got(1) [of crc c s] by simp
    show ?thesis
    proof (cases "c AND 0x0f = 0x08 \<and> drop_bit 4 c AND 0x0f < 8")
      case True
      then have "z_agrees s (z_parse_flg c ys)" using step by (intro z_agrees_back [OF next_flg]) simp
      then show ?thesis using True Cons by (simp add: z_parse_alt flip: not_less)
    next
      case False
      then have "inf_step crc s = data_error ''incorrect header'' (got crc c s)" using step by (simp only: if_not_P [OF False] if_False)
      then have "z_agrees s Reject" by (rule z_agrees_reject)
      then show ?thesis using False Cons by (auto simp: z_parse_alt not_less)
    qed
  qed
qed

end

text \<open>
  Claim C24. On every input, a stream that expects zlib data accepts exactly the headers of RFC 1950 (method 8, a window
  of at most 32K, a check value divisible by 31); it enters the decompressor behind the header, or
  reports the identifier of the dictionary and enters it once a dictionary was supplied.
\<close>

theorem zlib_header_read:
  assumes "zlib_start s"
  shows "case z_parse (i_next_in s) of
      Done None rest \<Rightarrow> \<exists>s'. inf_run lib_crc32 s = Some (Body s') \<and> z_ready rest s' \<and> i_wrap s' = HEADER_ZLIB
    | Done (Some d) rest \<Rightarrow> \<exists>s'. inf_run lib_crc32 s = Some (NeedDict s') \<and> i_zadler s' = d \<and> i_next_in s' = rest
        \<and> (\<forall>n > 0. \<exists>s''. inf_run lib_crc32 (with_dict n s') = Some (Body s'') \<and> z_ready rest s'' \<and> i_wrap s'' = HEADER_ZLIB)
    | Reject \<Rightarrow> \<exists>s'. inf_run lib_crc32 s = Some (Leave Z_DATA_ERROR s')
    | More \<Rightarrow> \<exists>s'. inf_run lib_crc32 s = Some (Leave Z_OK s')
    | Broken \<Rightarrow> False"
  using lib.z_agrees_start [OF assms] by (simp add: lib.z_agrees_def)

theorem zlib_header_read_witness:
  "\<exists>s'. inf_run lib_crc32 (inf_example\<lparr>i_wrap := HEADER_ZLIB, i_next_in := [0x78, 0x9c, 5]\<rparr>) = Some (Body s') \<and> z_ready [5] s'"
proof -
  have "zlib_start (inf_example\<lparr>i_wrap := HEADER_ZLIB, i_next_in := [0x78, 0x9c, 5]\<rparr>)" by (simp add: zlib_start_def inf_example_def)
  moreover have "z_parse [0x78, 0x9c, 5] = Done None [5]" by (simp add: z_parse_def bit_iff_odd_drop_bit)
  ultimately show ?thesis using zlib_header_read [of "inf_example\<lparr>i_wrap := HEADER_ZLIB, i_next_in := [0x78, 0x9c, 5]\<rparr>"] by auto
qed

end
