(* ===== verification/DeflateHeaderCorrect.thy ===== *)
theory DeflateHeaderCorrect
  imports DeflateHeader
begin

text \<open>
  The headers and trailers of \<^verbatim>\<open>DeflateHeader\<close> against RFC 1950 and RFC 1952: which bytes they append
  to the produced bytes, and that they return when the overflow buffer has room for them.
\<close>

section \<open>Emitting bytes\<close>

text \<open>
  \<open>room k s\<close>: \<open>k\<close> more bytes can be appended, because the overflow buffer is only in use when the
  user's buffer is full. \<open>emits bs n s s'\<close>: exactly \<open>bs\<close> was appended, \<open>n\<close> was added to the length of
  the header, and no other field changed.
\<close>

definition room :: "nat \<Rightarrow> nx_def \<Rightarrow> bool" where
  "room k s \<longleftrightarrow> out_ok s \<and> (used_out s = 0 \<or> avail_out s = 0) \<and> cur_out s + used_out s + k \<le> length (fifo_out s)"

definition same_rest :: "nx_def \<Rightarrow> nx_def \<Rightarrow> bool" where
  "same_rest s s' \<longleftrightarrow> (\<exists>ob n a t f u h. s' = s\<lparr>obuf := ob, next_out := n, avail_out := a, total_out := t,
     fifo_out := f, used_out := u, header_len := h\<rparr>)"

definition emits :: "u8 list \<Rightarrow> nat \<Rightarrow> nx_def \<Rightarrow> nx_def \<Rightarrow> bool" where
  "emits bs n s s' \<longleftrightarrow>
     out_bytes s' = out_bytes s @ bs \<and> (\<forall>k. room (length bs + k) s \<longrightarrow> room k s')
     \<and> length (obuf s') = length (obuf s) \<and> length (fifo_out s') = length (fifo_out s)
     \<and> next_out s' + avail_out s' = next_out s + avail_out s \<and> total_out s' + next_out s = total_out s + next_out s'
     \<and> header_len s' = header_len s + n \<and> same_rest s s'"

definition writes :: "(nx_def \<Rightarrow> nx_def option) \<Rightarrow> u8 list \<Rightarrow> nat \<Rightarrow> bool" where
  "writes f bs n \<longleftrightarrow> (\<forall>s. room (length bs) s \<longrightarrow> (\<exists>s'. f s = Some s' \<and> emits bs n s s'))"

lemma same_restI:
  assumes "s' = s\<lparr>obuf := obuf s', next_out := next_out s', avail_out := avail_out s', total_out := total_out s',
     fifo_out := fifo_out s', used_out := used_out s', header_len := header_len s'\<rparr>"
  shows "same_rest s s'"
  unfolding same_rest_def using assms by blast

lemma same_rest_simps [simp]:
  "same_rest s s" "same_rest s (add_header_len n s)"
  "same_rest s (update_stream_out k (s\<lparr>obuf := ob\<rparr>))" "same_rest s (s\<lparr>fifo_out := f, used_out := u\<rparr>)"
  by (cases s; simp add: same_restI add_header_len_def update_stream_out_def)+

lemma same_rest_trans: "same_rest s s1 \<Longrightarrow> same_rest s1 s2 \<Longrightarrow> same_rest s s2"
proof -
  assume "same_rest s s1" "same_rest s1 s2"
  then obtain o1 n1 a1 t1 f1 u1 h1 o2 n2 a2 t2 f2 u2 h2 where
    "s1 = s\<lparr>obuf := o1, next_out := n1, avail_out := a1, total_out := t1, fifo_out := f1, used_out := u1, header_len := h1\<rparr>"
    "s2 = s1\<lparr>obuf := o2, next_out := n2, avail_out := a2, total_out := t2, fifo_out := f2, used_out := u2, header_len := h2\<rparr>"
    unfolding same_rest_def by blast
  then have "s2 = s\<lparr>obuf := o2, next_out := n2, avail_out := a2, total_out := t2, fifo_out := f2, used_out := u2, header_len := h2\<rparr>"
    by simp
  then show ?thesis unfolding same_rest_def by blast
qed

lemma out_emits_trans:
  assumes "emits bs m s s1" and "emits cs n s1 s2"
  shows "emits (bs @ cs) (m + n) s s2"
proof -
  have "same_rest s s2" using assms by (auto simp: emits_def intro: same_rest_trans)
  then show ?thesis using assms by (auto simp: emits_def add.assoc)
qed

text \<open>The fields that are not on the output side.\<close>

lemma same_rest_fields:
  assumes "same_rest s s'"
  shows "status s' = status s" "wrap s' = wrap s" "crc32 s' = crc32 s" "adler32 s' = adler32 s" "total_in s' = total_in s"
    "dict_len s' = dict_len s" "dict_id s' = dict_id s" "tebc s' = tebc s" "cur_out s' = cur_out s" "next_in s' = next_in s"
    "flush s' = flush s" "len_out s' = len_out s" "zadler s' = zadler s" "gzhead s' = gzhead s"
  using assms by (auto simp: same_rest_def)

lemma writes_bind:
  assumes "writes f bs m" and "writes g cs n"
  shows "writes (\<lambda>s. Option.bind (f s) g) (bs @ cs) (m + n)"
  unfolding writes_def
proof (intro allI impI)
  fix s
  assume r: "room (length (bs @ cs)) s"
  then have "room (length bs) s" by (auto simp: room_def)
  then obtain s1 where s1: "f s = Some s1" "emits bs m s s1" using assms(1) by (auto simp: writes_def)
  then have "room (length cs) s1" using r by (auto simp: emits_def)
  then obtain s2 where "g s1 = Some s2" "emits cs n s1 s2" using assms(2) by (auto simp: writes_def)
  then show "\<exists>s'. Option.bind (f s) g = Some s' \<and> emits (bs @ cs) (m + n) s s'"
    using s1 out_emits_trans by auto
qed

lemma writes_Some: "writes Some [] 0"
  by (simp add: writes_def emits_def)

lemma writes_len: "writes (\<lambda>s. Some (add_header_len n s)) [] n"
proof -
  have "header_len (add_header_len n s) = header_len s + n" "out_bytes (add_header_len n s) = out_bytes s"
      "room k s \<Longrightarrow> room k (add_header_len n s)" "length (obuf (add_header_len n s)) = length (obuf s)"
      "length (fifo_out (add_header_len n s)) = length (fifo_out s)" "next_out (add_header_len n s) = next_out s"
      "avail_out (add_header_len n s) = avail_out s" "total_out (add_header_len n s) = total_out s" for s k
    by (simp_all add: add_header_len_def room_def out_defs)
  then show ?thesis by (simp add: writes_def emits_def)
qed

lemma writes_nx_put_byte: "writes (nx_put_byte b) [b] 0"
  unfolding writes_def
proof (intro allI impI)
  fix s
  assume r: "room (length [b]) s"
  then have ok: "out_ok s" and e: "used_out s = 0 \<or> avail_out s = 0" and l: "cur_out s + used_out s < length (fifo_out s)"
    by (auto simp: room_def)
  show "\<exists>s'. nx_put_byte b s = Some s' \<and> emits [b] 0 s s'"
  proof (cases "avail_out s = 0")
    case False
    then have n: "next_out s < length (obuf s)" "used_out s = 0" using ok e by (auto simp: out_ok_def)
    define s' where "s' = update_stream_out 1 (s\<lparr>obuf := (obuf s)[next_out s := b]\<rparr>)"
    have "same_rest s s'" by (simp add: s'_def)
    moreover have "nx_put_byte b s = Some s'" using False n by (simp add: nx_put_byte_def put_user_def s'_def)
    ultimately show ?thesis
      using False n ok by (auto simp: emits_def s'_def update_stream_out_def room_def out_defs take_Suc_wr)
  next
    case True
    define s' where "s' = s\<lparr>fifo_out := (fifo_out s)[cur_out s + used_out s := b], used_out := used_out s + 1\<rparr>"
    have "take (Suc (used_out s)) (drop (cur_out s) ((fifo_out s)[cur_out s + used_out s := b]))
        = take (used_out s) (drop (cur_out s) (fifo_out s)) @ [b]"
      using l by (simp add: drop_update_swap take_Suc_wr)
    moreover have "same_rest s s'" by (simp add: s'_def)
    moreover have "nx_put_byte b s = Some s'" using True l by (simp add: nx_put_byte_def put_fifo_def s'_def)
    ultimately show ?thesis
      using True ok l by (auto simp: emits_def room_def out_defs s'_def)
  qed
qed

lemma writes_for_each:
  assumes "\<And>x. x \<in> set xs \<Longrightarrow> writes (f x) (g x) 0"
  shows "writes (for_each f xs) (concat (map g xs)) 0"
  using assms
proof (induction xs)
  case Nil
  then show ?case by (simp add: writes_def emits_def)
next
  case (Cons x xs)
  have "writes (\<lambda>s. Option.bind (f x s) (for_each f xs)) (g x @ concat (map g xs)) (0 + 0)"
    by (rule writes_bind) (use Cons in auto)
  then show ?case by simp
qed

lemma writes_put_bytes: "writes (put_bytes bs) bs 0"
proof -
  have "writes (for_each nx_put_byte bs) (concat (map (\<lambda>b. [b]) bs)) 0"
    by (rule writes_for_each) (rule writes_nx_put_byte)
  then show ?thesis by (simp add: put_bytes_def [abs_def] writes_def)
qed

lemma writes_put_string: "0 \<in> set cs \<Longrightarrow> writes (put_string cs) (takeWhile (\<lambda>c. c \<noteq> 0) cs @ [0]) (length (takeWhile (\<lambda>c. c \<noteq> 0) cs) + 1)"
proof (induction cs)
  case (Cons c cs)
  show ?case
  proof (cases "c = 0")
    case True
    have "writes (\<lambda>s. Option.bind (nx_put_byte c s) (\<lambda>s. Some (add_header_len 1 s))) ([c] @ []) (0 + 1)"
      by (rule writes_bind [OF writes_nx_put_byte writes_len])
    then show ?thesis using True by (simp add: Let_def)
  next
    case False
    then have "writes (put_string cs) (takeWhile (\<lambda>c. c \<noteq> 0) cs @ [0]) (length (takeWhile (\<lambda>c. c \<noteq> 0) cs) + 1)"
      using Cons by simp
    then have "writes (\<lambda>s. Option.bind (nx_put_byte c s) (\<lambda>s. Option.bind (Some (add_header_len 1 s)) (put_string cs)))
       ([c] @ [] @ takeWhile (\<lambda>c. c \<noteq> 0) cs @ [0]) (0 + (1 + (length (takeWhile (\<lambda>c. c \<noteq> 0) cs) + 1)))"
      by (intro writes_bind writes_nx_put_byte writes_len)
    then show ?thesis using False by (simp add: Let_def)
  qed
qed simp

section \<open>The gzip header\<close>

definition cstr :: "u8 list option \<Rightarrow> u8 list" where
  "cstr so = (case so of None \<Rightarrow> [] | Some cs \<Rightarrow> takeWhile (\<lambda>c. c \<noteq> 0) cs @ [0])"

definition extra_field :: "gz_header \<Rightarrow> u8 list" where
  "extra_field h = (case gz_extra h of None \<Rightarrow> [] | Some m \<Rightarrow>
     [word_of_nat (gz_extra_len h), word_of_nat (gz_extra_len h div 256)] @ take (gz_extra_len h) m)"

definition gzip_header_bytes :: "gz_header \<Rightarrow> u8 list" where
  "gzip_header_bytes h =
     [0x1f, 0x8b, 8, gzip_flags h, ucast (gz_time h), ucast (drop_bit 8 (gz_time h)), ucast (drop_bit 16 (gz_time h)),
      ucast (drop_bit 24 (gz_time h)), 4, word_of_int (gz_os h)] @ extra_field h @ cstr (gz_name h) @ cstr (gz_comment h)"

text \<open>The caller's buffers: the extra field has its length, and the strings end.\<close>

definition gz_header_ok :: "gz_header \<Rightarrow> bool" where
  "gz_header_ok h \<longleftrightarrow>
     (\<forall>m. gz_extra h = Some m \<longrightarrow> gz_extra_len h \<le> length m \<and> gz_extra_len h < 2 ^ 16)
     \<and> (\<forall>m. gz_name h = Some m \<longrightarrow> 0 \<in> set m) \<and> (\<forall>m. gz_comment h = Some m \<longrightarrow> 0 \<in> set m)"

lemma writes_opt_string:
  "(\<forall>m. so = Some m \<longrightarrow> 0 \<in> set m) \<Longrightarrow> writes (put_opt_string so) (cstr so) (length (cstr so))"
  using writes_put_string by (cases so) (auto simp: put_opt_string_def [abs_def] cstr_def writes_Some)

lemma byte_mask: "word_of_nat (n AND 0xff) = (word_of_nat n :: u8)"
proof -
  have "n AND 0xff = take_bit 8 n" by (simp add: take_bit_eq_mask mask_eq_exp_minus_1)
  then show ?thesis by (intro bit_eqI) (auto simp: bit_simps bit_word_of_nat_iff)
qed

lemma writes_extra: "gz_header_ok h \<Longrightarrow> writes (put_extra h) (extra_field h) (length (extra_field h))"
proof (cases "gz_extra h")
  case None
  then show ?thesis by (simp add: put_extra_def [abs_def] extra_field_def writes_Some)
next
  case (Some m)
  assume ok: "gz_header_ok h"
  define n where "n = gz_extra_len h"
  have n: "n \<le> length m" using ok Some by (simp add: gz_header_ok_def n_def)
  have "writes (for_each (\<lambda>j s. Option.bind (rd m j) (\<lambda>val. nx_put_byte val s)) [0..<n]) (concat (map (\<lambda>j. [m ! j]) [0..<n])) 0"
    by (rule writes_for_each) (use n writes_nx_put_byte in \<open>auto simp: writes_def\<close>)
  moreover have "concat (map (\<lambda>j. [m ! j]) [0..<n]) = take n m"
    using n by (simp add: concat_map_singleton) (intro nth_equalityI, simp_all)
  ultimately have loop: "writes (for_each (\<lambda>j s. Option.bind (rd m j) (\<lambda>val. nx_put_byte val s)) [0..<n]) (take n m) 0" by simp
  have "writes (\<lambda>s. Option.bind (put_bytes [word_of_nat n, word_of_nat (n div 256)] s)
      (\<lambda>s. Option.bind (Some (add_header_len (2 + n) s)) (for_each (\<lambda>j s. Option.bind (rd m j) (\<lambda>val. nx_put_byte val s)) [0..<n])))
      ([word_of_nat n, word_of_nat (n div 256)] @ [] @ take n m) (0 + (2 + n + 0))"
    by (intro writes_bind writes_put_bytes writes_len loop)
  moreover have "drop_bit 8 n = n div 256" by (simp add: drop_bit_eq_div)
  ultimately show ?thesis
    using Some n by (simp add: put_extra_def [abs_def] extra_field_def byte_mask Let_def flip: n_def)
qed

lemma writes_gzip_header:
  assumes "gz_header_ok h"
  shows "writes (put_gzip_header h) (gzip_header_bytes h) (length (gzip_header_bytes h))"
proof -
  let ?t = "[ucast (gz_time h), ucast (drop_bit 8 (gz_time h)), ucast (drop_bit 16 (gz_time h)), ucast (drop_bit 24 (gz_time h))] :: u8 list"
  have "writes (\<lambda>s. Option.bind (put_bytes [0x1f, 0x8b, 0x08] s) (\<lambda>s. Option.bind (Some (add_header_len 3 s))
      (\<lambda>s. Option.bind (put_bytes [gzip_flags h] s) (\<lambda>s. Option.bind (Some (add_header_len 1 s))
      (\<lambda>s. Option.bind (put_bytes ?t s) (\<lambda>s. Option.bind (Some (add_header_len 4 s))
      (\<lambda>s. Option.bind (put_bytes [4, word_of_int (gz_os h)] s) (\<lambda>s. Option.bind (Some (add_header_len 2 s))
      (\<lambda>s. Option.bind (put_extra h s) (\<lambda>s. Option.bind (put_opt_string (gz_name h) s) (put_opt_string (gz_comment h))))))))))))
    ([0x1f, 0x8b, 0x08] @ [] @ [gzip_flags h] @ [] @ ?t @ [] @ [4, word_of_int (gz_os h)] @ [] @ extra_field h @ cstr (gz_name h) @ cstr (gz_comment h))
    (0 + (3 + (0 + (1 + (0 + (4 + (0 + (2 + (length (extra_field h) + (length (cstr (gz_name h)) + length (cstr (gz_comment h))))))))))))"
    using assms by (intro writes_bind writes_put_bytes writes_len writes_extra writes_opt_string) (auto simp: gz_header_ok_def)
  then show ?thesis by (simp add: put_gzip_header_def [abs_def] gzip_header_bytes_def Let_def numeral_eq_Suc)
qed

section \<open>The zlib header\<close>

definition be32 :: "u32 \<Rightarrow> u8 list" where
  "be32 c = [ucast (drop_bit 24 c), ucast (drop_bit 16 c), ucast (drop_bit 8 c), ucast c]"

definition le32 :: "u32 \<Rightarrow> u8 list" where
  "le32 c = [ucast c, ucast (drop_bit 8 c), ucast (drop_bit 16 c), ucast (drop_bit 24 c)]"

text \<open>CMF, FLG and the identifier of the dictionary.\<close>

definition zlib_header_bytes :: "nx_def \<Rightarrow> u8 list" where
  "zlib_header_bytes s =
     (let h = zlib_header (windowBits s) (level s) (dict_len s) in
      [word_of_nat (h div 256), word_of_nat h] @ (if dict_len s \<noteq> 0 then be32 (dict_id s) else []))"

text \<open>The header bytes are those of RFC 1950: deflate with a 32 KB window, the check, the dictionary flag.\<close>

lemma zlib_header_cases:
  assumes "f \<in> {0, 1, 2, 3 :: nat}"
    and "Z = (let h = push_bit 8 0x78 OR push_bit 6 f; h = (if dict then h OR 0x20 else h) in h + (31 - h mod 31))"
  shows "Z div 256 = 0x78 \<and> Z mod 31 = 0 \<and> (bit Z 5 \<longleftrightarrow> dict)"
  using assms
  by (cases dict; simp only: insert_iff empty_iff simp_thms Let_def if_True if_False)
    (elim disjE; simp only:; simp)+

lemma zlib_header_rfc:
  "zlib_header 15 l d div 256 = 0x78 \<and> zlib_header 15 l d mod 31 = 0 \<and> (bit (zlib_header 15 l d) 5 \<longleftrightarrow> d \<noteq> 0)"
proof -
  define f where "f = (if l < 2 then 0 else if l < 6 then 1 else if l = 6 then 2 else 3 :: nat)"
  have f: "f \<in> {0, 1, 2, 3}" by (simp add: f_def)
  have cmf: "8 + push_bit 4 (15 - 8) = (0x78 :: nat)" by simp
  show ?thesis
    by (rule zlib_header_cases [OF f]) (simp only: zlib_header_def Let_def cmf f_def)
qed

lemma zlib_header_default: "zlib_header 15 6 0 = 0x789c"
  by (simp add: zlib_header_def)

text \<open>Bytes that \<^verbatim>\<open>put_short\<close> writes to the overflow buffer, which must start at its beginning.\<close>

lemma put_byte_fifo:
  assumes "cur_out s = 0" and "used_out s < length (fifo_out s)"
  shows "put_byte c s = Some (s\<lparr>fifo_out := (fifo_out s)[used_out s := word_of_nat c], used_out := used_out s + 1\<rparr>)"
  using assms by (simp add: put_byte_def byte_mask)

definition fifo_bytes :: "u8 list \<Rightarrow> nx_def \<Rightarrow> nx_def" where
  "fifo_bytes bs s = s\<lparr>fifo_out := take (used_out s) (fifo_out s) @ bs @ drop (used_out s + length bs) (fifo_out s),
     used_out := used_out s + length bs\<rparr>"

lemma put_short_fifo:
  assumes "cur_out s = 0" and "used_out s + 1 < length (fifo_out s)"
  shows "put_short b s = Some (fifo_bytes [word_of_nat (b div 256), word_of_nat b] s)"
  using assms by (simp add: put_short_def put_byte_fifo drop_bit_eq_div fifo_bytes_def wr_one)

lemma fifo_bytes_append:
  "used_out s + length bs + length cs \<le> length (fifo_out s) \<Longrightarrow> fifo_bytes cs (fifo_bytes bs s) = fifo_bytes (bs @ cs) s"
  by (simp add: fifo_bytes_def ac_simps)

lemma fifo_bytes_out:
  assumes "out_ok s" and "cur_out s = 0" and "used_out s + length bs \<le> length (fifo_out s)"
  shows "out_bytes (fifo_bytes bs s) = out_bytes s @ bs" "out_ok (fifo_bytes bs s)"
    "length (fifo_out (fifo_bytes bs s)) = length (fifo_out s)" "cur_out (fifo_bytes bs s) = 0"
    "used_out (fifo_bytes bs s) = used_out s + length bs"
  using assms by (simp_all add: fifo_bytes_def out_defs)

lemma be32_halves:
  "[word_of_nat (unat (drop_bit 16 d) div 256), word_of_nat (unat (drop_bit 16 d))]
     @ [word_of_nat (unat (d AND 0xffff) div 256), word_of_nat (unat (d AND 0xffff))] = be32 d" for d :: u32
proof -
  have w: "word_of_nat (unat x div 256) = (ucast (drop_bit 8 x) :: u8)" "word_of_nat (unat x) = (ucast x :: u8)" for x :: u32
  proof -
    have "unat x div 256 = drop_bit 8 (unat x)" by (simp add: drop_bit_eq_div)
    then show "word_of_nat (unat x div 256) = (ucast (drop_bit 8 x) :: u8)"
      by (intro bit_eqI) (auto simp: bit_word_of_nat_iff bit_simps)
    show "word_of_nat (unat x) = (ucast x :: u8)"
      by (intro bit_eqI) (auto simp: bit_word_of_nat_iff bit_simps)
  qed
  have m: "(0xffff :: u32) = mask 16" by (simp add: mask_eq_exp_minus_1)
  show ?thesis
    unfolding w be32_def m by (auto intro!: bit_eqI simp: bit_simps)
qed

section \<open>Trailers\<close>

lemma writes_high: "writes (put_high_bytes c) (be32 c) 0"
proof -
  have m: "(0xFF000000 :: u32) = push_bit 24 (mask 8)" by (simp add: mask_eq_exp_minus_1)
  have b: "ucast (drop_bit 24 (push_bit (8 * k) c AND 0xFF000000)) = (ucast (drop_bit (24 - 8 * k) c) :: u8)" if "k < 4" for k
    using that unfolding m by (intro bit_eqI) (auto simp: bit_simps)
  have "writes (for_each (\<lambda>k s. nx_put_byte (ucast (drop_bit 24 (push_bit (8 * k) c AND 0xFF000000))) s) [0..<4])
      (concat (map (\<lambda>k. [ucast (drop_bit (24 - 8 * k) c)]) [0..<4])) 0"
    using b by (intro writes_for_each) (simp add: writes_nx_put_byte)
  moreover have "concat (map (\<lambda>k. [ucast (drop_bit (24 - 8 * k) c)]) [0..<4]) = be32 c" by (simp add: be32_def upt_rec)
  ultimately show ?thesis by (simp only: put_high_bytes_def [abs_def])
qed

lemma writes_low: "writes (put_low_bytes c) (le32 c) 0"
proof -
  have m: "(0xFF :: u32) = mask 8" by (simp add: mask_eq_exp_minus_1)
  have b: "ucast (x AND 0xFF) = (ucast x :: u8)" for x :: u32
    unfolding m by (intro bit_eqI) (auto simp: bit_simps)
  have "writes (for_each (\<lambda>k s. nx_put_byte (ucast (drop_bit (8 * k) c AND 0xFF)) s) [0..<4])
      (concat (map (\<lambda>k. [ucast (drop_bit (8 * k) c)]) [0..<4])) 0"
    unfolding b by (intro writes_for_each) (rule writes_nx_put_byte)
  moreover have "concat (map (\<lambda>k. [ucast (drop_bit (8 * k) c)]) [0..<4]) = le32 c" by (simp add: le32_def upt_rec)
  ultimately show ?thesis by (simp only: put_low_bytes_def [abs_def])
qed

definition trailer_bytes :: "nx_def \<Rightarrow> u8 list" where
  "trailer_bytes s =
     (if wrap s = HEADER_GZIP then be32 (crc32 s) @ le32 (word_of_nat (total_in s))
      else if wrap s = HEADER_ZLIB then be32 (adler32 s) else [])"

lemma append_trailer_emits:
  assumes "room (length (trailer_bytes s)) s"
  obtains s' k where "nx_compress_append_trailer s = Some (s', k)" and "emits (trailer_bytes s) 0 s s'"
proof -
  have "writes (\<lambda>s. Option.bind (put_high_bytes (crc32 s0) s) (put_low_bytes (word_of_nat (total_in s0))))
      (be32 (crc32 s0) @ le32 (word_of_nat (total_in s0))) (0 + 0)" for s0
    by (intro writes_bind writes_high writes_low)
  then have gz: "wrap s = HEADER_GZIP \<Longrightarrow> \<exists>s'. Option.bind (put_high_bytes (crc32 s) s) (put_low_bytes (word_of_nat (total_in s))) = Some s'
      \<and> emits (trailer_bytes s) 0 s s'"
    using assms by (auto simp: writes_def trailer_bytes_def)
  have zl: "wrap s = HEADER_ZLIB \<Longrightarrow> \<exists>s'. put_high_bytes (adler32 s) s = Some s' \<and> emits (trailer_bytes s) 0 s s'"
    using assms writes_high [of "adler32 s"] by (auto simp: writes_def trailer_bytes_def header_codes)
  show ?thesis
  proof (cases "wrap s = HEADER_GZIP")
    case True
    then obtain s' where "Option.bind (put_high_bytes (crc32 s) s) (put_low_bytes (word_of_nat (total_in s))) = Some s'" "emits (trailer_bytes s) 0 s s'"
      using gz by blast
    then show ?thesis
      using that True by (cases "put_high_bytes (crc32 s) s") (auto simp: nx_compress_append_trailer_def Let_def)
  next
    case False
    then show ?thesis
    proof (cases "wrap s = HEADER_ZLIB")
      case True
      then show ?thesis using zl that False by (auto simp: nx_compress_append_trailer_def)
    next
      case raw: False
      then show ?thesis
        using that [of s 0] False by (simp add: nx_compress_append_trailer_def trailer_bytes_def emits_def)
    qed
  qed
qed

section \<open>The headers\<close>

definition header_bytes :: "nx_def \<Rightarrow> u8 list" where
  "header_bytes s =
     (if status s = NX_ZLIB_INIT_ST then zlib_header_bytes s
      else if status s = NX_GZIP_INIT_ST
      then (case gzhead s of None \<Rightarrow> gzip_header_blank | Some h \<Rightarrow> gzip_header_bytes h)
      else [])"

definition init_state :: "nx_def \<Rightarrow> bool" where
  "init_state s \<longleftrightarrow> status s \<in> {NX_RAW_INIT_ST, NX_ZLIB_INIT_ST, NX_GZIP_INIT_ST}
     \<and> out_ok s \<and> used_out s = 0 \<and> cur_out s = 0 \<and> (\<forall>h. gzhead s = Some h \<longrightarrow> gz_header_ok h)"

lemma add_header_zlib:
  assumes "init_state s" and "status s = NX_ZLIB_INIT_ST" and "length (header_bytes s) \<le> length (fifo_out s)"
  shows "nx_deflate_add_header s = Some ((fifo_bytes (header_bytes s) (s\<lparr>header_len := length (header_bytes s)\<rparr>))
     \<lparr>adler32 := INIT_ADLER, zadler := INIT_ADLER, status := NX_DEFLATE_ST\<rparr>)"
proof -
  define s0 where "s0 = s\<lparr>header_len := 0\<rparr>"
  define h where "h = zlib_header (windowBits s) (level s) (dict_len s)"
  have u: "cur_out s0 = 0" "used_out s0 = 0" using assms(1) by (simp_all add: s0_def init_state_def)
  have l: "length (zlib_header_bytes s) \<le> length (fifo_out s0)" using assms(2,3) by (simp add: s0_def header_bytes_def)
  then have "1 < length (fifo_out s0)" by (simp add: zlib_header_bytes_def Let_def)
  then have p1: "put_short h s0 = Some (fifo_bytes [word_of_nat (h div 256), word_of_nat h] s0)"
    using u by (intro put_short_fifo) simp_all
  define s1 where "s1 = add_header_len 2 (fifo_bytes [word_of_nat (h div 256), word_of_nat h] s0)"
  show ?thesis
  proof (cases "dict_len s = 0")
    case True
    then show ?thesis
      using assms(2) p1 by (simp add: nx_deflate_add_header_def h_def s0_def header_bytes_def zlib_header_bytes_def Let_def
        add_header_len_def fifo_bytes_def)
  next
    case False
    have l6: "5 < length (fifo_out s0)" using l False by (simp add: zlib_header_bytes_def Let_def be32_def)
    have s1: "cur_out s1 = 0" "used_out s1 = 2" "length (fifo_out s1) = length (fifo_out s0)" "dict_len s1 = dict_len s" "dict_id s1 = dict_id s"
      using u l6 by (simp_all add: s1_def add_header_len_def fifo_bytes_def s0_def)
    define d1 where "d1 = [word_of_nat (unat (drop_bit 16 (dict_id s)) div 256), word_of_nat (unat (drop_bit 16 (dict_id s))) :: u8]"
    define d2 where "d2 = [word_of_nat (unat (dict_id s AND 0xffff) div 256), word_of_nat (unat (dict_id s AND 0xffff)) :: u8]"
    have p2: "put_short (unat (drop_bit 16 (dict_id s))) s1 = Some (fifo_bytes d1 s1)"
      unfolding d1_def using s1 l6 by (intro put_short_fifo) simp_all
    have p3: "put_short (unat (dict_id s AND 0xffff)) (fifo_bytes d1 s1) = Some (fifo_bytes d2 (fifo_bytes d1 s1))"
      unfolding d2_def using s1 l6 by (intro put_short_fifo) (simp_all add: fifo_bytes_def d1_def)
    have "fifo_bytes d2 (fifo_bytes d1 s1) = fifo_bytes (d1 @ d2) s1"
      using s1 l6 by (intro fifo_bytes_append) (simp add: d1_def d2_def)
    also have "d1 @ d2 = be32 (dict_id s)" unfolding d1_def d2_def by (rule be32_halves)
    finally have all: "fifo_bytes d2 (fifo_bytes d1 s1) = fifo_bytes (be32 (dict_id s)) s1" .
    have s0: "status s0 = NX_ZLIB_INIT_ST" "windowBits s0 = windowBits s" "level s0 = level s" "dict_len s0 = dict_len s"
      using assms(2) by (simp_all add: s0_def)
    have s2: "dict_id (fifo_bytes d1 s1) = dict_id s" using s1 by (simp add: fifo_bytes_def)
    have "nx_deflate_add_header s = Some ((add_header_len 4 (fifo_bytes (be32 (dict_id s)) s1))
        \<lparr>adler32 := INIT_ADLER, zadler := INIT_ADLER, status := NX_DEFLATE_ST\<rparr>)"
      unfolding nx_deflate_add_header_def s0_def [symmetric] Let_def s0 h_def [symmetric] p1 Option.bind.bind_lunit s1_def [symmetric] s1
        p2 s2 p3 all
      using False by (simp add: p2 s2 p3 all)
    also have "add_header_len 4 (fifo_bytes (be32 (dict_id s)) s1)
        = fifo_bytes ([word_of_nat (h div 256), word_of_nat h] @ be32 (dict_id s)) (s\<lparr>header_len := 6\<rparr>)"
      using u l6 by (simp add: s1_def add_header_len_def fifo_bytes_def be32_def s0_def)
    finally have all_bytes: "nx_deflate_add_header s = Some ((fifo_bytes ([word_of_nat (h div 256), word_of_nat h] @ be32 (dict_id s))
        (s\<lparr>header_len := 6\<rparr>))\<lparr>adler32 := INIT_ADLER, zadler := INIT_ADLER, status := NX_DEFLATE_ST\<rparr>)" .
    have hb: "header_bytes s = [word_of_nat (h div 256), word_of_nat h] @ be32 (dict_id s)"
      using assms(2) False by (simp add: header_bytes_def zlib_header_bytes_def Let_def flip: h_def)
    have len: "length (header_bytes s) = 6" by (simp add: hb be32_def)
    show ?thesis unfolding all_bytes by (subst len) (simp only: hb)
  qed
qed

lemma add_header_gzip:
  assumes "init_state s" and "status s = NX_GZIP_INIT_ST" and "length (header_bytes s) \<le> length (fifo_out s)"
  obtains s1 where "nx_deflate_add_header s = Some (s1\<lparr>zadler := crc32 s1, status := NX_DEFLATE_ST\<rparr>)"
    and "emits (header_bytes s) (length (header_bytes s)) (s\<lparr>header_len := 0\<rparr>) s1" and "room (length (header_bytes s)) (s\<lparr>header_len := 0\<rparr>)"
proof -
  define s0 where "s0 = s\<lparr>header_len := 0\<rparr>"
  have r: "room (length (header_bytes s)) s0" using assms by (simp add: room_def s0_def out_ok_def init_state_def)
  have "writes (\<lambda>s0. case gzhead s of None \<Rightarrow> put_bytes gzip_header_blank (add_header_len (length gzip_header_blank) s0)
      | Some h \<Rightarrow> put_gzip_header h s0) (header_bytes s) (length (header_bytes s))"
  proof (cases "gzhead s")
    case None
    have "writes (\<lambda>s. Option.bind (Some (add_header_len (length gzip_header_blank) s)) (put_bytes gzip_header_blank))
        ([] @ gzip_header_blank) (length gzip_header_blank + 0)"
      by (rule writes_bind [OF writes_len writes_put_bytes])
    then show ?thesis using None assms(2) by (simp add: header_bytes_def status_codes)
  next
    case (Some h)
    then show ?thesis
      using writes_gzip_header [of h] assms(1,2) by (simp add: header_bytes_def status_codes init_state_def)
  qed
  then obtain s1 where s1: "(case gzhead s of None \<Rightarrow> put_bytes gzip_header_blank (add_header_len (length gzip_header_blank) s0)
      | Some h \<Rightarrow> put_gzip_header h s0) = Some s1" "emits (header_bytes s) (length (header_bytes s)) s0 s1"
    using r unfolding writes_def by blast
  have g0: "gzhead s0 = gzhead s" "status s0 = status s" by (simp_all add: s0_def)
  have "nx_deflate_add_header s = Some (s1\<lparr>zadler := crc32 s1, status := NX_DEFLATE_ST\<rparr>)"
    unfolding nx_deflate_add_header_def s0_def [symmetric] Let_def g0 s1(1) using assms(2) by (simp add: status_codes)
  then show ?thesis using that [of s1] s1(2) r by (simp add: s0_def)
qed

lemma add_header_emits:
  assumes "init_state s" and "length (header_bytes s) \<le> length (fifo_out s)"
  shows "\<exists>s'. nx_deflate_add_header s = Some s' \<and> out_bytes s' = out_bytes s @ header_bytes s
    \<and> header_len s' = length (header_bytes s) \<and> status s' = NX_DEFLATE_ST \<and> out_ok s' \<and> next_in s' = next_in s"
proof -
  have ok: "out_ok s" and u: "used_out s = 0" "cur_out s = 0" using assms(1) by (simp_all add: init_state_def)
  consider "status s = NX_ZLIB_INIT_ST" | "status s = NX_GZIP_INIT_ST" | "status s = NX_RAW_INIT_ST"
    using assms(1) by (auto simp: init_state_def)
  then show ?thesis
  proof cases
    case 1
    define s1 where "s1 = s\<lparr>header_len := length (header_bytes s)\<rparr>"
    have s1: "out_ok s1" "cur_out s1 = 0" "used_out s1 + length (header_bytes s) \<le> length (fifo_out s1)" "out_bytes s1 = out_bytes s"
      using ok u assms(2) by (simp_all add: s1_def out_defs)
    define s2 where "s2 = (fifo_bytes (header_bytes s) s1)\<lparr>adler32 := INIT_ADLER, zadler := INIT_ADLER, status := NX_DEFLATE_ST\<rparr>"
    have "nx_deflate_add_header s = Some s2" using add_header_zlib [OF assms(1) 1 assms(2)] by (simp add: s1_def s2_def)
    moreover have "out_bytes s2 = out_bytes s @ header_bytes s" "out_ok s2"
      using fifo_bytes_out [OF s1(1-3)] s1(4) by (simp_all add: s2_def out_defs)
    ultimately show ?thesis by (simp add: s2_def s1_def fifo_bytes_def)
  next
    case 2
    obtain s1 where s1: "nx_deflate_add_header s = Some (s1\<lparr>zadler := crc32 s1, status := NX_DEFLATE_ST\<rparr>)"
      "emits (header_bytes s) (length (header_bytes s)) (s\<lparr>header_len := 0\<rparr>) s1" "room (length (header_bytes s)) (s\<lparr>header_len := 0\<rparr>)"
      by (rule add_header_gzip [OF assms(1) 2 assms(2)])
    then have "room 0 s1" "out_bytes s1 = out_bytes (s\<lparr>header_len := 0\<rparr>) @ header_bytes s" "header_len s1 = length (header_bytes s)"
        "next_in s1 = next_in s"
      using same_rest_fields(10) by (auto simp: emits_def)
    then show ?thesis using s1(1) by (simp add: room_def out_defs)
  next
    case 3
    then show ?thesis
      using ok by (simp add: nx_deflate_add_header_def header_bytes_def status_codes out_defs)
  qed
qed

section \<open>The headers of the RFCs\<close>

text \<open>
  RFC 1950, section 2.2: CM 8 and CINFO in the first byte, FLEVEL, FDICT and FCHECK in the second one,
  and the identifier of the dictionary, most significant byte first.
\<close>

definition rfc1950_header :: "nat \<Rightarrow> int \<Rightarrow> u32 option \<Rightarrow> u8 list \<Rightarrow> bool" where
  "rfc1950_header wbits lvl dict bs \<longleftrightarrow>
     (\<exists>cmf flg. bs = [cmf, flg] @ (case dict of None \<Rightarrow> [] | Some d \<Rightarrow> be32 d)
        \<and> unat cmf mod 16 = 8 \<and> unat cmf div 16 + 8 = wbits
        \<and> (256 * unat cmf + unat flg) mod 31 = 0
        \<and> bit flg 5 = (dict \<noteq> None)
        \<and> unat flg div 64 = (if lvl < 2 then 0 else if lvl < 6 then 1 else if lvl = 6 then 2 else 3))"

text \<open>
  RFC 1952, section 2.3: ID1, ID2, CM, FLG, MTIME (least significant byte first), XFL and OS, and the
  fields that FLG announces: the extra field with its length, and the zero-terminated name and comment.
  Without \<^verbatim>\<open>deflateSetHeader\<close> there is no field, the time is 0 and the system is Unix.
\<close>

definition rfc1952_header :: "gz_header option \<Rightarrow> u8 list \<Rightarrow> bool" where
  "rfc1952_header gz bs \<longleftrightarrow>
     (case gz of
        None \<Rightarrow> bs = [0x1f, 0x8b, 8, 0, 0, 0, 0, 0, 4, 3]
      | Some h \<Rightarrow>
          (\<exists>flg t0 t1 t2 t3 os extra name comment.
             bs = [0x1f, 0x8b, 8, flg, t0, t1, t2, t3, 4, os] @ extra @ name @ comment
             \<and> (bit flg 0 \<longleftrightarrow> gz_text h \<noteq> 0) \<and> \<not> bit flg 1 \<and> (bit flg 2 \<longleftrightarrow> gz_extra h \<noteq> None)
             \<and> (bit flg 3 \<longleftrightarrow> gz_name h \<noteq> None) \<and> (bit flg 4 \<longleftrightarrow> gz_comment h \<noteq> None) \<and> unat flg < 32
             \<and> unat t0 + 256 * unat t1 + 65536 * unat t2 + 16777216 * unat t3 = unat (gz_time h) mod 2 ^ 32
             \<and> os = word_of_int (gz_os h)
             \<and> (case gz_extra h of None \<Rightarrow> extra = []
                | Some m \<Rightarrow> \<exists>lo hi. extra = [lo, hi] @ take (gz_extra_len h) m
                    \<and> unat lo + 256 * unat hi = gz_extra_len h)
             \<and> (case gz_name h of None \<Rightarrow> name = [] | Some m \<Rightarrow> name = takeWhile (\<lambda>c. c \<noteq> 0) m @ [0])
             \<and> (case gz_comment h of None \<Rightarrow> comment = []
                | Some m \<Rightarrow> comment = takeWhile (\<lambda>c. c \<noteq> 0) m @ [0])))"

definition rfc_header :: "nx_def \<Rightarrow> u8 list \<Rightarrow> bool" where
  "rfc_header s bs \<longleftrightarrow>
     (if status s = NX_ZLIB_INIT_ST
      then rfc1950_header (windowBits s) (level s) (if dict_len s = 0 then None else Some (dict_id s)) bs
      else if status s = NX_GZIP_INIT_ST then rfc1952_header (gzhead s) bs
      else bs = [])"

text \<open>The room that a header may need.\<close>

definition header_room :: "nx_def \<Rightarrow> nat" where
  "header_room s =
     (if status s = NX_ZLIB_INIT_ST then 6
      else case (if status s = NX_GZIP_INIT_ST then gzhead s else None) of
        None \<Rightarrow> 10
      | Some h \<Rightarrow> 12 + gz_extra_len h + (case gz_name h of None \<Rightarrow> 0 | Some m \<Rightarrow> length m)
                     + (case gz_comment h of None \<Rightarrow> 0 | Some m \<Rightarrow> length m))"

lemma zlib_header_value:
  assumes "8 \<le> w" "w \<le> 15" "f \<in> {0, 1, 2, 3 :: nat}"
  shows "(if dict then (push_bit 8 (8 + push_bit 4 (w - 8)) OR push_bit 6 f) OR 0x20
      else push_bit 8 (8 + push_bit 4 (w - 8)) OR push_bit 6 f)
    = 32 * (8 * (8 + 16 * (w - 8)) + 2 * f + of_bool dict)"
proof -
  have "w = 8 \<or> w = 9 \<or> w = 10 \<or> w = 11 \<or> w = 12 \<or> w = 13 \<or> w = 14 \<or> w = 15"
    using assms(1,2) by linarith
  then show ?thesis
    using assms(3) by (cases dict) (elim disjE insertE emptyE; simp only:; simp)+
qed

lemma zlib_header_fields:
  assumes w: "8 \<le> w" "w \<le> 15" and z: "z = zlib_header w l d"
  shows "z div 256 mod 16 = 8" "z div 4096 + 8 = w" "z mod 31 = 0" "odd (z div 32) = (d \<noteq> 0)"
    "z div 64 mod 4 = (if l < 2 then 0 else if l < 6 then 1 else if l = 6 then 2 else 3)"
proof -
  define f where "f = (if l < 2 then 0 else if l < 6 then 1 else if l = 6 then 2 else 3 :: nat)"
  have f: "f \<in> {0, 1, 2, 3}" by (simp add: f_def)
  define e where "e = (of_bool (d \<noteq> 0) :: nat)"
  have e: "e \<le> 1" "odd e = (d \<noteq> 0)" by (simp_all add: e_def)
  define k where "k = 8 * (8 + 16 * (w - 8)) + 2 * f + e"
  have "z = 32 * k + (31 - 32 * k mod 31)"
    using zlib_header_value [OF w f, of "d \<noteq> 0"] unfolding z zlib_header_def Let_def f_def [symmetric] k_def e_def by simp
  then obtain a where a: "z = 32 * k + a" "a = 31 - 32 * k mod 31" by blast
  have "a < 32" using a(2) by simp
  then have k: "z div 32 = k" using a(1) by simp
  have "32 * k mod 31 + a = 31" using a(2) by (simp add: less_imp_le)
  then have "(32 * k + a) mod 31 = 31 mod 31" by (metis mod_add_left_eq)
  then show "z mod 31 = 0" using a(1) by simp
  have f4: "2 * f + e < 8" and fe: "(2 * f + e) div 2 = f" using f e(1) by auto
  have "z div 256 = k div 8" using k div_mult2_eq [of z 32 8] by simp
  also have "k div 8 = 8 + 16 * (w - 8)" using f4 by (simp add: k_def)
  finally have hi: "z div 256 = 8 + 16 * (w - 8)" .
  then show "z div 256 mod 16 = 8" by simp
  have "z div 4096 = w - 8" using hi div_mult2_eq [of z 256 16] by simp
  then show "z div 4096 + 8 = w" using w by simp
  have "odd k = odd e" by (simp add: k_def)
  then show "odd (z div 32) = (d \<noteq> 0)" using e(2) k by simp
  have "z div 64 = k div 2" using k div_mult2_eq [of z 32 2] by simp
  also have "k div 2 = 4 * (8 + 16 * (w - 8)) + f" using fe by (simp add: k_def)
  finally have "z div 64 mod 4 = f mod 4" by (simp only: mod_mult_self4)
  then have "z div 64 mod 4 = f" using f by auto
  then show "z div 64 mod 4 = (if l < 2 then 0 else if l < 6 then 1 else if l = 6 then 2 else 3)"
    by (simp add: f_def)
qed

lemma zlib_header_bytes_rfc:
  assumes "8 \<le> windowBits s" "windowBits s \<le> 15"
  shows "rfc1950_header (windowBits s) (level s) (if dict_len s = 0 then None else Some (dict_id s)) (zlib_header_bytes s)"
proof -
  define z where "z = zlib_header (windowBits s) (level s) (dict_len s)"
  note f = zlib_header_fields [OF assms z_def]
  have "z div 4096 \<le> 7" using f(2) assms(2) by simp
  then have small: "z div 256 < 256" by simp
  have cmf: "unat (word_of_nat (z div 256) :: u8) = z div 256"
    using small by (simp add: unat_of_nat)
  have flg: "unat (word_of_nat z :: u8) = z mod 256" by (simp add: unat_of_nat)
  have "256 * (z div 256) + z mod 256 = z" by simp
  moreover have "z div 256 div 16 = z div 4096" by (simp add: div_mult2_eq [symmetric])
  moreover have "z mod 256 div 64 = z div 64 mod 4"
    by (simp add: mod_mult2_eq [of z 64 4, simplified])
  moreover have "bit (word_of_nat z :: u8) 5 = odd (z div 32)"
    by (simp add: bit_word_of_nat_iff) (simp add: bit_iff_odd)
  ultimately show ?thesis
    unfolding rfc1950_header_def zlib_header_bytes_def Let_def z_def [symmetric]
    using f cmf flg
    by (intro exI [of _ "word_of_nat (z div 256)"] exI [of _ "word_of_nat z"]) simp
qed

lemma gzip_flags_announce:
  "bit (gzip_flags h) 0 \<longleftrightarrow> gz_text h \<noteq> 0" "\<not> bit (gzip_flags h) 1"
  "bit (gzip_flags h) 2 \<longleftrightarrow> gz_extra h \<noteq> None" "bit (gzip_flags h) 3 \<longleftrightarrow> gz_name h \<noteq> None"
  "bit (gzip_flags h) 4 \<longleftrightarrow> gz_comment h \<noteq> None" "unat (gzip_flags h) < 32"
  by (cases "gz_text h = 0"; cases "gz_extra h = None"; cases "gz_name h = None"; cases "gz_comment h = None";
      simp add: gzip_flags_def)+

lemma le32_value:
  "unat (ucast (t :: u64) :: u8) + 256 * unat (ucast (drop_bit 8 t) :: u8) + 65536 * unat (ucast (drop_bit 16 t) :: u8)
     + 16777216 * unat (ucast (drop_bit 24 t) :: u8) = unat t mod 2 ^ 32"
proof -
  define n where "n = unat t"
  have "unat t < 18446744073709551616" using unsigned_less [of t] by simp
  then have t: "unat t mod 18446744073709551616 = unat t" by simp
  have b: "unat (ucast (drop_bit k t) :: u8) = n div 2 ^ k mod 256" for k
    by (simp add: n_def unsigned_ucast_eq unsigned_drop_bit_eq) (simp add: take_bit_eq_mod drop_bit_eq_div t)
  have "n mod 2 ^ 32 = n mod 256 + 256 * (n div 256 mod 256) + 65536 * (n div 65536 mod 256) + 16777216 * (n div 16777216 mod 256)"
    using mod_mult2_eq [of n 256 "256 * 256 * 256"] mod_mult2_eq [of "n div 256" 256 "256 * 256"]
      mod_mult2_eq [of "n div 256 div 256" 256 256]
    by (simp add: div_mult2_eq [symmetric])
  then show ?thesis
    using b [of 0] b [of 8] b [of 16] b [of 24] by (simp add: n_def)
qed

lemma gzip_header_bytes_rfc:
  assumes "gz_header_ok h"
  shows "rfc1952_header (Some h) (gzip_header_bytes h)"
proof -
  have two: "unat (word_of_nat n :: u8) + 256 * unat (word_of_nat (n div 256) :: u8) = n" if "n < 2 ^ 16" for n
    using that by (simp add: unat_of_nat) 
  have extra: "case gz_extra h of None \<Rightarrow> extra_field h = []
    | Some m \<Rightarrow> \<exists>lo hi. extra_field h = [lo, hi] @ take (gz_extra_len h) m
        \<and> unat lo + 256 * unat hi = gz_extra_len h"
    using assms two [of "gz_extra_len h"] unfolding extra_field_def gz_header_ok_def
    by (auto split: option.split)
  have str: "case so of None \<Rightarrow> cstr so = [] | Some m \<Rightarrow> cstr so = takeWhile (\<lambda>c. c \<noteq> 0) m @ [0]" for so
    by (simp add: cstr_def split: option.split)
  have bytes: "gzip_header_bytes h = [0x1f, 0x8b, 8, gzip_flags h, ucast (gz_time h), ucast (drop_bit 8 (gz_time h)),
      ucast (drop_bit 16 (gz_time h)), ucast (drop_bit 24 (gz_time h)), 4, word_of_int (gz_os h)]
      @ extra_field h @ cstr (gz_name h) @ cstr (gz_comment h)"
    by (simp add: gzip_header_bytes_def)
  show ?thesis
    unfolding rfc1952_header_def option.case bytes
    by (intro exI conjI) (rule refl gzip_flags_announce le32_value extra str)+
qed

lemma header_bytes_rfc:
  assumes "init_state s" and "status s = NX_ZLIB_INIT_ST \<longrightarrow> 8 \<le> windowBits s \<and> windowBits s \<le> 15"
  shows "rfc_header s (header_bytes s)"
proof -
  have "rfc1952_header None gzip_header_blank" by (simp add: rfc1952_header_def gzip_header_blank_def)
  then show ?thesis
    using assms zlib_header_bytes_rfc [of s] gzip_header_bytes_rfc
    by (auto simp: rfc_header_def header_bytes_def init_state_def split: option.split)
qed

lemma header_bytes_room:
  assumes "init_state s"
  shows "length (header_bytes s) \<le> header_room s"
proof -
  have len: "length (cstr so) \<le> (case so of None \<Rightarrow> 0 | Some m \<Rightarrow> length m)" if "\<forall>m. so = Some m \<longrightarrow> 0 \<in> set m" for so
  proof (cases so)
    case (Some m)
    then have "length (takeWhile (\<lambda>c. c \<noteq> 0) m) \<noteq> length m"
      using that takeWhile_eq_all_conv [of "\<lambda>c. c \<noteq> 0" m] by (metis length_takeWhile_le nth_equalityI takeWhile_nth)
    then have "length (takeWhile (\<lambda>c. c \<noteq> 0) m) < length m"
      using length_takeWhile_le [of "\<lambda>c. c \<noteq> 0" m] by simp
    then show ?thesis using Some by (simp add: cstr_def)
  qed (simp add: cstr_def)
  have "length (gzip_header_bytes h) \<le> 12 + gz_extra_len h + (case gz_name h of None \<Rightarrow> 0 | Some m \<Rightarrow> length m)
      + (case gz_comment h of None \<Rightarrow> 0 | Some m \<Rightarrow> length m)" if "gz_header_ok h" for h
    using that len [of "gz_name h"] len [of "gz_comment h"]
    by (simp add: gzip_header_bytes_def gz_header_ok_def extra_field_def split: option.split)
  then show ?thesis
    using assms
    by (auto simp: header_bytes_def header_room_def init_state_def zlib_header_bytes_def Let_def be32_def
        gzip_header_blank_def status_codes split: option.split)
qed

text \<open>
  Claim C19. From a fresh stream whose overflow buffer has the room, \<^verbatim>\<open>nx_deflate_add_header\<close> returns and
  appends one header of the format that was asked for. For zlib that is RFC 1950: compression method 8,
  the window in CINFO, the compression level in FLEVEL, FDICT set exactly with a preset dictionary, FCHECK
  such that the two bytes are a multiple of 31, and the identifier of the dictionary, high byte first. For
  gzip it is RFC 1952: the magic bytes, a flag byte that announces exactly the fields that follow, the time
  modulo 2^32 low byte first, XFL 4, the system, and the extra field, name and comment of
  \<^verbatim>\<open>deflateSetHeader\<close>. A raw stream gets nothing. \<^verbatim>\<open>header_len\<close> is the length of the header, and no input
  is consumed.
\<close>

theorem nx_deflate_add_header_correct:
  assumes "init_state s" and "header_room s \<le> length (fifo_out s)"
    and "status s = NX_ZLIB_INIT_ST \<longrightarrow> 8 \<le> windowBits s \<and> windowBits s \<le> 15"
  shows "\<exists>s' hdr. nx_deflate_add_header s = Some s' \<and> out_bytes s' = out_bytes s @ hdr \<and> rfc_header s hdr
    \<and> header_len s' = length hdr \<and> status s' = NX_DEFLATE_ST \<and> out_ok s' \<and> next_in s' = next_in s"
proof -
  have "length (header_bytes s) \<le> length (fifo_out s)"
    using header_bytes_room [OF assms(1)] assms(2) by simp
  from add_header_emits [OF assms(1) this] header_bytes_rfc [OF assms(1,3)] show ?thesis by blast
qed

text \<open>A fresh gzip stream with a name to write, and room for two bytes in the user's buffer.\<close>

definition name_example :: gz_header where
  "name_example = \<lparr>gz_text = 1, gz_time = 0x01020304, gz_xflags = 0, gz_os = 3, gz_extra = Some [9, 8, 7],
     gz_extra_len = 2, gz_extra_max = 0, gz_name = Some [65, 0, 66], gz_name_max = 0, gz_comment = None,
     gz_comm_max = 0, gz_hcrc = 0, gz_done = 0\<rparr>"

definition def_example :: nx_def where
  "def_example = \<lparr>obuf = [7, 0, 0], next_out = 1, avail_out = 2, total_out = 1, fifo_out = replicate 32 0,
     len_out = 32, cur_out = 0, used_out = 0, tebc = 0, status = NX_GZIP_INIT_ST, wrap = HEADER_GZIP, windowBits = 15,
     level = 6, strategy = 0, flush = 0, next_in = [1, 2], total_in = 258, fifo_in = None, len_in = 0, used_in = 0, cur_in = 0,
     history_len = 0, max_history_len = 32768, dict_len = 0, dict_id = 0, header_len = 0, gzhead = Some name_example,
     adler32 = 1, crc32 = 0x0a0b0c0d, checksum_set = False, zadler = 0, spbc = 0, tpbc = 0, need_stored_block = 0, invoke_cnt = 0\<rparr>"

lemma def_example_ok: "init_state def_example" "gz_header_ok name_example" "room 8 def_example"
  "gzhead def_example = Some name_example" "wrap def_example = HEADER_GZIP" "length (fifo_out def_example) = 32"
  "status def_example = NX_GZIP_INIT_ST" "crc32 def_example = 0x0a0b0c0d" "total_in def_example = 258"
  by (simp_all add: def_example_def name_example_def init_state_def gz_header_ok_def out_ok_def room_def)

lemma header_bytes_example: "header_bytes def_example = [0x1f, 0x8b, 8, 13, 4, 3, 2, 1, 4, 3, 2, 0, 9, 8, 65, 0]"
  unfolding header_bytes_def def_example_ok option.case
  by (simp add: status_codes name_example_def gzip_header_bytes_def gzip_flags_def extra_field_def cstr_def take_Cons')

theorem nx_deflate_add_header_correct_witness:
  "\<exists>s' hdr. nx_deflate_add_header def_example = Some s' \<and> out_bytes s' = out_bytes def_example @ hdr
     \<and> rfc1952_header (Some name_example) hdr \<and> header_len s' = length hdr"
proof -
  have "header_room def_example \<le> length (fifo_out def_example)"
    unfolding header_room_def def_example_ok by (simp add: status_codes name_example_def)
  from nx_deflate_add_header_correct [OF def_example_ok(1) this] show ?thesis
    unfolding rfc_header_def def_example_ok by (auto simp: status_codes)
qed

text \<open>
  Claim C22. When there is room for it, the trailer is appended to the produced bytes: for gzip the checksum as
  the accelerator delivers it (high byte first) and the number of input bytes modulo 2^32 (low byte first),
  for zlib the Adler-32 (high byte first), for raw streams nothing; all other fields of the stream are kept.
\<close>

theorem nx_compress_append_trailer_correct:
  assumes "room (length (trailer_bytes s)) s"
  shows "\<exists>s' k. nx_compress_append_trailer s = Some (s', k) \<and> out_bytes s' = out_bytes s @ trailer_bytes s
    \<and> out_ok s' \<and> same_rest s s' \<and> header_len s' = header_len s"
  using assms
proof (rule append_trailer_emits)
  fix s' k
  assume "nx_compress_append_trailer s = Some (s', k)" "emits (trailer_bytes s) 0 s s'"
  then show ?thesis using assms by (auto simp: emits_def room_def dest: spec [of _ 0])
qed

lemma trailer_bytes_example: "trailer_bytes def_example = [10, 11, 12, 13, 2, 1, 0, 0]"
  unfolding trailer_bytes_def def_example_ok by (simp add: be32_def le32_def)

theorem nx_compress_append_trailer_correct_witness:
  "\<exists>s' k. nx_compress_append_trailer def_example = Some (s', k)
     \<and> out_bytes s' = out_bytes def_example @ [10, 11, 12, 13, 2, 1, 0, 0] \<and> same_rest def_example s'"
proof -
  have "room (length (trailer_bytes def_example)) def_example" unfolding trailer_bytes_example using def_example_ok(3) by (simp add: eval_nat_numeral)
  from nx_compress_append_trailer_correct [OF this] show ?thesis unfolding trailer_bytes_example by blast
qed

end
