(* ===== verification/InflateRoundtrip.thy ===== *)
theory InflateRoundtrip
  imports InflateZlib DeflateHeaderCorrect
begin

text \<open>
  What \<^verbatim>\<open>nx_deflate_add_header\<close> writes is what the header part of \<^verbatim>\<open>nx_inflate\<close> reads: the gzip header field by
  field, and the zlib header with and without a dictionary.
\<close>

section \<open>gzip\<close>

text \<open>What a caller of inflate with the request \<open>g\<close> gets for the header \<open>h\<close>.\<close>

definition header_seen :: "gz_header \<Rightarrow> gz_header \<Rightarrow> gz_header" where
  "header_seen h g = g\<lparr>
     gz_text := (if gz_text h \<noteq> 0 then 1 else 0), gz_time := gz_time h, gz_xflags := 4, gz_os := gz_os h mod 256,
     gz_extra := (case gz_extra h of None \<Rightarrow> None | Some m \<Rightarrow> map_option (store (take (gz_extra_len h) m) (gz_extra_max g)) (gz_extra g)),
     gz_extra_len := (if gz_extra h = None then gz_extra_len g else gz_extra_len h),
     gz_name := (if gz_name h = None then None else map_option (store (cstr (gz_name h)) (gz_name_max g)) (gz_name g)),
     gz_comment := (if gz_comment h = None then None else map_option (store (cstr (gz_comment h)) (gz_comm_max g)) (gz_comment g)),
     gz_hcrc := 0, gz_done := 1\<rparr>"

lemma gzip_flags_bits:
  "gzip_flags h AND 0xe0 = 0" "gzip_flags h AND 2 = 0" "gzip_flags h AND 4 = 0 \<longleftrightarrow> gz_extra h = None"
  "gzip_flags h AND 8 = 0 \<longleftrightarrow> gz_name h = None" "gzip_flags h AND 16 = 0 \<longleftrightarrow> gz_comment h = None"
  "gzip_flags h AND 1 = (if gz_text h \<noteq> 0 then 1 else 0)"
  by (simp_all add: gzip_flags_def)

lemma string_read:
  assumes "\<forall>m. so = Some m \<longrightarrow> 0 \<in> set m" and "flg AND flag = 0 \<longleftrightarrow> so = None"
  shows "gz_p_string flag dest mx set_dest k flg acc h (cstr so @ rest)
    = k (acc @ cstr so) (map_option (\<lambda>g. set_dest (if so = None then None else map_option (store (cstr so) (mx g)) (dest g)) g) h) rest"
proof (cases so)
  case None
  then show ?thesis using assms by (simp add: gz_p_string_def cstr_def)
next
  case (Some m)
  define u where "u = takeWhile (\<lambda>c. c \<noteq> 0) m"
  have "takeWhile (\<lambda>c. c \<noteq> 0) (u @ [0] @ rest) = u"
    unfolding u_def by (simp add: takeWhile_append takeWhile_eq_all_conv [symmetric])
  then show ?thesis using assms Some by (simp add: gz_p_string_def cstr_def Let_def flip: u_def)
qed

lemma le_val_nat: "n < 2 ^ 16 \<Longrightarrow> le_val [word_of_nat n, word_of_nat (n div 256)] = n"
  by (simp add: le_val_def unsigned_of_nat take_bit_eq_mod)

lemma extra_read:
  assumes "gz_header_ok h"
  shows "gz_p_extra crc (gzip_flags h) acc g (extra_field h @ rest) = gz_p_name crc (gzip_flags h) (acc @ extra_field h)
    (map_option (\<lambda>g. g\<lparr>gz_extra_len := (if gz_extra h = None then gz_extra_len g else gz_extra_len h),
       gz_extra := (case gz_extra h of None \<Rightarrow> None | Some m \<Rightarrow> map_option (store (take (gz_extra_len h) m) (gz_extra_max g)) (gz_extra g))\<rparr>) g) rest"
proof (cases "gz_extra h")
  case None
  then show ?thesis by (simp add: gz_p_extra_def gzip_flags_bits extra_field_def)
next
  case (Some m)
  then have "gz_extra_len h \<le> length m" "gz_extra_len h < 2 ^ 16" using assms by (simp_all add: gz_header_ok_def)
  then show ?thesis
    using Some by (simp add: gz_p_extra_def gzip_flags_bits extra_field_def Let_def le_val_nat)
qed

lemma time_bytes:
  assumes "unat (t :: u64) < 2 ^ 32"
  shows "le_val [ucast t, ucast (drop_bit 8 t), ucast (drop_bit 16 t), ucast (drop_bit 24 t)] = unat t"
proof -
  have b: "unat (ucast x :: u8) = unat x mod 256" for x :: u64
    by (simp add: unsigned_ucast_eq take_bit_eq_mod)
  have d: "unat (drop_bit n t) = unat t div 2 ^ n" for n
    using unsigned_less [of t, where 'a=nat] by (simp add: unsigned_drop_bit_eq take_bit_nat_eq_self flip: drop_bit_eq_div)
  define x where "x = unat t"
  have "x div 2 ^ 16 = x div 2 ^ 8 div 256" "x div 2 ^ 24 = x div 2 ^ 16 div 256"
    by (simp_all flip: div_mult2_eq)
  then have split: "x mod 256 + 256 * (x div 2 ^ 8 mod 256 + 256 * (x div 2 ^ 16 mod 256 + 256 * (x div 2 ^ 24))) = x"
    by (simp only: mod_mult_div_eq) simp
  have "x div 2 ^ 24 < 256" using assms by (simp add: x_def less_mult_imp_div_less)
  then have "le_val [ucast t, ucast (drop_bit 8 t), ucast (drop_bit 16 t), ucast (drop_bit 24 t)]
      = x mod 256 + 256 * (x div 2 ^ 8 mod 256 + 256 * (x div 2 ^ 16 mod 256 + 256 * (x div 2 ^ 24)))"
    unfolding le_val_def b d x_def by (simp add: b d)
  then show ?thesis unfolding split by (simp add: x_def)
qed

lemma fixed_read:
  assumes "flg AND 0xe0 = 0" and "le_val [a, b, c, d] < 2 ^ 31"
  shows "gz_p_flg crc acc g (flg # a # b # c # d # x # y # ys) = gz_p_extra crc flg (acc @ [flg, a, b, c, d, x, y])
    (map_option (\<lambda>g. g\<lparr>gz_text := uint (flg AND 1), gz_time := word_of_nat (le_val [a, b, c, d]), gz_xflags := uint x, gz_os := uint y\<rparr>) g) ys"
  using assms by (simp add: gz_p_flg_def Let_def)

lemma gz_parse_written:
  assumes "gz_header_ok h" and "gz_time h < 2 ^ 31"
  shows "gz_parse crc g (gzip_header_bytes h @ rest) = Done (map_option (header_seen h) g) rest"
proof -
  have t: "unat (gz_time h) < 2 ^ 31" using assms(2) by (simp add: word_less_nat_alt)
  have tb: "le_val [ucast (gz_time h), ucast (drop_bit 8 (gz_time h)), ucast (drop_bit 16 (gz_time h)), ucast (drop_bit 24 (gz_time h))]
      = unat (gz_time h)" using t by (intro time_bytes) simp
  have nm: "\<forall>m. gz_name h = Some m \<longrightarrow> 0 \<in> set m" "\<forall>m. gz_comment h = Some m \<longrightarrow> 0 \<in> set m"
    using assms(1) by (simp_all add: gz_header_ok_def)
  have os: "uint (word_of_int (gz_os h) :: u8) = gz_os h mod 256" by (simp add: unsigned_of_int take_bit_eq_mod)
  define fixed where "fixed = [gzip_flags h, ucast (gz_time h), ucast (drop_bit 8 (gz_time h)), ucast (drop_bit 16 (gz_time h)),
      ucast (drop_bit 24 (gz_time h)), 4, word_of_int (gz_os h)]"
  have bytes: "gzip_header_bytes h @ rest = [0x1f, 0x8b, 8] @ fixed @ extra_field h @ cstr (gz_name h) @ cstr (gz_comment h) @ rest"
    by (simp add: gzip_header_bytes_def fixed_def)
  have "gz_parse crc g (gzip_header_bytes h @ rest)
      = gz_p_flg crc [0x1f, 0x8b, 8] g (fixed @ extra_field h @ cstr (gz_name h) @ cstr (gz_comment h) @ rest)"
    unfolding bytes by (simp add: gz_parse_def)
  also have "\<dots> = gz_p_extra crc (gzip_flags h) ([0x1f, 0x8b, 8] @ fixed)
      (map_option (\<lambda>g. g\<lparr>gz_text := (if gz_text h \<noteq> 0 then 1 else 0), gz_time := gz_time h, gz_xflags := 4, gz_os := gz_os h mod 256\<rparr>) g)
      (extra_field h @ cstr (gz_name h) @ cstr (gz_comment h) @ rest)"
    using t by (simp add: fixed_def fixed_read tb os gzip_flags_bits if_distrib [of uint])
  also have "\<dots> = Done (map_option (header_seen h) g) rest"
    using nm by (cases g; cases "gz_extra h"; cases "gz_name h"; cases "gz_comment h")
      (simp_all add: extra_read [OF assms(1)] gz_p_name_def gz_p_comment_def string_read gzip_flags_bits gz_p_hcrc_def header_seen_def)
  finally show ?thesis .
qed

section \<open>zlib\<close>

lemma be_val_be32: "be_val (be32 x) = x"
proof -
  have "be_val (be32 x) = push_bit 24 (ucast (ucast (drop_bit 24 x) :: u8)) OR (push_bit 16 (ucast (ucast (drop_bit 16 x) :: u8))
     OR (push_bit 8 (ucast (ucast (drop_bit 8 x) :: u8)) OR ucast (ucast x :: u8)))"
    by (simp add: be_val_def be32_def push_bit_or or.assoc)
  also have "\<dots> = x"
  proof (rule bit_eqI)
    fix n
    assume "possible_bit TYPE(u32) n"
    then consider "n < 8" | "8 \<le> n" "n < 16" | "16 \<le> n" "n < 24" | "24 \<le> n" "n < 32" by fastforce
    then show "bit (push_bit 24 (ucast (ucast (drop_bit 24 x) :: u8)) OR (push_bit 16 (ucast (ucast (drop_bit 16 x) :: u8))
        OR (push_bit 8 (ucast (ucast (drop_bit 8 x) :: u8)) OR ucast (ucast x :: u8))) :: u32) n = bit x n"
      by cases (auto simp: bit_simps)
  qed
  finally show ?thesis .
qed

lemma z_parse_written:
  assumes "windowBits s = 15"
  shows "z_parse (zlib_header_bytes s @ rest) = Done (if dict_len s = 0 then None else Some (dict_id s)) rest"
proof -
  define h where "h = zlib_header 15 (level s) (dict_len s)"
  have h: "h div 256 = 0x78" "h mod 31 = 0" "bit h 5 \<longleftrightarrow> dict_len s \<noteq> 0"
    using zlib_header_rfc [of "level s" "dict_len s"] by (simp_all add: h_def)
  have val: "unat (0x78 :: u8) * 256 + unat (word_of_nat h :: u8) = h"
    using h(1) div_mult_mod_eq [of h 256] by (simp add: unsigned_of_nat take_bit_eq_mod)
  have bit5: "bit (word_of_nat h :: u8) 5 \<longleftrightarrow> dict_len s \<noteq> 0"
    using h(3) by (simp add: bit_word_of_nat_iff)
  have bytes: "zlib_header_bytes s @ rest = 0x78 # word_of_nat h # (if dict_len s \<noteq> 0 then be32 (dict_id s) else []) @ rest"
    using h(1) by (simp add: zlib_header_bytes_def Let_def assms flip: h_def)
  have len: "length (be32 (dict_id s)) = 4" "take 4 (be32 (dict_id s) @ rest) = be32 (dict_id s)" "drop 4 (be32 (dict_id s) @ rest) = rest"
    by (simp_all add: be32_def)
  show ?thesis
    unfolding bytes z_parse_def using val h(2) bit5 len by (simp add: be_val_be32)
qed

section \<open>Deflate to inflate\<close>

text \<open>The header that a gzip stream sends: what \<^verbatim>\<open>deflateSetHeader\<close> gave, or the blank one.\<close>

definition sent_header :: "nx_def \<Rightarrow> gz_header" where
  "sent_header d = (case gzhead d of None \<Rightarrow> blank_header | Some h \<Rightarrow> h)"

lemma blank_header_bytes: "gzip_header_bytes blank_header = gzip_header_blank"
  by (simp add: gzip_header_bytes_def blank_header_def gzip_flags_def extra_field_def cstr_def gzip_header_blank_def)

lemma header_bytes_gzip: "status d = NX_GZIP_INIT_ST \<Longrightarrow> header_bytes d = gzip_header_bytes (sent_header d)"
  by (simp add: header_bytes_def status_codes sent_header_def blank_header_bytes split: option.split)

lemma gzip_sent_read:
  assumes "init_state d" and "gz_time (sent_header d) < 2 ^ 31" and "gzip_start s"
    and "i_next_in s = gzip_header_bytes (sent_header d) @ rest"
  shows "\<exists>s'. inf_run lib_crc32 s = Some (Body s') \<and> i_next_in s' = rest \<and> i_gzhead s' = map_option (header_seen (sent_header d)) (gzip_request s)"
proof -
  have "gz_header_ok (sent_header d)"
    using assms(1) by (auto simp: init_state_def sent_header_def blank_header_def gz_header_ok_def split: option.split)
  from gz_parse_written [OF this assms(2), of lib_crc32 "gzip_request s" rest]
  have p: "gz_parse lib_crc32 (gzip_request s) (i_next_in s) = Done (map_option (header_seen (sent_header d)) (gzip_request s)) rest"
    by (simp only: assms(4))
  obtain s0 where "inf_step lib_crc32 s = Again s0" "lib.agrees s0 (gz_parse lib_crc32 (gzip_request s) (i_next_in s))"
    using lib.agrees_start [OF assms(3)] .
  then show ?thesis unfolding p by (auto simp: lib.agrees_def lib.ready_def inf_run_again)
qed

text \<open>
  Claim C25. The gzip header that \<^verbatim>\<open>nx_deflate_add_header\<close> writes is read back by inflate: the header machine stops exactly
  behind it, and a caller that asked for the header gets every field as the caller of deflate gave it,
  within the sizes of the caller's buffers (\<open>header_seen\<close>). The time stamp must be below 2^31.
\<close>

theorem gzip_header_roundtrip:
  assumes "init_state d" and "status d = NX_GZIP_INIT_ST" and "gz_time (sent_header d) < 2 ^ 31"
    and "length (header_bytes d) \<le> length (fifo_out d)"
  shows "\<exists>d' hdr. nx_deflate_add_header d = Some d' \<and> out_bytes d' = out_bytes d @ hdr
    \<and> (\<forall>s rest. gzip_start s \<and> i_next_in s = hdr @ rest \<longrightarrow>
         (\<exists>s'. inf_run lib_crc32 s = Some (Body s') \<and> i_next_in s' = rest
            \<and> i_gzhead s' = map_option (header_seen (sent_header d)) (gzip_request s)))"
proof -
  obtain d' where "nx_deflate_add_header d = Some d'" "out_bytes d' = out_bytes d @ gzip_header_bytes (sent_header d)"
    using add_header_emits [OF assms(1,4)] header_bytes_gzip [OF assms(2)] by auto
  then show ?thesis using gzip_sent_read [OF assms(1,3)] by blast
qed

theorem gzip_header_roundtrip_witness:
  "\<exists>s' g. inf_run lib_crc32 (inf_example\<lparr>i_next_in := [0x1f, 0x8b, 8, 13, 4, 3, 2, 1, 4, 3, 2, 0, 9, 8, 65, 0] @ [1, 2, 3]\<rparr>) = Some (Body s')
     \<and> i_next_in s' = [1, 2, 3] \<and> i_gzhead s' = Some g \<and> gz_time g = 0x01020304 \<and> gz_extra g = Some [9, 0] \<and> gz_name g = Some [65, 0, 0]"
proof -
  have "gz_time (sent_header def_example) < 2 ^ 31" "length (header_bytes def_example) \<le> length (fifo_out def_example)"
    by (simp_all add: sent_header_def def_example_ok header_bytes_example) (simp add: name_example_def)
  then obtain d' hdr where d: "nx_deflate_add_header def_example = Some d'" "out_bytes d' = out_bytes def_example @ hdr"
      "\<And>s rest. gzip_start s \<Longrightarrow> i_next_in s = hdr @ rest \<Longrightarrow>
         (\<exists>s'. inf_run lib_crc32 s = Some (Body s') \<and> i_next_in s' = rest
            \<and> i_gzhead s' = map_option (header_seen (sent_header def_example)) (gzip_request s))"
    using gzip_header_roundtrip [of def_example] def_example_ok by blast
  have "hdr = header_bytes def_example"
    using d add_header_emits [of def_example] by (simp add: def_example_ok header_bytes_example)
  then have "hdr = [0x1f, 0x8b, 8, 13, 4, 3, 2, 1, 4, 3, 2, 0, 9, 8, 65, 0]" by (simp only: header_bytes_example)
  then have read: "\<exists>s'. inf_run lib_crc32 (inf_example\<lparr>i_next_in := [0x1f, 0x8b, 8, 13, 4, 3, 2, 1, 4, 3, 2, 0, 9, 8, 65, 0] @ [1, 2, 3]\<rparr>) = Some (Body s')
      \<and> i_next_in s' = [1, 2, 3] \<and> i_gzhead s' = map_option (header_seen name_example)
          (gzip_request (inf_example\<lparr>i_next_in := [0x1f, 0x8b, 8, 13, 4, 3, 2, 1, 4, 3, 2, 0, 9, 8, 65, 0] @ [1, 2, 3]\<rparr>))"
    using d(3) [OF gzip_start_example] by (simp add: sent_header_def def_example_ok)
  have "gzip_request (inf_example\<lparr>i_next_in := xs\<rparr>) = Some (blank_header\<lparr>gz_extra := Some [0, 0], gz_extra_max := 1, gz_name := Some [0, 0, 0], gz_name_max := 3\<rparr>)" for xs
    by (simp add: gzip_request_def inf_example_def blank_header_def)
  moreover define g where "g = header_seen name_example (blank_header\<lparr>gz_extra := Some [0, 0], gz_extra_max := 1, gz_name := Some [0, 0, 0], gz_name_max := 3\<rparr>)"
  moreover have "gz_time g = 0x01020304" "gz_extra g = Some [9, 0]" "gz_name g = Some [65, 0, 0]"
    by (simp_all add: g_def header_seen_def name_example_def blank_header_def store_def cstr_def take_Cons')
  ultimately show ?thesis using read by auto
qed

text \<open>
  Claim C26. The header that \<^verbatim>\<open>nx_deflate_add_header\<close> produces for a zlib stream is accepted by inflate at once; with a
  preset dictionary, inflate asks for exactly the dictionary that deflate was given.
\<close>

theorem zlib_header_roundtrip:
  assumes "init_state d" and "status d = NX_ZLIB_INIT_ST" and "windowBits d = 15" and "length (header_bytes d) \<le> length (fifo_out d)"
  shows "\<exists>d' hdr. nx_deflate_add_header d = Some d' \<and> out_bytes d' = out_bytes d @ hdr
    \<and> (\<forall>s rest. zlib_start s \<and> i_next_in s = hdr @ rest \<longrightarrow>
         (if dict_len d = 0 then \<exists>s'. inf_run lib_crc32 s = Some (Body s') \<and> z_ready rest s'
          else \<exists>s'. inf_run lib_crc32 s = Some (NeedDict s') \<and> i_zadler s' = dict_id d \<and> i_next_in s' = rest))"
proof -
  obtain d' where d': "nx_deflate_add_header d = Some d'" "out_bytes d' = out_bytes d @ zlib_header_bytes d"
    using add_header_emits [OF assms(1,4)] assms(2) by (auto simp: header_bytes_def)
  have "if dict_len d = 0 then \<exists>s'. inf_run lib_crc32 s = Some (Body s') \<and> z_ready rest s'
      else \<exists>s'. inf_run lib_crc32 s = Some (NeedDict s') \<and> i_zadler s' = dict_id d \<and> i_next_in s' = rest"
    if "zlib_start s" "i_next_in s = zlib_header_bytes d @ rest" for s rest
    using lib.z_agrees_start [OF that(1)] z_parse_written [OF assms(3), of rest] by (auto simp: lib.z_agrees_def that(2))
  then show ?thesis using d' by blast
qed

definition dict_example :: nx_def where
  "dict_example = def_example\<lparr>status := NX_ZLIB_INIT_ST, wrap := HEADER_ZLIB, gzhead := None, dict_len := 3, dict_id := 0x01020304\<rparr>"

theorem zlib_header_roundtrip_witness:
  "\<exists>s'. inf_run lib_crc32 (inf_example\<lparr>i_wrap := HEADER_ZLIB OR HEADER_GZIP, i_next_in := [0x78, 0xbb, 1, 2, 3, 4] @ [5]\<rparr>) = Some (NeedDict s')
     \<and> i_zadler s' = 0x01020304 \<and> i_next_in s' = [5]"
proof -
  have h: "header_bytes dict_example = [0x78, 0xbb, 1, 2, 3, 4]"
    by (simp add: header_bytes_def dict_example_def def_example_def zlib_header_bytes_def zlib_header_def be32_def Let_def)
  have i: "init_state dict_example" "status dict_example = NX_ZLIB_INIT_ST" "windowBits dict_example = 15"
      "dict_len dict_example = 3" "dict_id dict_example = 0x01020304" "length (fifo_out dict_example) = 32"
    by (simp_all add: dict_example_def def_example_def init_state_def out_ok_def)
  then obtain d' hdr where d: "nx_deflate_add_header dict_example = Some d'" "out_bytes d' = out_bytes dict_example @ hdr"
      "\<And>s rest. zlib_start s \<Longrightarrow> i_next_in s = hdr @ rest \<Longrightarrow>
         \<exists>s'. inf_run lib_crc32 s = Some (NeedDict s') \<and> i_zadler s' = 0x01020304 \<and> i_next_in s' = rest"
    using zlib_header_roundtrip [of dict_example] by (auto simp: h)
  have "hdr = [0x78, 0xbb, 1, 2, 3, 4]" using d add_header_emits [of dict_example] i h by simp
  from d(3) [of "inf_example\<lparr>i_wrap := HEADER_ZLIB OR HEADER_GZIP, i_next_in := [0x78, 0xbb, 1, 2, 3, 4] @ [5]\<rparr>" "[5]", unfolded this]
  show ?thesis by (simp add: zlib_start_def inf_example_def)
qed

end
