(* ===== verification/NxRegs.thy ===== *)
theory NxRegs
  imports NxBuffer
begin

text \<open>
  What inflate and deflate share of the interface to the accelerator (\<^verbatim>\<open>inc_nx/nxu.h\<close>): function codes, completion codes and
  the fields of the parameter block; and moving blocks inside a buffer.
\<close>

section \<open>Codes\<close>

definition NXQWSZ :: nat where "NXQWSZ = 16"

definition GZIP_FC_DECOMPRESS :: nat where "GZIP_FC_DECOMPRESS = 0x10"
definition GZIP_FC_DECOMPRESS_SINGLE_BLK_N_SUSPEND :: nat where "GZIP_FC_DECOMPRESS_SINGLE_BLK_N_SUSPEND = 0x12"
definition GZIP_FC_DECOMPRESS_RESUME :: nat where "GZIP_FC_DECOMPRESS_RESUME = 0x14"
definition GZIP_FC_DECOMPRESS_RESUME_SINGLE_BLK_N_SUSPEND :: nat where
  "GZIP_FC_DECOMPRESS_RESUME_SINGLE_BLK_N_SUSPEND = 0x16"

definition GZIP_FC_COMPRESS_FHT_COUNT :: nat where "GZIP_FC_COMPRESS_FHT_COUNT = 0x04"
definition GZIP_FC_COMPRESS_DHT_COUNT :: nat where "GZIP_FC_COMPRESS_DHT_COUNT = 0x06"
definition GZIP_FC_COMPRESS_RESUME_FHT :: nat where "GZIP_FC_COMPRESS_RESUME_FHT = 0x08"
definition GZIP_FC_COMPRESS_RESUME_FHT_COUNT :: nat where "GZIP_FC_COMPRESS_RESUME_FHT_COUNT = 0x0c"
definition GZIP_FC_COMPRESS_RESUME_DHT_COUNT :: nat where "GZIP_FC_COMPRESS_RESUME_DHT_COUNT = 0x0e"
definition GZIP_FC_WRAP :: nat where "GZIP_FC_WRAP = 0x1e"

lemmas fc_codes = GZIP_FC_COMPRESS_FHT_COUNT_def GZIP_FC_COMPRESS_DHT_COUNT_def GZIP_FC_COMPRESS_RESUME_FHT_def
  GZIP_FC_COMPRESS_RESUME_FHT_COUNT_def GZIP_FC_COMPRESS_RESUME_DHT_COUNT_def GZIP_FC_WRAP_def

definition ERR_NX_OK :: int where "ERR_NX_OK = 0"
definition ERR_NX_DATA_LENGTH :: int where "ERR_NX_DATA_LENGTH = 3"
definition ERR_NX_TARGET_SPACE :: int where "ERR_NX_TARGET_SPACE = 13"
definition ERR_NX_TPBC_GT_SPBC :: int where "ERR_NX_TPBC_GT_SPBC = 64"
definition ERR_NX_AT_FAULT :: int where "ERR_NX_AT_FAULT = 250"

lemmas err_nx_codes = ERR_NX_OK_def ERR_NX_DATA_LENGTH_def ERR_NX_TARGET_SPACE_def ERR_NX_TPBC_GT_SPBC_def ERR_NX_AT_FAULT_def

definition csb_ce_termination :: "nat \<Rightarrow> bool" where "csb_ce_termination ce \<longleftrightarrow> ce AND 2 \<noteq> 0"
definition csb_ce_partial_completion :: "nat \<Rightarrow> bool" where "csb_ce_partial_completion ce \<longleftrightarrow> ce AND 4 \<noteq> 0"

section \<open>The parameter block\<close>

text \<open>
  Fields of a big-endian word: \<open>off\<close> is the number of the last bit counted from the most significant one, \<open>n\<close>
  the width. The history length and the bit count share a word, and so do the block type, the byte count and
  the length of the Huffman table.
\<close>

definition getnn :: "nat \<Rightarrow> nat \<Rightarrow> u32 \<Rightarrow> nat" where
  "getnn off n w = unat (drop_bit (31 - off) w AND mask n)"

definition putnn :: "nat \<Rightarrow> nat \<Rightarrow> nat \<Rightarrow> u32 \<Rightarrow> u32" where
  "putnn off n x w = w AND NOT (push_bit (31 - off) (mask n)) OR push_bit (31 - off) (word_of_nat x AND mask n)"

abbreviation put_in_histlen :: "nat \<Rightarrow> u32 \<Rightarrow> u32" where "put_in_histlen \<equiv> putnn 11 12"
abbreviation put_in_subc :: "nat \<Rightarrow> u32 \<Rightarrow> u32" where "put_in_subc \<equiv> putnn 31 3"
abbreviation put_in_sfbt :: "nat \<Rightarrow> u32 \<Rightarrow> u32" where "put_in_sfbt \<equiv> putnn 15 4"
abbreviation put_in_rembytecnt :: "nat \<Rightarrow> u32 \<Rightarrow> u32" where "put_in_rembytecnt \<equiv> putnn 31 16"
abbreviation put_in_dhtlen :: "nat \<Rightarrow> u32 \<Rightarrow> u32" where "put_in_dhtlen \<equiv> putnn 31 12"
abbreviation get_out_subc :: "u32 \<Rightarrow> nat" where "get_out_subc \<equiv> getnn 31 16"
abbreviation get_out_sfbt :: "u32 \<Rightarrow> nat" where "get_out_sfbt \<equiv> getnn 15 4"
abbreviation get_out_rembytecnt :: "u32 \<Rightarrow> nat" where "get_out_rembytecnt \<equiv> getnn 31 16"
abbreviation get_out_dhtlen :: "u32 \<Rightarrow> nat" where "get_out_dhtlen \<equiv> getnn 31 12"

type_synonym u128 = "128 word"

lemma getnn_less: "n \<le> 32 \<Longrightarrow> getnn off n w < 2 ^ n"
proof -
  assume "n \<le> 32"
  have "getnn off n w = take_bit n (unat (drop_bit (31 - off) w))"
    by (simp add: getnn_def unsigned_take_bit_eq flip: take_bit_eq_mask)
  then show ?thesis by simp
qed

lemma getnn_putnn:
  assumes "off \<le> 31" and "n \<le> off + 1"
  shows "getnn off n (putnn off n x w) = x mod 2 ^ n"
proof -
  have "drop_bit (31 - off) (putnn off n x w) AND mask n = word_of_nat x AND mask n"
    unfolding putnn_def by (rule bit_word_eqI) (use assms in \<open>auto simp: bit_simps\<close>)
  also have "\<dots> = word_of_nat (take_bit n x)"
    by (rule bit_word_eqI) (auto simp: bit_simps bit_word_of_nat_iff bit_take_bit_iff)
  finally have "getnn off n (putnn off n x w) = take_bit 32 (take_bit n x)"
    by (simp add: getnn_def unsigned_of_nat)
  moreover have "x mod 2 ^ n < 2 ^ 32"
    by (rule less_le_trans [OF mod_less_divisor power_increasing]) (use assms in simp_all)
  ultimately show ?thesis by (simp add: take_bit_eq_mod)
qed

lemma getnn_putnn_other:
  assumes "31 - off' + n' \<le> 31 - off \<or> 31 - off + n \<le> 31 - off'" and "n' \<le> off' + 1" and "off' \<le> 31"
  shows "getnn off' n' (putnn off n x w) = getnn off' n' w"
proof -
  have "drop_bit (31 - off') (putnn off n x w) AND mask n' = drop_bit (31 - off') w AND mask n'"
    unfolding putnn_def by (rule bit_word_eqI) (use assms in \<open>auto simp: bit_simps\<close>)
  then show ?thesis by (simp add: getnn_def)
qed

lemma getnn_0 [simp]: "getnn off n 0 = 0"
  by (simp add: getnn_def)

section \<open>Blocks of a buffer\<close>

text \<open>A pointer moved back.\<close>

definition ptr_minus :: "nat \<Rightarrow> nat \<Rightarrow> nat option" where
  "ptr_minus p n = (if n \<le> p then Some (p - n) else None)"

definition memmove :: "u8 list \<Rightarrow> nat \<Rightarrow> nat \<Rightarrow> nat \<Rightarrow> u8 list option" where
  "memmove m dst src n = do { b \<leftarrow> rd_block m src n; wr_block m dst b }"

section \<open>Segments of a buffer\<close>

definition seg :: "'a list \<Rightarrow> nat \<Rightarrow> nat \<Rightarrow> 'a list" where
  "seg m i n = take n (drop i m)"

lemma seg_alt: "seg m i n = drop i (take (i + n) m)"
  by (simp add: seg_def drop_take)

lemma length_seg: "i + n \<le> length m \<Longrightarrow> length (seg m i n) = n"
  by (simp add: seg_def)

lemma seg_0 [simp]: "seg m i 0 = []"
  by (simp add: seg_def)

lemma seg_add: "seg m i (a + b) = seg m i a @ seg m (i + a) b"
  by (simp add: seg_def take_add add.commute)

lemma seg_suffix: "k \<le> n \<Longrightarrow> i + n \<le> length m \<Longrightarrow> drop k (seg m i n) = seg m (i + k) (n - k)"
  by (simp add: seg_def drop_take add.commute)

lemma seg_prefix: "k \<le> n \<Longrightarrow> take k (seg m i n) = seg m i k"
  by (simp add: seg_def min_def)

text \<open>A buffer after a block was written to it.\<close>

definition put :: "'a list \<Rightarrow> nat \<Rightarrow> 'a list \<Rightarrow> 'a list" where
  "put m i bs = take i m @ bs @ drop (i + length bs) m"

lemma wr_block_put: "i + length bs \<le> length m \<Longrightarrow> wr_block m i bs = Some (put m i bs)"
  by (simp add: put_def)

lemma length_put [simp]: "i + length bs \<le> length m \<Longrightarrow> length (put m i bs) = length m"
  by (simp add: put_def)

lemma put_Nil [simp]: "put m i [] = m"
  by (simp add: put_def)

lemma seg_put_same: "i + length bs \<le> length m \<Longrightarrow> n = length bs \<Longrightarrow> seg (put m i bs) i n = bs"
  by (simp add: put_def seg_def)

lemma seg_put_before: "j + n \<le> i \<Longrightarrow> i \<le> length m \<Longrightarrow> seg (put m i bs) j n = seg m j n"
  by (simp add: put_def seg_alt)

lemma seg_put_after: "i + length bs \<le> j \<Longrightarrow> i \<le> length m \<Longrightarrow> seg (put m i bs) j n = seg m j n"
  by (simp add: put_def seg_def)

lemma seg_put_inside:
  assumes "i + length bs \<le> length m" and "i \<le> j" and "j + n \<le> i + length bs"
  shows "seg (put m i bs) j n = seg bs (j - i) n"
  using assms by (simp add: put_def seg_def)

lemma seg_seg: "j + k \<le> n \<Longrightarrow> seg (seg m i n) j k = seg m (i + j) k"
  by (simp add: seg_def drop_take add.commute min_def)

lemma rd_block_seg: "i + n \<le> length m \<Longrightarrow> rd_block m i n = Some (seg m i n)"
  by (simp add: seg_def)

lemma memmove_put: "i + n \<le> length m \<Longrightarrow> j + n \<le> length m \<Longrightarrow> memmove m j i n = Some (put m j (seg m i n))"
  by (simp add: memmove_def put_def seg_def)

lemma ptr_minus_Some [simp]: "n \<le> p \<Longrightarrow> ptr_minus p n = Some (p - n)"
  by (simp add: ptr_minus_def)

end
