(* ===== verification/InflateCore.thy ===== *)
theory InflateCore
  imports InflateHeader Crc32 NxRegs
begin

text \<open>
  \<^verbatim>\<open>nx_inflate_\<close> of \<^verbatim>\<open>lib/nx_inflate.c\<close> with everything it calls: the decompression behind the header. It
  feeds the accelerator with jobs, keeps the last 32 KB of its output as the history of the next job,
  caches small inputs and hands out what did not fit in to the user's buffer. The accelerator and the
  allocator are arguments, as fields of \<open>nx_env\<close>.
\<close>

section \<open>Constants\<close>

definition INF_HIS_LEN :: nat where "INF_HIS_LEN = 32768"
definition INF_MAX_DICT_LEN :: nat where "INF_MAX_DICT_LEN = 32768"
definition INF_MIN_INPUT_LEN :: nat where "INF_MIN_INPUT_LEN = 300"
definition INF_MAX_COMPRESSION_RATIO :: nat where "INF_MAX_COMPRESSION_RATIO = 1032"
definition INF_MAX_EXPANSION_BYTES :: nat where "INF_MAX_EXPANSION_BYTES = INF_MIN_INPUT_LEN * INF_MAX_COMPRESSION_RATIO"

section \<open>Jobs and the state\<close>

text \<open>What the accelerator is given. \<open>j_source\<close> is the data the source list points to, cut at its byte count.\<close>

record nx_job =
  j_fc :: nat
  j_source :: "u8 list"
  j_target :: nat
  j_crc :: u32
  j_adler :: u32
  j_histlen_subc :: u32
  j_sfbt_rem :: u32
  j_dht :: "u128 list"

text \<open>
  What it answers: completion code and extension, the output words of the parameter block, the byte
  counts, the checksums and the data it wrote to the target, of which \<open>r_tpbc\<close> bytes count.
\<close>

record nx_resp =
  r_cc :: int
  r_ce :: nat
  r_subc_word :: u32
  r_sfbt_rem :: u32
  r_dht :: "u128 list"
  r_spbc :: nat
  r_tpbc :: nat
  r_crc :: u32
  r_adler :: u32
  r_out :: "u8 list"

record nx_env =
  per_job_len :: nat
  cache_threshold :: nat
  timeout_ticks :: nat
  nx_alloc_buffer :: "nat \<Rightarrow> u8 list option"
  nx_wait_ticks :: "nat \<Rightarrow> nat"
  nx_submit_job :: "nat \<Rightarrow> nx_job \<Rightarrow> nx_resp"
  before_input :: u8

text \<open>
  The rest of \<^verbatim>\<open>nx_stream\<close>. \<open>i_obuf\<close> is the memory of the user's output buffer and \<open>i_next_out\<close> the index
  reached in it; a buffer that was not allocated is empty. \<open>jobs\<close> counts the jobs submitted, so that the
  accelerator may answer differently over time. \<open>before_input\<close> above is the byte in front of the user's
  input, which the sync point test can read.
\<close>

record nx_core = nx_inf +
  fifo_in :: "u8 list"
  len_in :: nat
  i_fifo_out :: "u8 list"
  i_len_out :: nat
  i_obuf :: "u8 list"
  i_next_out :: nat
  dict :: "u8 list"
  dict_alloc_len :: nat
  last_comp_ratio :: nat
  sync_point :: nat
  trailer :: "u8 list"
  in_crc :: u32
  in_adler :: u32
  in_histlen_subc :: u32
  in_sfbt_rem :: u32
  in_dht :: "u128 list"
  out_crc :: u32
  out_adler :: u32
  jobs :: nat

section \<open>Stream pointers and fifos\<close>

definition use_input :: "nat \<Rightarrow> nx_core \<Rightarrow> nx_core option" where
  "use_input n s =
     (if n \<le> length (i_next_in s) then Some (s\<lparr>i_next_in := drop n (i_next_in s), i_total_in := i_total_in s + n\<rparr>) else None)"

definition made_output :: "nat \<Rightarrow> nx_core \<Rightarrow> nx_core option" where
  "made_output n s =
     (if n \<le> i_avail_out s
      then Some (s\<lparr>i_next_out := i_next_out s + n, i_total_out := i_total_out s + n, i_avail_out := i_avail_out s - n\<rparr>)
      else None)"

definition fifo_in_len_check :: "nx_core \<Rightarrow> nx_core option" where
  "fifo_in_len_check s =
     (if len_in s div 2 < i_cur_in s
      then do { m \<leftarrow> memmove (fifo_in s) 0 (i_cur_in s) (i_used_in s); Some (s\<lparr>fifo_in := m, i_cur_in := 0\<rparr>) }
      else Some s)"

definition inf_fifo_out_len_check :: "nx_core \<Rightarrow> nx_core option" where
  "inf_fifo_out_len_check s =
     (if i_len_out s div 2 < i_cur_out s
      then do {
        p \<leftarrow> ptr_minus (i_cur_out s) INF_HIS_LEN;
        m \<leftarrow> memmove (i_fifo_out s) 0 p (INF_HIS_LEN + i_used_out s);
        Some (s\<lparr>i_fifo_out := m, i_cur_out := INF_HIS_LEN\<rparr>)
      }
      else Some s)"

text \<open>A return code with the state; \<open>None\<close> is a fault.\<close>

definition copy_data_to_fifo_in :: "nx_env \<Rightarrow> nx_core \<Rightarrow> (int \<times> nx_core) option" where
  "copy_data_to_fifo_in env s =
     (case (if fifo_in s = []
            then map_option (\<lambda>m. s\<lparr>fifo_in := m, len_in := cache_threshold env * 2\<rparr>) (nx_alloc_buffer env (cache_threshold env * 2))
            else Some s) of
        None \<Rightarrow> Some (Z_MEM_ERROR, s\<lparr>len_in := cache_threshold env * 2\<rparr>)
      | Some s \<Rightarrow>
          do {
            s \<leftarrow> fifo_in_len_check (s\<lparr>i_cur_in := (if i_used_in s = 0 then 0 else i_cur_in s)\<rparr>);
            free_space \<leftarrow> ptr_minus (len_in s) (i_cur_in s + i_used_in s);
            let read_sz = min free_space (length (i_next_in s));
            m \<leftarrow> wr_block (fifo_in s) (i_cur_in s + i_used_in s) (take read_sz (i_next_in s));
            s \<leftarrow> use_input read_sz (s\<lparr>fifo_in := m\<rparr>);
            Some (Z_OK, s\<lparr>i_used_in := i_used_in s + read_sz\<rparr>)
          })"

section \<open>The checksums\<close>

definition nx_inflate_update_checksum :: "nx_core \<Rightarrow> nx_core" where
  "nx_inflate_update_checksum s =
     (let s = s\<lparr>i_crc32 := out_crc s, i_adler32 := out_adler s\<rparr> in
      if i_wrap s = HEADER_GZIP then s\<lparr>i_adler := i_crc32 s, i_zadler := i_crc32 s\<rparr>
      else if i_wrap s = HEADER_ZLIB then s\<lparr>i_adler := i_adler32 s, i_zadler := i_adler32 s\<rparr>
      else s)"

definition trailer_need :: "nat \<Rightarrow> nat" where
  "trailer_need w = (if w = HEADER_GZIP then 8 else if w = HEADER_ZLIB then 4 else 0)"

text \<open>The bytes from the cached input, which overwrite the trailer, and those from the user's buffer.\<close>

definition trailer_fifo :: "nat \<Rightarrow> nx_core \<Rightarrow> nx_core option" where
  "trailer_fifo got s =
     (if 0 < got then
        do {
          b \<leftarrow> rd_block (fifo_in s) (i_cur_in s) got;
          m \<leftarrow> wr_block (trailer s) 0 b;
          fifo_in_len_check (s\<lparr>trailer := m, trailer_len := got, i_used_in := i_used_in s - got, i_cur_in := i_cur_in s + got\<rparr>)
        }
      else Some s)"

definition trailer_user :: "nat \<Rightarrow> nx_core \<Rightarrow> nx_core option" where
  "trailer_user got s =
     (if 0 < got then
        do {
          m \<leftarrow> wr_block (trailer s) (trailer_len s) (take got (i_next_in s));
          use_input got (s\<lparr>trailer := m, trailer_len := trailer_len s + got\<rparr>)
        }
      else Some s)"

definition trailer_copy :: "nx_core \<Rightarrow> nx_core option" where
  "trailer_copy s =
     (let need = trailer_need (i_wrap s) - trailer_len s;
          got = min (i_used_in s) need
      in do { s \<leftarrow> trailer_fifo got s; trailer_user (min (length (i_next_in s)) (need - got)) s })"

definition le32 :: "u8 list \<Rightarrow> nat \<Rightarrow> u32" where
  "le32 t i = ucast (t ! i) OR push_bit 8 (ucast (t ! (i + 1))) OR push_bit 16 (ucast (t ! (i + 2))) OR push_bit 24 (ucast (t ! (i + 3)))"

text \<open>
  The comparison is with the word as it lies in memory; \<open>out_crc\<close> is its big-endian value and the host is
  little-endian.
\<close>

definition trailer_compare :: "nx_core \<Rightarrow> int \<times> nx_core" where
  "trailer_compare s =
     (if i_wrap s = HEADER_GZIP then
        if trailer_len s = 8 then
          (if le32 (trailer s) 0 = bswap_32 (out_crc s) \<and> le32 (trailer s) 4 = word_of_nat (i_total_out s) then Z_STREAM_END else Z_STREAM_ERROR,
           nx_inflate_update_checksum s)
        else (Z_OK, s)
      else if i_wrap s = HEADER_ZLIB then
        if trailer_len s = 4 then
          (if le32 (trailer s) 0 = bswap_32 (out_adler s) then Z_STREAM_END else Z_STREAM_ERROR, nx_inflate_update_checksum s)
        else (Z_OK, s)
      else (Z_STREAM_END, s))"

definition nx_inflate_verify_checksum :: "nat \<Rightarrow> nx_core \<Rightarrow> (int \<times> nx_core) option" where
  "nx_inflate_verify_checksum copy s =
     do {
       s \<leftarrow> (if 0 < copy then trailer_copy s else Some s);
       Some (if copy = 1 then (Z_OK, s) else trailer_compare s)
     }"

section \<open>The source and the target of a job\<close>

text \<open>
  The history under a dictionary; the sum is a multiple of 16. The result has the bytes that the source list
  points to.
\<close>

definition nx_amend_history_with_dict :: "nx_core \<Rightarrow> (nat \<times> u8 list \<times> nx_core) option" where
  "nx_amend_history_with_dict s =
     (let dlen = min (i_dict_len s) INF_MAX_DICT_LEN;
          hlen = (if INF_HIS_LEN \<le> i_history_len s + dlen then INF_MAX_DICT_LEN - dlen
                  else i_history_len s + (NXQWSZ - (i_history_len s + dlen) mod NXQWSZ));
          n = hlen + dlen
      in if n mod 16 \<noteq> 0 \<or> dict s = [] \<or> i_fifo_out s = [] then None
         else do {
           p \<leftarrow> ptr_minus (i_cur_out s) hlen;
           h \<leftarrow> rd_block (i_fifo_out s) p hlen;
           q \<leftarrow> ptr_minus (i_dict_len s) dlen;
           d \<leftarrow> rd_block (dict s) q dlen;
           Some (n, h @ d, s\<lparr>in_histlen_subc := put_in_histlen (n div NXQWSZ) 0\<rparr>)
         })"

definition nx_reset_dde :: "nx_core \<Rightarrow> nat" where
  "nx_reset_dde s = (if resuming s \<noteq> 0 \<or> 0 < i_dict_len s then GZIP_FC_DECOMPRESS_RESUME else GZIP_FC_DECOMPRESS)"

definition bound_ratio :: "nx_core \<Rightarrow> nx_core" where
  "bound_ratio s = s\<lparr>last_comp_ratio := max (min 1000 (last_comp_ratio s)) 100\<rparr>"

definition init_checksums :: "nx_core \<Rightarrow> nx_core" where
  "init_checksums s = s\<lparr>in_crc := INIT_CRC, in_adler := INIT_ADLER, out_crc := INIT_CRC, out_adler := INIT_ADLER\<rparr>"

definition nx_init_dde :: "nx_core \<Rightarrow> (nat \<times> u8 list \<times> nx_core) option" where
  "nx_init_dde s =
     do {
       (n, b, s) \<leftarrow>
         (if resuming s \<noteq> 0 \<or> 0 < i_dict_len s then
            let s = s\<lparr>in_crc := i_crc32 s, in_adler := i_adler32 s\<rparr> in
            if 0 < i_dict_len s then
              do { (n, b, s) \<leftarrow> nx_amend_history_with_dict s; Some (n, b, if i_wrap s = HEADER_ZLIB then init_checksums s else s) }
            else do {
              let q = (i_history_len s + NXQWSZ - 1) div NXQWSZ;
              let s = s\<lparr>in_histlen_subc := put_in_histlen q (in_histlen_subc s)\<rparr>;
              let n = q * NXQWSZ;
              p \<leftarrow> ptr_minus (i_cur_out s) n;
              b \<leftarrow> rd_block (i_fifo_out s) p n;
              Some (n, b, s)
            }
          else Some (0, [], init_checksums (s\<lparr>i_history_len := 0, in_histlen_subc := 0\<rparr>)));
       Some (n, b, bound_ratio s)
     }"

definition nx_set_dde_in :: "nat \<Rightarrow> nx_core \<Rightarrow> u8 list option" where
  "nx_set_dde_in source_sz_expected s =
     do {
       let tmp = (if fifo_in s = [] then 0 else min (i_used_in s) source_sz_expected);
       b \<leftarrow> rd_block (fifo_in s) (i_cur_in s) tmp;
       Some (b @ (if tmp < source_sz_expected then take (source_sz_expected - tmp) (i_next_in s) else []))
     }"

text \<open>The number of bytes in the user's buffer and in the overflow buffer.\<close>

definition nx_set_dde_out :: "nat \<Rightarrow> nx_core \<Rightarrow> (nat \<times> nat) option" where
  "nx_set_dde_out target_sz_expected s =
     (let ret = min (i_avail_out s) target_sz_expected in
      if ret < target_sz_expected then
        if i_used_out s \<noteq> 0 then None
        else map_option (\<lambda>fr. (ret, min fr (target_sz_expected - ret))) (ptr_minus (i_len_out s) (i_cur_out s))
      else Some (ret, 0))"

text \<open>What \<^verbatim>\<open>init_dde\<close> leaves for \<^verbatim>\<open>restart_nx\<close>: the history length, the source size, the source data and the target.\<close>

record nx_setup =
  hist_len :: nat
  job_len :: nat
  job_data :: "u8 list"
  target_user :: nat
  target_fifo :: nat

definition init_dde :: "nat \<Rightarrow> nat \<Rightarrow> nx_core \<Rightarrow> (nx_setup \<times> nx_core) option" where
  "init_dde source_sz_expected target_sz_expected s =
     do {
       (hl, h, s) \<leftarrow> nx_init_dde s;
       b \<leftarrow> nx_set_dde_in source_sz_expected s;
       let n = length h + length b;
       (t1, t2) \<leftarrow> nx_set_dde_out target_sz_expected s;
       if hl < n \<and> n \<le> source_sz_expected + hl
       then Some (\<lparr>hist_len = hl, job_len = min (n - hl) source_sz_expected + hl, job_data = h @ b,
                   target_user = t1, target_fifo = t2\<rparr>, s)
       else None
     }"

section \<open>Submitting a job\<close>

definition job_of :: "nx_setup \<Rightarrow> nx_core \<Rightarrow> nx_job" where
  "job_of p s =
     \<lparr>j_fc = nx_reset_dde s, j_source = take (job_len p) (job_data p), j_target = target_user p + target_fifo p,
      j_crc = in_crc s, j_adler = in_adler s, j_histlen_subc = in_histlen_subc s, j_sfbt_rem = in_sfbt_rem s, j_dht = in_dht s\<rparr>"

text \<open>The accelerator writes its output parameters, and data to the target whether the job succeeds or not.\<close>

definition take_answer :: "nx_setup \<Rightarrow> nx_resp \<Rightarrow> nx_core \<Rightarrow> nx_core option" where
  "take_answer p r s =
     do {
       let out = take (target_user p + target_fifo p) (r_out r);
       m \<leftarrow> wr_block (i_obuf s) (i_next_out s) (take (target_user p) out);
       f \<leftarrow> wr_block (i_fifo_out s) (i_cur_out s) (drop (target_user p) out);
       Some (s\<lparr>i_obuf := m, i_fifo_out := f, out_crc := r_crc r, out_adler := r_adler r, jobs := jobs s + 1\<rparr>)
     }"

text \<open>The end of the submission loop: a job to be accounted for, an error or a failed assertion.\<close>

datatype job_end = Done nx_setup nx_resp nx_core | Refused int nx_core | Aborted

definition data_length :: "nx_setup \<Rightarrow> nx_resp \<Rightarrow> nx_core \<Rightarrow> job_end" where
  "data_length p r s =
     (let nx_ce = drop_bit 5 (r_ce r) in
      if \<not> csb_ce_termination nx_ce \<and> csb_ce_partial_completion nx_ce
      then if r_tpbc r \<le> target_user p + target_fifo p then Done p r s else Aborted
      else Refused Z_DATA_ERROR s)"

definition fewer_source :: "nat \<Rightarrow> nat" where
  "fewer_source n =
     (if 2 * INF_MIN_INPUT_LEN < n then (n + 1) div 2 else if INF_MIN_INPUT_LEN < n then INF_MIN_INPUT_LEN else n)"

definition fewer_target :: "nat \<Rightarrow> nat" where
  "fewer_target n =
     (if 2 * INF_MAX_EXPANSION_BYTES < n then (n + 1) div 2
      else if INF_MAX_EXPANSION_BYTES < n then INF_MAX_EXPANSION_BYTES else n)"

text \<open>
  From \<^verbatim>\<open>init_dde\<close> (nothing is prepared) or \<^verbatim>\<open>restart_nx\<close> to the end of the switch over the completion code.
  A page fault that lasts longer than the timeout falls through to the next case. \<open>None\<close>: the loop does
  not end.
\<close>

partial_function (option) submit_loop ::
  "nx_env \<Rightarrow> nat \<Rightarrow> nat \<Rightarrow> nat \<Rightarrow> nx_setup option \<Rightarrow> nx_core \<Rightarrow> job_end option" where
  "submit_loop env se te ticks_total prepared s =
     (case (case prepared of None \<Rightarrow> init_dde se te s | Some p \<Rightarrow> Some (p, s)) of
        None \<Rightarrow> Some Aborted
      | Some (p, s) \<Rightarrow>
          (let r = nx_submit_job env (jobs s) (job_of p s) in
           case take_answer p r s of
             None \<Rightarrow> Some Aborted
           | Some s \<Rightarrow>
               (if r_cc r = ERR_NX_AT_FAULT then
                  if ticks_total = 0 then submit_loop env se te (nx_wait_ticks env ticks_total) (Some p) s
                  else
                    (let se = fewer_source (job_len p - hist_len p);
                         te = fewer_target te;
                         ticks_total = nx_wait_ticks env ticks_total
                     in if timeout_ticks env < ticks_total then Some (data_length p r s)
                        else submit_loop env se te ticks_total None s)
                else if r_cc r = ERR_NX_DATA_LENGTH then Some (data_length p r s)
                else if r_cc r = ERR_NX_TARGET_SPACE then
                  submit_loop env (fewer_source ((job_len p - hist_len p + 1) div 2)) te ticks_total None s
                else if r_cc r = ERR_NX_OK then
                  (if r_tpbc r \<le> target_user p + target_fifo p \<and> i_history_len s \<le> r_spbc r then Some (Done p r s) else Some Aborted)
                else Some (Refused Z_DATA_ERROR s))))"

section \<open>After a suspended job\<close>

definition clear_resume :: "nx_core \<Rightarrow> nx_core" where
  "clear_resume s = s\<lparr>in_histlen_subc := 0, in_sfbt_rem := 0\<rparr>"

definition set_resume :: "nat \<Rightarrow> nat \<Rightarrow> nx_core \<Rightarrow> nx_core" where
  "set_resume subc sfbt s =
     (let s = clear_resume s
      in s\<lparr>in_histlen_subc := put_in_subc (subc mod 8) (in_histlen_subc s), in_sfbt_rem := put_in_sfbt sfbt (in_sfbt_rem s)\<rparr>)"

text \<open>\<^verbatim>\<open>while (dhtlen > 0) { --dhtlen; in_dht[dhtlen] = out_dht[dhtlen]; }\<close>\<close>

primrec copy_dht :: "nat \<Rightarrow> u128 list \<Rightarrow> u128 list \<Rightarrow> u128 list option" where
  "copy_dht 0 src dst = Some dst"
| "copy_dht (Suc n) src dst = do { b \<leftarrow> rd src n; dst \<leftarrow> wr dst n b; copy_dht n src dst }"

text \<open>
  The last byte given and the one in front of it. The code looks for the latter in the buffer of the
  former, so that it reads in front of the user's input when only one byte came from there.
\<close>

definition last_bytes :: "nx_env \<Rightarrow> nat \<Rightarrow> nx_core \<Rightarrow> (u8 \<times> u8 option) option" where
  "last_bytes env n s =
     (if n \<le> i_used_in s then
        do {
          i \<leftarrow> ptr_minus (i_cur_in s + n) 1;
          b \<leftarrow> rd (fifo_in s) i;
          Some (b, Option.bind (ptr_minus i 1) (rd (fifo_in s)))
        }
      else do {
        i \<leftarrow> ptr_minus (n - i_used_in s) 1;
        b \<leftarrow> rd (i_next_in s) i;
        Some (b, if i = 0 then Some (before_input env) else rd (i_next_in s) (i - 1))
      })"

definition find_sync_point :: "nx_env \<Rightarrow> nat \<Rightarrow> nat \<Rightarrow> nx_core \<Rightarrow> nx_core option" where
  "find_sync_point env n subc s =
     (if 3 \<le> subc \<and> subc \<le> 10 \<and> nx_reset_dde s \<noteq> GZIP_FC_DECOMPRESS_SINGLE_BLK_N_SUSPEND
         \<and> nx_reset_dde s \<noteq> GZIP_FC_DECOMPRESS_RESUME_SINGLE_BLK_N_SUSPEND then
        do {
          (b, c) \<leftarrow> last_bytes env n s;
          if subc \<le> 8 then Some (s\<lparr>sync_point := of_bool (b AND push_bit (8 - subc) 0xff = 0)\<rparr>)
          else if b \<noteq> 0 then Some (s\<lparr>sync_point := 0\<rparr>)
          else do { c \<leftarrow> c; Some (s\<lparr>sync_point := of_bool (c AND push_bit (16 - subc) 0xff = 0)\<rparr>) }
        }
      else Some s)"

text \<open>
  The switch over the type of the last block: the source bytes used up, the bits of the first unprocessed
  byte on, and the parameters of the next job.
\<close>

definition ok_cc3 :: "nx_env \<Rightarrow> nx_setup \<Rightarrow> nx_resp \<Rightarrow> nx_core \<Rightarrow> (nat \<times> nat \<times> nx_core) option" where
  "ok_cc3 env p r s =
     do {
       let sfbt = get_out_sfbt (r_sfbt_rem r);
       let subc = get_out_subc (r_subc_word r);
       source_sz \<leftarrow> (if hist_len p < r_spbc r then Some (r_spbc r - hist_len p) else None);
       if sfbt = 0 then
         do { source_sz \<leftarrow> ptr_minus source_sz (subc div 8); Some (source_sz, 0, s\<lparr>is_final := 1\<rparr>) }
       else if sfbt = 8 \<or> sfbt = 9 then do {
         source_sz \<leftarrow> ptr_minus source_sz ((subc + 7) div 8);
         let s = set_resume subc sfbt s;
         Some (source_sz, subc, s\<lparr>in_sfbt_rem := put_in_rembytecnt (get_out_rembytecnt (r_sfbt_rem r)) (in_sfbt_rem s)\<rparr>)
       }
       else if sfbt = 10 \<or> sfbt = 11 then do {
         source_sz \<leftarrow> ptr_minus source_sz ((subc + 7) div 8);
         Some (source_sz, subc, set_resume subc sfbt s)
       }
       else if sfbt = 12 \<or> sfbt = 13 then do {
         source_sz \<leftarrow> ptr_minus source_sz ((subc + 7) div 8);
         let s = set_resume subc sfbt s;
         let dhtlen = get_out_dhtlen (r_sfbt_rem r);
         let s = s\<lparr>in_sfbt_rem := put_in_dhtlen dhtlen (in_sfbt_rem s)\<rparr>;
         if dhtlen < 42 then None
         else do { d \<leftarrow> copy_dht ((dhtlen + 127) div 128) (r_dht r) (in_dht s); Some (source_sz, subc, s\<lparr>in_dht := d\<rparr>) }
       }
       else if sfbt = 14 \<or> sfbt = 15 then do {
         s \<leftarrow> (if sfbt = 14 then find_sync_point env source_sz subc s else Some s);
         source_sz \<leftarrow> ptr_minus source_sz ((subc + 7) div 8);
         Some (source_sz, subc, set_resume subc sfbt s)
       }
       else Some (source_sz, 0, s)
     }"

section \<open>Accounting for a job\<close>

definition use_source :: "nat \<Rightarrow> nx_core \<Rightarrow> nx_core option" where
  "use_source n s =
     (if i_used_in s < n then
        map_option (\<lambda>s. s\<lparr>i_used_in := 0\<rparr>) (use_input (n - i_used_in s) s)
      else fifo_in_len_check (s\<lparr>i_used_in := i_used_in s - n, i_cur_in := i_cur_in s + n\<rparr>))"

text \<open>\<open>overflow_len\<close> is an \<^verbatim>\<open>int\<close> made from the difference of two 32-bit numbers.\<close>

definition overflow_len :: "nat \<Rightarrow> nat \<Rightarrow> int" where
  "overflow_len tp len_next_out = sint (word_of_nat tp - word_of_nat len_next_out :: u32)"

definition keep_history :: "nat \<Rightarrow> nat \<Rightarrow> nx_core \<Rightarrow> nx_core option" where
  "keep_history tp len_next_out s =
     (let ov = overflow_len tp len_next_out in
      if ov \<le> 0 then
        do {
          s \<leftarrow> (if i_used_out s \<noteq> 0 then None
                else if is_final s = 0 then do {
                  let need_len = min INF_HIS_LEN tp;
                  p \<leftarrow> ptr_minus (i_next_out s + tp) need_len;
                  b \<leftarrow> rd_block (i_obuf s) p need_len;
                  m \<leftarrow> wr_block (i_fifo_out s) (i_cur_out s) b;
                  inf_fifo_out_len_check (s\<lparr>i_fifo_out := m, i_cur_out := i_cur_out s + need_len\<rparr>)
                }
                else Some s);
          made_output tp s
        }
      else
        do {
          m \<leftarrow> (if nat ov < INF_HIS_LEN then
                   if INF_HIS_LEN < (len_next_out + nat ov) mod 2 ^ 32 then do {
                     let len = INF_HIS_LEN - nat ov;
                     p \<leftarrow> ptr_minus (i_next_out s + len_next_out) len;
                     b \<leftarrow> rd_block (i_obuf s) p len;
                     q \<leftarrow> ptr_minus (i_cur_out s) len;
                     wr_block (i_fifo_out s) q b
                   }
                   else do {
                     let len = INF_HIS_LEN - (len_next_out + nat ov);
                     q \<leftarrow> ptr_minus (i_cur_out s) (len_next_out + len);
                     m \<leftarrow> memmove (i_fifo_out s) q (i_cur_out s - len) len;
                     b \<leftarrow> rd_block (i_obuf s) (i_next_out s) len_next_out;
                     wr_block m (i_cur_out s - len_next_out) b
                   }
                 else Some (i_fifo_out s));
          made_output len_next_out (s\<lparr>i_fifo_out := m, i_used_out := i_used_out s + nat ov\<rparr>)
        })"

text \<open>The compression ratio, times 1000, is kept in an \<^verbatim>\<open>int\<close>; a negative one is a large unsigned number.\<close>

definition new_ratio :: "nat \<Rightarrow> nat \<Rightarrow> nat" where
  "new_ratio source_sz tp =
     (let r = sint (word_of_nat ((1000 * (source_sz + 1)) div (tp + 1)) :: u32)
      in if r < 0 then 1000 else max (min 1000 (nat r)) 1)"

text \<open>What a round of the main loop does: returns, goes round again, or faults.\<close>

datatype inf_round = Stop int nx_core | Round nx_core | Crash

definition stop_with :: "(int \<times> nx_core) option \<Rightarrow> inf_round" where
  "stop_with x = (case x of None \<Rightarrow> Crash | Some (rc, s) \<Rightarrow> Stop rc s)"

definition account_job :: "nat \<Rightarrow> nat \<Rightarrow> nat \<Rightarrow> bool \<Rightarrow> nx_core \<Rightarrow> nx_core option" where
  "account_job len_next_out source_sz tp starved s =
     do {
       s \<leftarrow> use_source source_sz s;
       s \<leftarrow> keep_history tp len_next_out (nx_inflate_update_checksum s);
       let s = s\<lparr>i_history_len := min (i_total_out s + i_used_out s) INF_HIS_LEN\<rparr>;
       let s = (if source_sz \<noteq> 0 \<or> tp \<noteq> 0 then s\<lparr>last_comp_ratio := new_ratio source_sz tp\<rparr>
                else if starved then s\<lparr>last_comp_ratio := 1000\<rparr> else s);
       Some (s\<lparr>resuming := (if is_final s = 0 then 1 else resuming s), i_dict_len := 0\<rparr>)
     }"

definition offsets_state ::
  "nx_env \<Rightarrow> nat \<Rightarrow> nat \<Rightarrow> nat \<Rightarrow> nx_resp \<Rightarrow> nx_core \<Rightarrow> inf_round" where
  "offsets_state env len_next_out source_sz partial_bits r s =
     (case account_job len_next_out source_sz (r_tpbc r)
             (r_cc r = ERR_NX_DATA_LENGTH \<and> get_out_sfbt (r_sfbt_rem r) = 14 \<and> 0 < get_out_subc (r_subc_word r)) s of
        None \<Rightarrow> Crash
      | Some s \<Rightarrow>
          if is_final s = 1 \<or> r_cc r = ERR_NX_OK then
            (case nx_inflate_verify_checksum 1 s of
               None \<Rightarrow> Crash
             | Some (rc, s) \<Rightarrow>
                 let s = s\<lparr>is_final := 1\<rparr>
                 in if i_used_out s = 0 then stop_with (nx_inflate_verify_checksum 0 s) else Round s)
          else if 0 < i_avail_out s \<and> (partial_bits + 7) div 8 < (i_used_in s + length (i_next_in s)) mod 2 ^ 32 then Round s
          else if 0 < i_avail_out s \<and> i_next_in s \<noteq> [] then stop_with (copy_data_to_fifo_in env s)
          else Stop Z_OK s)"

section \<open>The main loop\<close>

definition hand_out :: "nx_core \<Rightarrow> nx_core option" where
  "hand_out s =
     (let write_sz = min (i_used_out s) (i_avail_out s) in
      if 0 < write_sz then do {
        b \<leftarrow> rd_block (i_fifo_out s) (i_cur_out s) write_sz;
        m \<leftarrow> wr_block (i_obuf s) (i_next_out s) b;
        s \<leftarrow> made_output write_sz (s\<lparr>i_obuf := m\<rparr>);
        inf_fifo_out_len_check (s\<lparr>i_used_out := i_used_out s - write_sz, i_cur_out := i_cur_out s + write_sz\<rparr>)
      }
      else Some s)"

definition target_guess :: "nx_core \<Rightarrow> nat" where
  "target_guess s = (i_avail_out s + INF_HIS_LEN + INF_HIS_LEN div 4) mod 2 ^ 32"

definition run_job :: "nx_env \<Rightarrow> nx_core \<Rightarrow> inf_round option" where
  "run_job env s =
     (let len_next_out = i_avail_out s;
          s = bound_ratio (s\<lparr>sync_point := 0\<rparr>);
          te = min (target_guess s) (per_job_len env);
          se = ((te * last_comp_ratio s + 1000) div 1000) mod 2 ^ 32;
          te = min (target_guess s) ((4 * per_job_len env) mod 2 ^ 32)
      in map_option
           (\<lambda>e. case e of
                  Aborted \<Rightarrow> Crash
                | Refused rc s \<Rightarrow> Stop rc s
                | Done p r s \<Rightarrow>
                    (if r_cc r = ERR_NX_OK then
                       (if hist_len p \<le> r_spbc r then offsets_state env len_next_out (r_spbc r - hist_len p) 0 r s else Crash)
                     else case ok_cc3 env p r s of
                            None \<Rightarrow> Crash
                          | Some (source_sz, partial_bits, s) \<Rightarrow> offsets_state env len_next_out source_sz partial_bits r s))
           (submit_loop env se te 0 None s))"

text \<open>From the label \<^verbatim>\<open>copy_fifo_out_to_next_out\<close> to the next jump there; \<open>None\<close> when the submission loop does not end.\<close>

definition inflate_round :: "nx_env \<Rightarrow> int \<Rightarrow> nx_core \<Rightarrow> inf_round option" where
  "inflate_round env flsh s0 =
     (case (if 0 < i_used_out s0 then hand_out s0 else Some s0) of
        None \<Rightarrow> Some Crash
      | Some s \<Rightarrow>
          if 0 < i_used_out s0 \<and> 0 < i_used_out s \<and> i_avail_out s = 0 then Some (Stop Z_OK s)
          else if 0 < i_used_out s0 \<and> is_final s = 1 then Some (stop_with (nx_inflate_verify_checksum 2 s))
          else if i_used_out s \<noteq> 0 then Some Crash
          else if i_avail_out s = 0 \<or> (i_next_in s = [] \<and> i_used_in s = 0) then Some (Stop Z_OK s)
          else if i_next_in s \<noteq> [] \<and> (length (i_next_in s) + i_used_in s) mod 2 ^ 32 < cache_threshold env
                  \<and> flsh \<noteq> Z_FINISH \<and> flsh \<noteq> Z_SYNC_FLUSH
          then Some (stop_with (copy_data_to_fifo_in env s))
          else run_job env s)"

text \<open>\<open>n\<close> is the number of rounds left; the code allows \<^verbatim>\<open>loop_max - 1\<close> of them.\<close>

primrec inflate_loop :: "nx_env \<Rightarrow> int \<Rightarrow> nat \<Rightarrow> nx_core \<Rightarrow> inf_round option" where
  "inflate_loop env flsh 0 s = Some (Stop Z_STREAM_ERROR s)"
| "inflate_loop env flsh (Suc n) s =
     Option.bind (inflate_round env flsh s) (\<lambda>r. case r of Round s \<Rightarrow> inflate_loop env flsh n s | r \<Rightarrow> Some r)"

definition loop_max :: nat where "loop_max = 0xffff"

text \<open>The user passes valid pointers: the tests of \<^verbatim>\<open>next_in\<close> and \<^verbatim>\<open>next_out\<close> for \<^verbatim>\<open>NULL\<close> are left out.\<close>

definition nx_inflate_body :: "nx_env \<Rightarrow> int \<Rightarrow> nx_core \<Rightarrow> inf_round option" where
  "nx_inflate_body env flsh s =
     (if i_next_in s = [] \<and> i_used_in s = 0 \<and> i_avail_out s = 0 \<and> i_used_out s = 0 then Some (Stop Z_STREAM_END s)
      else if is_final s = 1 \<and> i_used_out s = 0 then Some (stop_with (nx_inflate_verify_checksum 2 s))
      else if i_avail_out s = 0 then Some (Stop Z_BUF_ERROR s)
      else inflate_loop env flsh (loop_max - 1) s)"

end
