(* ===== verification/Adler32.thy ===== *)
theory Adler32
  imports NxPrelude
begin

text \<open>
  The Adler-32 checksum of \<^verbatim>\<open>lib/nx_adler32.c\<close> on 64-bit \<^verbatim>\<open>unsigned long\<close> values: the single-byte
  and short-input paths, the blocks of \<^verbatim>\<open>NMAX\<close> bytes with one deferred reduction, and
  \<^verbatim>\<open>nx_adler32_combine\<close>. The reference is the definition of RFC 1950 on natural numbers.
\<close>

section \<open>The code\<close>

definition BASE :: u64 where "BASE = 65521"
definition NMAX :: nat where "NMAX = 5552"

type_synonym sums = "u64 \<times> u64"

definition DO1 :: "u8 \<Rightarrow> sums \<Rightarrow> sums" where
  "DO1 b = (\<lambda>(adler, sum2). let adler = adler + ucast b in (adler, sum2 + adler))"

definition DO16 :: "u8 list \<Rightarrow> sums \<Rightarrow> sums" where
  "DO16 buf s = fold DO1 (take 16 buf) s"

definition MOD :: "sums \<Rightarrow> sums" where
  "MOD = (\<lambda>(adler, sum2). (adler mod BASE, sum2 mod BASE))"

definition join_sums :: "sums \<Rightarrow> u64" where
  "join_sums = (\<lambda>(adler, sum2). adler OR push_bit 16 sum2)"

definition split_sums :: "u64 \<Rightarrow> sums" where
  "split_sums adler = (adler AND 0xffff, drop_bit 16 adler AND 0xffff)"

definition reduce_once :: "u64 \<Rightarrow> u64" where
  "reduce_once a = (if BASE \<le> a then a - BASE else a)"

text \<open>\<open>n\<close> rounds of \<^verbatim>\<open>DO16\<close>.\<close>

primrec do16_rounds :: "nat \<Rightarrow> u8 list \<Rightarrow> sums \<Rightarrow> u8 list \<times> sums" where
  "do16_rounds 0 buf s = (buf, s)"
| "do16_rounds (Suc n) buf s = do16_rounds n (drop 16 buf) (DO16 buf s)"

text \<open>The loop over blocks of \<open>NMAX\<close> bytes.\<close>

function nmax_blocks :: "u8 list \<Rightarrow> sums \<Rightarrow> u8 list \<times> sums" where
  "nmax_blocks buf s =
     (if NMAX \<le> length buf
      then (let (buf', s') = do16_rounds (NMAX div 16) buf s in nmax_blocks (drop NMAX buf) (MOD s'))
      else (buf, s))"
  by pat_completeness auto
termination by (relation "measure (length \<circ> fst)") (auto simp: NMAX_def)

text \<open>The remaining bytes: rounds of 16 while there are 16, then single bytes.\<close>

function rest_bytes :: "u8 list \<Rightarrow> sums \<Rightarrow> sums" where
  "rest_bytes buf s =
     (if 16 \<le> length buf then rest_bytes (drop 16 buf) (DO16 buf s) else fold DO1 buf s)"
  by pat_completeness auto
termination by (relation "measure (length \<circ> fst)") auto

declare nmax_blocks.simps [simp del] rest_bytes.simps [simp del]

text \<open>A \<^verbatim>\<open>NULL\<close> buffer, which is only passed to ask for the initial value, is \<open>None\<close>.\<close>

definition nx_adler32 :: "u64 \<Rightarrow> u8 list option \<Rightarrow> u64" where
  "nx_adler32 adler0 buf =
     (let (adler, sum2) = split_sums adler0 in
      case buf of
        None \<Rightarrow> 1
      | Some bs \<Rightarrow>
          if length bs = 1 then
            (let adler = reduce_once (adler + ucast (hd bs)); sum2 = reduce_once (sum2 + adler)
             in join_sums (adler, sum2))
          else if length bs < 16 then
            (let (adler, sum2) = fold DO1 bs (adler, sum2)
             in join_sums (reduce_once adler, sum2 mod BASE))
          else
            (let (rest, s) = nmax_blocks bs (adler, sum2)
             in join_sums (if rest \<noteq> [] then MOD (rest_bytes rest s) else s)))"

definition nx_adler32_combine :: "u64 \<Rightarrow> u64 \<Rightarrow> int \<Rightarrow> u64" where
  "nx_adler32_combine adler1 adler2 len2 =
     (if len2 < 0 then 0xffffffff
      else let rem = word_of_int (len2 mod 65521);
               sum1 = adler1 AND 0xffff;
               sum2 = (rem * sum1) mod BASE;
               sum1 = sum1 + ((adler2 AND 0xffff) + BASE - 1);
               sum2 = sum2 + ((drop_bit 16 adler1 AND 0xffff) + (drop_bit 16 adler2 AND 0xffff) + BASE - rem);
               sum1 = reduce_once (reduce_once sum1);
               sum2 = (if push_bit 1 BASE \<le> sum2 then sum2 - push_bit 1 BASE else sum2);
               sum2 = reduce_once sum2
           in sum1 OR push_bit 16 sum2)"

section \<open>The reference\<close>

definition adler_step :: "u8 \<Rightarrow> nat \<times> nat \<Rightarrow> nat \<times> nat" where
  "adler_step b = (\<lambda>(a, s). let a = (a + unat b) mod 65521 in (a, (s + a) mod 65521))"

definition adler_ref :: "u8 list \<Rightarrow> nat \<times> nat \<Rightarrow> nat \<times> nat" where
  "adler_ref bs p = fold adler_step bs p"

definition adler_value :: "nat \<times> nat \<Rightarrow> u64" where
  "adler_value = (\<lambda>(a, s). word_of_nat (a + 65536 * s))"

text \<open>A checksum state has both halves below the modulus.\<close>

definition adler_valid :: "nat \<times> nat \<Rightarrow> bool" where
  "adler_valid = (\<lambda>(a, s). a < 65521 \<and> s < 65521)"

section \<open>Deferred reduction\<close>

definition raw_step :: "u8 \<Rightarrow> nat \<times> nat \<Rightarrow> nat \<times> nat" where
  "raw_step b = (\<lambda>(a, s). (a + unat b, s + (a + unat b)))"

definition raw_sums :: "u8 list \<Rightarrow> nat \<times> nat \<Rightarrow> nat \<times> nat" where
  "raw_sums bs p = fold raw_step bs p"

definition mod_pair :: "nat \<times> nat \<Rightarrow> nat \<times> nat" where
  "mod_pair = (\<lambda>(a, s). (a mod 65521, s mod 65521))"

definition word_pair :: "nat \<times> nat \<Rightarrow> sums" where
  "word_pair = (\<lambda>(a, s). (word_of_nat a, word_of_nat s))"

lemma adler_ref_simps [simp]:
  "adler_ref [] p = p" "adler_ref (b # bs) p = adler_ref bs (adler_step b p)"
  "adler_ref (bs @ cs) p = adler_ref cs (adler_ref bs p)"
  by (simp_all add: adler_ref_def)

lemma raw_sums_simps [simp]:
  "raw_sums [] p = p" "raw_sums (b # bs) p = raw_sums bs (raw_step b p)"
  "raw_sums (bs @ cs) p = raw_sums cs (raw_sums bs p)"
  by (simp_all add: raw_sums_def)

lemma adler_step_mod: "adler_step b (mod_pair p) = mod_pair (raw_step b p)"
proof (cases p)
  case (Pair a s)
  have a: "(a mod 65521 + unat b) mod 65521 = (a + unat b) mod 65521"
    by (rule mod_add_left_eq)
  have "(s mod 65521 + (a + unat b) mod 65521) mod 65521 = (s + (a + unat b)) mod 65521"
    by (rule mod_add_eq)
  then show ?thesis
    unfolding Pair adler_step_def mod_pair_def raw_step_def Let_def prod.case a by simp
qed

lemma adler_ref_mod: "adler_ref bs (mod_pair p) = mod_pair (raw_sums bs p)"
  by (induction bs arbitrary: p) (simp_all add: adler_step_mod)

lemma mod_pair_valid: "adler_valid p \<Longrightarrow> mod_pair p = p" "adler_valid (mod_pair p)"
  by (auto simp: adler_valid_def mod_pair_def split: prod.splits)

lemma adler_ref_valid:
  assumes "adler_valid p"
  shows "adler_ref bs p = mod_pair (raw_sums bs p)" "adler_valid (adler_ref bs p)"
  using adler_ref_mod [of bs p] mod_pair_valid assms by metis+

text \<open>The sums of \<open>n\<close> bytes grow at most quadratically.\<close>

definition sum_bound :: "nat \<Rightarrow> nat \<times> nat \<Rightarrow> nat \<times> nat \<Rightarrow> bool" where
  "sum_bound n p q \<longleftrightarrow> fst q \<le> fst p + 255 * n \<and> 2 * snd q \<le> 2 * snd p + 2 * n * fst p + 255 * (n * (n + 1))"

lemma raw_sums_bound: "sum_bound (length bs) p (raw_sums bs p)"
proof (induction bs rule: rev_induct)
  case (snoc b bs)
  obtain a s where q: "raw_sums bs p = (a, s)" by fastforce
  have b: "unat b \<le> 255" using unsigned_less [of b, where 'a = nat] by simp
  have "a \<le> fst p + 255 * length bs"
    and "2 * s \<le> 2 * snd p + 2 * length bs * fst p + 255 * (length bs * (length bs + 1))"
    using snoc by (simp_all add: sum_bound_def q)
  then show ?case
    using b by (simp add: sum_bound_def q raw_step_def algebra_simps)
qed (simp add: sum_bound_def)

lemma word_pair_step: "DO1 b (word_pair p) = word_pair (raw_step b p)"
  by (cases p) (simp add: DO1_def word_pair_def raw_step_def Let_def)

lemma word_pair_sums: "fold DO1 bs (word_pair p) = word_pair (raw_sums bs p)"
  by (induction bs arbitrary: p) (simp_all add: word_pair_step)

lemma MOD_word_pair:
  assumes "fst p < 2 ^ 64" "snd p < 2 ^ 64"
  shows "MOD (word_pair p) = word_pair (mod_pair p)"
proof -
  have "word_of_nat x mod BASE = (word_of_nat (x mod 65521) :: u64)" if "x < 2 ^ 64" for x
    using that by (simp add: BASE_def word_unat_eq_iff unat_mod unat_of_nat)
  then show ?thesis using assms by (cases p) (simp add: MOD_def word_pair_def mod_pair_def)
qed

section \<open>The loops\<close>

lemma do16_rounds_eq:
  "do16_rounds n buf (word_pair p) = (drop (16 * n) buf, word_pair (raw_sums (take (16 * n) buf) p))"
proof (induction n arbitrary: buf p)
  case (Suc n)
  have "take (16 * Suc n) buf = take 16 buf @ take (16 * n) (drop 16 buf)"
    by (simp add: take_add)
  then show ?case
    using Suc [of "drop 16 buf" "raw_sums (take 16 buf) p"]
    by (simp add: DO16_def word_pair_sums add.commute)
qed simp

lemma rest_bytes_eq: "rest_bytes buf s = fold DO1 buf s"
proof (induction buf s rule: rest_bytes.induct)
  case (1 buf s)
  have "fold DO1 buf s = fold DO1 (drop 16 buf) (DO16 buf s)" if "16 \<le> length buf"
    unfolding DO16_def by (metis append_take_drop_id fold_append comp_apply)
  then show ?case using 1 by (subst rest_bytes.simps) auto
qed

text \<open>With valid sums before, \<open>NMAX\<close> bytes keep both sums below \<open>2 ^ 32\<close>.\<close>

lemma valid_sums_small:
  assumes "adler_valid p" "length bs \<le> NMAX"
  shows "fst (raw_sums bs p) < 2 ^ 32" "snd (raw_sums bs p) < 2 ^ 32"
proof -
  let ?n = "length bs"
  have p: "fst p \<le> 65520" "snd p \<le> 65520" using assms(1) by (auto simp: adler_valid_def)
  have n: "?n \<le> 5552" using assms(2) by (simp add: NMAX_def)
  have b: "fst (raw_sums bs p) \<le> fst p + 255 * ?n"
    "2 * snd (raw_sums bs p) \<le> 2 * snd p + 2 * ?n * fst p + 255 * (?n * (?n + 1))"
    using raw_sums_bound [of bs p] by (auto simp: sum_bound_def)
  show "fst (raw_sums bs p) < 2 ^ 32" using b(1) p n by simp
  have "?n * fst p \<le> 5552 * 65520" "?n * (?n + 1) \<le> 5552 * 5553"
    using n p by (intro mult_le_mono; simp)+
  then show "snd (raw_sums bs p) < 2 ^ 32" using b(2) p by simp
qed

lemma MOD_valid:
  assumes "adler_valid p" "length bs \<le> NMAX"
  shows "MOD (word_pair (raw_sums bs p)) = word_pair (adler_ref bs p)"
  using valid_sums_small [OF assms] adler_ref_valid(1) [OF assms(1)] by (simp add: MOD_word_pair)

lemma nmax_blocks_eq:
  "adler_valid p \<Longrightarrow> \<exists>k. nmax_blocks buf (word_pair p) = (drop k buf, word_pair (adler_ref (take k buf) p))
     \<and> length buf - k < NMAX"
proof (induction "length buf" arbitrary: buf p rule: less_induct)
  case less
  show ?case
  proof (cases "NMAX \<le> length buf")
    case True
    let ?q = "adler_ref (take NMAX buf) p"
    have n: "16 * (NMAX div 16) = NMAX" by (simp add: NMAX_def)
    have "nmax_blocks buf (word_pair p) = nmax_blocks (drop NMAX buf) (MOD (word_pair (raw_sums (take NMAX buf) p)))"
      using True by (subst nmax_blocks.simps) (simp add: do16_rounds_eq n)
    also have "\<dots> = nmax_blocks (drop NMAX buf) (word_pair ?q)"
      using less.prems by (simp add: MOD_valid)
    finally have step: "nmax_blocks buf (word_pair p) = nmax_blocks (drop NMAX buf) (word_pair ?q)" .
    have "length (drop NMAX buf) < length buf" using True by (simp add: NMAX_def)
    from less.hyps [OF this adler_ref_valid(2) [OF less.prems]] obtain k where
      "nmax_blocks (drop NMAX buf) (word_pair ?q)
        = (drop k (drop NMAX buf), word_pair (adler_ref (take k (drop NMAX buf)) ?q))"
      "length (drop NMAX buf) - k < NMAX" by blast
    then show ?thesis
      using step by (intro exI [of _ "NMAX + k"]) (simp add: take_add add.commute)
  next
    case False
    then show ?thesis by (intro exI [of _ 0]) (subst nmax_blocks.simps, simp)
  qed
qed

section \<open>Packing\<close>

lemma unat_adler_value:
  "adler_valid (a, s) \<Longrightarrow> unat (adler_value (a, s)) = a + 65536 * s"
  using unat_of_nat [of "a + 65536 * s", where 'a = 64]
  by (simp add: adler_valid_def adler_value_def del: of_nat_add of_nat_mult)

lemma word_eq_of_unat: "unat (w :: u64) = n \<Longrightarrow> w = word_of_nat n"
  by (rule unsigned_word_eqI [where 'a = nat]) (metis of_nat_unat ucast_id)

lemma split_sums_value:
  assumes "adler_valid p"
  shows "split_sums (adler_value p) = word_pair p"
proof (cases p)
  case (Pair a s)
  have v: "a < 65521" "s < 65521" "unat (adler_value p) = a + 65536 * s"
    using assms unat_adler_value by (auto simp: Pair adler_valid_def)
  have m: "w AND 0xffff = take_bit 16 w" for w :: u64
    by (simp add: take_bit_eq_mask mask_eq_exp_minus_1)
  have u: "unat (take_bit 16 (adler_value p)) = a" "unat (take_bit 16 (drop_bit 16 (adler_value p))) = s"
    using v unfolding unsigned_take_bit_eq unsigned_drop_bit_eq
    by (simp_all add: take_bit_eq_mod drop_bit_eq_div)
  have "take_bit 16 (adler_value p) = word_of_nat a"
    by (rule word_eq_of_unat [OF u(1)])
  moreover have "take_bit 16 (drop_bit 16 (adler_value p)) = word_of_nat s"
    by (rule word_eq_of_unat [OF u(2)])
  ultimately show ?thesis
    unfolding split_sums_def m by (simp only: Pair word_pair_def prod.case)
qed

lemma join_sums_value:
  assumes "adler_valid p"
  shows "join_sums (word_pair p) = adler_value p"
proof (cases p)
  case (Pair a s)
  have v: "a < 2 ^ 16" using assms by (simp add: Pair adler_valid_def)
  have "word_of_nat a AND push_bit 16 (word_of_nat s) = (0 :: u64)"
    using word_of_nat_high_bits [OF v, where 'a = 64] by (intro bit_eqI) (auto simp: bit_simps)
  then have "word_of_nat a OR push_bit 16 (word_of_nat s) = (word_of_nat a + push_bit 16 (word_of_nat s) :: u64)"
    by (simp add: disjunctive_add_eq_or)
  also have "\<dots> = word_of_nat (a + 65536 * s)"
    by (simp add: push_bit_eq_mult mult.commute)
  finally show ?thesis by (simp add: Pair join_sums_def word_pair_def adler_value_def)
qed

section \<open>Correctness\<close>

lemma reduce_once_small:
  assumes "x < 2 * 65521"
  shows "reduce_once (word_of_nat x) = word_of_nat (x mod 65521)"
proof (cases "65521 \<le> x")
  case True
  then have "x mod 65521 = x - 65521" using assms by (simp add: le_mod_geq)
  moreover have "(65521 :: u64) \<le> word_of_nat x"
    using True assms by (simp add: word_le_nat_alt unat_of_nat)
  ultimately show ?thesis using True by (simp add: reduce_once_def BASE_def of_nat_diff)
next
  case False
  then have "\<not> (65521 :: u64) \<le> word_of_nat x"
    by (simp add: word_le_nat_alt unat_of_nat)
  then show ?thesis using False by (simp add: reduce_once_def BASE_def)
qed

lemma nx_adler32_correct:
  assumes v: "adler_valid p"
  shows "nx_adler32 (adler_value p) (Some bs) = adler_value (adler_ref bs p)"
proof -
  obtain a s where p: "p = (a, s)" by fastforce
  have wp: "word_pair p = (word_of_nat a, word_of_nat s)" by (simp add: p word_pair_def)
  have av: "a < 65521" "s < 65521" using v by (auto simp: p adler_valid_def)
  have valid: "adler_valid (adler_ref bs p)" by (rule adler_ref_valid(2) [OF v])
  note split = split_sums_value [OF v, unfolded wp] and join = join_sums_value [OF valid]
  consider (one) b where "bs = [b]" | (short) "length bs \<noteq> 1" "length bs < 16" | (long) "16 \<le> length bs"
    by (metis One_nat_def length_0_conv length_Suc_conv not_le_imp_less)
  then show ?thesis
  proof cases
    case one
    have b: "unat b < 256" using unsigned_less [of b, where 'a = nat] by simp
    have w: "word_of_nat a + ucast b = (word_of_nat (a + unat b) :: u64)" by simp
    have r1: "reduce_once (word_of_nat a + ucast b) = word_of_nat ((a + unat b) mod 65521)"
      unfolding w using av b by (intro reduce_once_small) simp
    have w2: "word_of_nat s + word_of_nat ((a + unat b) mod 65521)
        = (word_of_nat (s + (a + unat b) mod 65521) :: u64)" by simp
    have r2: "reduce_once (word_of_nat s + word_of_nat ((a + unat b) mod 65521))
        = word_of_nat ((s + (a + unat b) mod 65521) mod 65521)"
      unfolding w2 using av by (intro reduce_once_small) simp
    have "adler_ref bs p = ((a + unat b) mod 65521, (s + (a + unat b) mod 65521) mod 65521)"
      by (simp add: one p adler_step_def Let_def)
    then show ?thesis
      using join unfolding nx_adler32_def split Let_def prod.case option.case one
      by (simp add: r1 r2 word_pair_def del: of_nat_add)
  next
    case short
    obtain a1 s1 where raw: "raw_sums bs p = (a1, s1)" by fastforce
    have "fst (raw_sums bs p) \<le> a + 255 * length bs" using raw_sums_bound [of bs p] by (simp add: sum_bound_def p)
    then have a1: "a1 < 2 * 65521" using short av raw by simp
    have s1: "s1 < 2 ^ 64" using valid_sums_small(2) [OF v, of bs] short raw by (simp add: NMAX_def)
    have "word_of_nat s1 mod BASE = word_of_nat (s1 mod 65521)"
      using MOD_word_pair [of "(0, s1)"] s1 by (simp add: MOD_def word_pair_def mod_pair_def)
    moreover have "adler_ref bs p = (a1 mod 65521, s1 mod 65521)"
      using adler_ref_valid(1) [OF v, of bs] raw by (simp add: mod_pair_def)
    moreover have "fold DO1 bs (word_of_nat a, word_of_nat s) = (word_of_nat a1, word_of_nat s1)"
      using word_pair_sums [of bs p] raw by (simp add: wp) (simp add: word_pair_def)
    ultimately show ?thesis
      using join short reduce_once_small [OF a1]
      by (simp add: nx_adler32_def split word_pair_def)
  next
    case long
    obtain k where k: "nmax_blocks bs (word_pair p) = (drop k bs, word_pair (adler_ref (take k bs) p))"
        "length bs - k < NMAX"
      using nmax_blocks_eq [OF v] by blast
    have vk: "adler_valid (adler_ref (take k bs) p)" by (rule adler_ref_valid(2) [OF v])
    have all: "adler_ref (drop k bs) (adler_ref (take k bs) p) = adler_ref bs p"
      by (metis adler_ref_simps(3) append_take_drop_id)
    have "MOD (rest_bytes (drop k bs) (word_pair (adler_ref (take k bs) p))) = word_pair (adler_ref bs p)"
      using MOD_valid [OF vk, of "drop k bs"] k(2) all by (simp add: rest_bytes_eq word_pair_sums)
    then show ?thesis
      using long join all k(1) unfolding wp
      by (cases "drop k bs = []") (simp_all add: nx_adler32_def split)
  qed
qed

section \<open>Combining two checksums\<close>

lemma raw_sums_affine:
  "raw_sums bs (a, s) = (a + fst (raw_sums bs (0, 0)), s + length bs * a + snd (raw_sums bs (0, 0)))"
proof (induction bs rule: rev_induct)
  case (snoc b bs)
  obtain x y where z: "raw_sums bs (0, 0) = (x, y)" by fastforce
  show ?case using snoc by (simp add: z raw_step_def algebra_simps)
qed simp

lemma mod_shift:
  fixes A B n s m :: int
  shows "(A mod m + (s + B mod m + m - n mod m)) mod m = (A + (s + B + m - n)) mod m"
proof -
  have "m dvd (n - n mod m) - (A - A mod m) - (B - B mod m)"
    by (intro dvd_diff dvd_minus_mod)
  then show ?thesis by (simp add: mod_eq_dvd_iff algebra_simps)
qed

lemma combine_mods:
  fixes n a1 s1 x t :: nat
  shows "(a1 + (1 + x) mod 65521 + 65520) mod 65521 = (a1 + x) mod 65521"
    and "(n mod 65521 * a1 mod 65521 + (s1 + (n + t) mod 65521 + 65521 - n mod 65521)) mod 65521
      = (s1 + n * a1 + t) mod 65521"
proof -
  have "(a1 + (1 + x) mod 65521 + 65520) mod 65521 = (a1 + (1 + x) + 65520) mod 65521"
    by (metis (no_types, lifting) mod_add_left_eq mod_add_right_eq)
  also have "\<dots> = (a1 + x) mod 65521" by simp
  finally show "(a1 + (1 + x) mod 65521 + 65520) mod 65521 = (a1 + x) mod 65521" .
  have le: "n mod 65521 \<le> s1 + (n + t) mod 65521 + 65521"
    by (rule trans_le_add2) (simp add: less_imp_le)
  have "int ((n mod 65521 * a1 mod 65521 + (s1 + (n + t) mod 65521 + 65521 - n mod 65521)) mod 65521)
    = (int n mod 65521 * int a1 mod 65521 + (int s1 + (int n + int t) mod 65521 + 65521 - int n mod 65521)) mod 65521"
    using le by (simp add: of_nat_diff zmod_int add_diff_eq)
  also have "\<dots> = (int n * int a1 + (int s1 + (int n + int t) + 65521 - int n)) mod 65521"
    unfolding mod_mult_left_eq by (rule mod_shift)
  also have "\<dots> = (int (s1 + n * a1 + t) + 65521) mod 65521"
    by (simp add: algebra_simps)
  also have "\<dots> = int ((s1 + n * a1 + t) mod 65521)"
    unfolding mod_add_self2 zmod_int by simp
  finally show "(n mod 65521 * a1 mod 65521 + (s1 + (n + t) mod 65521 + 65521 - n mod 65521)) mod 65521
      = (s1 + n * a1 + t) mod 65521"
    by simp
qed

lemma reduce_twice:
  assumes "x < 3 * 65521"
  shows "reduce_once (reduce_once (word_of_nat x)) = word_of_nat (x mod 65521)"
proof (cases "65521 \<le> x")
  case True
  then have "(65521 :: u64) \<le> word_of_nat x" using assms by (simp add: word_le_nat_alt unat_of_nat)
  then have "reduce_once (word_of_nat x) = word_of_nat (x - 65521)"
    using True by (simp add: reduce_once_def BASE_def of_nat_diff)
  moreover have "(x - 65521) mod 65521 = x mod 65521" using True by (simp add: le_mod_geq)
  ultimately show ?thesis using reduce_once_small [of "x - 65521"] assms True by simp
next
  case False
  then have "\<not> (65521 :: u64) \<le> word_of_nat x" using assms by (simp add: word_le_nat_alt unat_of_nat)
  then have "reduce_once (word_of_nat x) = word_of_nat x" by (simp add: reduce_once_def BASE_def)
  then show ?thesis using reduce_once_small [of x] False by simp
qed

lemma reduce_double:
  assumes "x < 4 * 65521"
  shows "reduce_once (if push_bit 1 BASE \<le> word_of_nat x then word_of_nat x - push_bit 1 BASE else word_of_nat x)
    = word_of_nat (x mod 65521)"
proof (cases "2 * 65521 \<le> x")
  case True
  then have "push_bit 1 BASE \<le> (word_of_nat x :: u64)" "word_of_nat x - push_bit 1 BASE = (word_of_nat (x - 2 * 65521) :: u64)"
    using assms by (simp_all add: word_le_nat_alt unat_of_nat BASE_def push_bit_eq_mult of_nat_diff)
  moreover have "(x - 2 * 65521) mod 65521 = x mod 65521"
  proof -
    have "x = (x - 2 * 65521) + 2 * 65521" using True by simp
    then show ?thesis by (metis mod_mult_self1)
  qed
  ultimately show ?thesis using reduce_once_small [of "x - 2 * 65521"] assms True by simp
next
  case False
  then have "\<not> push_bit 1 BASE \<le> (word_of_nat x :: u64)"
    using assms by (simp add: word_le_nat_alt unat_of_nat BASE_def push_bit_eq_mult)
  then show ?thesis using reduce_once_small [of x] False by simp
qed

lemma nx_adler32_combine_value:
  assumes v1: "adler_valid (a1, s1)" and v2: "adler_valid (a2, s2)"
  shows "nx_adler32_combine (adler_value (a1, s1)) (adler_value (a2, s2)) (int n)
    = adler_value ((a1 + a2 + 65520) mod 65521,
        (n mod 65521 * a1 mod 65521 + (s1 + s2 + 65521 - n mod 65521)) mod 65521)"
proof -
  define r where "r = n mod 65521"
  have b: "a1 < 65521" "s1 < 65521" "a2 < 65521" "s2 < 65521" "r < 65521"
    using v1 v2 by (auto simp: adler_valid_def r_def)
  have parts: "adler_value (a1, s1) AND 0xffff = word_of_nat a1" "drop_bit 16 (adler_value (a1, s1)) AND 0xffff = word_of_nat s1"
    "adler_value (a2, s2) AND 0xffff = word_of_nat a2" "drop_bit 16 (adler_value (a2, s2)) AND 0xffff = word_of_nat s2"
    using split_sums_value [OF v1] split_sums_value [OF v2] by (auto simp: split_sums_def word_pair_def)
  have rem: "word_of_int (int n mod 65521) = (word_of_nat r :: u64)"
  proof -
    have "int n mod 65521 = int r" by (simp add: r_def zmod_int)
    then show ?thesis by simp
  qed
  have prod: "word_of_nat r * word_of_nat a1 mod BASE = (word_of_nat (r * a1 mod 65521) :: u64)"
  proof -
    have "r * a1 < 65521 * 65521" using b by (intro mult_strict_mono) auto
    then show ?thesis
      using MOD_word_pair [of "(r * a1, 0)"] by (simp add: MOD_def word_pair_def mod_pair_def)
  qed
  have x1: "word_of_nat a1 + (word_of_nat a2 + BASE - 1) = (word_of_nat (a1 + a2 + 65520) :: u64)"
    by (simp add: BASE_def)
  have le: "r \<le> s1 + s2 + 65521" using b by simp
  have x2: "word_of_nat (r * a1 mod 65521) + (word_of_nat s1 + word_of_nat s2 + BASE - word_of_nat r)
      = (word_of_nat (r * a1 mod 65521 + (s1 + s2 + 65521 - r)) :: u64)"
    using le by (simp add: BASE_def of_nat_diff)
  have lt1: "a1 + a2 + 65520 < 3 * 65521" and lt2: "r * a1 mod 65521 + (s1 + s2 + 65521 - r) < 4 * 65521"
    using b mod_less_divisor [of 65521 "r * a1"] by linarith+
  have "nx_adler32_combine (adler_value (a1, s1)) (adler_value (a2, s2)) (int n)
    = join_sums (word_pair ((a1 + a2 + 65520) mod 65521, (r * a1 mod 65521 + (s1 + s2 + 65521 - r)) mod 65521))"
    unfolding nx_adler32_combine_def parts Let_def rem prod x1 x2 reduce_twice [OF lt1] reduce_double [OF lt2]
    by (simp add: join_sums_def word_pair_def)
  then show ?thesis
    using join_sums_value [of "((a1 + a2 + 65520) mod 65521, (r * a1 mod 65521 + (s1 + s2 + 65521 - r)) mod 65521)"]
    by (simp add: adler_valid_def r_def)
qed

section \<open>Properties\<close>

text \<open>
  Claim C11. From every valid checksum, \<^verbatim>\<open>nx_adler32\<close> computes the Adler-32 checksum of RFC 1950 of
  every buffer, whatever its length: the single-byte path, the path for fewer than 16 bytes, the
  blocks of 5552 bytes with one reduction each and the remainder all agree with reducing after
  every byte. Checksumming a buffer in two pieces gives the same value as in one.
\<close>

theorem nx_adler32_is_adler32:
  assumes "adler_valid p"
  shows "nx_adler32 (adler_value p) (Some bs) = adler_value (adler_ref bs p)
    \<and> nx_adler32 (nx_adler32 (adler_value p) (Some bs)) (Some cs) = nx_adler32 (adler_value p) (Some (bs @ cs))"
  by (simp add: nx_adler32_correct assms adler_ref_valid(2))

theorem nx_adler32_is_adler32_witness:
  "nx_adler32 1 (Some [87, 105, 107, 105]) = 0x03DA0195
    \<and> nx_adler32 (nx_adler32 (adler_value (1, 0)) (Some [87])) (Some [105]) = nx_adler32 (adler_value (1, 0)) (Some [87, 105])"
proof -
  have v: "adler_valid (1, 0)" by (simp add: adler_valid_def)
  have one: "adler_value (1, 0) = 1" by (simp add: adler_value_def)
  have "adler_ref [87, 105, 107, 105] (1, 0) = (405, 986)"
    by (simp add: adler_step_def Let_def)
  then have "nx_adler32 1 (Some [87, 105, 107, 105]) = 0x03DA0195"
    using nx_adler32_is_adler32 [OF v, of "[87, 105, 107, 105]"] by (simp add: one) (simp add: adler_value_def)
  moreover have "nx_adler32 (nx_adler32 (adler_value (1, 0)) (Some [87])) (Some [105])
      = nx_adler32 (adler_value (1, 0)) (Some ([87] @ [105]))"
    by (rule conjunct2 [OF nx_adler32_is_adler32 [OF v]])
  ultimately show ?thesis by (simp only: append.simps simp_thms)
qed

lemma adler_combine_append:
  assumes "adler_valid p"
  shows "nx_adler32_combine (adler_value (adler_ref bs p)) (adler_value (adler_ref cs (1, 0))) (int (length cs))
      = adler_value (adler_ref (bs @ cs) p)"
proof -
  obtain a1 s1 where q: "adler_ref bs p = (a1, s1)" by fastforce
  have v1: "adler_valid (a1, s1)" using adler_ref_valid(2) [OF assms, of bs] q by simp
  have v0: "adler_valid (1, 0)" by (simp add: adler_valid_def)
  obtain x t where xt: "raw_sums cs (0, 0) = (x, t)" by fastforce
  define a2 s2 where "a2 = (1 + x) mod 65521" and "s2 = (length cs + t) mod 65521"
  have r2: "adler_ref cs (1, 0) = (a2, s2)"
    using adler_ref_valid(1) [OF v0, of cs] raw_sums_affine [of cs 1 0] xt
    by (simp add: mod_pair_def a2_def s2_def)
  have v2: "adler_valid (a2, s2)" using adler_ref_valid(2) [OF v0, of cs] r2 by simp
  have "adler_ref (bs @ cs) p = ((a1 + x) mod 65521, (s1 + length cs * a1 + t) mod 65521)"
    using adler_ref_valid(1) [OF v1, of cs] raw_sums_affine [of cs a1 s1] xt q by (simp add: mod_pair_def)
  moreover have "nx_adler32_combine (adler_value (a1, s1)) (adler_value (a2, s2)) (int (length cs))
    = adler_value ((a1 + x) mod 65521, (s1 + length cs * a1 + t) mod 65521)"
    unfolding nx_adler32_combine_value [OF v1 v2] unfolding a2_def s2_def
    by (simp only: combine_mods add.assoc [symmetric] combine_mods(2) [unfolded add.assoc [symmetric]])
  ultimately show ?thesis using q r2 by simp
qed

text \<open>
  Claim C13. \<^verbatim>\<open>nx_adler32_combine\<close> of the checksums of two buffers and the length of the second is the
  checksum of their concatenation; a negative length gives the invalid value 0xffffffff.
\<close>

theorem nx_adler32_combine_correct:
  assumes "adler_valid p"
  shows "nx_adler32_combine (nx_adler32 (adler_value p) (Some bs)) (nx_adler32 1 (Some cs)) (int (length cs))
      = nx_adler32 (adler_value p) (Some (bs @ cs))
    \<and> (len2 < 0 \<longrightarrow> nx_adler32_combine a b len2 = 0xffffffff)"
proof -
  have v0: "adler_valid (1, 0)" and one: "adler_value (1, 0) = 1" by (simp_all add: adler_valid_def adler_value_def)
  have "nx_adler32 1 (Some cs) = adler_value (adler_ref cs (1, 0))" using nx_adler32_correct [OF v0, of cs] one by simp
  then show ?thesis
    using nx_adler32_correct [OF assms] adler_combine_append [OF assms] by (simp add: nx_adler32_combine_def [of a b len2])
qed

theorem nx_adler32_combine_correct_witness:
  "nx_adler32_combine (nx_adler32 (adler_value (1, 0)) (Some [1, 2])) (nx_adler32 1 (Some [3])) (int (length [3::u8]))
      = nx_adler32 (adler_value (1, 0)) (Some ([1, 2] @ [3]))
    \<and> nx_adler32_combine 5 6 (-1) = 0xffffffff"
proof -
  have "adler_valid (1, 0)" by (simp add: adler_valid_def)
  from nx_adler32_combine_correct [OF this, of "[1, 2]" "[3]" "-1" 5 6] show ?thesis by simp
qed

text \<open>A run of equal bytes, the largest sums there are for a length.\<close>

lemma raw_sums_replicate:
  "raw_sums (replicate n (255 :: u8)) (a, b) = (a + 255 * n, b + n * a + 255 * (n * (n + 1) div 2))"
proof (induction n arbitrary: a b)
  case (Suc n)
  have "Suc n * (Suc n + 1) div 2 = n * (n + 1) div 2 + (n + 1)" by simp
  moreover have "raw_step 255 (a, b) = (a + 255, b + (a + 255))" by (simp add: raw_step_def)
  ultimately show ?case using Suc by (simp add: algebra_simps)
qed simp

text \<open>
  Claim C17. With reduced sums before a block, the deferred sums over up to \<open>NMAX\<close> bytes stay below
  \<open>2 ^ 32\<close>, as the comment at \<open>NMAX\<close> promises, and \<open>NMAX\<close> is the largest such number: one more
  byte of 255 after maximal sums exceeds it.
\<close>

theorem nmax_is_maximal:
  assumes "adler_valid p" and "length bs \<le> NMAX"
  shows "fst (raw_sums bs p) < 2 ^ 32 \<and> snd (raw_sums bs p) < 2 ^ 32
    \<and> 2 ^ 32 \<le> snd (raw_sums (replicate (NMAX + 1) 255) (unat BASE - 1, unat BASE - 1))"
  using valid_sums_small [OF assms] by (simp add: raw_sums_replicate NMAX_def BASE_def)

theorem nmax_is_maximal_witness:
  "adler_valid (1, 0) \<and> length [255 :: u8, 255] \<le> NMAX \<and> snd (raw_sums [255 :: u8, 255] (1, 0)) < 2 ^ 32"
  using nmax_is_maximal [of "(1, 0)" "[255, 255]"] by (simp add: adler_valid_def NMAX_def BASE_def)

end
