(* ===== verification/CrcCombine.thy ===== *)
theory CrcCombine
  imports Crc32Correct
begin

text \<open>
  \<^verbatim>\<open>nx_crc32_combine\<close> of \<^verbatim>\<open>lib/nx_crc.c\<close>: the matrices are linear maps over GF(2), squaring a matrix
  composes its map with itself, and the loop over the bits of the length appends that many zero
  bytes to the first checksum. The properties of the CRC stand at the end.
\<close>

section \<open>Matrices as linear maps\<close>

definition linear :: "(u32 \<Rightarrow> u32) \<Rightarrow> bool" where
  "linear f \<longleftrightarrow> f 0 = 0 \<and> (\<forall>x y. f (x XOR y) = f x XOR f y)"

definition represents :: "u64 list \<Rightarrow> (u32 \<Rightarrow> u32) \<Rightarrow> bool" where
  "represents mat f \<longleftrightarrow> (\<forall>i < length mat. mat ! i = ucast (f (push_bit i 1)))"

lemma linear_crc_shift: "linear (crc_shift n)"
  by (simp add: linear_def crc_shift_xor)

lemma linear_push: "linear f \<Longrightarrow> linear (\<lambda>x. f (push_bit k x))"
  by (simp add: linear_def push_bit_xor)

lemma ucast_xor_64: "ucast (x XOR y) = (ucast (x :: u32) XOR ucast y :: u64)"
  by (rule bit_eqI) (auto simp: bit_simps)

lemma ucast_eq_0_64: "(ucast (v :: u32) :: u64) = 0 \<longleftrightarrow> v = 0"
proof -
  have "n < 32 \<and> n < 64" if "bit v n" for n using bit_imp_le_length [OF that] by simp
  then show ?thesis by (simp add: bit_eq_iff bit_simps) blast
qed

lemma gf2_times_linear:
  assumes "linear f" and "represents mat f" and "take_bit (length mat) v = v"
  shows "gf2_times mat (ucast v) acc = Some (acc XOR ucast (f v))"
  using assms
proof (induction mat arbitrary: f v acc)
  case Nil
  then show ?case by (simp add: gf2_times.simps linear_def)
next
  case (Cons m ms)
  let ?g = "\<lambda>x. f (push_bit 1 x)"
  have m: "m = ucast (f 1)"
    using Cons.prems(2) by (auto simp: represents_def dest: spec [of _ 0])
  have g: "represents ms ?g"
    unfolding represents_def
  proof (intro allI impI)
    fix i
    assume "i < length ms"
    then have "(m # ms) ! Suc i = ucast (f (push_bit (Suc i) 1))"
      using Cons.prems(2) unfolding represents_def by (metis Suc_less_eq length_Cons)
    then show "ms ! i = ucast (f (push_bit 1 (push_bit i 1)))" by (simp add: mult.commute)
  qed
  have "take_bit (length ms) (drop_bit 1 v) = drop_bit 1 (take_bit (Suc (length ms)) v)"
    by (simp add: take_bit_drop_bit)
  then have IH: "gf2_times ms (ucast (drop_bit 1 v)) a = Some (a XOR ucast (?g (drop_bit 1 v)))" for a
    using Cons.IH [OF linear_push [OF Cons.prems(1)] g] Cons.prems(3) by simp
  have split: "v = (if bit v 0 then 1 else 0) XOR push_bit 1 (drop_bit 1 v)"
  proof (rule bit_eqI)
    fix n
    show "bit v n \<longleftrightarrow> bit ((if bit v 0 then 1 else 0) XOR push_bit 1 (drop_bit 1 v)) n"
      using bit_imp_le_length [of v n]
      by (cases n) (auto simp: bit_simps bit_1_iff simp del: push_bit_Suc drop_bit_Suc)
  qed
  have fv: "f v = (if bit v 0 then f 1 else 0) XOR ?g (drop_bit 1 v)"
    using Cons.prems(1) by (subst split) (simp add: linear_def)
  have low: "ucast v AND 1 \<noteq> (0 :: u64) \<longleftrightarrow> bit v 0"
    by (simp add: and_one_bit bit_simps)
  have sh: "drop_bit 1 (ucast v :: u64) = ucast (drop_bit 1 v)"
    by (rule bit_eqI) (auto simp: bit_simps dest: bit_imp_le_length)
  show ?case
  proof (cases "v = 0")
    case True
    then show ?thesis using Cons.prems(1) by (simp add: gf2_times.simps linear_def)
  next
    case False
    then show ?thesis
      by (subst gf2_times.simps) (simp add: ucast_eq_0_64 low sh [unfolded One_nat_def] IH [unfolded One_nat_def] m fv
        ucast_xor_64 xor.assoc)
  qed
qed

lemma gf2_matrix_times_linear:
  assumes "linear f" and "represents mat f" and "length mat = 32"
  shows "gf2_matrix_times mat (ucast v) = Some (ucast (f v))"
  using gf2_times_linear [OF assms(1,2), of v 0] assms(3)
  by (simp add: gf2_matrix_times_def take_bit_word_eq_self)

lemma gf2_matrix_square_linear:
  assumes "linear f" and "represents mat f" and "length mat = 32"
  shows "\<exists>sq. gf2_matrix_square mat = Some sq \<and> represents sq (\<lambda>x. f (f x)) \<and> length sq = 32"
proof -
  let ?row = "\<lambda>n. ucast (f (f (push_bit n 1))) :: u64"
  have loop: "for_each (\<lambda>n square. Option.bind (gf2_matrix_times mat (mat ! n)) (\<lambda>v. Some (square @ [v]))) ns acc
      = Some (acc @ map ?row ns)" if "set ns \<subseteq> {..<32}" for ns acc
    using that assms
  proof (induction ns arbitrary: acc)
    case (Cons n ns)
    then have "mat ! n = ucast (f (push_bit n 1))" by (simp add: represents_def)
    then show ?case using Cons by (simp add: gf2_matrix_times_linear)
  qed simp
  have "gf2_matrix_square mat = Some (map ?row [0..<32])"
    unfolding gf2_matrix_square_def GF2_DIM_def by (subst loop) auto
  then show ?thesis by (auto simp: represents_def)
qed

definition shift_matrix :: "u64 list \<Rightarrow> nat \<Rightarrow> bool" where
  "shift_matrix mat n \<longleftrightarrow> represents mat (crc_shift n) \<and> length mat = 32"

lemma shift_matrix_square:
  assumes "shift_matrix mat n"
  obtains sq where "gf2_matrix_square mat = Some sq" and "shift_matrix sq (2 * n)"
proof -
  have "(\<lambda>x. crc_shift n (crc_shift n x)) = crc_shift (2 * n)"
    by (simp add: fun_eq_iff mult_2 flip: crc_shift_add)
  then show ?thesis
    using gf2_matrix_square_linear [OF linear_crc_shift, of mat n] assms that
    by (auto simp: shift_matrix_def)
qed

lemma shift_matrix_times:
  "shift_matrix mat n \<Longrightarrow> gf2_matrix_times mat (ucast c) = Some (ucast (crc_shift n c))"
  by (simp add: shift_matrix_def gf2_matrix_times_linear linear_crc_shift)

lemma shift_matrix_step:
  assumes "shift_matrix mat n"
  shows "(if k mod 2 = 1 then gf2_matrix_times mat (ucast c) else Some (ucast c))
     = Some (ucast (crc_shift (n * (k mod 2)) c))"
  by (cases "k mod 2 = 1") (simp_all add: shift_matrix_times [OF assms])

lemma combine_loop_shift:
  assumes "shift_matrix od n"
  shows "combine_loop od (ucast c) len = Some (ucast (crc_shift (2 * n * len) c))"
  using assms
proof (induction len arbitrary: od n c rule: less_induct)
  case (less len)
  obtain ev where ev: "gf2_matrix_square od = Some ev" "shift_matrix ev (2 * n)"
    using shift_matrix_square [OF less.prems] .
  obtain od' where od': "gf2_matrix_square ev = Some od'" "shift_matrix od' (4 * n)"
    using shift_matrix_square [OF ev(2)] by auto
  define k where "k = len div 2 div 2"
  have len: "len = len mod 2 + 2 * (len div 2 mod 2) + 4 * k" and half: "len div 2 = 2 * k + len div 2 mod 2"
    unfolding k_def by presburger+
  have rec: "(if k = 0 then Some (ucast d) else combine_loop od' (ucast d) k) = Some (ucast (crc_shift (8 * n * k) d))" for d
    using less.IH [of k od' "4 * n" d] od'(2) by (auto simp: k_def)
  have "2 * n * len = 8 * n * k + (4 * n * (len div 2 mod 2) + 2 * n * (len mod 2))"
    by (subst (1) len) (simp add: algebra_simps)
  then have total: "crc_shift (2 * n * len) c
      = crc_shift (8 * n * k) (crc_shift (4 * n * (len div 2 mod 2)) (crc_shift (2 * n * (len mod 2)) c))"
    by (simp add: crc_shift_add)
  show ?case
  proof (cases "len div 2 = 0")
    case True
    then have "k = 0" "len div 2 mod 2 = 0" by (simp_all add: k_def)
    then show ?thesis
      unfolding total by (subst combine_loop.simps, unfold ev(1) Option.bind.bind_lunit,
          unfold shift_matrix_step [OF ev(2)] Option.bind.bind_lunit) (simp add: True)
  next
    case False
    then show ?thesis
      unfolding total
      by (subst combine_loop.simps, unfold ev(1) od'(1) Option.bind.bind_lunit,
          unfold shift_matrix_step [OF ev(2)] Option.bind.bind_lunit,
          unfold shift_matrix_step [OF od'(2)] Option.bind.bind_lunit)
        (simp add: rec [unfolded k_def] k_def split del: if_split)
  qed
qed

lemma one_bit_matrix: "shift_matrix (0xedb88320 # map (\<lambda>n. push_bit (n - 1) 1) [1..<GF2_DIM]) 1"
proof -
  have row: "push_bit (n - 1) 1 = (ucast (crc_shift 1 (push_bit n 1)) :: u64)" if "0 < n" "n < 32" for n
  proof -
    have "crc_bit (push_bit n 1) = drop_bit 1 (push_bit n 1)"
      using that by (simp add: crc_bit_eq bit_simps)
    moreover have "ucast (drop_bit 1 (push_bit n 1 :: u32)) = (push_bit (n - 1) 1 :: u64)"
      using that by (intro bit_eqI) (auto simp: bit_simps bit_1_iff)
    ultimately show ?thesis by (simp add: crc_shift_def)
  qed
  have "crc_shift 1 1 = 0xedb88320" by (simp add: crc_shift_def crc_bit_def POLY_def)
  then show ?thesis
    using row by (auto simp: shift_matrix_def represents_def GF2_DIM_def nth_Cons' simp del: push_bit_of_1)
qed

lemma combine_shift:
  "0 < len \<Longrightarrow> nx_crc32_combine (ucast c1) (ucast c2) (int len) = Some (ucast (crc_shift (8 * len) c1 XOR c2))"
proof -
  assume "0 < len"
  obtain m1 where m1: "gf2_matrix_square (0xedb88320 # map (\<lambda>n. push_bit (n - 1) 1) [1..<GF2_DIM]) = Some m1" "shift_matrix m1 2"
    using shift_matrix_square [OF one_bit_matrix] by (metis mult_1_right)
  obtain m2 where "gf2_matrix_square m1 = Some m2" "shift_matrix m2 4"
    using shift_matrix_square [OF m1(2)] by (metis mult_2 numeral_Bit0)
  then show ?thesis
    using combine_loop_shift [of m2 4 c1 len] m1(1) \<open>0 < len\<close>
    by (simp add: nx_crc32_combine_def crc32_combine_impl_def Let_def ucast_xor_64)
qed

section \<open>The properties\<close>

lemma ucast_32_64 [simp]: "ucast (ucast (c :: u32) :: u64) = c"
  by (rule bit_eqI) (auto simp: bit_simps)

lemma crc_raw_linear: "crc_raw ys (x XOR y) = crc_shift (8 * length ys) x XOR crc_raw ys y"
proof (induction ys arbitrary: x y)
  case (Cons b ys)
  have "ref_byte b (x XOR y) = crc_shift 8 x XOR ref_byte b y"
    by (simp add: ref_byte_def xor.assoc crc_shift_xor)
  then show ?case
    using Cons [of "crc_shift 8 x" "ref_byte b y"] by (simp add: crc_raw_def flip: crc_shift_add) (simp add: add.commute)
qed (simp add: crc_raw_def)

lemma crc_ref_append: "crc_ref (xs @ ys) c = crc_shift (8 * length ys) (crc_ref xs c) XOR crc_ref ys 0"
proof -
  have inv: "NOT x = x XOR NOT 0" for x :: u32 by (rule bit_eqI) (simp add: bit_simps)
  have "crc_ref (xs @ ys) c = NOT (crc_raw ys (crc_ref xs c XOR NOT 0))"
    by (simp add: crc_ref_def crc_raw_append flip: inv)
  then show ?thesis
    by (simp only: crc_raw_linear inv [of "_ XOR _"]) (simp add: crc_ref_def xor.assoc flip: inv)
qed

text \<open>
  Claim C10. \<^verbatim>\<open>nx_crc32_combine\<close> returns on the checksums of two blocks, never reads outside its
  matrices there, and its result is the checksum of the concatenation of the blocks, for any
  starting value and any lengths, the empty second block included.
\<close>

theorem nx_crc32_combine_correct:
  "nx_crc32_combine (ucast (crc_ref xs c)) (ucast (crc_ref ys 0)) (int (length ys)) = Some (ucast (crc_ref (xs @ ys) c))"
proof (cases "ys = []")
  case True
  then show ?thesis by (simp add: nx_crc32_combine_def crc32_combine_impl_def)
next
  case False
  then show ?thesis by (simp add: combine_shift crc_ref_append)
qed

text \<open>
  Claim C16. The eight tables of \<^verbatim>\<open>inc_nx/crc32.h\<close> are what \<^verbatim>\<open>make_crc_table\<close> computes from the
  polynomial: the generated header and its generator agree in all 2048 entries.
\<close>

theorem crc_tables_are_generated: "make_crc_table = crc_table"
  by (rule make_crc_table_correct)

text \<open>
  Claim C12. The loops \<^verbatim>\<open>generic_crc32\<close> chooses from: the byte-wise loop on \<^verbatim>\<open>unsigned long\<close>, the four-byte little-endian loop and the
  four-byte big-endian loop, each with its alignment prologue and its unrolled rounds, compute the
  bit-serial CRC-32 for every buffer, starting value and address of the buffer.
\<close>

theorem crc32_loops_equivalent:
  "crc32_bytewise (ucast c) buf = ucast (crc_ref buf c)
   \<and> crc32_little (ucast c) addr buf = ucast (crc_ref buf c)
   \<and> crc32_big (ucast c) addr buf = ucast (crc_ref buf c)"
  by (simp add: crc32_bytewise_ref crc32_little_ref crc32_big_ref)

text \<open>
  Claim C6. \<^verbatim>\<open>nx_crc32\<close> computes the bit-serial CRC-32 for every buffer at every address, in every build and whichever
  of its paths the length and the alignment select. The vector routine, for which its source asks for data aligned to 16 bytes
  and a multiple of 16 bytes long, only has to be right for such data.
\<close>

theorem nx_crc32_correct:
  assumes "vpmsum_ok vpmsum"
  shows "nx_crc32 build vpmsum (ucast c) addr (Some buf) = ucast (crc_ref buf c)"
  using assms by (simp add: nx_crc32_def generic_crc32_ref crc32_ppc_ref)

text \<open>A vector routine that gives zero for any other data.\<close>

definition vpmsum_example :: vector_crc where
  "vpmsum_example c addr bs = (if addr mod 16 = 0 \<and> bs \<noteq> [] \<and> length bs mod 16 = 0 then crc_raw bs c else 0)"

theorem nx_crc32_correct_witness:
  "vpmsum_ok vpmsum_example
   \<and> nx_crc32 Byfour_Big vpmsum_example (ucast (0 :: u32)) 7 (Some (replicate 40 65)) = ucast (crc_ref (replicate 40 65) 0)"
proof -
  have ok: "vpmsum_ok vpmsum_example" by (simp add: vpmsum_ok_def vpmsum_example_def)
  then show ?thesis using nx_crc32_correct [OF ok, of Byfour_Big 0 7 "replicate 40 65"] by blast
qed

end
