(* ===== verification/NxCopy.thy ===== *)
theory NxCopy
  imports Adler32 CrcCombine NxBuffer
begin

text \<open>
  \<^verbatim>\<open>nx_copy\<close> of \<^verbatim>\<open>lib/nx_zlib.c\<close>: the accelerator copies a block, in jobs of limited size, and computes the
  checksums of each job, which the software puts together. Dictionaries are taken over this way.
\<close>

section \<open>The code\<close>

definition COPY_OK :: int where "COPY_OK = 0"
definition COPY_AT_FAULT :: int where "COPY_AT_FAULT = 250"

text \<open>The answer of the accelerator to a wrap job: completion code, checksums and the data it wrote.\<close>

record nx_wrapped =
  w_cc :: int
  w_crc :: u32
  w_adler :: u32
  w_out :: "u8 list"

record copy_env =
  copy_job :: "nat \<Rightarrow> u8 list \<Rightarrow> nx_wrapped"
  copy_wait :: "nat \<Rightarrow> nat"
  copy_timeout :: nat
  copy_per_job :: nat
  soft_copy_threshold :: nat

text \<open>
  \<open>i\<close> counts the jobs; the destination is the memory \<open>m\<close> from \<open>off\<close> on. The result has the completion code,
  the checksums if they were stored, the memory and the number of the next job; it is \<open>None\<close> for a failed assertion and
  for a loop that does not end.
\<close>

partial_function (option) nx_copy_job ::
  "copy_env \<Rightarrow> nat \<Rightarrow> nat \<Rightarrow> u8 list \<Rightarrow> nat \<Rightarrow> u8 list \<Rightarrow> (int \<times> (u32 \<times> u32) option \<times> u8 list \<times> nat) option" where
  "nx_copy_job env ticks_total i m off src =
     (if src = [] then None
      else let w = copy_job env i src in
           case wr_block m off (take (length src) (w_out w)) of
             None \<Rightarrow> None
           | Some m \<Rightarrow>
               (if w_cc w = COPY_OK then Some (w_cc w, Some (w_crc w, w_adler w), m, i + 1)
                else if w_cc w = COPY_AT_FAULT \<and> copy_timeout env < ticks_total
                then nx_copy_job env (copy_wait env ticks_total) (i + 1) m off src
                else Some (w_cc w, None, m, i + 1)))"

text \<open>The loop over the jobs; \<open>crc\<close> and \<open>adler\<close> are \<open>None\<close> for \<^verbatim>\<open>NULL\<close>.\<close>

function nx_copy_loop ::
  "copy_env \<Rightarrow> nat \<Rightarrow> u8 list \<Rightarrow> nat \<Rightarrow> u8 list \<Rightarrow> u32 option \<Rightarrow> u32 option
     \<Rightarrow> (int \<times> u32 option \<times> u32 option \<times> u8 list \<times> nat) option" where
  "nx_copy_loop env i m off src crc adler =
     (if src = [] then Some (COPY_OK, crc, adler, m, i)
      else let job_len = min (copy_per_job env) (length src) in
           case nx_copy_job env 0 i m off (take job_len src) of
             None \<Rightarrow> None
           | Some (cc, None, m, i) \<Rightarrow> Some (cc, crc, adler, m, i)
           | Some (cc, Some (c, a), m, i) \<Rightarrow>
               (case (case crc of None \<Rightarrow> Some None
                      | Some c0 \<Rightarrow> map_option (\<lambda>c. Some (ucast c)) (nx_crc32_combine (ucast c0) (ucast c) (int job_len))) of
                  None \<Rightarrow> None
                | Some crc \<Rightarrow>
                    nx_copy_loop env i m (off + job_len) (drop job_len src) crc
                      (map_option (\<lambda>a0. ucast (nx_adler32_combine (ucast a0) (ucast a) (int job_len))) adler)))"
  by pat_completeness auto

lemma nx_copy_job_Nil: "nx_copy_job env t i m off [] = None"
  by (subst nx_copy_job.simps) simp

lemma nx_copy_job_Some: "nx_copy_job env t i m off (take k src) = Some x \<Longrightarrow> 0 < k"
  by (cases k) (simp_all add: nx_copy_job_Nil)

termination nx_copy_loop
proof (relation "measure (\<lambda>(env, i, m, off, src, crc, adler). length src)")
qed (auto dest: nx_copy_job_Some)

declare nx_copy_loop.simps [simp del]

definition nx_copy ::
  "copy_env \<Rightarrow> nat \<Rightarrow> u8 list \<Rightarrow> nat \<Rightarrow> u8 list \<Rightarrow> u32 option \<Rightarrow> u32 option
     \<Rightarrow> (int \<times> u32 option \<times> u32 option \<times> u8 list \<times> nat) option" where
  "nx_copy env i m off src crc adler =
     (if length src < soft_copy_threshold env \<and> crc = None \<and> adler = None
      then map_option (\<lambda>m. (COPY_OK, crc, adler, m, i)) (wr_block m off src)
      else map_option (\<lambda>(cc, c, a, r). (cc, if cc = COPY_OK then c else crc, if cc = COPY_OK then a else adler, r))
             (nx_copy_loop env i m off src crc adler))"


section \<open>One attempt\<close>

lemma nx_copy_job_once:
  "nx_copy_job env 0 i m off src =
     (if src = [] then None
      else let w = copy_job env i src in
           map_option (\<lambda>m. (w_cc w, if w_cc w = COPY_OK then Some (w_crc w, w_adler w) else None, m, i + 1))
             (wr_block m off (take (length src) (w_out w))))"
  by (subst nx_copy_job.simps) (simp add: Let_def split: option.split)

section \<open>Copying\<close>

lemma ucast_adler_value: "adler_valid p \<Longrightarrow> ucast (ucast (adler_value p) :: u32) = adler_value p"
proof -
  assume "adler_valid p"
  then have "unat (adler_value p) < 2 ^ 32"
    using unat_adler_value [of "fst p" "snd p"] by (auto simp: adler_valid_def)
  then show ?thesis by (intro word_unat_eq_iff [THEN iffD2]) (simp add: unsigned_ucast_eq unsigned_take_bit_eq take_bit_nat_eq_self)
qed

text \<open>What is documented of a wrap job: it copies its source and computes the checksums of it.\<close>

definition copy_engine_ok :: "copy_env \<Rightarrow> bool" where
  "copy_engine_ok env \<longleftrightarrow>
     (\<forall>i src. w_cc (copy_job env i src) = COPY_OK \<longrightarrow>
        w_out (copy_job env i src) = src \<and> w_adler (copy_job env i src) = ucast (adler_value (adler_ref src (1, 0))))"

text \<open>The memory with a block written to it.\<close>

definition written :: "u8 list \<Rightarrow> nat \<Rightarrow> u8 list \<Rightarrow> u8 list" where
  "written m off bs = take off m @ bs @ drop (off + length bs) m"

lemma written_written:
  "off + length bs + length cs \<le> length m \<Longrightarrow> written (written m off bs) (off + length bs) cs = written m off (bs @ cs)"
  by (simp add: written_def ac_simps)

lemma length_written [simp]: "off + length bs \<le> length m \<Longrightarrow> length (written m off bs) = length m"
  by (simp add: written_def)

text \<open>Only these cells may have changed.\<close>

definition outside_kept :: "u8 list \<Rightarrow> nat \<Rightarrow> nat \<Rightarrow> u8 list \<Rightarrow> bool" where
  "outside_kept m off n m' \<longleftrightarrow> length m' = length m \<and> take off m' = take off m \<and> drop (off + n) m' = drop (off + n) m"

lemma outside_kept_refl: "outside_kept m off n m"
  by (simp add: outside_kept_def)

lemma outside_kept_written:
  "off + length bs \<le> length m \<Longrightarrow> length bs \<le> n \<Longrightarrow> outside_kept m off n (written m off bs)"
  by (simp add: outside_kept_def written_def drop_append add.commute)

lemma outside_kept_trans:
  assumes "outside_kept m off n m1" and "outside_kept m1 off' n' m2" and "off \<le> off'" and "off' + n' \<le> off + n"
  shows "outside_kept m off n m2"
proof -
  have t: "take off xs = take off (take off' xs)" and d: "drop (off + n) xs = drop (off + n - (off' + n')) (drop (off' + n') xs)" for xs :: "u8 list"
    using assms(3,4) by (simp_all add: min_def)
  have "take off m2 = take off m1" "drop (off + n) m2 = drop (off + n) m1"
    using assms(2) unfolding t [of m1] t [of m2] d [of m1] d [of m2] outside_kept_def by simp_all
  then show ?thesis using assms(1,2) by (simp add: outside_kept_def)
qed

text \<open>What a job of the accelerator does to the memory and, if it succeeds, to the checksums.\<close>

lemma nx_copy_one:
  assumes "src \<noteq> []" and "off + length src \<le> length m"
  obtains m' where "nx_copy_job env 0 i m off src =
      Some (w_cc (copy_job env i src),
        if w_cc (copy_job env i src) = COPY_OK then Some (w_crc (copy_job env i src), w_adler (copy_job env i src)) else None, m', i + 1)"
    and "outside_kept m off (length src) m'"
    and "copy_engine_ok env \<Longrightarrow> w_cc (copy_job env i src) = COPY_OK \<Longrightarrow> m' = written m off src"
proof -
  define bs where "bs = take (length src) (w_out (copy_job env i src))"
  have "off + length bs \<le> length m" "length bs \<le> length src" using assms(2) by (simp_all add: bs_def)
  moreover have "bs = src" if "copy_engine_ok env" "w_cc (copy_job env i src) = COPY_OK"
    using that by (simp add: bs_def copy_engine_ok_def)
  ultimately show ?thesis
    using assms(1) that [of "written m off bs"] outside_kept_written [of off bs m]
    by (simp add: nx_copy_job_once Let_def written_def flip: bs_def)
qed

definition adler_arg :: "(nat \<times> nat) option \<Rightarrow> u32 option" where
  "adler_arg p = map_option (\<lambda>p. ucast (adler_value p)) p"

definition crc_right :: "copy_env \<Rightarrow> bool" where
  "crc_right env \<longleftrightarrow> (\<forall>i src. w_cc (copy_job env i src) = COPY_OK \<longrightarrow> w_crc (copy_job env i src) = crc_ref src 0)"

lemma combine_crc:
  assumes "0 < n"
  shows "nx_crc32_combine (ucast (c :: u32)) (ucast (w :: u32)) (int n) = Some (ucast (crc_shift (8 * n) c XOR w))"
  using combine_shift [OF assms] .

lemma crc_ref_continue: "crc_shift (8 * length xs) c XOR crc_ref xs 0 = crc_ref xs c"
  using crc_ref_append [of "[]" xs c] by (simp add: crc_ref_def crc_raw_def)

lemma crc_ref_twice: "crc_ref ys (crc_ref xs c) = crc_ref (xs @ ys) c"
  by (simp add: crc_ref_def crc_raw_append)

lemma adler_combine_one:
  assumes "adler_valid p" and "w = ucast (adler_value (adler_ref xs (1, 0)))"
  shows "ucast (nx_adler32_combine (ucast (ucast (adler_value p) :: u32)) (ucast (w :: u32)) (int (length xs))) = ucast (adler_value (adler_ref xs p))"
proof -
  have "adler_valid (adler_ref xs (1, 0))" by (intro adler_ref_valid(2)) (simp add: adler_valid_def)
  then show ?thesis
    using adler_combine_append [OF assms(1), of "[]" xs] assms by (simp add: ucast_adler_value adler_ref_def)
qed

lemma valid_continue:
  assumes "\<forall>q. p = Some q \<longrightarrow> adler_valid q"
  shows "\<forall>q. map_option (adler_ref bs) p = Some q \<longrightarrow> adler_valid q"
proof (intro allI impI)
  fix q assume "map_option (adler_ref bs) p = Some q"
  then obtain r where "p = Some r" "q = adler_ref bs r" by auto
  then show "adler_valid q" using assms adler_ref_valid(2) by simp
qed

text \<open>One round of the loop.\<close>

lemma nx_copy_loop_round:
  assumes eng: "copy_engine_ok env" and per: "0 < copy_per_job env" and p: "\<forall>q. p = Some q \<longrightarrow> adler_valid q"
    and room: "off + length src \<le> length m" and ne: "src \<noteq> []"
    and b: "b = take (copy_per_job env) src" and ok: "w_cc (copy_job env i b) = COPY_OK"
  obtains crc' where "nx_copy_loop env i m off src crc (adler_arg p)
      = nx_copy_loop env (i + 1) (written m off b) (off + length b) (drop (length b) src) crc' (adler_arg (map_option (adler_ref b) p))"
    and "crc_right env \<Longrightarrow> crc' = map_option (crc_ref b) crc" and "crc = None \<Longrightarrow> crc' = None"
proof -
  have n: "min (copy_per_job env) (length src) = length b" "take (length b) src = b" "0 < length b" "b \<noteq> []"
    using b per ne by (auto simp: min_def)
  have fit: "off + length b \<le> length m" using room b by simp
  define w where "w = copy_job env i b"
  obtain m' where job: "nx_copy_job env 0 i m off b = Some (w_cc w, if w_cc w = COPY_OK then Some (w_crc w, w_adler w) else None, m', i + 1)"
    "m' = written m off b"
    using nx_copy_one [OF n(4) fit, of env i] eng ok unfolding w_def by metis
  have w: "w_adler w = ucast (adler_value (adler_ref b (1, 0)))" "w_cc w = COPY_OK" using eng ok by (simp_all add: copy_engine_ok_def w_def)
  have a: "map_option (\<lambda>a0. ucast (nx_adler32_combine (ucast a0) (ucast (w_adler w)) (int (length b)))) (adler_arg p)
      = adler_arg (map_option (adler_ref b) p)"
    using p adler_combine_one [OF _ w(1)] by (cases p) (simp_all add: adler_arg_def)
  define crc' where "crc' = map_option (\<lambda>c. crc_shift (8 * length b) c XOR w_crc w) crc"
  have "(case crc of None \<Rightarrow> Some None | Some c0 \<Rightarrow> map_option (\<lambda>c. Some (ucast c)) (nx_crc32_combine (ucast c0) (ucast (w_crc w)) (int (length b))))
      = Some crc'"
    using combine_crc [OF n(3)] by (cases crc) (simp_all add: crc'_def)
  then have "nx_copy_loop env i m off src crc (adler_arg p)
      = nx_copy_loop env (i + 1) (written m off b) (off + length b) (drop (length b) src) crc' (adler_arg (map_option (adler_ref b) p))"
    using ne job w(2) a by (subst nx_copy_loop.simps) (simp add: Let_def n(1,2))
  moreover have "crc' = map_option (crc_ref b) crc" if "crc_right env"
  proof -
    have "w_crc w = crc_ref b 0" using that ok by (simp add: crc_right_def w_def)
    then show ?thesis by (simp add: crc'_def crc_ref_continue)
  qed
  moreover have "crc = None \<Longrightarrow> crc' = None" by (simp add: crc'_def)
  ultimately show ?thesis using that by blast
qed


lemma nx_copy_loop_stops:
  assumes "w_cc (copy_job env i (take (copy_per_job env) src)) = cc" and "cc \<noteq> COPY_OK" and "0 < copy_per_job env" and "src \<noteq> []"
    and "off + length src \<le> length m"
  obtains m' where "nx_copy_loop env i m off src crc adler = Some (cc, crc, adler, m', i + 1)" and "outside_kept m off (length src) m'"
proof -
  define b where "b = take (copy_per_job env) src"
  have b: "take (min (copy_per_job env) (length src)) src = b" "b \<noteq> []" "off + length b \<le> length m" "length b \<le> length src"
    using assms(3-5) by (auto simp: b_def min_def)
  have cc: "w_cc (copy_job env i b) = cc" using assms(1) by (simp add: b_def)
  obtain m' where "nx_copy_job env 0 i m off b = Some (cc, if cc = COPY_OK then Some (w_crc (copy_job env i b), w_adler (copy_job env i b)) else None, m', i + 1)"
    and kept: "outside_kept m off (length b) m'"
    using nx_copy_one [OF b(2,3), of env i] unfolding cc by blast
  then have job: "nx_copy_job env 0 i m off b = Some (cc, None, m', i + 1)" using assms(2) by simp
  have "outside_kept m off (length src) m'"
    by (rule outside_kept_trans [OF outside_kept_refl kept]) (use b(4) in auto)
  moreover have "nx_copy_loop env i m off src crc adler = Some (cc, crc, adler, m', i + 1)"
    using assms(4) by (subst nx_copy_loop.simps) (simp add: Let_def b(1) job)
  ultimately show ?thesis using that by blast
qed

lemma nx_copy_loop_ends:
  assumes "copy_engine_ok env" and "0 < copy_per_job env" and "\<forall>q. p = Some q \<longrightarrow> adler_valid q" and "off + length src \<le> length m"
  shows "\<exists>cc crc' a m' i'. nx_copy_loop env i m off src crc (adler_arg p) = Some (cc, crc', a, m', i')
    \<and> outside_kept m off (length src) m' \<and> (crc = None \<longrightarrow> crc' = None) \<and> (p = None \<longrightarrow> a = None)
    \<and> (cc = COPY_OK \<longrightarrow> m' = written m off src \<and> a = adler_arg (map_option (adler_ref src) p)
         \<and> (crc_right env \<longrightarrow> crc' = map_option (crc_ref src) crc))"
  using assms(3,4)
proof (induction "length src" arbitrary: i m off src p crc rule: less_induct)
  case less
  show ?case
  proof (cases "src = []")
    case True
    have "crc_ref [] = (\<lambda>c. c)" "adler_ref [] = (\<lambda>q. q)" by (simp_all add: fun_eq_iff crc_ref_def crc_raw_def adler_ref_def)
    then show ?thesis
      using True by (subst nx_copy_loop.simps) (simp add: written_def outside_kept_refl map_option.identity adler_arg_def option.map_ident)
  next
    case False
    define b where "b = take (copy_per_job env) src"
    have b: "length b \<le> length src" "0 < length b" "drop (length b) src = drop (copy_per_job env) src"
      using assms(2) False by (auto simp: b_def min_def)
    have src: "src = b @ drop (length b) src" by (simp add: b(3)) (simp add: b_def)
    show ?thesis
    proof (cases "w_cc (copy_job env i b) = COPY_OK")
      case no: False
      obtain m' where "nx_copy_loop env i m off src crc (adler_arg p) = Some (w_cc (copy_job env i b), crc, adler_arg p, m', i + 1)"
        "outside_kept m off (length src) m'"
        by (rule nx_copy_loop_stops [OF refl _ assms(2) False less.prems(2), of i crc "adler_arg p"]) (use no in \<open>simp_all add: b_def\<close>)
      then show ?thesis using no by (simp add: adler_arg_def)
    next
      case ok: True
      obtain crc1 where r: "nx_copy_loop env i m off src crc (adler_arg p)
          = nx_copy_loop env (i + 1) (written m off b) (off + length b) (drop (length b) src) crc1 (adler_arg (map_option (adler_ref b) p))"
        "crc_right env \<Longrightarrow> crc1 = map_option (crc_ref b) crc" "crc = None \<Longrightarrow> crc1 = None"
        by (rule nx_copy_loop_round [OF assms(1,2) less.prems False b_def ok, of crc]) (rule that)
      note v = valid_continue [OF less.prems(1), of b]
      have room: "off + length b \<le> length m" "off + length b + length (drop (length b) src) \<le> length (written m off b)"
        using b(1) less.prems(2) by simp_all
      have "length (drop (length b) src) < length src" using b(1,2) unfolding length_drop by linarith
      from less.hyps [OF this v room(2), of "i + 1" crc1]
      obtain cc crc2 a m2 i2 where l: "nx_copy_loop env (i + 1) (written m off b) (off + length b) (drop (length b) src) crc1
          (adler_arg (map_option (adler_ref b) p)) = Some (cc, crc2, a, m2, i2)"
        "outside_kept (written m off b) (off + length b) (length (drop (length b) src)) m2" "crc1 = None \<longrightarrow> crc2 = None"
        "map_option (adler_ref b) p = None \<longrightarrow> a = None"
        "cc = COPY_OK \<Longrightarrow> m2 = written (written m off b) (off + length b) (drop (length b) src)"
        "cc = COPY_OK \<Longrightarrow> a = adler_arg (map_option (adler_ref (drop (length b) src)) (map_option (adler_ref b) p))"
        "cc = COPY_OK \<Longrightarrow> crc_right env \<Longrightarrow> crc2 = map_option (crc_ref (drop (length b) src)) crc1" by blast
      have o: "outside_kept m off (length src) m2"
        by (rule outside_kept_trans [OF outside_kept_written [OF room(1) b(1)] l(2)]) (use b(1) in auto)
      have wr: "written (written m off b) (off + length b) (drop (length b) src) = written m off src"
        using written_written [of off b "drop (length b) src" m] less.prems(2) src b(1) by simp
      have ad: "map_option (adler_ref (drop (length b) src)) (map_option (adler_ref b) p) = map_option (adler_ref src) p"
        using arg_cong [OF src, of adler_ref] by (cases p) (simp_all add: adler_ref_def)
      have cr: "map_option (crc_ref (drop (length b) src)) (map_option (crc_ref b) crc) = map_option (crc_ref src) crc"
        using arg_cong [OF src, of crc_ref] by (cases crc) (simp_all add: crc_ref_twice)
      show ?thesis
        unfolding r(1) l(1) using o l(3-7) r(2,3) wr ad cr
        by (intro exI [of _ cc] exI [of _ crc2] exI [of _ a] exI [of _ m2] exI [of _ i2]) auto
    qed
  qed
qed

lemma nx_copy_loop_ok:
  assumes "copy_engine_ok env" and "0 < copy_per_job env" and "adler_valid p" and "off + length src \<le> length m"
  shows "\<exists>cc a m' i'. nx_copy_loop env i m off src None (Some (ucast (adler_value p))) = Some (cc, None, a, m', i')
    \<and> (cc = COPY_OK \<longrightarrow> m' = written m off src \<and> a = Some (ucast (adler_value (adler_ref src p)))) \<and> length m' = length m"
  using nx_copy_loop_ends [of env "Some p" off src m i None] assms by (auto simp: adler_arg_def outside_kept_def)

text \<open>The first job that fails.\<close>

lemma nx_copy_loop_first_failure:
  assumes eng: "copy_engine_ok env" "0 < copy_per_job env"
    and "\<forall>q. p = Some q \<longrightarrow> adler_valid q" and "off + length src \<le> length m" and "k * copy_per_job env < length src"
    and "\<forall>j < k. w_cc (copy_job env (i + j) (take (copy_per_job env) (drop (j * copy_per_job env) src))) = COPY_OK"
    and "w_cc (copy_job env (i + k) (take (copy_per_job env) (drop (k * copy_per_job env) src))) = cc" and "cc \<noteq> COPY_OK"
  shows "\<exists>crc' a m'. nx_copy_loop env i m off src crc (adler_arg p) = Some (cc, crc', a, m', i + k + 1)
    \<and> outside_kept m off (length src) m' \<and> take (off + k * copy_per_job env) m' = take off m @ take (k * copy_per_job env) src"
  using assms(3-8)
proof (induction k arbitrary: i m off src p crc)
  case 0
  have "src \<noteq> []" using "0.prems"(3) by auto
  moreover have "w_cc (copy_job env i (take (copy_per_job env) src)) = cc" using "0.prems"(5) by simp
  ultimately obtain m' where "nx_copy_loop env i m off src crc (adler_arg p) = Some (cc, crc, adler_arg p, m', i + 1)" "outside_kept m off (length src) m'"
    using nx_copy_loop_stops [OF _ "0.prems"(6) eng(2) _ "0.prems"(2)] by blast
  then show ?case by (simp add: outside_kept_def)
next
  case (Suc k)
  define n where "n = copy_per_job env"
  have n: "n + k * n < length src" "take n (drop (k * n) (drop n src)) = take n (drop (Suc k * n) src)"
    using Suc.prems(3) by (simp_all add: n_def add.commute)
  define b where "b = take n src"
  have b: "length b = n" using n(1) by (simp add: b_def)
  have ok: "w_cc (copy_job env i b) = COPY_OK" using Suc.prems(4) by (force simp: b_def n_def)
  have ne: "src \<noteq> []" using n(1) by auto
  obtain crc1 where r: "nx_copy_loop env i m off src crc (adler_arg p)
      = nx_copy_loop env (i + 1) (written m off b) (off + length b) (drop (length b) src) crc1 (adler_arg (map_option (adler_ref b) p))"
    by (rule nx_copy_loop_round [OF eng Suc.prems(1,2) ne b_def [unfolded n_def] ok, of crc]) (rule that)
  note v = valid_continue [OF Suc.prems(1), of b]
  have room: "off + length b \<le> length m" using Suc.prems(2) n(1) b by simp
  have later: "\<forall>j < k. w_cc (copy_job env (i + 1 + j) (take n (drop (j * n) (drop n src)))) = COPY_OK"
    "w_cc (copy_job env (i + 1 + k) (take n (drop (k * n) (drop n src)))) = cc"
  proof -
    show "\<forall>j < k. w_cc (copy_job env (i + 1 + j) (take n (drop (j * n) (drop n src)))) = COPY_OK"
    proof (intro allI impI)
      fix j assume "j < k"
      then have "w_cc (copy_job env (i + Suc j) (take n (drop (Suc j * n) src))) = COPY_OK" using Suc.prems(4) unfolding n_def by (meson Suc_mono)
      then show "w_cc (copy_job env (i + 1 + j) (take n (drop (j * n) (drop n src)))) = COPY_OK" by (simp add: add.commute)
    qed
    show "w_cc (copy_job env (i + 1 + k) (take n (drop (k * n) (drop n src)))) = cc"
      using Suc.prems(5) by (simp add: add.commute flip: n_def)
  qed
  have "\<exists>crc' a m'. nx_copy_loop env (i + 1) (written m off b) (off + n) (drop n src) crc1 (adler_arg (map_option (adler_ref b) p))
      = Some (cc, crc', a, m', i + 1 + k + 1) \<and> outside_kept (written m off b) (off + n) (length (drop n src)) m'
      \<and> take (off + n + k * n) m' = take (off + n) (written m off b) @ take (k * n) (drop n src)"
    unfolding n_def
    by (rule Suc.IH [OF v]) (use Suc.prems(2,6) n(1) room later b in \<open>simp_all flip: n_def\<close>)
  then obtain crc' a m' where l: "nx_copy_loop env (i + 1) (written m off b) (off + n) (drop n src) crc1 (adler_arg (map_option (adler_ref b) p))
      = Some (cc, crc', a, m', i + 1 + k + 1)" "outside_kept (written m off b) (off + n) (length (drop n src)) m'"
      "take (off + n + k * n) m' = take (off + n) (written m off b) @ take (k * n) (drop n src)" by blast
  have "outside_kept m off (length src) m'"
    by (rule outside_kept_trans [OF outside_kept_written [OF room] l(2)]) (use b n(1) in auto)
  moreover have "take (off + n) (written m off b) = take off m @ b" using room b by (simp add: written_def)
  then have "take (off + Suc k * n) m' = take off m @ take (Suc k * n) src"
    using l(3) by (simp add: b_def take_add add.assoc)
  ultimately show ?case using r(1) l(1) unfolding b n_def by simp
qed

text \<open>
  Claim C30. \<^verbatim>\<open>nx_copy\<close> always returns and changes nothing outside its destination, whether the accelerator or, for a short block without
  checksums, the processor copies. When it reports success, the block was copied, in however many jobs, and the checksums are those the
  caller passed, extended by the block: the Adler-32, and the CRC-32 if the accelerator delivers it in the byte order that
  the combining function expects. Otherwise the caller's checksums stay as they are.
\<close>

theorem nx_copy_correct:
  assumes "copy_engine_ok env" and "0 < copy_per_job env" and "\<forall>q. p = Some q \<longrightarrow> adler_valid q" and "off + length src \<le> length m"
  shows "\<exists>cc crc' a m' i'. nx_copy env i m off src crc (adler_arg p) = Some (cc, crc', a, m', i')
    \<and> length m' = length m \<and> take off m' = take off m \<and> drop (off + length src) m' = drop (off + length src) m
    \<and> (if cc = COPY_OK then m' = take off m @ src @ drop (off + length src) m \<and> a = adler_arg (map_option (adler_ref src) p)
         \<and> (crc_right env \<or> crc = None \<longrightarrow> crc' = map_option (crc_ref src) crc)
       else crc' = crc \<and> a = adler_arg p)"
proof (cases "length src < soft_copy_threshold env \<and> crc = None \<and> adler_arg p = None")
  case True
  have "outside_kept m off (length src) (written m off src)" by (rule outside_kept_written) (use assms(4) in simp_all)
  then show ?thesis
    using True assms(4) by (simp add: nx_copy_def outside_kept_def written_def adler_arg_def)
next
  case False
  obtain cc crc' a m' i' where l: "nx_copy_loop env i m off src crc (adler_arg p) = Some (cc, crc', a, m', i')"
    "outside_kept m off (length src) m'" "crc = None \<longrightarrow> crc' = None"
    "cc = COPY_OK \<longrightarrow> m' = written m off src \<and> a = adler_arg (map_option (adler_ref src) p)
         \<and> (crc_right env \<longrightarrow> crc' = map_option (crc_ref src) crc)"
    using nx_copy_loop_ends [OF assms, of i crc] by blast
  have "nx_copy env i m off src crc (adler_arg p) = Some (cc, if cc = COPY_OK then crc' else crc, if cc = COPY_OK then a else adler_arg p, m', i')"
    unfolding nx_copy_def if_not_P [OF False] l(1) by simp
  then show ?thesis using l(2-4) by (auto simp: outside_kept_def written_def)
qed

definition copy_env_example :: copy_env where
  "copy_env_example = \<lparr>copy_job = (\<lambda>i src. if i = 7 then \<lparr>w_cc = COPY_AT_FAULT, w_crc = 0, w_adler = 0, w_out = [1]\<rparr>
       else \<lparr>w_cc = COPY_OK, w_crc = crc_ref src 0, w_adler = ucast (adler_value (adler_ref src (1, 0))), w_out = src\<rparr>),
     copy_wait = Suc, copy_timeout = 10, copy_per_job = 2, soft_copy_threshold = 0\<rparr>"

lemma copy_env_example: "copy_engine_ok copy_env_example" "copy_per_job copy_env_example = 2" "crc_right copy_env_example"
  by (simp_all add: copy_engine_ok_def crc_right_def copy_env_example_def COPY_OK_def COPY_AT_FAULT_def)

theorem nx_copy_correct_witness:
  "\<exists>cc crc' a m' i'. nx_copy copy_env_example 0 [0, 0, 0, 0, 0] 1 [7, 8, 9] (Some 0) (adler_arg (Some (1, 0))) = Some (cc, crc', a, m', i')
     \<and> (if cc = COPY_OK then m' = [0, 7, 8, 9, 0] \<and> a = adler_arg (Some (adler_ref [7, 8, 9] (1, 0))) \<and> crc' = Some (crc_ref [7, 8, 9] 0)
        else crc' = Some 0 \<and> a = adler_arg (Some (1, 0)))"
proof -
  have e: "take 1 [0, 0, 0, 0, 0] @ [7, 8, 9] @ drop (1 + length [7, 8, 9 :: u8]) [0, 0, 0, 0, 0] = [0, 7, 8, 9, 0 :: u8]"
    and h: "1 + length [7, 8, 9 :: u8] \<le> length [0, 0, 0, 0, 0 :: u8]" "\<forall>q. Some (1, 0) = Some q \<longrightarrow> adler_valid q" "0 < copy_per_job copy_env_example"
    by (simp_all add: adler_valid_def copy_env_example(2))
  obtain cc crc' a m' i' where "nx_copy copy_env_example 0 [0, 0, 0, 0, 0] 1 [7, 8, 9] (Some 0) (adler_arg (Some (1, 0))) = Some (cc, crc', a, m', i')"
    "if cc = COPY_OK then m' = [0, 7, 8, 9, 0] \<and> a = adler_arg (map_option (adler_ref [7, 8, 9]) (Some (1, 0)))
       \<and> (crc_right copy_env_example \<or> Some (0 :: u32) = None \<longrightarrow> crc' = map_option (crc_ref [7, 8, 9]) (Some 0))
     else crc' = Some 0 \<and> a = adler_arg (Some (1, 0))"
    using nx_copy_correct [OF copy_env_example(1) h(3,2,1), of 0 "Some 0", unfolded e] by blast
  then show ?thesis using copy_env_example(3) by (intro exI conjI) (assumption, cases "cc = COPY_OK", simp_all only: if_True if_False option.map simp_thms)
qed

text \<open>
  With the byte order that \<^verbatim>\<open>nx_inflate.c\<close> and \<^verbatim>\<open>nx_deflate.c\<close> rely on, the CRC-32 comes out with its bytes swapped.
\<close>

lemma nx_copy_crc_swapped:
  assumes "src \<noteq> []" and "length src \<le> copy_per_job env" and "off + length src \<le> length m" and "copy_engine_ok env"
    and "w_cc (copy_job env i src) = COPY_OK" and "w_crc (copy_job env i src) = bswap_32 (crc_ref src 0)"
  shows "\<exists>a m' i'. nx_copy env i m off src (Some 0) adler = Some (COPY_OK, Some (bswap_32 (crc_ref src 0)), a, m', i')"
proof -
  have zero: "crc_shift n 0 = 0" for n by (induction n) (simp_all add: crc_shift_def crc_bit_def)
  obtain m' where "nx_copy_job env 0 i m off src = Some (COPY_OK, if COPY_OK = COPY_OK then Some (bswap_32 (crc_ref src 0), w_adler (copy_job env i src)) else None, m', i + 1)"
    using nx_copy_one [OF assms(1,3), of env i] unfolding assms(5,6) by blast
  then have job: "nx_copy_job env 0 i m off src = Some (COPY_OK, Some (bswap_32 (crc_ref src 0), w_adler (copy_job env i src)), m', i + 1)" by simp
  have comb: "nx_crc32_combine 0 (ucast (bswap_32 (crc_ref src 0))) (int (length src)) = Some (ucast (bswap_32 (crc_ref src 0)))"
    using combine_crc [of "length src" 0 "bswap_32 (crc_ref src 0)"] assms(1) by (simp add: zero)
  have last: "nx_copy_loop env j m' o' [] c a = Some (COPY_OK, c, a, m', j)" for j o' c a by (subst nx_copy_loop.simps) simp
  define a :: "u32 option" where "a = map_option (\<lambda>a0. ucast (nx_adler32_combine (ucast a0) (ucast (w_adler (copy_job env i src))) (int (length src)))) adler"
  have "nx_copy_loop env i m off src (Some 0) adler = nx_copy_loop env (i + 1) m' (off + length src) [] (Some (bswap_32 (crc_ref src 0))) a"
    using assms(1,2) job comb by (subst nx_copy_loop.simps) (simp add: Let_def min_absorb2 a_def)
  then have "\<exists>a. nx_copy_loop env i m off src (Some 0) adler = Some (COPY_OK, Some (bswap_32 (crc_ref src 0)), a, m', i + 1)"
    by (simp add: last)
  then show ?thesis by (auto simp: nx_copy_def)
qed

text \<open>
  Claim C31. A job of \<^verbatim>\<open>nx_copy\<close> that fails is final, a page fault too: if the first \<open>k\<close> jobs succeed and the next one ends with the completion
  code \<open>cc\<close>, then \<^verbatim>\<open>nx_copy\<close> returns \<open>cc\<close> after exactly \<open>k + 1\<close> jobs, whatever the timeout for page faults is and however later
  jobs would end. The blocks of the first \<open>k\<close> jobs were copied, nothing outside the destination was changed, and the
  caller's checksums stay as they are.
\<close>

theorem nx_copy_first_failure:
  assumes "copy_engine_ok env" and "0 < copy_per_job env" and "\<forall>q. p = Some q \<longrightarrow> adler_valid q" and "off + length src \<le> length m"
    and "k * copy_per_job env < length src"
    and "\<forall>j < k. w_cc (copy_job env (i + j) (take (copy_per_job env) (drop (j * copy_per_job env) src))) = COPY_OK"
    and "w_cc (copy_job env (i + k) (take (copy_per_job env) (drop (k * copy_per_job env) src))) = cc" and "cc \<noteq> COPY_OK"
    and "soft_copy_threshold env \<le> length src"
  shows "\<exists>m'. nx_copy env i m off src crc (adler_arg p) = Some (cc, crc, adler_arg p, m', i + k + 1)
    \<and> length m' = length m \<and> take (off + k * copy_per_job env) m' = take off m @ take (k * copy_per_job env) src
    \<and> drop (off + length src) m' = drop (off + length src) m"
proof -
  obtain crc' a m' where "nx_copy_loop env i m off src crc (adler_arg p) = Some (cc, crc', a, m', i + k + 1)" "outside_kept m off (length src) m'"
    "take (off + k * copy_per_job env) m' = take off m @ take (k * copy_per_job env) src"
    using nx_copy_loop_first_failure [OF assms(1-8), of crc] by blast
  then show ?thesis using assms(8,9) by (simp add: nx_copy_def outside_kept_def)
qed

theorem nx_copy_first_failure_witness:
  "\<exists>m'. nx_copy copy_env_example 6 [0, 0, 0, 0, 0] 1 [7, 8, 9] None None = Some (COPY_AT_FAULT, None, None, m', 8) \<and> take 3 m' = [0, 7, 8]"
proof -
  have job: "w_cc (copy_job copy_env_example 6 xs) = COPY_OK" "w_cc (copy_job copy_env_example 7 xs) = COPY_AT_FAULT"
    "soft_copy_threshold copy_env_example = 0" for xs by (simp_all add: copy_env_example_def)
  show ?thesis
    using nx_copy_first_failure [of copy_env_example None 1 "[7, 8, 9]" "[0, 0, 0, 0, 0]" 1 6 COPY_AT_FAULT None] copy_env_example(1,2) job
    by (auto simp: adler_arg_def COPY_OK_def COPY_AT_FAULT_def eval_nat_numeral)
qed

end
