(* ===== verification/InflateEntry.thy ===== *)
theory InflateEntry
  imports InflateCore NxCopy
begin

text \<open>
  The interface of inflate in \<^verbatim>\<open>lib/nx_inflate.c\<close>: creating and resetting a stream, \<^verbatim>\<open>nx_inflate\<close> itself, which reads
  the header and then decompresses, dictionaries, header requests and copies of a stream.
\<close>

section \<open>Creating and resetting a stream\<close>

definition Z_VERSION_ERROR :: int where "Z_VERSION_ERROR = -6"

definition nx_inflateResetKeep :: "nx_core \<Rightarrow> nx_core" where
  "nx_inflateResetKeep s = s\<lparr>i_total_in := 0, i_total_out := 0, i_msg := None, i_gzhead := None\<rparr>"

definition nx_inflateReset :: "nx_core \<Rightarrow> nx_core" where
  "nx_inflateReset s =
     (let s = s\<lparr>i_msg := None\<rparr>;
          s = (if i_wrap s \<noteq> 0 then s\<lparr>i_adler := word_of_nat (i_wrap s) AND 1\<rparr> else s)
      in nx_inflateResetKeep
           (s\<lparr>i_total_in := 0, i_total_out := 0, i_used_in := 0, i_used_out := 0, i_cur_in := 0, i_cur_out := INF_HIS_LEN,
              inf_state := inf_state_header, resuming := 0, i_history_len := 0, is_final := 0, trailer_len := 0,
              i_crc32 := INIT_CRC, i_adler32 := INIT_ADLER, ckidx := 0, cksum := INIT_CRC\<rparr>))"

text \<open>The format that \<^verbatim>\<open>windowBits\<close> asks for, with the window size; \<open>None\<close> for a value that is not allowed.\<close>

definition wrap_request :: "int \<Rightarrow> (nat \<times> int) option" where
  "wrap_request wbits =
     (if wbits < 0 then Some (HEADER_RAW, - wbits)
      else if 8 \<le> wbits \<and> wbits \<le> 15 then Some (HEADER_ZLIB, wbits)
      else if 8 + 16 \<le> wbits \<and> wbits \<le> 15 + 16 then Some (HEADER_GZIP, wbits)
      else if 8 + 32 \<le> wbits \<and> wbits \<le> 15 + 32 then Some (HEADER_ZLIB OR HEADER_GZIP, wbits)
      else if wbits = 0 then Some (HEADER_ZLIB, 15)
      else None)"

definition nx_inflateReset2 :: "int \<Rightarrow> nx_core \<Rightarrow> int \<times> nx_core" where
  "nx_inflateReset2 wbits s =
     (case wrap_request wbits of
        None \<Rightarrow> (Z_STREAM_ERROR, s)
      | Some (w, wb) \<Rightarrow> (Z_OK, nx_inflateReset (s\<lparr>i_wrap := w, i_windowBits := wb\<rparr>)))"

text \<open>A stream state after \<^verbatim>\<open>memset\<close>.\<close>

definition zero_stream :: "u8 list \<Rightarrow> nx_core" where
  "zero_stream input =
     \<lparr>i_next_in = input, i_total_in = 0, i_avail_out = 0, i_total_out = 0, i_wrap = 0, i_windowBits = 0,
      inf_state = inf_state_header, inf_held = 0, i_gzhead = None, gzflags = 0, inf_length = 0, cksum = 0,
      ckbuf = replicate 128 0, ckidx = 0, hcrc16 = 0, zlib_cmf = 0, i_dict_len = 0, i_dict_id = 0, i_adler = 0,
      i_adler32 = 0, i_crc32 = 0, i_zadler = 0, i_msg = None, i_used_in = 0, i_cur_in = 0, i_used_out = 0, i_cur_out = 0,
      i_history_len = 0, resuming = 0, is_final = 0, trailer_len = 0,
      fifo_in = [], len_in = 0, i_fifo_out = [], i_len_out = 0, i_obuf = [], i_next_out = 0, dict = [], dict_alloc_len = 0,
      last_comp_ratio = 0, sync_point = 0, trailer = replicate 9 0, in_crc = 0, in_adler = 0, in_histlen_subc = 0,
      in_sfbt_rem = 0, in_dht = replicate 18 0, out_crc = 0, out_adler = 0, jobs = 0\<rparr>"

text \<open>
  \<open>version_ok\<close>: the first letter of the version and the size of the stream structure are those of the library; \<open>device\<close>
  and \<open>memory\<close>: \<^verbatim>\<open>nx_open\<close> and the allocation of the state succeed. \<open>input\<close> is what the user's structure points to.
\<close>

definition nx_inflateInit2 :: "bool \<Rightarrow> bool \<Rightarrow> bool \<Rightarrow> int \<Rightarrow> u8 list \<Rightarrow> int \<times> nx_core option" where
  "nx_inflateInit2 version_ok device memory wbits input =
     (if \<not> version_ok then (Z_VERSION_ERROR, None)
      else if \<not> device then (Z_STREAM_ERROR, None)
      else if \<not> memory then (Z_MEM_ERROR, None)
      else case nx_inflateReset2 wbits (zero_stream input) of
             (ret, s) \<Rightarrow> (ret, if ret = Z_OK then Some s else None))"

section \<open>Decompressing\<close>

definition alloc_fifo_out :: "nx_env \<Rightarrow> nx_core \<Rightarrow> int \<times> nx_core" where
  "alloc_fifo_out env s =
     (if i_fifo_out s = [] then
        let n = max (INF_HIS_LEN * 8) (max INF_MAX_EXPANSION_BYTES (INF_HIS_LEN * 2 + (length (i_next_in s) * 40) mod 2 ^ 32 div 100)) in
        case nx_alloc_buffer env n of
          None \<Rightarrow> (Z_MEM_ERROR, s\<lparr>i_len_out := n\<rparr>)
        | Some m \<Rightarrow> (Z_OK, s\<lparr>i_fifo_out := m, i_len_out := n\<rparr>)
      else (Z_OK, s))"

text \<open>The return code, after zlib's rules for calls without progress and for \<^verbatim>\<open>Z_FINISH\<close>.\<close>

definition inf_return :: "int \<Rightarrow> nx_core \<Rightarrow> int \<Rightarrow> nx_core \<Rightarrow> int" where
  "inf_return flsh before rc s =
     (if length (i_next_in s) = length (i_next_in before) \<and> i_avail_out s = i_avail_out before \<and> rc = Z_OK then Z_BUF_ERROR
      else if flsh = Z_FINISH \<and> rc = Z_OK then Z_BUF_ERROR
      else rc)"

text \<open>The state with the fields of the header machine replaced.\<close>

definition with_head :: "nx_inf \<Rightarrow> nx_core \<Rightarrow> nx_core" where
  "with_head h s = nx_inf.extend h (nx_inf.more s)"

text \<open>
  A stream that is decompressed by the accelerator, not by the zlib library. \<open>crc\<close> is \<^verbatim>\<open>crc32\<close>. The result is \<open>None\<close> for
  a fault or a loop that does not end.
\<close>

definition nx_inflate :: "(u32 \<Rightarrow> u8 list \<Rightarrow> u32) \<Rightarrow> nx_env \<Rightarrow> int \<Rightarrow> nx_core \<Rightarrow> (int \<times> nx_core) option" where
  "nx_inflate crc env flsh s =
     (if flsh = Z_BLOCK \<or> flsh = Z_TREES then Some (Z_STREAM_ERROR, s\<lparr>i_msg := Some ''Z_BLOCK or Z_TREES not implemented''\<rparr>)
      else case alloc_fifo_out env s of
             (rc, s) \<Rightarrow>
               if rc \<noteq> Z_OK then Some (rc, s)
               else do {
                 r \<leftarrow> inf_run crc (nx_inf.truncate s);
                 case r of
                   Leave rc h \<Rightarrow> let s' = with_head h s in Some (inf_return flsh s rc s', s')
                 | NeedDict h \<Rightarrow> Some (Z_NEED_DICT, with_head h s)
                 | Body h \<Rightarrow>
                     (case nx_inflate_body env flsh (with_head h s) of
                        Some (Stop rc s') \<Rightarrow> Some (inf_return flsh s rc s', s')
                      | _ \<Rightarrow> None)
                 | _ \<Rightarrow> None
               })"

section \<open>Dictionaries, header requests and sync points\<close>

text \<open>The buffer for the dictionary; it is kept when it is long enough. \<open>False\<close>: no memory.\<close>

definition alloc_dict :: "nx_env \<Rightarrow> nat \<Rightarrow> nx_core \<Rightarrow> bool \<times> nx_core" where
  "alloc_dict env dictLength s =
     (if dict s \<noteq> [] \<and> dictLength \<le> dict_alloc_len s then (True, s)
      else let n = max INF_MAX_DICT_LEN dictLength in
           case nx_alloc_buffer env n of
             None \<Rightarrow> (False, s\<lparr>dict := [], dict_alloc_len := 0\<rparr>)
           | Some m \<Rightarrow> (True, s\<lparr>dict := m, dict_alloc_len := n, i_dict_len := 0\<rparr>))"

definition nx_inflateSetDictionary :: "nx_env \<Rightarrow> copy_env \<Rightarrow> u8 list \<Rightarrow> nx_core \<Rightarrow> (int \<times> nx_core) option" where
  "nx_inflateSetDictionary env cenv dictionary s =
     (if i_wrap s = HEADER_ZLIB OR HEADER_GZIP then Some (Z_STREAM_ERROR, s)
      else if i_wrap s = HEADER_GZIP then Some (Z_STREAM_ERROR, s)
      else if inf_state s \<noteq> inf_state_zlib_dict \<and> i_wrap s = HEADER_ZLIB then Some (Z_STREAM_ERROR, s)
      else case alloc_dict env (length dictionary) s of
             (ok, s) \<Rightarrow>
               if \<not> ok then Some (Z_MEM_ERROR, s)
               else do {
                 (cc, _, adler, m, i) \<leftarrow> nx_copy cenv (jobs s) (dict s) 0 dictionary None (Some INIT_ADLER);
                 let s = s\<lparr>dict := m, jobs := i\<rparr>;
                 if cc \<noteq> COPY_OK then Some (Z_STREAM_ERROR, s)
                 else if Some (i_dict_id s) \<noteq> adler \<and> i_wrap s = HEADER_ZLIB then Some (Z_DATA_ERROR, s)
                 else Some (Z_OK, s\<lparr>i_dict_len := length dictionary\<rparr>)
               })"

definition nx_inflateGetHeader :: "gz_header \<Rightarrow> nx_core \<Rightarrow> int \<times> nx_core" where
  "nx_inflateGetHeader head s =
     (if i_wrap s \<noteq> HEADER_GZIP then (Z_STREAM_ERROR, s) else (Z_OK, s\<lparr>i_gzhead := Some (head\<lparr>gz_done := 0\<rparr>)\<rparr>))"

definition nx_inflateSyncPoint :: "nx_core \<Rightarrow> nat" where
  "nx_inflateSyncPoint s = sync_point s"

section \<open>Copying a stream\<close>

text \<open>
  A buffer of the copy: not there, the one of the source, or a new one. The structure is copied with its
  pointers first, so \<^verbatim>\<open>nxcmdp\<close> of the copy still points to the parameter block inside the source. A copied stream is the structure and the
  place of its parameter block.
\<close>

datatype copied_buf = No_buf | Of_source | Fresh_buf "u8 list"

datatype cmd_place = Own_cmd | Cmd_of_source

datatype copy_end = Copied nx_core cmd_place | No_memory "copied_buf list" | Copy_crash

text \<open>What a stream works on: the parameter block is the one that its pointer leads to.\<close>

definition with_cmd_of :: "nx_core \<Rightarrow> nx_core \<Rightarrow> nx_core" where
  "with_cmd_of src s = s\<lparr>in_crc := in_crc src, in_adler := in_adler src, in_histlen_subc := in_histlen_subc src,
     in_sfbt_rem := in_sfbt_rem src, in_dht := in_dht src, out_crc := out_crc src, out_adler := out_adler src\<rparr>"

definition works_on :: "nx_core \<Rightarrow> nx_core \<Rightarrow> cmd_place \<Rightarrow> nx_core" where
  "works_on src s place = (case place of Own_cmd \<Rightarrow> s | Cmd_of_source \<Rightarrow> with_cmd_of src s)"

definition source_buf :: "u8 list \<Rightarrow> copied_buf" where
  "source_buf b = (if b = [] then No_buf else Of_source)"

text \<open>A new buffer with the contents of the old one; \<open>None\<close>: no memory.\<close>

definition dup_buf :: "nx_env \<Rightarrow> nat \<Rightarrow> u8 list \<Rightarrow> copied_buf option" where
  "dup_buf env n b = (if b = [] then Some No_buf else map_option (\<lambda>m. Fresh_buf (take n b @ drop n m)) (nx_alloc_buffer env n))"

fun buf_bytes :: "copied_buf \<Rightarrow> u8 list" where
  "buf_bytes (Fresh_buf m) = m"
| "buf_bytes b = []"

text \<open>
  \<open>memory\<close>: there is memory for the structure; without it the clean-up reads the fields of \<^verbatim>\<open>NULL\<close>. \<open>No_memory\<close> has the
  buffers that the clean-up frees: of the dictionary, of the input and of the output.
\<close>

definition nx_inflateCopy :: "nx_env \<Rightarrow> bool \<Rightarrow> nx_core \<Rightarrow> copy_end" where
  "nx_inflateCopy env memory s =
     (if \<not> memory then Copy_crash
      else case dup_buf env (i_len_out s) (i_fifo_out s) of
             None \<Rightarrow> No_memory [source_buf (dict s), source_buf (fifo_in s), No_buf]
           | Some f \<Rightarrow>
               (case dup_buf env (len_in s) (fifo_in s) of
                  None \<Rightarrow> No_memory [source_buf (dict s), No_buf, f]
                | Some g \<Rightarrow>
                    (case dup_buf env (dict_alloc_len s) (dict s) of
                       None \<Rightarrow> No_memory [No_buf, g, f]
                     | Some d \<Rightarrow> Copied (s\<lparr>i_fifo_out := buf_bytes f, fifo_in := buf_bytes g, dict := buf_bytes d\<rparr>) Cmd_of_source)))"

end
