(* ===== verification/InflateFifo.thy ===== *)
theory InflateFifo
  imports InflateCore
begin

text \<open>
  The two fifos of an inflate stream: where the unread input and the pending output lie, and that the last
  32 KB of everything decompressed always lies in front of the pending output, however the output
  was split between the user's buffer and the overflow buffer.
\<close>

section \<open>The window\<close>

definition window :: "'a list \<Rightarrow> 'a list" where
  "window xs = drop (length xs - INF_HIS_LEN) xs"

lemma length_window: "length (window xs) = min (length xs) INF_HIS_LEN"
  by (simp add: window_def)

lemma window_Nil [simp]: "window [] = []"
  by (simp add: window_def)

lemma window_long: "INF_HIS_LEN \<le> length ys \<Longrightarrow> window (xs @ ys) = drop (length ys - INF_HIS_LEN) ys"
  by (simp add: window_def)

lemma window_short:
  assumes "length ys \<le> INF_HIS_LEN"
  shows "window (xs @ ys) = drop (length (window xs) + length ys - INF_HIS_LEN) (window xs) @ ys"
proof -
  have "drop (length xs + length ys - INF_HIS_LEN) xs
      = drop (length (window xs) + length ys - INF_HIS_LEN) (window xs)"
    using assms by (cases "length xs \<le> INF_HIS_LEN") (simp_all add: window_def add.commute)
  then show ?thesis using assms by (simp add: window_def)
qed

section \<open>The layout of the state\<close>

definition unread :: "nx_core \<Rightarrow> u8 list" where
  "unread s = seg (fifo_in s) (i_cur_in s) (i_used_in s) @ i_next_in s"

definition pending :: "nx_core \<Rightarrow> u8 list" where
  "pending s = seg (i_fifo_out s) (i_cur_out s) (i_used_out s)"

definition in_lay :: "nx_core \<Rightarrow> bool" where
  "in_lay s \<longleftrightarrow>
     (if fifo_in s = [] then i_cur_in s = 0 \<and> i_used_in s = 0
      else length (fifo_in s) = len_in s \<and> i_cur_in s + i_used_in s \<le> len_in s)"

definition fifo_lay :: "nx_core \<Rightarrow> bool" where
  "fifo_lay s \<longleftrightarrow> length (i_fifo_out s) = i_len_out s \<and> INF_MAX_EXPANSION_BYTES \<le> i_len_out s \<and> INF_HIS_LEN \<le> i_cur_out s
     \<and> 2 * i_cur_out s \<le> i_len_out s \<and> i_cur_out s + i_used_out s \<le> i_len_out s"

definition user_lay :: "nx_core \<Rightarrow> bool" where
  "user_lay s \<longleftrightarrow> length (i_obuf s) = i_next_out s + i_avail_out s \<and> i_avail_out s < 2 ^ 31"

text \<open>\<open>xs\<close> is everything decompressed so far, \<open>t\<close> the number of bytes the user had before the call.\<close>

definition history_in :: "u8 list \<Rightarrow> nx_core \<Rightarrow> bool" where
  "history_in xs s \<longleftrightarrow>
     seg (i_fifo_out s) (i_cur_out s + i_used_out s - length (window xs)) (length (window xs)) = window xs"

definition out_split :: "nat \<Rightarrow> u8 list \<Rightarrow> nx_core \<Rightarrow> bool" where
  "out_split t xs s \<longleftrightarrow> t + i_next_out s = i_total_out s \<and> length xs = i_total_out s + i_used_out s
     \<and> pending s = drop (i_total_out s) xs \<and> take (i_next_out s) (i_obuf s) = drop t (take (i_total_out s) xs)"

text \<open>What an operation on the output leaves alone, and what one on the input does.\<close>

definition but_out :: "nx_core \<Rightarrow> nx_core" where
  "but_out s = s\<lparr>i_obuf := [], i_next_out := 0, i_avail_out := 0, i_total_out := 0, i_fifo_out := [], i_cur_out := 0, i_used_out := 0\<rparr>"

definition but_in :: "nx_core \<Rightarrow> nx_core" where
  "but_in s = s\<lparr>i_next_in := [], i_total_in := 0, fifo_in := [], len_in := 0, i_cur_in := 0, i_used_in := 0\<rparr>"

lemma but_out_fields:
  assumes "but_out s' = but_out s"
  shows "i_next_in s' = i_next_in s" "i_total_in s' = i_total_in s" "fifo_in s' = fifo_in s" "len_in s' = len_in s"
    "i_cur_in s' = i_cur_in s" "i_used_in s' = i_used_in s" "i_wrap s' = i_wrap s" "is_final s' = is_final s"
    "resuming s' = resuming s" "i_dict_len s' = i_dict_len s" "trailer s' = trailer s" "trailer_len s' = trailer_len s"
    "i_history_len s' = i_history_len s" "i_crc32 s' = i_crc32 s" "i_adler32 s' = i_adler32 s"
    "out_crc s' = out_crc s" "out_adler s' = out_adler s" "in_histlen_subc s' = in_histlen_subc s"
    "in_sfbt_rem s' = in_sfbt_rem s" "in_dht s' = in_dht s" "i_len_out s' = i_len_out s" "last_comp_ratio s' = last_comp_ratio s"
    "in_crc s' = in_crc s" "in_adler s' = in_adler s" "jobs s' = jobs s" "inf_state s' = inf_state s"
  using assms by (cases s; cases s'; simp add: but_out_def)+

lemma but_in_fields:
  assumes "but_in s' = but_in s"
  shows "i_wrap s' = i_wrap s" "is_final s' = is_final s" "resuming s' = resuming s" "i_dict_len s' = i_dict_len s"
    "trailer s' = trailer s" "trailer_len s' = trailer_len s" "i_history_len s' = i_history_len s"
    "i_crc32 s' = i_crc32 s" "i_adler32 s' = i_adler32 s" "out_crc s' = out_crc s" "out_adler s' = out_adler s"
    "in_histlen_subc s' = in_histlen_subc s" "in_sfbt_rem s' = in_sfbt_rem s" "in_dht s' = in_dht s"
    "i_len_out s' = i_len_out s" "last_comp_ratio s' = last_comp_ratio s" "i_obuf s' = i_obuf s" "i_next_out s' = i_next_out s"
    "i_avail_out s' = i_avail_out s" "i_total_out s' = i_total_out s" "i_fifo_out s' = i_fifo_out s" "i_cur_out s' = i_cur_out s"
    "i_used_out s' = i_used_out s" "in_crc s' = in_crc s" "in_adler s' = in_adler s" "jobs s' = jobs s" "inf_state s' = inf_state s"
  using assms by (cases s; cases s'; simp add: but_in_def)+

section \<open>The overflow buffer\<close>

text \<open>Before the check the first half of the buffer may have been left.\<close>

lemma fifo_out_check:
  assumes "length (i_fifo_out s) = i_len_out s" and "INF_MAX_EXPANSION_BYTES \<le> i_len_out s" and "INF_HIS_LEN \<le> i_cur_out s"
    and "i_cur_out s + i_used_out s \<le> i_len_out s"
  obtains s' where "inf_fifo_out_len_check s = Some s'" and "fifo_lay s'" and "but_out s' = but_out s"
    and "pending s' = pending s" and "\<And>xs. history_in xs s' = history_in xs s"
    and "i_obuf s' = i_obuf s" "i_next_out s' = i_next_out s" "i_avail_out s' = i_avail_out s" "i_total_out s' = i_total_out s"
      "i_used_out s' = i_used_out s"
proof (cases "i_len_out s div 2 < i_cur_out s")
  case True
  define b where "b = seg (i_fifo_out s) (i_cur_out s - INF_HIS_LEN) (INF_HIS_LEN + i_used_out s)"
  define s' where "s' = s\<lparr>i_fifo_out := put (i_fifo_out s) 0 b, i_cur_out := INF_HIS_LEN\<rparr>"
  have len: "length b = INF_HIS_LEN + i_used_out s"
    unfolding b_def using assms by (intro length_seg) simp
  have check: "inf_fifo_out_len_check s = Some s'"
    using True assms by (simp add: inf_fifo_out_len_check_def memmove_put s'_def b_def)
  have room: "0 + length b \<le> length (i_fifo_out s)" using assms len by simp
  have moved: "seg (i_fifo_out s') (j + INF_HIS_LEN - k) n = seg (i_fifo_out s) (i_cur_out s + j - k) n"
    if "k \<le> j + INF_HIS_LEN" "j + n \<le> i_used_out s + k" for j k n
  proof -
    have "seg (i_fifo_out s') (j + INF_HIS_LEN - k) n = seg b (j + INF_HIS_LEN - k) n"
      using seg_put_inside [OF room, of "j + INF_HIS_LEN - k" n] that len by (simp add: s'_def)
    also have "\<dots> = seg (i_fifo_out s) (i_cur_out s - INF_HIS_LEN + (j + INF_HIS_LEN - k)) n"
      unfolding b_def using that by (intro seg_seg) simp
    also have "i_cur_out s - INF_HIS_LEN + (j + INF_HIS_LEN - k) = i_cur_out s + j - k" using assms(3) that by simp
    finally show ?thesis .
  qed
  have "pending s' = pending s"
    using moved [of 0 0 "i_used_out s"] by (simp add: pending_def s'_def)
  moreover have "history_in xs s' = history_in xs s" for xs
    using moved [of "length (window xs)" "i_used_out s" "length (window xs)"] length_window [of xs]
    by (simp add: history_in_def s'_def add.commute)
  moreover have "fifo_lay s'" using assms room len by (simp add: fifo_lay_def s'_def INF_MAX_EXPANSION_BYTES_def INF_MIN_INPUT_LEN_def INF_MAX_COMPRESSION_RATIO_def INF_HIS_LEN_def)
  moreover have "but_out s' = but_out s" by (simp add: but_out_def s'_def)
  ultimately show ?thesis using that [OF check] by (simp add: s'_def)
next
  case False
  then have "inf_fifo_out_len_check s = Some s" by (simp add: inf_fifo_out_len_check_def)
  moreover have "fifo_lay s" using False assms by (simp add: fifo_lay_def)
  ultimately show ?thesis using that by blast
qed

text \<open>Handing out what is pending moves the split and nothing else.\<close>

lemma hand_out_ok:
  assumes "fifo_lay s" and "user_lay s" and "out_split t xs s"
  obtains s' where "hand_out s = Some s'" and "fifo_lay s'" and "user_lay s'" and "out_split t xs s'"
    and "but_out s' = but_out s" and "history_in xs s' = history_in xs s"
    and "i_used_out s' = i_used_out s - i_avail_out s" and "i_avail_out s' = i_avail_out s - i_used_out s"
proof (cases "0 < min (i_used_out s) (i_avail_out s)")
  case False
  then have "hand_out s = Some s" unfolding hand_out_def Let_def by (simp only: if_False)
  moreover have "i_used_out s = 0 \<or> i_avail_out s = 0" using False by simp
  ultimately show ?thesis using that [of s] assms by auto
next
  case True
  define w where "w = min (i_used_out s) (i_avail_out s)"
  define b where "b = seg (i_fifo_out s) (i_cur_out s) w"
  define s1 where "s1 = s\<lparr>i_obuf := put (i_obuf s) (i_next_out s) b, i_next_out := i_next_out s + w, i_total_out := i_total_out s + w,
    i_avail_out := i_avail_out s - w, i_used_out := i_used_out s - w, i_cur_out := i_cur_out s + w\<rparr>"
  have w: "w \<le> i_used_out s" "w \<le> i_avail_out s" "0 < w" using True by (simp_all add: w_def)
  have len: "length b = w" unfolding b_def using assms(1) w by (intro length_seg) (simp add: fifo_lay_def)
  have room: "i_next_out s + length b \<le> length (i_obuf s)" using assms(2) w len by (simp add: user_lay_def)
  have hand: "hand_out s = inf_fifo_out_len_check s1"
    using assms(1) w room len True
    by (simp add: hand_out_def fifo_lay_def rd_block_seg wr_block_put made_output_def s1_def b_def w_def [symmetric] del: rd_block_Some wr_block_Some)
  have "length (i_fifo_out s1) = i_len_out s1" "INF_MAX_EXPANSION_BYTES \<le> i_len_out s1" "INF_HIS_LEN \<le> i_cur_out s1"
    "i_cur_out s1 + i_used_out s1 \<le> i_len_out s1"
    using assms(1) w by (simp_all add: s1_def fifo_lay_def)
  then obtain s' where s': "inf_fifo_out_len_check s1 = Some s'" "fifo_lay s'" "but_out s' = but_out s1" "pending s' = pending s1"
      "\<And>xs. history_in xs s' = history_in xs s1" "i_obuf s' = i_obuf s1" "i_next_out s' = i_next_out s1"
      "i_avail_out s' = i_avail_out s1" "i_total_out s' = i_total_out s1" "i_used_out s' = i_used_out s1"
    by (rule fifo_out_check) blast
  have split: "t + i_next_out s = i_total_out s" "length xs = i_total_out s + i_used_out s"
    "seg (i_fifo_out s) (i_cur_out s) (i_used_out s) = drop (i_total_out s) xs"
    "take (i_next_out s) (i_obuf s) = drop t (take (i_total_out s) xs)"
    using assms(3) by (simp_all add: out_split_def pending_def)
  have b: "b = take w (drop (i_total_out s) xs)"
    unfolding b_def split(3) [symmetric] using w by (simp add: seg_prefix)
  have pend: "pending s1 = drop (i_total_out s + w) xs"
  proof -
    have "drop w (seg (i_fifo_out s) (i_cur_out s) (i_used_out s)) = pending s1"
      using assms(1) w by (simp add: pending_def s1_def seg_suffix fifo_lay_def)
    then show ?thesis unfolding split(3) by (simp add: add.commute)
  qed
  have user: "take (i_next_out s + w) (put (i_obuf s) (i_next_out s) b) = drop t (take (i_total_out s + w) xs)"
  proof -
    have "take (i_next_out s + w) (put (i_obuf s) (i_next_out s) b) = take (i_next_out s) (i_obuf s) @ b"
      using room len by (simp add: put_def)
    also have "\<dots> = drop t (take (i_total_out s + w) xs)"
      unfolding split(4) b using split(1,2) by (simp add: take_add)
    finally show ?thesis .
  qed
  have "out_split t xs s'"
    unfolding out_split_def s'(4,6,7,9,10) using split(1,2) w pend user by (simp add: s1_def)
  moreover have "user_lay s'"
    unfolding user_lay_def s'(6-8) using assms(2) room w by (auto simp: s1_def user_lay_def)
  moreover have "but_out s' = but_out s" unfolding s'(3) by (simp add: s1_def but_out_def)
  moreover have "history_in xs s' = history_in xs s"
    unfolding s'(5) using w by (simp add: history_in_def s1_def)
  moreover have "i_used_out s' = i_used_out s - i_avail_out s" "i_avail_out s' = i_avail_out s - i_used_out s"
    unfolding s'(8,10) by (simp_all add: s1_def w_def min_def)
  ultimately show ?thesis using that [of s'] s'(1,2) hand by simp
qed

section \<open>The history after a job\<close>

lemma history_append:
  assumes "length ns = n" and "n \<le> INF_HIS_LEN" and "k = min (length (window xs)) (INF_HIS_LEN - n)" and "k \<le> c"
    and "seg m (c - k) k = drop (length (window xs) - k) (window xs)" and "seg m c n = ns"
  shows "seg m (c + n - length (window (xs @ ns))) (length (window (xs @ ns))) = window (xs @ ns)"
proof -
  have len: "length (window (xs @ ns)) = k + n"
    using assms(1-3) unfolding length_window length_append by linarith
  have "length (window xs) + n - INF_HIS_LEN = length (window xs) - k" using assms(2,3) by (auto simp: min_def)
  then have "window (xs @ ns) = seg m (c - k) k @ seg m c n"
    using window_short [of ns xs] assms(1,2,5,6) by simp
  also have "\<dots> = seg m (c - k) (k + n)" using assms(4) by (simp add: seg_add)
  also have "c - k = c + n - length (window (xs @ ns))" using len by simp
  finally show ?thesis using len by simp
qed

lemma history_long:
  assumes "length ns = n" and "INF_HIS_LEN \<le> n" and "seg m c n = ns" and "c + n \<le> length m"
  shows "seg m (c + n - length (window (xs @ ns))) (length (window (xs @ ns))) = window (xs @ ns)"
proof -
  have len: "length (window (xs @ ns)) = INF_HIS_LEN" using assms(1,2) by (simp add: length_window)
  have "window (xs @ ns) = drop (n - INF_HIS_LEN) (seg m c n)" using window_long [of ns xs] assms(1-3) by simp
  also have "\<dots> = seg m (c + (n - INF_HIS_LEN)) INF_HIS_LEN" using assms(2,4) seg_suffix [of "n - INF_HIS_LEN" n c m] by simp
  finally show ?thesis unfolding len using assms(2) by simp
qed

lemma overflow_len_small:
  assumes "tp < 2 ^ 31" and "a < 2 ^ 31"
  shows "overflow_len tp a = int tp - int a"
proof -
  have diff: "(word_of_nat tp - word_of_nat a :: u32) = word_of_int (int tp - int a)" by simp
  have "signed_take_bit 31 (int tp - int a) = int tp - int a"
    using assms by (intro signed_take_bit_int_eq_self) simp_all
  then show ?thesis unfolding overflow_len_def diff sint_sbintrunc' by simp
qed

text \<open>
  The three ways of keeping the history: \<open>ns\<close> is what the job produced, as much as fits in the user's buffer and
  the rest in the overflow buffer.
\<close>

definition placed :: "u8 list \<Rightarrow> nx_core \<Rightarrow> bool" where
  "placed ns s \<longleftrightarrow> seg (i_obuf s) (i_next_out s) (min (length ns) (i_avail_out s)) = take (i_avail_out s) ns
     \<and> seg (i_fifo_out s) (i_cur_out s) (length ns - i_avail_out s) = drop (i_avail_out s) ns
     \<and> i_cur_out s + (length ns - i_avail_out s) \<le> i_len_out s \<and> length ns < 2 ^ 31"

lemma made_output_ok: "n \<le> i_avail_out s \<Longrightarrow> made_output n s =
    Some (s\<lparr>i_next_out := i_next_out s + n, i_total_out := i_total_out s + n, i_avail_out := i_avail_out s - n\<rparr>)"
  by (simp add: made_output_def)

lemma out_split_made:
  assumes "out_split t xs s" and "i_used_out s = 0" and "n \<le> length ns" and "seg (i_obuf s) (i_next_out s) n = take n ns"
    and "i_next_out s' = i_next_out s + n" and "i_total_out s' = i_total_out s + n" and "i_obuf s' = i_obuf s"
    and "pending s' = drop n ns" and "i_used_out s' = length ns - n"
  shows "out_split t (xs @ ns) s'"
proof -
  have split: "t + i_next_out s = i_total_out s" "length xs = i_total_out s"
    "take (i_next_out s) (i_obuf s) = drop t (take (i_total_out s) xs)"
    using assms(1,2) by (simp_all add: out_split_def)
  have "take (i_next_out s + n) (i_obuf s) = take (i_next_out s) (i_obuf s) @ seg (i_obuf s) (i_next_out s) n"
    by (simp add: take_add seg_def)
  also have "\<dots> = drop t (take (i_total_out s + n) (xs @ ns))"
    unfolding split(3) assms(4) using split(1,2) by simp
  finally show ?thesis using split(1,2) assms by (simp add: out_split_def)
qed

lemma keep_history_fits:
  assumes "fifo_lay s" and "user_lay s" and "out_split t xs s" and "i_used_out s = 0" and "history_in xs s"
    and "placed ns s" and "length ns \<le> i_avail_out s"
  obtains s' where "keep_history (length ns) (i_avail_out s) s = Some s'" and "fifo_lay s'" and "user_lay s'"
    and "out_split t (xs @ ns) s'" and "but_out s' = but_out s" and "is_final s = 0 \<Longrightarrow> history_in (xs @ ns) s'"
    and "i_used_out s' = 0" and "i_avail_out s' = i_avail_out s - length ns"
proof -
  note result = that
  define n where "n = length ns"
  define c where "c = i_cur_out s"
  have pl: "seg (i_obuf s) (i_next_out s) n = ns" "n \<le> i_avail_out s" "n < 2 ^ 31"
    using assms(6,7) by (simp_all add: placed_def n_def)
  have ov: "overflow_len n (i_avail_out s) \<le> 0"
    using assms(2) pl(2,3) by (simp add: overflow_len_small user_lay_def)
  have lay: "length (i_fifo_out s) = i_len_out s" "INF_MAX_EXPANSION_BYTES \<le> i_len_out s" "INF_HIS_LEN \<le> c" "2 * c \<le> i_len_out s"
    using assms(1) by (simp_all add: fifo_lay_def c_def)
  have user: "length (i_obuf s) = i_next_out s + i_avail_out s" "i_avail_out s < 2 ^ 31" using assms(2) by (simp_all add: user_lay_def)
  define made where "made = (\<lambda>u :: nx_core. u\<lparr>i_next_out := i_next_out u + n, i_total_out := i_total_out u + n, i_avail_out := i_avail_out u - n\<rparr>)"
  have finish: thesis
    if "keep_history n (i_avail_out s) s = Some (made u)" "fifo_lay u" "but_out u = but_out s" "pending u = []" "i_obuf u = i_obuf s"
      "i_next_out u = i_next_out s" "i_avail_out u = i_avail_out s" "i_total_out u = i_total_out s" "i_used_out u = 0"
      "is_final s = 0 \<Longrightarrow> history_in (xs @ ns) u" for u
  proof (rule result)
    show "keep_history (length ns) (i_avail_out s) s = Some (made u)" using that(1) by (simp add: n_def)
    show "fifo_lay (made u)" using that(2) by (simp add: fifo_lay_def made_def)
    show "user_lay (made u)" using that(5-7) user pl(2) by (auto simp: user_lay_def made_def)
    show "out_split t (xs @ ns) (made u)"
      by (rule out_split_made [OF assms(3,4), of n])
        (use that pl in \<open>simp_all add: n_def made_def pending_def\<close>)
    show "but_out (made u) = but_out s" using that(3) by (simp add: made_def but_out_def)
    show "is_final s = 0 \<Longrightarrow> history_in (xs @ ns) (made u)" using that(10) by (simp add: history_in_def made_def)
    show "i_used_out (made u) = 0" "i_avail_out (made u) = i_avail_out s - length ns" using that(7,9) by (simp_all add: made_def n_def)
  qed
  show ?thesis
  proof (cases "is_final s = 0")
    case False
    show ?thesis
      by (rule finish [of s])
        (use False ov assms(1,4) pl(2) in \<open>simp_all add: keep_history_def made_output_ok made_def pending_def\<close>)
  next
    case True
    define k where "k = min INF_HIS_LEN n"
    define b where "b = seg (i_obuf s) (i_next_out s + n - k) k"
    have b: "b = drop (n - k) ns"
      using seg_suffix [of "n - k" n "i_next_out s" "i_obuf s"] pl user(1) by (simp add: b_def k_def)
    have k: "k \<le> n" "length b = k" using pl(1) by (auto simp: k_def b n_def)
    define s1 where "s1 = s\<lparr>i_fifo_out := put (i_fifo_out s) c b, i_cur_out := c + k\<rparr>"
    have room: "c + length b \<le> length (i_fifo_out s)"
      using lay k(2) by (simp add: k_def INF_MAX_EXPANSION_BYTES_def INF_MIN_INPUT_LEN_def INF_MAX_COMPRESSION_RATIO_def INF_HIS_LEN_def)
    have keep: "keep_history n (i_avail_out s) s = Option.bind (inf_fifo_out_len_check s1) (made_output n)"
      using ov True assms(4) k pl(2) user(1) room
      by (simp add: keep_history_def Let_def rd_block_seg wr_block_put b_def [symmetric] k_def [symmetric] s1_def c_def [symmetric] del: rd_block_Some wr_block_Some)
    have hist: "history_in (xs @ ns) s1"
    proof (cases "INF_HIS_LEN \<le> n")
      case True
      then have "seg (i_fifo_out s1) c k = drop (n - INF_HIS_LEN) ns" using room k b by (simp add: s1_def seg_put_same k_def)
      moreover have "window (xs @ ns) = drop (n - INF_HIS_LEN) ns" using True window_long [of ns xs] by (simp add: n_def)
      ultimately show ?thesis using True by (simp add: history_in_def s1_def assms(4) k_def n_def)
    next
      case False
      define j where "j = min (length (window xs)) (INF_HIS_LEN - n)"
      have jc: "j \<le> c" "j \<le> length (window xs)" "length (window xs) \<le> c" using lay(3) length_window [of xs] unfolding j_def by linarith+
      have "seg (i_fifo_out s1) (c - j) j = seg (i_fifo_out s) (c - j) j"
        using room jc by (simp add: s1_def seg_put_before)
      also have "\<dots> = drop (length (window xs) - j) (seg (i_fifo_out s) (c - length (window xs)) (length (window xs)))"
        using jc room by (subst seg_suffix) simp_all
      also have "\<dots> = drop (length (window xs) - j) (window xs)"
        using assms(4,5) by (simp add: history_in_def c_def)
      finally have "seg (i_fifo_out s1) (c - j) j = drop (length (window xs) - j) (window xs)" .
      moreover have "seg (i_fifo_out s1) c n = ns" using False room k b by (simp add: s1_def seg_put_same k_def)
      ultimately show ?thesis
        using history_append [of ns n j xs c "i_fifo_out s1"] False jc(1) by (simp add: history_in_def s1_def assms(4) k_def n_def j_def)
    qed
    have "length (i_fifo_out s1) = i_len_out s1" "INF_MAX_EXPANSION_BYTES \<le> i_len_out s1" "INF_HIS_LEN \<le> i_cur_out s1"
      "i_cur_out s1 + i_used_out s1 \<le> i_len_out s1"
      using lay room k(2) assms(4) by (simp_all add: s1_def)
    then obtain u where u: "inf_fifo_out_len_check s1 = Some u" "fifo_lay u" "but_out u = but_out s1" "pending u = pending s1"
        "\<And>xs. history_in xs u = history_in xs s1" "i_obuf u = i_obuf s1" "i_next_out u = i_next_out s1"
        "i_avail_out u = i_avail_out s1" "i_total_out u = i_total_out s1" "i_used_out u = i_used_out s1"
      by (rule fifo_out_check) blast
    show ?thesis
    proof (rule finish [of u])
      show "keep_history n (i_avail_out s) s = Some (made u)"
        using u(1,8) pl(2) by (simp add: keep made_output_ok made_def s1_def)
      show "but_out u = but_out s" using u(3) by (simp add: s1_def but_out_def)
      show "pending u = []" using u(4) assms(4) by (simp add: s1_def pending_def)
    qed (use u hist assms(4) in \<open>simp_all add: s1_def\<close>)
  qed
qed

lemma keep_history_spills:
  assumes "fifo_lay s" and "user_lay s" and "out_split t xs s" and "i_used_out s = 0" and "history_in xs s"
    and "placed ns s" and "i_avail_out s < length ns"
  obtains s' where "keep_history (length ns) (i_avail_out s) s = Some s'" and "fifo_lay s'" and "user_lay s'"
    and "out_split t (xs @ ns) s'" and "but_out s' = but_out s" and "history_in (xs @ ns) s'"
    and "i_used_out s' = length ns - i_avail_out s" and "i_avail_out s' = 0"
proof -
  note result = that
  define a where "a = i_avail_out s"
  define v where "v = length ns - a"
  define c where "c = i_cur_out s"
  define q where "q = i_next_out s"
  define f where "f = i_fifo_out s"
  have pl: "seg (i_obuf s) q a = take a ns" "seg f c v = drop a ns" "c + v \<le> i_len_out s" "a + v = length ns" "0 < v"
    using assms(6,7) by (simp_all add: placed_def a_def v_def c_def q_def f_def)
  have ov: "overflow_len (length ns) (i_avail_out s) = int v"
    using assms(2,6,7) by (simp add: overflow_len_small user_lay_def placed_def v_def a_def)
  note ov' = ov [folded a_def]
  have lay: "length f = i_len_out s" "INF_MAX_EXPANSION_BYTES \<le> i_len_out s" "INF_HIS_LEN \<le> c" "2 * c \<le> i_len_out s"
    using assms(1) by (simp_all add: fifo_lay_def c_def f_def)
  have user: "length (i_obuf s) = q + a" "a < 2 ^ 31" using assms(2) by (simp_all add: user_lay_def a_def q_def)
  have small: "(a + v) mod 2 ^ 32 = a + v" using assms(6) pl(4) by (simp add: placed_def)
  define made where "made = (\<lambda>m. s\<lparr>i_fifo_out := m, i_used_out := v, i_next_out := q + a, i_total_out := i_total_out s + a, i_avail_out := 0\<rparr>)"
  have finish: thesis
    if keep: "keep_history (length ns) (i_avail_out s) s = Some (made m)" and m: "length m = length f" "seg m c v = drop a ns"
      "seg m (c + v - length (window (xs @ ns))) (length (window (xs @ ns))) = window (xs @ ns)" for m
  proof (rule result [OF keep])
    show "fifo_lay (made m)" using lay pl(3) m(1) by (simp add: fifo_lay_def made_def c_def)
    show "user_lay (made m)" using user by (simp add: user_lay_def made_def)
    show "out_split t (xs @ ns) (made m)"
      by (rule out_split_made [OF assms(3,4), of a])
        (use pl m(2) in \<open>simp_all add: made_def pending_def q_def c_def v_def\<close>)
    show "but_out (made m) = but_out s" by (simp add: made_def but_out_def)
    show "history_in (xs @ ns) (made m)" using m(3) by (simp add: history_in_def made_def c_def)
    show "i_used_out (made m) = length ns - i_avail_out s" "i_avail_out (made m) = 0" by (simp_all add: made_def v_def a_def)
  qed
  consider (long) "INF_HIS_LEN \<le> v" | (both) "v < INF_HIS_LEN" "INF_HIS_LEN < a + v" | (short) "a + v \<le> INF_HIS_LEN" "v < INF_HIS_LEN" by linarith
  then show ?thesis
  proof cases
    case long
    show ?thesis
    proof (rule finish [of f])
      show "keep_history (length ns) (i_avail_out s) s = Some (made f)"
        using long assms(4) pl(5) by (simp add: keep_history_def ov Let_def made_output_ok made_def a_def q_def f_def)
      show "seg f (c + v - length (window (xs @ ns))) (length (window (xs @ ns))) = window (xs @ ns)"
        using history_long [of "drop a ns" v f c "xs @ take a ns"] long pl lay by simp
    qed (use pl in simp_all)
  next
    case both
    define l where "l = INF_HIS_LEN - v"
    define b where "b = seg (i_obuf s) (q + a - l) l"
    have l: "l \<le> a" "l \<le> c" "l + v = INF_HIS_LEN" using both lay(3) by (simp_all add: l_def)
    have b: "b = drop (a - l) (take a ns)" "length b = l"
      using seg_suffix [of "a - l" a q "i_obuf s"] pl(1) user(1) l(1) by (simp_all add: b_def length_seg)
    define m where "m = put f (c - l) b"
    have m: "length m = length f" "seg m c v = drop a ns" "seg m (c - l) l = b"
      using b(2) l(2) lay pl(2,3) by (simp_all add: m_def seg_put_after seg_put_same)
    show ?thesis
    proof (rule finish [OF _ m(1,2)])
      show "keep_history (length ns) (i_avail_out s) s = Some (made m)"
        using both assms(4) l b(2) user lay pl(3,5) small
        by (simp add: keep_history_def ov' Let_def made_output_ok made_def a_def [symmetric] q_def [symmetric] f_def [symmetric]
            c_def [symmetric] l_def [symmetric] rd_block_seg wr_block_put b_def [symmetric] m_def del: rd_block_Some wr_block_Some)
      have "seg m (c - l) (l + v) = drop (a - l) ns"
        using m(2,3) b(1) l(1,2) append_take_drop_id [of l "drop (a - l) ns"] by (simp add: seg_add drop_take)
      moreover have "length (drop (a - l) ns) = l + v" "c - l + (l + v) = c + v" "c - l + (l + v) \<le> length m"
        using l pl(3,4) lay m(1) by simp_all
      ultimately show "seg m (c + v - length (window (xs @ ns))) (length (window (xs @ ns))) = window (xs @ ns)"
        using history_long [of "drop (a - l) ns" "l + v" m "c - l" "xs @ take (a - l) ns"] l(3) by simp
    qed
  next
    case short
    define l where "l = INF_HIS_LEN - (a + v)"
    define m1 where "m1 = put f (c - (a + l)) (seg f (c - l) l)"
    define m where "m = put m1 (c - a) (take a ns)"
    have l: "a + l \<le> c" "a + l + v = INF_HIS_LEN" using short lay(3) by (simp_all add: l_def)
    have len: "length (seg f (c - l) l) = l" "length (take a ns) = a"
      using l lay pl(4) by (simp_all add: length_seg)
    have m1: "length m1 = length f" "seg m1 c v = drop a ns" "seg m1 (c - (a + l)) l = seg f (c - l) l"
      using l lay pl(2,3) len by (simp_all add: m1_def seg_put_after seg_put_same)
    have m: "length m = length f" "seg m c v = drop a ns" "seg m (c - a) a = take a ns" "seg m (c - (a + l)) l = seg f (c - l) l"
      using l lay pl(3) len(2) m1 by (simp_all add: m_def seg_put_after seg_put_same seg_put_before)
    show ?thesis
    proof (rule finish [OF _ m(1,2)])
      show "keep_history (length ns) (i_avail_out s) s = Some (made m)"
        using short assms(4) l len user lay pl(3,5) small m1(1)
        by (simp add: keep_history_def ov' Let_def made_output_ok made_def a_def [symmetric] q_def [symmetric] f_def [symmetric]
            c_def [symmetric] l_def [symmetric] rd_block_seg wr_block_put memmove_put pl(1) m_def m1_def del: rd_block_Some wr_block_Some)
      define k where "k = min (length (window xs)) (INF_HIS_LEN - (a + v))"
      have k: "k \<le> l" "k \<le> length (window xs)" "length (window xs) \<le> c" using lay(3) length_window [of xs] unfolding k_def l_def by linarith+
      have "seg m (c - a - k) k = drop (l - k) (seg m (c - (a + l)) l)"
        using k(1) l lay m(1) by (subst seg_suffix) simp_all
      also have "\<dots> = seg f (c - k) k" unfolding m(4) using k(1) l(1) lay by (subst seg_suffix) simp_all
      also have "\<dots> = drop (length (window xs) - k) (seg f (c - length (window xs)) (length (window xs)))"
        using k lay by (subst seg_suffix) simp_all
      also have "\<dots> = drop (length (window xs) - k) (window xs)"
        using assms(4,5) by (simp add: history_in_def c_def f_def)
      finally have "seg m (c - a - k) k = drop (length (window xs) - k) (window xs)" .
      moreover have "seg m (c - a) (a + v) = ns" using m(2,3) l(1) by (simp add: seg_add)
      moreover have "c - a + (a + v) = c + v" "k \<le> c - a" using l(1) k(1) by simp_all
      ultimately show "seg m (c + v - length (window (xs @ ns))) (length (window (xs @ ns))) = window (xs @ ns)"
        using history_append [of ns "a + v" k xs "c - a" m] short(1) pl(4) k_def by simp
    qed
  qed
qed

lemma keep_history_ok:
  assumes "fifo_lay s" and "user_lay s" and "out_split t xs s" and "i_used_out s = 0" and "history_in xs s" and "placed ns s"
  obtains s' where "keep_history (length ns) (i_avail_out s) s = Some s'" and "fifo_lay s'" and "user_lay s'"
    and "out_split t (xs @ ns) s'" and "but_out s' = but_out s" and "is_final s = 0 \<Longrightarrow> history_in (xs @ ns) s'"
    and "i_used_out s' = length ns - i_avail_out s" and "i_avail_out s' = i_avail_out s - length ns"
proof (cases "length ns \<le> i_avail_out s")
  case True
  show ?thesis by (rule keep_history_fits [OF assms True]) (use True that in simp)
next
  case False
  then have "i_avail_out s < length ns" by simp
  then show ?thesis by (rule keep_history_spills [OF assms]) (use False that in simp)
qed

end
