(* ===== verification/InflateInput.thy ===== *)
theory InflateInput
  imports InflateFifo
begin

text \<open>
  The input side of an inflate stream: using up source bytes, caching small inputs and collecting the
  trailer take bytes from the front of the unread input, wherever they lie.
\<close>

lemma in_lay_cases:
  assumes "in_lay s"
  obtains "fifo_in s = []" "i_cur_in s = 0" "i_used_in s = 0"
  | "length (fifo_in s) = len_in s" "i_cur_in s + i_used_in s \<le> len_in s" "fifo_in s \<noteq> []"
  using assms that by (auto simp: in_lay_def split: if_splits)

lemma in_layI: "length (fifo_in s) = len_in s \<Longrightarrow> i_cur_in s + i_used_in s \<le> len_in s \<Longrightarrow> in_lay s"
  by (auto simp: in_lay_def)

lemma length_unread: "in_lay s \<Longrightarrow> length (unread s) = i_used_in s + length (i_next_in s)"
  by (erule in_lay_cases) (simp_all add: unread_def length_seg)

lemma fifo_in_check:
  assumes "in_lay s"
  obtains s' where "fifo_in_len_check s = Some s'" and "in_lay s'" and "unread s' = unread s" and "but_in s' = but_in s"
    and "i_used_in s' = i_used_in s" and "i_next_in s' = i_next_in s" and "length (fifo_in s') = length (fifo_in s)" and "len_in s' = len_in s"
proof (cases "len_in s div 2 < i_cur_in s")
  case True
  then have lay: "length (fifo_in s) = len_in s" "i_cur_in s + i_used_in s \<le> len_in s" "fifo_in s \<noteq> []"
    using assms by (auto simp: in_lay_def split: if_splits)
  define b where "b = seg (fifo_in s) (i_cur_in s) (i_used_in s)"
  define s' where "s' = s\<lparr>fifo_in := put (fifo_in s) 0 b, i_cur_in := 0\<rparr>"
  have len: "length b = i_used_in s" using lay by (simp add: b_def length_seg)
  have "fifo_in_len_check s = Some s'"
    using True lay by (simp add: fifo_in_len_check_def memmove_put s'_def b_def)
  moreover have len': "length (fifo_in s') = len_in s" using lay len by (simp add: s'_def)
  moreover have "in_lay s'"
    using lay len' by (auto simp: in_lay_def s'_def)
  moreover have "unread s' = unread s" using lay len by (simp add: unread_def s'_def seg_put_same b_def [symmetric])
  ultimately show ?thesis using that lay(1) by (simp add: s'_def but_in_def)
next
  case False
  then show ?thesis using that [of s] assms by (simp add: fifo_in_len_check_def)
qed

lemma use_input_ok: "n \<le> length (i_next_in s) \<Longrightarrow>
    use_input n s = Some (s\<lparr>i_next_in := drop n (i_next_in s), i_total_in := i_total_in s + n\<rparr>)"
  by (simp add: use_input_def)

lemma drop_fifo_in:
  assumes "in_lay s" and "n \<le> i_used_in s"
  obtains s' where "fifo_in_len_check (s\<lparr>i_used_in := i_used_in s - n, i_cur_in := i_cur_in s + n\<rparr>) = Some s'"
    and "in_lay s'" and "unread s' = drop n (unread s)" and "but_in s' = but_in s" and "i_used_in s' = i_used_in s - n"
    and "i_next_in s' = i_next_in s"
proof -
  define s1 where "s1 = s\<lparr>i_used_in := i_used_in s - n, i_cur_in := i_cur_in s + n\<rparr>"
  have "in_lay s1" using assms by (auto simp: in_lay_def s1_def split: if_splits)
  then obtain s' where s': "fifo_in_len_check s1 = Some s'" "in_lay s'" "unread s' = unread s1" "but_in s' = but_in s1"
      "i_used_in s' = i_used_in s1" "i_next_in s' = i_next_in s1"
    by (rule fifo_in_check)
  have "unread s1 = drop n (unread s)"
    using assms(1)
  proof (cases rule: in_lay_cases)
    case 1
    then show ?thesis using assms(2) by (simp add: s1_def unread_def)
  next
    case 2
    then show ?thesis using assms(2) by (simp add: s1_def unread_def seg_suffix length_seg)
  qed
  then show ?thesis using that [of s'] s' by (simp add: s1_def but_in_def)
qed

lemma use_source_ok:
  assumes "in_lay s" and "n \<le> length (unread s)"
  obtains s' where "use_source n s = Some s'" and "in_lay s'" and "unread s' = drop n (unread s)" and "but_in s' = but_in s"
proof (cases "i_used_in s < n")
  case True
  define s1 where "s1 = s\<lparr>i_next_in := drop (n - i_used_in s) (i_next_in s), i_total_in := i_total_in s + (n - i_used_in s), i_used_in := 0\<rparr>"
  have "use_source n s = Some s1"
    using True assms by (simp add: use_source_def use_input_ok length_unread s1_def)
  moreover have "in_lay s1" using assms(1) by (auto simp: in_lay_def s1_def split: if_splits)
  moreover have "length (seg (fifo_in s) (i_cur_in s) (i_used_in s)) = i_used_in s"
    using assms(1) by (cases rule: in_lay_cases) (simp_all add: length_seg)
  then have "unread s1 = drop n (unread s)" using True by (simp add: unread_def s1_def)
  ultimately show ?thesis using that by (simp add: s1_def but_in_def)
next
  case False
  then have "n \<le> i_used_in s" by simp
  then show ?thesis by (rule drop_fifo_in [OF assms(1)]) (use False that in \<open>simp add: use_source_def\<close>)
qed

text \<open>Caching does not change what is unread.\<close>

definition alloc_ok :: "nx_env \<Rightarrow> bool" where
  "alloc_ok env \<longleftrightarrow> (\<forall>n m. nx_alloc_buffer env n = Some m \<longrightarrow> length m = n)"

lemma copy_data_ok:
  assumes "in_lay s" and "alloc_ok env"
  obtains rc s' where "copy_data_to_fifo_in env s = Some (rc, s')" and "rc = Z_OK \<or> rc = Z_MEM_ERROR" and "in_lay s'"
    and "unread s' = unread s" and "but_in s' = but_in s"
proof (cases "if fifo_in s = [] then map_option (\<lambda>m. s\<lparr>fifo_in := m, len_in := cache_threshold env * 2\<rparr>) (nx_alloc_buffer env (cache_threshold env * 2)) else Some s")
  case None
  then have "fifo_in s = []" by (simp split: if_splits)
  then show ?thesis
    using that [of Z_MEM_ERROR "s\<lparr>len_in := cache_threshold env * 2\<rparr>"] None assms(1)
    by (simp add: copy_data_to_fifo_in_def in_lay_def unread_def but_in_def)
next
  case (Some u)
  have u: "in_lay u" "unread u = unread s" "but_in u = but_in s" "length (fifo_in u) = len_in u" "i_next_in u = i_next_in s"
    using Some assms by (auto simp: in_lay_def unread_def but_in_def alloc_ok_def split: if_splits)
  define u1 where "u1 = u\<lparr>i_cur_in := (if i_used_in u = 0 then 0 else i_cur_in u)\<rparr>"
  have "in_lay u1" "unread u1 = unread u" "but_in u1 = but_in u"
    using u(1) by (auto simp: u1_def in_lay_def unread_def but_in_def split: if_splits)
  with fifo_in_check obtain v where v: "fifo_in_len_check u1 = Some v" "in_lay v" "unread v = unread u" "but_in v = but_in u"
      "i_used_in v = i_used_in u1" "i_next_in v = i_next_in u1" "length (fifo_in v) = length (fifo_in u1)" "len_in v = len_in u1"
    by metis
  define r where "r = min (len_in v - (i_cur_in v + i_used_in v)) (length (i_next_in v))"
  have len: "length (fifo_in v) = len_in v" using v(7,8) u(4) by (simp add: u1_def)
  have fit: "i_cur_in v + i_used_in v \<le> len_in v" using v(2) len by (auto simp: in_lay_def split: if_splits)
  define b where "b = take r (i_next_in v)"
  have b: "length b = r" "i_cur_in v + i_used_in v + length b \<le> length (fifo_in v)" using fit len by (simp_all add: b_def r_def)
  define s' where "s' = v\<lparr>fifo_in := put (fifo_in v) (i_cur_in v + i_used_in v) b, i_next_in := drop r (i_next_in v),
    i_total_in := i_total_in v + r, i_used_in := i_used_in v + r\<rparr>"
  have "copy_data_to_fifo_in env s = Some (Z_OK, s')"
    using fit b v(1) by (simp add: copy_data_to_fifo_in_def Some u1_def [symmetric] r_def [symmetric] wr_block_put use_input_def
        b_def [symmetric] s'_def del: wr_block_Some)
  moreover have "length (fifo_in s') = len_in v" using b(2) len by (simp add: s'_def)
  then have "in_lay s'" using b fit len by (intro in_layI) (simp_all add: s'_def)
  moreover have "unread s' = unread v"
  proof -
    have "seg (fifo_in s') (i_cur_in v) (i_used_in v + r) = seg (fifo_in v) (i_cur_in v) (i_used_in v) @ b"
      using b by (simp add: s'_def seg_add seg_put_before seg_put_same)
    then show ?thesis by (simp add: unread_def s'_def b_def)
  qed
  ultimately show ?thesis
    using that [of Z_OK s'] u(2,3) v(3,4) by (simp add: s'_def but_in_def)
qed

lemma trailer_need_le: "trailer_need w \<le> 8"
  by (simp add: trailer_need_def)

lemma trailer_copy_ok:
  assumes "in_lay s" and "length (trailer s) = 9" and "trailer_len s \<le> trailer_need (i_wrap s)"
    and "trailer_len s = 0 \<or> i_used_in s = 0 \<or> trailer_len s = trailer_need (i_wrap s)"
  obtains s' k where "trailer_copy s = Some s'" and "in_lay s'" and "k \<le> length (unread s)" and "unread s' = drop k (unread s)"
    and "length (trailer s') = 9" and "trailer_len s' = trailer_len s + k" and "trailer_len s' \<le> trailer_need (i_wrap s)"
    and "take (trailer_len s') (trailer s') = take (trailer_len s) (trailer s) @ take k (unread s)"
    and "but_in (s'\<lparr>trailer := [], trailer_len := 0\<rparr>) = but_in (s\<lparr>trailer := [], trailer_len := 0\<rparr>)"
    and "trailer_len s' < trailer_need (i_wrap s) \<Longrightarrow> unread s' = []"
proof -
  define need where "need = trailer_need (i_wrap s) - trailer_len s"
  define g where "g = min (i_used_in s) need"
  have need: "need \<le> 8" using trailer_need_le [of "i_wrap s"] by (simp add: need_def)
  obtain s1 where s1: "trailer_fifo g s = Some s1"
    and lay1: "in_lay s1" "unread s1 = drop g (unread s)" "i_next_in s1 = i_next_in s" "i_used_in s1 = i_used_in s - g"
    and tr1: "length (trailer s1) = 9" "trailer_len s1 = trailer_len s + g"
      "take (trailer_len s1) (trailer s1) = take (trailer_len s) (trailer s) @ take g (unread s)"
    and fr1: "but_in (s1\<lparr>trailer := [], trailer_len := 0\<rparr>) = but_in (s\<lparr>trailer := [], trailer_len := 0\<rparr>)"
  proof (cases "0 < g")
    case False
    then show ?thesis using that [of s] assms by (simp add: trailer_fifo_def)
  next
    case True
    then have tl: "trailer_len s = 0" "0 < i_used_in s" using assms(4) by (auto simp: g_def need_def)
    have lay: "length (fifo_in s) = len_in s" "i_cur_in s + i_used_in s \<le> len_in s"
      using assms(1) tl(2) by (auto simp: in_lay_def split: if_splits)
    define b where "b = seg (fifo_in s) (i_cur_in s) g"
    have b: "length b = g" "b = take g (unread s)"
      using lay seg_prefix [of g "i_used_in s" "fifo_in s" "i_cur_in s"]
      by (simp_all add: b_def length_seg unread_def g_def)
    have g9: "g \<le> 8" using need by (simp add: g_def)
    define u where "u = s\<lparr>trailer := put (trailer s) 0 b, trailer_len := g\<rparr>"
    have "in_lay u" "g \<le> i_used_in u" using assms(1) by (simp_all add: u_def in_lay_def g_def)
    then obtain s1 where s1: "fifo_in_len_check (u\<lparr>i_used_in := i_used_in u - g, i_cur_in := i_cur_in u + g\<rparr>) = Some s1"
        "in_lay s1" "unread s1 = drop g (unread u)" "but_in s1 = but_in u" "i_used_in s1 = i_used_in u - g" "i_next_in s1 = i_next_in u"
      by (rule drop_fifo_in)
    have "trailer_fifo g s = Some s1"
      using True s1(1) lay assms(2) b(1) g9 \<open>g \<le> i_used_in u\<close>
      by (simp add: trailer_fifo_def rd_block_seg b_def [symmetric] wr_block_put u_def del: rd_block_Some wr_block_Some)
    moreover have tr: "trailer s1 = put (trailer s) 0 b" "trailer_len s1 = g"
      using but_in_fields(5,6) [OF s1(4)] by (simp_all add: u_def)
    then have "length (trailer s1) = 9" "trailer_len s1 = trailer_len s + g"
      "take (trailer_len s1) (trailer s1) = take (trailer_len s) (trailer s) @ take g (unread s)"
      using b(1) assms(2) g9 tl(1) by (simp_all add: b(2) [symmetric]) (simp add: put_def)
    moreover have "but_in (s1\<lparr>trailer := [], trailer_len := 0\<rparr>) = but_in (s\<lparr>trailer := [], trailer_len := 0\<rparr>)"
      using s1(4) by (cases s; cases s1) (simp add: but_in_def u_def)
    moreover have "unread s1 = drop g (unread s)" "i_next_in s1 = i_next_in s" "i_used_in s1 = i_used_in s - g"
      using s1(3,5,6) by (simp_all add: u_def unread_def)
    ultimately show ?thesis using that s1(2) by blast
  qed
  define h where "h = min (length (i_next_in s1)) (need - g)"
  have h: "h \<le> length (i_next_in s1)" "trailer_len s1 + h \<le> trailer_need (i_wrap s)" "trailer_len s1 + h \<le> 8"
    using assms(3) tr1(2) trailer_need_le [of "i_wrap s"] unfolding h_def g_def need_def by linarith+
  have empty: "seg (fifo_in s1) (i_cur_in s1) (i_used_in s1) = []" if "0 < h \<or> trailer_len s1 + h < trailer_need (i_wrap s)"
  proof -
    have "i_used_in s1 = 0"
      using that lay1(4) tr1(2) by (auto simp: h_def g_def need_def)
    then show ?thesis by simp
  qed
  define s' where "s' = s1\<lparr>trailer := put (trailer s1) (trailer_len s1) (take h (i_next_in s1)), i_next_in := drop h (i_next_in s1),
    i_total_in := i_total_in s1 + h, trailer_len := trailer_len s1 + h\<rparr>"
  have "trailer_user h s1 = Some s'"
    using h tr1(1) by (simp add: trailer_user_def wr_block_put use_input_def s'_def del: wr_block_Some)
  then have run: "trailer_copy s = Some s'"
    using s1 by (simp add: trailer_copy_def Let_def need_def [symmetric] g_def [symmetric] h_def [symmetric])
  have un: "unread s' = drop h (unread s1)" "take h (unread s1) = take h (i_next_in s1)"
    using empty by (cases "0 < h"; simp add: unread_def s'_def)+
  show ?thesis
  proof (rule that [OF run])
    show "in_lay s'" using lay1(1) by (simp add: in_lay_def s'_def)
    show "g + h \<le> length (unread s)"
      using lay1 h(1) length_unread [OF lay1(1)] length_unread [OF assms(1)] by (auto simp: g_def)
    show "unread s' = drop (g + h) (unread s)" using un(1) lay1(2) by (simp add: add.commute)
    show "length (trailer s') = 9" using tr1(1) h by (simp add: s'_def)
    show "trailer_len s' = trailer_len s + (g + h)" using tr1(2) by (simp add: s'_def)
    show "trailer_len s' \<le> trailer_need (i_wrap s)" using h(2) by (simp add: s'_def)
    have "take (trailer_len s') (trailer s') = take (trailer_len s1) (trailer s1) @ take h (i_next_in s1)"
      using tr1(1) h by (simp add: s'_def put_def)
    also have "\<dots> = take (trailer_len s) (trailer s) @ take (g + h) (unread s)"
      using un(2) lay1(2) tr1(3) by (simp add: take_add)
    finally show "take (trailer_len s') (trailer s') = take (trailer_len s) (trailer s) @ take (g + h) (unread s)" .
    show "but_in (s'\<lparr>trailer := [], trailer_len := 0\<rparr>) = but_in (s\<lparr>trailer := [], trailer_len := 0\<rparr>)"
      using fr1 by (simp add: s'_def but_in_def)
    show "unread s' = []" if "trailer_len s' < trailer_need (i_wrap s)"
    proof -
      have "seg (fifo_in s1) (i_cur_in s1) (i_used_in s1) = []" using that empty by (simp add: s'_def)
      moreover have "h = length (i_next_in s1)" using that tr1(2) assms(3) by (auto simp: s'_def h_def g_def need_def)
      ultimately show ?thesis by (simp add: unread_def s'_def)
    qed
  qed
qed

end
