(* ===== verification/NxChecksum.thy ===== *)
theory NxChecksum
  imports CrcCombine Adler32
begin

text \<open>
  The checksum fields of the parameter block as inflate and deflate use them: the CRC-32 with its bytes swapped and the
  Adler-32, and what the combining functions do to them.
\<close>

definition crc_field :: "u8 list \<Rightarrow> u32" where
  "crc_field xs = bswap_32 (crc_ref xs 0)"

definition adler_field :: "u8 list \<Rightarrow> u32" where
  "adler_field xs = ucast (adler_value (adler_ref xs (1, 0)))"

lemma checksum_fields_Nil: "crc_field [] = 0" "adler_field [] = 1"
  by (simp_all add: crc_field_def crc_ref_def crc_raw_def bswap_32_def adler_field_def adler_value_def)

lemma crc_field_combine:
  assumes "ys \<noteq> []"
  obtains w where "nx_crc32_combine (ucast (bswap_32 (crc_field xs))) (ucast (bswap_32 (crc_field ys))) (int (length ys)) = Some w"
    and "bswap_32 (ucast w) = crc_field (xs @ ys)"
  using assms
  by (simp add: crc_field_def bswap_bswap combine_shift crc_ref_append)

lemma ucast_adler_field: "ucast (adler_field xs) = adler_value (adler_ref xs (1, 0))"
proof -
  obtain a s where as: "adler_ref xs (1, 0) = (a, s)" by fastforce
  have "adler_valid (1, 0)" by (simp add: adler_valid_def)
  then have "adler_valid (a, s)" using adler_ref_valid(2) [of "(1, 0)" xs] as by simp
  then have "unat (adler_value (a, s)) < 2 ^ 32" by (simp add: unat_adler_value adler_valid_def)
  then show ?thesis
    by (simp only: adler_field_def as word_unat_eq_iff unsigned_ucast_eq take_bit_eq_mod) (simp add: unat_mod)
qed

lemma adler_field_combine:
  "ucast (nx_adler32_combine (ucast (adler_field xs)) (ucast (adler_field ys)) (int (length ys))) = adler_field (xs @ ys)"
proof -
  have v: "adler_valid (1, 0)" by (simp add: adler_valid_def)
  show ?thesis
    using adler_combine_append [OF v, of xs ys] by (simp only: ucast_adler_field) (simp add: adler_field_def)
qed

text \<open>A job that continues a checksum.\<close>

lemma crc_field_append: "bswap_32 (crc_ref ys (bswap_32 (crc_field xs))) = crc_field (xs @ ys)"
  by (simp add: crc_field_def bswap_bswap crc_ref_def crc_raw_append)

lemma adler_field_append: "ucast (nx_adler32 (ucast (adler_field xs)) (Some ys)) = adler_field (xs @ ys)"
proof -
  have v: "adler_valid (1, 0)" by (simp add: adler_valid_def)
  have "nx_adler32 (ucast (adler_field xs)) (Some ys) = adler_value (adler_ref (xs @ ys) (1, 0))"
    using nx_adler32_correct [OF adler_ref_valid(2) [OF v, of xs], of ys] by (simp add: ucast_adler_field adler_ref_def)
  then show ?thesis by (simp add: adler_field_def)
qed

end
