(* ===== verification/InflateEngine.thy ===== *)
theory InflateEngine
  imports InflateInput NxChecksum
begin

text \<open>
  What is assumed of the accelerator, after its description in \<^verbatim>\<open>inc_nx/nxu.h\<close>: given the right window, the
  right checksums and the parameters of the point where it stopped, it goes on decompressing. The
  contract is about one job; nothing in it mentions the fifos, the calls or how jobs follow each other.
\<close>

section \<open>The table of a job\<close>

lemma copy_dht_ok: "n \<le> length src \<Longrightarrow> n \<le> length dst \<Longrightarrow> copy_dht n src dst = Some (take n src @ drop n dst)"
proof (induction n arbitrary: dst)
  case (Suc n)
  then have "copy_dht n src (dst[n := src ! n]) = Some (take n src @ drop n (dst[n := src ! n]))" by simp
  moreover have "drop n (dst[n := src ! n]) = src ! n # drop (Suc n) dst"
    using Suc.prems by (simp add: drop_update_swap [symmetric] flip: Cons_nth_drop_Suc)
  ultimately show ?case using Suc.prems by (simp add: take_Suc_conv_app_nth)
qed simp

section \<open>Where a job starts and stops\<close>

text \<open>
  The kind of block with its final bit (\<^verbatim>\<open>SFBT\<close>), the number of bits of the first byte that are left, and
  what else the kind of block needs.
\<close>

datatype resume = Fresh | Literal nat nat nat | FixedHuffman nat nat | DynamicHuffman nat nat nat "u128 list" | BlockHeader nat nat

definition read_resume :: "nat \<Rightarrow> nat \<Rightarrow> u32 \<Rightarrow> u128 list \<Rightarrow> resume" where
  "read_resume sfbt subc w dht =
     (if sfbt = 8 \<or> sfbt = 9 then Literal sfbt subc (getnn 31 16 w)
      else if sfbt = 10 \<or> sfbt = 11 then FixedHuffman sfbt subc
      else if sfbt = 12 \<or> sfbt = 13 then DynamicHuffman sfbt subc (getnn 31 12 w) (take ((getnn 31 12 w + 127) div 128) dht)
      else BlockHeader sfbt subc)"

definition job_resume :: "nx_job \<Rightarrow> resume" where
  "job_resume j =
     (if j_fc j = GZIP_FC_DECOMPRESS then Fresh
      else read_resume (getnn 15 4 (j_sfbt_rem j)) (getnn 31 3 (j_histlen_subc j)) (j_sfbt_rem j) (j_dht j))"

definition resp_resume :: "nx_resp \<Rightarrow> resume" where
  "resp_resume r =
     read_resume (get_out_sfbt (r_sfbt_rem r)) (get_out_subc (r_subc_word r) mod 8) (r_sfbt_rem r) (r_dht r)"

section \<open>The contract\<close>

text \<open>
  A compressed stream with what follows it, the format around it, its decompressed data, the byte where the
  stream ends, and the points where decompression can be resumed: the byte, the parameters and the number of
  bytes produced before.
\<close>

record deflated =
  d_wrap :: nat
  d_in :: "u8 list"
  d_out :: "u8 list"
  d_end :: nat
  d_at :: "nat \<Rightarrow> resume \<Rightarrow> nat \<Rightarrow> bool"

text \<open>
  The job resumes the stream at byte \<open>p\<close> after \<open>n\<close> bytes of output: its source is the history \<open>h\<close>, which ends with
  the window, and the next \<open>k\<close> bytes of the stream, and it carries the checksums of the output so far.
\<close>

definition resumes :: "deflated \<Rightarrow> nx_job \<Rightarrow> nat \<Rightarrow> nat \<Rightarrow> u8 list \<Rightarrow> nat \<Rightarrow> bool" where
  "resumes d j p n h k \<longleftrightarrow>
     j_source j = h @ take k (drop p (d_in d)) \<and> 0 < k \<and> p + k \<le> length (d_in d) \<and> n \<le> length (d_out d)
     \<and> length h = 16 * getnn 11 12 (j_histlen_subc j) \<and> (\<exists>g. h = g @ window (take n (d_out d)))
     \<and> d_at d p (job_resume j) n
     \<and> j_crc j = crc_field (take n (d_out d)) \<and> j_adler j = adler_field (take n (d_out d))"

definition produces :: "deflated \<Rightarrow> nat \<Rightarrow> nat \<Rightarrow> nx_resp \<Rightarrow> bool" where
  "produces d n n' r \<longleftrightarrow>
     n \<le> n' \<and> n' \<le> length (d_out d) \<and> r_tpbc r = n' - n \<and> r_tpbc r \<le> length (r_out r)
     \<and> take (r_tpbc r) (r_out r) = drop n (take n' (d_out d))
     \<and> r_crc r = crc_field (take n' (d_out d)) \<and> r_adler r = adler_field (take n' (d_out d))"

definition suspended :: "nx_resp \<Rightarrow> bool" where
  "suspended r \<longleftrightarrow> \<not> csb_ce_termination (drop_bit 5 (r_ce r)) \<and> csb_ce_partial_completion (drop_bit 5 (r_ce r))"

text \<open>
  The answer: the end of the stream exactly at the end of the source, the end of the stream inside the
  source, a new point to resume at, or a failure, which a page fault always is.
\<close>

definition answers :: "deflated \<Rightarrow> nx_job \<Rightarrow> nat \<Rightarrow> nat \<Rightarrow> nat \<Rightarrow> nat \<Rightarrow> nx_resp \<Rightarrow> bool" where
  "answers d j p n hl k r \<longleftrightarrow>
     length (r_out r) \<le> j_target j
     \<and> (r_cc r = ERR_NX_AT_FAULT \<longrightarrow> \<not> suspended r)
     \<and> (r_cc r = ERR_NX_OK \<longrightarrow> r_spbc r = hl + k \<and> produces d n (length (d_out d)) r \<and> p + k = d_end d)
     \<and> (r_cc r = ERR_NX_DATA_LENGTH \<and> suspended r \<longrightarrow>
          r_spbc r = hl + k
          \<and> (if get_out_sfbt (r_sfbt_rem r) = 0
             then produces d n (length (d_out d)) r \<and> get_out_subc (r_subc_word r) div 8 \<le> k
                  \<and> p + k - get_out_subc (r_subc_word r) div 8 = d_end d
             else 8 \<le> get_out_sfbt (r_sfbt_rem r) \<and> (get_out_subc (r_subc_word r) + 7) div 8 \<le> k
                  \<and> (get_out_sfbt (r_sfbt_rem r) \<in> {12, 13} \<longrightarrow>
                       42 \<le> get_out_dhtlen (r_sfbt_rem r) \<and> get_out_dhtlen (r_sfbt_rem r) \<le> 18 * 128 \<and> length (r_dht r) = 18)
                  \<and> (\<exists>n'. produces d n n' r \<and> d_at d (p + k - (get_out_subc (r_subc_word r) + 7) div 8) (resp_resume r) n')))"

definition engine_ok :: "nx_env \<Rightarrow> deflated \<Rightarrow> bool" where
  "engine_ok env d \<longleftrightarrow>
     d_at d 0 Fresh 0 \<and> d_end d \<le> length (d_in d) \<and> length (d_in d) < 2 ^ 32 \<and> length (d_out d) < 2 ^ 31
     \<and> (\<forall>i j p n h k. resumes d j p n h k \<longrightarrow> answers d j p n (length h) k (nx_submit_job env i j))"

end
