(* ===== verification/InflateJob.thy ===== *)
theory InflateJob
  imports InflateEngine
begin

text \<open>
  One job from its preparation to the accounting of its results, in a stream that the accelerator
  decompresses under its contract.
\<close>

section \<open>A stream in the middle of its data\<close>

definition state_resume :: "nx_core \<Rightarrow> resume" where
  "state_resume s =
     (if resuming s = 0 then Fresh
      else read_resume (getnn 15 4 (in_sfbt_rem s)) (getnn 31 3 (in_histlen_subc s)) (in_sfbt_rem s) (in_dht s))"

text \<open>
  \<open>p\<close> bytes of the stream were used and \<open>n\<close> bytes decompressed, \<open>t\<close> of which the user had before the
  call; \<open>fut\<close> is the input that the user has not passed yet.
\<close>

definition running :: "deflated \<Rightarrow> nat \<Rightarrow> nat \<Rightarrow> nat \<Rightarrow> u8 list \<Rightarrow> nx_core \<Rightarrow> bool" where
  "running d t p n fut s \<longleftrightarrow>
     inf_state s = inf_state_inflate \<and> in_lay s \<and> fifo_lay s \<and> user_lay s \<and> i_wrap s = d_wrap d \<and> is_final s = 0 \<and> i_dict_len s = 0 \<and> length (in_dht s) = 18
     \<and> length (trailer s) = 9 \<and> trailer_len s = 0
     \<and> drop p (d_in d) = unread s @ fut \<and> p \<le> length (d_in d) \<and> n \<le> length (d_out d) \<and> d_at d p (state_resume s) n
     \<and> out_split t (take n (d_out d)) s \<and> history_in (take n (d_out d)) s
     \<and> i_history_len s = length (window (take n (d_out d)))
     \<and> (if resuming s = 0 then n = 0
        else i_crc32 s = crc_field (take n (d_out d)) \<and> i_adler32 s = adler_field (take n (d_out d)))"

text \<open>What the preparation of a job changes, and the submission of it.\<close>

definition but_job :: "nx_core \<Rightarrow> nx_core" where
  "but_job s = s\<lparr>in_crc := 0, in_adler := 0, out_crc := 0, out_adler := 0, in_histlen_subc := 0, last_comp_ratio := 0,
     i_history_len := 0, jobs := 0, sync_point := 0\<rparr>"

lemma but_job_fields:
  assumes "but_job s' = but_job s"
  shows "i_next_in s' = i_next_in s" "fifo_in s' = fifo_in s" "len_in s' = len_in s" "i_cur_in s' = i_cur_in s"
    "i_used_in s' = i_used_in s" "i_wrap s' = i_wrap s" "is_final s' = is_final s" "resuming s' = resuming s"
    "i_dict_len s' = i_dict_len s" "trailer s' = trailer s" "trailer_len s' = trailer_len s" "i_crc32 s' = i_crc32 s"
    "i_adler32 s' = i_adler32 s" "in_sfbt_rem s' = in_sfbt_rem s" "in_dht s' = in_dht s" "i_len_out s' = i_len_out s"
    "i_obuf s' = i_obuf s" "i_next_out s' = i_next_out s" "i_avail_out s' = i_avail_out s" "i_total_out s' = i_total_out s"
    "i_fifo_out s' = i_fifo_out s" "i_cur_out s' = i_cur_out s" "i_used_out s' = i_used_out s"
    "inf_state s' = inf_state s"
  using assms by (cases s; cases s'; simp add: but_job_def)+

lemma running_but_job:
  assumes "but_job s' = but_job s" and "getnn 31 3 (in_histlen_subc s') = getnn 31 3 (in_histlen_subc s) \<or> resuming s = 0"
    and "i_history_len s' = i_history_len s"
  shows "running d t p n fut s' = running d t p n fut s"
proof -
  note f = but_job_fields [OF assms(1)]
  have "state_resume s' = state_resume s" using assms(2) by (auto simp: state_resume_def f)
  then show ?thesis
    by (simp add: running_def f assms(3) in_lay_def fifo_lay_def user_lay_def unread_def out_split_def pending_def history_in_def)
qed

section \<open>Preparing a job\<close>

definition setup_ok :: "deflated \<Rightarrow> nat \<Rightarrow> nat \<Rightarrow> nat \<Rightarrow> nx_setup \<Rightarrow> nx_core \<Rightarrow> bool" where
  "setup_ok d p n te su s \<longleftrightarrow>
     (\<exists>h k. resumes d (job_of su s) p n h k \<and> hist_len su = length h \<and> job_len su = length h + k \<and> k \<le> length (unread s)
        \<and> i_history_len s \<le> length h \<and> target_user su = min (i_avail_out s) te \<and> target_fifo su = te - i_avail_out s)"

lemma crc_field_Nil: "crc_field [] = INIT_CRC"
  by (simp add: crc_field_def crc_ref_def crc_raw_def INIT_CRC_def bswap_32_def)

lemma adler_field_Nil: "adler_field [] = INIT_ADLER"
  by (simp add: adler_field_def adler_ref_def adler_value_def INIT_ADLER_def)

text \<open>The history that goes in to the source: the window, rounded up to quadwords with what is in front of it.\<close>

lemma nx_init_dde_ok:
  assumes "running d t p n fut s" and "i_used_out s = 0"
  obtains h s' where "nx_init_dde s = Some (length h, h, s')" and "but_job s' = but_job s" and "running d t p n fut s'"
    and "\<exists>g. h = g @ window (take n (d_out d))" and "length h = 16 * getnn 11 12 (in_histlen_subc s')"
    and "i_history_len s' \<le> length h" and "length h \<le> INF_HIS_LEN"
    and "in_crc s' = crc_field (take n (d_out d))" and "in_adler s' = adler_field (take n (d_out d))"
proof (cases "resuming s = 0")
  case True
  then have n: "n = 0" "i_dict_len s = 0" "i_history_len s = 0" using assms(1) by (auto simp: running_def)
  define s' where "s' = bound_ratio (init_checksums (s\<lparr>i_history_len := 0, in_histlen_subc := 0\<rparr>))"
  have "nx_init_dde s = Some (0, [], s')" using True n by (simp add: nx_init_dde_def s'_def)
  moreover have same: "but_job s' = but_job s" by (simp add: s'_def but_job_def bound_ratio_def init_checksums_def)
  moreover have fields: "in_histlen_subc s' = 0" "i_history_len s' = 0" "in_crc s' = INIT_CRC" "in_adler s' = INIT_ADLER"
    by (simp_all add: s'_def bound_ratio_def init_checksums_def)
  moreover have "running d t p n fut s'"
    using running_but_job [OF same] assms(1) True n(3) fields by simp
  ultimately show ?thesis using that [of "[]" s'] n(1) by (simp add: crc_field_Nil adler_field_Nil)
next
  case False
  define w where "w = window (take n (d_out d))"
  have run: "i_dict_len s = 0" "i_history_len s = length w" "history_in (take n (d_out d)) s" "fifo_lay s"
    "i_crc32 s = crc_field (take n (d_out d))" "i_adler32 s = adler_field (take n (d_out d))"
    using assms(1) False by (auto simp: running_def w_def)
  define q where "q = (length w + NXQWSZ - 1) div NXQWSZ"
  define m where "m = q * NXQWSZ"
  have w: "length w \<le> INF_HIS_LEN" by (simp add: w_def length_window)
  have m: "length w \<le> m" "m \<le> INF_HIS_LEN" "m = 16 * q" "q < 2 ^ 12"
    using w by (auto simp: m_def q_def NXQWSZ_def INF_HIS_LEN_def)
  define h where "h = seg (i_fifo_out s) (i_cur_out s - m) m"
  have lay: "INF_HIS_LEN \<le> i_cur_out s" "i_cur_out s \<le> length (i_fifo_out s)" using run(4) by (simp_all add: fifo_lay_def)
  then have h: "length h = m" using m(2) by (simp add: h_def length_seg)
  have tail: "drop (m - length w) h = w"
    using m(1,2) lay run(3) assms(2) by (simp add: h_def seg_suffix history_in_def w_def)
  define s1 where "s1 = s\<lparr>in_crc := i_crc32 s, in_adler := i_adler32 s, in_histlen_subc := put_in_histlen q (in_histlen_subc s)\<rparr>"
  define s' where "s' = bound_ratio s1"
  have "nx_init_dde s = Some (m, h, s')"
    using False run(1,2) m lay
    by (simp add: nx_init_dde_def Let_def q_def [symmetric] m_def [symmetric] rd_block_seg h_def s'_def s1_def del: rd_block_Some One_nat_def)
  moreover have same: "but_job s' = but_job s" by (simp add: s'_def s1_def but_job_def bound_ratio_def)
  moreover have fields: "in_histlen_subc s' = put_in_histlen q (in_histlen_subc s)" "i_history_len s' = i_history_len s"
    "in_crc s' = i_crc32 s" "in_adler s' = i_adler32 s"
    by (simp_all add: s'_def s1_def bound_ratio_def)
  moreover have "getnn 31 3 (in_histlen_subc s') = getnn 31 3 (in_histlen_subc s)"
    unfolding fields by (rule getnn_putnn_other) simp_all
  then have "running d t p n fut s'" using running_but_job [OF same] assms(1) fields(2) by simp
  moreover have "getnn 11 12 (in_histlen_subc s') = q" unfolding fields using m(4) by (simp add: getnn_putnn)
  moreover have "h = take (m - length w) h @ w" using append_take_drop_id [of "m - length w" h] tail by simp
  ultimately show ?thesis
    using that [of h s'] h m run(2,5,6) w_def by auto
qed

lemma nx_set_dde_in_ok:
  assumes "in_lay s"
  shows "nx_set_dde_in se s = Some (take se (unread s))"
  using assms
proof (cases rule: in_lay_cases)
  case 1
  then show ?thesis by (auto simp: nx_set_dde_in_def unread_def)
next
  case 2
  define b where "b = seg (fifo_in s) (i_cur_in s) (i_used_in s)"
  have len: "length b = i_used_in s" using 2 by (simp add: b_def length_seg)
  have "rd_block (fifo_in s) (i_cur_in s) (min (i_used_in s) se) = Some (take se b)"
    using 2 seg_prefix [of se "i_used_in s" "fifo_in s" "i_cur_in s"] len
    by (cases "i_used_in s \<le> se") (simp_all add: rd_block_seg b_def [symmetric] del: rd_block_Some)
  then show ?thesis
    using 2(3) len by (auto simp: nx_set_dde_in_def unread_def b_def [symmetric] min_def Let_def)
qed

lemma state_resume_job:
  assumes "i_dict_len s = 0"
  shows "job_resume (job_of su s) = state_resume s"
  using assms by (simp add: job_resume_def job_of_def state_resume_def nx_reset_dde_def GZIP_FC_DECOMPRESS_def GZIP_FC_DECOMPRESS_RESUME_def)

lemma init_dde_ok:
  assumes "running d t p n fut s" and "i_used_out s = 0" and "unread s \<noteq> []" and "0 < se" and "te \<le> i_avail_out s + 40960"
  obtains su s' where "init_dde se te s = Some (su, s')" and "but_job s' = but_job s" and "running d t p n fut s'"
    and "setup_ok d p n te su s'" and "job_len su - hist_len su \<le> se"
proof -
  obtain h s' where s': "nx_init_dde s = Some (length h, h, s')" "but_job s' = but_job s" "running d t p n fut s'"
      "\<exists>g. h = g @ window (take n (d_out d))" "length h = 16 * getnn 11 12 (in_histlen_subc s')" "i_history_len s' \<le> length h"
      "length h \<le> INF_HIS_LEN" "in_crc s' = crc_field (take n (d_out d))" "in_adler s' = adler_field (take n (d_out d))"
    using nx_init_dde_ok [OF assms(1,2)] by metis
  note f = but_job_fields [OF s'(2)]
  define k where "k = min se (length (unread s'))"
  define su where "su = \<lparr>hist_len = length h, job_len = k + length h, job_data = h @ take se (unread s'),
    target_user = min (i_avail_out s') te, target_fifo = te - i_avail_out s'\<rparr>"
  have un: "unread s' = unread s" by (simp add: unread_def f)
  have run: "in_lay s'" "fifo_lay s'" "i_dict_len s' = 0" "drop p (d_in d) = unread s' @ fut" "p \<le> length (d_in d)"
      "n \<le> length (d_out d)" "d_at d p (state_resume s') n"
    using s'(3) by (simp_all add: running_def)
  have k: "0 < k" "k \<le> length (unread s')" "p + k \<le> length (d_in d)"
    using assms(3,4) un arg_cong [OF run(4), of length] run(5) by (auto simp: k_def)
  have out: "nx_set_dde_out te s' = Some (min (i_avail_out s') te, te - i_avail_out s')"
  proof -
    have "309600 \<le> i_len_out s'" "2 * i_cur_out s' \<le> i_len_out s'"
      using run(2) by (simp_all add: fifo_lay_def INF_MAX_EXPANSION_BYTES_def INF_MIN_INPUT_LEN_def INF_MAX_COMPRESSION_RATIO_def)
    then have "te - i_avail_out s' \<le> i_len_out s' - i_cur_out s'" "i_cur_out s' \<le> i_len_out s'"
      using assms(5) f(19) by linarith+
    then show ?thesis using assms(2) f(23) by (simp add: nx_set_dde_out_def Let_def min_def)
  qed
  have "init_dde se te s = Some (su, s')"
    using s'(1) nx_set_dde_in_ok [OF run(1), of se] out k
    by (simp add: init_dde_def Let_def su_def k_def min.commute)
  moreover have "resumes d (job_of su s') p n h k"
  proof -
    have same: "take k (drop p (d_in d)) = take se (unread s')" unfolding run(4) using k(2) by (simp add: k_def min_def)
    have "j_source (job_of su s') = h @ take se (unread s')" by (simp add: job_of_def su_def k_def min_def)
    then have "j_source (job_of su s') = h @ take k (drop p (d_in d))" unfolding same .
    then show ?thesis
      using k run(3,6,7) s'(4,5,8,9) state_resume_job [of s' su] by (simp add: resumes_def) (simp add: job_of_def)
  qed
  then have "setup_ok d p n te su s'"
    unfolding setup_ok_def using k(2) s'(6) by (intro exI [of _ h] exI [of _ k]) (simp add: su_def add.commute)
  ultimately show ?thesis using that s'(2,3) by (simp add: su_def k_def)
qed

section \<open>The answer\<close>

lemma take_put: "k \<le> i \<Longrightarrow> i \<le> length m \<Longrightarrow> take k (put m i bs) = take k m"
  using seg_put_before [of 0 k i m bs] by (simp add: seg_def)

lemma take_answer_ok:
  assumes "running d t p n fut s" and "i_used_out s = 0" and "setup_ok d p n te su s" and "te \<le> i_avail_out s + 40960"
    and "length (r_out r) \<le> target_user su + target_fifo su"
  obtains s' where "take_answer su r s = Some s'" and "running d t p n fut s'" and "setup_ok d p n te su s'"
    and "i_used_out s' = 0" and "i_avail_out s' = i_avail_out s" and "unread s' = unread s"
    and "i_history_len s' = i_history_len s"
    and "out_crc s' = r_crc r" and "out_adler s' = r_adler r"
    and "\<And>m. m \<le> length (r_out r) \<Longrightarrow> m < 2 ^ 31 \<Longrightarrow> placed (take m (r_out r)) s'"
proof -
  define o1 where "o1 = take (target_user su) (r_out r)"
  define o2 where "o2 = drop (target_user su) (r_out r)"
  have tu: "target_user su = min (i_avail_out s) te" "target_fifo su = te - i_avail_out s"
    using assms(3) by (auto simp: setup_ok_def)
  have run: "fifo_lay s" "user_lay s" "out_split t (take n (d_out d)) s" "history_in (take n (d_out d)) s"
    using assms(1) by (simp_all add: running_def)
  have room: "i_next_out s + length o1 \<le> length (i_obuf s)" "i_cur_out s + length o2 \<le> length (i_fifo_out s)"
    using run(1,2) tu assms(4,5)
    by (auto simp: o1_def o2_def user_lay_def fifo_lay_def INF_MAX_EXPANSION_BYTES_def INF_MIN_INPUT_LEN_def INF_MAX_COMPRESSION_RATIO_def)
  define s' where "s' = s\<lparr>i_obuf := put (i_obuf s) (i_next_out s) o1, i_fifo_out := put (i_fifo_out s) (i_cur_out s) o2,
    out_crc := r_crc r, out_adler := r_adler r, jobs := jobs s + 1\<rparr>"
  have take: "take_answer su r s = Some s'"
    using assms(5) room by (simp add: take_answer_def Let_def o1_def [symmetric] o2_def [symmetric] wr_block_put s'_def del: wr_block_Some)
  moreover have "running d t p n fut s'"
  proof -
    define l where "l = length (window (take n (d_out d)))"
    have l: "l \<le> i_cur_out s" using run(1) by (auto simp: l_def length_window fifo_lay_def)
    have "history_in (take n (d_out d)) s'"
      using run(1,4) assms(2) room seg_put_before [of "i_cur_out s - l" l "i_cur_out s" "i_fifo_out s" o2] l
      by (simp add: history_in_def s'_def fifo_lay_def flip: l_def)
    moreover have "fifo_lay s'" "user_lay s'" using run(1,2) room by (simp_all add: fifo_lay_def user_lay_def s'_def)
    moreover have "out_split t (take n (d_out d)) s'"
      using run(3) assms(2) room by (simp add: out_split_def pending_def s'_def take_put)
    moreover have "state_resume s' = state_resume s" "in_lay s' = in_lay s" "unread s' = unread s"
      by (simp_all add: state_resume_def in_lay_def unread_def s'_def)
    ultimately show ?thesis using assms(1) by (simp add: running_def) (simp add: s'_def)
  qed
  moreover have "setup_ok d p n te su s'"
    using assms(3) by (simp add: setup_ok_def job_of_def nx_reset_dde_def unread_def s'_def)
  moreover have "placed (take m (r_out r)) s'" if m: "m \<le> length (r_out r)" "m < 2 ^ 31" for m
  proof (cases "i_avail_out s \<le> te")
    case True
    then have "target_user su = i_avail_out s" using tu by simp
    then have o: "o1 = take (i_avail_out s) (r_out r)" "o2 = drop (i_avail_out s) (r_out r)" by (simp_all add: o1_def o2_def)
    have "seg (i_obuf s') (i_next_out s) (min m (i_avail_out s)) = take (min m (i_avail_out s)) (r_out r)"
      using room seg_prefix [of "min m (i_avail_out s)" "length o1" "i_obuf s'" "i_next_out s"] m(1)
      by (simp add: s'_def seg_put_same o(1))
    moreover have "seg (i_fifo_out s') (i_cur_out s) (m - i_avail_out s) = take (m - i_avail_out s) (drop (i_avail_out s) (r_out r))"
      using room seg_prefix [of "m - i_avail_out s" "length o2" "i_fifo_out s'" "i_cur_out s"] m(1)
      by (simp add: s'_def seg_put_same o(2))
    ultimately show ?thesis
      using m room(2) run(1) o(2) by (simp add: placed_def s'_def drop_take min.commute fifo_lay_def)
  next
    case False
    then have "target_user su = te" "target_fifo su = 0" using tu by simp_all
    then have o: "o1 = r_out r" "length (r_out r) \<le> te" using assms(5) by (simp_all add: o1_def)
    have "seg (i_obuf s') (i_next_out s) m = take m (r_out r)"
      using room seg_prefix [of m "length o1" "i_obuf s'" "i_next_out s"] m(1) by (simp add: s'_def seg_put_same o(1))
    then show ?thesis using m o(2) False run(1) by (simp add: placed_def s'_def fifo_lay_def)
  qed
  ultimately show ?thesis using that assms(2) by (simp add: s'_def unread_def)
qed

section \<open>The submission loop\<close>

text \<open>
  Waiting takes time, and one byte of source fits in 1032 bytes of target, the best ratio that the format allows.
\<close>

definition fair :: "nx_env \<Rightarrow> bool" where
  "fair env \<longleftrightarrow> (\<forall>t. t < nx_wait_ticks env t)
     \<and> (\<forall>i j. r_cc (nx_submit_job env i j) = ERR_NX_TARGET_SPACE \<longrightarrow>
          j_target j < INF_MAX_COMPRESSION_RATIO \<or> 16 * getnn 11 12 (j_histlen_subc j) + 1 < length (j_source j))"

text \<open>The answer \<open>r\<close> to a job that resumes the stream, with \<open>hl\<close> bytes of history and \<open>k\<close> bytes of data.\<close>

definition submitted :: "nx_env \<Rightarrow> deflated \<Rightarrow> nat \<Rightarrow> nat \<Rightarrow> nat \<Rightarrow> nat \<Rightarrow> nx_resp \<Rightarrow> bool" where
  "submitted env d p n hl k r \<longleftrightarrow> (\<exists>i j h. resumes d j p n h k \<and> hl = length h \<and> r = nx_submit_job env i j)"

definition failed :: "nx_resp \<Rightarrow> bool" where
  "failed r \<longleftrightarrow> r_cc r \<noteq> ERR_NX_OK \<and> r_cc r \<noteq> ERR_NX_TARGET_SPACE \<and> \<not> (r_cc r = ERR_NX_DATA_LENGTH \<and> suspended r)"

definition job_end_ok :: "nx_env \<Rightarrow> deflated \<Rightarrow> nat \<Rightarrow> nat \<Rightarrow> nat \<Rightarrow> u8 list \<Rightarrow> nx_core \<Rightarrow> job_end \<Rightarrow> bool" where
  "job_end_ok env d t p n fut s0 e \<longleftrightarrow>
     (case e of
        Aborted \<Rightarrow> False
      | Refused rc s \<Rightarrow> rc = Z_DATA_ERROR \<and> running d t p n fut s \<and> (\<exists>hl k r. submitted env d p n hl k r \<and> failed r)
      | Done su r s \<Rightarrow>
          running d t p n fut s \<and> i_used_out s = 0 \<and> i_avail_out s = i_avail_out s0 \<and> unread s = unread s0
          \<and> out_crc s = r_crc r \<and> out_adler s = r_adler r
          \<and> (r_cc r = ERR_NX_OK \<or> r_cc r = ERR_NX_DATA_LENGTH \<and> suspended r)
          \<and> (\<exists>k. 0 < k \<and> k \<le> length (unread s) \<and> submitted env d p n (hist_len su) k r)
          \<and> (\<forall>m. m \<le> length (r_out r) \<longrightarrow> m < 2 ^ 31 \<longrightarrow> placed (take m (r_out r)) s))"

lemma fewer_source_bounds: "0 < n \<Longrightarrow> 0 < fewer_source n \<and> fewer_source n \<le> n"
  by (auto simp: fewer_source_def INF_MIN_INPUT_LEN_def)

lemma fewer_target_bounds: "INF_MAX_COMPRESSION_RATIO \<le> n \<Longrightarrow> INF_MAX_COMPRESSION_RATIO \<le> fewer_target n \<and> fewer_target n \<le> n"
  by (auto simp: fewer_target_def INF_MAX_EXPANSION_BYTES_def INF_MIN_INPUT_LEN_def INF_MAX_COMPRESSION_RATIO_def)

lemma produces_fits:
  "produces d n n' r \<Longrightarrow> length (r_out r) \<le> x \<Longrightarrow> r_tpbc r \<le> x"
  by (simp add: produces_def)

lemma submit_loop_ok:
  assumes "engine_ok env d" and "fair env"
    and "running d t p n fut s" and "i_used_out s = 0" and "unread s \<noteq> []" and "0 < se"
    and "INF_MAX_COMPRESSION_RATIO \<le> te" and "te \<le> i_avail_out s + 40960"
    and "\<And>su. prepared = Some su \<Longrightarrow> setup_ok d p n te su s \<and> job_len su - hist_len su \<le> se"
  shows "\<exists>e. submit_loop env se te ticks prepared s = Some e \<and> job_end_ok env d t p n fut s e"
  using assms(3-9)
proof (induction "timeout_ticks env + 1 - ticks + se" arbitrary: se te ticks prepared s rule: less_induct)
  case less
  obtain su u where prep: "(case prepared of None \<Rightarrow> init_dde se te s | Some su \<Rightarrow> Some (su, s)) = Some (su, u)"
    and u: "running d t p n fut u" "but_job u = but_job s" "setup_ok d p n te su u" "job_len su - hist_len su \<le> se"
  proof (cases prepared)
    case None
    show ?thesis by (rule init_dde_ok [OF less.prems(1-4) less.prems(6)]) (use None that in simp)
  next
    case (Some su)
    then show ?thesis using that less.prems(1,7) by simp
  qed
  note f = but_job_fields [OF u(2)]
  define j where "j = job_of su u"
  define r where "r = nx_submit_job env (jobs u) j"
  obtain h k where hk: "resumes d j p n h k" "hist_len su = length h" "job_len su = length h + k" "k \<le> length (unread u)"
      "i_history_len u \<le> length h" "target_user su = min (i_avail_out u) te" "target_fifo su = te - i_avail_out u"
    using u(3) unfolding setup_ok_def j_def by blast
  have k: "0 < k" "k \<le> se" "job_len su - hist_len su = k" using hk(1-3) u(4) by (simp_all add: resumes_def)
  have tgt: "target_user su + target_fifo su = te" using hk(6,7) by simp
  have sent: "submitted env d p n (length h) k r" using hk(1) unfolding submitted_def r_def by blast
  have ans: "answers d j p n (length h) k r" using assms(1) hk(1) by (simp add: engine_ok_def r_def)
  have len: "length (r_out r) \<le> te" using ans tgt by (simp add: answers_def j_def job_of_def)
  have te: "te \<le> i_avail_out u + 40960" "i_used_out u = 0" using less.prems(2,6) f by simp_all
  obtain v where v: "take_answer su r u = Some v" "running d t p n fut v" "setup_ok d p n te su v" "i_used_out v = 0"
      "i_avail_out v = i_avail_out u" "unread v = unread u" "i_history_len v = i_history_len u" "out_crc v = r_crc r" "out_adler v = r_adler r"
      "\<And>m. m \<le> length (r_out r) \<Longrightarrow> m < 2 ^ 31 \<Longrightarrow> placed (take m (r_out r)) v"
    using take_answer_ok [OF u(1) te(2) u(3) te(1), of r] len tgt by metis
  have un: "unread v = unread s" "i_avail_out v = i_avail_out s" using v(5,6) by (simp_all add: unread_def f)
  have done_ok: "job_end_ok env d t p n fut s (Done su r v)" if "r_cc r = ERR_NX_OK \<or> r_cc r = ERR_NX_DATA_LENGTH \<and> suspended r"
    unfolding job_end_ok_def using v un hk(2,4) sent k(1) that by auto
  have refused: "job_end_ok env d t p n fut s (Refused Z_DATA_ERROR v)" if "failed r"
    using v(2) sent that by (auto simp: job_end_ok_def)
  have body: "submit_loop env se te ticks prepared s =
      (if r_cc r = ERR_NX_AT_FAULT then
         if ticks = 0 then submit_loop env se te (nx_wait_ticks env ticks) (Some su) v
         else if timeout_ticks env < nx_wait_ticks env ticks then Some (data_length su r v)
         else submit_loop env (fewer_source k) (fewer_target te) (nx_wait_ticks env ticks) None v
       else if r_cc r = ERR_NX_DATA_LENGTH then Some (data_length su r v)
       else if r_cc r = ERR_NX_TARGET_SPACE then submit_loop env (fewer_source ((k + 1) div 2)) te ticks None v
       else if r_cc r = ERR_NX_OK then
         (if r_tpbc r \<le> te \<and> i_history_len v \<le> r_spbc r then Some (Done su r v) else Some Aborted)
       else Some (Refused Z_DATA_ERROR v))"
    by (subst submit_loop.simps) (simp add: prep v(1) k(3) tgt Let_def flip: j_def r_def)
  have wait: "ticks < nx_wait_ticks env ticks" using assms(2) by (simp add: fair_def)
  have again: "\<exists>e. submit_loop env se' te' ticks' prepared' v = Some e \<and> job_end_ok env d t p n fut s e"
    if "timeout_ticks env + 1 - ticks' + se' < timeout_ticks env + 1 - ticks + se" "0 < se'" "INF_MAX_COMPRESSION_RATIO \<le> te'" "te' \<le> te"
      "\<And>su. prepared' = Some su \<Longrightarrow> setup_ok d p n te' su v \<and> job_len su - hist_len su \<le> se'" for se' te' ticks' prepared'
  proof -
    note bound = that
    have "te' \<le> i_avail_out v + 40960" using that(4) te(1) v(5) by simp
    moreover have "unread v \<noteq> []" using less.prems(3) un by simp
    ultimately obtain e where "submit_loop env se' te' ticks' prepared' v = Some e" "job_end_ok env d t p n fut v e"
      using less.hyps [OF bound(1) v(2,4) _ bound(2,3) _ bound(5)] by blast
    moreover have "job_end_ok env d t p n fut v e = job_end_ok env d t p n fut s e" unfolding job_end_ok_def un ..
    ultimately show ?thesis by simp
  qed
  consider (fault0) "r_cc r = ERR_NX_AT_FAULT" "ticks = 0"
    | (fault) "r_cc r = ERR_NX_AT_FAULT" "0 < ticks" "nx_wait_ticks env ticks \<le> timeout_ticks env"
    | (late) "r_cc r = ERR_NX_AT_FAULT" "0 < ticks" "timeout_ticks env < nx_wait_ticks env ticks"
    | (space) "r_cc r = ERR_NX_TARGET_SPACE" | (part) "r_cc r = ERR_NX_DATA_LENGTH" | (ok) "r_cc r = ERR_NX_OK"
    | (other) "r_cc r \<notin> {ERR_NX_AT_FAULT, ERR_NX_TARGET_SPACE, ERR_NX_DATA_LENGTH, ERR_NX_OK}"
    using not_le by blast
  then show ?case
  proof cases
    case fault0
    have "\<exists>e. submit_loop env se te (nx_wait_ticks env ticks) (Some su) v = Some e \<and> job_end_ok env d t p n fut s e"
      by (rule again) (use fault0 wait less.prems(4,5) v(3) u(4) in auto)
    then show ?thesis unfolding body using fault0 by simp
  next
    case fault
    have "\<exists>e. submit_loop env (fewer_source k) (fewer_target te) (nx_wait_ticks env ticks) None v = Some e \<and> job_end_ok env d t p n fut s e"
      by (rule again) (use fault wait fewer_source_bounds [OF k(1)] k(2) fewer_target_bounds [OF less.prems(5)] in auto)
    then show ?thesis unfolding body using fault by simp
  next
    case late
    have "data_length su r v = Refused Z_DATA_ERROR v"
      using ans late by (auto simp: data_length_def Let_def answers_def suspended_def)
    moreover have "failed r" using late by (simp add: failed_def err_nx_codes)
    ultimately show ?thesis unfolding body using late refused by simp
  next
    case space
    have "1 < k"
    proof -
      have "\<not> j_target j < INF_MAX_COMPRESSION_RATIO" using tgt less.prems(5) by (simp add: j_def job_of_def)
      then have "16 * getnn 11 12 (j_histlen_subc j) + 1 < length (j_source j)"
        using assms(2) space unfolding fair_def r_def by blast
      then show ?thesis using hk(1) by (simp add: resumes_def)
    qed
    then have less_k: "0 < (k + 1) div 2" "(k + 1) div 2 < k" by auto
    have "\<exists>e. submit_loop env (fewer_source ((k + 1) div 2)) te ticks None v = Some e \<and> job_end_ok env d t p n fut s e"
      by (rule again) (use fewer_source_bounds [OF less_k(1)] less_k(2) k(2) less.prems(5) in auto)
    then show ?thesis unfolding body using space by (simp add: err_nx_codes)
  next
    case part
    have "data_length su r v = (if suspended r then Done su r v else Refused Z_DATA_ERROR v)"
    proof (cases "suspended r")
      case True
      then have "r_tpbc r \<le> te" using ans part len produces_fits unfolding answers_def by (metis (no_types, lifting))
      then show ?thesis using True tgt by (simp add: data_length_def Let_def suspended_def)
    next
      case False
      then show ?thesis by (auto simp: data_length_def Let_def suspended_def)
    qed
    moreover have "\<not> suspended r \<Longrightarrow> failed r" using part by (simp add: failed_def err_nx_codes)
    ultimately show ?thesis unfolding body using part done_ok refused by (simp add: err_nx_codes)
  next
    case ok
    have "r_tpbc r \<le> te" "r_spbc r = length h + k" using ans ok len produces_fits by (auto simp: answers_def)
    moreover have "i_history_len v \<le> length h" using v(7) hk(5) by simp
    ultimately show ?thesis unfolding body using ok done_ok by (simp add: err_nx_codes)
  next
    case other
    moreover from this have "failed r" by (simp add: failed_def)
    ultimately show ?thesis unfolding body using refused by simp
  qed
qed

end
