(* ===== verification/InflateStream.thy ===== *)
theory InflateStream
  imports InflateJob Crc32Correct
begin

text \<open>
  The main loop of \<^verbatim>\<open>nx_inflate_\<close> and a session of calls: whatever pieces the input comes in and whatever
  room there is for the output, the user gets the decompressed data.
\<close>

section \<open>After the switch\<close>

lemma find_sync_point_ok:
  assumes "in_lay s" and "0 < k" and "k \<le> length (unread s)" and "(subc + 7) div 8 \<le> k"
  shows "\<exists>b. find_sync_point env k subc s = Some (s\<lparr>sync_point := b\<rparr>)"
proof -
  have "\<exists>b c. last_bytes env k s = Some (b, c) \<and> (8 < subc \<longrightarrow> c \<noteq> None)"
  proof (cases "k \<le> i_used_in s")
    case True
    then have lay: "i_cur_in s + i_used_in s \<le> length (fifo_in s)" using assms(1,2) by (auto simp: in_lay_def split: if_splits)
    have "8 < subc \<Longrightarrow> 1 < k" using assms(4) by auto
    then show ?thesis
      using True lay assms(2) by (auto simp: last_bytes_def)
  next
    case False
    then show ?thesis
      using assms(1,3) by (auto simp: last_bytes_def length_unread)
  qed
  then obtain b c where bc: "last_bytes env k s = Some (b, c)" "8 < subc \<longrightarrow> c \<noteq> None" by blast
  have self: "\<exists>b. s = s\<lparr>sync_point := b\<rparr>" by (rule exI [of _ "sync_point s"]) simp
  show ?thesis
  proof (cases "8 < subc")
    case True
    then obtain c' where "c = Some c'" using bc(2) by auto
    then show ?thesis using True bc(1) by (auto simp: find_sync_point_def self)
  next
    case False
    then show ?thesis using bc(1) by (auto simp: find_sync_point_def self)
  qed
qed

lemma read_resume_set:
  assumes "sfbt < 16"
  shows "getnn 15 4 (put_in_sfbt sfbt 0) = sfbt" and "getnn 31 3 (put_in_subc (subc mod 8) 0) = subc mod 8"
    and "x < 2 ^ 16 \<Longrightarrow> getnn 31 16 (put_in_rembytecnt x w) = x" and "getnn 15 4 (put_in_rembytecnt x w) = getnn 15 4 w"
    and "x < 2 ^ 12 \<Longrightarrow> getnn 31 12 (put_in_dhtlen x w) = x" and "getnn 15 4 (put_in_dhtlen x w) = getnn 15 4 w"
  using assms by (simp_all add: getnn_putnn getnn_putnn_other)

text \<open>What the software passes on is where the accelerator stopped.\<close>

definition res_of :: "nx_core \<Rightarrow> resume" where
  "res_of s = read_resume (getnn 15 4 (in_sfbt_rem s)) (getnn 31 3 (in_histlen_subc s)) (in_sfbt_rem s) (in_dht s)"

definition but_res :: "nx_core \<Rightarrow> nx_core" where
  "but_res s = s\<lparr>in_histlen_subc := 0, in_sfbt_rem := 0, in_dht := [], sync_point := 0\<rparr>"

lemma ok_cc3_resume:
  assumes "in_lay s" and "length (in_dht s) = 18" and "0 < k" and "k \<le> length (unread s)" and "r_spbc r = hist_len su + k"
    and "get_out_sfbt (r_sfbt_rem r) = sfbt" and "get_out_subc (r_subc_word r) = subc" and "8 \<le> sfbt" and "(subc + 7) div 8 \<le> k"
    and "sfbt \<in> {12, 13} \<Longrightarrow> 42 \<le> get_out_dhtlen (r_sfbt_rem r) \<and> get_out_dhtlen (r_sfbt_rem r) \<le> 18 * 128 \<and> length (r_dht r) = 18"
  obtains s' where "ok_cc3 env su r s = Some (k - (subc + 7) div 8, subc, s')" and "but_res s' = but_res s"
    and "length (in_dht s') = 18" and "res_of s' = resp_resume r"
proof -
  have less: "sfbt < 16" "get_out_rembytecnt (r_sfbt_rem r) < 2 ^ 16" "get_out_dhtlen (r_sfbt_rem r) < 2 ^ 12"
    using getnn_less [of 4 15 "r_sfbt_rem r"] getnn_less [of 16 31 "r_sfbt_rem r"] getnn_less [of 12 31 "r_sfbt_rem r"] assms(6) by simp_all
  note get = read_resume_set [OF less(1)]
  have src: "ptr_minus k ((subc + 7) div 8) = Some (k - (subc + 7) div 8)" "hist_len su < r_spbc r" "r_spbc r - hist_len su = k"
    using assms(3,5,9) by simp_all
  have resp: "resp_resume r = read_resume sfbt (subc mod 8) (r_sfbt_rem r) (r_dht r)"
    by (simp add: resp_resume_def assms(6,7))
  consider (lit) "sfbt = 8 \<or> sfbt = 9" | (fixed) "sfbt = 10 \<or> sfbt = 11" | (dyn) "sfbt = 12 \<or> sfbt = 13" | (hdr) "sfbt = 14 \<or> sfbt = 15"
    using assms(8) less(1) by linarith
  then show ?thesis
  proof cases
    case lit
    let ?s = "(set_resume subc sfbt s)\<lparr>in_sfbt_rem := put_in_rembytecnt (get_out_rembytecnt (r_sfbt_rem r)) (put_in_sfbt sfbt 0)\<rparr>"
    have "ok_cc3 env su r s = Some (k - (subc + 7) div 8, subc, ?s)"
      using lit src by (elim disjE) (simp_all add: ok_cc3_def Let_def assms(6,7) set_resume_def clear_resume_def)
    moreover have "res_of ?s = resp_resume r"
      using lit less get by (elim disjE) (simp_all add: resp res_of_def read_resume_def set_resume_def clear_resume_def Let_def)
    ultimately show ?thesis using that [of ?s] assms(2) by (simp add: but_res_def set_resume_def clear_resume_def Let_def)
  next
    case fixed
    let ?s = "set_resume subc sfbt s"
    have "ok_cc3 env su r s = Some (k - (subc + 7) div 8, subc, ?s)"
      using fixed src by (elim disjE) (simp_all add: ok_cc3_def Let_def assms(6,7))
    moreover have "res_of ?s = resp_resume r"
      using fixed less get by (elim disjE) (simp_all add: resp res_of_def read_resume_def set_resume_def clear_resume_def Let_def)
    ultimately show ?thesis using that [of ?s] assms(2) by (simp add: but_res_def set_resume_def clear_resume_def Let_def)
  next
    case dyn
    define n where "n = (get_out_dhtlen (r_sfbt_rem r) + 127) div 128"
    have len: "42 \<le> get_out_dhtlen (r_sfbt_rem r)" "n \<le> 18" "length (r_dht r) = 18"
      using assms(10) dyn by (auto simp: n_def)
    let ?s = "(set_resume subc sfbt s)\<lparr>in_sfbt_rem := put_in_dhtlen (get_out_dhtlen (r_sfbt_rem r)) (put_in_sfbt sfbt 0),
      in_dht := take n (r_dht r) @ drop n (in_dht s)\<rparr>"
    have "ok_cc3 env su r s = Some (k - (subc + 7) div 8, subc, ?s)"
      using dyn src len assms(2) copy_dht_ok [of n "r_dht r" "in_dht s"]
      by (elim disjE) (simp_all add: ok_cc3_def Let_def assms(6,7) set_resume_def clear_resume_def n_def [symmetric])
    moreover have "res_of ?s = resp_resume r"
      using dyn less get len(2,3) assms(2)
      by (elim disjE) (simp_all add: resp res_of_def read_resume_def set_resume_def clear_resume_def Let_def n_def [symmetric])
    ultimately show ?thesis using that [of ?s] assms(2) len(2,3) by (simp add: but_res_def set_resume_def clear_resume_def Let_def)
  next
    case hdr
    obtain b where b: "(if sfbt = 14 then find_sync_point env k subc s else Some s) = Some (s\<lparr>sync_point := b\<rparr>)"
    proof (cases "sfbt = 14")
      case True
      then show ?thesis using find_sync_point_ok [OF assms(1,3,4,9), of env] that by auto
    next
      case False
      then show ?thesis using that [of "sync_point s"] by simp
    qed
    let ?s = "set_resume subc sfbt (s\<lparr>sync_point := b\<rparr>)"
    have "ok_cc3 env su r s = Some (k - (subc + 7) div 8, subc, ?s)"
      using hdr src b by (elim disjE) (simp_all add: ok_cc3_def Let_def assms(6,7))
    moreover have "res_of ?s = resp_resume r"
      using hdr less get by (elim disjE) (simp_all add: resp res_of_def read_resume_def set_resume_def clear_resume_def Let_def)
    ultimately show ?thesis using that [of ?s] assms(2) by (simp add: but_res_def set_resume_def clear_resume_def Let_def)
  qed
qed

lemma but_res_fields:
  assumes "but_res s' = but_res s"
  shows "i_next_in s' = i_next_in s" "fifo_in s' = fifo_in s" "len_in s' = len_in s" "i_cur_in s' = i_cur_in s"
    "i_used_in s' = i_used_in s" "i_wrap s' = i_wrap s" "is_final s' = is_final s" "resuming s' = resuming s"
    "i_dict_len s' = i_dict_len s" "trailer s' = trailer s" "trailer_len s' = trailer_len s" "i_crc32 s' = i_crc32 s"
    "i_adler32 s' = i_adler32 s" "out_crc s' = out_crc s" "out_adler s' = out_adler s" "i_len_out s' = i_len_out s"
    "i_obuf s' = i_obuf s" "i_next_out s' = i_next_out s" "i_avail_out s' = i_avail_out s" "i_total_out s' = i_total_out s"
    "i_fifo_out s' = i_fifo_out s" "i_cur_out s' = i_cur_out s" "i_used_out s' = i_used_out s" "i_history_len s' = i_history_len s"
    "inf_state s' = inf_state s"
  using assms by (cases s; cases s'; simp add: but_res_def)+

section \<open>Accounting\<close>

lemma update_checksum_fields [simp]:
  "i_next_in (nx_inflate_update_checksum s) = i_next_in s" "fifo_in (nx_inflate_update_checksum s) = fifo_in s"
  "len_in (nx_inflate_update_checksum s) = len_in s" "i_cur_in (nx_inflate_update_checksum s) = i_cur_in s"
  "i_used_in (nx_inflate_update_checksum s) = i_used_in s" "i_wrap (nx_inflate_update_checksum s) = i_wrap s"
  "is_final (nx_inflate_update_checksum s) = is_final s" "resuming (nx_inflate_update_checksum s) = resuming s"
  "trailer (nx_inflate_update_checksum s) = trailer s" "trailer_len (nx_inflate_update_checksum s) = trailer_len s"
  "i_crc32 (nx_inflate_update_checksum s) = out_crc s" "i_adler32 (nx_inflate_update_checksum s) = out_adler s"
  "out_crc (nx_inflate_update_checksum s) = out_crc s" "out_adler (nx_inflate_update_checksum s) = out_adler s"
  "in_dht (nx_inflate_update_checksum s) = in_dht s" "in_sfbt_rem (nx_inflate_update_checksum s) = in_sfbt_rem s"
  "in_histlen_subc (nx_inflate_update_checksum s) = in_histlen_subc s" "i_fifo_out (nx_inflate_update_checksum s) = i_fifo_out s"
  "i_len_out (nx_inflate_update_checksum s) = i_len_out s" "i_cur_out (nx_inflate_update_checksum s) = i_cur_out s"
  "i_used_out (nx_inflate_update_checksum s) = i_used_out s" "i_obuf (nx_inflate_update_checksum s) = i_obuf s"
  "i_next_out (nx_inflate_update_checksum s) = i_next_out s" "i_avail_out (nx_inflate_update_checksum s) = i_avail_out s"
  "i_total_out (nx_inflate_update_checksum s) = i_total_out s" "inf_state (nx_inflate_update_checksum s) = inf_state s"
  by (simp_all add: nx_inflate_update_checksum_def Let_def)

lemma account_job_ok:
  assumes "in_lay s" and "fifo_lay s" and "user_lay s" and "i_used_out s = 0" and "out_split t xs s" and "history_in xs s"
    and "placed ns s" and "n \<le> length (unread s)"
  obtains s' where "account_job (i_avail_out s) n (length ns) starved s = Some s'"
    and "in_lay s'" and "fifo_lay s'" and "user_lay s'" and "unread s' = drop n (unread s)" and "out_split t (xs @ ns) s'"
    and "is_final s = 0 \<Longrightarrow> history_in (xs @ ns) s'" and "i_history_len s' = length (window (xs @ ns))"
    and "is_final s' = is_final s" and "i_dict_len s' = 0" and "resuming s' = (if is_final s = 0 then 1 else resuming s)"
    and "i_crc32 s' = out_crc s" and "i_adler32 s' = out_adler s" and "out_crc s' = out_crc s" and "out_adler s' = out_adler s"
    and "in_dht s' = in_dht s" and "res_of s' = res_of s"
    and "trailer s' = trailer s" and "trailer_len s' = trailer_len s" and "i_wrap s' = i_wrap s" and "inf_state s' = inf_state s"
    and "i_used_out s' = length ns - i_avail_out s" and "i_avail_out s' = i_avail_out s - length ns"
proof -
  obtain s1 where s1: "use_source n s = Some s1" "in_lay s1" "unread s1 = drop n (unread s)" "but_in s1 = but_in s"
    using use_source_ok [OF assms(1,8)] by metis
  note f1 = but_in_fields [OF s1(4)]
  define s2 where "s2 = nx_inflate_update_checksum s1"
  have f2: "fifo_lay s2 = fifo_lay s" "user_lay s2 = user_lay s" "out_split t xs s2 = out_split t xs s" "history_in xs s2 = history_in xs s"
    "placed ns s2 = placed ns s" "i_used_out s2 = i_used_out s" "i_avail_out s2 = i_avail_out s" "is_final s2 = is_final s"
    "in_lay s2 = in_lay s1" "unread s2 = unread s1" "resuming s2 = resuming s" "i_crc32 s2 = out_crc s" "i_adler32 s2 = out_adler s"
    "out_crc s2 = out_crc s" "out_adler s2 = out_adler s" "in_dht s2 = in_dht s" "in_sfbt_rem s2 = in_sfbt_rem s"
    "in_histlen_subc s2 = in_histlen_subc s" "trailer s2 = trailer s" "trailer_len s2 = trailer_len s" "i_wrap s2 = i_wrap s"
    "inf_state s2 = inf_state s"
    using f1 by (simp_all add: s2_def fifo_lay_def user_lay_def out_split_def pending_def
        history_in_def placed_def in_lay_def unread_def)
  obtain s3 where s3: "keep_history (length ns) (i_avail_out s) s2 = Some s3" "fifo_lay s3" "user_lay s3" "out_split t (xs @ ns) s3"
      "but_out s3 = but_out s2" "is_final s2 = 0 \<Longrightarrow> history_in (xs @ ns) s3"
      "i_used_out s3 = length ns - i_avail_out s" "i_avail_out s3 = i_avail_out s - length ns"
    using keep_history_ok [of s2 t xs ns] assms f2 by metis
  note f3 = but_out_fields [OF s3(5)]
  have hl: "min (i_total_out s3 + i_used_out s3) INF_HIS_LEN = length (window (xs @ ns))"
    using s3(4) by (simp add: length_window out_split_def)
  define ratio where "ratio = (if n \<noteq> 0 \<or> length ns \<noteq> 0 then new_ratio n (length ns) else if starved then 1000 else last_comp_ratio s3)"
  define s' where "s' = s3\<lparr>i_history_len := length (window (xs @ ns)), last_comp_ratio := ratio,
    resuming := (if is_final s = 0 then 1 else resuming s), i_dict_len := 0\<rparr>"
  have "account_job (i_avail_out s) n (length ns) starved s = Some s'"
    using s1(1) s3(1) f3(8,9) f2(8,11) by (simp add: account_job_def s2_def [symmetric] Let_def hl s'_def ratio_def)
  moreover have "in_lay s' = in_lay s2" "unread s' = unread s2" by (simp_all add: in_lay_def unread_def s'_def f3)
  then have "in_lay s'" "unread s' = drop n (unread s)" using s1(2,3) f2(9,10) by simp_all
  moreover have "fifo_lay s'" "user_lay s'" using s3(2,3) by (simp_all add: fifo_lay_def user_lay_def s'_def)
  moreover have "out_split t (xs @ ns) s'" using s3(4) by (simp add: out_split_def pending_def s'_def)
  moreover have "is_final s = 0 \<Longrightarrow> history_in (xs @ ns) s'" using s3(6) f2(8) by (simp add: history_in_def s'_def)
  moreover have "res_of s' = res_of s" using f3(18,19,20) f2(16-18) by (simp add: res_of_def s'_def)
  moreover have "i_history_len s' = length (window (xs @ ns))" "is_final s' = is_final s" "i_dict_len s' = 0"
    "resuming s' = (if is_final s = 0 then 1 else resuming s)" "i_crc32 s' = out_crc s" "i_adler32 s' = out_adler s"
    "out_crc s' = out_crc s" "out_adler s' = out_adler s" "in_dht s' = in_dht s"
    "trailer s' = trailer s" "trailer_len s' = trailer_len s" "i_wrap s' = i_wrap s" "inf_state s' = inf_state s"
    "i_used_out s' = length ns - i_avail_out s" "i_avail_out s' = i_avail_out s - length ns"
    by (simp_all add: s'_def f2 f3 s3(7,8))
  ultimately show ?thesis by (intro that [of s'])
qed

section \<open>Behind the data\<close>

definition trailer_ok :: "deflated \<Rightarrow> bool" where
  "trailer_ok d \<longleftrightarrow> d_end d + trailer_need (d_wrap d) \<le> length (d_in d)
     \<and> (d_wrap d = HEADER_GZIP \<longrightarrow> le32 (drop (d_end d) (d_in d)) 0 = crc_ref (d_out d) 0
          \<and> le32 (drop (d_end d) (d_in d)) 4 = word_of_nat (length (d_out d)))
     \<and> (d_wrap d = HEADER_ZLIB \<longrightarrow> le32 (drop (d_end d) (d_in d)) 0 = bswap_32 (adler_field (d_out d)))"

text \<open>All data is decompressed; the trailer may be there in part, and output may be pending.\<close>

definition ended :: "deflated \<Rightarrow> nat \<Rightarrow> u8 list \<Rightarrow> nx_core \<Rightarrow> bool" where
  "ended d t fut s \<longleftrightarrow>
     inf_state s = inf_state_inflate \<and> in_lay s \<and> fifo_lay s \<and> user_lay s \<and> i_wrap s = d_wrap d \<and> is_final s = 1 \<and> length (trailer s) = 9
     \<and> trailer_len s \<le> trailer_need (d_wrap d)
     \<and> (trailer_len s = 0 \<or> i_used_in s = 0 \<or> trailer_len s = trailer_need (d_wrap d))
     \<and> take (trailer_len s) (trailer s) = take (trailer_len s) (drop (d_end d) (d_in d))
     \<and> drop (d_end d + trailer_len s) (d_in d) = unread s @ fut \<and> d_end d + trailer_len s \<le> length (d_in d)
     \<and> out_split t (d_out d) s \<and> out_crc s = crc_field (d_out d) \<and> out_adler s = adler_field (d_out d)"

lemma trailer_copy_ended:
  assumes "ended d t fut s"
  obtains s' where "trailer_copy s = Some s'" and "ended d t fut s'" and "i_used_out s' = i_used_out s"
    and "trailer_len s' < trailer_need (d_wrap d) \<Longrightarrow> unread s' = []"
proof -
  have e: "in_lay s" "i_wrap s = d_wrap d" "length (trailer s) = 9" "trailer_len s \<le> trailer_need (d_wrap d)"
    "trailer_len s = 0 \<or> i_used_in s = 0 \<or> trailer_len s = trailer_need (d_wrap d)"
    "take (trailer_len s) (trailer s) = take (trailer_len s) (drop (d_end d) (d_in d))"
    "drop (d_end d + trailer_len s) (d_in d) = unread s @ fut"
    using assms by (simp_all add: ended_def)
  obtain s' k where s': "trailer_copy s = Some s'" "in_lay s'" "k \<le> length (unread s)" "unread s' = drop k (unread s)"
      "length (trailer s') = 9" "trailer_len s' = trailer_len s + k" "trailer_len s' \<le> trailer_need (d_wrap d)"
      "take (trailer_len s') (trailer s') = take (trailer_len s) (trailer s) @ take k (unread s)"
      "but_in (s'\<lparr>trailer := [], trailer_len := 0\<rparr>) = but_in (s\<lparr>trailer := [], trailer_len := 0\<rparr>)"
      "trailer_len s' < trailer_need (d_wrap d) \<Longrightarrow> unread s' = []"
    using trailer_copy_ok [of s] e(1-5) by metis
  note f = but_in_fields [OF s'(9), simplified]
  have "take k (unread s) = take k (drop (d_end d + trailer_len s) (d_in d))" using e(7) s'(3) by simp
  moreover have "take (trailer_len s') (drop (d_end d) (d_in d))
      = take (trailer_len s) (drop (d_end d) (d_in d)) @ take k (drop (d_end d + trailer_len s) (d_in d))"
    unfolding s'(6) take_add by (simp add: add.commute)
  ultimately have "take (trailer_len s') (trailer s') = take (trailer_len s') (drop (d_end d) (d_in d))"
    using s'(8) e(6) by simp
  moreover have "drop (d_end d + trailer_len s') (d_in d) = unread s' @ fut"
    using arg_cong [OF e(7), of "drop k"] s'(3,4,6) by (simp add: ac_simps)
  moreover have "d_end d + trailer_len s \<le> length (d_in d)" using assms by (simp add: ended_def)
  then have "d_end d + trailer_len s' \<le> length (d_in d)"
    using arg_cong [OF e(7), of length] s'(3,6) by auto
  moreover have "trailer_len s' = 0 \<or> i_used_in s' = 0 \<or> trailer_len s' = trailer_need (d_wrap d)"
    using s'(2,7,10) length_unread [of s'] by (cases "trailer_len s' < trailer_need (d_wrap d)") simp_all
  ultimately have "ended d t fut s'"
    using assms s'(2,5,7) f by (simp add: ended_def fifo_lay_def user_lay_def out_split_def pending_def)
  then show ?thesis using that [OF s'(1)] s'(10) f(23) by simp
qed

lemma le32_take: "i + 4 \<le> n \<Longrightarrow> n \<le> length xs \<Longrightarrow> le32 (take n xs) i = le32 xs i"
  by (simp add: le32_def)

lemma le32_eq: "take n xs = take n ys \<Longrightarrow> i + 4 \<le> n \<Longrightarrow> n \<le> length xs \<Longrightarrow> n \<le> length ys \<Longrightarrow> le32 xs i = le32 ys i"
  using le32_take [of i n xs] le32_take [of i n ys] by simp

text \<open>The verdict, once the user has all of the data.\<close>

lemma trailer_compare_ended:
  assumes "ended d t fut s" and "i_used_out s = 0"
  shows "ended d t fut (snd (trailer_compare s))" and "i_used_out (snd (trailer_compare s)) = 0"
    and "fst (trailer_compare s) = (if trailer_len s < trailer_need (d_wrap d) then Z_OK else if trailer_ok d then Z_STREAM_END else Z_STREAM_ERROR)"
proof -
  let ?x = "drop (d_end d) (d_in d)"
  have e: "i_wrap s = d_wrap d" "length (trailer s) = 9" "trailer_len s \<le> trailer_need (d_wrap d)"
    "take (trailer_len s) (trailer s) = take (trailer_len s) ?x" "d_end d + trailer_len s \<le> length (d_in d)"
    "out_crc s = crc_field (d_out d)" "out_adler s = adler_field (d_out d)" "i_total_out s = length (d_out d)"
    using assms by (simp_all add: ended_def out_split_def)
  have codes: "HEADER_ZLIB \<noteq> HEADER_GZIP" by (simp add: header_codes)
  have len: "trailer_len s = m \<Longrightarrow> m \<le> length ?x" for m using e(5) by simp
  have tail: "trailer_len s = m \<Longrightarrow> i + 4 \<le> m \<Longrightarrow> m \<le> 8 \<Longrightarrow> le32 (trailer s) i = le32 ?x i" for m i
    using le32_eq [of m "trailer s" ?x i] e(2,4) len by simp
  have crc: "bswap_32 (out_crc s) = crc_ref (d_out d) 0" unfolding e(6) crc_field_def by (rule bswap_bswap)
  show "fst (trailer_compare s) = (if trailer_len s < trailer_need (d_wrap d) then Z_OK else if trailer_ok d then Z_STREAM_END else Z_STREAM_ERROR)"
    using e(1,3,5,7,8) codes tail [of 8] tail [of 4] len crc
    by (auto simp: trailer_compare_def trailer_ok_def trailer_need_def split: if_splits)
  have "i_used_out (nx_inflate_update_checksum s) = 0 \<and> ended d t fut (nx_inflate_update_checksum s)"
    using assms by (simp add: ended_def in_lay_def fifo_lay_def user_lay_def out_split_def pending_def unread_def)
  then show "ended d t fut (snd (trailer_compare s))" "i_used_out (snd (trailer_compare s)) = 0"
    using assms by (auto simp: trailer_compare_def)
qed

text \<open>
  What a round leaves and what a call returns. A call gives up, with \<open>Z_STREAM_ERROR\<close>, after 65534 rounds.
\<close>

definition midway :: "deflated \<Rightarrow> nat \<Rightarrow> u8 list \<Rightarrow> nx_core \<Rightarrow> bool" where
  "midway d t fut s \<longleftrightarrow> (\<exists>p n. running d t p n fut s)"

definition ended_rc :: "deflated \<Rightarrow> nx_core \<Rightarrow> int \<Rightarrow> bool" where
  "ended_rc d s rc \<longleftrightarrow>
     rc = (if 0 < i_used_out s \<or> trailer_len s < trailer_need (d_wrap d) then Z_OK
           else if trailer_ok d then Z_STREAM_END else Z_STREAM_ERROR)"

definition stopped :: "deflated \<Rightarrow> nat \<Rightarrow> u8 list \<Rightarrow> int \<Rightarrow> nx_core \<Rightarrow> bool" where
  "stopped d t fut rc s \<longleftrightarrow>
     midway d t fut s \<and> rc \<in> {Z_OK, Z_MEM_ERROR, Z_DATA_ERROR, Z_STREAM_ERROR}
     \<or> ended d t fut s \<and> (ended_rc d s rc \<or> 0 < i_used_out s \<and> rc = Z_STREAM_ERROR)"

definition round_ok :: "deflated \<Rightarrow> nat \<Rightarrow> u8 list \<Rightarrow> inf_round \<Rightarrow> bool" where
  "round_ok d t fut r \<longleftrightarrow>
     (case r of Crash \<Rightarrow> False | Stop rc s \<Rightarrow> stopped d t fut rc s | Round s \<Rightarrow> midway d t fut s \<or> ended d t fut s \<and> 0 < i_used_out s)"

lemma round_ok_simps [simp]:
  "round_ok d t fut Crash \<longleftrightarrow> False"
  "round_ok d t fut (Stop rc s) \<longleftrightarrow> stopped d t fut rc s"
  "round_ok d t fut (Round s) \<longleftrightarrow> midway d t fut s \<or> ended d t fut s \<and> 0 < i_used_out s"
  by (simp_all add: round_ok_def)

lemma running_but_in:
  assumes "but_in s' = but_in s" and "in_lay s'" and "unread s' = unread s" and "running d t p n fut s"
  shows "running d t p n fut s'"
proof -
  note f = but_in_fields [OF assms(1)]
  have "state_resume s' = state_resume s" by (simp add: state_resume_def f)
  then show ?thesis
    using assms(2-4) by (simp add: running_def f fifo_lay_def user_lay_def out_split_def pending_def history_in_def)
qed

lemma midway_copy_data:
  assumes "midway d t fut s" and "alloc_ok env"
  shows "round_ok d t fut (stop_with (copy_data_to_fifo_in env s))"
proof -
  obtain p n where run: "running d t p n fut s" using assms(1) by (auto simp: midway_def)
  then obtain rc s' where s': "copy_data_to_fifo_in env s = Some (rc, s')" "rc = Z_OK \<or> rc = Z_MEM_ERROR" "in_lay s'"
      "unread s' = unread s" "but_in s' = but_in s"
    using copy_data_ok [OF _ assms(2)] by (metis running_def)
  then have "running d t p n fut s'" using running_but_in run by blast
  then show ?thesis using s'(1,2) by (auto simp: stop_with_def stopped_def midway_def)
qed

lemma ended_compare:
  assumes "ended d t fut s" and "i_used_out s = 0"
  shows "case trailer_compare s of (rc, s') \<Rightarrow> stopped d t fut rc s'"
proof -
  have "trailer_len (snd (trailer_compare s)) = trailer_len s" by (simp add: trailer_compare_def)
  then show ?thesis
    using trailer_compare_ended [OF assms] by (cases "trailer_compare s") (simp add: stopped_def ended_rc_def)
qed

lemma ended_verify:
  assumes "ended d t fut s" and "i_used_out s = 0"
  shows "round_ok d t fut (stop_with (nx_inflate_verify_checksum 2 s))"
proof -
  obtain s' where s': "trailer_copy s = Some s'" "ended d t fut s'" "i_used_out s' = 0"
    using trailer_copy_ended [OF assms(1)] assms(2) by metis
  then show ?thesis
    using ended_compare [OF s'(2,3)] by (simp add: nx_inflate_verify_checksum_def stop_with_def split: prod.splits)
qed

lemma trailer_copy_final: "trailer_copy (s\<lparr>is_final := x\<rparr>) = map_option (\<lambda>s. s\<lparr>is_final := x\<rparr>) (trailer_copy s)"
proof -
  have check: "fifo_in_len_check (s\<lparr>is_final := x\<rparr>) = map_option (\<lambda>s. s\<lparr>is_final := x\<rparr>) (fifo_in_len_check s)" for s :: nx_core
    by (auto simp: fifo_in_len_check_def split: bind_split)
  have "trailer_fifo g (s\<lparr>is_final := x\<rparr>) = map_option (\<lambda>s. s\<lparr>is_final := x\<rparr>) (trailer_fifo g s)" for g
  proof -
    have "s\<lparr>is_final := x, trailer := m, trailer_len := a, i_used_in := b, i_cur_in := c\<rparr>
        = s\<lparr>trailer := m, trailer_len := a, i_used_in := b, i_cur_in := c\<rparr>\<lparr>is_final := x\<rparr>" for m a b c by simp
    note swap = this
    show ?thesis
      using check [of "s\<lparr>trailer := m, trailer_len := g, i_used_in := i_used_in s - g, i_cur_in := i_cur_in s + g\<rparr>" for m]
      by (simp add: trailer_fifo_def swap split: bind_split)
  qed
  moreover have "trailer_user g (s\<lparr>is_final := x\<rparr>) = map_option (\<lambda>s. s\<lparr>is_final := x\<rparr>) (trailer_user g s)" for g and s :: nx_core
    by (auto simp: trailer_user_def use_input_def split: bind_split)
  ultimately show ?thesis by (auto simp: trailer_copy_def Let_def split: bind_split)
qed


section \<open>A round of the main loop\<close>

text \<open>
  A job has been done that used \<open>k\<close> bytes of input and produced \<open>ns\<close>: what is true between the switch and the accounting.
\<close>

definition job_done :: "deflated \<Rightarrow> nat \<Rightarrow> nat \<Rightarrow> nat \<Rightarrow> u8 list \<Rightarrow> u8 list \<Rightarrow> nat \<Rightarrow> nat \<Rightarrow> nx_resp \<Rightarrow> nx_core \<Rightarrow> nx_core \<Rightarrow> bool" where
  "job_done d t p n fut ns k n' r v s \<longleftrightarrow>
     running d t p n fut v \<and> i_used_out v = 0 \<and> placed ns v \<and> k \<le> length (unread v) \<and> r_tpbc r = length ns \<and> n' = n + length ns
     \<and> n' \<le> length (d_out d) \<and> take n (d_out d) @ ns = take n' (d_out d)
     \<and> out_crc v = crc_field (take n' (d_out d)) \<and> out_adler v = adler_field (take n' (d_out d))
     \<and> but_res (s\<lparr>is_final := 0\<rparr>) = but_res v \<and> length (in_dht s) = 18 \<and> is_final s \<le> 1"

lemma job_done_account:
  assumes "job_done d t p n fut ns k n' r v s"
  obtains a where "account_job (i_avail_out v) k (r_tpbc r) starved s = Some a"
    and "in_lay a" "fifo_lay a" "user_lay a" "unread a = drop k (unread v)" "out_split t (take n' (d_out d)) a"
      "is_final s = 0 \<Longrightarrow> history_in (take n' (d_out d)) a" "i_history_len a = length (window (take n' (d_out d)))"
      "is_final a = is_final s" "i_dict_len a = 0" "is_final s = 0 \<Longrightarrow> resuming a = 1" "i_crc32 a = crc_field (take n' (d_out d))"
      "i_adler32 a = adler_field (take n' (d_out d))" "out_crc a = crc_field (take n' (d_out d))" "out_adler a = adler_field (take n' (d_out d))"
      "in_dht a = in_dht s" "res_of a = res_of s" "length (trailer a) = 9" "trailer_len a = 0" "i_wrap a = d_wrap d"
      "inf_state a = inf_state_inflate" "i_used_out a = length ns - i_avail_out v" "i_avail_out a = i_avail_out v - length ns"
proof -
  have run: "running d t p n fut v" "i_used_out v = 0"
    and job: "placed ns v" "k \<le> length (unread v)" "r_tpbc r = length ns"
      "take n (d_out d) @ ns = take n' (d_out d)" "out_crc v = crc_field (take n' (d_out d))" "out_adler v = adler_field (take n' (d_out d))"
      "but_res (s\<lparr>is_final := 0\<rparr>) = but_res v"
    using assms by (simp_all add: job_done_def)
  note f = but_res_fields [OF job(7), simplified]
  have v: "in_lay v" "fifo_lay v" "user_lay v" "out_split t (take n (d_out d)) v" "history_in (take n (d_out d)) v"
    "trailer_len v = 0" "length (trailer v) = 9" "i_wrap v = d_wrap d" "inf_state v = inf_state_inflate"
    using run(1) by (simp_all add: running_def)
  have lay: "in_lay s" "fifo_lay s" "user_lay s" "i_used_out s = 0" "out_split t (take n (d_out d)) s"
    "history_in (take n (d_out d)) s" "placed ns s" "k \<le> length (unread s)" "unread s = unread v"
    using v run(2) job(1,2)
    by (simp_all add: f in_lay_def fifo_lay_def user_lay_def out_split_def pending_def history_in_def placed_def unread_def)
  show ?thesis
    by (rule account_job_ok [OF lay(1-8), of starved]) (use that job(3-6) lay(9) v(6-9) f in simp)
qed

text \<open>Either all of the data is decompressed, or decompression goes on at the new point.\<close>

lemma offsets_state_end:
  assumes jd: "job_done d t p n fut ns k n' r v s" and env: "engine_ok env d"
    and stop: "is_final s = 1 \<or> r_cc r = ERR_NX_OK" "p + k = d_end d" "n' = length (d_out d)"
  obtains c where "offsets_state env (i_avail_out v) k pb r s = (if i_used_out c = 0 then stop_with (Some (trailer_compare c)) else Round c)"
    and "ended d t fut c" and "i_used_out c = length ns - i_avail_out v"
    and "trailer_len c < trailer_need (d_wrap d) \<Longrightarrow> unread c = []"
proof -
  obtain starved where starved: "starved = (r_cc r = ERR_NX_DATA_LENGTH \<and> get_out_sfbt (r_sfbt_rem r) = 14 \<and> 0 < get_out_subc (r_subc_word r))"
    by simp
  obtain a where acc: "account_job (i_avail_out v) k (r_tpbc r) starved s = Some a"
    and a: "in_lay a" "fifo_lay a" "user_lay a" "unread a = drop k (unread v)" "out_split t (take n' (d_out d)) a"
      "is_final a = is_final s" "out_crc a = crc_field (take n' (d_out d))" "out_adler a = adler_field (take n' (d_out d))"
      "length (trailer a) = 9" "trailer_len a = 0" "i_wrap a = d_wrap d" "inf_state a = inf_state_inflate" "i_used_out a = length ns - i_avail_out v"
    by (rule job_done_account [OF jd, of starved])
  have d: "drop p (d_in d) = unread v @ fut" "k \<le> length (unread v)" using jd by (simp_all add: job_done_def running_def)
  have rest: "drop (d_end d) (d_in d) = unread a @ fut"
    using arg_cong [OF d(1), of "drop k"] d(2) stop(2) by (simp add: a(4) add.commute)
  define b where "b = a\<lparr>is_final := 1\<rparr>"
  have "d_end d \<le> length (d_in d)" using env by (simp add: engine_ok_def)
  then have "ended d t fut b"
    using a stop rest by (simp add: ended_def b_def in_lay_def fifo_lay_def user_lay_def out_split_def pending_def unread_def)
  then obtain c where c: "trailer_copy b = Some c" "ended d t fut c" "i_used_out c = i_used_out b"
      "trailer_len c < trailer_need (d_wrap d) \<Longrightarrow> unread c = []"
    using trailer_copy_ended by metis
  obtain c0 where c0: "trailer_copy a = Some c0" "c0\<lparr>is_final := 1\<rparr> = c"
    using c(1) unfolding b_def trailer_copy_final by auto
  have "i_used_out c = i_used_out c0" using c0(2) by auto
  then have "offsets_state env (i_avail_out v) k pb r s = (if i_used_out c = 0 then stop_with (Some (trailer_compare c)) else Round c)"
    using acc stop(1) a(6) c0 by (auto simp: offsets_state_def starved nx_inflate_verify_checksum_def)
  then show ?thesis using that c(2-4) a(13) by (simp add: b_def)
qed

lemma offsets_state_go:
  assumes jd: "job_done d t p n fut ns k n' r v s"
    and more: "is_final s = 0" "r_cc r \<noteq> ERR_NX_OK" "d_at d (p + k) (res_of s) n'"
  obtains a where "offsets_state env (i_avail_out v) k pb r s =
      (if 0 < i_avail_out a \<and> (pb + 7) div 8 < (i_used_in a + length (i_next_in a)) mod 2 ^ 32 then Round a
       else if 0 < i_avail_out a \<and> i_next_in a \<noteq> [] then stop_with (copy_data_to_fifo_in env a)
       else Stop Z_OK a)"
    and "running d t (p + k) n' fut a" and "i_used_out a = length ns - i_avail_out v" and "i_avail_out a = i_avail_out v - length ns"
    and "unread a = drop k (unread v)"
proof -
  have d: "drop p (d_in d) = unread v @ fut" "p \<le> length (d_in d)" "k \<le> length (unread v)" "length (in_dht s) = 18" "n' \<le> length (d_out d)"
    using jd by (simp_all add: job_done_def running_def)
  obtain starved where starved: "starved = (r_cc r = ERR_NX_DATA_LENGTH \<and> get_out_sfbt (r_sfbt_rem r) = 14 \<and> 0 < get_out_subc (r_subc_word r))"
    by simp
  obtain a where acc: "account_job (i_avail_out v) k (r_tpbc r) starved s = Some a"
    and a: "in_lay a" "fifo_lay a" "user_lay a" "unread a = drop k (unread v)" "out_split t (take n' (d_out d)) a"
      "is_final s = 0 \<Longrightarrow> history_in (take n' (d_out d)) a" "i_history_len a = length (window (take n' (d_out d)))"
      "is_final a = is_final s" "i_dict_len a = 0" "is_final s = 0 \<Longrightarrow> resuming a = 1" "i_crc32 a = crc_field (take n' (d_out d))"
      "i_adler32 a = adler_field (take n' (d_out d))"
      "in_dht a = in_dht s" "res_of a = res_of s" "length (trailer a) = 9" "trailer_len a = 0" "i_wrap a = d_wrap d"
      "inf_state a = inf_state_inflate" "i_used_out a = length ns - i_avail_out v" "i_avail_out a = i_avail_out v - length ns"
    by (rule job_done_account [OF jd, of starved]) (rule that)
  have "p + k \<le> length (d_in d)" using arg_cong [OF d(1), of length] d(2,3) by auto
  moreover have "state_resume a = res_of s" using a(10,14) more by (simp add: state_resume_def res_of_def)
  moreover have "drop (p + k) (d_in d) = unread a @ fut"
    using arg_cong [OF d(1), of "drop k"] d(3) by (simp add: a(4) add.commute)
  ultimately have "running d t (p + k) n' fut a" using a more d(4,5) by (simp add: running_def)
  then show ?thesis using that [of a] acc a more by (simp add: offsets_state_def starved)
qed

lemma offsets_state_ok:
  assumes jd: "job_done d t p n fut ns k n' r v s" and env: "engine_ok env d" "alloc_ok env"
    and stop: "is_final s = 1 \<or> r_cc r = ERR_NX_OK \<Longrightarrow> p + k = d_end d \<and> n' = length (d_out d)"
    and more: "is_final s \<noteq> 1 \<Longrightarrow> r_cc r \<noteq> ERR_NX_OK \<Longrightarrow> d_at d (p + k) (res_of s) n'"
  shows "round_ok d t fut (offsets_state env (i_avail_out v) k pb r s)"
proof (cases "is_final s = 1 \<or> r_cc r = ERR_NX_OK")
  case True
  obtain c where c: "offsets_state env (i_avail_out v) k pb r s = (if i_used_out c = 0 then stop_with (Some (trailer_compare c)) else Round c)"
      "ended d t fut c"
    using offsets_state_end [OF jd env(1) True] stop [OF True] by metis
  then show ?thesis using ended_compare [OF c(2)] by (cases "trailer_compare c") (simp add: stop_with_def)
next
  case False
  then have s: "is_final s = 0" "r_cc r \<noteq> ERR_NX_OK" using jd by (auto simp: job_done_def)
  then have at: "d_at d (p + k) (res_of s) n'" using more by simp
  obtain a where a: "offsets_state env (i_avail_out v) k pb r s =
      (if 0 < i_avail_out a \<and> (pb + 7) div 8 < (i_used_in a + length (i_next_in a)) mod 2 ^ 32 then Round a
       else if 0 < i_avail_out a \<and> i_next_in a \<noteq> [] then stop_with (copy_data_to_fifo_in env a)
       else Stop Z_OK a)" "running d t (p + k) n' fut a"
    by (rule offsets_state_go [OF jd s at])
  then have "midway d t fut a" by (auto simp: midway_def)
  then show ?thesis using a(1) midway_copy_data env(2) by (simp add: stopped_def)
qed

lemma produces_placed:
  assumes "produces d n n' r" and "n \<le> length (d_out d)" and "length (d_out d) < 2 ^ 31"
    and "\<And>m. m \<le> length (r_out r) \<Longrightarrow> m < 2 ^ 31 \<Longrightarrow> placed (take m (r_out r)) s"
  obtains ns where "placed ns s" and "r_tpbc r = length ns" and "n \<le> n'" and "n' \<le> length (d_out d)"
    and "take n (d_out d) @ ns = take n' (d_out d)"
    and "r_crc r = crc_field (take n' (d_out d))" and "r_adler r = adler_field (take n' (d_out d))"
proof -
  have p: "n \<le> n'" "n' \<le> length (d_out d)" "r_tpbc r = n' - n" "r_tpbc r \<le> length (r_out r)"
    "take (r_tpbc r) (r_out r) = drop n (take n' (d_out d))"
    using assms(1) unfolding produces_def by blast+
  have "r_tpbc r < 2 ^ 31" using p(2,3) assms(3) by linarith
  then have "placed (take (r_tpbc r) (r_out r)) s" by (rule assms(4) [OF p(4)])
  moreover have "take n (take n' (d_out d)) @ drop n (take n' (d_out d)) = take n' (d_out d)" by (rule append_take_drop_id)
  then have "take n (d_out d) @ take (r_tpbc r) (r_out r) = take n' (d_out d)" using p(1,5) by simp
  ultimately show ?thesis
    using that [of "take (r_tpbc r) (r_out r)"] p(1-4) assms(1) by (simp add: produces_def)
qed

text \<open>The sizes of a job stay in range.\<close>

definition env_ok :: "nx_env \<Rightarrow> bool" where
  "env_ok env \<longleftrightarrow> alloc_ok env \<and> fair env \<and> INF_MAX_COMPRESSION_RATIO \<le> per_job_len env \<and> per_job_len env < 2 ^ 30"

lemma job_sizes:
  assumes "i_avail_out s < 2 ^ 31" and "0 < i_avail_out s" and "INF_MAX_COMPRESSION_RATIO \<le> c" and "c < 2 ^ 30" and "100 \<le> ratio" and "ratio \<le> 1000"
  shows "0 < ((min (target_guess s) c * ratio + 1000) div 1000) mod 2 ^ 32"
    and "INF_MAX_COMPRESSION_RATIO \<le> min (target_guess s) ((4 * c) mod 2 ^ 32)"
    and "min (target_guess s) ((4 * c) mod 2 ^ 32) \<le> i_avail_out s + 40960"
proof -
  have g: "target_guess s = i_avail_out s + 40960" using assms(1) by (simp add: target_guess_def INF_HIS_LEN_def)
  define m where "m = min (target_guess s) c"
  have m: "m < 2 ^ 30" "0 < m" using assms(2-4) g by (auto simp: m_def INF_MAX_COMPRESSION_RATIO_def)
  have "m * ratio \<le> 2 ^ 30 * 1000" by (rule mult_le_mono) (use m(1) assms(6) in simp_all)
  then have "(m * ratio + 1000) div 1000 < 2 ^ 32" by simp
  then show "0 < ((min (target_guess s) c * ratio + 1000) div 1000) mod 2 ^ 32" by (simp flip: m_def)
  show "INF_MAX_COMPRESSION_RATIO \<le> min (target_guess s) ((4 * c) mod 2 ^ 32)"
    using assms(3,4) g by (simp add: INF_MAX_COMPRESSION_RATIO_def)
  show "min (target_guess s) ((4 * c) mod 2 ^ 32) \<le> i_avail_out s + 40960" using g by simp
qed

text \<open>
  The three outcomes of a job: the accelerator failed, the data ended, or decompression goes on.
\<close>

lemma run_job_cases:
  assumes run: "running d t p n fut s" "i_used_out s = 0" "unread s \<noteq> []" "0 < i_avail_out s"
    and env: "engine_ok env d" "env_ok env"
  obtains (fail) w hl k r where "run_job env s = Some (Stop Z_DATA_ERROR w)" and "running d t p n fut w"
      and "submitted env d p n hl k r" and "failed r"
  | (final) v w ns m r where "run_job env s = Some (offsets_state env (i_avail_out v) m 0 r w)"
      and "job_done d t p n fut ns m (length (d_out d)) r v w" and "is_final w = 1 \<or> r_cc r = ERR_NX_OK" and "p + m = d_end d"
      and "i_avail_out v = i_avail_out s"
  | (more) v w ns subc n' hl k r where "run_job env s = Some (offsets_state env (i_avail_out v) (k - (subc + 7) div 8) subc r w)"
      and "job_done d t p n fut ns (k - (subc + 7) div 8) n' r v w" and "is_final w = 0" and "r_cc r = ERR_NX_DATA_LENGTH" and "suspended r"
      and "get_out_sfbt (r_sfbt_rem r) \<noteq> 0" and "subc = get_out_subc (r_subc_word r)" and "(subc + 7) div 8 \<le> k"
      and "d_at d (p + (k - (subc + 7) div 8)) (res_of w) n'" and "submitted env d p n hl k r" and "i_avail_out v = i_avail_out s"
      and "unread v = unread s" and "k \<le> length (unread s)"
proof -
  define u where "u = bound_ratio (s\<lparr>sync_point := 0\<rparr>)"
  have same: "but_job u = but_job s" by (simp add: u_def bound_ratio_def but_job_def)
  note f = but_job_fields [OF same]
  have u: "running d t p n fut u" "i_used_out u = 0" "unread u = unread s" "i_avail_out u = i_avail_out s" "target_guess u = target_guess s"
    "100 \<le> last_comp_ratio u" "last_comp_ratio u \<le> 1000"
    using running_but_job [OF same] run f
    by (simp_all add: unread_def target_guess_def) (simp_all add: u_def bound_ratio_def)
  have e: "alloc_ok env" "fair env" "INF_MAX_COMPRESSION_RATIO \<le> per_job_len env" "per_job_len env < 2 ^ 30"
    using env(2) by (simp_all add: env_ok_def)
  have ne: "unread u \<noteq> []" using u(3) run(3) by simp
  have "i_avail_out u < 2 ^ 31" "0 < i_avail_out u" using u(1,4) run(4) by (simp_all add: running_def user_lay_def)
  note sz = job_sizes [OF this e(3,4) u(6,7)]
  obtain x where x: "submit_loop env (((min (target_guess u) (per_job_len env) * last_comp_ratio u + 1000) div 1000) mod 2 ^ 32)
      (min (target_guess u) ((4 * per_job_len env) mod 2 ^ 32)) 0 None u = Some x" "job_end_ok env d t p n fut u x"
    using submit_loop_ok [OF env(1) e(2) u(1,2) ne sz, of None 0] by auto
  have result: "run_job env s = Some (case x of
      Aborted \<Rightarrow> Crash
    | Refused rc s \<Rightarrow> Stop rc s
    | Done su r s \<Rightarrow>
        (if r_cc r = ERR_NX_OK then
           (if hist_len su \<le> r_spbc r then offsets_state env (i_avail_out u) (r_spbc r - hist_len su) 0 r s else Crash)
         else case ok_cc3 env su r s of
                None \<Rightarrow> Crash
              | Some (source_sz, partial_bits, s) \<Rightarrow> offsets_state env (i_avail_out u) source_sz partial_bits r s))"
    using x(1) unfolding run_job_def Let_def u_def [symmetric] u(4,5) [symmetric] by simp
  show ?thesis
  proof (cases x)
    case Aborted
    then show ?thesis using x(2) by (simp add: job_end_ok_def)
  next
    case (Refused rc w)
    then show ?thesis using x(2) result fail by (auto simp: job_end_ok_def)
  next
    case (Done su r v)
    have end_ok: "job_end_ok env d t p n fut u (Done su r v)" using x(2) Done by simp
    then have v: "running d t p n fut v" "i_used_out v = 0" "i_avail_out v = i_avail_out u" "out_crc v = r_crc r" "out_adler v = r_adler r"
        "r_cc r = ERR_NX_OK \<or> r_cc r = ERR_NX_DATA_LENGTH \<and> suspended r"
        "\<And>m. m \<le> length (r_out r) \<Longrightarrow> m < 2 ^ 31 \<Longrightarrow> placed (take m (r_out r)) v" "unread v = unread u"
      by (simp_all add: job_end_ok_def)
    have "\<exists>k. 0 < k \<and> k \<le> length (unread v) \<and> submitted env d p n (hist_len su) k r"
      using end_ok unfolding job_end_ok_def job_end.case by blast
    then obtain k where k: "0 < k" "k \<le> length (unread v)" "submitted env d p n (hist_len su) k r" by blast
    then obtain i j h where sent: "resumes d j p n h k" "hist_len su = length h" "r = nx_submit_job env i j"
      unfolding submitted_def by blast
    then have ans: "answers d j p n (hist_len su) k r" using env(1) by (simp add: engine_ok_def)
    have n: "n \<le> length (d_out d)" "length (d_out d) < 2 ^ 31" "length (in_dht v) = 18" "in_lay v" "is_final v = 0"
      using v(1) env(1) by (simp_all add: running_def engine_ok_def)
    have res: "but_res (v\<lparr>is_final := x\<rparr>\<lparr>is_final := 0\<rparr>) = but_res v" for x using n(5) by (cases v) (simp add: but_res_def)
    have job: "job_done d t p n fut ns m n' r v w"
      if "placed ns v" "r_tpbc r = length ns" "n \<le> n'" "n' \<le> length (d_out d)" "take n (d_out d) @ ns = take n' (d_out d)"
        "r_crc r = crc_field (take n' (d_out d))" "r_adler r = adler_field (take n' (d_out d))" "m \<le> k"
        "but_res (w\<lparr>is_final := 0\<rparr>) = but_res v" "length (in_dht w) = 18" "is_final w \<le> 1" for ns m n' w
    proof -
      have "n + length ns = n'" using arg_cong [OF that(5), of length] n(1) that(4) by simp
      then show ?thesis using that v k(2) by (simp add: job_done_def)
    qed
    note place = produces_placed [OF _ n(1,2) v(7)]
    show ?thesis
    proof (cases "r_cc r = ERR_NX_OK")
      case True
      then have a: "r_spbc r = hist_len su + k" "produces d n (length (d_out d)) r" "p + k = d_end d"
        using ans by (auto simp: answers_def)
      have out: "run_job env s = Some (offsets_state env (i_avail_out v) k 0 r v)" using result Done True a(1) v(3) by simp
      obtain ns where ns: "placed ns v" "r_tpbc r = length ns" "n \<le> length (d_out d)"
          "length (d_out d) \<le> length (d_out d)" "take n (d_out d) @ ns = take (length (d_out d)) (d_out d)"
          "r_crc r = crc_field (take (length (d_out d)) (d_out d))" "r_adler r = adler_field (take (length (d_out d)) (d_out d))"
        using place [OF a(2)] .
      show ?thesis
        by (rule final [OF out job [OF ns order_refl]]) (use True a(3) n v(3) u(4) res [of 0] in simp_all)
    next
      case False
      then have part: "r_cc r = ERR_NX_DATA_LENGTH" "suspended r" using v(6) by auto
      define sfbt where "sfbt = get_out_sfbt (r_sfbt_rem r)"
      define subc where "subc = get_out_subc (r_subc_word r)"
      have spbc: "r_spbc r = hist_len su + k" using ans part by (simp add: answers_def)
      have out: "ok_cc3 env su r v = Some (m, pb, w) \<Longrightarrow> run_job env s = Some (offsets_state env (i_avail_out v) m pb r w)" for m pb w
        using result Done False v(3) by simp
      show ?thesis
      proof (cases "sfbt = 0")
        case True
        then have a: "produces d n (length (d_out d)) r" "subc div 8 \<le> k" "p + (k - subc div 8) = d_end d"
          using ans part by (simp_all add: answers_def sfbt_def subc_def)
        have "ok_cc3 env su r v = Some (k - subc div 8, 0, v\<lparr>is_final := 1\<rparr>)"
          using True spbc k(1) a(2) by (simp add: ok_cc3_def Let_def flip: sfbt_def subc_def)
        note run' = out [OF this]
        obtain ns where ns: "placed ns v" "r_tpbc r = length ns" "n \<le> length (d_out d)"
            "length (d_out d) \<le> length (d_out d)" "take n (d_out d) @ ns = take (length (d_out d)) (d_out d)"
            "r_crc r = crc_field (take (length (d_out d)) (d_out d))" "r_adler r = adler_field (take (length (d_out d)) (d_out d))"
          using place [OF a(1)] .
        show ?thesis
          by (rule final [OF run' job [OF ns diff_le_self]]) (use a(3) n v(3) u(4) res [of 1] in simp_all)
      next
        case False
        then have a: "8 \<le> sfbt" "(subc + 7) div 8 \<le> k"
          "sfbt \<in> {12, 13} \<longrightarrow> 42 \<le> get_out_dhtlen (r_sfbt_rem r) \<and> get_out_dhtlen (r_sfbt_rem r) \<le> 18 * 128 \<and> length (r_dht r) = 18"
          "\<exists>n'. produces d n n' r \<and> d_at d (p + k - (subc + 7) div 8) (resp_resume r) n'"
          using ans part unfolding answers_def sfbt_def subc_def by auto
        obtain n' where n': "produces d n n' r" "d_at d (p + k - (subc + 7) div 8) (resp_resume r) n'" using a(4) by blast
        obtain w where w: "ok_cc3 env su r v = Some (k - (subc + 7) div 8, subc, w)" "but_res w = but_res v"
            "length (in_dht w) = 18" "res_of w = resp_resume r"
          by (rule ok_cc3_resume [OF n(4,3) k(1,2) spbc sfbt_def [symmetric] subc_def [symmetric] a(1,2), of env]) (use a(3) in simp_all)
        note g = but_res_fields [OF w(2)]
        have res': "but_res (w\<lparr>is_final := 0\<rparr>) = but_res v" using w(2) g(7) n(5) by (cases w) (simp add: but_res_def)
        have at: "d_at d (p + (k - (subc + 7) div 8)) (res_of w) n'" using n'(2) w(4) a(2) by simp
        obtain ns where ns: "placed ns v" "r_tpbc r = length ns" "n \<le> n'" "n' \<le> length (d_out d)"
            "take n (d_out d) @ ns = take n' (d_out d)" "r_crc r = crc_field (take n' (d_out d))" "r_adler r = adler_field (take n' (d_out d))"
          using place [OF n'(1)] .
        show ?thesis
          by (rule more [OF out [OF w(1)] job [OF ns diff_le_self] _ part])
            (use False at a(2) k(2,3) w(3) g(7) n(5) v(3,8) u(3,4) res' in \<open>simp_all add: sfbt_def subc_def\<close>)
      qed
    qed
  qed
qed

lemma run_job_ok:
  assumes run: "running d t p n fut s" "i_used_out s = 0" "unread s \<noteq> []" "0 < i_avail_out s"
    and env: "engine_ok env d" "env_ok env"
  obtains r where "run_job env s = Some r" and "round_ok d t fut r"
proof -
  have alloc: "alloc_ok env" using env(2) by (simp add: env_ok_def)
  show ?thesis
  proof (rule run_job_cases [OF assms])
    fix w assume "run_job env s = Some (Stop Z_DATA_ERROR w)" "running d t p n fut w"
    then show ?thesis by (intro that) (auto simp: stopped_def midway_def)
  next
    fix v w ns m r
    assume j: "run_job env s = Some (offsets_state env (i_avail_out v) m 0 r w)"
      "job_done d t p n fut ns m (length (d_out d)) r v w" "is_final w = 1 \<or> r_cc r = ERR_NX_OK" "p + m = d_end d"
    then show ?thesis by (intro that [OF j(1)] offsets_state_ok [OF j(2) env(1) alloc]) auto
  next
    fix v w ns subc n' hl k r
    assume j: "run_job env s = Some (offsets_state env (i_avail_out v) (k - (subc + 7) div 8) subc r w)"
      "job_done d t p n fut ns (k - (subc + 7) div 8) n' r v w" "is_final w = 0" "r_cc r = ERR_NX_DATA_LENGTH"
      "d_at d (p + (k - (subc + 7) div 8)) (res_of w) n'"
    then show ?thesis by (intro that [OF j(1)] offsets_state_ok [OF j(2) env(1) alloc]) (auto simp: err_nx_codes)
  qed
qed

section \<open>The main loop\<close>

lemma inflate_round_ok:
  assumes env: "engine_ok env d" "env_ok env" and s0: "midway d t fut s0 \<or> ended d t fut s0 \<and> 0 < i_used_out s0"
  obtains r where "inflate_round env flsh s0 = Some r" and "round_ok d t fut r"
proof -
  have lay: "fifo_lay s0" "user_lay s0" "\<exists>xs. out_split t xs s0"
    using s0 by (auto simp: midway_def running_def ended_def)
  then obtain xs where xs: "out_split t xs s0" by blast
  obtain s where s: "(if 0 < i_used_out s0 then hand_out s0 else Some s0) = Some s"
    and st: "midway d t fut s \<and> is_final s = 0 \<or> ended d t fut s \<and> is_final s = 1 \<and> 0 < i_used_out s0"
    and used: "0 < i_used_out s0 \<Longrightarrow> 0 < i_used_out s \<Longrightarrow> i_avail_out s = 0" "i_used_out s0 = 0 \<Longrightarrow> i_used_out s = 0"
  proof (cases "0 < i_used_out s0")
    case True
    obtain s where h: "hand_out s0 = Some s" "fifo_lay s" "user_lay s" "but_out s = but_out s0"
        "i_used_out s = i_used_out s0 - i_avail_out s0" "i_avail_out s = i_avail_out s0 - i_used_out s0"
      using hand_out_ok [OF lay(1,2) xs] by metis
    note f = but_out_fields [OF h(4)]
    have keep: "\<And>ys. out_split t ys s0 \<Longrightarrow> out_split t ys s \<and> history_in ys s = history_in ys s0"
      using hand_out_ok [OF lay(1,2)] h(1) by (metis option.inject)
    have same: "in_lay s = in_lay s0" "unread s = unread s0" "state_resume s = state_resume s0"
      by (simp_all add: in_lay_def unread_def state_resume_def f)
    have "running d t p n fut s0 \<Longrightarrow> running d t p n fut s" for p n
      using keep [of "take n (d_out d)"] same h(2,3) by (simp add: running_def f)
    moreover have "ended d t fut s0 \<Longrightarrow> ended d t fut s"
      using keep [of "d_out d"] same h(2,3) by (simp add: ended_def f)
    ultimately have "midway d t fut s \<and> is_final s = 0 \<or> ended d t fut s \<and> is_final s = 1"
      using s0 unfolding midway_def by (metis running_def ended_def)
    then show ?thesis using that [of s] True h by auto
  next
    case False
    then show ?thesis using that [of s0] s0 by (auto simp: midway_def running_def)
  qed
  have user: "user_lay s" using st by (auto simp: midway_def running_def ended_def)
  consider (full) "0 < i_used_out s0" "0 < i_used_out s" | (fin) "i_used_out s = 0" "is_final s = 1"
    | (go) "i_used_out s = 0" "is_final s = 0" "midway d t fut s" using st used by fastforce
  then show ?thesis
  proof cases
    case full
    then have "inflate_round env flsh s0 = Some (Stop Z_OK s)" using s used by (simp add: inflate_round_def)
    moreover have "stopped d t fut Z_OK s" using st full by (auto simp: stopped_def ended_rc_def)
    ultimately show ?thesis using that by simp
  next
    case fin
    then have "ended d t fut s" "0 < i_used_out s0" using st by auto
    then show ?thesis
      using that [of "stop_with (nx_inflate_verify_checksum 2 s)"] fin s ended_verify by (simp add: inflate_round_def)
  next
    case go
    obtain p n where run: "running d t p n fut s" using go(3) by (auto simp: midway_def)
    have stop: "stopped d t fut Z_OK s" using go(3) by (simp add: stopped_def)
    have cache: "round_ok d t fut (stop_with (copy_data_to_fifo_in env s))"
      using midway_copy_data [OF go(3)] env(2) by (simp add: env_ok_def)
    show ?thesis
    proof (cases "i_avail_out s = 0 \<or> (i_next_in s = [] \<and> i_used_in s = 0)")
      case True
      then show ?thesis using that [of "Stop Z_OK s"] go s stop by (simp add: inflate_round_def)
    next
      case False
      have "in_lay s" using run by (simp add: running_def)
      then have "unread s \<noteq> []" using False length_unread [of s] by auto
      then obtain r where r: "run_job env s = Some r" "round_ok d t fut r"
        using run_job_ok [OF run go(1) _ _ env] False by blast
      show ?thesis
      proof (cases "i_next_in s \<noteq> [] \<and> (length (i_next_in s) + i_used_in s) mod 2 ^ 32 < cache_threshold env
                  \<and> flsh \<noteq> Z_FINISH \<and> flsh \<noteq> Z_SYNC_FLUSH")
        case True
        then have "inflate_round env flsh s0 = Some (stop_with (copy_data_to_fifo_in env s))"
          unfolding inflate_round_def s option.case using go False by simp
        then show ?thesis using that cache by blast
      next
        case no: False
        have "inflate_round env flsh s0 = run_job env s"
          unfolding inflate_round_def s option.case if_not_P [OF False] if_not_P [OF no] using go by simp
        then show ?thesis using that r by simp
      qed
    qed
  qed
qed

text \<open>The loop always ends, and never in a fault.\<close>

lemma inflate_loop_ok:
  assumes "engine_ok env d" and "env_ok env" and "midway d t fut s \<or> ended d t fut s \<and> 0 < i_used_out s"
  shows "\<exists>rc s'. inflate_loop env flsh n s = Some (Stop rc s') \<and> stopped d t fut rc s'"
  using assms(3)
proof (induction n arbitrary: s)
  case 0
  then show ?case by (auto simp: stopped_def)
next
  case (Suc n)
  obtain r where "inflate_round env flsh s = Some r" "round_ok d t fut r" using inflate_round_ok [OF assms(1,2) Suc.prems] .
  then show ?case using Suc.IH by (cases r) auto
qed


lemma nx_inflate_body_ok:
  assumes env: "engine_ok env d" "env_ok env" and s: "midway d t fut s \<or> ended d t fut s" and out: "0 < i_avail_out s"
  obtains rc s' where "nx_inflate_body env flsh s = Some (Stop rc s')" and "stopped d t fut rc s'"
proof (cases "is_final s = 1 \<and> i_used_out s = 0")
  case True
  then have "ended d t fut s" using s by (auto simp: midway_def running_def)
  then have "round_ok d t fut (stop_with (nx_inflate_verify_checksum 2 s))" using ended_verify True by blast
  moreover have "nx_inflate_body env flsh s = Some (stop_with (nx_inflate_verify_checksum 2 s))"
    using True out by (simp add: nx_inflate_body_def)
  ultimately show ?thesis
    using that by (cases "nx_inflate_verify_checksum 2 s") (auto simp: stop_with_def)
next
  case False
  then have "midway d t fut s \<or> ended d t fut s \<and> 0 < i_used_out s" using s by (auto simp: ended_def)
  moreover have "nx_inflate_body env flsh s = inflate_loop env flsh (loop_max - 1) s"
    unfolding nx_inflate_body_def if_not_P [OF False] using out by simp
  ultimately show ?thesis using inflate_loop_ok [OF env] that by metis
qed

text \<open>What the user has so far.\<close>

lemma stopped_output:
  assumes "stopped d t fut rc s"
  shows "take (i_next_out s) (i_obuf s) = drop t (take (i_total_out s) (d_out d))" and "i_total_out s = t + i_next_out s"
    and "rc = Z_STREAM_END \<Longrightarrow> i_total_out s = length (d_out d) \<and> trailer_ok d" and "user_lay s"
proof -
  have "\<exists>n. out_split t (take n (d_out d)) s \<and> user_lay s"
    using assms unfolding stopped_def midway_def running_def ended_def by (metis take_all_iff order_refl)
  then obtain n where xs: "out_split t (take n (d_out d)) s" "user_lay s" by blast
  have "i_total_out s \<le> length (take n (d_out d))" using xs(1) by (simp only: out_split_def)
  then have "take (i_total_out s) (take n (d_out d)) = take (i_total_out s) (d_out d)" by simp
  then show "take (i_next_out s) (i_obuf s) = drop t (take (i_total_out s) (d_out d))" "i_total_out s = t + i_next_out s" "user_lay s"
    using xs by (simp_all add: out_split_def)
  assume "rc = Z_STREAM_END"
  then have "ended d t fut s \<and> i_used_out s = 0 \<and> trailer_ok d"
    using assms by (auto simp: stopped_def ended_rc_def z_codes split: if_splits)
  then show "i_total_out s = length (d_out d) \<and> trailer_ok d" by (simp add: ended_def out_split_def)
qed

text \<open>The next call of the user, with more input and another output buffer.\<close>

definition give :: "u8 list \<Rightarrow> u8 list \<Rightarrow> nx_core \<Rightarrow> nx_core" where
  "give chunk buf s = s\<lparr>i_next_in := i_next_in s @ chunk, i_obuf := buf, i_next_out := 0, i_avail_out := length buf\<rparr>"

lemma give_ok:
  assumes "length buf < 2 ^ 31"
  shows "midway d t (chunk @ fut) s \<Longrightarrow> midway d (i_total_out s) fut (give chunk buf s)"
    and "ended d t (chunk @ fut) s \<Longrightarrow> ended d (i_total_out s) fut (give chunk buf s)"
proof -
  have lay: "in_lay (give chunk buf s) = in_lay s" "fifo_lay (give chunk buf s) = fifo_lay s" "user_lay (give chunk buf s)"
    "unread (give chunk buf s) = unread s @ chunk" "pending (give chunk buf s) = pending s" "state_resume (give chunk buf s) = state_resume s"
    "history_in xs (give chunk buf s) = history_in xs s" for xs
    using assms
    by (simp_all add: in_lay_def fifo_lay_def user_lay_def unread_def pending_def state_resume_def history_in_def give_def)
  have out: "out_split t xs s \<Longrightarrow> out_split (i_total_out s) xs (give chunk buf s)" for xs
    using lay(5) by (simp add: out_split_def) (simp add: give_def)
  have "running d t p n (chunk @ fut) s \<Longrightarrow> running d (i_total_out s) p n fut (give chunk buf s)" for p n
    using lay out by (simp add: running_def) (simp add: give_def)
  then show "midway d t (chunk @ fut) s \<Longrightarrow> midway d (i_total_out s) fut (give chunk buf s)" by (auto simp: midway_def)
  show "ended d t (chunk @ fut) s \<Longrightarrow> ended d (i_total_out s) fut (give chunk buf s)"
    using lay out by (simp add: ended_def) (simp add: give_def)
qed

end
