(* ===== verification/InflateResume.thy ===== *)
theory InflateResume
  imports InflateHeaderCorrect
begin

text \<open>
  Leaving the header machine and entering it again: it always returns, and where the input was cut does
  not matter, with the two exceptions that \<open>resumable\<close> names.
\<close>

section \<open>Termination\<close>

definition stuck :: "inf_state_t \<Rightarrow> bool" where
  "stuck st \<longleftrightarrow> st \<in> {inf_state_mem_error, inf_state_buf_error, inf_state_stream_error}"

fun rank :: "inf_state_t \<Rightarrow> nat" where
  "rank inf_state_header = 20" | "rank inf_state_gzip_id1 = 19" | "rank inf_state_gzip_id2 = 18"
| "rank inf_state_gzip_cm = 17" | "rank inf_state_gzip_flg = 16" | "rank inf_state_gzip_mtime = 15"
| "rank inf_state_gzip_xfl = 14" | "rank inf_state_gzip_os = 13" | "rank inf_state_gzip_xlen = 12"
| "rank inf_state_gzip_extra = 11" | "rank inf_state_gzip_name = 10" | "rank inf_state_gzip_comment = 9"
| "rank inf_state_gzip_hcrc = 8" | "rank inf_state_zlib_id1 = 19" | "rank inf_state_zlib_flg = 18"
| "rank inf_state_zlib_dictid = 17" | "rank inf_state_zlib_dict = 16" | "rank inf_state_inflate = 2"
| "rank inf_state_data_error = 1" | "rank _ = 0"

lemma rank_pos: "0 < rank st \<longleftrightarrow> \<not> stuck st"
  by (cases st) (simp_all add: stuck_def)

text \<open>What holds of the state when \<open>r\<close> goes round again.\<close>

definition again_all :: "(nx_inf \<Rightarrow> bool) \<Rightarrow> inf_result \<Rightarrow> bool" where
  "again_all P r \<longleftrightarrow> (\<forall>s'. r = Again s' \<longrightarrow> P s')"

lemma again_all_go: "P (s\<lparr>inf_state := st\<rparr>) \<Longrightarrow> again_all P (go st s)"
  by (simp add: again_all_def go_def)

lemma again_all_error: "P (s\<lparr>i_msg := Some m, inf_state := inf_state_data_error\<rparr>) \<Longrightarrow> again_all P (data_error m s)"
  by (simp add: again_all_def data_error_def)

lemma again_all_stop [simp]: "again_all P (Leave rc s)" "again_all P (NeedDict s)" "again_all P (Body s)" "again_all P Fault"
  "again_all P (Again s) = P s"
  by (simp_all add: again_all_def)

lemma again_all_byte: "(\<And>c s. again_all P (k c s)) \<Longrightarrow> again_all P (nx_inflate_get_byte crc k s)"
  by (auto simp: nx_inflate_get_byte_def or_fault_def Let_def split: list.split option.split)

lemma again_all_held: "(\<And>s. again_all P (k s)) \<Longrightarrow> again_all P (while_held crc m f k s)"
  by (induction m arbitrary: s) (auto simp: Let_def intro!: again_all_byte)

lemma again_all_string:
  "(\<And>s. again_all P (k s)) \<Longrightarrow> again_all P (inf_string crc flag dest mx set_dest k s)"
  by (auto simp: inf_string_def or_fault_def Let_def split: option.split)

lemmas again_intros = again_all_byte again_all_held again_all_string again_all_go again_all_error

text \<open>The rank goes down and stays above that of the states that go round for ever.\<close>

definition next_ok :: "nat \<Rightarrow> nx_inf \<Rightarrow> bool" where
  "next_ok n s' \<longleftrightarrow> 0 < rank (inf_state s') \<and> rank (inf_state s') < n"

lemmas inf_cases = inf_header_def expect_byte_def inf_flg_def inf_mtime_def inf_xfl_def inf_os_def inf_xlen_def
  inf_extra_def inf_name_def inf_comment_def inf_hcrc_def inf_zlib_id1_def inf_zlib_flg_def inf_zlib_dictid_def inf_zlib_dict_def

lemma next_ok_step: "\<not> stuck (inf_state s) \<Longrightarrow> again_all (next_ok (rank (inf_state s))) (inf_step crc s)"
  by (cases "inf_state s")
    (auto simp: inf_step_def inf_cases stuck_def Let_def or_fault_def next_ok_def split: option.split intro!: again_intros)

lemma inf_run_returns: "\<not> stuck (inf_state s) \<Longrightarrow> \<exists>r. inf_run crc s = Some r"
proof (induction "rank (inf_state s)" arbitrary: s rule: less_induct)
  case less
  show ?case
  proof (cases "inf_step crc s")
    case (Again s')
    then have "rank (inf_state s') < rank (inf_state s)" "\<not> stuck (inf_state s')"
      using next_ok_step [OF less.prems, of crc] by (simp_all add: again_all_def next_ok_def flip: rank_pos)
    then show ?thesis using less.hyps inf_run_again [OF Again] by metis
  qed (use inf_run_stop in blast)+
qed

lemma inf_run_stuck:
  assumes "inf_run crc s = Some r"
  shows "\<not> stuck (inf_state s)"
proof (rule inf_run.raw_induct [where P = "\<lambda>crc s r. \<not> stuck (inf_state s)", OF _ assms])
  fix f and crc :: "u32 \<Rightarrow> u8 list \<Rightarrow> u32" and s r
  assume ih: "\<And>crc s r. f crc s = Some r \<Longrightarrow> \<not> stuck (inf_state s)"
    and run: "(case inf_step crc s of Again s' \<Rightarrow> f crc s' | r \<Rightarrow> Some r) = Some r"
  show "\<not> stuck (inf_state s)"
  proof
    assume st: "stuck (inf_state s)"
    then have "inf_step crc s = Again s" by (auto simp: stuck_def inf_step_def)
    then show False using ih run st by simp
  qed
qed

text \<open>
  Claim C28. The header machine of inflate returns from every state except the three error states other than the data
  error; in these it goes round for ever, because they leave the switch with \<^verbatim>\<open>break\<close>.
\<close>

theorem inf_run_returns_iff:
  "(\<exists>r. inf_run crc s = Some r) = (inf_state s \<notin> {inf_state_mem_error, inf_state_buf_error, inf_state_stream_error})"
  using inf_run_returns inf_run_stuck unfolding stuck_def by blast

section \<open>More input does not change a finished step\<close>

definition feed :: "u8 list \<Rightarrow> nx_inf \<Rightarrow> nx_inf" where
  "feed ys s = s\<lparr>i_next_in := i_next_in s @ ys\<rparr>"

lemma feed_simps [simp]:
  "i_next_in (feed ys s) = i_next_in s @ ys" "inf_state (feed ys s) = inf_state s" "inf_held (feed ys s) = inf_held s"
  "i_gzhead (feed ys s) = i_gzhead s" "gzflags (feed ys s) = gzflags s" "inf_length (feed ys s) = inf_length s"
  "cksum (feed ys s) = cksum s" "ckbuf (feed ys s) = ckbuf s" "ckidx (feed ys s) = ckidx s" "hcrc16 (feed ys s) = hcrc16 s"
  "i_wrap (feed ys s) = i_wrap s" "zlib_cmf (feed ys s) = zlib_cmf s" "i_dict_len (feed ys s) = i_dict_len s"
  "i_dict_id (feed ys s) = i_dict_id s" "feed [] s = s" "i_total_in (feed ys s) = i_total_in s"
  by (simp_all add: feed_def)

definition fed :: "u8 list \<Rightarrow> inf_result \<Rightarrow> inf_result" where
  "fed ys r = (case r of Again s \<Rightarrow> Again (feed ys s) | Leave rc s \<Rightarrow> Leave rc (feed ys s) | NeedDict s \<Rightarrow> NeedDict (feed ys s)
     | Body s \<Rightarrow> Body (feed ys s) | Fault \<Rightarrow> Fault)"

text \<open>\<open>steady ys r r'\<close>: what the longer input gives when the shorter one was enough.\<close>

definition steady :: "u8 list \<Rightarrow> inf_result \<Rightarrow> inf_result \<Rightarrow> bool" where
  "steady ys r r' \<longleftrightarrow> r' = fed ys r \<or> r = Fault \<or> (\<exists>s. r = Leave Z_OK s)"

lemma steadyD: "steady ys (Again s) r' \<Longrightarrow> r' = Again (feed ys s)"
  by (auto simp: steady_def fed_def)

lemma steady_fed: "steady ys r (fed ys r)"
  by (simp add: steady_def)

lemma steady_stop [simp]: "steady ys (Leave Z_OK s) r'" "steady ys Fault r'"
  by (simp_all add: steady_def)

lemma steady_byte:
  assumes "\<And>c s. steady ys (k c s) (k c (feed ys s))"
  shows "steady ys (nx_inflate_get_byte crc k s) (nx_inflate_get_byte crc k (feed ys s))"
proof (cases "i_next_in s")
  case (Cons c cs)
  show ?thesis
  proof (cases "ckidx s < length (ckbuf s)")
    case True
    have "got crc c (feed ys s) = feed ys (got crc c s)"
      using Cons by (simp add: got_def Let_def update_stream_in_def feed_def)
    then show ?thesis using Cons True assms by (simp add: get_byte_Cons)
  next
    case False
    then show ?thesis using Cons by (simp add: nx_inflate_get_byte_def or_fault_def wr_def)
  qed
qed (simp add: nx_inflate_get_byte_def)

lemma steady_held:
  assumes "\<And>c s. f c (feed ys s) = feed ys (f c s)" and "\<And>s. steady ys (k s) (k (feed ys s))"
  shows "steady ys (while_held crc n f k s) (while_held crc n f k (feed ys s))"
proof (induction n arbitrary: s)
  case 0
  then show ?case using assms(2) by simp
next
  case (Suc n)
  have h: "(feed ys t)\<lparr>inf_held := m\<rparr> = feed ys (t\<lparr>inf_held := m\<rparr>)" for t m by (simp add: feed_def)
  show ?case unfolding while_held.simps
  proof (rule steady_byte)
    fix c t
    show "steady ys (let s = f c t in while_held crc n f k (s\<lparr>inf_held := inf_held s + 1\<rparr>))
        (let s = f c (feed ys t) in while_held crc n f k (s\<lparr>inf_held := inf_held s + 1\<rparr>))"
      using Suc by (simp add: Let_def assms(1) h)
  qed
qed

lemma feed_upd:
  "(feed ys s)\<lparr>inf_state := a\<rparr> = feed ys (s\<lparr>inf_state := a\<rparr>)" "(feed ys s)\<lparr>i_gzhead := b\<rparr> = feed ys (s\<lparr>i_gzhead := b\<rparr>)"
  "(feed ys s)\<lparr>inf_held := n\<rparr> = feed ys (s\<lparr>inf_held := n\<rparr>)" "(feed ys s)\<lparr>inf_length := n\<rparr> = feed ys (s\<lparr>inf_length := n\<rparr>)"
  "(feed ys s)\<lparr>gzflags := f\<rparr> = feed ys (s\<lparr>gzflags := f\<rparr>)" "(feed ys s)\<lparr>i_wrap := n\<rparr> = feed ys (s\<lparr>i_wrap := n\<rparr>)"
  "(feed ys s)\<lparr>zlib_cmf := f\<rparr> = feed ys (s\<lparr>zlib_cmf := f\<rparr>)" "(feed ys s)\<lparr>hcrc16 := h\<rparr> = feed ys (s\<lparr>hcrc16 := h\<rparr>)"
  "(feed ys s)\<lparr>i_crc32 := w\<rparr> = feed ys (s\<lparr>i_crc32 := w\<rparr>)" "(feed ys s)\<lparr>i_adler := w\<rparr> = feed ys (s\<lparr>i_adler := w\<rparr>)"
  "(feed ys s)\<lparr>i_adler32 := w\<rparr> = feed ys (s\<lparr>i_adler32 := w\<rparr>)" "(feed ys s)\<lparr>i_dict_id := w\<rparr> = feed ys (s\<lparr>i_dict_id := w\<rparr>)"
  "(feed ys s)\<lparr>i_dict_len := n\<rparr> = feed ys (s\<lparr>i_dict_len := n\<rparr>)" "(feed ys s)\<lparr>i_zadler := w\<rparr> = feed ys (s\<lparr>i_zadler := w\<rparr>)"
  "(feed ys s)\<lparr>i_msg := m\<rparr> = feed ys (s\<lparr>i_msg := m\<rparr>)" "(feed ys s)\<lparr>cksum := w\<rparr> = feed ys (s\<lparr>cksum := w\<rparr>)"
  by (simp_all add: feed_def)

lemma steady_go [simp]: "steady ys (go st s) (go st (feed ys s))" "steady ys (data_error m s) (data_error m (feed ys s))"
  by (simp_all add: steady_def fed_def go_def data_error_def feed_upd)

lemma steady_const [simp]: "steady ys (Body s) (Body (feed ys s))" "steady ys (NeedDict s) (NeedDict (feed ys s))"
  "steady ys (Leave rc s) (Leave rc (feed ys s))" "steady ys (Again s) (Again (feed ys s))"
  by (simp_all add: steady_def fed_def)

lemma copy_string_ended:
  "copy_string d mx len xs c n = Some (d', len', 0, n') \<Longrightarrow> xs \<noteq> [] \<Longrightarrow>
     copy_string d mx len (xs @ ys) c n = Some (d', len', 0, n') \<and> n' \<le> n + length xs"
proof (induction xs arbitrary: d len c n)
  case (Cons b bs)
  obtain d1 l1 where one: "(case d of None \<Rightarrow> Some (d, len)
      | Some m \<Rightarrow> if len < mx then do { m \<leftarrow> wr m len b; Some (Some m, len + 1) } else Some (d, len)) = Some (d1, l1)"
    using Cons.prems(1) by (auto simp: bind_eq_Some_conv)
  have step: "copy_string d mx len (b # zs) c n = (if b \<noteq> 0 then copy_string d1 mx l1 zs b (n + 1) else Some (d1, l1, b, n + 1))" for zs
    by (simp add: one)
  show ?case
  proof (cases "b = 0")
    case True
    then show ?thesis using Cons.prems(1) unfolding append_Cons step by simp
  next
    case False
    then have rest: "copy_string d1 mx l1 bs b (n + 1) = Some (d', len', 0, n')" using Cons.prems(1) unfolding step by simp
    then have "bs \<noteq> []" using False by auto
    from Cons.IH [OF rest this] show ?thesis using False unfolding append_Cons step by simp
  qed
qed simp

lemma steady_string:
  assumes "\<And>s. steady ys (k s) (k (feed ys s))"
  shows "steady ys (inf_string crc flag dest mx set_dest k s) (inf_string crc flag dest mx set_dest k (feed ys s))"
proof (cases "gzflags s AND flag = 0")
  case True
  then show ?thesis using assms by (simp add: inf_string_def feed_upd)
next
  case False
  define e where "e = Option.bind (i_gzhead s) dest"
  define n where "n = (case i_gzhead s of None \<Rightarrow> 0 | Some h \<Rightarrow> mx h)"
  show ?thesis
  proof (cases "i_next_in s = []")
    case True
    then show ?thesis using False by (simp add: inf_string_def)
  next
    case ne: False
    show ?thesis
    proof (cases "copy_string e n (inf_length s) (i_next_in s) 0 0")
      case None
      then show ?thesis using False ne by (simp add: inf_string_def or_fault_def e_def n_def)
    next
      case (Some r)
      then obtain d len c copy where r: "copy_string e n (inf_length s) (i_next_in s) 0 0 = Some (d, len, c, copy)" by (cases r) auto
      show ?thesis
      proof (cases "c = 0")
        case True
        with r copy_string_ended [of e n "inf_length s" "i_next_in s" 0 0 d len copy ys] ne
        have r': "copy_string e n (inf_length s) (i_next_in s @ ys) 0 0 = Some (d, len, 0, copy)" "copy \<le> i_avail_in s" by simp_all
        have u: "update_stream_in copy (feed ys t) = feed ys (update_stream_in copy t)" if "copy \<le> i_avail_in t" for t
          using that by (simp add: update_stream_in_def feed_def)
        show ?thesis
          using False ne r r' True assms by (simp add: inf_string_def or_fault_def flip: e_def n_def) (simp add: feed_upd u Let_def)
      next
        case more: False
        then show ?thesis using False ne r by (simp add: inf_string_def or_fault_def Let_def flip: e_def n_def)
      qed
    qed
  qed
qed

lemma copy_extra_same:
  assumes "copy_extra n s = Some s'"
  shows "inf_length s' = inf_length s" "i_next_in s' = i_next_in s" "gzflags s' = gzflags s"
  using assms by (auto simp: copy_extra_def Let_def bind_eq_Some_conv split: option.splits)

lemma copy_extra_feed: "copy_extra n s = Some s' \<Longrightarrow> copy_extra n (feed ys s) = Some (feed ys s')"
  by (auto simp: copy_extra_def Let_def rd_block_def feed_upd bind_eq_Some_conv split: option.splits if_splits)

lemma steady_extra: "steady ys (inf_extra crc s) (inf_extra crc (feed ys s))"
proof (cases "gzflags s AND 0x04 = 0")
  case True
  then show ?thesis by (simp add: inf_extra_def feed_upd)
next
  case flag: False
  show ?thesis
  proof (cases "inf_length s \<le> i_avail_in s")
    case short: True
    show ?thesis
    proof (cases "inf_length s = 0")
      case True
      then show ?thesis using flag by (simp add: inf_extra_def or_fault_def feed_upd)
    next
      case False
      show ?thesis
      proof (cases "copy_extra (inf_length s) s")
        case None
        then show ?thesis using flag False short by (simp add: inf_extra_def or_fault_def)
      next
        case (Some s1)
        note same = copy_extra_same [OF Some]
        have u: "update_stream_in n (feed ys t) = feed ys (update_stream_in n t)" if "n \<le> i_avail_in t" for t n
          using that by (simp add: update_stream_in_def feed_def)
        have len: "inf_length (update_stream_in n t) = inf_length t" for n t by (simp add: update_stream_in_def)
        show ?thesis
          using flag False short Some copy_extra_feed [OF Some, of ys] same
          by (simp add: inf_extra_def or_fault_def Let_def feed_upd u len)
      qed
    qed
  next
    case False
    have "inf_extra crc s = Fault \<or> (\<exists>s1. inf_extra crc s = Leave Z_OK s1)"
    proof (cases "copy_extra (i_avail_in s) s")
      case None
      then show ?thesis using flag False by (cases "i_next_in s") (simp_all add: inf_extra_def or_fault_def Let_def min_def)
    next
      case (Some s1)
      then have "inf_length s1 = inf_length s" by (rule copy_extra_same)
      then show ?thesis using flag False Some
        by (cases "i_next_in s") (simp_all add: inf_extra_def or_fault_def Let_def min_def update_stream_in_def)
    qed
    then show ?thesis by auto
  qed
qed

lemma steady_if: "(c \<Longrightarrow> steady ys a a') \<Longrightarrow> (\<not> c \<Longrightarrow> steady ys b b') \<Longrightarrow> steady ys (if c then a else b) (if c then a' else b')"
  by simp

lemma steady_step: "steady ys (inf_step crc s) (inf_step crc (feed ys s))"
proof (cases "inf_state s")
  case inf_state_gzip_extra
  then show ?thesis by (simp add: inf_step_def steady_extra)
next
  case inf_state_gzip_name
  then show ?thesis by (auto simp: inf_step_def inf_name_def feed_upd intro!: steady_string)
next
  case inf_state_gzip_comment
  then show ?thesis by (auto simp: inf_step_def inf_comment_def feed_upd intro!: steady_string)
next
  case inf_state_gzip_hcrc
  then show ?thesis
    by (auto simp: inf_step_def inf_hcrc_def feed_upd Let_def split: option.split intro!: steady_held)
next
  case inf_state_gzip_xlen
  then show ?thesis
    by (auto simp: inf_step_def inf_xlen_def feed_upd Let_def split: option.split intro!: steady_held)
next
  case inf_state_gzip_mtime
  then show ?thesis
    by (auto simp: inf_step_def inf_mtime_def feed_upd Let_def split: option.split intro!: steady_held)
next
  case inf_state_zlib_dictid
  then show ?thesis
    by (auto simp: inf_step_def inf_zlib_dictid_def feed_upd Let_def split: option.split intro!: steady_held)
qed (auto simp: inf_step_def inf_header_def expect_byte_def inf_flg_def inf_xfl_def inf_os_def inf_zlib_id1_def inf_zlib_flg_def
    inf_zlib_dict_def feed_upd Let_def intro!: steady_byte)

section \<open>Stopping for more input\<close>

lemma while_held_pause:
  assumes feed: "\<And>c s. f c (feed ys s) = feed ys (f c s)"
    and keep: "\<And>c s. inf_held (f c s) = inf_held s \<and> inf_state (f c s) = inf_state s \<and> gzflags (f c s) = gzflags s"
    and k: "\<And>s s1. k s \<noteq> Leave Z_OK s1"
  shows "while_held crc n f k s = Leave Z_OK s1 \<Longrightarrow>
    \<exists>m \<le> n. while_held crc n f k (feed ys s) = while_held crc m f k (feed ys s1) \<and> inf_held s1 = inf_held s + (n - m)
      \<and> inf_state s1 = inf_state s \<and> gzflags s1 = gzflags s \<and> (m = n \<longrightarrow> s1 = s)"
proof (induction n arbitrary: s)
  case 0
  then show ?case using k by simp
next
  case (Suc n)
  show ?case
  proof (cases "i_next_in s")
    case Nil
    then show ?thesis using Suc.prems by (auto simp: get_byte_Nil)
  next
    case (Cons c cs)
    have room: "ckidx s < length (ckbuf s)"
    proof (rule ccontr)
      assume "\<not> ckidx s < length (ckbuf s)"
      then show False using Suc.prems Cons by (simp add: nx_inflate_get_byte_def wr_def or_fault_def)
    qed
    define t where "t = (f c (got crc c s))\<lparr>inf_held := inf_held (f c (got crc c s)) + 1\<rparr>"
    have t: "inf_held t = inf_held s + 1" "inf_state t = inf_state s" "gzflags t = gzflags s"
      by (simp_all add: t_def keep)
    have step: "while_held crc (Suc n) f k s = while_held crc n f k t"
      using Cons room by (simp add: get_byte_Cons t_def Let_def)
    have "got crc c (feed ys s) = feed ys (got crc c s)"
      using Cons by (simp add: got_def Let_def update_stream_in_def feed_def)
    then have step': "while_held crc (Suc n) f k (feed ys s) = while_held crc n f k (feed ys t)"
      using Cons room by (simp add: get_byte_Cons t_def Let_def feed feed_upd)
    from Suc.IH [of t] Suc.prems obtain m where "m \<le> n" "while_held crc n f k (feed ys t) = while_held crc m f k (feed ys s1)"
      "inf_held s1 = inf_held t + (n - m)" "inf_state s1 = inf_state t" "gzflags s1 = gzflags t" "m = n \<longrightarrow> s1 = t"
      unfolding step by blast
    then show ?thesis using t step' by (intro exI [of _ m]) auto
  qed
qed

text \<open>
  The two places where a cut matters: between the two bytes of the header checksum, and inside an extra
  field that is longer than the caller's buffer.
\<close>

definition resumable :: "nx_inf \<Rightarrow> bool" where
  "resumable s \<longleftrightarrow>
     (inf_state s = inf_state_gzip_hcrc \<longrightarrow> inf_held s = 0)
     \<and> (inf_state s = inf_state_gzip_extra \<longrightarrow>
          (\<forall>g. i_gzhead s = Some g \<longrightarrow> gz_extra_len g < 2 ^ 16 \<and> gz_extra_max g < 2 ^ 32
             \<and> (gz_extra g \<noteq> None \<longrightarrow> gz_extra_len g \<le> gz_extra_max g)))"

text \<open>What always holds of the length of the extra field.\<close>

definition extra_ok :: "nx_inf \<Rightarrow> bool" where
  "extra_ok s \<longleftrightarrow> (inf_state s = inf_state_gzip_extra \<and> gzflags s AND 0x04 \<noteq> 0 \<longrightarrow> (\<forall>g. i_gzhead s = Some g \<longrightarrow> inf_length s \<le> gz_extra_len g))"

lemma z_distinct: "Z_DATA_ERROR \<noteq> Z_OK"
  by (simp add: z_codes)

lemma byte_pause:
  assumes "\<And>c t t1. k c t \<noteq> Leave Z_OK t1"
  shows "nx_inflate_get_byte crc k s = Leave Z_OK s1 \<longleftrightarrow> i_next_in s = [] \<and> s1 = s"
  using assms by (auto simp: nx_inflate_get_byte_def or_fault_def Let_def split: list.split option.split)

lemma go_neq [simp]: "go st s \<noteq> Leave rc s1" "data_error m s \<noteq> Leave rc s1"
  by (simp_all add: go_def data_error_def)

lemma extra_ok_step: "again_all extra_ok (inf_step crc s)"
  by (cases "inf_state s")
    (auto simp: inf_step_def inf_cases Let_def or_fault_def extra_ok_def split: option.split intro!: again_intros)

section \<open>Strings and the extra field in two pieces\<close>

lemma copy_string_more:
  "copy_string d mx len xs c n = Some (d', len', c', n') \<Longrightarrow> c' \<noteq> 0 \<Longrightarrow>
     n' = n + length xs \<and> copy_string d mx len (xs @ ys) c n = copy_string d' mx len' ys c' n'"
proof (induction xs arbitrary: d len c n)
  case (Cons b bs)
  obtain d1 l1 where one: "(case d of None \<Rightarrow> Some (d, len)
      | Some m \<Rightarrow> if len < mx then do { m \<leftarrow> wr m len b; Some (Some m, len + 1) } else Some (d, len)) = Some (d1, l1)"
    using Cons.prems(1) by (auto simp: bind_eq_Some_conv)
  have step: "copy_string d mx len (b # zs) c n = (if b \<noteq> 0 then copy_string d1 mx l1 zs b (n + 1) else Some (d1, l1, b, n + 1))" for zs
    by (simp add: one)
  have "b \<noteq> 0" using Cons.prems unfolding step by auto
  then show ?case using Cons.IH [of d1 l1 b "n + 1"] Cons.prems unfolding append_Cons step by simp
qed simp

lemma copy_string_count:
  "copy_string d mx len ys c (n + k) = map_option (\<lambda>(d, len, c, m). (d, len, c, m + k)) (copy_string d mx len ys c n)"
proof (induction ys arbitrary: d len c n)
  case (Cons b bs)
  define X where "X = (case d of None \<Rightarrow> Some (d, len)
      | Some m \<Rightarrow> if len < mx then do { m \<leftarrow> wr m len b; Some (Some m, len + 1) } else Some (d, len))"
  have step: "copy_string d mx len (b # zs) c n =
      Option.bind X (\<lambda>(d1, l1). if b \<noteq> 0 then copy_string d1 mx l1 zs b (n + 1) else Some (d1, l1, b, n + 1))" for zs c n
    by (simp add: X_def)
  have "copy_string d1 mx l1 bs b (n + k + 1) = map_option (\<lambda>(d, len, c, m). (d, len, c, m + k)) (copy_string d1 mx l1 bs b (n + 1))" for d1 l1
    using Cons.IH [of d1 l1 b "n + 1"] by (simp add: add.commute add.left_commute)
  then show ?case unfolding step by (cases X) auto
qed simp

lemma copy_string_last: "ys \<noteq> [] \<Longrightarrow> copy_string d mx len ys c n = copy_string d mx len ys c' n"
  by (cases ys) simp_all

context running_checksum
begin

lemma string_pause:
  assumes run: "inf_string crc flag dest mx set_dest k s = Leave Z_OK s1"
    and k: "\<And>s s1. k s \<noteq> Leave Z_OK s1"
    and set: "\<And>d g. dest (set_dest d g) = d" "\<And>d g. mx (set_dest d g) = mx g" "\<And>d d' g. set_dest d (set_dest d' g) = set_dest d g"
  shows "inf_string crc flag dest mx set_dest k (feed ys s) = inf_string crc flag dest mx set_dest k (feed ys s1)"
    and "inf_state s1 = inf_state s"
proof -
  have flag: "gzflags s AND flag \<noteq> 0" using run k by (auto simp: inf_string_def split: if_splits)
  define e where "e = Option.bind (i_gzhead s) dest"
  define n where "n = (case i_gzhead s of None \<Rightarrow> 0 | Some h \<Rightarrow> mx h)"
  define xs where "xs = i_next_in s"
  have "(inf_string crc flag dest mx set_dest k (feed ys s) = inf_string crc flag dest mx set_dest k (feed ys s1)) \<and> inf_state s1 = inf_state s"
  proof (cases "xs = []")
    case True
    then have "s1 = s" using run flag by (simp add: inf_string_def xs_def)
    then show ?thesis by simp
  next
    case ne: False
    obtain d len c copy where r: "copy_string e n (inf_length s) xs 0 0 = Some (d, len, c, copy)"
      using run flag ne by (cases "copy_string e n (inf_length s) xs 0 0")
        (auto simp: inf_string_def or_fault_def e_def n_def xs_def)
    define upd where "upd = (\<lambda>d len copy (s :: nx_inf).
        let s = (upd_gzhead (set_dest d) s)\<lparr>inf_length := len\<rparr>;
            s = (if gzflags s AND 0x02 \<noteq> 0 then s\<lparr>cksum := crc (cksum s) (take copy (i_next_in s))\<rparr> else s)
        in update_stream_in copy s)"
    have call: "inf_string crc flag dest mx set_dest k t = or_fault (copy_string (Option.bind (i_gzhead t) dest)
        (case i_gzhead t of None \<Rightarrow> 0 | Some h \<Rightarrow> mx h) (inf_length t) (i_next_in t) 0 0)
        (\<lambda>(d, len, c, copy). if c \<noteq> 0 then Leave Z_OK (upd d len copy t) else k (upd d len copy t))"
      if "gzflags t AND flag \<noteq> 0" "i_next_in t \<noteq> []" for t
      unfolding inf_string_def upd_def Let_def using that by simp
    have "c \<noteq> 0" and s1: "s1 = upd d len copy s"
      using run k [symmetric] call [OF flag] ne r by (auto simp: xs_def e_def n_def or_fault_def split: if_splits)
    note more = copy_string_more [OF r \<open>c \<noteq> 0\<close>, of ys]
    have dn: "i_gzhead s = None \<Longrightarrow> d = None" using r by (simp add: e_def copy_string_None)
    have f1: "gzflags s1 = gzflags s" "i_gzhead s1 = map_option (set_dest d) (i_gzhead s)" "inf_length s1 = len" "i_next_in s1 = []"
        "inf_state s1 = inf_state s"
      using more by (simp_all add: s1 upd_def Let_def update_stream_in_def xs_def)
    have d1: "Option.bind (i_gzhead s1) dest = d" "(case i_gzhead s1 of None \<Rightarrow> 0 | Some h \<Rightarrow> mx h) = n"
      using dn by (cases "i_gzhead s"; simp add: f1 set n_def)+
    show ?thesis
    proof (cases "ys = []")
      case True
      have "inf_string crc flag dest mx set_dest k s1 = Leave Z_OK s1" using flag by (simp add: inf_string_def f1)
      then show ?thesis using True run f1 by simp
    next
      case False
      have whole: "copy_string e n (inf_length s) (xs @ ys) 0 0
          = map_option (\<lambda>(d, len, c, m). (d, len, c, m + copy)) (copy_string d n len ys 0 0)"
        using more copy_string_count [of d n len ys 0 0 copy] copy_string_last [OF False, of d n len c copy 0] by simp
      have as_update: "upd d len copy t = t\<lparr>i_gzhead := map_option (set_dest d) (i_gzhead t), inf_length := len,
          cksum := (if gzflags t AND 0x02 \<noteq> 0 then crc (cksum t) (take copy (i_next_in t)) else cksum t),
          i_next_in := drop copy (i_next_in t), i_total_in := i_total_in t + copy\<rparr>" for d len copy t
        by (cases "gzflags t AND 0x02 = 0") (simp_all add: upd_def Let_def update_stream_in_def)
      have comp: "map_option (set_dest a) (map_option (set_dest b) h) = map_option (set_dest a) h" for a b h
        by (cases h) (simp_all add: set)
      have copied: "copy = length (i_next_in s)" using more by (simp add: xs_def)
      have upd2: "upd d2 len2 (m2 + copy) (feed ys s) = upd d2 len2 m2 (feed ys s1)" for d2 len2 m2
        unfolding s1 as_update feed_def by (simp add: comp copied crc_append add.commute add.left_commute)
      have "inf_string crc flag dest mx set_dest k (feed ys s) = or_fault (copy_string e n (inf_length s) (xs @ ys) 0 0)
        (\<lambda>(d, len, c, copy). if c \<noteq> 0 then Leave Z_OK (upd d len copy (feed ys s)) else k (upd d len copy (feed ys s)))"
        using call [of "feed ys s"] flag ne by (simp add: xs_def e_def n_def)
      also have "\<dots> = or_fault (copy_string d n len ys 0 0)
        (\<lambda>(d, len, c, copy). if c \<noteq> 0 then Leave Z_OK (upd d len copy (feed ys s1)) else k (upd d len copy (feed ys s1)))"
        unfolding whole by (cases "copy_string d n len ys 0 0") (auto simp: or_fault_def upd2)
      also have "\<dots> = inf_string crc flag dest mx set_dest k (feed ys s1)"
        using call [of "feed ys s1"] flag False f1 d1 by simp
      finally show ?thesis by (simp add: f1)
    qed
  qed
  then show "inf_string crc flag dest mx set_dest k (feed ys s) = inf_string crc flag dest mx set_dest k (feed ys s1)"
    "inf_state s1 = inf_state s" by simp_all
qed

text \<open>One round of the extra field, when it fits: the copy and the state after it.\<close>

definition fits :: "nx_inf \<Rightarrow> bool" where
  "fits s \<longleftrightarrow> (\<forall>g. i_gzhead s = Some g \<longrightarrow> inf_length s \<le> gz_extra_len g \<and> gz_extra_len g < 2 ^ 16 \<and> gz_extra_max g < 2 ^ 32
     \<and> (gz_extra g \<noteq> None \<longrightarrow> gz_extra_len g \<le> gz_extra_max g))"

definition store_extra :: "u8 list \<Rightarrow> nat \<Rightarrow> gz_header option \<Rightarrow> gz_header option option" where
  "store_extra w rest h =
     (case h of None \<Rightarrow> Some None
      | Some g \<Rightarrow> (case gz_extra g of None \<Rightarrow> Some (Some g)
                  | Some m \<Rightarrow> map_option (\<lambda>m. Some (g\<lparr>gz_extra := Some m\<rparr>)) (wr_block m (gz_extra_len g - rest) w)))"

definition after_extra :: "u8 list \<Rightarrow> gz_header option \<Rightarrow> nx_inf \<Rightarrow> nx_inf" where
  "after_extra w h s = s\<lparr>i_gzhead := h, cksum := (if gzflags s AND 0x02 \<noteq> 0 then crc (cksum s) w else cksum s),
     i_next_in := drop (length w) (i_next_in s), i_total_in := i_total_in s + length w, inf_length := inf_length s - length w\<rparr>"

lemma copy_extra_fits:
  assumes "fits s" and "copy \<le> inf_length s" and "copy \<le> i_avail_in s"
  shows "copy_extra copy s = map_option (\<lambda>h. s\<lparr>i_gzhead := h\<rparr>) (store_extra (take copy (i_next_in s)) (inf_length s) (i_gzhead s))"
proof (cases "i_gzhead s")
  case None
  then show ?thesis by (simp add: copy_extra_def store_extra_def)
next
  case (Some g)
  show ?thesis
  proof (cases "gz_extra g")
    case None
    then show ?thesis using Some by (simp add: copy_extra_def store_extra_def)
  next
    case m: (Some m)
    have g: "inf_length s \<le> gz_extra_len g" "gz_extra_len g < 2 ^ 16" "gz_extra_max g < 2 ^ 32" "gz_extra_len g \<le> gz_extra_max g"
      using assms(1) Some m by (auto simp: fits_def)
    define off where "off = gz_extra_len g - inf_length s"
    have off: "word_of_nat (gz_extra_len g) - word_of_nat (inf_length s) = (word_of_nat off :: u32)"
      using g(1) by (simp add: off_def of_nat_diff)
    have u: "unat (word_of_nat n :: u32) = n" if "n < 2 ^ 32" for n
      using that by (simp add: unsigned_of_nat take_bit_nat_eq_self)
    have small: "off + copy \<le> gz_extra_max g" "off < 2 ^ 32" "copy < 2 ^ 32" using g assms(2) by (simp_all add: off_def)
    have "unat (word_of_nat off + word_of_nat copy :: u32) = off + copy"
      using u [of "off + copy"] small(1) g(3) by simp
    then have "\<not> (word_of_nat (gz_extra_max g) :: u32) < word_of_nat off + word_of_nat copy"
      using u [OF g(3)] small(1) by (simp add: word_less_nat_alt)
    then have "copy_extra copy s = do { b \<leftarrow> rd_block (i_next_in s) 0 copy; m \<leftarrow> wr_block m off b;
        Some (s\<lparr>i_gzhead := Some (g\<lparr>gz_extra := Some m\<rparr>)\<rparr>) }"
      using Some m off u [OF small(2)] u [OF small(3)] by (simp add: copy_extra_def Let_def)
    then show ?thesis
      using Some m assms(3) by (cases "wr_block m off (take copy (i_next_in s))") (simp_all add: store_extra_def off_def)
  qed
qed

lemma inf_extra_fits:
  assumes "fits s" and "gzflags s AND 0x04 \<noteq> 0" and "w = take (inf_length s) (i_next_in s)" and "w \<noteq> []"
  shows "inf_extra crc s = or_fault (store_extra w (inf_length s) (i_gzhead s)) (\<lambda>h.
    let s = after_extra w h s in if inf_length s \<noteq> 0 then Leave Z_OK s else go inf_state_gzip_name (s\<lparr>inf_length := 0\<rparr>))"
proof -
  define copy where "copy = min (inf_length s) (i_avail_in s)"
  have w: "take copy (i_next_in s) = w" "length w = copy" "copy \<noteq> 0" using assms(3,4) by (auto simp: copy_def min_def)
  have "copy_extra copy s = map_option (\<lambda>h. s\<lparr>i_gzhead := h\<rparr>) (store_extra w (inf_length s) (i_gzhead s))"
    using copy_extra_fits [OF assms(1), of copy] w by (simp add: copy_def)
  then show ?thesis
    using assms(2) w unfolding inf_extra_def Let_def copy_def [symmetric] after_extra_def
    by (cases "store_extra w (inf_length s) (i_gzhead s)") (auto simp: or_fault_def update_stream_in_def)
qed

lemma wr_block_append: "wr_block m i (bs @ cs) = Option.bind (wr_block m i bs) (\<lambda>m. wr_block m (i + length bs) cs)"
  by (auto simp: wr_block_def add_ac)

lemma store_extra_append:
  assumes "\<And>g. h = Some g \<Longrightarrow> rest \<le> gz_extra_len g" and "length u \<le> rest"
  shows "store_extra (u @ v) rest h = Option.bind (store_extra u rest h) (store_extra v (rest - length u))"
proof (cases "h")
  case (Some g)
  define p where "p = gz_extra_len g - rest"
  have e: "gz_extra_len g - (rest - length u) = p + length u" using assms Some by (simp add: p_def)
  show ?thesis
  proof (cases "gz_extra g")
    case None
    then show ?thesis using Some by (simp add: store_extra_def)
  next
    case m: (Some m)
    then show ?thesis unfolding Some store_extra_def option.case m p_def [symmetric] wr_block_append
      by (cases "wr_block m p u") (simp_all add: map_option_case flip: e)
  qed
qed (simp add: store_extra_def)

lemma extra_pause_keeps:
  assumes "inf_extra crc s = Leave Z_OK s1"
  shows "inf_state s1 = inf_state s" "gzflags s1 = gzflags s" "gzflags s AND 0x04 \<noteq> 0"
    "i_gzhead s = Some g \<Longrightarrow> \<exists>g1. i_gzhead s1 = Some g1 \<and> gz_extra_len g1 = gz_extra_len g
       \<and> gz_extra_max g1 = gz_extra_max g \<and> (gz_extra g1 = None \<longleftrightarrow> gz_extra g = None)"
proof -
  show flag: "gzflags s AND 0x04 \<noteq> 0" using assms by (auto simp: inf_extra_def Let_def)
  define copy where "copy = min (inf_length s) (i_avail_in s)"
  show "inf_state s1 = inf_state s" "gzflags s1 = gzflags s"
    "i_gzhead s = Some g \<Longrightarrow> \<exists>g1. i_gzhead s1 = Some g1 \<and> gz_extra_len g1 = gz_extra_len g
       \<and> gz_extra_max g1 = gz_extra_max g \<and> (gz_extra g1 = None \<longleftrightarrow> gz_extra g = None)"
    using assms flag unfolding inf_extra_def Let_def copy_def [symmetric]
    by (auto simp: or_fault_def update_stream_in_def copy_extra_def Let_def bind_eq_Some_conv split: option.splits if_splits)
qed

lemma extra_pause:
  assumes run: "inf_extra crc s = Leave Z_OK s1" and st: "inf_state s = inf_state_gzip_extra"
    and "resumable s1" and "extra_ok s"
  shows "inf_extra crc (feed ys s) = inf_extra crc (feed ys s1) \<and> extra_ok s1"
proof -
  note keeps = extra_pause_keeps [OF run]
  define w where "w = take (inf_length s) (i_next_in s)"
  show ?thesis
  proof (cases "w = []")
    case True
    then have "inf_length s = 0 \<or> i_next_in s = []" by (simp add: w_def)
    then have "s1 = s" using run keeps(3) by (auto simp: inf_extra_def or_fault_def Let_def min_def split: if_splits)
    then show ?thesis using assms(4) by simp
  next
    case ne: False
    have fit: "fits s"
      using assms(3,4) st keeps by (fastforce simp: fits_def resumable_def extra_ok_def)
    obtain h where h: "store_extra w (inf_length s) (i_gzhead s) = Some h" and s1: "s1 = after_extra w h s"
      and more: "inf_length s - length w \<noteq> 0"
      using run unfolding inf_extra_fits [OF fit keeps(3) w_def ne] or_fault_def
      by (auto simp: Let_def after_extra_def split: option.splits if_splits)
    have w: "w = i_next_in s" "length w < inf_length s" using more by (auto simp: w_def)
    have f1: "i_next_in s1 = []" "inf_length s1 = inf_length s - length w" "i_gzhead s1 = h" "gzflags s1 = gzflags s"
        "inf_state s1 = inf_state s"
      using w by (simp_all add: s1 after_extra_def)
    have fit1: "fits s1" and ok1: "extra_ok s1"
    proof -
      have "fits s1"
        using fit h by (auto simp: fits_def f1 store_extra_def split: option.splits)
      then show "fits s1" "extra_ok s1" by (auto simp: fits_def extra_ok_def)
    qed
    show ?thesis
    proof (cases "ys = []")
      case True
      have "inf_extra crc s1 = Leave Z_OK s1" using keeps(3) more f1 by (simp add: inf_extra_def or_fault_def Let_def)
      then show ?thesis using True run ok1 by simp
    next
      case False
      define v where "v = take (inf_length s1) ys"
      have v: "v \<noteq> []" using False more by (simp add: v_def f1)
      have whole: "w @ v = take (inf_length (feed ys s)) (i_next_in (feed ys s))"
        using w by (simp add: v_def f1)
      have fits': "fits (feed ys s)" "fits (feed ys s1)" using fit fit1 by (simp_all add: fits_def)
      have same: "after_extra (w @ v) h2 (feed ys s) = after_extra v h2 (feed ys s1)" for h2
        using w by (simp add: s1 after_extra_def feed_def crc_append)
      have "store_extra (w @ v) (inf_length s) (i_gzhead s) = store_extra v (inf_length s1) h"
        using store_extra_append [of "i_gzhead s" "inf_length s" w v] fit w h by (auto simp: fits_def f1)
      then have "inf_extra crc (feed ys s) = inf_extra crc (feed ys s1)"
        using inf_extra_fits [OF fits'(1) _ whole] inf_extra_fits [OF fits'(2), of v] keeps(3) ne v
        by (simp add: f1 same) (simp add: v_def f1)
      then show ?thesis using ok1 by simp
    qed
  qed
qed

text \<open>A counted loop goes on where it stopped.\<close>

lemma held_pause:
  assumes run: "while_held crc (n - inf_held s) f k s = Leave Z_OK s1"
    and "\<And>c s. f c (feed ys s) = feed ys (f c s)"
    and "\<And>c s. inf_held (f c s) = inf_held s \<and> inf_state (f c s) = inf_state s \<and> gzflags (f c s) = gzflags s"
    and "\<And>s s1. k s \<noteq> Leave Z_OK s1"
  shows "while_held crc (n - inf_held s) f k (feed ys s) = while_held crc (n - inf_held s1) f k (feed ys s1)
    \<and> inf_state s1 = inf_state s \<and> gzflags s1 = gzflags s \<and> (inf_held s1 = 0 \<longrightarrow> s1 = s)"
proof -
  obtain m where "m \<le> n - inf_held s" "while_held crc (n - inf_held s) f k (feed ys s) = while_held crc m f k (feed ys s1)"
      "inf_held s1 = inf_held s + (n - inf_held s - m)" "inf_state s1 = inf_state s" "gzflags s1 = gzflags s"
      "m = n - inf_held s \<longrightarrow> s1 = s"
    using while_held_pause [of f ys k crc "n - inf_held s" s s1] assms by blast
  moreover from this have "n - inf_held s1 = m" by linarith
  ultimately show ?thesis by auto
qed

lemma step_pause:
  assumes run: "inf_step crc s = Leave Z_OK s1" and res: "resumable s1" and ok: "extra_ok s"
  shows "inf_step crc (feed ys s) = inf_step crc (feed ys s1) \<and> extra_ok s1"
proof (cases "inf_state s")
  case inf_state_gzip_mtime
  then have "while_held crc (4 - inf_held s) set_mtime (\<lambda>s. let s = s\<lparr>inf_held := 0\<rparr> in
        case i_gzhead s of None \<Rightarrow> go inf_state_gzip_xfl s
        | Some h \<Rightarrow> if gz_time h AND 0xffffffff80000000 \<noteq> 0 then Fault else go inf_state_gzip_xfl s) s = Leave Z_OK s1"
    using run by (simp add: inf_step_def inf_mtime_def set_mtime_def [abs_def])
  from held_pause [OF this, where ys = ys] inf_state_gzip_mtime show ?thesis
    by (simp add: inf_step_def inf_mtime_def set_mtime_def [abs_def] feed_upd extra_ok_def Let_def split: option.split)
next
  case inf_state_gzip_xlen
  then have flag: "gzflags s AND 0x04 \<noteq> 0" using run by (auto simp: inf_step_def inf_xlen_def Let_def)
  then have "while_held crc (2 - inf_held s) (\<lambda>c s. s\<lparr>inf_length := inf_length s OR push_bit (inf_held s * 8) (unat c)\<rparr>)
      (\<lambda>s. go inf_state_gzip_extra ((upd_gzhead (\<lambda>h. h\<lparr>gz_extra_len := inf_length s\<rparr>) s)\<lparr>inf_held := 0\<rparr>)) s = Leave Z_OK s1"
    using run inf_state_gzip_xlen by (simp add: inf_step_def inf_xlen_def Let_def)
  from held_pause [OF this, where ys = ys] inf_state_gzip_xlen flag show ?thesis
    by (simp add: inf_step_def inf_xlen_def feed_upd extra_ok_def Let_def)
next
  case inf_state_zlib_dictid
  then have "while_held crc (4 - inf_held s) (\<lambda>c s. s\<lparr>i_dict_id := push_bit 8 (i_dict_id s) OR ucast c\<rparr>)
      (\<lambda>s. go inf_state_zlib_dict (s\<lparr>i_zadler := i_dict_id s, inf_held := 0, i_dict_len := 0\<rparr>)) s = Leave Z_OK s1"
    using run by (simp add: inf_step_def inf_zlib_dictid_def)
  from held_pause [OF this, where ys = ys] inf_state_zlib_dictid show ?thesis
    by (simp add: inf_step_def inf_zlib_dictid_def feed_upd extra_ok_def)
next
  case inf_state_gzip_hcrc
  then have flag: "gzflags s AND 0x02 \<noteq> 0" using run by (auto simp: inf_step_def inf_hcrc_def Let_def)
  then have "while_held crc (2 - inf_held s) (\<lambda>c s. s\<lparr>hcrc16 := hcrc16 s OR ucast (push_bit (inf_held s * 8) (ucast c :: u32))\<rparr>)
      (\<lambda>s'. case i_gzhead s' of None \<Rightarrow> Fault
        | Some h \<Rightarrow> let s' = s'\<lparr>i_gzhead := Some (h\<lparr>gz_hcrc := 1, gz_done := 1\<rparr>)\<rparr> in
            if ucast (hcrc16 s') \<noteq> cksum s AND 0xffff then data_error ''header crc mismatch'' s'
            else go inf_state_inflate (s'\<lparr>inf_held := 0, i_crc32 := INIT_CRC, i_adler := INIT_CRC\<rparr>)) s = Leave Z_OK s1"
    using run inf_state_gzip_hcrc by (simp add: inf_step_def inf_hcrc_def Let_def)
  from held_pause [OF this, where ys = ys] inf_state_gzip_hcrc res have "s1 = s"
    by (auto simp: feed_upd resumable_def Let_def split: option.split)
  then show ?thesis using ok by simp
next
  case inf_state_gzip_name
  then have "inf_string crc 0x08 gz_name gz_name_max (\<lambda>d h. h\<lparr>gz_name := d\<rparr>) (\<lambda>s. go inf_state_gzip_comment (s\<lparr>inf_length := 0\<rparr>)) s = Leave Z_OK s1"
    using run by (simp add: inf_step_def inf_name_def)
  from string_pause(1) [OF this, where ys = ys] string_pause(2) [OF this] inf_state_gzip_name show ?thesis
    by (simp add: inf_step_def inf_name_def extra_ok_def)
next
  case inf_state_gzip_comment
  then have "inf_string crc 0x10 gz_comment gz_comm_max (\<lambda>d h. h\<lparr>gz_comment := d\<rparr>) (\<lambda>s. go inf_state_gzip_hcrc (s\<lparr>inf_length := 0, inf_held := 0\<rparr>)) s = Leave Z_OK s1"
    using run by (simp add: inf_step_def inf_comment_def)
  from string_pause(1) [OF this, where ys = ys] string_pause(2) [OF this] inf_state_gzip_comment show ?thesis
    by (simp add: inf_step_def inf_comment_def extra_ok_def)
next
  case inf_state_gzip_extra
  then have "inf_extra crc s = Leave Z_OK s1" using run by (simp add: inf_step_def)
  from extra_pause [OF this inf_state_gzip_extra res ok, where ys = ys] extra_pause_keeps(1) [OF this] inf_state_gzip_extra
  show ?thesis by (simp add: inf_step_def)
qed (use run ok in \<open>auto simp: inf_step_def inf_cases z_distinct Let_def byte_pause split: if_splits\<close>)

lemma run_pause:
  assumes "inf_run crc s = Some (Leave Z_OK s1)" and "resumable s1" and "extra_ok s"
  shows "inf_run crc (feed ys s) = inf_run crc (feed ys s1) \<and> extra_ok s1"
  using assms(1,3)
proof (induction "rank (inf_state s)" arbitrary: s rule: less_induct)
  case less
  show ?case
  proof (cases "inf_step crc s")
    case (Again s')
    have "\<not> stuck (inf_state s)" using inf_run_stuck [OF less.prems(1)] .
    then have "rank (inf_state s') < rank (inf_state s)" "extra_ok s'"
      using next_ok_step [of s crc] extra_ok_step [of crc s] Again by (simp_all add: next_ok_def)
    moreover have "inf_run crc s' = Some (Leave Z_OK s1)" using less.prems(1) inf_run_again [OF Again] by simp
    ultimately have "inf_run crc (feed ys s') = inf_run crc (feed ys s1) \<and> extra_ok s1" using less.hyps by blast
    moreover have "inf_step crc (feed ys s) = Again (feed ys s')"
      using steady_step [of ys crc s] Again by (intro steadyD) simp
    ultimately show ?thesis by (simp add: inf_run_again)
  next
    case (Leave rc s')
    then have "inf_step crc s = Leave Z_OK s1" using less.prems(1) inf_run_stop [OF Leave] by simp
    from step_pause [OF this assms(2) less.prems(2), of ys]
    have same: "inf_step crc (feed ys s) = inf_step crc (feed ys s1)" and ok: "extra_ok s1" by simp_all
    have "inf_run crc (feed ys s) = inf_run crc (feed ys s1)" by (subst (1 2) inf_run.simps) (simp add: same)
    then show ?thesis using ok by simp
  qed (use less.prems(1) inf_run_stop in fastforce)+
qed

end

text \<open>
  Claim C27. It does not matter where the input is cut: leaving the header machine for want of input and entering it again
  with more gives the same result, in every field, as one call with all of the input. The cut may be at any
  byte but between the two bytes of the header checksum, and inside an extra field if that is longer than
  the caller's buffer.
\<close>

theorem inflate_resume:
  assumes "inf_run lib_crc32 s = Some (Leave Z_OK s1)" and "resumable s1" and "extra_ok s"
  shows "inf_run lib_crc32 (feed ys s) = inf_run lib_crc32 (feed ys s1) \<and> extra_ok s1"
  using assms by (rule lib.run_pause)

definition id2_pause :: nx_inf where
  "id2_pause = inf_example\<lparr>i_total_in := 1, inf_state := inf_state_gzip_id2, ckbuf := 0x1f # replicate 127 0, ckidx := 1\<rparr>"

lemma id2_pause_run: "inf_run lib_crc32 (inf_example\<lparr>i_next_in := [0x1f]\<rparr>) = Some (Leave Z_OK id2_pause)"
proof -
  have blank: "replicate 128 (0 :: u8) = 0 # replicate 127 0" by (simp flip: replicate_Suc)
  define s1 where "s1 = inf_example\<lparr>i_next_in := [0x1f], inf_state := inf_state_gzip_id1\<rparr>"
  have "inf_step lib_crc32 (inf_example\<lparr>i_next_in := [0x1f]\<rparr>) = Again s1"
    by (simp add: inf_step_def inf_header_def inf_example_def s1_def go_def blank_header_def HEADER_ZLIB_def HEADER_GZIP_def)
  moreover have "inf_step lib_crc32 s1 = Again id2_pause"
    by (simp add: s1_def id2_pause_def inf_step_def expect_byte_def inf_example_def nx_inflate_get_byte_def
        wr_def or_fault_def update_stream_in_def go_def blank)
  moreover have "inf_step lib_crc32 id2_pause = Leave Z_OK id2_pause"
    by (simp add: id2_pause_def inf_step_def expect_byte_def inf_example_def nx_inflate_get_byte_def)
  ultimately show ?thesis by (simp add: inf_run_again inf_run_stop)
qed

theorem inflate_resume_witness:
  "inf_run lib_crc32 (inf_example\<lparr>i_next_in := [0x1f, 0x8b, 8]\<rparr>)
     = inf_run lib_crc32 (feed [0x8b, 8] id2_pause)"
proof -
  have "resumable id2_pause" "extra_ok (inf_example\<lparr>i_next_in := [0x1f]\<rparr>)"
    by (simp_all add: resumable_def extra_ok_def id2_pause_def inf_example_def)
  from inflate_resume [OF id2_pause_run this, of "[0x8b, 8]"] show ?thesis
    by (simp add: feed_def inf_example_def)
qed

section \<open>The cut that matters\<close>

definition accepts :: "inf_result option \<Rightarrow> bool" where
  "accepts r = (case r of Some (Body s) \<Rightarrow> True | _ \<Rightarrow> False)"

definition hcrc_value :: "u8 \<Rightarrow> u8 \<Rightarrow> u16" where
  "hcrc_value b0 b1 = ucast b0 OR push_bit 8 (ucast b1)"

lemma hcrc_bytes: "ucast (push_bit 0 (ucast b0 :: u32)) OR ucast (push_bit 8 (ucast b1 :: u32)) = hcrc_value b0 b1"
  unfolding hcrc_value_def by (rule bit_word_eqI) (auto simp: bit_simps)

lemma accepts_go: "accepts (case go inf_state_inflate s of Again s' \<Rightarrow> inf_run crc s' | r \<Rightarrow> Some r)"
  by (simp add: go_def) (subst inf_run.simps, simp add: inf_step_def accepts_def)

lemma accepts_error: "\<not> accepts (case data_error m s of Again s' \<Rightarrow> inf_run crc s' | r \<Rightarrow> Some r)"
  by (simp add: data_error_def) (subst inf_run.simps, simp add: inf_step_def accepts_def)

lemma accepts_if: "accepts (case (if b then data_error m s else go inf_state_inflate t) of Again s' \<Rightarrow> inf_run crc s' | r \<Rightarrow> Some r) \<longleftrightarrow> \<not> b"
  by (simp add: accepts_go accepts_error)

text \<open>
  Claim C29. A header with a checksum, seen at its two checksum bytes: delivered together they are compared with the checksum of the
  header, as they should be. Delivered in two calls they are compared with the checksum of the header
  and of the first of the two bytes, because reading a byte adds it to the running checksum and the next call takes
  that for the checksum of the header: a valid header is then rejected.
\<close>

theorem hcrc_cut:
  assumes "inf_state s = inf_state_gzip_hcrc" and "inf_held s = 0" and "hcrc16 s = 0" and "gzflags s AND 0x02 \<noteq> 0"
    and "i_gzhead s = Some h" and "ckidx s = 0" and "ckbuf s \<noteq> []" and "i_next_in s = [b0]"
  shows "accepts (inf_run crc (feed [b1] s)) = (ucast (hcrc_value b0 b1) = cksum s AND 0xffff)
    \<and> (\<exists>s1. inf_run crc s = Some (Leave Z_OK s1)
         \<and> accepts (inf_run crc (feed [b1] s1)) = (ucast (hcrc_value b0 b1) = crc (cksum s) [b0] AND 0xffff))"
proof -
  have wr: "wr (ckbuf s) 0 c = Some (c # tl (ckbuf s))" "wr (x # m) 0 c = Some (c # m)" for c x m
    using assms(7) by (cases "ckbuf s"; simp add: wr_def)+
  define s1 where "s1 = s\<lparr>ckbuf := b0 # tl (ckbuf s), i_next_in := [], i_total_in := Suc (i_total_in s), cksum := crc (cksum s) [b0],
     ckidx := 0, hcrc16 := ucast (ucast b0 :: u32), inf_held := Suc 0\<rparr>"
  note sim = inf_step_def inf_hcrc_def assms numeral_2_eq_2 nx_inflate_get_byte_def or_fault_def update_stream_in_def wr Let_def
  have "inf_step crc s = Leave Z_OK s1"
    by (simp add: sim s1_def)
  then have pause: "inf_run crc s = Some (Leave Z_OK s1)" by (rule inf_run_stop) simp
  have once: "accepts (inf_run crc (feed [b1] s)) = (ucast (hcrc_value b0 b1) = cksum s AND 0xffff)"
    by (subst inf_run.simps) (simp add: sim accepts_if hcrc_bytes [simplified])
  have "accepts (inf_run crc (feed [b1] s1)) = (ucast (hcrc_value b0 b1) = crc (cksum s) [b0] AND 0xffff)"
    by (subst inf_run.simps) (simp add: sim s1_def accepts_if hcrc_bytes [simplified])
  then show ?thesis using pause once by blast
qed

theorem hcrc_cut_witness:
  "\<exists>s1. inf_run lib_crc32 (inf_example\<lparr>inf_state := inf_state_gzip_hcrc, gzflags := 2, cksum := 0x77a7, i_next_in := [0xa7]\<rparr>)
       = Some (Leave Z_OK s1)
     \<and> accepts (inf_run lib_crc32 (feed [0x77] s1)) = (lib_crc32 0x77a7 [0xa7] AND 0xffff = 0x77a7)"
  using hcrc_cut [of "inf_example\<lparr>inf_state := inf_state_gzip_hcrc, gzflags := 2, cksum := 0x77a7, i_next_in := [0xa7]\<rparr>"
      _ "0xa7" lib_crc32 "0x77"]
  by (auto simp: inf_example_def hcrc_value_def)

end
