(* ===== verification/InflateSession.thy ===== *)
theory InflateSession
  imports InflateEntry InflateStream InflateResume
begin

text \<open>
  Whole sessions with \<^verbatim>\<open>nx_inflate\<close>: header and data come in pieces of any size, the output leaves in pieces of
  any size, and the user gets the decompressed data, once and in order.
\<close>

section \<open>What the header machine does not look at\<close>

text \<open>\<open>s\<close> with the fields of the decompressor taken from \<open>e\<close>.\<close>

definition with_eng :: "nx_inf \<Rightarrow> nx_inf \<Rightarrow> nx_inf" where
  "with_eng e s = s\<lparr>i_avail_out := i_avail_out e, i_total_out := i_total_out e, i_used_in := i_used_in e, i_cur_in := i_cur_in e,
     i_used_out := i_used_out e, i_cur_out := i_cur_out e, i_history_len := i_history_len e, resuming := resuming e,
     is_final := is_final e, trailer_len := trailer_len e\<rparr>"

lemma with_eng_simps [simp]:
  "i_next_in (with_eng e s) = i_next_in s" "inf_state (with_eng e s) = inf_state s" "inf_held (with_eng e s) = inf_held s"
  "i_gzhead (with_eng e s) = i_gzhead s" "gzflags (with_eng e s) = gzflags s" "inf_length (with_eng e s) = inf_length s"
  "cksum (with_eng e s) = cksum s" "ckbuf (with_eng e s) = ckbuf s" "ckidx (with_eng e s) = ckidx s" "hcrc16 (with_eng e s) = hcrc16 s"
  "i_wrap (with_eng e s) = i_wrap s" "zlib_cmf (with_eng e s) = zlib_cmf s" "i_dict_len (with_eng e s) = i_dict_len s"
  "i_dict_id (with_eng e s) = i_dict_id s" "i_total_in (with_eng e s) = i_total_in s" "with_eng s s = s"
  by (simp_all add: with_eng_def)

lemma with_eng_upd:
  "(with_eng e s)\<lparr>inf_state := a\<rparr> = with_eng e (s\<lparr>inf_state := a\<rparr>)" "(with_eng e s)\<lparr>i_gzhead := b\<rparr> = with_eng e (s\<lparr>i_gzhead := b\<rparr>)"
  "(with_eng e s)\<lparr>inf_held := n\<rparr> = with_eng e (s\<lparr>inf_held := n\<rparr>)" "(with_eng e s)\<lparr>inf_length := n\<rparr> = with_eng e (s\<lparr>inf_length := n\<rparr>)"
  "(with_eng e s)\<lparr>gzflags := f\<rparr> = with_eng e (s\<lparr>gzflags := f\<rparr>)" "(with_eng e s)\<lparr>i_wrap := n\<rparr> = with_eng e (s\<lparr>i_wrap := n\<rparr>)"
  "(with_eng e s)\<lparr>zlib_cmf := f\<rparr> = with_eng e (s\<lparr>zlib_cmf := f\<rparr>)" "(with_eng e s)\<lparr>hcrc16 := h\<rparr> = with_eng e (s\<lparr>hcrc16 := h\<rparr>)"
  "(with_eng e s)\<lparr>i_crc32 := w\<rparr> = with_eng e (s\<lparr>i_crc32 := w\<rparr>)" "(with_eng e s)\<lparr>i_adler := w\<rparr> = with_eng e (s\<lparr>i_adler := w\<rparr>)"
  "(with_eng e s)\<lparr>i_adler32 := w\<rparr> = with_eng e (s\<lparr>i_adler32 := w\<rparr>)" "(with_eng e s)\<lparr>i_dict_id := w\<rparr> = with_eng e (s\<lparr>i_dict_id := w\<rparr>)"
  "(with_eng e s)\<lparr>i_dict_len := n\<rparr> = with_eng e (s\<lparr>i_dict_len := n\<rparr>)" "(with_eng e s)\<lparr>i_zadler := w\<rparr> = with_eng e (s\<lparr>i_zadler := w\<rparr>)"
  "(with_eng e s)\<lparr>i_msg := m\<rparr> = with_eng e (s\<lparr>i_msg := m\<rparr>)" "(with_eng e s)\<lparr>cksum := w\<rparr> = with_eng e (s\<lparr>cksum := w\<rparr>)"
  "(with_eng e s)\<lparr>ckbuf := bs\<rparr> = with_eng e (s\<lparr>ckbuf := bs\<rparr>)" "(with_eng e s)\<lparr>ckidx := n\<rparr> = with_eng e (s\<lparr>ckidx := n\<rparr>)"
  "update_stream_in k (with_eng e s) = with_eng e (update_stream_in k s)" "feed bs (with_eng e s) = with_eng e (feed bs s)"
  by (simp_all add: with_eng_def update_stream_in_def feed_def)

definition on_state :: "(nx_inf \<Rightarrow> nx_inf) \<Rightarrow> inf_result \<Rightarrow> inf_result" where
  "on_state g r = (case r of Again s \<Rightarrow> Again (g s) | Leave rc s \<Rightarrow> Leave rc (g s) | NeedDict s \<Rightarrow> NeedDict (g s)
     | Body s \<Rightarrow> Body (g s) | Fault \<Rightarrow> Fault)"

lemma on_state_simps [simp]:
  "on_state g (Again s) = Again (g s)" "on_state g (Leave rc s) = Leave rc (g s)" "on_state g (NeedDict s) = NeedDict (g s)"
  "on_state g (Body s) = Body (g s)" "on_state g Fault = Fault"
  by (simp_all add: on_state_def)

lemma eng_go [simp]: "go st (with_eng e s) = on_state (with_eng e) (go st s)"
  "data_error m (with_eng e s) = on_state (with_eng e) (data_error m s)"
  by (simp_all add: go_def data_error_def with_eng_upd)

lemma eng_byte:
  assumes "\<And>c s. k c (with_eng e s) = on_state (with_eng e) (k c s)"
  shows "nx_inflate_get_byte crc k (with_eng e s) = on_state (with_eng e) (nx_inflate_get_byte crc k s)"
  using assms
  by (simp add: nx_inflate_get_byte_def or_fault_def Let_def with_eng_upd split: list.split option.split)

lemma eng_held:
  assumes "\<And>c s. f c (with_eng e s) = with_eng e (f c s)" and "\<And>s. k (with_eng e s) = on_state (with_eng e) (k s)"
  shows "while_held crc n f k (with_eng e s) = on_state (with_eng e) (while_held crc n f k s)"
proof (induction n arbitrary: s)
  case (Suc n)
  then show ?case unfolding while_held.simps by (intro eng_byte) (simp add: Let_def assms(1) with_eng_upd)
qed (simp add: assms(2))

lemma eng_string:
  assumes "\<And>s. k (with_eng e s) = on_state (with_eng e) (k s)"
  shows "inf_string crc flag dest mx set_dest k (with_eng e s) = on_state (with_eng e) (inf_string crc flag dest mx set_dest k s)"
  using assms by (simp add: inf_string_def or_fault_def Let_def with_eng_upd split: option.split prod.split)

lemma eng_extra: "inf_extra crc (with_eng e s) = on_state (with_eng e) (inf_extra crc s)"
proof -
  have "copy_extra n (with_eng e s) = map_option (with_eng e) (copy_extra n s)" for n
    by (auto simp: copy_extra_def Let_def with_eng_upd split: option.split bind_split)
  moreover define n where "n = min (inf_length s) (i_avail_in s)"
  ultimately show ?thesis
    unfolding inf_extra_def Let_def with_eng_simps n_def [symmetric]
    by (auto simp: or_fault_def with_eng_upd split: option.split bind_split)
qed

lemma inf_step_eng: "inf_step crc (with_eng e s) = on_state (with_eng e) (inf_step crc s)"
proof (cases "inf_state s")
  case inf_state_gzip_extra
  then show ?thesis by (simp add: inf_step_def eng_extra)
next
  case inf_state_gzip_name
  then show ?thesis by (simp add: inf_step_def inf_name_def eng_string with_eng_upd)
next
  case inf_state_gzip_comment
  then show ?thesis by (simp add: inf_step_def inf_comment_def eng_string with_eng_upd)
next
  case inf_state_gzip_hcrc
  then show ?thesis
    by (auto simp: inf_step_def inf_hcrc_def with_eng_upd Let_def split: option.split intro!: eng_held)
next
  case inf_state_gzip_xlen
  then show ?thesis
    by (auto simp: inf_step_def inf_xlen_def with_eng_upd Let_def split: option.split intro!: eng_held)
next
  case inf_state_gzip_mtime
  then show ?thesis
    by (auto simp: inf_step_def inf_mtime_def with_eng_upd Let_def split: option.split intro!: eng_held)
next
  case inf_state_zlib_dictid
  then show ?thesis
    by (auto simp: inf_step_def inf_zlib_dictid_def with_eng_upd Let_def split: option.split intro!: eng_held)
qed (auto simp: inf_step_def inf_header_def expect_byte_def inf_flg_def inf_xfl_def inf_os_def inf_zlib_id1_def inf_zlib_flg_def
    inf_zlib_dict_def with_eng_upd Let_def intro!: eng_byte)

text \<open>Induction along a run that ends.\<close>

lemma inf_run_induct [consumes 1, case_names again stop]:
  assumes run: "inf_run crc s = Some r"
    and again: "\<And>s s'. inf_step crc s = Again s' \<Longrightarrow> inf_run crc s' = Some r \<Longrightarrow> P s' \<Longrightarrow> P s"
    and stop: "\<And>s. inf_step crc s = r \<Longrightarrow> (\<And>s'. r \<noteq> Again s') \<Longrightarrow> \<not> stuck (inf_state s) \<Longrightarrow> P s"
  shows "P s"
  using run
proof (induction "rank (inf_state s)" arbitrary: s rule: less_induct)
  case less
  have alive: "\<not> stuck (inf_state s)" using inf_run_stuck [OF less.prems] .
  show ?case
  proof (cases "\<exists>s'. inf_step crc s = Again s'")
    case True
    then obtain s' where s': "inf_step crc s = Again s'" by blast
    then have "rank (inf_state s') < rank (inf_state s)" using next_ok_step [OF alive, of crc] by (simp add: next_ok_def)
    moreover have "inf_run crc s' = Some r" using less.prems inf_run_again [OF s'] by simp
    ultimately show ?thesis using again s' less.hyps by blast
  next
    case False
    then have "inf_run crc s = Some (inf_step crc s)" by (intro inf_run_stop) auto
    then show ?thesis using less.prems stop [of s] alive False by auto
  qed
qed

lemma inf_run_eng:
  assumes "inf_run crc s = Some r"
  shows "inf_run crc (with_eng e s) = Some (on_state (with_eng e) r)"
  using assms
proof (induction rule: inf_run_induct)
  case (again s s')
  then show ?case using inf_step_eng [of crc e s] by (simp add: inf_run_again)
next
  case (stop s)
  then have "inf_step crc (with_eng e s) = on_state (with_eng e) r" by (simp add: inf_step_eng)
  then show ?case using stop by (intro inf_run_stop) (auto simp: on_state_def split: inf_result.split_asm)
qed

text \<open>A run that ended without asking for more input ends the same way with more input.\<close>

lemma inf_run_steady:
  assumes "inf_run crc s = Some r"
  shows "\<exists>r'. inf_run crc (feed ys s) = Some r' \<and> steady ys r r'"
  using assms
proof (induction rule: inf_run_induct)
  case (again s s')
  then have "inf_step crc (feed ys s) = Again (feed ys s')" using steady_step [of ys crc s] by (intro steadyD) simp
  then show ?case using again by (simp add: inf_run_again)
next
  case (stop s)
  obtain r' where r': "inf_run crc (feed ys s) = Some r'" using inf_run_returns [of "feed ys s" crc] stop by auto
  have "steady ys r (inf_step crc (feed ys s))" using steady_step [of ys crc s] stop by simp
  then show ?case
    using stop(2) r' inf_run_stop [of crc "feed ys s" "fed ys r"] by (auto simp: steady_def fed_def split: inf_result.split_asm)
qed

section \<open>The header in pieces\<close>

text \<open>No cut of the input \<open>xs\<close> is one of those that matter, and none makes the machine fault.\<close>

definition cuttable :: "u8 list \<Rightarrow> nx_inf \<Rightarrow> bool" where
  "cuttable xs h \<longleftrightarrow>
     (\<forall>ys zs. xs = ys @ zs \<longrightarrow>
        (case inf_run lib_crc32 (feed ys h) of
           Some Fault \<Rightarrow> False
         | Some (Leave rc h1) \<Rightarrow> rc = Z_OK \<longrightarrow> resumable h1
         | _ \<Rightarrow> True))"

text \<open>The header machine in state \<open>h\<close> reaches the compressed data of \<open>d\<close> when it gets the input \<open>xs\<close>.\<close>

definition hd_ok :: "deflated \<Rightarrow> u8 list \<Rightarrow> nx_inf \<Rightarrow> bool" where
  "hd_ok d xs h \<longleftrightarrow>
     extra_ok h \<and> cuttable xs h
     \<and> (\<exists>b. inf_run lib_crc32 (feed xs h) = Some (Body b) \<and> i_next_in b = d_in d \<and> i_wrap b = d_wrap d \<and> i_dict_len b = 0)"

lemma feed_feed: "feed ys (feed xs h) = feed (xs @ ys) h"
  by (simp add: feed_def)

lemma hd_ok_alive: "hd_ok d xs h \<Longrightarrow> \<not> stuck (inf_state h)"
  using inf_run_stuck by (fastforce simp: hd_ok_def)

lemma hd_ok_eng:
  assumes "hd_ok d xs h"
  shows "hd_ok d xs (with_eng e h)"
proof -
  have "\<exists>r. inf_run lib_crc32 (feed ys h) = Some r" for ys
    using hd_ok_alive [OF assms] inf_run_returns [of "feed ys h"] by simp
  then have run: "inf_run lib_crc32 (feed ys (with_eng e h)) = map_option (on_state (with_eng e)) (inf_run lib_crc32 (feed ys h))" for ys
    using inf_run_eng [of lib_crc32 "feed ys h" _ e] by (metis option.simps(9) with_eng_upd(20))
  have res: "resumable (with_eng e t) = resumable t" for t by (simp add: resumable_def)
  have "cuttable xs (with_eng e h)"
    unfolding cuttable_def run
  proof (intro allI impI)
    fix ys zs
    assume "xs = ys @ zs"
    then have "case inf_run lib_crc32 (feed ys h) of Some Fault \<Rightarrow> False | Some (Leave rc h1) \<Rightarrow> rc = Z_OK \<longrightarrow> resumable h1 | _ \<Rightarrow> True"
      using assms by (simp only: hd_ok_def cuttable_def)
    then show "case map_option (on_state (with_eng e)) (inf_run lib_crc32 (feed ys h)) of
        Some Fault \<Rightarrow> False | Some (Leave rc h1) \<Rightarrow> rc = Z_OK \<longrightarrow> resumable h1 | _ \<Rightarrow> True"
      by (cases "inf_run lib_crc32 (feed ys h)") (auto simp: on_state_def res split: inf_result.splits)
  qed
  moreover have "extra_ok (with_eng e h)" using assms by (simp add: hd_ok_def extra_ok_def)
  ultimately show ?thesis using assms by (auto simp: hd_ok_def run)
qed

lemma hd_ok_feed:
  assumes "hd_ok d (xs @ ys) h"
  obtains b where "inf_run lib_crc32 (feed xs h) = Some (Body b)" and "i_next_in b @ ys = d_in d" and "i_wrap b = d_wrap d" and "i_dict_len b = 0"
  | h1 where "inf_run lib_crc32 (feed xs h) = Some (Leave Z_OK h1)" and "hd_ok d ys h1"
proof -
  obtain r where r: "inf_run lib_crc32 (feed xs h) = Some r"
    using hd_ok_alive [OF assms] inf_run_returns [of "feed xs h" lib_crc32] by auto
  obtain b where b: "inf_run lib_crc32 (feed ys (feed xs h)) = Some (Body b)" "i_next_in b = d_in d" "i_wrap b = d_wrap d" "i_dict_len b = 0"
    using assms by (auto simp: hd_ok_def feed_feed)
  have cut: "cuttable (xs @ ys) h" and extra: "extra_ok h" using assms by (simp_all add: hd_ok_def)
  have cases: "case Some r of Some Fault \<Rightarrow> False | Some (Leave rc h1) \<Rightarrow> rc = Z_OK \<longrightarrow> resumable h1 | _ \<Rightarrow> True"
    using cut unfolding cuttable_def r [symmetric] by blast
  have "steady ys r (Body b)" using inf_run_steady [OF r, of ys] b(1) by auto
  then consider (body) b1 where "r = Body b1" "b = feed ys b1" | (wait) h1 where "r = Leave Z_OK h1"
    using cases by (cases r) (auto simp: steady_def fed_def)
  then show ?thesis
  proof cases
    case body
    then show ?thesis using that(1) r b by simp
  next
    case wait
    have res: "resumable h1" using cases wait by simp
    have pause: "inf_run lib_crc32 (feed (xs @ zs) h) = inf_run lib_crc32 (feed zs h1) \<and> extra_ok h1" for zs
      using lib.run_pause [of "feed xs h" h1 zs] r wait res extra by (simp add: feed_feed extra_ok_def)
    have "cuttable ys h1"
      unfolding cuttable_def
    proof (intro allI impI)
      fix us vs
      assume "ys = us @ vs"
      then have "xs @ ys = (xs @ us) @ vs" by simp
      then show "case inf_run lib_crc32 (feed us h1) of Some Fault \<Rightarrow> False | Some (Leave rc h1) \<Rightarrow> rc = Z_OK \<longrightarrow> resumable h1 | _ \<Rightarrow> True"
        using cut pause [of us] unfolding cuttable_def by metis
    qed
    then have "hd_ok d ys h1" using pause [of ys] b by (simp add: hd_ok_def feed_feed)
    then show ?thesis using that(2) r wait by simp
  qed
qed

text \<open>The decompressor is entered in its own state only.\<close>

definition no_body :: "inf_result \<Rightarrow> bool" where
  "no_body r \<longleftrightarrow> (\<forall>b. r \<noteq> Body b)"

lemma no_body_simps [simp]: "no_body (Again s)" "no_body (Leave rc s)" "no_body (NeedDict s)" "no_body Fault" "\<not> no_body (Body s)"
    "no_body (go st s)" "no_body (data_error m s)"
  by (simp_all add: no_body_def go_def data_error_def)

lemma no_body_byte: "(\<And>c s. no_body (k c s)) \<Longrightarrow> no_body (nx_inflate_get_byte crc k s)"
  by (simp add: nx_inflate_get_byte_def or_fault_def Let_def split: list.split option.split)

lemma no_body_held: "(\<And>s. no_body (k s)) \<Longrightarrow> no_body (while_held crc n f k s)"
  by (induction n arbitrary: s) (simp_all add: Let_def no_body_byte)

lemma no_body_string: "(\<And>s. no_body (k s)) \<Longrightarrow> no_body (inf_string crc flag dest mx set_dest k s)"
  by (simp add: inf_string_def or_fault_def Let_def split: option.split prod.split)

lemma no_body_step: "inf_state s \<noteq> inf_state_inflate \<Longrightarrow> no_body (inf_step crc s)"
  by (cases "inf_state s")
    (auto simp: inf_step_def inf_cases Let_def or_fault_def split: option.split intro!: no_body_byte no_body_held no_body_string)

lemma inf_run_Body:
  assumes "inf_run crc s = Some (Body b)"
  shows "inf_state b = inf_state_inflate"
  using assms
proof (induction rule: inf_run_induct)
  case (stop s)
  then have "inf_state s = inf_state_inflate" using no_body_step [of s crc] by (auto simp: no_body_def)
  then show ?case using stop(1) by (auto simp: inf_step_def)
qed

lemma inf_run_inflate: "inf_state s = inf_state_inflate \<Longrightarrow> inf_run crc s = Some (Body s)"
  by (rule inf_run_stop) (simp_all add: inf_step_def)

section \<open>Sessions\<close>

text \<open>Before any data was decompressed.\<close>

definition clean :: "nx_core \<Rightarrow> bool" where
  "clean s \<longleftrightarrow>
     in_lay s \<and> i_used_in s = 0 \<and> i_used_out s = 0 \<and> i_cur_out s = INF_HIS_LEN \<and> i_total_out s = 0 \<and> resuming s = 0 \<and> is_final s = 0
     \<and> trailer_len s = 0 \<and> i_history_len s = 0 \<and> length (trailer s) = 9 \<and> length (in_dht s) = 18
     \<and> (i_fifo_out s = [] \<or> length (i_fifo_out s) = i_len_out s \<and> INF_MAX_EXPANSION_BYTES \<le> i_len_out s)"

definition in_session :: "deflated \<Rightarrow> u8 list \<Rightarrow> nx_core \<Rightarrow> bool" where
  "in_session d fut s \<longleftrightarrow> clean s \<and> hd_ok d fut (nx_inf.truncate s) \<or> (\<exists>t. midway d t fut s \<or> ended d t fut s)"

text \<open>What the user sees of one call.\<close>

definition delivers :: "deflated \<Rightarrow> nat \<Rightarrow> int \<Rightarrow> nx_core \<Rightarrow> bool" where
  "delivers d t rc s \<longleftrightarrow>
     take (i_next_out s) (i_obuf s) = drop t (take (i_total_out s) (d_out d)) \<and> i_total_out s = t + i_next_out s
     \<and> i_total_out s \<le> length (d_out d) \<and> (rc = Z_STREAM_END \<longrightarrow> i_total_out s = length (d_out d) \<and> trailer_ok d)"

lemma with_head_simps [simp]:
  "nx_inf.truncate (with_head h s) = h" "fifo_in (with_head h s) = fifo_in s" "len_in (with_head h s) = len_in s"
  "i_fifo_out (with_head h s) = i_fifo_out s" "i_len_out (with_head h s) = i_len_out s" "i_obuf (with_head h s) = i_obuf s"
  "i_next_out (with_head h s) = i_next_out s" "trailer (with_head h s) = trailer s" "in_dht (with_head h s) = in_dht s"
  "with_head (nx_inf.truncate s) s = s"
  by (cases s; simp add: with_head_def nx_inf.defs)+

lemma with_head_inf [simp]:
  "i_next_in (with_head h s) = i_next_in h" "i_avail_out (with_head h s) = i_avail_out h" "i_total_out (with_head h s) = i_total_out h"
  "i_wrap (with_head h s) = i_wrap h" "inf_state (with_head h s) = inf_state h" "i_dict_len (with_head h s) = i_dict_len h"
  "i_used_in (with_head h s) = i_used_in h" "i_cur_in (with_head h s) = i_cur_in h" "i_used_out (with_head h s) = i_used_out h"
  "i_cur_out (with_head h s) = i_cur_out h" "i_history_len (with_head h s) = i_history_len h" "resuming (with_head h s) = resuming h"
  "is_final (with_head h s) = is_final h" "trailer_len (with_head h s) = trailer_len h"
  by (cases s; simp add: with_head_def nx_inf.defs)+

lemma truncate_inf [simp]:
  "i_next_in (nx_inf.truncate s) = i_next_in s" "i_avail_out (nx_inf.truncate s) = i_avail_out s" "i_total_out (nx_inf.truncate s) = i_total_out s"
  "i_wrap (nx_inf.truncate s) = i_wrap s" "inf_state (nx_inf.truncate s) = inf_state s" "i_dict_len (nx_inf.truncate s) = i_dict_len s"
  "i_used_in (nx_inf.truncate s) = i_used_in s" "i_cur_in (nx_inf.truncate s) = i_cur_in s" "i_used_out (nx_inf.truncate s) = i_used_out s"
  "i_cur_out (nx_inf.truncate s) = i_cur_out s" "i_history_len (nx_inf.truncate s) = i_history_len s" "resuming (nx_inf.truncate s) = resuming s"
  "is_final (nx_inf.truncate s) = is_final s" "trailer_len (nx_inf.truncate s) = trailer_len s"
  by (simp_all add: nx_inf.defs)

lemma truncate_give: "nx_inf.truncate (give chunk buf s)
    = with_eng ((nx_inf.truncate s)\<lparr>i_avail_out := length buf\<rparr>) (feed chunk (nx_inf.truncate s))"
  by (simp add: give_def nx_inf.defs with_eng_def feed_def)

lemma hd_ok_more: "hd_ok d (xs @ ys) h \<Longrightarrow> hd_ok d ys (feed xs h)"
  by (auto simp: hd_ok_def cuttable_def feed_feed extra_ok_def)

lemma with_eng_eq:
  assumes "with_eng e s = s"
  shows "i_avail_out s = i_avail_out e" "i_total_out s = i_total_out e" "i_used_in s = i_used_in e" "i_cur_in s = i_cur_in e"
    "i_used_out s = i_used_out e" "i_cur_out s = i_cur_out e" "i_history_len s = i_history_len e" "resuming s = resuming e"
    "is_final s = is_final e" "trailer_len s = trailer_len e"
  using assms by (cases s; simp add: with_eng_def)+

text \<open>Entering the decompressor for the first time.\<close>

lemma first_entry:
  assumes "clean s" and "engine_ok env d" and "length (i_obuf s) = i_avail_out s" and "i_next_out s = 0" and "i_avail_out s < 2 ^ 31"
    and "i_fifo_out s \<noteq> []" and "i_next_in s @ fut = d_in d" and "i_wrap s = d_wrap d" and "i_dict_len s = 0" and "inf_state s = inf_state_inflate"
  shows "running d 0 0 0 fut s"
proof -
  have c: "in_lay s" "i_used_in s = 0" "i_used_out s = 0" "i_cur_out s = INF_HIS_LEN" "i_total_out s = 0" "resuming s = 0" "is_final s = 0"
    "trailer_len s = 0" "i_history_len s = 0" "length (trailer s) = 9" "length (in_dht s) = 18"
    "length (i_fifo_out s) = i_len_out s" "INF_MAX_EXPANSION_BYTES \<le> i_len_out s"
    using assms(1,6) by (auto simp: clean_def)
  have "fifo_lay s"
    using c by (simp add: fifo_lay_def INF_HIS_LEN_def INF_MAX_EXPANSION_BYTES_def INF_MIN_INPUT_LEN_def INF_MAX_COMPRESSION_RATIO_def)
  moreover have "user_lay s" using assms(3-5) by (simp add: user_lay_def)
  moreover have "out_split 0 [] s" using c assms(4) by (simp add: out_split_def pending_def)
  moreover have "history_in [] s" by (simp add: history_in_def)
  moreover have "unread s = i_next_in s" using c by (simp add: unread_def)
  moreover have "d_at d 0 (state_resume s) 0" using assms(2) c by (simp add: engine_ok_def state_resume_def)
  ultimately show ?thesis using c assms by (simp add: running_def)
qed

text \<open>One call.\<close>

lemma inf_return_end: "inf_return flsh before rc s = Z_STREAM_END \<Longrightarrow> rc = Z_STREAM_END"
  by (auto simp: inf_return_def z_codes split: if_splits)

lemma body_call:
  assumes env: "engine_ok env d" "env_ok env" and s: "midway d t fut s \<or> ended d t fut s" and out: "0 < i_avail_out s"
  obtains rc s' where "nx_inflate_body env flsh s = Some (Stop rc s')" and "in_session d fut s'" and "delivers d t rc s'"
proof -
  obtain rc s' where run: "nx_inflate_body env flsh s = Some (Stop rc s')" "stopped d t fut rc s'"
    using nx_inflate_body_ok [OF env s out] .
  have "in_session d fut s'" using run(2) by (auto simp: stopped_def in_session_def)
  moreover have "i_total_out s' \<le> length (d_out d)"
    using run(2) by (auto simp: stopped_def midway_def running_def ended_def out_split_def)
  then have "delivers d t rc s'" using stopped_output [OF run(2)] by (simp add: delivers_def)
  ultimately show ?thesis using that run(1) by blast
qed

lemma in_lay_outs [simp]: "in_lay (s\<lparr>i_len_out := n\<rparr>) = in_lay s" "in_lay (s\<lparr>i_fifo_out := m\<rparr>) = in_lay s"
    "in_lay (give chunk buf s) = in_lay s"
  by (simp_all add: in_lay_def give_def)

lemma alloc_fifo_out_cases:
  assumes "clean s" and "alloc_ok env"
  obtains n where "alloc_fifo_out env s = (Z_MEM_ERROR, s\<lparr>i_len_out := n\<rparr>)" and "i_fifo_out s = []"
  | m n where "alloc_fifo_out env s = (Z_OK, s\<lparr>i_fifo_out := m, i_len_out := n\<rparr>)" and "m \<noteq> []" and "length m = n" and "INF_MAX_EXPANSION_BYTES \<le> n"
proof (cases "i_fifo_out s = []")
  case True
  define n where "n = max (INF_HIS_LEN * 8) (max INF_MAX_EXPANSION_BYTES (INF_HIS_LEN * 2 + (length (i_next_in s) * 40) mod 2 ^ 32 div 100))"
  have n: "INF_MAX_EXPANSION_BYTES \<le> n" "0 < n" by (simp_all add: n_def INF_HIS_LEN_def)
  have "alloc_fifo_out env s = (case nx_alloc_buffer env n of None \<Rightarrow> (Z_MEM_ERROR, s\<lparr>i_len_out := n\<rparr>)
      | Some m \<Rightarrow> (Z_OK, s\<lparr>i_fifo_out := m, i_len_out := n\<rparr>))"
    unfolding alloc_fifo_out_def Let_def n_def [symmetric] if_P [OF True] ..
  moreover have "length m = n" if "nx_alloc_buffer env n = Some m" for m using assms(2) that by (simp add: alloc_ok_def)
  ultimately show ?thesis
  proof (cases "nx_alloc_buffer env n")
    case None
    with \<open>alloc_fifo_out env s = _\<close> show ?thesis by (intro that(1) [OF _ True]) simp
  next
    case (Some m)
    then have "length m = n" "m \<noteq> []" using \<open>\<And>m. nx_alloc_buffer env n = Some m \<Longrightarrow> length m = n\<close> n(2) by auto
    with \<open>alloc_fifo_out env s = _\<close> Some show ?thesis by (intro that(2) [OF _ _ _ n(1), of m]) simp_all
  qed
next
  case False
  then have "alloc_fifo_out env s = (Z_OK, s\<lparr>i_fifo_out := i_fifo_out s, i_len_out := i_len_out s\<rparr>)"
    by (simp add: alloc_fifo_out_def)
  then show ?thesis by (rule that(2)) (use False assms(1) in \<open>simp_all add: clean_def\<close>)
qed

text \<open>The three outcomes of a call before any data was decompressed.\<close>

lemma start_call:
  assumes env: "engine_ok env d" "env_ok env" and s: "clean s" "hd_ok d (chunk @ fut) (nx_inf.truncate s)"
    and call: "0 < length buf" "length buf < 2 ^ 31" "flsh \<noteq> Z_BLOCK" "flsh \<noteq> Z_TREES"
  obtains (memory) s' n where "nx_inflate lib_crc32 env flsh (give chunk buf s) = Some (Z_MEM_ERROR, s')" and "clean s'"
      and "hd_ok d fut (nx_inf.truncate s')" and "i_next_out s' = 0" and "nx_alloc_buffer env n = None"
  | (wait) rc s' where "nx_inflate lib_crc32 env flsh (give chunk buf s) = Some (rc, s')" and "rc \<noteq> Z_STREAM_END" and "clean s'"
      and "hd_ok d fut (nx_inf.truncate s')" and "i_next_out s' = 0" and "fut \<noteq> []"
  | (body) u v where "nx_inflate lib_crc32 env flsh (give chunk buf s) =
        (case nx_inflate_body env flsh u of Some (Stop rc s') \<Rightarrow> Some (inf_return flsh v rc s', s') | _ \<Rightarrow> None)"
      and "running d 0 0 0 fut u" and "i_avail_out u = length buf" and "i_used_out u = 0"
proof -
  define u where "u = give chunk buf s"
  define h where "h = nx_inf.truncate u"
  have hd: "hd_ok d fut h"
    using hd_ok_eng [OF hd_ok_more [OF s(2)]] s(1) by (simp add: h_def u_def truncate_give)
  have cu: "clean u" using s(1) by (simp add: u_def clean_def) (simp add: give_def)
  have alloc: "alloc_ok env" using env(2) by (simp add: env_ok_def)
  show ?thesis
  proof (rule alloc_fifo_out_cases [OF cu alloc])
    fix n
    assume fail: "alloc_fifo_out env u = (Z_MEM_ERROR, u\<lparr>i_len_out := n\<rparr>)" "i_fifo_out u = []"
    have "Z_OK \<noteq> Z_MEM_ERROR" by (simp add: z_codes)
    then have "\<exists>n. nx_alloc_buffer env n = None"
      using fail by (auto simp: alloc_fifo_out_def Let_def split: option.split_asm)
    then obtain m where none: "nx_alloc_buffer env m = None" by blast
    have "nx_inflate lib_crc32 env flsh u = Some (Z_MEM_ERROR, u\<lparr>i_len_out := n\<rparr>)"
      using call(3,4) fail by (simp add: nx_inflate_def z_codes)
    moreover have "clean (u\<lparr>i_len_out := n\<rparr>)" using cu fail(2) by (simp add: clean_def)
    moreover have "nx_inf.truncate (u\<lparr>i_len_out := n\<rparr>) = h" by (simp add: h_def nx_inf.defs)
    moreover have "i_next_out (u\<lparr>i_len_out := n\<rparr>) = 0" by (simp add: u_def give_def)
    ultimately show ?thesis using memory [OF _ _ _ _ none] hd by (simp add: u_def)
  next
    fix m n
    assume ok: "alloc_fifo_out env u = (Z_OK, u\<lparr>i_fifo_out := m, i_len_out := n\<rparr>)" "m \<noteq> []" "length m = n" "INF_MAX_EXPANSION_BYTES \<le> n"
    define v where "v = u\<lparr>i_fifo_out := m, i_len_out := n\<rparr>"
    have v: "clean v" "nx_inf.truncate v = h" "i_next_out v = 0" "length (i_obuf v) = length buf" "i_avail_out v = length buf" "i_fifo_out v \<noteq> []"
    proof -
      show "clean v" using cu ok(2-4) by (simp add: v_def clean_def)
      show "nx_inf.truncate v = h" by (simp add: v_def h_def nx_inf.defs)
      show "i_next_out v = 0" "length (i_obuf v) = length buf" "i_avail_out v = length buf" "i_fifo_out v \<noteq> []"
        using ok(2) by (simp_all add: v_def) (simp_all add: u_def give_def)
    qed
    have same: "clean (with_head h' v) \<and> i_avail_out h' = length buf" if "with_eng h h' = h'" for h'
    proof -
      note eq = with_eng_eq [OF that]
      have "in_lay (with_head h' v) = in_lay v" using eq unfolding v(2) [symmetric] by (simp add: in_lay_def)
      then show ?thesis using eq v unfolding v(2) [symmetric] by (simp add: clean_def)
    qed
    have run: "nx_inflate lib_crc32 env flsh u =
        (case inf_run lib_crc32 h of
           Some (Leave rc h') \<Rightarrow> Some (inf_return flsh v rc (with_head h' v), with_head h' v)
         | Some (NeedDict h') \<Rightarrow> Some (Z_NEED_DICT, with_head h' v)
         | Some (Body h') \<Rightarrow>
             (case nx_inflate_body env flsh (with_head h' v) of
                Some (Stop rc s') \<Rightarrow> Some (inf_return flsh v rc s', s') | _ \<Rightarrow> None)
         | _ \<Rightarrow> None)"
      using call(3,4) ok(1) v(2) by (simp add: nx_inflate_def Let_def flip: v_def split: option.split inf_result.split)
    have hd0: "hd_ok d ([] @ fut) h" using hd by simp
    show ?thesis
    proof (rule hd_ok_feed [OF hd0])
      fix b
      assume b: "inf_run lib_crc32 (feed [] h) = Some (Body b)" "i_next_in b @ fut = d_in d" "i_wrap b = d_wrap d" "i_dict_len b = 0"
      then have eng: "with_eng h b = b" using inf_run_eng [of lib_crc32 h "Body b" h] by simp
      have "running d 0 0 0 fut (with_head b v)"
        using first_entry [of "with_head b v" env d fut] same [OF eng] env(1) v call(2) b inf_run_Body [of lib_crc32 h b] by simp
      moreover have "nx_inflate lib_crc32 env flsh u =
          (case nx_inflate_body env flsh (with_head b v) of Some (Stop rc s') \<Rightarrow> Some (inf_return flsh v rc s', s') | _ \<Rightarrow> None)"
        using run b(1) by simp
      moreover have "i_used_out (with_head b v) = 0" using same [OF eng] by (simp add: clean_def)
      ultimately show ?thesis using same [OF eng] by (intro body [of v "with_head b v"]) (simp_all add: u_def)
    next
      fix h1
      assume h1: "inf_run lib_crc32 (feed [] h) = Some (Leave Z_OK h1)" "hd_ok d fut h1"
      then have eng: "with_eng h h1 = h1" using inf_run_eng [of lib_crc32 h "Leave Z_OK h1" h] by simp
      have "nx_inflate lib_crc32 env flsh u = Some (inf_return flsh v Z_OK (with_head h1 v), with_head h1 v)" using run h1(1) by simp
      moreover have "inf_return flsh v Z_OK (with_head h1 v) \<noteq> Z_STREAM_END" by (auto simp: inf_return_def z_codes)
      moreover have "fut \<noteq> []" using hd h1(1) by (auto simp: hd_ok_def)
      ultimately show ?thesis using wait same [OF eng] h1(2) v(3) by (simp add: u_def)
    qed
  qed
qed

lemma call_ok:
  assumes env: "engine_ok env d" "env_ok env" and s: "in_session d (chunk @ fut) s"
    and call: "0 < length buf" "length buf < 2 ^ 31" "flsh \<noteq> Z_BLOCK" "flsh \<noteq> Z_TREES"
  obtains rc s' where "nx_inflate lib_crc32 env flsh (give chunk buf s) = Some (rc, s')" and "in_session d fut s'"
    and "delivers d (i_total_out s) rc s'"
proof -
  define u where "u = give chunk buf s"
  show ?thesis
  proof (cases "\<exists>t. midway d t (chunk @ fut) s \<or> ended d t (chunk @ fut) s")
    case True
    then have u: "midway d (i_total_out s) fut u \<or> ended d (i_total_out s) fut u"
      using give_ok [OF call(2)] by (auto simp: u_def)
    then have st: "inf_state u = inf_state_inflate" "fifo_lay u" by (auto simp: midway_def running_def ended_def)
    then have "i_fifo_out u \<noteq> []" by (auto simp: fifo_lay_def INF_MAX_EXPANSION_BYTES_def INF_MIN_INPUT_LEN_def INF_MAX_COMPRESSION_RATIO_def)
    then have alloc: "alloc_fifo_out env u = (Z_OK, u)" by (simp add: alloc_fifo_out_def)
    have out: "0 < i_avail_out u" using call(1) by (simp add: u_def give_def)
    obtain rc s' where b: "nx_inflate_body env flsh u = Some (Stop rc s')" "in_session d fut s'" "delivers d (i_total_out s) rc s'"
      using body_call [OF env u out] .
    have "nx_inflate lib_crc32 env flsh u = Some (inf_return flsh u rc s', s')"
      using call(3,4) alloc b(1) inf_run_inflate [of "nx_inf.truncate u" lib_crc32] st(1) by (simp add: nx_inflate_def)
    moreover have "delivers d (i_total_out s) (inf_return flsh u rc s') s'"
      using b(3) inf_return_end by (auto simp: delivers_def)
    ultimately show ?thesis using that b(2) by (simp add: u_def)
  next
    case False
    then have cs: "clean s" "hd_ok d (chunk @ fut) (nx_inf.truncate s)" using s by (auto simp: in_session_def)
    have idle: "delivers d (i_total_out s) rc s'" if "clean s'" "i_next_out s' = 0" "rc \<noteq> Z_STREAM_END" for rc s'
      using that cs(1) by (simp add: delivers_def clean_def)
    show ?thesis
    proof (rule start_call [OF env cs call])
      fix s' n
      assume m: "nx_inflate lib_crc32 env flsh (give chunk buf s) = Some (Z_MEM_ERROR, s')" "clean s'"
        "hd_ok d fut (nx_inf.truncate s')" "i_next_out s' = 0"
      have "delivers d (i_total_out s) Z_MEM_ERROR s'" by (rule idle [OF m(2,4)]) (simp add: z_codes)
      then show ?thesis using that m(1-3) by (simp add: in_session_def)
    next
      fix rc s'
      assume w: "nx_inflate lib_crc32 env flsh (give chunk buf s) = Some (rc, s')" "rc \<noteq> Z_STREAM_END" "clean s'"
        "hd_ok d fut (nx_inf.truncate s')" "i_next_out s' = 0"
      have "delivers d (i_total_out s) rc s'" by (rule idle [OF w(3,5,2)])
      then show ?thesis using that w(1,3,4) by (simp add: in_session_def)
    next
      fix w v
      assume b: "nx_inflate lib_crc32 env flsh (give chunk buf s) =
          (case nx_inflate_body env flsh w of Some (Stop rc s') \<Rightarrow> Some (inf_return flsh v rc s', s') | _ \<Rightarrow> None)"
        "running d 0 0 0 fut w" "i_avail_out w = length buf"
      have "midway d 0 fut w" using b(2) by (auto simp: midway_def)
      then obtain rc s' where r: "nx_inflate_body env flsh w = Some (Stop rc s')" "in_session d fut s'" "delivers d 0 rc s'"
        using body_call [OF env, of 0 fut w flsh] b(3) call(1) by auto
      have "delivers d (i_total_out s) (inf_return flsh v rc s') s'"
        using r(3) cs(1) inf_return_end by (auto simp: delivers_def clean_def)
      then show ?thesis using that r(1,2) b(1) by simp
    qed
  qed
qed

text \<open>
  A sequence of calls, each with more input, an output buffer and a flush value: what the user gets, the return codes
  and the last state.
\<close>

type_synonym inf_call = "u8 list \<times> u8 list \<times> int"

primrec inflate_calls :: "nx_env \<Rightarrow> inf_call list \<Rightarrow> nx_core \<Rightarrow> (u8 list \<times> int list \<times> nx_core) option" where
  "inflate_calls env [] s = Some ([], [], s)"
| "inflate_calls env (c # cs) s =
     (case c of (chunk, buf, flsh) \<Rightarrow>
        do {
          (rc, s1) \<leftarrow> nx_inflate lib_crc32 env flsh (give chunk buf s);
          (out, rcs, s2) \<leftarrow> inflate_calls env cs s1;
          Some (take (i_next_out s1) (i_obuf s1) @ out, rc # rcs, s2)
        })"

definition call_valid :: "inf_call \<Rightarrow> bool" where
  "call_valid c \<longleftrightarrow> (case c of (chunk, buf, flsh) \<Rightarrow> 0 < length buf \<and> length buf < 2 ^ 31 \<and> flsh \<noteq> Z_BLOCK \<and> flsh \<noteq> Z_TREES)"

lemma calls_ok:
  assumes "engine_ok env d" and "env_ok env" and "in_session d (concat (map fst cs) @ fut) s" and "\<forall>c \<in> set cs. call_valid c"
    and "i_total_out s \<le> length (d_out d)"
  shows "\<exists>out rcs s'. inflate_calls env cs s = Some (out, rcs, s') \<and> in_session d fut s' \<and> i_total_out s \<le> i_total_out s'
    \<and> i_total_out s' \<le> length (d_out d) \<and> out = drop (i_total_out s) (take (i_total_out s') (d_out d))
    \<and> (Z_STREAM_END \<in> set rcs \<longrightarrow> i_total_out s' = length (d_out d) \<and> trailer_ok d)"
  using assms(3-5)
proof (induction cs arbitrary: s)
  case (Cons c cs)
  obtain chunk buf flsh where c: "c = (chunk, buf, flsh)" by (cases c)
  then have valid: "0 < length buf" "length buf < 2 ^ 31" "flsh \<noteq> Z_BLOCK" "flsh \<noteq> Z_TREES"
    using Cons.prems(2) by (simp_all add: call_valid_def)
  have "in_session d (chunk @ concat (map fst cs) @ fut) s" using Cons.prems(1) c by simp
  then obtain rc s1 where s1: "nx_inflate lib_crc32 env flsh (give chunk buf s) = Some (rc, s1)"
      "in_session d (concat (map fst cs) @ fut) s1" "delivers d (i_total_out s) rc s1"
    using call_ok [OF assms(1,2) _ valid] by metis
  then have del: "take (i_next_out s1) (i_obuf s1) = drop (i_total_out s) (take (i_total_out s1) (d_out d))"
      "i_total_out s \<le> i_total_out s1" "i_total_out s1 \<le> length (d_out d)"
      "rc = Z_STREAM_END \<Longrightarrow> i_total_out s1 = length (d_out d) \<and> trailer_ok d"
    by (simp_all add: delivers_def)
  then obtain out rcs s2 where s2: "inflate_calls env cs s1 = Some (out, rcs, s2)" "in_session d fut s2" "i_total_out s1 \<le> i_total_out s2"
      "i_total_out s2 \<le> length (d_out d)" "out = drop (i_total_out s1) (take (i_total_out s2) (d_out d))"
      "Z_STREAM_END \<in> set rcs \<longrightarrow> i_total_out s2 = length (d_out d) \<and> trailer_ok d"
    using Cons.IH [OF s1(2)] Cons.prems(2) by (metis list.set_intros(2))
  have "drop a (take b xs) @ drop b (take e xs) = drop a (take e xs)" if "a \<le> b" "b \<le> e" "e \<le> length xs" for a b e and xs :: "u8 list"
  proof -
    have "take b xs @ drop b (take e xs) = take e xs"
      using that append_take_drop_id [of b "take e xs"] by (simp add: min_absorb1)
    then have "drop a (take e xs) = drop a (take b xs @ drop b (take e xs))" by simp
    then show ?thesis using that by simp
  qed
  then have "take (i_next_out s1) (i_obuf s1) @ out = drop (i_total_out s) (take (i_total_out s2) (d_out d))"
    using del s2 by simp
  moreover have "inflate_calls env (c # cs) s = Some (take (i_next_out s1) (i_obuf s1) @ out, rc # rcs, s2)"
    using c s1(1) s2(1) by simp
  moreover have "Z_STREAM_END \<in> set (rc # rcs) \<longrightarrow> i_total_out s2 = length (d_out d) \<and> trailer_ok d"
    using del(3,4) s2(3,4,6) by auto
  moreover have "i_total_out s \<le> i_total_out s2" using del(2) s2(3) by (rule order_trans)
  ultimately show ?case using s2(2,4) by blast
qed simp

text \<open>A stream before its first byte, the header of which will lead to the compressed data of \<open>d\<close>.\<close>

definition starts :: "deflated \<Rightarrow> u8 list \<Rightarrow> nx_core \<Rightarrow> bool" where
  "starts d input s \<longleftrightarrow> clean s \<and> hd_ok d input (nx_inf.truncate s)"

text \<open>
  Claim C2. A session with inflate: if the accelerator, the allocator and the calls are in order, then wherever the input is
  cut and however small the output buffers are, every call returns without a fault and the user gets a
  prefix of the decompressed data; when a call reports the end of the stream he has got all of it, and the
  trailer of the stream has the right checksum and length.
\<close>

theorem inflate_session:
  assumes "engine_ok env d" and "env_ok env" and "starts d (concat (map fst cs) @ fut) s" and "\<forall>c \<in> set cs. call_valid c"
  shows "\<exists>out rcs s' rest. inflate_calls env cs s = Some (out, rcs, s') \<and> d_out d = out @ rest
    \<and> (Z_STREAM_END \<in> set rcs \<longrightarrow> rest = [] \<and> trailer_ok d)"
proof -
  have s: "in_session d (concat (map fst cs) @ fut) s" "i_total_out s = 0"
    using assms(3) by (simp_all add: starts_def in_session_def clean_def)
  then obtain out rcs s' where c: "inflate_calls env cs s = Some (out, rcs, s')" "i_total_out s' \<le> length (d_out d)"
      "out = take (i_total_out s') (d_out d)" "Z_STREAM_END \<in> set rcs \<longrightarrow> i_total_out s' = length (d_out d) \<and> trailer_ok d"
    using calls_ok [OF assms(1,2) s(1) assms(4)] by auto
  have "d_out d = out @ drop (i_total_out s') (d_out d)" using c(3) by simp
  then show ?thesis using c by (metis append.right_neutral append_take_drop_id drop_all order_refl same_append_eq)
qed

section \<open>An accelerator that knows one stream\<close>

text \<open>The raw stream of the letter a, in a block with the fixed code.\<close>

definition tiny_in :: "u8 list" where "tiny_in = [0x4b, 0x04, 0x00]"
definition tiny_out :: "u8 list" where "tiny_out = [0x61]"

definition tiny :: deflated where
  "tiny = \<lparr>d_wrap = HEADER_RAW, d_in = tiny_in, d_out = tiny_out, d_end = 3,
     d_at = (\<lambda>p r n. n = 0 \<and> (p = 0 \<and> r = Fresh \<or> (p = 1 \<or> p = 2) \<and> r = FixedHuffman 11 0))\<rparr>"

text \<open>It uses every byte, but produces the letter only when it has seen the last byte.\<close>

definition tiny_job :: "nat \<Rightarrow> nx_job \<Rightarrow> nx_resp" where
  "tiny_job i j =
     (let data = drop (16 * getnn 11 12 (j_histlen_subc j)) (j_source j);
          r = \<lparr>r_cc = ERR_NX_OK, r_ce = 0, r_subc_word = 0, r_sfbt_rem = 0, r_dht = [], r_spbc = length (j_source j), r_tpbc = 1,
               r_crc = crc_field tiny_out, r_adler = adler_field tiny_out, r_out = tiny_out\<rparr>
      in if last data \<noteq> 0
         then r\<lparr>r_cc := ERR_NX_DATA_LENGTH, r_ce := 128, r_sfbt_rem := put_in_sfbt 11 0, r_tpbc := 0, r_crc := INIT_CRC,
                r_adler := INIT_ADLER, r_out := []\<rparr>
         else if j_target j = 0 then r\<lparr>r_cc := ERR_NX_TARGET_SPACE, r_out := []\<rparr>
         else r)"

definition tiny_env :: nx_env where
  "tiny_env = \<lparr>per_job_len = 1048576, cache_threshold = 10, timeout_ticks = 100, nx_alloc_buffer = (\<lambda>n. Some (replicate n 0)),
     nx_wait_ticks = Suc, nx_submit_job = tiny_job, before_input = 0\<rparr>"

lemma tiny_last:
  assumes "0 < k" and "p + k \<le> 3"
  shows "last (take k (drop p tiny_in)) = 0 \<longleftrightarrow> p + k = 3"
proof -
  have "last (take k (drop p tiny_in)) = tiny_in ! (p + k - 1)"
    using assms by (subst last_conv_nth) (auto simp: tiny_in_def)
  moreover have "p + k - 1 = 0 \<or> p + k - 1 = 1 \<or> p + k - 1 = 2" using assms by linarith
  ultimately show ?thesis using assms by (auto simp: tiny_in_def)
qed

lemma tiny_sfbt: "get_out_sfbt (put_in_sfbt 11 0) = 11"
  by (simp add: getnn_putnn)

lemma tiny_suspended: "r_ce r = 128 \<Longrightarrow> suspended r"
  by (simp add: suspended_def csb_ce_termination_def csb_ce_partial_completion_def drop_bit_eq_div)

lemma tiny_jobs:
  assumes "resumes tiny j p n h k"
  shows "n = 0" and "0 < k" and "p + k \<le> 3" and "length (j_source j) = length h + k"
    and "last (drop (16 * getnn 11 12 (j_histlen_subc j)) (j_source j)) = 0 \<longleftrightarrow> p + k = 3"
proof -
  have r: "n = 0" "0 < k" "p + k \<le> 3" "j_source j = h @ take k (drop p tiny_in)" "length h = 16 * getnn 11 12 (j_histlen_subc j)"
    using assms by (simp_all add: resumes_def tiny_def tiny_in_def)
  then show "n = 0" "0 < k" "p + k \<le> 3" "length (j_source j) = length h + k" by (simp_all add: tiny_in_def)
  show "last (drop (16 * getnn 11 12 (j_histlen_subc j)) (j_source j)) = 0 \<longleftrightarrow> p + k = 3"
    using tiny_last [OF r(2,3)] r(4,5) by simp
qed

lemma tiny_engine: "engine_ok tiny_env tiny"
proof -
  have "answers tiny j p n (length h) k (tiny_job i j)" if "resumes tiny j p n h k" for i j p n h k
  proof -
    note t = tiny_jobs [OF that]
    show ?thesis
    proof (cases "p + k = 3")
      case True
      then show ?thesis
        using t by (simp add: tiny_job_def Let_def answers_def produces_def err_nx_codes) (simp add: tiny_def tiny_out_def)
    next
      case False
      then have "p + k = 1 \<or> p + k = 2" using t(2,3) by linarith
      then show ?thesis
        using False t
        by (simp add: tiny_job_def Let_def answers_def err_nx_codes tiny_sfbt tiny_suspended)
          (simp add: produces_def resp_resume_def tiny_sfbt read_resume_def tiny_def crc_field_Nil adler_field_Nil)
    qed
  qed
  then show ?thesis by (simp add: engine_ok_def tiny_env_def) (simp add: tiny_def tiny_in_def tiny_out_def)
qed

lemma tiny_env_ok: "env_ok tiny_env"
  by (auto simp: env_ok_def alloc_ok_def fair_def tiny_env_def tiny_job_def Let_def err_nx_codes INF_MAX_COMPRESSION_RATIO_def)

text \<open>A new raw stream.\<close>

definition raw_stream :: nx_core where
  "raw_stream = nx_inflateReset ((zero_stream [])\<lparr>i_wrap := HEADER_RAW, i_windowBits := 15\<rparr>)"

lemma raw_stream_init: "nx_inflateInit2 True True True (-15) [] = (Z_OK, Some raw_stream)"
  by (simp add: nx_inflateInit2_def nx_inflateReset2_def wrap_request_def raw_stream_def)

lemma raw_starts: "starts (d\<lparr>d_wrap := HEADER_RAW, d_in := input\<rparr>) input raw_stream"
proof -
  define h where "h = nx_inf.truncate raw_stream"
  have h: "i_wrap h = HEADER_RAW" "inf_state h = inf_state_header" "i_next_in h = []" "i_dict_len h = 0"
    by (simp_all add: h_def raw_stream_def nx_inflateReset_def nx_inflateResetKeep_def zero_stream_def Let_def)
  have run: "inf_run lib_crc32 (feed ys h)
      = Some (Body ((feed ys h)\<lparr>i_crc32 := INIT_CRC, i_adler32 := INIT_ADLER, inf_state := inf_state_inflate\<rparr>))" for ys
  proof -
    have "inf_step lib_crc32 (feed ys h) = Again ((feed ys h)\<lparr>i_crc32 := INIT_CRC, i_adler32 := INIT_ADLER, inf_state := inf_state_inflate\<rparr>)"
      using h by (simp add: inf_step_def inf_header_def go_def HEADER_RAW_def HEADER_ZLIB_def HEADER_GZIP_def)
    then show ?thesis by (simp add: inf_run_again inf_run_inflate)
  qed
  have "hd_ok (d\<lparr>d_wrap := HEADER_RAW, d_in := input\<rparr>) input h"
    using h by (simp add: hd_ok_def cuttable_def run extra_ok_def)
  moreover have "clean raw_stream"
    by (simp add: clean_def raw_stream_def nx_inflateReset_def nx_inflateResetKeep_def zero_stream_def Let_def in_lay_def)
  ultimately show ?thesis by (simp add: starts_def h_def)
qed

theorem inflate_session_witness:
  "\<exists>out rcs s' rest. inflate_calls tiny_env [([0x4b, 0x04], [0], Z_NO_FLUSH), ([0x00], [0, 0], Z_FINISH)] raw_stream = Some (out, rcs, s')
     \<and> [0x61] = out @ rest \<and> (Z_STREAM_END \<in> set rcs \<longrightarrow> rest = [] \<and> trailer_ok tiny)"
proof -
  have "starts tiny tiny_in raw_stream" using raw_starts [of tiny_in tiny] by (simp add: tiny_def)
  then have "starts tiny (concat (map fst [([0x4b, 0x04], [0], Z_NO_FLUSH), ([0x00], [0 :: u8, 0], Z_FINISH)]) @ []) raw_stream"
    by (simp add: tiny_in_def)
  moreover have "\<forall>c \<in> set [([0x4b, 0x04], [0], Z_NO_FLUSH), ([0x00], [0, 0], Z_FINISH)]. call_valid c"
    by (simp add: call_valid_def flush_codes Z_TREES_def)
  moreover have "d_out tiny = [0x61]" by (simp add: tiny_def tiny_out_def)
  ultimately show ?thesis using inflate_session [OF tiny_engine tiny_env_ok] by metis
qed

end
