(* ===== verification/InflateLive.thy ===== *)
theory InflateLive
  imports InflateSession
begin

text \<open>
  Progress: a stream whose data is all decompressed gets its verdict, and one call with all of the input and
  enough room reaches the end of the stream.
\<close>

section \<open>The verdict\<close>

text \<open>The last bytes of the stream, which \<open>fut\<close> does not reach in to, are there.\<close>

lemma ended_trailer_there:
  assumes "ended d t fut s" and "trailer_len s < trailer_need (d_wrap d) \<Longrightarrow> unread s = []"
    and "d_end d + trailer_need (d_wrap d) + length fut \<le> length (d_in d)"
  shows "trailer_len s = trailer_need (d_wrap d)"
proof (rule ccontr)
  assume "trailer_len s \<noteq> trailer_need (d_wrap d)"
  then have less: "trailer_len s < trailer_need (d_wrap d)" using assms(1) by (simp add: ended_def)
  have rest: "drop (d_end d + trailer_len s) (d_in d) = unread s @ fut" using assms(1) by (simp add: ended_def)
  have "length (d_in d) - (d_end d + trailer_len s) = length fut"
    using arg_cong [OF rest, of length] assms(2) [OF less] by simp
  then show False using less assms(3) by linarith
qed

definition verdict :: "deflated \<Rightarrow> int" where
  "verdict d = (if trailer_ok d then Z_STREAM_END else Z_STREAM_ERROR)"

lemma verify_verdict:
  assumes "ended d t fut s" and "i_used_out s = 0" and "d_end d + trailer_need (d_wrap d) + length fut \<le> length (d_in d)"
  obtains s' where "nx_inflate_verify_checksum 2 s = Some (verdict d, s')" and "ended d t fut s'" and "i_used_out s' = 0"
proof -
  obtain c where c: "trailer_copy s = Some c" "ended d t fut c" "i_used_out c = 0"
      "trailer_len c < trailer_need (d_wrap d) \<Longrightarrow> unread c = []"
    using trailer_copy_ended [OF assms(1)] assms(2) by metis
  have "trailer_len c = trailer_need (d_wrap d)" using ended_trailer_there [OF c(2,4) assms(3)] .
  then have "fst (trailer_compare c) = verdict d" using trailer_compare_ended(3) [OF c(2,3)] by (simp add: verdict_def)
  then have "nx_inflate_verify_checksum 2 s = Some (verdict d, snd (trailer_compare c))"
    using c(1) by (cases "trailer_compare c") (simp add: nx_inflate_verify_checksum_def)
  then show ?thesis using that trailer_compare_ended(1,2) [OF c(2,3)] by blast
qed

lemma verdict_not_ok: "verdict d \<noteq> Z_OK"
  by (simp add: verdict_def z_codes)

lemma ended_round:
  assumes "ended d t fut s" and "0 < i_used_out s" and "i_used_out s \<le> i_avail_out s"
    and "d_end d + trailer_need (d_wrap d) + length fut \<le> length (d_in d)"
  obtains s' where "inflate_round env flsh s = Some (Stop (verdict d) s')" and "ended d t fut s'" and "i_used_out s' = 0"
proof -
  have e: "fifo_lay s" "user_lay s" "out_split t (d_out d) s" "is_final s = 1" using assms(1) by (simp_all add: ended_def)
  obtain h where h: "hand_out s = Some h" "fifo_lay h" "user_lay h" "out_split t (d_out d) h" "but_out h = but_out s"
      "i_used_out h = i_used_out s - i_avail_out s"
    using hand_out_ok [OF e(1-3)] by metis
  note f = but_out_fields [OF h(5)]
  have "ended d t fut h"
    using assms(1) h(2-4) by (simp add: ended_def f in_lay_def unread_def)
  moreover have "i_used_out h = 0" using h(6) assms(3) by simp
  ultimately obtain s' where s': "nx_inflate_verify_checksum 2 h = Some (verdict d, s')" "ended d t fut s'" "i_used_out s' = 0"
    using verify_verdict assms(4) by metis
  have "inflate_round env flsh s = Some (Stop (verdict d) s')"
    using h(1) \<open>i_used_out h = 0\<close> assms(2) e(4) f(8) s'(1) by (simp add: inflate_round_def stop_with_def)
  then show ?thesis using that s'(2,3) by blast
qed

lemma inflate_loop_stop: "inflate_round env flsh s = Some (Stop rc s') \<Longrightarrow> inflate_loop env flsh (Suc n) s = Some (Stop rc s')"
  by simp

lemma loop_max_Suc: "loop_max - 1 = Suc 65533"
  by (simp add: loop_max_def)

text \<open>
  Claim C7. When all of the data of a stream is decompressed, a call that brings the rest of the trailer and has room for what
  the user has not got yet delivers it and returns the verdict: \<^verbatim>\<open>Z_STREAM_END\<close> if checksum and length in the trailer are
  right, and \<^verbatim>\<open>Z_STREAM_ERROR\<close> if they are not (zlib reports \<^verbatim>\<open>Z_DATA_ERROR\<close>).
\<close>

theorem inflate_verdict:
  assumes "ended d t (chunk @ fut) s" and "i_used_out s \<le> length buf" and "0 < length buf" and "length buf < 2 ^ 31"
    and "d_end d + trailer_need (d_wrap d) + length fut \<le> length (d_in d)" and "flsh \<noteq> Z_BLOCK" and "flsh \<noteq> Z_TREES"
  shows "\<exists>s'. nx_inflate lib_crc32 env flsh (give chunk buf s) = Some (if trailer_ok d then Z_STREAM_END else Z_STREAM_ERROR, s')
    \<and> i_total_out s' = length (d_out d) \<and> take (i_next_out s') (i_obuf s') = drop (i_total_out s) (d_out d)"
proof -
  define u where "u = give chunk buf s"
  have u: "ended d (i_total_out s) fut u" using give_ok(2) [OF assms(4,1)] by (simp add: u_def)
  have av: "i_avail_out u = length buf" "i_used_out u = i_used_out s" by (simp_all add: u_def give_def)
  have st: "inf_state u = inf_state_inflate" "is_final u = 1" "i_fifo_out u \<noteq> []"
    using u by (auto simp: ended_def fifo_lay_def INF_MAX_EXPANSION_BYTES_def INF_MIN_INPUT_LEN_def INF_MAX_COMPRESSION_RATIO_def)
  obtain s' where s': "nx_inflate_body env flsh u = Some (Stop (verdict d) s')" "ended d (i_total_out s) fut s'" "i_used_out s' = 0"
  proof (cases "i_used_out u = 0")
    case True
    then obtain s' where "nx_inflate_verify_checksum 2 u = Some (verdict d, s')" "ended d (i_total_out s) fut s'" "i_used_out s' = 0"
      using verify_verdict [OF u] assms(5) by metis
    then show ?thesis using that True st(2) av(1) assms(3) by (simp add: nx_inflate_body_def stop_with_def)
  next
    case False
    then obtain s' where r: "inflate_round env flsh u = Some (Stop (verdict d) s')" "ended d (i_total_out s) fut s'" "i_used_out s' = 0"
      using ended_round [OF u, of env flsh] assms(2,5) av by auto
    have "inflate_loop env flsh (loop_max - 1) u = Some (Stop (verdict d) s')"
      unfolding loop_max_Suc by (rule inflate_loop_stop) (rule r(1))
    then have "nx_inflate_body env flsh u = Some (Stop (verdict d) s')"
      using False av(1) assms(3) unfolding nx_inflate_body_def by simp
    then show ?thesis using that r(2,3) by blast
  qed
  have out: "i_total_out s' = length (d_out d)" "take (i_next_out s') (i_obuf s') = drop (i_total_out s) (d_out d)"
    using s'(2,3) by (simp_all add: ended_def out_split_def)
  have "inf_return flsh u (verdict d) s' = verdict d" using verdict_not_ok by (simp add: inf_return_def)
  then have "nx_inflate lib_crc32 env flsh u = Some (verdict d, s')"
    using assms(6,7) st(3) s'(1) inf_run_inflate [of "nx_inf.truncate u" lib_crc32] st(1)
    by (simp add: nx_inflate_def alloc_fifo_out_def)
  then show ?thesis using out by (simp add: u_def verdict_def)
qed

text \<open>A stream with the letter pending.\<close>

definition tiny_ended :: nx_core where
  "tiny_ended = raw_stream\<lparr>inf_state := inf_state_inflate, is_final := 1, i_fifo_out := replicate 32768 0 @ [0x61] @ replicate 300000 0,
     i_len_out := 332769, i_used_out := 1, out_crc := crc_field tiny_out, out_adler := adler_field tiny_out\<rparr>"

lemma tiny_ended: "ended tiny 0 ([] @ []) tiny_ended"
proof -
  have "seg (replicate 32768 0 @ [0x61] @ replicate 300000 0) 32768 1 = [0x61 :: u8]" by (simp add: seg_def)
  then show ?thesis
    by (simp add: ended_def tiny_ended_def raw_stream_def nx_inflateReset_def nx_inflateResetKeep_def zero_stream_def Let_def in_lay_def
        fifo_lay_def user_lay_def out_split_def pending_def unread_def tiny_def tiny_out_def tiny_in_def INF_HIS_LEN_def
        INF_MAX_EXPANSION_BYTES_def INF_MIN_INPUT_LEN_def INF_MAX_COMPRESSION_RATIO_def trailer_need_def)
qed

theorem inflate_verdict_witness:
  "\<exists>s'. nx_inflate lib_crc32 tiny_env Z_NO_FLUSH (give [] [0, 0] tiny_ended) = Some (Z_STREAM_END, s')
     \<and> i_total_out s' = 1 \<and> take (i_next_out s') (i_obuf s') = [0x61]"
proof -
  have used: "i_used_out tiny_ended = 1" "i_total_out tiny_ended = 0"
    by (simp_all add: tiny_ended_def raw_stream_def nx_inflateReset_def nx_inflateResetKeep_def zero_stream_def Let_def)
  have "d_end tiny + trailer_need (d_wrap tiny) + length ([] :: u8 list) \<le> length (d_in tiny)" "trailer_ok tiny" "d_out tiny = [0x61]"
    by (simp_all add: tiny_def tiny_in_def tiny_out_def trailer_need_def trailer_ok_def HEADER_RAW_def HEADER_GZIP_def HEADER_ZLIB_def)
  then show ?thesis
    using inflate_verdict [OF tiny_ended, of "[0, 0]" Z_NO_FLUSH tiny_env] used by (simp add: flush_codes Z_TREES_def)
qed

section \<open>An accelerator that makes progress\<close>

text \<open>
  It reports no failure, stops with a new point only in front of the end of the stream, and every job uses input or
  produces output.
\<close>

definition lively :: "nx_env \<Rightarrow> deflated \<Rightarrow> bool" where
  "lively env d \<longleftrightarrow>
     (\<forall>p n hl k r. submitted env d p n hl k r \<longrightarrow>
        \<not> failed r
        \<and> (r_cc r = ERR_NX_DATA_LENGTH \<and> get_out_sfbt (r_sfbt_rem r) \<noteq> 0 \<longrightarrow>
             p + k < d_end d \<and> (get_out_subc (r_subc_word r) + 7) div 8 < k + r_tpbc r))"

text \<open>The decompressor has all of the input and more room than the rest of the output needs.\<close>

definition roomy :: "deflated \<Rightarrow> nat \<Rightarrow> nx_core \<Rightarrow> bool" where
  "roomy d n s \<longleftrightarrow> length (d_out d) < i_avail_out s + n"

lemma live_round:
  assumes env: "engine_ok env d" "env_ok env" "lively env d" and run: "running d t p n [] s" "i_used_out s = 0" "p < d_end d"
    and room: "roomy d n s" and all: "d_end d + trailer_need (d_wrap d) \<le> length (d_in d)"
  obtains (stop) s' where "inflate_round env Z_FINISH s = Some (Stop (verdict d) s')" and "ended d t [] s'" and "i_used_out s' = 0"
  | (go) s' p' n' where "inflate_round env Z_FINISH s = Some (Round s')" and "running d t p' n' [] s'" and "i_used_out s' = 0"
      and "p' < d_end d" and "p + n < p' + n'" and "roomy d n' s'"
proof -
  have r: "n \<le> length (d_out d)" "in_lay s" "drop p (d_in d) = unread s" "user_lay s" using run(1) by (simp_all add: running_def)
  have av: "0 < i_avail_out s" "i_avail_out s < 2 ^ 31" using room r(1,4) by (auto simp: roomy_def user_lay_def)
  have len: "length (unread s) = length (d_in d) - p" using arg_cong [OF r(3), of length] by simp
  then have ne: "unread s \<noteq> []" using run(3) all by auto
  then have "0 < length (unread s)" by simp
  then have input: "\<not> (i_next_in s = [] \<and> i_used_in s = 0)" unfolding length_unread [OF r(2)] by auto
  have round: "inflate_round env Z_FINISH s = run_job env s"
    unfolding inflate_round_def using run(2) av(1) input by auto
  show ?thesis
  proof (rule run_job_cases [OF run(1,2) ne av(1) env(1,2)])
    fix w hl k r
    assume "submitted env d p n hl k r" "failed r"
    then show ?thesis using env(3) by (auto simp: lively_def)
  next
    fix v w ns m r
    assume j: "run_job env s = Some (offsets_state env (i_avail_out v) m 0 r w)"
      "job_done d t p n [] ns m (length (d_out d)) r v w" "is_final w = 1 \<or> r_cc r = ERR_NX_OK" "p + m = d_end d"
      "i_avail_out v = i_avail_out s"
    obtain c where c: "offsets_state env (i_avail_out v) m 0 r w = (if i_used_out c = 0 then stop_with (Some (trailer_compare c)) else Round c)"
        "ended d t [] c" "i_used_out c = length ns - i_avail_out v" "trailer_len c < trailer_need (d_wrap d) \<Longrightarrow> unread c = []"
      by (rule offsets_state_end [OF j(2) env(1) j(3,4) refl, where pb = 0]) (rule that)
    have "length ns \<le> i_avail_out v" using j(2,5) room by (simp add: job_done_def roomy_def)
    then have used: "i_used_out c = 0" using c(3) by simp
    have "trailer_len c = trailer_need (d_wrap d)" using ended_trailer_there [OF c(2,4)] all by simp
    then have "fst (trailer_compare c) = verdict d" using trailer_compare_ended(3) [OF c(2) used] by (simp add: verdict_def)
    then have "inflate_round env Z_FINISH s = Some (Stop (verdict d) (snd (trailer_compare c)))"
      using round j(1) c(1) used by (cases "trailer_compare c") (simp add: stop_with_def)
    then show ?thesis using stop trailer_compare_ended(1,2) [OF c(2) used] by blast
  next
    fix v w ns subc n' hl k r
    assume j: "run_job env s = Some (offsets_state env (i_avail_out v) (k - (subc + 7) div 8) subc r w)"
      "job_done d t p n [] ns (k - (subc + 7) div 8) n' r v w" "is_final w = 0" "r_cc r = ERR_NX_DATA_LENGTH"
      "get_out_sfbt (r_sfbt_rem r) \<noteq> 0" "subc = get_out_subc (r_subc_word r)" "(subc + 7) div 8 \<le> k"
      "d_at d (p + (k - (subc + 7) div 8)) (res_of w) n'" "submitted env d p n hl k r" "i_avail_out v = i_avail_out s"
      "unread v = unread s" "k \<le> length (unread s)"
    define q where "q = (subc + 7) div 8"
    have live: "p + k < d_end d" "q < k + r_tpbc r" using env(3) j(4-6,9) by (auto simp: lively_def q_def)
    have d: "n' = n + length ns" "r_tpbc r = length ns" "n' \<le> length (d_out d)" using j(2) by (simp_all add: job_done_def)
    have ok: "r_cc r \<noteq> ERR_NX_OK" using j(4) by (simp add: err_nx_codes)
    obtain a where a: "offsets_state env (i_avail_out v) (k - q) subc r w =
        (if 0 < i_avail_out a \<and> q < (i_used_in a + length (i_next_in a)) mod 2 ^ 32 then Round a
         else if 0 < i_avail_out a \<and> i_next_in a \<noteq> [] then stop_with (copy_data_to_fifo_in env a)
         else Stop Z_OK a)"
        "running d t (p + (k - q)) n' [] a" "i_used_out a = length ns - i_avail_out v" "i_avail_out a = i_avail_out v - length ns"
        "unread a = drop (k - q) (unread v)"
      by (rule offsets_state_go [OF j(2,3) ok j(8), of env subc, folded q_def])
    have fits: "length ns < i_avail_out s" using room d(1,3) by (simp add: roomy_def)
    have q: "q \<le> k" using j(7) by (simp add: q_def)
    have left: "i_used_in a + length (i_next_in a) = length (d_in d) - (p + (k - q))"
      using length_unread [of a] a(2,5) j(11,12) len by (simp add: running_def)
    have "length (d_in d) < 2 ^ 32" using env(1) by (simp add: engine_ok_def)
    then have "q < (i_used_in a + length (i_next_in a)) mod 2 ^ 32" using left live(1) all q by simp
    moreover have "0 < i_avail_out a" using a(4) fits j(10) by simp
    ultimately have "inflate_round env Z_FINISH s = Some (Round a)" using round j(1) a(1) by (simp add: q_def)
    moreover have "i_used_out a = 0" using a(3) fits j(10) by simp
    moreover have "p + (k - q) < d_end d" "p + n < p + (k - q) + n'" using live q d(1,2) by simp_all
    moreover have "roomy d n' a" using room a(4) fits j(10) d(1) by (simp add: roomy_def)
    ultimately show ?thesis using go a(2) by blast
  qed
qed

text \<open>The rounds are counted; one is enough for a byte of input or output.\<close>

lemma live_loop:
  assumes "engine_ok env d" and "env_ok env" and "lively env d" and "running d t p n [] s" and "i_used_out s = 0" and "p < d_end d"
    and "roomy d n s" and "d_end d + trailer_need (d_wrap d) \<le> length (d_in d)" and "d_end d + length (d_out d) < p + n + m"
  shows "\<exists>s'. inflate_loop env Z_FINISH m s = Some (Stop (verdict d) s') \<and> ended d t [] s' \<and> i_used_out s' = 0"
  using assms(4-7,9)
proof (induction m arbitrary: p n s)
  case 0
  then show ?case by (simp add: running_def)
next
  case (Suc m)
  show ?case
  proof (rule live_round [OF assms(1-3) Suc.prems(1-4) assms(8)])
    fix s'
    assume "inflate_round env Z_FINISH s = Some (Stop (verdict d) s')" "ended d t [] s'" "i_used_out s' = 0"
    then show ?thesis by simp
  next
    fix s' p' n'
    assume g: "inflate_round env Z_FINISH s = Some (Round s')" "running d t p' n' [] s'" "i_used_out s' = 0"
      "p' < d_end d" "p + n < p' + n'" "roomy d n' s'"
    have "d_end d + length (d_out d) < p' + n' + m" using Suc.prems(5) g(5) by simp
    from Suc.IH [OF g(2-4,6) this] show ?thesis using g(1) by simp
  qed
qed

text \<open>
  Claim C5. If the accelerator makes progress and there is memory, then one call of a new stream with all of the input, \<^verbatim>\<open>Z_FINISH\<close>
  and a buffer that is at least one byte longer than the data decompresses everything and returns the verdict on the trailer, for streams
  whose compressed and decompressed data together have less than 65534 bytes. (The main loop allows 65534 rounds, and
  an accelerator may do one byte in a round. With a buffer that the data fills exactly, the last job may leave the end of the stream
  unread, and then the call returns \<^verbatim>\<open>Z_BUF_ERROR\<close>.)
\<close>

theorem inflate_one_call:
  assumes "engine_ok env d" and "env_ok env" and "lively env d" and "starts d input s" and "\<And>n. nx_alloc_buffer env n \<noteq> None"
    and "length (d_out d) < length buf" and "length buf < 2 ^ 31" and "0 < d_end d"
    and "d_end d + trailer_need (d_wrap d) \<le> length (d_in d)" and "d_end d + length (d_out d) < 65534"
  shows "\<exists>s'. nx_inflate lib_crc32 env Z_FINISH (give input buf s) = Some (if trailer_ok d then Z_STREAM_END else Z_STREAM_ERROR, s')
    \<and> take (i_next_out s') (i_obuf s') = d_out d"
proof -
  have s: "clean s" "hd_ok d (input @ []) (nx_inf.truncate s)" using assms(4) by (simp_all add: starts_def)
  have call: "0 < length buf" "Z_FINISH \<noteq> Z_BLOCK" "Z_FINISH \<noteq> Z_TREES" using assms(6) by (auto simp: flush_codes Z_TREES_def)
  show ?thesis
  proof (rule start_call [OF assms(1,2) s call(1) assms(7) call(2,3)])
    fix s' n
    assume "nx_alloc_buffer env n = None"
    then show ?thesis using assms(5) by simp
  next
    assume "[] \<noteq> ([] :: u8 list)"
    then show ?thesis by simp
  next
    fix u v
    assume b: "nx_inflate lib_crc32 env Z_FINISH (give input buf s) =
        (case nx_inflate_body env Z_FINISH u of Some (Stop rc s') \<Rightarrow> Some (inf_return Z_FINISH v rc s', s') | _ \<Rightarrow> None)"
      "running d 0 0 0 [] u" "i_avail_out u = length buf" "i_used_out u = 0"
    have "roomy d 0 u" using assms(6) b(3) by (simp add: roomy_def)
    moreover have "d_end d + length (d_out d) < 0 + 0 + (loop_max - 1)" using assms(10) by (simp add: loop_max_def)
    ultimately obtain s' where l: "inflate_loop env Z_FINISH (loop_max - 1) u = Some (Stop (verdict d) s')" "ended d 0 [] s'" "i_used_out s' = 0"
      using live_loop [OF assms(1-3) b(2,4) assms(8) _ assms(9)] by metis
    have "is_final u = 0" "0 < i_avail_out u" using b(2,3) call(1) by (simp_all add: running_def)
    then have "nx_inflate_body env Z_FINISH u = Some (Stop (verdict d) s')" using l(1) unfolding nx_inflate_body_def by simp
    moreover have "inf_return Z_FINISH v (verdict d) s' = verdict d" using verdict_not_ok by (simp add: inf_return_def)
    moreover have "take (i_next_out s') (i_obuf s') = d_out d" using l(2,3) by (auto simp: ended_def out_split_def)
    ultimately show ?thesis using b(1) by (simp add: verdict_def)
  qed
qed

lemma tiny_lively: "lively tiny_env tiny"
proof -
  have "\<not> failed (tiny_job i j) \<and> (r_cc (tiny_job i j) = ERR_NX_DATA_LENGTH \<and> get_out_sfbt (r_sfbt_rem (tiny_job i j)) \<noteq> 0
        \<longrightarrow> p + k < d_end tiny \<and> (get_out_subc (r_subc_word (tiny_job i j)) + 7) div 8 < k + r_tpbc (tiny_job i j))"
    if "resumes tiny j p n h k" for i j p n h k
  proof -
    note t = tiny_jobs [OF that]
    have "d_end tiny = 3" by (simp add: tiny_def)
    then show ?thesis
      using t by (cases "p + k = 3") (simp_all add: tiny_job_def Let_def failed_def err_nx_codes tiny_suspended)
  qed
  then show ?thesis by (auto simp: lively_def submitted_def tiny_env_def)
qed

theorem inflate_one_call_witness:
  "\<exists>s'. nx_inflate lib_crc32 tiny_env Z_FINISH (give [0x4b, 0x04, 0x00] [0, 0] raw_stream) = Some (Z_STREAM_END, s')
     \<and> take (i_next_out s') (i_obuf s') = [0x61]"
proof -
  have "starts tiny tiny_in raw_stream" using raw_starts [of tiny_in tiny] by (simp add: tiny_def)
  moreover have "nx_alloc_buffer tiny_env n \<noteq> None" for n by (simp add: tiny_env_def)
  moreover have "trailer_ok tiny" "length (d_out tiny) < length [0, 0 :: u8]" "0 < d_end tiny" "d_end tiny + trailer_need (d_wrap tiny) \<le> length (d_in tiny)"
    "d_end tiny + length (d_out tiny) < 65534" "d_out tiny = [0x61]"
    by (simp_all add: tiny_def tiny_in_def tiny_out_def trailer_need_def trailer_ok_def HEADER_RAW_def HEADER_GZIP_def HEADER_ZLIB_def)
  ultimately show ?thesis
    using inflate_one_call [OF tiny_engine tiny_env_ok tiny_lively, of tiny_in raw_stream "[0, 0]"] by (simp add: tiny_in_def)
qed

end
