(* ===== verification/InflateProps.thy ===== *)
theory InflateProps
  imports InflateLive
begin

text \<open>
  Properties of single operations of inflate: the buffers stay well formed, the window stays where the next job
  looks for it, submitting a job comes to an end, and what dictionaries and copies of a stream do.
\<close>

section \<open>The buffers\<close>

lemma hand_out_moves:
  assumes "fifo_lay s" and "user_lay s" and "i_next_out s \<le> i_total_out s"
  obtains s' where "hand_out s = Some s'" and "fifo_lay s'" and "user_lay s'" and "i_next_out s' \<le> i_total_out s'"
    and "take (i_next_out s') (i_obuf s') @ pending s' = take (i_next_out s) (i_obuf s) @ pending s"
    and "pending s' = drop (i_avail_out s) (pending s)"
proof -
  define t where "t = i_total_out s - i_next_out s"
  define u where "u = take (i_next_out s) (i_obuf s)"
  define xs where "xs = replicate t 0 @ u @ pending s"
  have len: "length u = i_next_out s" "length (pending s) = i_used_out s" "t + i_next_out s = i_total_out s"
    using assms by (simp_all add: user_lay_def fifo_lay_def pending_def length_seg t_def u_def)
  have split: "out_split t xs s"
    unfolding out_split_def xs_def len(3) [symmetric] using len(1,2) by (simp add: u_def)
  obtain s' where s': "hand_out s = Some s'" "fifo_lay s'" "user_lay s'" "out_split t xs s'" "i_used_out s' = i_used_out s - i_avail_out s"
    using hand_out_ok [OF assms(1,2) split] by metis
  have o: "t + i_next_out s' = i_total_out s'" "pending s' = drop (i_total_out s') xs" "length xs = i_total_out s' + i_used_out s'"
    "take (i_next_out s') (i_obuf s') = drop t (take (i_total_out s') xs)"
    using s'(4) by (simp_all add: out_split_def)
  have "t \<le> length (take (i_total_out s') xs)" using o(1,3) by simp
  then have "take (i_next_out s') (i_obuf s') @ pending s' = drop t (take (i_total_out s') xs @ drop (i_total_out s') xs)"
    unfolding o(2,4) by (simp only: drop_append) simp
  also have "\<dots> = drop t xs" by (simp only: append_take_drop_id)
  also have "\<dots> = u @ pending s" by (simp add: xs_def)
  finally have all: "take (i_next_out s') (i_obuf s') @ pending s' = u @ pending s" .
  have "length (pending s') = length (pending s) - i_avail_out s"
    using s'(2,5) len(2) by (simp add: fifo_lay_def pending_def length_seg)
  moreover obtain k where "pending s' = drop k (pending s)"
  proof -
    have "i_total_out s \<le> i_total_out s'"
      using o(3) split s'(5) by (auto simp: out_split_def)
    then have "pending s' = drop (i_total_out s' - i_total_out s) (pending s)"
      using o(2) len by (simp add: xs_def)
    then show ?thesis by (rule that)
  qed
  moreover from calculation have "length (pending s) - k = length (pending s) - i_avail_out s" by simp
  then have "k = i_avail_out s \<or> length (pending s) \<le> k \<and> length (pending s) \<le> i_avail_out s" by linarith
  ultimately have "pending s' = drop (i_avail_out s) (pending s)" by auto
  then show ?thesis using that s'(1-3) o(1) all by (metis le_add2 u_def)
qed

text \<open>
  Claim C32. The two buffers of a stream stay well formed, and the operations on them do what they are for: using source
  bytes takes them from the front of the unread input, caching leaves the unread input as it is, and handing
  out moves bytes from the front of the pending output to the end of what the user has.
\<close>

theorem fifos_stay_wellformed:
  assumes "in_lay s" and "fifo_lay s" and "user_lay s" and "alloc_ok env" and "n \<le> length (unread s)" and "i_next_out s \<le> i_total_out s"
  shows "(\<exists>s'. use_source n s = Some s' \<and> in_lay s' \<and> unread s' = drop n (unread s))
    \<and> (\<exists>rc s'. copy_data_to_fifo_in env s = Some (rc, s') \<and> in_lay s' \<and> unread s' = unread s)
    \<and> (\<exists>s'. hand_out s = Some s' \<and> fifo_lay s' \<and> user_lay s' \<and> pending s' = drop (i_avail_out s) (pending s)
         \<and> take (i_next_out s') (i_obuf s') @ pending s' = take (i_next_out s) (i_obuf s) @ pending s)"
  using use_source_ok [OF assms(1,5)] copy_data_ok [OF assms(1,4)] hand_out_moves [OF assms(2,3,6)] by metis

text \<open>A stream with input cached, and with output in both buffers.\<close>

definition busy_stream :: nx_core where
  "busy_stream = raw_stream\<lparr>fifo_in := [1, 2, 3, 4], len_in := 4, i_cur_in := 1, i_used_in := 2, i_next_in := [5, 6],
     i_fifo_out := replicate 32768 0 @ [7, 8, 9] @ replicate 300000 0, i_len_out := 332771, i_used_out := 3,
     i_obuf := [0, 0], i_avail_out := 2\<rparr>"

lemmas busy_defs = busy_stream_def raw_stream_def nx_inflateReset_def nx_inflateResetKeep_def zero_stream_def Let_def

lemma busy_stream_lay: "in_lay busy_stream" "fifo_lay busy_stream" "user_lay busy_stream" "i_next_out busy_stream \<le> i_total_out busy_stream"
  by (simp_all add: busy_defs in_lay_def fifo_lay_def user_lay_def INF_HIS_LEN_def INF_MAX_EXPANSION_BYTES_def INF_MIN_INPUT_LEN_def
      INF_MAX_COMPRESSION_RATIO_def)

lemma busy_stream_data: "unread busy_stream = [2, 3, 5, 6]" "pending busy_stream = [7, 8, 9]" "i_avail_out busy_stream = 2" "i_next_out busy_stream = 0"
  by (simp_all add: busy_defs unread_def pending_def seg_def INF_HIS_LEN_def)

lemma tiny_alloc: "alloc_ok tiny_env"
  by (simp add: alloc_ok_def tiny_env_def)

theorem fifos_stay_wellformed_witness:
  "(\<exists>s'. use_source 3 busy_stream = Some s' \<and> in_lay s' \<and> unread s' = [6])
    \<and> (\<exists>rc s'. copy_data_to_fifo_in tiny_env busy_stream = Some (rc, s') \<and> in_lay s' \<and> unread s' = [2, 3, 5, 6])
    \<and> (\<exists>s'. hand_out busy_stream = Some s' \<and> fifo_lay s' \<and> user_lay s' \<and> pending s' = [9]
         \<and> take (i_next_out s') (i_obuf s') @ pending s' = [7, 8, 9])"
  using fifos_stay_wellformed [OF busy_stream_lay(1-3) tiny_alloc, of 3] busy_stream_lay(4) by (simp add: busy_stream_data)

section \<open>The window\<close>

text \<open>
  Claim C33. After every job the last 32 KB of everything decompressed lie in the overflow buffer right behind the pending
  output, where the next job takes its history from: whether the output of the job fitted in the user's buffer, was
  longer than 32 KB or went in to both buffers, and whatever was in front of it.
\<close>

theorem window_is_kept:
  assumes "fifo_lay s" and "user_lay s" and "out_split t xs s" and "i_used_out s = 0" and "history_in xs s" and "placed ns s"
    and "is_final s = 0"
  shows "\<exists>s'. keep_history (length ns) (i_avail_out s) s = Some s' \<and> fifo_lay s' \<and> out_split t (xs @ ns) s'
    \<and> rd_block (i_fifo_out s') (i_cur_out s' + i_used_out s' - length (window (xs @ ns))) (length (window (xs @ ns))) = Some (window (xs @ ns))"
proof -
  obtain s' where s': "keep_history (length ns) (i_avail_out s) s = Some s'" "fifo_lay s'" "out_split t (xs @ ns) s'" "history_in (xs @ ns) s'"
    using keep_history_ok [OF assms(1-6)] assms(7) by metis
  define w where "w = window (xs @ ns)"
  have w: "length w \<le> i_cur_out s' + i_used_out s'" "i_cur_out s' + i_used_out s' \<le> length (i_fifo_out s')"
    using s'(2) by (auto simp: w_def length_window fifo_lay_def)
  have "seg (i_fifo_out s') (i_cur_out s' + i_used_out s' - length w) (length w) = w"
    using s'(4) by (simp add: history_in_def w_def)
  then have "rd_block (i_fifo_out s') (i_cur_out s' + i_used_out s' - length w) (length w) = Some w"
    using w by (simp add: rd_block_seg del: rd_block_Some)
  then show ?thesis using s'(1-3) by (auto simp: w_def)
qed

text \<open>Two bytes fit, one goes in to the overflow buffer.\<close>

definition spilling_stream :: nx_core where
  "spilling_stream = busy_stream\<lparr>i_used_out := 0, i_obuf := [5, 6]\<rparr>"

theorem window_is_kept_witness:
  "\<exists>s'. keep_history 3 2 spilling_stream = Some s' \<and> fifo_lay s' \<and> out_split 0 [5, 6, 7] s'
    \<and> rd_block (i_fifo_out s') (i_cur_out s' + i_used_out s' - 3) 3 = Some [5, 6, 7]"
proof -
  have lay: "fifo_lay spilling_stream" "user_lay spilling_stream" "out_split 0 [] spilling_stream" "i_used_out spilling_stream = 0"
    "history_in [] spilling_stream" "is_final spilling_stream = 0" "i_avail_out spilling_stream = 2"
    by (simp_all add: spilling_stream_def busy_defs fifo_lay_def user_lay_def out_split_def pending_def history_in_def INF_HIS_LEN_def
        INF_MAX_EXPANSION_BYTES_def INF_MIN_INPUT_LEN_def INF_MAX_COMPRESSION_RATIO_def)
  have "placed [5, 6, 7] spilling_stream"
    by (simp add: placed_def spilling_stream_def busy_defs seg_def INF_HIS_LEN_def)
  moreover have "window [5, 6, 7 :: u8] = [5, 6, 7]" by (simp add: window_def INF_HIS_LEN_def)
  ultimately show ?thesis using window_is_kept [OF lay(1-5) _ lay(6), of "[5, 6, 7]"] lay(7) by (simp add: eval_nat_numeral)
qed

section \<open>Submitting a job\<close>

text \<open>
  Claim C34. The submission loop returns, whatever mixture of page faults and full target buffers the accelerator
  answers with: time passes with every page fault, until the limit for page faults is reached, and every full target halves the source. It
  ends with a job that can be accounted for or with \<^verbatim>\<open>Z_DATA_ERROR\<close>, never with a failed assertion. (The comment in the case
  \<^verbatim>\<open>ERR_NX_AT_FAULT\<close> says that the loop will last forever on a system without eight free pages; the test of \<^verbatim>\<open>ticks_total\<close> behind
  it prevents that.)
\<close>

theorem submit_loop_returns:
  assumes "engine_ok env d" and "fair env" and "running d t p n fut s" and "i_used_out s = 0" and "unread s \<noteq> []"
    and "0 < se" and "INF_MAX_COMPRESSION_RATIO \<le> te" and "te \<le> i_avail_out s + 40960"
  shows "\<exists>e. submit_loop env se te 0 None s = Some e
    \<and> (case e of job_end.Done su r u \<Rightarrow> running d t p n fut u | Refused rc u \<Rightarrow> rc = Z_DATA_ERROR \<and> running d t p n fut u | Aborted \<Rightarrow> False)"
proof -
  obtain e where e: "submit_loop env se te 0 None s = Some e" "job_end_ok env d t p n fut s e"
    using submit_loop_ok [OF assms(1-8), of None 0] by auto
  from e(2) have "case e of job_end.Done su r u \<Rightarrow> running d t p n fut u | Refused rc u \<Rightarrow> rc = Z_DATA_ERROR \<and> running d t p n fut u | Aborted \<Rightarrow> False"
    by (cases e) (simp_all add: job_end_ok_def)
  then show ?thesis using e(1) by blast
qed

text \<open>A stream with all of its input, in front of the first job.\<close>

definition tiny_running :: nx_core where
  "tiny_running = give tiny_in [0, 0] (raw_stream\<lparr>inf_state := inf_state_inflate, i_fifo_out := replicate 309600 0, i_len_out := 309600\<rparr>)"

lemma tiny_running: "running tiny 0 0 0 [] tiny_running"
proof (rule first_entry [OF _ tiny_engine])
  show "clean tiny_running"
    by (simp add: clean_def tiny_running_def give_def busy_defs in_lay_def INF_MAX_EXPANSION_BYTES_def INF_MIN_INPUT_LEN_def
        INF_MAX_COMPRESSION_RATIO_def)
qed (simp_all add: tiny_running_def give_def busy_defs tiny_def)

theorem submit_loop_returns_witness:
  "\<exists>e. submit_loop tiny_env 3 2000 0 None tiny_running = Some e
    \<and> (case e of job_end.Done su r u \<Rightarrow> running tiny 0 0 0 [] u | Refused rc u \<Rightarrow> rc = Z_DATA_ERROR \<and> running tiny 0 0 0 [] u | Aborted \<Rightarrow> False)"
proof (rule submit_loop_returns [OF tiny_engine _ tiny_running])
  show "fair tiny_env" using tiny_env_ok by (simp add: env_ok_def)
qed (simp_all add: tiny_running_def give_def busy_defs unread_def tiny_in_def INF_MAX_COMPRESSION_RATIO_def)

section \<open>Dictionaries\<close>

definition adler_of :: "u8 list \<Rightarrow> u32" where
  "adler_of bs = ucast (adler_value (adler_ref bs (1, 0)))"

lemma INIT_ADLER_value: "INIT_ADLER = ucast (adler_value (1, 0))"
  by (simp add: INIT_ADLER_def adler_value_def)

lemma copy_dictionary:
  assumes "copy_engine_ok cenv" and "0 < copy_per_job cenv" and "length src \<le> length m"
  obtains cc a m' i' where "nx_copy cenv i m 0 src None (Some INIT_ADLER) = Some (cc, None, Some a, m', i')"
    and "cc = COPY_OK \<Longrightarrow> a = adler_of src \<and> take (length src) m' = src" and "length m' = length m"
proof -
  have "adler_valid (1, 0)" "0 + length src \<le> length m" using assms(3) by (simp_all add: adler_valid_def)
  then obtain cc a m' i' where l: "nx_copy_loop cenv i m 0 src None (Some INIT_ADLER) = Some (cc, None, a, m', i')"
      "cc = COPY_OK \<longrightarrow> m' = written m 0 src \<and> a = Some (adler_of src)" "length m' = length m"
    using nx_copy_loop_ok [OF assms(1,2), of "(1, 0)" 0 src m i] unfolding INIT_ADLER_value adler_of_def by blast
  have run: "nx_copy cenv i m 0 src None (Some INIT_ADLER) = Some (cc, None, if cc = COPY_OK then a else Some INIT_ADLER, m', i')"
    using l(1) by (simp add: nx_copy_def)
  show ?thesis
  proof (cases "cc = COPY_OK")
    case True
    then show ?thesis using that [of cc "adler_of src" m' i'] run l(2,3) by (simp add: written_def)
  next
    case False
    then show ?thesis using that [of cc INIT_ADLER m' i'] run l(3) by simp
  qed
qed

text \<open>The history of the next job ends with the dictionary, in a multiple of 16 bytes.\<close>

lemma dictionary_history:
  assumes "fifo_lay s" and "0 < i_dict_len s" and "i_dict_len s \<le> length (dict s)"
  obtains g u where "nx_init_dde s = Some (length (g @ drop (i_dict_len s - INF_MAX_DICT_LEN) (take (i_dict_len s) (dict s))),
      g @ drop (i_dict_len s - INF_MAX_DICT_LEN) (take (i_dict_len s) (dict s)), u)"
    and "length (g @ drop (i_dict_len s - INF_MAX_DICT_LEN) (take (i_dict_len s) (dict s))) mod 16 = 0"
    and "length (g @ drop (i_dict_len s - INF_MAX_DICT_LEN) (take (i_dict_len s) (dict s))) \<le> 32768"
proof -
  define n where "n = i_dict_len s"
  define w where "w = min n 32768"
  define dy where "dy = drop (n - 32768) (take n (dict s))"
  define h where "h = (if 32768 \<le> i_history_len s + w then 32768 - w else i_history_len s + (16 - (i_history_len s + w) mod 16))"
  define g where "g = seg (i_fifo_out s) (i_cur_out s - h) h"
  have fl: "32768 \<le> i_cur_out s" "i_cur_out s \<le> length (i_fifo_out s)"
    using assms(1) by (auto simp: fifo_lay_def INF_HIS_LEN_def)
  have h: "h + w \<le> 32768 \<and> (h + w) mod 16 = 0"
  proof (cases "32768 \<le> i_history_len s + w")
    case True
    then show ?thesis by (simp add: h_def w_def)
  next
    case False
    define a where "a = i_history_len s + w"
    have "a + (16 - a mod 16) = 16 * (a div 16 + 1)" by presburger
    moreover have "a div 16 + 1 \<le> 2048" using False by (simp add: a_def)
    moreover have "h + w = a + (16 - a mod 16)" using False by (simp add: h_def a_def)
    ultimately show ?thesis by simp
  qed
  have len: "length g = h" "length dy = w"
    using fl h assms(3) by (simp_all add: g_def length_seg dy_def w_def n_def)
  have ne: "dict s \<noteq> []" "i_fifo_out s \<noteq> []" using assms fl by auto
  have rd: "rd_block (i_fifo_out s) (i_cur_out s - h) h = Some g" "rd_block (dict s) (n - w) w = Some dy"
  proof -
    show "rd_block (i_fifo_out s) (i_cur_out s - h) h = Some g" using fl h by (simp add: g_def rd_block_seg del: rd_block_Some)
    have "n - w + w \<le> length (dict s)" using assms(3) by (simp add: n_def w_def)
    moreover have "seg (dict s) (n - w) w = dy" by (cases "n \<le> 32768") (simp_all add: seg_alt dy_def w_def)
    ultimately show "rd_block (dict s) (n - w) w = Some dy" by (simp add: rd_block_seg del: rd_block_Some)
  qed
  have amend: "\<exists>u. nx_amend_history_with_dict (s\<lparr>in_crc := c, in_adler := a\<rparr>) = Some (h + w, g @ dy, u)" for c a
  proof -
    define t where "t = s\<lparr>in_crc := c, in_adler := a\<rparr>"
    have eq: "min (i_dict_len t) INF_MAX_DICT_LEN = w"
      "(if INF_HIS_LEN \<le> i_history_len t + w then INF_MAX_DICT_LEN - w
        else i_history_len t + (NXQWSZ - (i_history_len t + w) mod NXQWSZ)) = h"
      by (simp_all add: t_def w_def n_def h_def INF_HIS_LEN_def INF_MAX_DICT_LEN_def NXQWSZ_def min_def)
    have f: "i_fifo_out t = i_fifo_out s" "dict t = dict s" "i_cur_out t = i_cur_out s" "i_dict_len t = n"
      by (simp_all add: t_def n_def)
    have "h \<le> i_cur_out s" "w \<le> n" using h fl by (simp_all add: w_def)
    then have "\<exists>u. nx_amend_history_with_dict t = Some (h + w, g @ dy, u)"
      unfolding nx_amend_history_with_dict_def Let_def eq using rd ne h by (simp add: f del: rd_block_Some)
    then show ?thesis by (simp add: t_def)
  qed
  have "\<exists>u. nx_init_dde s = Some (h + w, g @ dy, u)"
    using assms(2) amend [where c = "i_crc32 s" and a = "i_adler32 s"] by (auto simp: nx_init_dde_def Let_def)
  then show ?thesis using that [of g] len h by (simp add: dy_def n_def INF_MAX_DICT_LEN_def) blast
qed

text \<open>
  Claim C35. A dictionary for a zlib stream that waits for one, or for a raw stream: \<^verbatim>\<open>nx_inflateSetDictionary\<close> returns without a
  fault; when it returns \<^verbatim>\<open>Z_OK\<close>, the dictionary is the one the zlib header asks for, and the next job has
  a history of whole quadwords, not longer than 32 KB, that ends with the last 32 KB of the dictionary. \<^verbatim>\<open>Z_DATA_ERROR\<close> means
  that the header asks for another dictionary.
\<close>

theorem nx_inflateSetDictionary_correct:
  assumes "copy_engine_ok cenv" and "0 < copy_per_job cenv" and "alloc_ok env" and "fifo_lay s" and "length (dict s) = dict_alloc_len s"
    and "i_wrap s = HEADER_RAW \<or> i_wrap s = HEADER_ZLIB \<and> inf_state s = inf_state_zlib_dict" and "dy \<noteq> []"
  shows "\<exists>rc s'. nx_inflateSetDictionary env cenv dy s = Some (rc, s')
    \<and> (rc = Z_OK \<longrightarrow> (i_wrap s = HEADER_ZLIB \<longrightarrow> i_dict_id s = adler_of dy)
         \<and> (\<exists>h g u. nx_init_dde s' = Some (length h, h, u) \<and> length h mod 16 = 0 \<and> length h \<le> 32768 \<and> h = g @ drop (length dy - 32768) dy))
    \<and> (rc = Z_DATA_ERROR \<longrightarrow> i_wrap s = HEADER_ZLIB \<and> i_dict_id s \<noteq> adler_of dy)"
proof -
  have go: "i_wrap s \<noteq> HEADER_ZLIB OR HEADER_GZIP" "i_wrap s \<noteq> HEADER_GZIP" "\<not> (inf_state s \<noteq> inf_state_zlib_dict \<and> i_wrap s = HEADER_ZLIB)"
    using assms(6) by (auto simp: header_codes)
  obtain ok v where alloc: "alloc_dict env (length dy) s = (ok, v)" by fastforce
  have v: "ok \<Longrightarrow> length dy \<le> length (dict v)" "fifo_lay v" "i_wrap v = i_wrap s" "i_dict_id v = i_dict_id s"
    using alloc assms(3-5) by (auto simp: alloc_dict_def Let_def alloc_ok_def fifo_lay_def split: if_splits option.splits)
  show ?thesis
  proof (cases ok)
    case False
    then have "nx_inflateSetDictionary env cenv dy s = Some (Z_MEM_ERROR, v)"
      using go alloc by (auto simp: nx_inflateSetDictionary_def)
    then show ?thesis by (simp add: z_codes Z_MEM_ERROR_def)
  next
    case True
    obtain cc a m' i' where c: "nx_copy cenv (jobs v) (dict v) 0 dy None (Some INIT_ADLER) = Some (cc, None, Some a, m', i')"
        "cc = COPY_OK \<Longrightarrow> a = adler_of dy \<and> take (length dy) m' = dy" "length m' = length (dict v)"
      by (rule copy_dictionary [OF assms(1,2) v(1) [OF True], of "jobs v"]) blast
    define w where "w = v\<lparr>dict := m', jobs := i', i_dict_len := length dy\<rparr>"
    have run: "nx_inflateSetDictionary env cenv dy s =
        Some (if cc \<noteq> COPY_OK then (Z_STREAM_ERROR, v\<lparr>dict := m', jobs := i'\<rparr>)
              else if i_dict_id s \<noteq> a \<and> i_wrap s = HEADER_ZLIB then (Z_DATA_ERROR, v\<lparr>dict := m', jobs := i'\<rparr>) else (Z_OK, w))"
      using go alloc True c(1) v(3,4) by (auto simp: nx_inflateSetDictionary_def Let_def w_def)
    have "\<exists>h g u. nx_init_dde w = Some (length h, h, u) \<and> length h mod 16 = 0 \<and> length h \<le> 32768 \<and> h = g @ drop (length dy - 32768) dy"
      if "cc = COPY_OK"
    proof -
      have "fifo_lay w" "0 < i_dict_len w" "i_dict_len w \<le> length (dict w)" "take (i_dict_len w) (dict w) = dy" "i_dict_len w = length dy"
        using v(1,2) True c(2,3) that assms(7) by (simp_all add: w_def fifo_lay_def)
      then show ?thesis using dictionary_history [of w] by (metis INF_MAX_DICT_LEN_def)
    qed
    then show ?thesis unfolding run using c(2) by (auto simp: z_codes)
  qed
qed

text \<open>A raw stream that gets a dictionary of three bytes.\<close>

theorem nx_inflateSetDictionary_correct_witness:
  "\<exists>rc s'. nx_inflateSetDictionary tiny_env copy_env_example [7, 8, 9] tiny_running = Some (rc, s')
    \<and> (rc = Z_OK \<longrightarrow>
         (\<exists>h g u. nx_init_dde s' = Some (length h, h, u) \<and> length h mod 16 = 0 \<and> length h \<le> 32768 \<and> h = g @ [7, 8, 9]))"
proof -
  have "copy_engine_ok copy_env_example" "0 < copy_per_job copy_env_example"
    by (simp_all add: copy_env_example)
  moreover have "fifo_lay tiny_running" using tiny_running by (simp add: running_def)
  moreover have "length (dict tiny_running) = dict_alloc_len tiny_running" "i_wrap tiny_running = HEADER_RAW"
    by (simp_all add: tiny_running_def give_def busy_defs)
  ultimately show ?thesis
    using nx_inflateSetDictionary_correct [of copy_env_example tiny_env tiny_running "[7, 8, 9]"] tiny_alloc by auto
qed

section \<open>Copies\<close>



end
