(* ===== verification/DeflateCore.thy ===== *)
theory DeflateCore
  imports DeflateHeader NxRegs NxChecksum
begin

text \<open>
  \<^verbatim>\<open>nx_deflate\<close> of \<^verbatim>\<open>lib/nx_deflate.c\<close> with everything it calls: it caches small inputs, submits compression jobs whose
  output goes in to the user's buffer and the overflow buffer, keeps the end of the input as the history of the next
  job, aligns blocks with empty stored blocks, repeats a job that made the data longer as stored blocks,
  and ends the stream. The accelerator, the allocator, the clock and the choice of a Huffman table are fields of \<open>df_env\<close>.
\<close>

section \<open>Constants\<close>

definition DEF_HIST_LEN :: nat where "DEF_HIST_LEN = 32768"
definition DEF_MIN_INPUT_LEN :: nat where "DEF_MIN_INPUT_LEN = 65536"
definition DEF_MAX_EXPANSION_LEN :: nat where "DEF_MAX_EXPANSION_LEN = 2 * DEF_MIN_INPUT_LEN"
definition DEF_MAX_DICT_LEN :: nat where "DEF_MAX_DICT_LEN = 32768"
definition DEF_DICT_THRESHOLD :: nat where "DEF_DICT_THRESHOLD = 256"
definition nx_stored_block_len :: nat where "nx_stored_block_len = 60000"

definition LIBNX_OK :: nat where "LIBNX_OK = 0x00"
definition LIBNX_OK_BIG_TARGET :: nat where "LIBNX_OK_BIG_TARGET = 0x02"
definition LIBNX_OK_NO_AVIN :: nat where "LIBNX_OK_NO_AVIN = 0x05"
definition LIBNX_ERR_PAGEFLT :: nat where "LIBNX_ERR_PAGEFLT = 0x20"
definition LIBNX_ERR_HISTLEN :: nat where "LIBNX_ERR_HISTLEN = 0x40"
definition LIBNX_ERROR :: nat where "LIBNX_ERROR = 0x50"

lemmas libnx_codes = LIBNX_OK_def LIBNX_OK_BIG_TARGET_def LIBNX_OK_NO_AVIN_def LIBNX_ERR_PAGEFLT_def LIBNX_ERR_HISTLEN_def LIBNX_ERROR_def

definition Z_FIXED :: int where "Z_FIXED = 4"
definition Z_DEFAULT_STRATEGY :: int where "Z_DEFAULT_STRATEGY = 0"
definition Z_DEFLATED :: int where "Z_DEFLATED = 8"

section \<open>Jobs\<close>

text \<open>The source is the data of the source list, cut at its byte count; \<open>k_histlen\<close> counts quadwords.\<close>

record df_job =
  k_fc :: nat
  k_source :: "u8 list"
  k_target :: nat
  k_histlen :: nat
  k_crc :: u32
  k_adler :: u32
  k_dht :: "u8 list"

text \<open>The byte count of the source is reported at one of two places, depending on the function code.\<close>

record df_resp =
  a_cc :: int
  a_ce :: nat
  a_spbc :: nat
  a_spbc_with_count :: nat
  a_tpbc :: nat
  a_tebc :: nat
  a_crc :: u32
  a_adler :: u32
  a_out :: "u8 list"

text \<open>\<open>df_table\<close> is the table that \<^verbatim>\<open>dht_lookup\<close> chooses for a job; the flag says whether it is the first one of the stream.\<close>

record df_env =
  df_per_job_len :: nat
  df_cache_threshold :: nat
  strm_def_bufsz :: nat
  deflate_fifo_in_len :: nat
  deflate_fifo_out_len :: nat
  df_timeout :: nat
  df_alloc :: "nat \<Rightarrow> u8 list option"
  df_wait :: "nat \<Rightarrow> nat"
  df_submit :: "nat \<Rightarrow> df_job \<Rightarrow> df_resp"
  df_table :: "bool \<Rightarrow> nat \<Rightarrow> u8 list"

text \<open>What is left of the parameter block between jobs, and the number of jobs submitted.\<close>

record nx_cpb =
  p_histlen :: nat
  p_crc :: u32
  p_adler :: u32
  p_dht :: "u8 list"
  p_jobs :: nat

section \<open>The input side\<close>

definition df_use_input :: "nat \<Rightarrow> nx_def \<Rightarrow> nx_def option" where
  "df_use_input n s =
     (if n \<le> length (next_in s) then Some (s\<lparr>next_in := drop n (next_in s), total_in := total_in s + n\<rparr>) else None)"

text \<open>\<open>False\<close>: no memory.\<close>

definition fifo_in_alloc_check :: "df_env \<Rightarrow> nx_def \<Rightarrow> bool \<times> nx_def" where
  "fifo_in_alloc_check env s =
     (if fifo_in s = None then
        let s = s\<lparr>len_in := deflate_fifo_in_len env\<rparr> in
        case df_alloc env (deflate_fifo_in_len env) of None \<Rightarrow> (False, s) | Some m \<Rightarrow> (True, s\<lparr>fifo_in := Some m\<rparr>)
      else (True, s))"

text \<open>The differences are 32-bit numbers.\<close>

definition cache_input :: "nx_def \<Rightarrow> nx_def option" where
  "cache_input s =
     do {
       m \<leftarrow> fifo_in s;
       let free_bytes = (if cur_in s + used_in s < len_in s div 2 then len_in s div 2 - cur_in s - used_in s else 0);
       (free_bytes, s) \<leftarrow>
         (if free_bytes < length (next_in s) then
            do {
              p \<leftarrow> ptr_minus (cur_in s) (max_history_len s);
              m \<leftarrow> memmove m 0 p (max_history_len s + used_in s);
              Some ((len_in s div 2 + 2 ^ 32 - max_history_len s - used_in s) mod 2 ^ 32, s\<lparr>fifo_in := Some m, cur_in := max_history_len s\<rparr>)
            }
          else Some (free_bytes, s));
       let copy_bytes = min free_bytes (length (next_in s));
       m \<leftarrow> fifo_in s;
       m \<leftarrow> wr_block m (cur_in s + used_in s) (take copy_bytes (next_in s));
       s \<leftarrow> df_use_input copy_bytes (s\<lparr>fifo_in := Some m\<rparr>);
       Some (s\<lparr>used_in := used_in s + copy_bytes\<rparr>)
     }"

text \<open>The length of the history, the data of the source list and the history length in quadwords.\<close>

definition nx_setup_ddl_in :: "df_env \<Rightarrow> nat \<Rightarrow> nx_def \<Rightarrow> (nat \<times> u8 list \<times> nat) option" where
  "nx_setup_ddl_in env limit s =
     (let avail = min (length (next_in s)) (strm_def_bufsz env) in
      do {
        (h, b, budget) \<leftarrow>
          (case fifo_in s of
             None \<Rightarrow> Some ([], [], limit)
           | Some m \<Rightarrow>
               if cur_in s < history_len s then None
               else do {
                 let histbytes = (if history_len s \<noteq> 0 \<and> used_in s + avail < limit then history_len s - history_len s mod 16 else 0);
                 h \<leftarrow> rd_block m (cur_in s - histbytes) histbytes;
                 let budget = (limit + 2 ^ 32 - histbytes) mod 2 ^ 32;
                 let from_fifo_in = min budget (used_in s);
                 b \<leftarrow> rd_block m (cur_in s) from_fifo_in;
                 Some (h, b, budget - from_fifo_in)
               });
        let c = (if 0 < avail \<and> 0 < budget then take (min avail budget) (next_in s) else []);
        Some (length h, h @ b @ c, length h div 16 mod 2 ^ 12)
      })"

section \<open>The output side\<close>

text \<open>The room in the user's buffer and in the overflow buffer.\<close>

definition nx_compress_nxstrm_to_ddl_out :: "df_env \<Rightarrow> nx_def \<Rightarrow> (nat \<times> nat) option" where
  "nx_compress_nxstrm_to_ddl_out env s =
     map_option (\<lambda>free_bytes. (min (avail_out s) (strm_def_bufsz env), free_bytes)) (ptr_minus (len_out s div 2) (cur_out s + used_out s))"

text \<open>The accelerator writes to the target, in to the user's buffer first.\<close>

definition df_take_answer :: "nat \<Rightarrow> nat \<Rightarrow> df_resp \<Rightarrow> nx_def \<Rightarrow> nx_def option" where
  "df_take_answer t1 t2 r s =
     do {
       let out = take (t1 + t2) (a_out r);
       m \<leftarrow> wr_block (obuf s) (next_out s) (take t1 out);
       f \<leftarrow> wr_block (fifo_out s) (cur_out s + used_out s) (drop t1 out);
       Some (s\<lparr>obuf := m, fifo_out := f\<rparr>)
     }"

definition get_spbc :: "nat \<Rightarrow> df_resp \<Rightarrow> nat" where
  "get_spbc fc r =
     (if fc = GZIP_FC_COMPRESS_RESUME_DHT_COUNT \<or> fc = GZIP_FC_COMPRESS_RESUME_FHT_COUNT \<or> fc = GZIP_FC_COMPRESS_DHT_COUNT
         \<or> fc = GZIP_FC_COMPRESS_FHT_COUNT then a_spbc_with_count r else a_spbc r)"

text \<open>The final bit of the block that starts at the byte \<^verbatim>\<open>next_out\<close> points to, wherever that is.\<close>

definition set_bfinal :: "bool \<Rightarrow> nat \<Rightarrow> nx_def \<Rightarrow> nx_def option" where
  "set_bfinal is_final offset s =
     do {
       b \<leftarrow> rd (obuf s) (next_out s);
       m \<leftarrow> wr (obuf s) (next_out s) (if is_final then b OR push_bit offset 1 else b AND NOT (push_bit offset 1));
       Some (if is_final then s\<lparr>obuf := m, status := NX_BFINAL_ST\<rparr> else s\<lparr>obuf := m\<rparr>)
     }"

section \<open>Accounting for a job\<close>

text \<open>
  Keeping the end of the input as history: first what came from the cache, then what came from the user's
  buffer, of which only the end is copied.
\<close>

definition keep_input :: "nat \<Rightarrow> nx_def \<Rightarrow> nx_def option" where
  "keep_input from_next_in s =
     do {
       m \<leftarrow> fifo_in s;
       (m, c) \<leftarrow>
         (if len_in s div 2 < cur_in s + from_next_in then
            do {
              let copy_bytes = max_history_len s - from_next_in;
              m \<leftarrow> (if 0 < copy_bytes then do { p \<leftarrow> ptr_minus (cur_in s) copy_bytes; memmove m 0 p copy_bytes } else Some m);
              Some (m, copy_bytes)
            }
          else Some (m, cur_in s));
       (m, c) \<leftarrow>
         (if 0 < from_next_in then
            do {
              let copy_bytes = min from_next_in (max_history_len s);
              b \<leftarrow> rd_block (next_in s) (from_next_in - copy_bytes) copy_bytes;
              m \<leftarrow> wr_block m c b;
              Some (m, c + copy_bytes)
            }
          else Some (m, c));
       df_use_input from_next_in (s\<lparr>fifo_in := Some m, cur_in := c, history_len := min c (max_history_len s)\<rparr>)
     }"

definition update_output :: "df_env \<Rightarrow> nat \<Rightarrow> nx_def \<Rightarrow> nx_def option" where
  "update_output env fc s =
     do {
       let copy_bytes = min (min (tpbc s) (avail_out s)) (strm_def_bufsz env);
       s \<leftarrow> (if fc \<noteq> GZIP_FC_WRAP then set_bfinal (next_in s = [] \<and> used_in s = 0 \<and> flush s = Z_FINISH) 0 s else Some s);
       let s = update_stream_out copy_bytes s;
       let overflow = tpbc s - copy_bytes;
       if overflow \<le> len_out s div 2 then Some (s\<lparr>used_out := used_out s + overflow\<rparr>) else None
     }"

text \<open>Without memory for the cache the function returns early; its result is ignored.\<close>

definition nx_compress_block_update_offsets :: "df_env \<Rightarrow> nat \<Rightarrow> nx_cpb \<Rightarrow> df_resp \<Rightarrow> nx_def \<Rightarrow> nx_def option" where
  "nx_compress_block_update_offsets env fc c r s =
     (let histbytes = p_histlen c * 16; n = get_spbc fc r in
      if n \<le> histbytes then Some (s\<lparr>spbc := 0\<rparr>)
      else
        let s = s\<lparr>spbc := n - histbytes, tpbc := a_tpbc r, tebc := (if fc = GZIP_FC_WRAP then 0 else a_tebc r mod 8)\<rparr>;
            from_used_in = min (used_in s) (spbc s);
            from_next_in = spbc s - used_in s;
            s = s\<lparr>cur_in := cur_in s + from_used_in, used_in := used_in s - from_used_in\<rparr>
        in case fifo_in_alloc_check env s of
             (ok, s) \<Rightarrow> if ok then do { s \<leftarrow> keep_input from_next_in s; update_output env fc s } else Some s)"

definition nx_compress_block_append_flush_block :: "nx_def \<Rightarrow> nx_def option" where
  "nx_compress_block_append_flush_block s =
     (if used_out s = 0 \<and> status s \<noteq> NX_BFINAL_ST then
        if flush s = Z_PARTIAL_FLUSH then map_option fst (append_spanning_flush Z_PARTIAL_FLUSH (tebc s) False s)
        else if (flush s = Z_NO_FLUSH \<and> 0 < tebc s) \<or> (status s \<noteq> NX_BFINAL_ST \<and> 0 < tebc s) \<or> flush s = Z_SYNC_FLUSH \<or> flush s = Z_FULL_FLUSH
        then map_option fst (append_spanning_flush Z_SYNC_FLUSH (tebc s) False s)
        else Some s
      else Some s)"

section \<open>Submitting a job\<close>

text \<open>A job to be accounted for, or the code that \<^verbatim>\<open>nx_compress_block\<close> returns without one.\<close>

datatype df_end = Compressed df_resp nx_def nx_cpb | Gave_up nat nx_def nx_cpb

definition df_fewer :: "nat \<Rightarrow> nat" where
  "df_fewer n = (if 2 * DEF_MIN_INPUT_LEN < n then (n + 1) div 2 else if DEF_MIN_INPUT_LEN < n then DEF_MIN_INPUT_LEN else n)"

text \<open>
  The completion code after the library's own test for a target that is longer than the source, which leaves the history
  out.
\<close>

definition df_cc :: "nat \<Rightarrow> nx_cpb \<Rightarrow> df_resp \<Rightarrow> int" where
  "df_cc fc c r =
     (if a_cc r = ERR_NX_OK \<and> get_spbc fc r < a_tpbc r + p_histlen c * 16 then ERR_NX_TPBC_GT_SPBC else a_cc r)"

text \<open>
  From the label \<^verbatim>\<open>restart\<close> to the end of the switch over the completion code: \<open>n\<close> is the byte count of the
  source, \<open>src\<close> its data, \<open>hl\<close> the length of the history in it.
\<close>

partial_function (option) df_submit_loop ::
  "df_env \<Rightarrow> nat \<Rightarrow> nat \<Rightarrow> u8 list \<Rightarrow> nat \<Rightarrow> nat \<Rightarrow> nat \<Rightarrow> nat \<Rightarrow> nx_def \<Rightarrow> nx_cpb \<Rightarrow> df_end option" where
  "df_submit_loop env fc hl src t1 t2 n ticks_total s c =
     (let r = df_submit env (p_jobs c)
                \<lparr>k_fc = fc, k_source = take n src, k_target = t1 + t2, k_histlen = p_histlen c, k_crc = crc32 s, k_adler = adler32 s,
                 k_dht = p_dht c\<rparr>;
          c = c\<lparr>p_crc := a_crc r, p_adler := a_adler r, p_jobs := p_jobs c + 1\<rparr>;
          cc = df_cc fc c r
      in case df_take_answer t1 t2 r s of
           None \<Rightarrow> None
         | Some s \<Rightarrow>
             (if cc = ERR_NX_AT_FAULT then
                if ticks_total = 0 then df_submit_loop env fc hl src t1 t2 n (df_wait env ticks_total) s c
                else if df_timeout env < df_wait env ticks_total then Some (Gave_up LIBNX_ERR_PAGEFLT s c)
                else df_submit_loop env fc hl src t1 t2 (df_fewer (n - hl) + hl) (df_wait env ticks_total) s c
              else if cc = ERR_NX_DATA_LENGTH then
                (if \<not> csb_ce_termination (drop_bit 5 (a_ce r)) \<and> csb_ce_partial_completion (drop_bit 5 (a_ce r)) then Some (Compressed r s c)
                 else Some (Gave_up LIBNX_ERR_HISTLEN s c))
              else if cc = ERR_NX_TARGET_SPACE then df_submit_loop env fc hl src t1 t2 (df_fewer (n - hl) + hl) ticks_total s c
              else if cc = ERR_NX_TPBC_GT_SPBC then
                (if hl \<le> get_spbc fc r then Some (Gave_up LIBNX_OK_BIG_TARGET (s\<lparr>spbc := get_spbc fc r - hl\<rparr>) c) else None)
              else if cc = ERR_NX_OK then Some (Compressed r s c)
              else Some (Gave_up LIBNX_ERROR s c)))"

text \<open>One block. The result is \<open>None\<close> for a fault or a loop that does not end.\<close>

definition nx_compress_block :: "df_env \<Rightarrow> nat \<Rightarrow> nat \<Rightarrow> nx_def \<Rightarrow> nx_cpb \<Rightarrow> (nat \<times> nx_def \<times> nx_cpb) option" where
  "nx_compress_block env fc limit s c =
     (if next_in s = [] \<and> used_in s = 0 then Some (LIBNX_OK_NO_AVIN, s\<lparr>invoke_cnt := invoke_cnt s + 1\<rparr>, c)
      else do {
        (hl, src, q) \<leftarrow> nx_setup_ddl_in env limit s;
        (t1, t2) \<leftarrow> nx_compress_nxstrm_to_ddl_out env s;
        e \<leftarrow> df_submit_loop env fc hl src t1 t2 (length src) 0 s (c\<lparr>p_histlen := q\<rparr>);
        (case e of
           Gave_up rc s c \<Rightarrow> Some (rc, s\<lparr>invoke_cnt := invoke_cnt s + 1\<rparr>, c)
         | Compressed r s c \<Rightarrow>
             do {
               s \<leftarrow> nx_compress_block_update_offsets env fc c r s;
               s \<leftarrow> nx_compress_block_append_flush_block s;
               Some (LIBNX_OK, s\<lparr>invoke_cnt := invoke_cnt s + 1\<rparr>, c)
             })
      })"

section \<open>Checksums and the end of the stream\<close>

definition nx_compress_update_checksum :: "bool \<Rightarrow> nx_cpb \<Rightarrow> nx_def \<Rightarrow> nx_def option" where
  "nx_compress_update_checksum combine c s =
     do {
       s \<leftarrow> (if combine \<and> checksum_set s then
               do {
                 crc \<leftarrow> nx_crc32_combine (ucast (bswap_32 (crc32 s))) (ucast (bswap_32 (p_crc c))) (int (spbc s));
                 Some (s\<lparr>adler32 := ucast (nx_adler32_combine (ucast (adler32 s)) (ucast (p_adler c)) (int (spbc s))),
                         crc32 := bswap_32 (ucast crc)\<rparr>)
               }
             else Some (s\<lparr>adler32 := p_adler c, crc32 := p_crc c\<rparr>));
       Some (s\<lparr>checksum_set := True,
               zadler := (if wrap s = HEADER_ZLIB then adler32 s else if wrap s = HEADER_GZIP then crc32 s else zadler s)\<rparr>)
     }"

definition nx_stream_end :: "nx_def \<Rightarrow> (int \<times> nx_def) option" where
  "nx_stream_end s =
     do {
       s \<leftarrow> (if status s = NX_DEFLATE_ST
             then map_option (\<lambda>(s, _). s\<lparr>status := NX_BFINAL_ST\<rparr>) (append_spanning_flush Z_SYNC_FLUSH 0 True s)
             else Some s);
       s \<leftarrow> (if status s = NX_BFINAL_ST
             then map_option (\<lambda>(s, _). s\<lparr>status := NX_TRAILER_ST\<rparr>) (nx_compress_append_trailer s)
             else Some s);
       Some (if used_out s = 0 \<and> (status s = NX_TRAILER_ST \<or> flush s = Z_FINISH) then Z_STREAM_END else Z_OK, s)
     }"

section \<open>The main loop\<close>

text \<open>
  The stored blocks: a placeholder header, a job that copies, and the header again with the length. The room in
  the user's buffer and the number of valid bits are those in front of the first block. \<open>None\<close> as the code: all is
  well.
\<close>

partial_function (option) stored_loop ::
  "df_env \<Rightarrow> nat \<Rightarrow> nat \<Rightarrow> bool \<Rightarrow> nat \<Rightarrow> nx_def \<Rightarrow> nx_cpb \<Rightarrow> (int option \<times> nat \<times> nx_def \<times> nx_cpb) option" where
  "stored_loop env avail old_tebc bfinal cnt s c =
     (if avail_out s = 0 \<or> need_stored_block s = 0 then Some (None, cnt, s, c)
      else
        let blk_head = next_out s; n = min (need_stored_block s) nx_stored_block_len in
        case append_spanning_flush Z_SYNC_FLUSH (tebc s) False s of
          None \<Rightarrow> None
        | Some (s, _) \<Rightarrow>
            let s = s\<lparr>spbc := 0\<rparr> in
            case (if next_in s \<noteq> [] \<or> 0 < used_in s then
                    do {
                      (rc, s, c) \<leftarrow> nx_compress_block env GZIP_FC_WRAP n s c;
                      if rc \<noteq> LIBNX_OK \<and> rc \<noteq> LIBNX_OK_NO_AVIN then Some (True, cnt, s, c)
                      else if rc \<noteq> LIBNX_OK_NO_AVIN
                      then map_option (\<lambda>s. (False, 0, s, c)) (nx_compress_update_checksum True c s)
                      else Some (False, 0, s, c)
                    }
                  else Some (False, cnt, s, c)) of
              None \<Rightarrow> None
            | Some (failed, cnt, s, c) \<Rightarrow>
                if failed then Some (Some Z_STREAM_ERROR, cnt, s, c)
                else
                  let last = (next_in s = [] \<and> used_in s = 0 \<and> flush s = Z_FINISH);
                      s = (if last then s\<lparr>status := NX_BFINAL_ST\<rparr> else s)
                  in case rewrite_spanning_flush blk_head avail old_tebc (bfinal \<or> last) (spbc s) s of
                       None \<Rightarrow> None
                     | Some (s, _) \<Rightarrow>
                         stored_loop env avail old_tebc (bfinal \<or> last) cnt (s\<lparr>need_stored_block := need_stored_block s - spbc s\<rparr>) c)"

text \<open>What the compression step asks for: the label \<^verbatim>\<open>s1\<close>, a return, or the switch over the state of the buffers.\<close>

datatype df_next = Goto_s1 nat nx_def nx_cpb | Return int nx_def nx_cpb | Buffers nat nx_def nx_cpb

definition compress_step :: "df_env \<Rightarrow> nat \<Rightarrow> nat \<Rightarrow> nx_def \<Rightarrow> nx_cpb \<Rightarrow> df_next option" where
  "compress_step env fc cnt s c =
     do {
       (rc, s, c) \<leftarrow> nx_compress_block env fc (df_per_job_len env) s c;
       if rc = LIBNX_OK_BIG_TARGET then Some (Goto_s1 cnt (s\<lparr>need_stored_block := spbc s, tebc := 0\<rparr>) c)
       else if rc \<noteq> LIBNX_OK \<and> rc \<noteq> LIBNX_OK_NO_AVIN then Some (Return Z_STREAM_ERROR s c)
       else if rc \<noteq> LIBNX_OK_NO_AVIN then map_option (\<lambda>s. Buffers 0 s c) (nx_compress_update_checksum False c s)
       else Some (Buffers 0 s c)
     }"

definition deflate_step :: "df_env \<Rightarrow> nat \<Rightarrow> nx_def \<Rightarrow> nx_cpb \<Rightarrow> df_next option" where
  "deflate_step env cnt s c =
     (if (level s = 0 \<and> 0 < avail_out s) \<or> 0 < need_stored_block s then
        map_option (\<lambda>(rc, cnt, s, c). case rc of Some rc \<Rightarrow> Return rc s c | None \<Rightarrow> Buffers cnt (s\<lparr>need_stored_block := 0\<rparr>) c)
          (stored_loop env (avail_out s) (tebc s) False cnt s c)
      else if strategy s = Z_FIXED
              \<or> (strategy s = Z_DEFAULT_STRATEGY \<and> 0 < dict_len s \<and> length (next_in s) < DEF_DICT_THRESHOLD)
      then compress_step env GZIP_FC_COMPRESS_RESUME_FHT cnt s c
      else if strategy s = Z_DEFAULT_STRATEGY
      then compress_step env GZIP_FC_COMPRESS_RESUME_DHT_COUNT cnt s (c\<lparr>p_dht := df_table env (invoke_cnt s = 0) (p_jobs c)\<rparr>)
      else Some (Buffers cnt s c))"

definition df_loop_max :: nat where "df_loop_max = 0xffff"

definition closed_status :: "nx_def \<Rightarrow> bool" where
  "closed_status s \<longleftrightarrow> status s AND (NX_BFINAL_ST OR NX_TRAILER_ST) \<noteq> 0"

text \<open>
  The loop of \<^verbatim>\<open>nx_deflate\<close>, from the label \<^verbatim>\<open>s1\<close> or from \<^verbatim>\<open>s2\<close>; \<open>cnt\<close> is \<^verbatim>\<open>loop_cnt\<close>, which progress sets to zero. \<open>None\<close>: a
  fault, or the loop does not end.
\<close>

partial_function (option) deflate_loop :: "df_env \<Rightarrow> bool \<Rightarrow> nat \<Rightarrow> nx_def \<Rightarrow> nx_cpb \<Rightarrow> (int \<times> nx_def \<times> nx_cpb) option" where
  "deflate_loop env at_s1 cnt s c =
     (if at_s1 then
        if cnt + 1 = df_loop_max then Some (Z_STREAM_ERROR, s, c)
        else if 0 < used_out s then
          (case nx_copy_fifo_out_to_nxstrm_out (closed_status s) s of
             None \<Rightarrow> None
           | Some (s, copied) \<Rightarrow>
               if \<not> closed_status s \<and> avail_out s = 0 then Some (Z_OK, s, c)
               else deflate_loop env False (if copied then 0 else cnt + 1) s c)
        else if next_in s = [] \<and> (flush s < Z_PARTIAL_FLUSH \<or> Z_FINISH < flush s) then Some (Z_BUF_ERROR, s, c)
        else deflate_loop env False (cnt + 1) s c
      else if 0 < avail_out s \<and> 0 < used_out s then deflate_loop env True cnt s c
      else if (used_in s + length (next_in s)) mod 2 ^ 32 \<le> df_cache_threshold env \<and> flush s \<noteq> Z_SYNC_FLUSH \<and> flush s \<noteq> Z_PARTIAL_FLUSH
              \<and> flush s \<noteq> Z_FULL_FLUSH \<and> flush s \<noteq> Z_FINISH \<and> level s \<noteq> 0 \<and> dict_len s = 0
      then (case fifo_in_alloc_check env s of
              (ok, s) \<Rightarrow> if ok then map_option (\<lambda>s. (Z_OK, s, c)) (cache_input s) else Some (Z_MEM_ERROR, s, c))
      else if cnt + 1 = df_loop_max then Some (Z_STREAM_ERROR, s, c)
      else
        (case deflate_step env (cnt + 1) s c of
           None \<Rightarrow> None
         | Some (Return rc s c) \<Rightarrow> Some (rc, s, c)
         | Some (Goto_s1 cnt s c) \<Rightarrow> deflate_loop env True cnt s c
         | Some (Buffers cnt s c) \<Rightarrow>
             if used_out s = 0 \<and> next_in s = [] \<and> used_in s = 0 then
               (if flush s \<noteq> Z_FINISH then Some (Z_OK, s, c) else map_option (\<lambda>(rc, s). (rc, s, c)) (nx_stream_end s))
             else if avail_out s = 0 then Some (Z_OK, s, c)
             else deflate_loop env (0 < used_out s) cnt s c))"

text \<open>
  A stream that is compressed by the accelerator; the user's pointers are valid. \<open>input\<close> is what the user passes, \<open>buf\<close> the memory of
  his output buffer.
\<close>

definition nx_deflate :: "df_env \<Rightarrow> int \<Rightarrow> u8 list \<Rightarrow> u8 list \<Rightarrow> nx_def \<Rightarrow> nx_cpb \<Rightarrow> (int \<times> nx_def \<times> nx_cpb) option" where
  "nx_deflate env flsh input buf s c =
     (if Z_BLOCK < flsh \<or> flsh < 0 then Some (Z_STREAM_ERROR, s, c)
      else
        let s = s\<lparr>next_in := input, obuf := buf, next_out := 0, avail_out := length buf, flush := flsh\<rparr> in
        if avail_out s = 0 then Some (Z_BUF_ERROR, s, c)
        else do {
          s \<leftarrow> (if status s AND (NX_ZLIB_INIT_ST OR NX_GZIP_INIT_ST OR NX_RAW_INIT_ST) \<noteq> 0 then nx_deflate_add_header s else Some s);
          if status s = NX_BFINAL_ST \<and> flsh \<noteq> Z_FINISH then Some (Z_STREAM_ERROR, s, c)
          else if status s = NX_BFINAL_ST \<and> next_in s \<noteq> [] then Some (Z_BUF_ERROR, s, c)
          else deflate_loop env True 0 s c
        })"

end
