(* ===== verification/DeflateInput.thy ===== *)
theory DeflateInput
  imports DeflateCore
begin

text \<open>
  The input side of a deflate stream: the cache, and the end of the compressed input that is kept in front of it as the
  history of the next job.
\<close>

section \<open>The layout\<close>

text \<open>The last \<open>n\<close> elements.\<close>

definition tail :: "nat \<Rightarrow> 'a list \<Rightarrow> 'a list" where
  "tail n xs = drop (length xs - n) xs"

lemma length_tail [simp]: "length (tail n xs) = min n (length xs)"
  by (simp add: tail_def)

lemma tail_append: "tail n (xs @ ys) = tail (n - length ys) xs @ tail n ys"
  by (cases "n \<le> length ys") (simp_all add: tail_def)

lemma tail_all: "length xs \<le> n \<Longrightarrow> tail n xs = xs"
  by (simp add: tail_def)

lemma tail_tail: "n \<le> k \<Longrightarrow> tail n (tail k xs) = tail n xs"
  by (cases "k \<le> length xs") (simp_all add: tail_def)

lemma tail_0 [simp]: "tail 0 xs = []"
  by (simp add: tail_def)

definition cached :: "nx_def \<Rightarrow> u8 list" where
  "cached s = (case fifo_in s of None \<Rightarrow> [] | Some m \<Rightarrow> seg m (cur_in s) (used_in s))"

definition unsent :: "nx_def \<Rightarrow> u8 list" where
  "unsent s = cached s @ next_in s"

text \<open>\<open>m\<close> has the end of \<open>xs\<close> in front of \<open>c\<close>, up to \<open>h\<close> bytes of it.\<close>

definition hist_at :: "nat \<Rightarrow> u8 list \<Rightarrow> u8 list \<Rightarrow> nat \<Rightarrow> bool" where
  "hist_at h xs m c \<longleftrightarrow> min c h \<le> length xs \<and> seg m (c - min c h) (min c h) = tail (min c h) xs"

text \<open>\<open>xs\<close> is the input that was compressed so far.\<close>

definition in_ok :: "df_env \<Rightarrow> u8 list \<Rightarrow> nx_def \<Rightarrow> bool" where
  "in_ok env xs s \<longleftrightarrow> max_history_len s \<le> 32768 \<and> total_in s = length xs + used_in s
     \<and> (case fifo_in s of
          None \<Rightarrow> cur_in s = 0 \<and> used_in s = 0 \<and> history_len s = 0
        | Some m \<Rightarrow> length m = len_in s \<and> len_in s < 2 ^ 31 \<and> max_history_len s + df_cache_threshold env \<le> len_in s div 2
            \<and> cur_in s + used_in s \<le> len_in s div 2 \<and> history_len s \<le> cur_in s \<and> history_len s \<le> max_history_len s
            \<and> hist_at (max_history_len s) xs m (cur_in s))"

definition df_alloc_ok :: "df_env \<Rightarrow> bool" where
  "df_alloc_ok env \<longleftrightarrow> 32768 + df_cache_threshold env \<le> deflate_fifo_in_len env div 2 \<and> deflate_fifo_in_len env < 2 ^ 31
     \<and> (\<forall>n. \<exists>m. df_alloc env n = Some m \<and> length m = n)"

text \<open>What the operations on the input leave alone.\<close>

definition but_inp :: "nx_def \<Rightarrow> nx_def" where
  "but_inp s = s\<lparr>fifo_in := None, len_in := 0, cur_in := 0, used_in := 0, history_len := 0, next_in := [], total_in := 0\<rparr>"

lemma but_inp_fields:
  assumes "but_inp s' = but_inp s"
  shows "obuf s' = obuf s" "next_out s' = next_out s" "avail_out s' = avail_out s" "total_out s' = total_out s" "fifo_out s' = fifo_out s"
    "len_out s' = len_out s" "cur_out s' = cur_out s" "used_out s' = used_out s" "tebc s' = tebc s" "status s' = status s"
    "wrap s' = wrap s" "level s' = level s" "strategy s' = strategy s" "flush s' = flush s" "max_history_len s' = max_history_len s"
    "dict_len s' = dict_len s" "adler32 s' = adler32 s" "crc32 s' = crc32 s" "checksum_set s' = checksum_set s" "spbc s' = spbc s"
    "tpbc s' = tpbc s" "need_stored_block s' = need_stored_block s" "zadler s' = zadler s" "windowBits s' = windowBits s"
    "dict_id s' = dict_id s" "header_len s' = header_len s" "gzhead s' = gzhead s" "invoke_cnt s' = invoke_cnt s"
  using assms by (cases s; cases s'; simp add: but_inp_def)+

lemma length_cached: "in_ok env xs s \<Longrightarrow> length (cached s) = used_in s"
  by (auto simp: in_ok_def cached_def length_seg split: option.splits)

lemma length_unsent: "in_ok env xs s \<Longrightarrow> length (unsent s) = used_in s + length (next_in s)"
  by (simp add: unsent_def length_cached)

lemma df_use_input_ok: "n \<le> length (next_in s) \<Longrightarrow>
    df_use_input n s = Some (s\<lparr>next_in := drop n (next_in s), total_in := total_in s + n\<rparr>)"
  by (simp add: df_use_input_def)

section \<open>The history\<close>

lemma hist_at_append:
  assumes "hist_at h xs m c" and "seg m c (length ys) = ys" and "c + length ys \<le> length m"
  shows "hist_at h (xs @ ys) m (c + length ys)"
proof -
  define k where "k = min c h"
  define n where "n = length ys"
  define k' where "k' = min (c + n) h"
  have k: "k \<le> length xs" "seg m (c - k) k = tail k xs" "k \<le> c" "k' \<le> k + n" "k' \<le> length (xs @ ys)"
    using assms(1) by (auto simp: hist_at_def k_def k'_def n_def)
  have "seg m (c - k) (k + n) = tail (k + n) (xs @ ys)"
    using k assms(2) by (simp add: seg_add tail_append tail_all n_def)
  then have "drop (k + n - k') (seg m (c - k) (k + n)) = tail k' (xs @ ys)"
    using k tail_tail [OF k(4), of "xs @ ys"] by (simp add: tail_def n_def)
  moreover have "drop (k + n - k') (seg m (c - k) (k + n)) = seg m (c + n - k') k'"
  proof -
    have "c - k + (k + n - k') = c + n - k'" "k + n - (k + n - k') = k'" using k by simp_all
    then show ?thesis using seg_suffix [of "k + n - k'" "k + n" "c - k" m] k assms(3) by (simp add: n_def)
  qed
  ultimately show ?thesis using k(5) by (simp add: hist_at_def k'_def n_def)
qed

lemma hist_at_shorter:
  assumes "hist_at h xs m c" and "n \<le> c" and "n \<le> h" and "c \<le> length m"
  shows "n \<le> length xs" and "seg m (c - n) n = tail n xs"
proof -
  define k where "k = min c h"
  have k: "k \<le> length xs" "seg m (c - k) k = tail k xs" "n \<le> k" "k \<le> c"
    using assms by (auto simp: hist_at_def k_def)
  then show "n \<le> length xs" by simp
  have "drop (k - n) (seg m (c - k) k) = seg m (c - n) n"
    using seg_suffix [of "k - n" k "c - k" m] k assms(4) by simp
  moreover have "drop (k - n) (tail k xs) = tail n xs"
    using k tail_tail [OF k(3), of xs] by (simp add: tail_def)
  ultimately show "seg m (c - n) n = tail n xs" using k(2) by simp
qed

lemma hist_atI: "min c h = n \<Longrightarrow> n \<le> length xs \<Longrightarrow> seg m (c - n) n = tail n xs \<Longrightarrow> hist_at h xs m c"
  by (simp add: hist_at_def)

lemma hist_at_put:
  assumes "hist_at h xs m c" and "c \<le> i" and "i \<le> length m"
  shows "hist_at h xs (put m i bs) c"
  using assms by (simp add: hist_at_def seg_put_before)

section \<open>Allocation and caching\<close>

lemma fifo_in_alloc_ok:
  assumes "in_ok env xs s" and "df_alloc_ok env"
  obtains s' m where "fifo_in_alloc_check env s = (True, s')" and "fifo_in s' = Some m" and "in_ok env xs s'" and "unsent s' = unsent s"
    and "but_inp s' = but_inp s" and "next_in s' = next_in s" and "cur_in s' = cur_in s" and "used_in s' = used_in s"
    and "fifo_in s \<noteq> None \<Longrightarrow> s' = s"
proof (cases "fifo_in s")
  case (Some m)
  then show ?thesis using that [of s m] assms(1) by (simp add: fifo_in_alloc_check_def)
next
  case None
  obtain m where m: "df_alloc env (deflate_fifo_in_len env) = Some m" "length m = deflate_fifo_in_len env"
    using assms(2) by (auto simp: df_alloc_ok_def)
  define s' where "s' = s\<lparr>len_in := deflate_fifo_in_len env, fifo_in := Some m\<rparr>"
  have "in_ok env xs s'"
    using assms None m(2) by (auto simp: in_ok_def s'_def df_alloc_ok_def hist_at_def)
  moreover have "unsent s' = unsent s"
    using assms(1) None by (simp add: unsent_def cached_def s'_def in_ok_def)
  moreover have "fifo_in_alloc_check env s = (True, s')"
    unfolding fifo_in_alloc_check_def Let_def s'_def by (simp only: None m(1) simp_thms if_True option.case)
  moreover have "but_inp s' = but_inp s" by (simp add: s'_def but_inp_def)
  moreover have "fifo_in s' = Some m" "next_in s' = next_in s" "cur_in s' = cur_in s" "used_in s' = used_in s" by (simp_all add: s'_def)
  ultimately show ?thesis using that None by blast
qed

lemma cache_input_ok:
  assumes "in_ok env xs s" and "fifo_in s = Some m" and "used_in s + length (next_in s) \<le> df_cache_threshold env"
  obtains s' where "cache_input s = Some s'" and "in_ok env xs s'" and "unsent s' = unsent s" and "next_in s' = []"
    and "but_inp s' = but_inp s"
proof -
  have ok: "length m = len_in s" "len_in s < 2 ^ 31" "max_history_len s + df_cache_threshold env \<le> len_in s div 2"
    "cur_in s + used_in s \<le> len_in s div 2" "history_len s \<le> cur_in s" "history_len s \<le> max_history_len s"
    "hist_at (max_history_len s) xs m (cur_in s)" "max_history_len s \<le> 32768" "total_in s = length xs + used_in s"
    using assms(1,2) by (simp_all add: in_ok_def)
  define a where "a = length (next_in s)"
  define free where "free = (if cur_in s + used_in s < len_in s div 2 then len_in s div 2 - cur_in s - used_in s else 0)"
  obtain m1 c1 f1 where step: "(if free < a then do {
        p \<leftarrow> ptr_minus (cur_in s) (max_history_len s);
        m \<leftarrow> memmove m 0 p (max_history_len s + used_in s);
        Some ((len_in s div 2 + 2 ^ 32 - max_history_len s - used_in s) mod 2 ^ 32, s\<lparr>fifo_in := Some m, cur_in := max_history_len s\<rparr>)
      } else Some (free, s)) = Some (f1, s\<lparr>fifo_in := Some m1, cur_in := c1\<rparr>)"
    and r: "a \<le> f1" "length m1 = len_in s" "c1 + used_in s + a \<le> len_in s div 2" "history_len s \<le> c1"
      "hist_at (max_history_len s) xs m1 c1" "seg m1 c1 (used_in s) = seg m (cur_in s) (used_in s)"
  proof (cases "free < a")
    case False
    have "s\<lparr>fifo_in := Some m, cur_in := cur_in s\<rparr> = s" using assms(2) by simp
    moreover have "cur_in s + used_in s + a \<le> len_in s div 2" using False ok(4) by (auto simp: free_def split: if_splits)
    moreover have "(free < a) = False" "a \<le> free" using False by simp_all
    ultimately show ?thesis using ok by (intro that [of free "cur_in s" m]) (simp_all only: if_False)
  next
    case True
    define h where "h = max_history_len s"
    define u where "u = used_in s"
    have far: "h \<le> cur_in s" using True assms(3) ok(3,4) by (auto simp: free_def a_def h_def split: if_splits)
    define b where "b = seg m (cur_in s - h) (h + u)"
    have lb: "length b = h + u" using far ok(1,4) by (simp add: b_def length_seg u_def)
    have mv: "memmove m 0 (cur_in s - h) (h + u) = Some (put m 0 b)"
      using far ok(1,4) memmove_put [where i = "cur_in s - h" and n = "h + u" and m = m and j = 0] by (simp add: b_def u_def)
    have parts: "b = seg m (cur_in s - h) h @ seg m (cur_in s) u"
      using far by (simp add: b_def seg_add)
    have lens: "length (seg m (cur_in s - h) h) = h" "length (seg m (cur_in s) u) = u" "0 + length b \<le> length m"
      using far ok(1,4) lb by (simp_all add: length_seg u_def)
    have s1: "seg (put m 0 b) 0 h = seg m (cur_in s - h) h" "seg (put m 0 b) h u = seg m (cur_in s) u"
      using lens by (simp_all add: put_def seg_def parts)
    have hist: "hist_at h xs (put m 0 b) h"
      using ok(7) far s1(1) by (simp add: hist_at_def h_def min_absorb2)
    have room: "h + u + a \<le> len_in s div 2" using ok(3) assms(3) by (simp add: h_def u_def a_def)
    have wrap: "(len_in s div 2 + 2 ^ 32 - h - u) mod 2 ^ 32 = len_in s div 2 - h - u"
    proof -
      have "len_in s div 2 + 2 ^ 32 - h - u = (len_in s div 2 - h - u) + 2 ^ 32" using room by simp
      moreover have "len_in s div 2 - h - u < 2 ^ 32" using ok(2) by simp
      ultimately show ?thesis by (simp only: mod_add_self2 mod_less)
    qed
    have step: "(if free < a then do {
        p \<leftarrow> ptr_minus (cur_in s) h;
        m \<leftarrow> memmove m 0 p (h + u);
        Some ((len_in s div 2 + 2 ^ 32 - h - u) mod 2 ^ 32, s\<lparr>fifo_in := Some m, cur_in := h\<rparr>)
      } else Some (free, s)) = Some (len_in s div 2 - h - u, s\<lparr>fifo_in := Some (put m 0 b), cur_in := h\<rparr>)"
      by (simp only: if_P [OF True] ptr_minus_Some [OF far] mv wrap Option.bind.bind_lunit)
    have "a \<le> len_in s div 2 - h - u" "length (put m 0 b) = len_in s" "history_len s \<le> h"
      using room lens(3) ok(1,6) by (simp_all add: h_def)
    then show ?thesis
      by (rule that [OF step [unfolded h_def u_def] _ _ room [unfolded h_def u_def] _ hist [unfolded h_def] s1(2) [unfolded h_def u_def],
            unfolded h_def [symmetric] u_def [symmetric]])
  qed
  define m2 where "m2 = put m1 (c1 + used_in s) (next_in s)"
  define s' where "s' = s\<lparr>fifo_in := Some m2, cur_in := c1, next_in := [], total_in := total_in s + a, used_in := used_in s + a\<rparr>"
  have room: "c1 + used_in s + length (next_in s) \<le> length m1" using r(2,3) by (simp add: a_def)
  have "cache_input s = Some s'"
    using step r(1) room assms(2)
    by (simp add: cache_input_def a_def [symmetric] free_def [symmetric] min_absorb2 df_use_input_def wr_block_put s'_def m2_def del: wr_block_Some)
  moreover have "in_ok env xs s'"
    using ok r room by (simp add: in_ok_def s'_def m2_def hist_at_put)
  moreover have "seg m2 c1 (used_in s + a) = seg m (cur_in s) (used_in s) @ next_in s"
    using room r(6) by (simp add: m2_def seg_add seg_put_before seg_put_same a_def)
  then have "unsent s' = unsent s" using assms(2) by (simp add: unsent_def cached_def s'_def)
  ultimately show ?thesis using that [of s'] by (simp add: s'_def but_inp_def)
qed

section \<open>The source of a job\<close>

text \<open>
  The source is the end of the input that was compressed, whole quadwords of it, and a prefix of the input that
  was not.
\<close>

lemma nx_setup_ddl_in_ok:
  assumes ok: "in_ok env xs s" and lim: "limit < 2 ^ 32" and bufsz: "0 < strm_def_bufsz env"
  obtains hl k where "nx_setup_ddl_in env limit s = Some (hl, tail hl xs @ take k (unsent s), hl div 16)"
    and "hl mod 16 = 0" and "hl \<le> 32768" and "hl \<le> length xs" and "k \<le> length (unsent s)"
    and "32768 < limit \<Longrightarrow> unsent s \<noteq> [] \<Longrightarrow> 0 < k"
    and "limit \<le> length (unsent s) \<Longrightarrow> limit \<le> strm_def_bufsz env \<Longrightarrow> hl = 0 \<and> k = limit"
proof -
  define avail where "avail = min (length (next_in s)) (strm_def_bufsz env)"
  define hl where "hl = (if history_len s \<noteq> 0 \<and> used_in s + avail < limit then history_len s - history_len s mod 16 else 0)"
  define budget where "budget = (limit + 2 ^ 32 - hl) mod 2 ^ 32"
  define k where "k = min budget (used_in s + avail)"
  define c where "c = (if 0 < avail \<and> 0 < budget - min budget (used_in s) then take (min avail (budget - min budget (used_in s))) (next_in s) else [])"
  have hist: "history_len s \<le> 32768" using ok by (auto simp: in_ok_def split: option.splits)
  have hl: "hl mod 16 = 0" "hl \<le> history_len s" "hl \<le> 32768"
    using hist by (auto simp: hl_def minus_mod_eq_mult_div)
  have "hl div 16 \<le> 2048" using hl(3) by simp
  then have q: "hl div 16 mod 2 ^ 12 = hl div 16" by simp
  have "budget - min budget (used_in s) = budget - used_in s" "k - used_in s = min avail (budget - used_in s)"
    by (simp_all add: k_def min_def) arith
  then have c: "c = take (k - used_in s) (next_in s)"
    by (cases "avail = 0"; cases "budget - used_in s = 0") (simp_all only: c_def, simp_all)
  have lu: "length (cached s) = used_in s" by (rule length_cached [OF ok])
  have tk: "take k (unsent s) = take (min budget (used_in s)) (cached s) @ c"
    using lu by (simp add: unsent_def c) (simp add: k_def min_def)
  have bud: "budget = (if hl \<le> limit then limit - hl else limit + 2 ^ 32 - hl)"
  proof (cases "hl \<le> limit")
    case True
    then have "limit + 2 ^ 32 - hl = limit - hl + 2 ^ 32" by simp
    moreover have "limit - hl < 2 ^ 32" using lim by simp
    ultimately show ?thesis using True by (simp only: budget_def mod_add_self2 mod_less if_True)
  next
    case False
    then have "limit + 2 ^ 32 - hl < 2 ^ 32" by simp
    then show ?thesis using False by (simp only: budget_def mod_less if_False)
  qed
  have "hl \<le> length xs \<and> nx_setup_ddl_in env limit s = Some (hl, tail hl xs @ take k (unsent s), hl div 16)"
  proof (cases "fifo_in s")
    case None
    then have 0: "history_len s = 0" "used_in s = 0" "hl = 0" "budget = limit" "cached s = []"
      using ok bud hl(2) by (auto simp: in_ok_def cached_def)
    then show ?thesis
      using None 0 tk by (simp add: nx_setup_ddl_in_def avail_def [symmetric] c_def)
  next
    case (Some m)
    have f: "length m = len_in s" "cur_in s + used_in s \<le> len_in s div 2" "history_len s \<le> cur_in s" "history_len s \<le> max_history_len s"
      "hist_at (max_history_len s) xs m (cur_in s)"
      using ok Some by (simp_all add: in_ok_def)
    have sh: "hl \<le> length xs" "seg m (cur_in s - hl) hl = tail hl xs"
      using hist_at_shorter [OF f(5), of hl] hl(2) f by simp_all
    have rdh: "rd_block m (cur_in s - hl) hl = Some (tail hl xs)"
      using rd_block_seg [of "cur_in s - hl" hl m] sh(2) hl(2) f by simp
    have "take (min budget (used_in s)) (cached s) = seg m (cur_in s) (min budget (used_in s))"
      using Some by (simp add: cached_def seg_prefix)
    then have rdb: "rd_block m (cur_in s) (min budget (used_in s)) = Some (take (min budget (used_in s)) (cached s))"
      using rd_block_seg [of "cur_in s" "min budget (used_in s)" m] f by simp
    have nl: "\<not> cur_in s < history_len s" using f(3) by simp
    have lt: "length (tail hl xs) = hl" using sh(1) by simp
    have "nx_setup_ddl_in env limit s = Some (hl, tail hl xs @ take (min budget (used_in s)) (cached s) @ c, hl div 16 mod 2 ^ 12)"
      unfolding nx_setup_ddl_in_def Let_def Some avail_def [symmetric] hl_def [symmetric] budget_def [symmetric] option.case if_not_P [OF nl]
      by (simp only: rdh rdb Option.bind.bind_lunit prod.case c_def lt)
    then show ?thesis using sh(1) by (simp only: q tk append_assoc simp_thms)
  qed
  moreover have "k \<le> length (unsent s)"
    using length_unsent [OF ok] by (simp add: k_def avail_def)
  moreover have "0 < k" if "32768 < limit" "unsent s \<noteq> []"
    using that hl(3) bud length_unsent [OF ok] bufsz by (auto simp: k_def avail_def)
  moreover have "hl = 0 \<and> k = limit" if "limit \<le> length (unsent s)" "limit \<le> strm_def_bufsz env"
  proof -
    have "limit \<le> used_in s + avail" using that length_unsent [OF ok] by (simp add: avail_def)
    then have "hl = 0" by (simp add: hl_def)
    then show ?thesis using bud \<open>limit \<le> used_in s + avail\<close> by (simp add: k_def)
  qed
  ultimately show ?thesis using hl by (intro that [of hl k]) blast+
qed

section \<open>Consuming input\<close>

text \<open>From the cache: only the boundary moves.\<close>

lemma consume_cached_ok:
  assumes "in_ok env xs s" and "n \<le> used_in s"
  defines "s' \<equiv> s\<lparr>cur_in := cur_in s + n, used_in := used_in s - n\<rparr>"
  shows "in_ok env (xs @ take n (cached s)) s'" and "cached s' = drop n (cached s)" and "next_in s' = next_in s"
    and "but_inp s' = but_inp s" and "fifo_in s' = fifo_in s"
proof -
  have "in_ok env (xs @ take n (cached s)) s' \<and> cached s' = drop n (cached s)"
  proof (cases "fifo_in s")
    case None
    then show ?thesis using assms by (auto simp: in_ok_def cached_def s'_def)
  next
    case (Some m)
    have f: "length m = len_in s" "cur_in s + used_in s \<le> len_in s div 2" "hist_at (max_history_len s) xs m (cur_in s)"
      using assms(1) Some by (simp_all add: in_ok_def)
    define ys where "ys = take n (cached s)"
    have ys: "ys = seg m (cur_in s) n" "length ys = n"
      using Some assms(2) f by (simp_all add: ys_def cached_def seg_prefix length_seg)
    have "hist_at (max_history_len s) (xs @ ys) m (cur_in s + n)"
      using hist_at_append [OF f(3), of ys] ys f assms(2) by simp
    moreover have "cached s' = drop n (cached s)"
      using Some assms(2) f by (simp add: cached_def s'_def seg_suffix)
    moreover have "total_in s = length (xs @ ys) + (used_in s - n)"
      using assms(1,2) ys(2) by (simp add: in_ok_def)
    ultimately show ?thesis
      using assms(1,2) Some f by (simp add: in_ok_def s'_def ys_def [symmetric])
  qed
  then show "in_ok env (xs @ take n (cached s)) s'" "cached s' = drop n (cached s)" by simp_all
qed (simp_all add: s'_def but_inp_def)

text \<open>From the user's buffer: its end, with what is still needed of the older history, becomes the history.\<close>

lemma keep_input_ok:
  assumes ok: "in_ok env xs s" and fi: "fifo_in s = Some m" and n: "n \<le> length (next_in s)" and used: "0 < n \<Longrightarrow> used_in s = 0"
  obtains s' where "keep_input n s = Some s'" and "in_ok env (xs @ take n (next_in s)) s'" and "cached s' = cached s"
    and "next_in s' = drop n (next_in s)" and "used_in s' = used_in s" and "but_inp s' = but_inp s"
proof -
  have f: "length m = len_in s" "cur_in s + used_in s \<le> len_in s div 2" "history_len s \<le> cur_in s" "history_len s \<le> max_history_len s"
    "hist_at (max_history_len s) xs m (cur_in s)" "max_history_len s + df_cache_threshold env \<le> len_in s div 2"
    "len_in s < 2 ^ 31" "max_history_len s \<le> 32768" "total_in s = length xs + used_in s"
    using ok fi by (simp_all add: in_ok_def)
  define H where "H = max_history_len s"
  define ys where "ys = take n (next_in s)"
  define k where "k = min n H"
  define b where "b = drop (n - k) ys"
  have ys: "length ys = n" "length b = k" "b = tail k ys" "k \<le> n" "k \<le> H"
    using n by (simp_all add: ys_def b_def k_def tail_def)
  have rdb: "rd_block (next_in s) (n - k) k = Some b"
    using n ys(4) by (simp add: b_def ys_def drop_take)
  obtain m1 c1 where m1: "(if len_in s div 2 < cur_in s + n
        then do {
          m \<leftarrow> (if 0 < H - n then do { p \<leftarrow> ptr_minus (cur_in s) (H - n); memmove m 0 p (H - n) } else Some m);
          Some (m, H - n)
        } else Some (m, cur_in s)) = Some (m1, c1)"
    and l1: "length m1 = len_in s" and c1: "c1 + k \<le> len_in s div 2" "n = 0 \<Longrightarrow> m1 = m \<and> c1 = cur_in s"
    and h1: "hist_at H xs m1 c1 \<or> c1 = H - n \<and> H - n \<le> length xs \<and> seg m1 0 (H - n) = tail (H - n) xs"
  proof (cases "len_in s div 2 < cur_in s + n")
    case False
    then show ?thesis
      using f ys(4) by (intro that [of m "cur_in s"]) (simp_all add: H_def)
  next
    case True
    have far: "H - n \<le> cur_in s" using True f(6) by (simp add: H_def)
    define m1 where "m1 = put m 0 (seg m (cur_in s - (H - n)) (H - n))"
    have ls: "length (seg m (cur_in s - (H - n)) (H - n)) = H - n" using far f by (simp add: length_seg)
    have mv: "memmove m 0 (cur_in s - (H - n)) (H - n) = Some m1"
      using far f memmove_put [of "cur_in s - (H - n)" "H - n" m 0] by (simp add: m1_def)
    have "seg m1 0 (H - n) = seg m (cur_in s - (H - n)) (H - n)"
      unfolding m1_def by (rule seg_put_same) (use ls f far in auto)
    then have "H - n \<le> length xs \<and> seg m1 0 (H - n) = tail (H - n) xs"
      using hist_at_shorter [OF f(5) far] f by (simp add: H_def)
    moreover have "length m1 = len_in s" using ls f far by (simp add: m1_def)
    moreover have "n \<noteq> 0" using True f(2) by auto
    moreover have "H - n + k \<le> len_in s div 2" using f(6) by (simp add: k_def H_def)
    moreover have "(if 0 < H - n then do { p \<leftarrow> ptr_minus (cur_in s) (H - n); memmove m 0 p (H - n) } else Some m) = Some m1"
      using mv far by (cases "0 < H - n") (simp_all add: m1_def)
    ultimately show ?thesis
      using True by (intro that [of m1 "H - n"]) (simp_all only: if_True Option.bind.bind_lunit simp_thms)
  qed
  define m2 where "m2 = put m1 c1 b"
  define s' where "s' = s\<lparr>fifo_in := Some m2, cur_in := c1 + k, history_len := min (c1 + k) H, next_in := drop n (next_in s),
    total_in := total_in s + n\<rparr>"
  have room: "c1 + length b \<le> length m1" using c1(1) l1 ys(2) by simp
  have "(if 0 < n then do {
          let copy_bytes = min n H;
          b \<leftarrow> rd_block (next_in s) (n - copy_bytes) copy_bytes;
          m \<leftarrow> wr_block m1 c1 b;
          Some (m, c1 + copy_bytes)
        } else Some (m1, c1)) = Some (m2, c1 + k)"
  proof (cases "n = 0")
    case True
    then show ?thesis using ys(2) by (simp add: m2_def k_def)
  next
    case False
    then show ?thesis using wr_block_put [OF room] by (simp add: Let_def k_def [symmetric] rdb m2_def del: wr_block_Some rd_block_Some)
  qed
  moreover have "df_use_input n (s\<lparr>fifo_in := Some m2, cur_in := c1 + k, history_len := min (c1 + k) H\<rparr>) = Some s'"
    using n by (simp add: df_use_input_def s'_def)
  ultimately have step: "keep_input n s = Some s'"
    unfolding keep_input_def fi Option.bind.bind_lunit H_def [symmetric] Let_def
    by (simp only: m1 [unfolded Let_def] prod.case Option.bind.bind_lunit)
  have h2: "hist_at H (xs @ ys) m2 (c1 + k)"
  proof (cases "n \<le> H")
    case True
    then have kn: "k = n" "b = ys" by (simp_all add: k_def b_def)
    have sb: "seg m2 c1 n = ys"
      using seg_put_same [OF room, of n] kn ys(1) by (simp add: m2_def)
    show ?thesis
      using h1
    proof
      assume "hist_at H xs m1 c1"
      then have "hist_at H xs m2 c1" unfolding m2_def using room by (intro hist_at_put) simp_all
      then show ?thesis using hist_at_append [of H xs m2 c1 ys] sb ys(1) kn room by (simp add: m2_def)
    next
      assume *: "c1 = H - n \<and> H - n \<le> length xs \<and> seg m1 0 (H - n) = tail (H - n) xs"
      then have "seg m2 0 (H - n) = tail (H - n) xs"
        unfolding m2_def using room by (simp add: seg_put_before)
      then have "seg m2 0 (H - n + n) = tail (H - n) xs @ ys" using sb * by (simp only: seg_add add_0)
      moreover have "tail H (xs @ ys) = tail (H - n) xs @ ys" using True ys(1) by (simp add: tail_append tail_all)
      moreover have "H \<le> length xs + n" using * by linarith
      ultimately show ?thesis using True * kn ys(1) by (intro hist_atI [where n = H]) simp_all
    qed
  next
    case False
    then have k: "k = H" by (simp add: k_def)
    have "seg m2 c1 H = b"
      using seg_put_same [OF room, of H] k ys(2) by (simp add: m2_def)
    moreover have "tail H (xs @ ys) = tail H ys" using False ys(1) by (simp add: tail_append)
    ultimately show ?thesis using False k ys by (intro hist_atI [where n = H]) simp_all
  qed
  have "in_ok env (xs @ ys) s'"
  proof -
    have "c1 + k + used_in s \<le> len_in s div 2"
    proof (cases "n = 0")
      case True
      then show ?thesis using c1(2) f(2) by (simp add: k_def)
    next
      case False
      then show ?thesis using c1(1) used by simp
    qed
    moreover have "length m2 = len_in s" using room l1 by (simp add: m2_def)
    ultimately show ?thesis using f h2 ys(1) by (simp add: in_ok_def s'_def H_def)
  qed
  moreover have "cached s' = cached s"
  proof (cases "n = 0")
    case True
    then show ?thesis using c1(2) ys(2) fi by (simp add: cached_def s'_def m2_def k_def)
  next
    case False
    then show ?thesis using used fi by (simp add: cached_def s'_def)
  qed
  moreover have "next_in s' = drop n (next_in s)" "used_in s' = used_in s" "but_inp s' = but_inp s"
    by (simp_all add: s'_def but_inp_def)
  ultimately show ?thesis using step that unfolding ys_def by blast
qed

text \<open>Both together, for \<open>n\<close> bytes.\<close>

lemma consume_ok:
  assumes ok: "in_ok env xs s" and env: "df_alloc_ok env" and n: "n \<le> length (unsent s)"
  defines "s1 \<equiv> s\<lparr>cur_in := cur_in s + min (used_in s) n, used_in := used_in s - min (used_in s) n\<rparr>"
  obtains s2 s3 where "fifo_in_alloc_check env s1 = (True, s2)" and "keep_input (n - used_in s) s2 = Some s3"
    and "in_ok env (xs @ take n (unsent s)) s3" and "unsent s3 = drop n (unsent s)" and "but_inp s3 = but_inp s"
proof -
  define k where "k = min (used_in s) n"
  have lc: "length (cached s) = used_in s" by (rule length_cached [OF ok])
  note c = consume_cached_ok [OF ok, of k, folded s1_def [folded k_def]]
  have s1: "in_ok env (xs @ take k (cached s)) s1" "cached s1 = drop k (cached s)" "next_in s1 = next_in s" "but_inp s1 = but_inp s"
    using c by (simp_all add: k_def)
  obtain s2 m where s2: "fifo_in_alloc_check env s1 = (True, s2)" "fifo_in s2 = Some m" "in_ok env (xs @ take k (cached s)) s2"
    "unsent s2 = unsent s1" "but_inp s2 = but_inp s1" "next_in s2 = next_in s1" "used_in s2 = used_in s1"
    using fifo_in_alloc_ok [OF s1(1) env] by metis
  have c2: "cached s2 = drop k (cached s)" using s2(4,6) s1(2,3) by (simp add: unsent_def)
  have f: "n - used_in s \<le> length (next_in s2)" "0 < n - used_in s \<Longrightarrow> used_in s2 = 0"
    using n length_unsent [OF ok] s2(6,7) s1(3) by (simp_all add: s1_def k_def)
  obtain s3 where s3: "keep_input (n - used_in s) s2 = Some s3" "in_ok env ((xs @ take k (cached s)) @ take (n - used_in s) (next_in s2)) s3"
    "cached s3 = cached s2" "next_in s3 = drop (n - used_in s) (next_in s2)" "but_inp s3 = but_inp s2"
    using keep_input_ok [OF s2(3,2) f] by metis
  have "take k (cached s) @ take (n - used_in s) (next_in s2) = take n (unsent s)"
    using lc s2(6) s1(3) by (simp add: unsent_def k_def min_def)
  moreover have "unsent s3 = drop n (unsent s)"
    using lc s3(3,4) c2 s2(6) s1(3) by (simp add: unsent_def k_def min_def)
  ultimately show ?thesis using that [of s2 s3] s2 s3 s1(4) by simp
qed

text \<open>What the operations on the output do not see.\<close>

lemma in_ok_cong:
  assumes "fifo_in s' = fifo_in s" "len_in s' = len_in s" "cur_in s' = cur_in s" "used_in s' = used_in s" "history_len s' = history_len s"
    "next_in s' = next_in s" "total_in s' = total_in s" "max_history_len s' = max_history_len s"
  shows "in_ok env xs s' = in_ok env xs s" "unsent s' = unsent s"
  unfolding in_ok_def unsent_def cached_def assms by (rule refl)+

lemma unsent_Nil: "in_ok env xs s \<Longrightarrow> next_in s = [] \<and> used_in s = 0 \<longleftrightarrow> unsent s = []"
  using length_unsent [of env xs s] by auto

end
