(* ===== verification/DeflateOut.thy ===== *)
theory DeflateOut
  imports DeflateInput DeflateHeaderCorrect
begin

text \<open>
  What a deflate stream has sent so far, as a sequence of blocks: those that the accelerator made and those that
  the library writes itself; flushing and draining the overflow buffer append blocks and lose nothing.
\<close>

section \<open>Encoded data\<close>

text \<open>
  \<open>coded h body x\<close>: after its final bit, a block of the accelerator consists of the bits \<open>body\<close> and stands for the
  bytes \<open>x\<close> if \<open>h\<close> was decompressed just before it.
\<close>

type_synonym coding = "u8 list \<Rightarrow> bool list \<Rightarrow> u8 list \<Rightarrow> bool"

inductive encodes :: "coding \<Rightarrow> bool \<Rightarrow> bool list \<Rightarrow> u8 list \<Rightarrow> bool" for coded where
  encodes_Nil: "encodes coded False [] []"
| encodes_job: "encodes coded False bs xs \<Longrightarrow> h \<le> length xs \<Longrightarrow> coded (tail h xs) body x \<Longrightarrow> encodes coded f (bs @ f # body) (xs @ x)"
| encodes_own: "encodes coded False bs xs \<Longrightarrow> read_block (length bs) b = Some (f, x, []) \<Longrightarrow> encodes coded f (bs @ b) (xs @ x)"

lemma encodes_stored:
  assumes "encodes coded False bs xs" and "length bs mod 8 = pos mod 8" and "length x < 0x10000"
  shows "encodes coded f (bs @ stored_header pos f (length x) @ byte_bits x) (xs @ x)"
proof -
  have "stored_header pos f (length x) = stored_header (length bs) f (length x)"
    using stored_header_pos [of pos "pos mod 8"] stored_header_pos [of "length bs" "pos mod 8"] assms(2) by simp
  then show ?thesis
    using encodes_own [OF assms(1)] read_stored_header [OF assms(3), of "length bs" f "[]"] by simp
qed

lemma encodes_empty_stored:
  "encodes coded False bs xs \<Longrightarrow> length bs mod 8 = pos mod 8 \<Longrightarrow> encodes coded f (bs @ stored_header pos f 0) xs"
  using encodes_stored [of coded bs xs pos "[]" f] by simp

lemma encodes_empty_fixed: "encodes coded False bs xs \<Longrightarrow> encodes coded f (bs @ empty_fixed f) xs"
  using encodes_own [of coded bs xs "empty_fixed f" f "[]"] read_empty_fixed [of "length bs" f "[]"] by simp

text \<open>The bits of bytes of which the last one has \<open>t\<close> valid bits.\<close>

definition sent_bits :: "nat \<Rightarrow> u8 list \<Rightarrow> bool list" where
  "sent_bits t ws = valid_bits (length ws) t ws"

lemma sent_bits_0: "sent_bits 0 ws = byte_bits ws"
  by (simp add: sent_bits_def valid_bits_full)

lemma sent_bits_prefix: "t = 0 \<or> ws \<noteq> [] \<Longrightarrow> sent_bits t (pre @ ws) = byte_bits pre @ sent_bits t ws"
  by (cases ws) (auto simp: sent_bits_def valid_bits_def)

lemma out_bits_sent: "out_bits t s = sent_bits t (out_bytes s)"
  by (simp add: out_bits_def sent_bits_def)

lemma length_sent_bits: "t < 8 \<Longrightarrow> t = 0 \<or> ws \<noteq> [] \<Longrightarrow> length (sent_bits t ws) mod 8 = t"
proof (cases "t = 0")
  case False
  assume "t < 8" "t = 0 \<or> ws \<noteq> []"
  with False have "length (sent_bits t ws) = 8 * (length ws - 1) + t"
    by (cases ws) (simp_all add: sent_bits_def valid_bits_def)
  then show ?thesis using \<open>t < 8\<close> by simp
qed (simp add: sent_bits_0)

text \<open>
  After the bytes \<open>pre\<close> of earlier calls, the output consists of the header and of blocks that encode \<open>xs\<close>, the last of
  them with the final bit \<open>fin\<close>.
\<close>

definition coded_out :: "coding \<Rightarrow> u8 list \<Rightarrow> u8 list \<Rightarrow> bool \<Rightarrow> u8 list \<Rightarrow> 'a nx_out_scheme \<Rightarrow> bool" where
  "coded_out coded hdr pre fin xs s \<longleftrightarrow>
     (\<exists>B. sent_bits (tebc s) (pre @ out_bytes s) = byte_bits hdr @ B \<and> encodes coded fin B xs)"

lemma coded_out_cong: "out_bytes s' = out_bytes s \<Longrightarrow> tebc s' = tebc s \<Longrightarrow> coded_out coded hdr pre fin xs s' = coded_out coded hdr pre fin xs s"
  by (simp add: coded_out_def)

text \<open>Blocks are appended.\<close>

lemma coded_out_append:
  assumes "coded_out coded hdr pre False xs s" and t: "tebc s < 8" "tebc s = 0 \<or> out_bytes s \<noteq> []"
    and "out_bits (tebc s') s' = out_bits (tebc s) s @ blk" and "tebc s' = 0 \<or> out_bytes s' \<noteq> []"
    and "\<And>B. encodes coded False B xs \<Longrightarrow> length B mod 8 = tebc s \<Longrightarrow> encodes coded fin (B @ blk) ys"
  shows "coded_out coded hdr pre fin ys s'"
proof -
  obtain B where B: "sent_bits (tebc s) (pre @ out_bytes s) = byte_bits hdr @ B" "encodes coded False B xs"
    using assms(1) by (auto simp: coded_out_def)
  have pre: "sent_bits (tebc s) (pre @ out_bytes s) = byte_bits pre @ out_bits (tebc s) s"
    using t(2) by (simp add: sent_bits_prefix out_bits_sent)
  have "length (sent_bits (tebc s) (pre @ out_bytes s)) mod 8 = tebc s"
    using t by (intro length_sent_bits) auto
  then have "length B mod 8 = tebc s" unfolding B(1) by simp
  then have "encodes coded fin (B @ blk) ys" by (rule assms(6) [OF B(2)])
  moreover have "sent_bits (tebc s') (pre @ out_bytes s') = byte_bits hdr @ B @ blk"
    using assms(4,5) B(1) pre by (simp add: sent_bits_prefix out_bits_sent)
  ultimately show ?thesis by (auto simp: coded_out_def)
qed

section \<open>Where a flush ends\<close>

lemma bind_SomeE: "Option.bind m f = Some y \<Longrightarrow> (\<And>x. m = Some x \<Longrightarrow> f x = Some y \<Longrightarrow> P) \<Longrightarrow> P"
  by (cases m) auto

lemma fill_user_stop:
  "fill_user bs s = Some (rest, s') \<Longrightarrow>
     cur_out s' = cur_out s \<and> used_out s' = used_out s \<and> tebc s' = tebc s \<and> (rest \<noteq> [] \<longrightarrow> avail_out s' = 0)"
proof (induction bs arbitrary: s)
  case (Cons b bs)
  show ?case
  proof (cases "avail_out s = 0")
    case False
    then obtain s1 where "put_user b s = Some s1" "fill_user bs s1 = Some (rest, s')"
      using Cons.prems by (cases "put_user b s") auto
    then show ?thesis
      using Cons.IH [of s1] by (auto simp: put_user_def update_stream_out_def split: Option.bind_splits)
  qed (use Cons.prems in auto)
qed simp

lemma put_fifo_stop:
  "for_each put_fifo bs s = Some s' \<Longrightarrow>
     cur_out s' = cur_out s \<and> used_out s' = used_out s + length bs \<and> tebc s' = tebc s \<and> avail_out s' = avail_out s"
proof (induction bs arbitrary: s)
  case (Cons b bs)
  then obtain s1 where s1: "put_fifo b s = Some s1" "for_each put_fifo bs s1 = Some s'"
    by (cases "put_fifo b s") auto
  have "cur_out s1 = cur_out s \<and> used_out s1 = used_out s + 1 \<and> tebc s1 = tebc s \<and> avail_out s1 = avail_out s"
    using s1(1) by (auto simp: put_fifo_def split: Option.bind_splits)
  then show ?case using Cons.IH [OF s1(2)] by simp
qed simp

text \<open>Bytes reach the overflow buffer only when the user's buffer is full, the withheld byte apart.\<close>

lemma span_tail_stop:
  assumes "span_tail tmp nb told s = Some (s', n)" and "used_out s = 0" and "cur_out s = 0"
  shows "cur_out s' = 0" and "0 < used_out s' \<Longrightarrow> tebc s' = 0 \<Longrightarrow> avail_out s' = 0" and "tebc s' = tebc s"
proof -
  obtain s1 where s1: "(if 0 < told then do { m \<leftarrow> wr (obuf s) (next_out s - 1) (tmp ! 0); Some (s\<lparr>obuf := m\<rparr>) } else Some s) = Some s1"
    and r1: "do { (rest, s) \<leftarrow> fill_user (take nb (drop 1 tmp)) s1; s \<leftarrow> for_each put_fifo rest s; if used_out s = 0 \<and> 0 < tebc s then
         do {
           let s = rewind_stream_out s;
           b \<leftarrow> rd (obuf s) (next_out s);
           m \<leftarrow> wr (fifo_out s) 0 b;
           Some (s\<lparr>fifo_out := m, used_out := 1, cur_out := 0\<rparr>, nb - 1)
         }
       else Some (s, nb) } = Some (s', n)"
    using assms(1) unfolding span_tail_def by (rule bind_SomeE) (rule that)
  obtain rest s2 where s2: "fill_user (take nb (drop 1 tmp)) s1 = Some (rest, s2)"
    and r2: "do { s \<leftarrow> for_each put_fifo rest s2; if used_out s = 0 \<and> 0 < tebc s then
         do {
           let s = rewind_stream_out s;
           b \<leftarrow> rd (obuf s) (next_out s);
           m \<leftarrow> wr (fifo_out s) 0 b;
           Some (s\<lparr>fifo_out := m, used_out := 1, cur_out := 0\<rparr>, nb - 1)
         }
       else Some (s, nb) } = Some (s', n)"
    using r1 by (rule bind_SomeE) (auto split: prod.splits)
  obtain s3 where s3: "for_each put_fifo rest s2 = Some s3"
    and r3: "(if used_out s3 = 0 \<and> 0 < tebc s3 then
         do {
           let s = rewind_stream_out s3;
           b \<leftarrow> rd (obuf s) (next_out s);
           m \<leftarrow> wr (fifo_out s) 0 b;
           Some (s\<lparr>fifo_out := m, used_out := 1, cur_out := 0\<rparr>, nb - 1)
         }
       else Some (s3, nb)) = Some (s', n)"
    using r2 by (rule bind_SomeE) (rule that)
  have f1: "cur_out s1 = 0" "used_out s1 = 0" "tebc s1 = tebc s"
    using s1 assms(2,3) by (auto split: Option.bind_splits if_splits)
  have f3: "cur_out s3 = 0" "tebc s3 = tebc s" "0 < used_out s3 \<Longrightarrow> avail_out s3 = 0"
    using fill_user_stop [OF s2] put_fifo_stop [OF s3] f1 by auto
  have "cur_out s' = 0 \<and> tebc s' = tebc s \<and> (0 < used_out s' \<longrightarrow> tebc s' = 0 \<longrightarrow> avail_out s' = 0)"
    using f3 r3 by (auto simp: rewind_stream_out_def Let_def split: if_splits Option.bind_splits)
  then show "cur_out s' = 0" "0 < used_out s' \<Longrightarrow> tebc s' = 0 \<Longrightarrow> avail_out s' = 0" "tebc s' = tebc s" by blast+
qed

lemma append_spanning_stop:
  assumes "append_spanning_flush fl t fin s = Some (s', n)" and "used_out s = 0" and "cur_out s = 0"
  shows "cur_out s' = 0" and "0 < used_out s' \<Longrightarrow> tebc s' = 0 \<Longrightarrow> avail_out s' = 0"
proof -
  have tail: "cur_out s' = 0 \<and> (0 < used_out s' \<longrightarrow> tebc s' = 0 \<longrightarrow> avail_out s' = 0)"
    if "span_tail tmp nb t (s\<lparr>tebc := t'\<rparr>) = Some (s', n)" for tmp nb t'
    using span_tail_stop [OF that] assms(2,3) by simp
  have "cur_out s' = 0 \<and> (0 < used_out s' \<longrightarrow> tebc s' = 0 \<longrightarrow> avail_out s' = 0)"
  proof (cases "5 < avail_out s \<and> (fl = Z_SYNC_FLUSH \<or> fl = Z_FULL_FLUSH)")
    case True
    then have "do {
          (m, nb) \<leftarrow> append_sync_flush (obuf s) (next_out s) t fin;
          Some (update_stream_out nb (s\<lparr>obuf := m, tebc := 0\<rparr>), nb)
        } = Some (s', n)"
      using assms(1) unfolding append_spanning_flush_def if_P [OF True] by blast
    then show ?thesis using assms(2,3) by (elim bind_SomeE) (auto simp: update_stream_out_def split: prod.splits)
  next
    case False
    obtain tmp where "(if fl = Z_SYNC_FLUSH \<or> fl = Z_FULL_FLUSH then
          do { (tmp, nb) \<leftarrow> append_sync_flush tmp 1 t fin; span_tail tmp nb t (s\<lparr>tebc := 0\<rparr>) }
        else if fl = Z_PARTIAL_FLUSH then
          do {
            (tmp, nb) \<leftarrow> append_sync_flush tmp 1 t False;
            (tmp, nb2, next_tebc) \<leftarrow> append_partial_flush tmp (1 + nb) 0 fin;
            span_tail tmp (nb + nb2) t (s\<lparr>tebc := next_tebc\<rparr>)
          }
        else Some (s, 0)) = Some (s', n)"
      using assms(1) unfolding append_spanning_flush_def if_not_P [OF False] by (rule bind_SomeE) (rule that)
    then show ?thesis
      using assms(2,3) tail by (auto split: if_splits elim!: bind_SomeE)
  qed
  then show "cur_out s' = 0" "0 < used_out s' \<Longrightarrow> tebc s' = 0 \<Longrightarrow> avail_out s' = 0" by blast+
qed

lemma fifo_out_len_check_stop:
  assumes "fifo_out_len_check s = Some s'"
  shows "used_out s' = used_out s" "avail_out s' = avail_out s" "tebc s' = tebc s" "used_out s' = 0 \<Longrightarrow> cur_out s' = 0"
proof -
  have "used_out s' = used_out s \<and> avail_out s' = avail_out s \<and> tebc s' = tebc s \<and> (used_out s' = 0 \<longrightarrow> cur_out s' = 0)"
    using assms unfolding fifo_out_len_check_def by (elim bind_SomeE) (auto split: if_splits elim!: bind_SomeE)
  then show "used_out s' = used_out s" "avail_out s' = avail_out s" "tebc s' = tebc s" "used_out s' = 0 \<Longrightarrow> cur_out s' = 0"
    by blast+
qed

lemma copy_fifo_stop:
  assumes "nx_copy_fifo_out_to_nxstrm_out closed s = Some (s', b)" and "0 < used_out s" and "0 < avail_out s"
  shows "used_out s' = 0 \<longrightarrow> cur_out s' = 0" and "0 < used_out s' \<Longrightarrow> tebc s' = 0 \<or> 0 < used_out s - avail_out s \<or> closed \<Longrightarrow> avail_out s' = 0"
proof -
  define k where "k = min (used_out s) (avail_out s)"
  have c: "\<not> (used_out s = 0 \<or> avail_out s = 0)" using assms by simp
  obtain m s2 where s2: "fifo_out_len_check ((update_stream_out k (s\<lparr>obuf := m\<rparr>))
        \<lparr>used_out := used_out (update_stream_out k (s\<lparr>obuf := m\<rparr>)) - k, cur_out := cur_out (update_stream_out k (s\<lparr>obuf := m\<rparr>)) + k\<rparr>) = Some s2"
    and r: "(if 0 < tebc s2 \<and> used_out s2 = 0 \<and> \<not> closed
        then do { (s, nb) \<leftarrow> append_spanning_flush Z_SYNC_FLUSH (tebc s2) False s2; Some (s, True) }
        else Some (s2, True)) = Some (s', b)"
    using assms(1) unfolding nx_copy_fifo_out_to_nxstrm_out_def if_not_P [OF c] Let_def k_def [symmetric]
    by (elim bind_SomeE) (rule that)
  have f2: "used_out s2 = used_out s - k" "avail_out s2 = avail_out s - k" "used_out s2 = 0 \<Longrightarrow> cur_out s2 = 0"
    using fifo_out_len_check_stop [OF s2] by (simp_all add: update_stream_out_def)
  have "(used_out s' = 0 \<longrightarrow> cur_out s' = 0)
    \<and> (0 < used_out s' \<longrightarrow> tebc s' = 0 \<or> 0 < used_out s - avail_out s \<or> closed \<longrightarrow> avail_out s' = 0)"
  proof (cases "0 < tebc s2 \<and> used_out s2 = 0 \<and> \<not> closed")
    case True
    then obtain nb where "append_spanning_flush Z_SYNC_FLUSH (tebc s2) False s2 = Some (s', nb)"
      using r by (auto elim!: bind_SomeE)
    then show ?thesis
      using append_spanning_stop [of Z_SYNC_FLUSH "tebc s2" False s2 s' nb] True f2 by (auto simp: k_def)
  next
    case False
    then show ?thesis using r f2 unfolding if_not_P [OF False] by (auto simp: k_def)
  qed
  then show "used_out s' = 0 \<longrightarrow> cur_out s' = 0"
    "0 < used_out s' \<Longrightarrow> tebc s' = 0 \<or> 0 < used_out s - avail_out s \<or> closed \<Longrightarrow> avail_out s' = 0" by blast+
qed

section \<open>Flushing and draining\<close>

definition out_inv :: "'a nx_out_scheme \<Rightarrow> bool" where
  "out_inv s \<longleftrightarrow> out_ok s \<and> tebc s < 8 \<and> (used_out s = 0 \<longrightarrow> cur_out s = 0) \<and> length (fifo_out s) = len_out s \<and> 16 \<le> len_out s div 2"

lemma out_bytes_Nil: "out_ok s \<Longrightarrow> out_bytes s \<noteq> [] \<longleftrightarrow> 0 < next_out s + used_out s"
  by (metis length_out_bytes length_greater_0_conv)

lemma out_inv_frame:
  assumes "out_inv s" and "out_frame s s'" and "out_ok s'" and "tebc s' < 8" and "used_out s' = 0 \<longrightarrow> cur_out s' = 0"
  shows "out_inv s'"
  using assms by (simp add: out_inv_def out_frame_def)

lemma add_flush:
  assumes inv: "out_inv s" and empty: "used_out s = 0" and told: "0 < tebc s \<longrightarrow> 0 < next_out s"
    and coded: "coded_out coded hdr pre False xs s" and fl: "fl \<in> {Z_SYNC_FLUSH, Z_FULL_FLUSH, Z_PARTIAL_FLUSH}"
  obtains s' n where "append_spanning_flush fl (tebc s) fin s = Some (s', n)" and "coded_out coded hdr pre fin xs s'" and "out_inv s'"
    and "out_frame s s'" and "0 < tebc s' \<longrightarrow> 0 < used_out s'" and "0 < used_out s' \<Longrightarrow> tebc s' = 0 \<Longrightarrow> avail_out s' = 0"
    and "fl \<noteq> Z_PARTIAL_FLUSH \<Longrightarrow> tebc s' = 0"
proof -
  have ok: "out_ok s" "tebc s < 8" "cur_out s = 0" "cur_out s + 7 \<le> length (fifo_out s)" "cur_out s + 5 \<le> length (fifo_out s)"
    using inv empty by (auto simp: out_inv_def)
  have ne: "tebc s = 0 \<or> out_bytes s \<noteq> []" using told ok(1) by (auto simp: out_bytes_Nil)
  show ?thesis
  proof (cases "fl = Z_PARTIAL_FLUSH")
    case True
    obtain s' n where s': "append_spanning_flush Z_PARTIAL_FLUSH (tebc s) fin s = Some (s', n)"
      "out_bits 2 s' = out_bits (tebc s) s @ stored_header (tebc s) False 0 @ empty_fixed fin" "tebc s' = 2" "out_ok s'"
      "out_frame s s'" "0 < used_out s'"
      by (rule append_spanning_partial [OF ok(1) empty ok(4,2) told])
    have "coded_out coded hdr pre fin xs s'"
    proof (rule coded_out_append [OF coded ok(2) ne, of s' "stored_header (tebc s) False 0 @ empty_fixed fin"])
      fix B
      assume "encodes coded False B xs" "length B mod 8 = tebc s"
      then have "encodes coded False (B @ stored_header (tebc s) False 0) xs"
        using ok(2) by (intro encodes_empty_stored) simp_all
      then show "encodes coded fin (B @ stored_header (tebc s) False 0 @ empty_fixed fin) xs"
        using encodes_empty_fixed by fastforce
    qed (use s' in \<open>simp_all add: out_bytes_Nil\<close>)
    moreover have "out_inv s'"
      using out_inv_frame [OF inv s'(5,4)] s'(3) append_spanning_stop(1) [OF s'(1) empty ok(3)] by simp
    ultimately show ?thesis using that [of s' n] s' True by simp
  next
    case False
    then have f: "fl = Z_SYNC_FLUSH \<or> fl = Z_FULL_FLUSH" using fl by auto
    obtain s' where s': "append_spanning_flush fl (tebc s) fin s = Some (s', stored_bytes (tebc s))"
      "out_bits 0 s' = out_bits (tebc s) s @ stored_header (tebc s) fin 0" "tebc s' = 0" "out_ok s'" "out_frame s s'"
      "next_out s' + used_out s' = next_out s + stored_bytes (tebc s)"
      by (rule append_spanning_sync [OF ok(1) empty ok(5,2) told f])
    have "coded_out coded hdr pre fin xs s'"
      by (rule coded_out_append [OF coded ok(2) ne, of s' "stored_header (tebc s) fin 0"])
        (use s' ok(2) in \<open>simp_all add: encodes_empty_stored\<close>)
    moreover have "out_inv s'"
      using out_inv_frame [OF inv s'(5,4)] s'(3) append_spanning_stop(1) [OF s'(1) empty ok(3)] by simp
    ultimately show ?thesis
      using that [of s' "stored_bytes (tebc s)"] s' append_spanning_stop(2) [OF s'(1) empty ok(3)] by simp
  qed
qed

lemma drain_ok:
  assumes inv: "out_inv s" and some: "0 < used_out s" "0 < avail_out s"
  obtains s' where "nx_copy_fifo_out_to_nxstrm_out closed s = Some (s', True)" and "out_inv s'" and "out_frame s s'"
    and "closed \<Longrightarrow> out_bytes s' = out_bytes s \<and> tebc s' = tebc s"
    and "\<not> closed \<Longrightarrow> coded_out coded hdr pre False xs s \<Longrightarrow> coded_out coded hdr pre False xs s' \<and> (0 < tebc s' \<longrightarrow> 0 < used_out s')"
    and "0 < used_out s' \<Longrightarrow> avail_out s' = 0"
proof -
  have ok: "out_ok s" "tebc s < 8" "5 \<le> length (fifo_out s)" using inv by (auto simp: out_inv_def)
  obtain s' where s': "nx_copy_fifo_out_to_nxstrm_out closed s = Some (s', True)" "out_ok s'" "out_frame s s'"
    "if 0 < tebc s \<and> used_out s \<le> avail_out s \<and> \<not> closed
     then tebc s' = 0 \<and> out_bits 0 s' = out_bits (tebc s) s @ stored_header (tebc s) False 0
     else tebc s' = tebc s \<and> out_bytes s' = out_bytes s \<and> used_out s' = used_out s - avail_out s"
    by (rule copy_fifo_correct [OF ok(1) some ok(3,2)])
  note stop = copy_fifo_stop [OF s'(1) some]
  have "out_inv s'" using out_inv_frame [OF inv s'(3,2)] stop(1) s'(4) ok(2) by (auto split: if_splits)
  moreover have "coded_out coded hdr pre False xs s' \<and> (0 < tebc s' \<longrightarrow> 0 < used_out s')"
    if "\<not> closed" "coded_out coded hdr pre False xs s"
  proof (cases "0 < tebc s \<and> used_out s \<le> avail_out s")
    case True
    have "coded_out coded hdr pre False xs s'"
      by (rule coded_out_append [OF that(2) ok(2), of s' "stored_header (tebc s) False 0"])
        (use s' True that ok(1,2) some in \<open>simp_all add: encodes_empty_stored out_bytes_Nil\<close>)
    then show ?thesis using s'(4) True that by simp
  next
    case False
    then have "tebc s' = tebc s" "out_bytes s' = out_bytes s" "used_out s' = used_out s - avail_out s" using s'(4) by (auto split: if_splits)
    then show ?thesis using coded_out_cong [of s' s] that(2) False by auto
  qed
  moreover have "avail_out s' = 0" if "0 < used_out s'"
    using stop(2) [OF that] s'(4) that by (auto split: if_splits)
  ultimately show ?thesis using that [of s'] s' by (auto split: if_splits)
qed

end
