(* ===== verification/DeflateJob.thy ===== *)
theory DeflateJob
  imports DeflateOut
begin

text \<open>
  The contract of the compression jobs, and what one call of \<^verbatim>\<open>nx_compress_block\<close> does with such an accelerator: the
  loop over the completion codes ends, and an accepted job moves its bytes from the input to the output.
\<close>

section \<open>The contract\<close>

text \<open>
  The job's source is the history, whole quadwords, and the data. An accepted answer has consumed some of the data. A job
  that compresses starts at a byte boundary, has a block for what it consumed in its output, and continues the checksums; a
  job that copies has the data in its output, and the checksums of them alone. The target is too small only for
  more than \<^verbatim>\<open>DEF_MIN_INPUT_LEN\<close> bytes, and data that got longer fit in to one stored block.
\<close>

definition accepts :: "coding \<Rightarrow> df_job \<Rightarrow> nat \<Rightarrow> df_resp \<Rightarrow> bool" where
  "accepts coded k n r \<longleftrightarrow>
     (let hl = 16 * k_histlen k; x = drop hl (k_source k) in
      0 < n \<and> n \<le> length x \<and> get_spbc (k_fc k) r = hl + n \<and> a_tpbc r = length (a_out r) \<and> a_tpbc r \<le> k_target k
      \<and> (if k_fc k = GZIP_FC_WRAP
         then n = length x \<and> a_out r = x \<and> a_crc r = crc_field x \<and> a_adler r = adler_field x
         else (\<exists>f body. valid_bits (a_tpbc r) (a_tebc r mod 8) (a_out r) = f # body \<and> coded (take hl (k_source k)) body (take n x))
              \<and> (\<forall>d. k_crc k = crc_field d \<longrightarrow> a_crc r = crc_field (d @ take n x))
              \<and> (\<forall>d. k_adler k = adler_field d \<longrightarrow> a_adler r = adler_field (d @ take n x))))"

definition answer_ok :: "coding \<Rightarrow> df_job \<Rightarrow> df_resp \<Rightarrow> bool" where
  "answer_ok coded k r \<longleftrightarrow>
     (a_cc r = ERR_NX_TARGET_SPACE \<longrightarrow> DEF_MIN_INPUT_LEN < length (k_source k) - 16 * k_histlen k)
     \<and> (a_cc r = ERR_NX_TPBC_GT_SPBC \<or> a_cc r = ERR_NX_DATA_LENGTH \<longrightarrow> k_fc k \<noteq> GZIP_FC_WRAP)
     \<and> (a_cc r \<in> {ERR_NX_OK, ERR_NX_DATA_LENGTH, ERR_NX_TPBC_GT_SPBC} \<longrightarrow>
         (\<exists>n. accepts coded k n r \<and> (a_cc r = ERR_NX_TPBC_GT_SPBC \<or> n < a_tpbc r \<longrightarrow> n \<le> nx_stored_block_len)))"

definition job_shape :: "df_job \<Rightarrow> bool" where
  "job_shape k \<longleftrightarrow> 16 * k_histlen k < length (k_source k) \<and> 0 < k_target k
     \<and> (k_fc k = GZIP_FC_WRAP \<longrightarrow> k_histlen k = 0 \<and> length (k_source k) \<le> k_target k)"

definition deflate_engine :: "df_env \<Rightarrow> coding \<Rightarrow> bool" where
  "deflate_engine env coded \<longleftrightarrow> (\<forall>i k. job_shape k \<longrightarrow> answer_ok coded k (df_submit env i k)) \<and> (\<forall>t. t < df_wait env t)"

section \<open>The target\<close>

text \<open>The buffers of \<open>s\<close>, with other bytes only behind what was produced.\<close>

definition target_of :: "nx_def \<Rightarrow> nx_def \<Rightarrow> bool" where
  "target_of s s' \<longleftrightarrow> (\<exists>m f. s' = s\<lparr>obuf := m, fifo_out := f\<rparr> \<and> length m = length (obuf s) \<and> length f = length (fifo_out s)
     \<and> take (next_out s) m = take (next_out s) (obuf s) \<and> take (cur_out s + used_out s) f = take (cur_out s + used_out s) (fifo_out s))"

lemma target_of_refl: "target_of s s"
  unfolding target_of_def by (rule exI [of _ "obuf s"], rule exI [of _ "fifo_out s"]) simp

lemma target_of_trans:
  assumes "target_of s s1" and "target_of s1 s2"
  shows "target_of s s2"
proof -
  obtain m f where 1: "s1 = s\<lparr>obuf := m, fifo_out := f\<rparr>" "length m = length (obuf s)" "length f = length (fifo_out s)"
    "take (next_out s) m = take (next_out s) (obuf s)" "take (cur_out s + used_out s) f = take (cur_out s + used_out s) (fifo_out s)"
    using assms(1) by (auto simp: target_of_def)
  obtain m' f' where 2: "s2 = s1\<lparr>obuf := m', fifo_out := f'\<rparr>" "length m' = length (obuf s1)" "length f' = length (fifo_out s1)"
    "take (next_out s1) m' = take (next_out s1) (obuf s1)" "take (cur_out s1 + used_out s1) f' = take (cur_out s1 + used_out s1) (fifo_out s1)"
    using assms(2) unfolding target_of_def by blast
  show ?thesis
    unfolding target_of_def using 1 2 by (intro exI [of _ m'] exI [of _ f'] conjI) simp_all
qed

lemma target_of_fields:
  assumes "target_of s s'"
  shows "next_out s' = next_out s" "avail_out s' = avail_out s" "cur_out s' = cur_out s" "used_out s' = used_out s" "crc32 s' = crc32 s"
    "adler32 s' = adler32 s" "length (obuf s') = length (obuf s)" "length (fifo_out s') = length (fifo_out s)"
  using assms by (auto simp: target_of_def)

lemma df_take_answer_ok:
  assumes t: "t1 \<le> avail_out s" "out_ok s" "cur_out s + used_out s + t2 \<le> length (fifo_out s)"
  obtains s' where "df_take_answer t1 t2 r s = Some s'" and "target_of s s'"
    and "length (a_out r) \<le> t1 + t2 \<Longrightarrow> seg (obuf s') (next_out s) (min t1 (length (a_out r))) = take t1 (a_out r)"
    and "length (a_out r) \<le> t1 + t2 \<Longrightarrow> seg (fifo_out s') (cur_out s + used_out s) (length (a_out r) - t1) = drop t1 (a_out r)"
proof -
  define out where "out = take (t1 + t2) (a_out r)"
  define m where "m = put (obuf s) (next_out s) (take t1 out)"
  define f where "f = put (fifo_out s) (cur_out s + used_out s) (drop t1 out)"
  have room: "next_out s + length (take t1 out) \<le> length (obuf s)" "cur_out s + used_out s + length (drop t1 out) \<le> length (fifo_out s)"
    using t by (auto simp: out_def out_ok_def)
  have "df_take_answer t1 t2 r s = Some (s\<lparr>obuf := m, fifo_out := f\<rparr>)"
    unfolding df_take_answer_def Let_def out_def [symmetric]
    by (simp only: wr_block_put [OF room(1)] wr_block_put [OF room(2)] Option.bind.bind_lunit m_def f_def)
  moreover have "target_of s (s\<lparr>obuf := m, fifo_out := f\<rparr>)"
    using room unfolding target_of_def
    by (intro exI [of _ m] exI [of _ f] conjI) (simp_all add: m_def f_def, simp_all add: put_def)
  moreover have "seg m (next_out s) (min t1 (length (a_out r))) = take t1 (a_out r)" if "length (a_out r) \<le> t1 + t2"
    using that room(1) by (simp add: m_def seg_put_same out_def)
  moreover have "seg f (cur_out s + used_out s) (length (a_out r) - t1) = drop t1 (a_out r)" if "length (a_out r) \<le> t1 + t2"
    using that room(2) by (simp add: f_def seg_put_same out_def)
  ultimately show ?thesis using that by simp
qed

section \<open>The loop over the completion codes\<close>

definition the_job :: "nat \<Rightarrow> nat \<Rightarrow> u8 list \<Rightarrow> nat \<Rightarrow> nat \<Rightarrow> nx_def \<Rightarrow> nx_cpb \<Rightarrow> df_job" where
  "the_job fc n src t1 t2 s c =
     \<lparr>k_fc = fc, k_source = take n src, k_target = t1 + t2, k_histlen = p_histlen c, k_crc = crc32 s, k_adler = adler32 s, k_dht = p_dht c\<rparr>"

definition submit_end :: "coding \<Rightarrow> nat \<Rightarrow> nat \<Rightarrow> u8 list \<Rightarrow> nat \<Rightarrow> nat \<Rightarrow> nx_def \<Rightarrow> nx_cpb \<Rightarrow> df_end \<Rightarrow> bool" where
  "submit_end coded fc hl src t1 t2 s c e \<longleftrightarrow>
     (case e of
        Gave_up rc s' c' \<Rightarrow>
          rc \<in> {LIBNX_ERR_PAGEFLT, LIBNX_ERR_HISTLEN, LIBNX_ERROR}
          \<or> rc = LIBNX_OK_BIG_TARGET \<and> fc \<noteq> GZIP_FC_WRAP
            \<and> (\<exists>s1 k. s' = s1\<lparr>spbc := k\<rparr> \<and> target_of s s1 \<and> 0 < k \<and> k \<le> nx_stored_block_len \<and> k \<le> length src - hl)
      | Compressed r s' c' \<Rightarrow>
          target_of s s' \<and> p_histlen c' = p_histlen c \<and> p_crc c' = a_crc r \<and> p_adler c' = a_adler r
          \<and> (\<exists>n k. n \<le> length src \<and> (fc = GZIP_FC_WRAP \<longrightarrow> n = length src) \<and> accepts coded (the_job fc n src t1 t2 s c) k r)
          \<and> seg (obuf s') (next_out s) (min t1 (length (a_out r))) = take t1 (a_out r)
          \<and> seg (fifo_out s') (cur_out s + used_out s) (length (a_out r) - t1) = drop t1 (a_out r))"

lemma df_fewer_bounds: "df_fewer n \<le> n" "0 < n \<Longrightarrow> 0 < df_fewer n" "DEF_MIN_INPUT_LEN < n \<Longrightarrow> df_fewer n < n"
  "n \<le> DEF_MIN_INPUT_LEN \<Longrightarrow> df_fewer n = n"
  by (auto simp: df_fewer_def DEF_MIN_INPUT_LEN_def)

lemma submit_end_back:
  assumes "submit_end coded fc hl src t1 t2 s1 c1 e" and "target_of s s1" and "p_histlen c1 = p_histlen c" and "p_dht c1 = p_dht c"
  shows "submit_end coded fc hl src t1 t2 s c e"
proof -
  note f = target_of_fields [OF assms(2)]
  have j: "the_job fc n src t1 t2 s1 c1 = the_job fc n src t1 t2 s c" for n
    using f assms(3,4) by (simp add: the_job_def)
  show ?thesis
    using assms(1,3) target_of_trans [OF assms(2)] unfolding submit_end_def j f(1,3,4) by (cases e) fastforce+
qed

lemma df_cc_cases:
  "df_cc fc c r = a_cc r \<or> a_cc r = ERR_NX_OK \<and> df_cc fc c r = ERR_NX_TPBC_GT_SPBC \<and> get_spbc fc r < a_tpbc r + p_histlen c * 16"
  by (simp add: df_cc_def)

lemma submit_loop_ends:
  assumes eng: "deflate_engine env coded" and t: "t1 \<le> avail_out s" "out_ok s" "cur_out s + used_out s + t2 \<le> length (fifo_out s)" "0 < t1 + t2"
    and hl: "hl = 16 * p_histlen c" "hl < n" "n \<le> length src"
    and wrap: "fc = GZIP_FC_WRAP \<Longrightarrow> hl = 0 \<and> n = length src \<and> n \<le> t1 + t2 \<and> n \<le> nx_stored_block_len"
  shows "\<exists>e. df_submit_loop env fc hl src t1 t2 n ticks s c = Some e \<and> submit_end coded fc hl src t1 t2 s c e"
  using t hl wrap
proof (induction "(if ticks = 0 then 1 else 0) + (df_timeout env + 1 - ticks)" arbitrary: ticks n s c rule: less_induct)
  case outer: less
  show ?case
    using outer.prems
  proof (induction n arbitrary: s c rule: less_induct)
    case (less n)
    note t = less.prems(1-4) and hl = less.prems(5-7) and wrap = less.prems(8)
    define r where "r = df_submit env (p_jobs c) (the_job fc n src t1 t2 s c)"
    define c1 where "c1 = c\<lparr>p_crc := a_crc r, p_adler := a_adler r, p_jobs := p_jobs c + 1\<rparr>"
    have c1: "p_histlen c1 = p_histlen c" "p_dht c1 = p_dht c" "p_crc c1 = a_crc r" "p_adler c1 = a_adler r" by (simp_all add: c1_def)
    obtain s1 where s1: "df_take_answer t1 t2 r s = Some s1" "target_of s s1"
      "length (a_out r) \<le> t1 + t2 \<Longrightarrow> seg (obuf s1) (next_out s) (min t1 (length (a_out r))) = take t1 (a_out r)"
      "length (a_out r) \<le> t1 + t2 \<Longrightarrow> seg (fifo_out s1) (cur_out s + used_out s) (length (a_out r) - t1) = drop t1 (a_out r)"
      by (rule df_take_answer_ok [OF t(1-3), of r]) (rule that)
    note f1 = target_of_fields [OF s1(2)]
    have ok1: "out_ok s1" using t(2) f1 by (simp add: out_ok_def)
    define cc where "cc = df_cc fc c1 r"
    have step: "df_submit_loop env fc hl src t1 t2 n ticks s c =
       (if cc = ERR_NX_AT_FAULT then
          if ticks = 0 then df_submit_loop env fc hl src t1 t2 n (df_wait env ticks) s1 c1
          else if df_timeout env < df_wait env ticks then Some (Gave_up LIBNX_ERR_PAGEFLT s1 c1)
          else df_submit_loop env fc hl src t1 t2 (df_fewer (n - hl) + hl) (df_wait env ticks) s1 c1
        else if cc = ERR_NX_DATA_LENGTH then
          (if \<not> csb_ce_termination (drop_bit 5 (a_ce r)) \<and> csb_ce_partial_completion (drop_bit 5 (a_ce r)) then Some (Compressed r s1 c1)
           else Some (Gave_up LIBNX_ERR_HISTLEN s1 c1))
        else if cc = ERR_NX_TARGET_SPACE then df_submit_loop env fc hl src t1 t2 (df_fewer (n - hl) + hl) ticks s1 c1
        else if cc = ERR_NX_TPBC_GT_SPBC then
          (if hl \<le> get_spbc fc r then Some (Gave_up LIBNX_OK_BIG_TARGET (s1\<lparr>spbc := get_spbc fc r - hl\<rparr>) c1) else None)
        else if cc = ERR_NX_OK then Some (Compressed r s1 c1)
        else Some (Gave_up LIBNX_ERROR s1 c1))"
      by (subst df_submit_loop.simps)
        (simp only: Let_def the_job_def [symmetric] r_def [symmetric] c1_def [symmetric] cc_def [symmetric] s1(1) option.case)
    have shape: "job_shape (the_job fc n src t1 t2 s c)"
      using hl t(4) wrap by (auto simp: job_shape_def the_job_def)
    have ans: "answer_ok coded (the_job fc n src t1 t2 s c) r" and wait: "t < df_wait env t" for t
      using eng shape by (simp_all add: deflate_engine_def r_def)
    have fewer: "hl < df_fewer (n - hl) + hl" "df_fewer (n - hl) + hl \<le> n"
      using df_fewer_bounds(1,2) [of "n - hl"] hl(2) by linarith+
    have fw: "fc = GZIP_FC_WRAP \<Longrightarrow> df_fewer (n - hl) + hl = n"
      using wrap df_fewer_bounds(4) [of "n - hl"] by (simp add: nx_stored_block_len_def DEF_MIN_INPUT_LEN_def)
    have retry: "\<exists>e. df_submit_loop env fc hl src t1 t2 n ticks s c = Some e \<and> submit_end coded fc hl src t1 t2 s c e"
      if "df_submit_loop env fc hl src t1 t2 n ticks s c = df_submit_loop env fc hl src t1 t2 n' ticks' s1 c1"
        and "\<exists>e. df_submit_loop env fc hl src t1 t2 n' ticks' s1 c1 = Some e \<and> submit_end coded fc hl src t1 t2 s1 c1 e" for n' ticks'
      using that submit_end_back [OF _ s1(2) c1(1,2)] by metis
    have pre1: "t1 \<le> avail_out s1" "cur_out s1 + used_out s1 + t2 \<le> length (fifo_out s1)" "hl = 16 * p_histlen c1"
      using t hl f1 c1 by simp_all
    have accepted: "\<exists>k. accepts coded (the_job fc n src t1 t2 s c) k r \<and> (a_cc r = ERR_NX_TPBC_GT_SPBC \<or> k < a_tpbc r \<longrightarrow> k \<le> nx_stored_block_len)"
      if "a_cc r \<in> {ERR_NX_OK, ERR_NX_DATA_LENGTH, ERR_NX_TPBC_GT_SPBC}"
      using ans that unfolding answer_ok_def by blast
    have done_ok: "submit_end coded fc hl src t1 t2 s c (Compressed r s1 c1)"
      if "a_cc r \<in> {ERR_NX_OK, ERR_NX_DATA_LENGTH, ERR_NX_TPBC_GT_SPBC}"
    proof -
      note acc = accepted [OF that]
      obtain k where k: "accepts coded (the_job fc n src t1 t2 s c) k r" using acc by blast
      then have "length (a_out r) \<le> t1 + t2" by (simp add: accepts_def the_job_def Let_def)
      then show ?thesis
        using s1(2-4) c1 k hl(3) wrap unfolding submit_end_def df_end.case by blast
    qed
    have big: "submit_end coded fc hl src t1 t2 s c (Gave_up LIBNX_OK_BIG_TARGET (s1\<lparr>spbc := get_spbc fc r - hl\<rparr>) c1) \<and> hl \<le> get_spbc fc r"
      if "cc = ERR_NX_TPBC_GT_SPBC"
    proof -
      have a: "a_cc r = ERR_NX_TPBC_GT_SPBC \<or> a_cc r = ERR_NX_OK \<and> get_spbc fc r < a_tpbc r + hl"
        using df_cc_cases [of fc c1 r] that hl(1) c1(1) by (auto simp: cc_def)
      then obtain k where k: "accepts coded (the_job fc n src t1 t2 s c) k r"
        "a_cc r = ERR_NX_TPBC_GT_SPBC \<or> k < a_tpbc r \<longrightarrow> k \<le> nx_stored_block_len"
        using accepted by auto
      have b: "get_spbc fc r = hl + k" "0 < k" "k \<le> n - hl" "fc = GZIP_FC_WRAP \<Longrightarrow> a_tpbc r = k"
        using k(1) hl by (simp_all add: accepts_def the_job_def Let_def)
      have "fc \<noteq> GZIP_FC_WRAP"
        using a ans b by (auto simp: answer_ok_def the_job_def)
      moreover have "k \<le> nx_stored_block_len" using k(2) a b(1) by auto
      moreover have "k \<le> length src - hl" using b(3) hl by linarith
      ultimately show ?thesis
        using b(1,2) s1(2) unfolding submit_end_def df_end.case by (intro conjI disjI2 exI [of _ s1] exI [of _ k]) simp_all
    qed
    consider "cc = ERR_NX_AT_FAULT" "ticks = 0" | "cc = ERR_NX_AT_FAULT" "ticks \<noteq> 0" "df_timeout env < df_wait env ticks"
      | "cc = ERR_NX_AT_FAULT" "ticks \<noteq> 0" "\<not> df_timeout env < df_wait env ticks" | "cc = ERR_NX_DATA_LENGTH" | "cc = ERR_NX_TARGET_SPACE"
      | "cc = ERR_NX_TPBC_GT_SPBC" | "cc = ERR_NX_OK" | "cc \<notin> {ERR_NX_AT_FAULT, ERR_NX_DATA_LENGTH, ERR_NX_TARGET_SPACE, ERR_NX_TPBC_GT_SPBC, ERR_NX_OK}"
      by blast
    then show ?case
    proof cases
      case 1
      have "0 < df_wait env ticks" using wait [of ticks] by simp
      then have "\<exists>e. df_submit_loop env fc hl src t1 t2 n (df_wait env ticks) s1 c1 = Some e \<and> submit_end coded fc hl src t1 t2 s1 c1 e"
        using 1 by (intro outer.hyps [OF _ pre1(1) ok1 pre1(2) t(4) pre1(3) hl(2,3) wrap]) auto
      moreover have "df_submit_loop env fc hl src t1 t2 n ticks s c = df_submit_loop env fc hl src t1 t2 n (df_wait env ticks) s1 c1"
        unfolding step using 1 by simp
      ultimately show ?thesis by (intro retry)
    next
      case 2
      then show ?thesis by (simp add: step submit_end_def err_nx_codes)
    next
      case 3
      have "\<exists>e. df_submit_loop env fc hl src t1 t2 (df_fewer (n - hl) + hl) (df_wait env ticks) s1 c1 = Some e
          \<and> submit_end coded fc hl src t1 t2 s1 c1 e"
        using 3 wait [of ticks] fewer hl(3) fw wrap
        by (intro outer.hyps [OF _ pre1(1) ok1 pre1(2) t(4) pre1(3)]) auto
      then show ?thesis using 3 by (intro retry [of "df_fewer (n - hl) + hl" "df_wait env ticks"]) (simp_all add: step)
    next
      case 4
      then have "a_cc r = ERR_NX_DATA_LENGTH" using df_cc_cases [of fc c1 r] by (auto simp: cc_def err_nx_codes)
      then show ?thesis using 4 done_ok by (simp add: step err_nx_codes submit_end_def)
    next
      case 5
      then have "a_cc r = ERR_NX_TARGET_SPACE" using df_cc_cases [of fc c1 r] by (auto simp: cc_def err_nx_codes)
      then have big: "DEF_MIN_INPUT_LEN < n - hl" using ans hl by (simp add: answer_ok_def the_job_def)
      then have "df_fewer (n - hl) + hl < n" "fc \<noteq> GZIP_FC_WRAP"
        using df_fewer_bounds(3) [OF big] wrap by (auto simp: DEF_MIN_INPUT_LEN_def nx_stored_block_len_def)
      then have "\<exists>e. df_submit_loop env fc hl src t1 t2 (df_fewer (n - hl) + hl) ticks s1 c1 = Some e \<and> submit_end coded fc hl src t1 t2 s1 c1 e"
        using fewer hl(3) by (intro less.IH [OF _ pre1(1) ok1 pre1(2) t(4) pre1(3)]) auto
      then show ?thesis using 5 by (intro retry [of "df_fewer (n - hl) + hl" ticks]) (simp_all add: step err_nx_codes)
    next
      case 6
      then show ?thesis using big by (simp add: step err_nx_codes)
    next
      case 7
      then have "a_cc r = ERR_NX_OK" using df_cc_cases [of fc c1 r] by (auto simp: cc_def err_nx_codes)
      then show ?thesis using 7 done_ok by (simp add: step err_nx_codes)
    next
      case 8
      then show ?thesis by (simp add: step submit_end_def)
    qed
  qed
qed

end
