(* ===== verification/DeflateEngine.thy ===== *)
theory DeflateEngine
  imports DeflateJob
begin

text \<open>
  An accelerator that keeps the contract of \<^verbatim>\<open>DeflateJob\<close>, as a concrete function: it compresses to stored blocks. The properties of the
  stream are applied to it.
\<close>

section \<open>The answers\<close>

text \<open>A stored block header at a byte boundary.\<close>

definition block_header :: "nat \<Rightarrow> u8 list" where
  "block_header n = (case append_btype00_header (replicate 5 0) 0 0 False n of Some (m, _) \<Rightarrow> m | None \<Rightarrow> [])"

lemma block_header:
  assumes "n < 0x10000"
  shows "length (block_header n) = 5" and "byte_bits (block_header n) = stored_header 0 False n"
proof -
  have t: "(0 :: nat) < 8" "stored_bytes 0 = 5" by (simp_all add: stored_bytes_def)
  obtain m where m: "append_btype00_header (replicate 5 0) 0 0 False n = Some (m, stored_bytes 0)"
    "appends (replicate 5 0) 0 0 m (stored_bytes 0) (stored_header 0 False n)"
    by (rule append_btype00_header_correct [OF t(1), of 0 "replicate 5 0" n False]) (use assms t in auto)
  then have "length m = 5" "valid_bits 5 0 m = stored_header 0 False n" by (auto simp: appends_def t valid_bits_full)
  then show "length (block_header n) = 5" "byte_bits (block_header n) = stored_header 0 False n"
    using m(1) by (simp_all add: block_header_def valid_bits_full)
qed

definition stores :: coding where
  "stores h body x \<longleftrightarrow> (\<forall>f. read_block 0 (f # body) = Some (f, x, []))"

text \<open>As much as fits in to one block and the target; a job that copies takes all.\<close>

definition stored_job :: "df_job \<Rightarrow> df_resp" where
  "stored_job k =
     (let hl = 16 * k_histlen k; x = drop hl (k_source k); w = (k_fc k = GZIP_FC_WRAP);
          n = (if w then length x else min (length x) (min nx_stored_block_len (k_target k - 5))); y = take n x;
          out = (if w then y else block_header n @ y)
      in \<lparr>a_cc = (if n = 0 then 1 else if n = length x then ERR_NX_OK else ERR_NX_DATA_LENGTH), a_ce = 0x80,
          a_spbc = hl + n, a_spbc_with_count = hl + n, a_tpbc = length out, a_tebc = 0,
          a_crc = bswap_32 (crc_ref y (if w then 0 else bswap_32 (k_crc k))),
          a_adler = ucast (nx_adler32 (if w then 1 else ucast (k_adler k)) (Some y)), a_out = out\<rparr>)"

definition stored_env :: df_env where
  "stored_env = \<lparr>df_per_job_len = 1048576, df_cache_threshold = 8192, strm_def_bufsz = 1048576, deflate_fifo_in_len = 131072,
     deflate_fifo_out_len = 262144, df_timeout = 60, df_alloc = \<lambda>n. Some (replicate n 0), df_wait = Suc, df_submit = \<lambda>i. stored_job,
     df_table = \<lambda>first i. []\<rparr>"

section \<open>The contract holds\<close>

lemma stores_block: "length x < 0x10000 \<Longrightarrow> stores h (tl (stored_header 0 False (length x) @ byte_bits x)) x"
  using read_stored_header [of x 0 _ "[]"] by (simp add: stores_def stored_header_def)

lemma stored_job_accepts:
  assumes n: "n = (if k_fc k = GZIP_FC_WRAP then length x else min (length x) (min nx_stored_block_len (k_target k - 5)))"
    and x: "x = drop (16 * k_histlen k) (k_source k)" and pos: "0 < n" and shape: "job_shape k"
  shows "accepts stores k n (stored_job k)"
proof (cases "k_fc k = GZIP_FC_WRAP")
  case True
  then have e: "n = length x" "k_histlen k = 0" "length (k_source k) \<le> k_target k" using n shape by (simp_all add: job_shape_def)
  have c: "bswap_32 (crc_ref x 0) = crc_field x" by (simp add: crc_field_def)
  have a: "ucast (nx_adler32 1 (Some x)) = adler_field x"
    using adler_field_append [of "[]" x] by (simp add: checksum_fields_Nil)
  show ?thesis
    using True e pos x c a by (simp add: accepts_def stored_job_def get_spbc_def fc_codes Let_def)
next
  case False
  have e: "n \<le> length x" "n \<le> nx_stored_block_len" "n + 5 \<le> k_target k" using n False pos by auto
  have h: "n < 0x10000" using e(2) by (simp add: nx_stored_block_len_def)
  define r where "r = stored_job k"
  have r: "a_out r = block_header n @ take n x" "a_tpbc r = 5 + n" "a_tebc r = 0" "get_spbc (k_fc k) r = 16 * k_histlen k + n"
    "a_crc r = bswap_32 (crc_ref (take n x) (bswap_32 (k_crc k)))" "a_adler r = ucast (nx_adler32 (ucast (k_adler k)) (Some (take n x)))"
    using False e(1) n x block_header(1) [OF h] by (simp_all add: r_def stored_job_def Let_def get_spbc_def)
  have "valid_bits (a_tpbc r) (a_tebc r mod 8) (a_out r) = stored_header 0 False n @ byte_bits (take n x)"
    using e(1) block_header [OF h] by (simp add: r valid_bits_full)
  also have "\<dots> = False # tl (stored_header 0 False n @ byte_bits (take n x))" by (simp add: stored_header_def)
  finally have v: "valid_bits (a_tpbc r) (a_tebc r mod 8) (a_out r) = False # tl (stored_header 0 False n @ byte_bits (take n x))" .
  have s: "stores (take (16 * k_histlen k) (k_source k)) (tl (stored_header 0 False n @ byte_bits (take n x))) (take n x)"
    using stores_block [of "take n x"] e(1) h by simp
  have l: "a_tpbc r = length (a_out r)" "a_tpbc r \<le> k_target k" using r(1,2) e block_header(1) [OF h] by simp_all
  show ?thesis
    unfolding accepts_def r_def [symmetric] Let_def x [symmetric]
    using False pos e(1) r(4) l v s by (auto simp: r(5,6) crc_field_append adler_field_append)
qed

lemma stored_engine: "deflate_engine stored_env stores"
proof -
  have "answer_ok stores k (stored_job k)" if shape: "job_shape k" for k
  proof -
    define x where "x = drop (16 * k_histlen k) (k_source k)"
    define n where "n = (if k_fc k = GZIP_FC_WRAP then length x else min (length x) (min nx_stored_block_len (k_target k - 5)))"
    have x0: "0 < length x" using shape by (simp add: job_shape_def x_def)
    have cc: "a_cc (stored_job k) = (if n = 0 then 1 else if n = length x then ERR_NX_OK else ERR_NX_DATA_LENGTH)"
      unfolding stored_job_def Let_def n_def x_def by (simp only: df_resp.simps)
    have "n = length x" if "k_fc k = GZIP_FC_WRAP" using that by (simp add: n_def)
    moreover have "n \<le> nx_stored_block_len" if "n < a_tpbc (stored_job k)"
      using that by (auto simp: n_def stored_job_def x_def Let_def)
    ultimately show ?thesis
      using stored_job_accepts [OF n_def x_def _ shape] x0
      by (cases "n = 0") (auto simp: answer_ok_def cc err_nx_codes)
  qed
  then show ?thesis by (simp add: deflate_engine_def stored_env_def)
qed

end
