(* ===== verification/DeflateStep.thy ===== *)
theory DeflateStep
  imports DeflateJob
begin

text \<open>
  What one compressed block and one stored block do to the stream, with an accelerator that keeps the contract: a
  non-empty part of the input leaves the stream and a block that encodes it is appended to the output.
\<close>

section \<open>Fields that a job leaves alone\<close>

definition but_io :: "nx_def \<Rightarrow> nx_def" where
  "but_io s = (but_inp s)\<lparr>obuf := [], next_out := 0, avail_out := 0, total_out := 0, fifo_out := [], cur_out := 0, used_out := 0,
     tebc := 0, status := 0, spbc := 0, tpbc := 0, invoke_cnt := 0\<rparr>"

lemma but_io_fields:
  assumes "but_io s' = but_io s"
  shows "len_out s' = len_out s" "wrap s' = wrap s" "level s' = level s" "strategy s' = strategy s" "flush s' = flush s"
    "max_history_len s' = max_history_len s" "dict_len s' = dict_len s" "adler32 s' = adler32 s" "crc32 s' = crc32 s"
    "checksum_set s' = checksum_set s" "need_stored_block s' = need_stored_block s"
  using assms by (cases s; cases s'; simp add: but_io_def but_inp_def)+

lemma but_io_inp: "but_inp s' = but_inp s \<Longrightarrow> but_io s' = but_io s"
  by (simp add: but_io_def)

lemma but_io_target: "target_of s s' \<Longrightarrow> but_io s' = but_io s"
  by (auto simp: target_of_def but_io_def but_inp_def)

lemma but_io_updates [simp]:
  "but_io (s\<lparr>spbc := a\<rparr>) = but_io s" "but_io (s\<lparr>tpbc := a\<rparr>) = but_io s" "but_io (s\<lparr>tebc := a\<rparr>) = but_io s"
  "but_io (s\<lparr>status := a\<rparr>) = but_io s" "but_io (s\<lparr>invoke_cnt := a\<rparr>) = but_io s" "but_io (s\<lparr>obuf := m\<rparr>) = but_io s"
  "but_io (s\<lparr>used_out := a\<rparr>) = but_io s" "but_io (update_stream_out a s) = but_io s"
  by (simp_all add: but_io_def but_inp_def update_stream_out_def)

lemma but_io_frame:
  assumes "out_frame s s'"
  shows "but_io s' = but_io s"
  using assms by (cases s; cases s') (simp add: out_frame_def but_io_def but_inp_def)

text \<open>The input side of a state and of one that differs on the output side.\<close>

definition same_inp :: "nx_def \<Rightarrow> nx_def \<Rightarrow> bool" where
  "same_inp s s' \<longleftrightarrow> fifo_in s' = fifo_in s \<and> len_in s' = len_in s \<and> cur_in s' = cur_in s \<and> used_in s' = used_in s
     \<and> history_len s' = history_len s \<and> next_in s' = next_in s \<and> total_in s' = total_in s \<and> max_history_len s' = max_history_len s"

lemma same_inp_ok:
  assumes "same_inp s s'"
  shows "in_ok env xs s' = in_ok env xs s" "unsent s' = unsent s"
  using assms in_ok_cong [of s' s] by (simp_all add: same_inp_def)

lemma same_inp_trans: "same_inp s s1 \<Longrightarrow> same_inp s1 s2 \<Longrightarrow> same_inp s s2"
  by (simp add: same_inp_def)

lemma same_inp_target: "target_of s s' \<Longrightarrow> same_inp s s'"
  by (auto simp: target_of_def same_inp_def)

lemma same_inp_frame:
  assumes "out_frame s s'"
  shows "same_inp s s'"
  using assms by (cases s; cases s') (simp add: out_frame_def same_inp_def)

lemma same_inp_updates [simp]:
  "same_inp s s" "same_inp s (s\<lparr>spbc := a\<rparr>)" "same_inp s (s\<lparr>tpbc := a\<rparr>)" "same_inp s (s\<lparr>tebc := a\<rparr>)" "same_inp s (s\<lparr>status := a\<rparr>)"
  "same_inp s (s\<lparr>invoke_cnt := a\<rparr>)" "same_inp s (s\<lparr>obuf := m\<rparr>)"
  by (simp_all add: same_inp_def)

section \<open>The output of a job\<close>

lemma out_append:
  assumes t: "target_of s s1" and ok: "out_ok s" and one: "0 < used_out s \<longrightarrow> avail_out s = 0" "used_out s = 0 \<longrightarrow> cur_out s = 0"
    and room: "cur_out s + used_out s + t2 \<le> length (fifo_out s)" "t1 \<le> avail_out s" "length out \<le> t1 + t2"
    and seg1: "seg (obuf s1) (next_out s) (min t1 (length out)) = take t1 out"
    and seg2: "seg (fifo_out s1) (cur_out s + used_out s) (length out - t1) = drop t1 out"
    and s': "obuf s' = obuf s1" "fifo_out s' = fifo_out s1" "next_out s' = next_out s + min (length out) t1"
      "avail_out s' = avail_out s - min (length out) t1" "used_out s' = used_out s + (length out - min (length out) t1)" "cur_out s' = cur_out s"
  shows "out_bytes s' = out_bytes s @ out" and "out_ok s'"
proof -
  obtain m f where mf: "s1 = s\<lparr>obuf := m, fifo_out := f\<rparr>" "length m = length (obuf s)" "length f = length (fifo_out s)"
    "take (next_out s) m = take (next_out s) (obuf s)" "take (cur_out s + used_out s) f = take (cur_out s + used_out s) (fifo_out s)"
    using t by (auto simp: target_of_def)
  have d: "delivered s' = delivered s @ take t1 out"
    using seg1 s'(1,3) mf(1,4) by (simp add: delivered_def take_add seg_def min.commute)
  have n: "length out - min (length out) t1 = length out - t1" by simp
  have "take (used_out s) (drop (cur_out s) f) = take (used_out s) (drop (cur_out s) (fifo_out s))"
    using mf(5) by (metis add_diff_cancel_left' drop_take)
  then have p: "pending s' = pending s @ drop t1 out"
    using seg2 s'(2,5,6) mf(1) by (simp add: pending_def take_add seg_def n add.commute)
  show "out_bytes s' = out_bytes s @ out"
  proof (cases "used_out s = 0")
    case True
    then have "pending s = []" by (simp add: pending_def)
    then show ?thesis using d p by (simp add: out_bytes_def)
  next
    case False
    then have "t1 = 0" using one room(2) by simp
    then show ?thesis using d p by (simp add: out_bytes_def)
  qed
  show "out_ok s'"
    using ok s' mf room n by (simp add: out_ok_def min_def split: if_splits)
qed

text \<open>The final bit is the first bit of a block.\<close>

definition with_final :: "bool \<Rightarrow> u8 \<Rightarrow> u8" where
  "with_final fin b = (if fin then b OR push_bit 0 1 else b AND NOT (push_bit 0 1))"

lemma valid_bits_final:
  assumes "valid_bits (length out) t out = f # body"
  shows "out \<noteq> []" and "valid_bits (length out) t (out[0 := with_final fin (out ! 0)]) = fin # body"
proof -
  show "out \<noteq> []" using assms by (auto simp: valid_bits_def)
  then obtain b bs where out: "out = b # bs" by (cases out) auto
  have bits: "bits 8 w = bit w 0 # bits 7 (drop_bit 1 w)" for w :: u8
    using bits_add [of 1 7 w] by (simp add: bits_def)
  have "bit (with_final fin b) n = (if n = 0 then fin else bit b n)" if "n < 8" for n
    using that by (cases n) (simp_all only: with_final_def bit_or_iff bit_and_iff bit_not_iff bit_push_bit_iff bit_1_iff split: if_split, auto)
  moreover have "\<not> bit w n" if "8 \<le> n" for n and w :: u8 using that bit_imp_le_length [of w n] by auto
  ultimately have "bit (with_final fin b) n = (if n = 0 then fin else bit b n)" for n
    by (cases "n < 8") auto
  then have w: "bit (with_final fin b) 0 = fin" "drop_bit 1 (with_final fin b) = drop_bit 1 b"
    by (auto simp: bit_simps intro!: bit_word_eqI)
  define N where "N = (if t = 0 then 8 * length out else 8 * (length out - 1) + t)"
  have v: "valid_bits (length out) t ws = take N (byte_bits ws)" for ws by (simp add: valid_bits_def N_def)
  obtain M where "N = Suc M" using assms unfolding v by (cases N) auto
  then show "valid_bits (length out) t (out[0 := with_final fin (out ! 0)]) = fin # body"
    using assms unfolding v by (simp add: out bits w w(2) [unfolded One_nat_def])
qed

text \<open>An accepted job: \<open>n\<close> bytes of input, and the output behind what there was, its final bit set.\<close>

lemma update_offsets_ok:
  assumes t: "target_of s s1" and inp: "in_ok env xs s" "df_alloc_ok env"
    and out: "out_ok s" "0 < used_out s \<longrightarrow> avail_out s = 0" "used_out s = 0 \<longrightarrow> cur_out s = 0" "length (fifo_out s) = len_out s"
    and t12: "t1 = min (avail_out s) (strm_def_bufsz env)" "cur_out s + used_out s + t2 = len_out s div 2" "length (a_out r) \<le> t1 + t2"
    and segs: "seg (obuf s1) (next_out s) (min t1 (length (a_out r))) = take t1 (a_out r)"
      "seg (fifo_out s1) (cur_out s + used_out s) (length (a_out r) - t1) = drop t1 (a_out r)"
    and n: "get_spbc fc r = 16 * p_histlen c + n" "0 < n" "n \<le> length (unsent s)" and tp: "a_tpbc r = length (a_out r)"
    and compressed: "fc \<noteq> GZIP_FC_WRAP \<Longrightarrow> a_out r \<noteq> [] \<and> 0 < t1"
  defines "fin \<equiv> drop n (unsent s) = [] \<and> flush s = Z_FINISH"
  obtains s' where "nx_compress_block_update_offsets env fc c r s1 = Some s'" and "in_ok env (xs @ take n (unsent s)) s'"
    and "unsent s' = drop n (unsent s)" and "out_ok s'"
    and "out_bytes s' = out_bytes s @ (if fc = GZIP_FC_WRAP then a_out r else (a_out r)[0 := with_final fin (a_out r ! 0)])"
    and "tebc s' = (if fc = GZIP_FC_WRAP then 0 else a_tebc r mod 8)"
    and "status s' = (if fc \<noteq> GZIP_FC_WRAP \<and> fin then NX_BFINAL_ST else status s)" and "but_io s' = but_io s" and "spbc s' = n"
    and "cur_out s' = cur_out s" and "length (fifo_out s') = length (fifo_out s)" and "length (obuf s') = length (obuf s)"
    and "next_out s' + avail_out s' = next_out s + avail_out s" and "next_out s \<le> next_out s'" and "used_out s \<le> used_out s'"
proof -
  note f1 = target_of_fields [OF t]
  define s2 where "s2 = s1\<lparr>spbc := n, tpbc := a_tpbc r, tebc := (if fc = GZIP_FC_WRAP then 0 else a_tebc r mod 8)\<rparr>"
  have i2: "same_inp s s2" using same_inp_target [OF t] by (simp add: s2_def same_inp_def)
  have in2: "in_ok env xs s2" "unsent s2 = unsent s" using same_inp_ok [OF i2] inp(1) by simp_all
  have b2: "but_io s2 = but_io s" using but_io_target [OF t] by (simp add: s2_def)
  define s3 where "s3 = s2\<lparr>cur_in := cur_in s2 + min (used_in s2) n, used_in := used_in s2 - min (used_in s2) n\<rparr>"
  obtain s4 s5 where s45: "fifo_in_alloc_check env s3 = (True, s4)" "keep_input (n - used_in s2) s4 = Some s5"
    "in_ok env (xs @ take n (unsent s2)) s5" "unsent s5 = drop n (unsent s2)" "but_inp s5 = but_inp s2"
    using consume_ok [OF in2(1) inp(2), of n] n(3) in2(2) unfolding s3_def by metis
  note f5 = but_inp_fields [OF s45(5)]
  have s2f: "spbc s2 = n" "tpbc s2 = length (a_out r)" "tebc s2 = (if fc = GZIP_FC_WRAP then 0 else a_tebc r mod 8)" "status s2 = status s"
    "flush s2 = flush s" "obuf s2 = obuf s1" "fifo_out s2 = fifo_out s1" "next_out s2 = next_out s" "avail_out s2 = avail_out s"
    "used_out s2 = used_out s" "cur_out s2 = cur_out s" "len_out s2 = len_out s"
    using t tp by (auto simp: s2_def target_of_def)
  have start: "nx_compress_block_update_offsets env fc c r s1 = update_output env fc s5"
  proof -
    have "get_spbc fc r - p_histlen c * 16 = n" "\<not> get_spbc fc r \<le> p_histlen c * 16" using n by simp_all
    then show ?thesis
      unfolding nx_compress_block_update_offsets_def Let_def
      using s45(1,2) by (simp add: s3_def s2_def)
  qed
  have fin: "(next_in s5 = [] \<and> used_in s5 = 0 \<and> flush s5 = Z_FINISH) = fin"
    using unsent_Nil [OF s45(3)] s45(4) in2(2) f5 s2f by (auto simp: fin_def)
  define ob where "ob = (if fc = GZIP_FC_WRAP then a_out r else (a_out r)[0 := with_final fin (a_out r ! 0)])"
  define s6 where "s6 = (if fc = GZIP_FC_WRAP then s5
    else (if fin then s5\<lparr>obuf := (obuf s5)[next_out s5 := with_final fin (obuf s5 ! next_out s5)], status := NX_BFINAL_ST\<rparr>
          else s5\<lparr>obuf := (obuf s5)[next_out s5 := with_final fin (obuf s5 ! next_out s5)]\<rparr>))"
  have nb: "next_out s < length (obuf s1)" if "fc \<noteq> GZIP_FC_WRAP"
    using compressed [OF that] t12(1) out(1) f1(7) by (simp add: out_ok_def)
  have set6: "(if fc \<noteq> GZIP_FC_WRAP then set_bfinal (next_in s5 = [] \<and> used_in s5 = 0 \<and> flush s5 = Z_FINISH) 0 s5 else Some s5) = Some s6"
    unfolding fin using nb f5 s2f by (auto simp: set_bfinal_def s6_def with_final_def)
  have i6: "same_inp s5 s6" "but_io s6 = but_io s5" by (auto simp: s6_def same_inp_def)
  have f6: "next_out s6 = next_out s" "avail_out s6 = avail_out s" "used_out s6 = used_out s" "cur_out s6 = cur_out s" "len_out s6 = len_out s"
    "tpbc s6 = length (a_out r)" "tebc s6 = tebc s2" "spbc s6 = n" "fifo_out s6 = fifo_out s1"
    "obuf s6 = (if fc = GZIP_FC_WRAP then obuf s1 else (obuf s1)[next_out s := with_final fin (obuf s1 ! next_out s)])"
    "status s6 = (if fc \<noteq> GZIP_FC_WRAP \<and> fin then NX_BFINAL_ST else status s)"
    using f5 s2f by (simp_all add: s6_def)
  define k where "k = min (length (a_out r)) t1"
  have k: "min (min (tpbc s5) (avail_out s5)) (strm_def_bufsz env) = k"
    using f5 s2f t12(1) by (simp add: k_def min.assoc)
  define s7 where "s7 = (update_stream_out k s6)\<lparr>used_out := used_out s6 + (length (a_out r) - k)\<rparr>"
  have "length (a_out r) - k \<le> len_out s div 2" using t12 by (simp add: k_def)
  then have end7: "update_output env fc s5 = Some s7"
    unfolding update_output_def Let_def set6 Option.bind.bind_lunit k
    using f6 by (simp add: s7_def update_stream_out_def)
  have lo: "length ob = length (a_out r)" by (simp add: ob_def)
  define v where "v = s1\<lparr>obuf := obuf s6\<rparr>"
  have tv: "target_of s v"
  proof -
    obtain m f where mf: "s1 = s\<lparr>obuf := m, fifo_out := f\<rparr>" "length m = length (obuf s)" "length f = length (fifo_out s)"
      "take (next_out s) m = take (next_out s) (obuf s)" "take (cur_out s + used_out s) f = take (cur_out s + used_out s) (fifo_out s)"
      using t by (auto simp: target_of_def)
    show ?thesis
      unfolding target_of_def using mf by (intro exI [of _ "obuf s6"] exI [of _ f] conjI) (simp_all add: v_def f6(10))
  qed
  have sg1: "seg (obuf v) (next_out s) (min t1 (length ob)) = take t1 ob"
  proof (cases "fc = GZIP_FC_WRAP")
    case True
    then show ?thesis using segs(1) by (simp add: v_def f6(10) ob_def)
  next
    case False
    obtain w ws where aw: "a_out r = w # ws" "0 < t1" using compressed [OF False] by (cases "a_out r") auto
    then obtain u where u: "t1 = Suc u" by (cases t1) auto
    have d: "drop (next_out s) (obuf s1) = obuf s1 ! next_out s # drop (Suc (next_out s)) (obuf s1)"
      using nb [OF False] by (simp add: Cons_nth_drop_Suc)
    have "obuf s1 ! next_out s = w"
      using segs(1) aw u by (simp add: seg_def d)
    moreover have "drop (next_out s) ((obuf s1)[next_out s := x]) = x # drop (Suc (next_out s)) (obuf s1)" for x
      using nb [OF False] by (simp add: drop_update_swap d)
    ultimately show ?thesis
      using segs(1) aw u False by (simp add: seg_def v_def f6(10) ob_def d)
  qed
  have sg2: "seg (fifo_out v) (cur_out s + used_out s) (length ob - t1) = drop t1 ob"
    using segs(2) compressed by (cases "t1") (auto simp: v_def ob_def)
  have o7: "out_bytes s7 = out_bytes s @ ob" "out_ok s7"
    using out_append [OF tv out(1-3) _ _ _ sg1 sg2, of t2 s7] t12 lo f6 out(4)
    by (simp_all add: s7_def v_def update_stream_out_def k_def)
  have "same_inp s5 s7" using i6(1) by (simp add: s7_def same_inp_def update_stream_out_def)
  then have in7: "in_ok env (xs @ take n (unsent s)) s7" "unsent s7 = drop n (unsent s)"
    using same_inp_ok [of s5 s7] s45(3,4) in2(2) by simp_all
  have l7: "length (fifo_out s7) = length (fifo_out s)" "length (obuf s7) = length (obuf s)" "next_out s7 + avail_out s7 = next_out s + avail_out s"
    "next_out s \<le> next_out s7" "used_out s \<le> used_out s7"
    using f6 f1(7,8) t12(1) by (simp_all add: s7_def update_stream_out_def k_def)
  show ?thesis
  proof (rule that [of s7])
    show "but_io s7 = but_io s" using i6(2) but_io_inp [OF s45(5)] b2 by (simp add: s7_def)
  qed (use start end7 in7 o7 l7 f6 s2f in \<open>simp_all add: ob_def s7_def update_stream_out_def\<close>)
qed

section \<open>The state between jobs\<close>

text \<open>
  \<open>xs\<close> has been compressed: the input side has its end as the history, the output side has blocks that encode it, and the
  checksums are those of it. A byte with bits to come is never the last one in the user's buffer.
\<close>

definition stream_ok :: "df_env \<Rightarrow> coding \<Rightarrow> u8 list \<Rightarrow> u8 list \<Rightarrow> u8 list \<Rightarrow> nx_def \<Rightarrow> bool" where
  "stream_ok env coded hdr pre xs s \<longleftrightarrow>
     in_ok env xs s \<and> out_inv s \<and> nx_stored_block_len + 5 \<le> len_out s div 2
     \<and> crc32 s = crc_field xs \<and> adler32 s = adler_field xs \<and> (\<not> checksum_set s \<longrightarrow> xs = [])
     \<and> level s \<noteq> 0 \<and> dict_len s = 0 \<and> strategy s \<in> {Z_FIXED, Z_DEFAULT_STRATEGY}
     \<and> status s \<in> {NX_DEFLATE_ST, NX_BFINAL_ST} \<and> coded_out coded hdr pre (status s = NX_BFINAL_ST) xs s
     \<and> (status s = NX_DEFLATE_ST \<longrightarrow> 0 < tebc s \<longrightarrow> 0 < used_out s)
     \<and> (status s = NX_BFINAL_ST \<longrightarrow> unsent s = [])
     \<and> need_stored_block s \<le> nx_stored_block_len \<and> need_stored_block s \<le> length (unsent s)"

definition config_ok :: "df_env \<Rightarrow> bool" where
  "config_ok env \<longleftrightarrow> df_alloc_ok env \<and> DEF_HIST_LEN < df_per_job_len env \<and> df_per_job_len env < 2 ^ 32
     \<and> nx_stored_block_len \<le> strm_def_bufsz env"

lemma append_flush_block_ok:
  assumes inv: "out_inv s" and st: "status s \<in> {NX_DEFLATE_ST, NX_BFINAL_ST}" and coded: "coded_out coded hdr pre (status s = NX_BFINAL_ST) xs s"
    and told: "0 < tebc s \<longrightarrow> 0 < next_out s + used_out s"
  obtains s' where "nx_compress_block_append_flush_block s = Some s'" and "out_inv s'" and "out_frame s s'"
    and "coded_out coded hdr pre (status s = NX_BFINAL_ST) xs s'" and "status s = NX_DEFLATE_ST \<longrightarrow> 0 < tebc s' \<longrightarrow> 0 < used_out s'"
    and "used_out s \<noteq> 0 \<Longrightarrow> s' = s"
proof (cases "used_out s = 0 \<and> status s \<noteq> NX_BFINAL_ST")
  case False
  then have "nx_compress_block_append_flush_block s = Some s" by (simp only: nx_compress_block_append_flush_block_def if_False)
  moreover have "status s = NX_DEFLATE_ST \<longrightarrow> 0 < tebc s \<longrightarrow> 0 < used_out s" using False by (auto simp: status_codes)
  ultimately show ?thesis using that [of s] inv coded by simp
next
  case True
  note finish = that
  from True have c: "coded_out coded hdr pre False xs s" "0 < tebc s \<longrightarrow> 0 < next_out s" using coded told by simp_all
  have flush: thesis
    if "nx_compress_block_append_flush_block s = map_option fst (append_spanning_flush fl (tebc s) False s)"
      and "fl \<in> {Z_SYNC_FLUSH, Z_FULL_FLUSH, Z_PARTIAL_FLUSH}" for fl
  proof -
    note call = that(1) and kind = that(2)
    obtain s' n where s': "append_spanning_flush fl (tebc s) False s = Some (s', n)" "coded_out coded hdr pre False xs s'" "out_inv s'"
      "out_frame s s'" "0 < tebc s' \<longrightarrow> 0 < used_out s'"
      by (rule add_flush [OF inv conjunct1 [OF True] c(2,1) kind]) (rule that)
    show thesis using finish [of s'] call s' True by simp
  qed
  consider "flush s = Z_PARTIAL_FLUSH"
    | "flush s \<noteq> Z_PARTIAL_FLUSH" "0 < tebc s \<or> flush s = Z_SYNC_FLUSH \<or> flush s = Z_FULL_FLUSH"
    | "flush s \<noteq> Z_PARTIAL_FLUSH" "\<not> (0 < tebc s \<or> flush s = Z_SYNC_FLUSH \<or> flush s = Z_FULL_FLUSH)"
    by blast
  then show ?thesis
  proof cases
    case 1
    then show ?thesis using True by (intro flush [of Z_PARTIAL_FLUSH]) (simp_all add: nx_compress_block_append_flush_block_def)
  next
    case 2
    then show ?thesis using True by (intro flush [of Z_SYNC_FLUSH]) (auto simp: nx_compress_block_append_flush_block_def)
  next
    case 3
    then have "nx_compress_block_append_flush_block s = Some s"
      using True by (simp add: nx_compress_block_append_flush_block_def)
    then show ?thesis using finish [of s] inv c 3 True by simp
  qed
qed

section \<open>One block\<close>

text \<open>The state after an accepted job and before the flush that may follow, and what the job has left in the parameter block.\<close>

definition block_done :: "df_env \<Rightarrow> coding \<Rightarrow> nat \<Rightarrow> u8 list \<Rightarrow> nx_def \<Rightarrow> nat \<Rightarrow> nx_def \<Rightarrow> nx_cpb \<Rightarrow> bool" where
  "block_done env coded fc xs s n s2 c' \<longleftrightarrow>
     (let x = take n (unsent s); fin = (drop n (unsent s) = [] \<and> flush s = Z_FINISH) in
      in_ok env (xs @ x) s2 \<and> unsent s2 = drop n (unsent s) \<and> out_ok s2 \<and> but_io s2 = but_io s \<and> spbc s2 = n \<and> cur_out s2 = cur_out s
      \<and> status s2 = (if fc \<noteq> GZIP_FC_WRAP \<and> fin then NX_BFINAL_ST else status s)
      \<and> length (fifo_out s2) = length (fifo_out s) \<and> length (obuf s2) = length (obuf s)
      \<and> next_out s2 + avail_out s2 = next_out s + avail_out s \<and> next_out s \<le> next_out s2 \<and> used_out s \<le> used_out s2
      \<and> (if fc = GZIP_FC_WRAP
         then tebc s2 = 0 \<and> out_bytes s2 = out_bytes s @ x \<and> p_crc c' = crc_field x \<and> p_adler c' = adler_field x
         else (\<exists>out body h. out \<noteq> [] \<and> out_bytes s2 = out_bytes s @ out \<and> valid_bits (length out) (tebc s2) out = fin # body
                \<and> tebc s2 < 8 \<and> h \<le> length xs \<and> coded (tail h xs) body x)
              \<and> (crc32 s = crc_field xs \<longrightarrow> p_crc c' = crc_field (xs @ x)) \<and> (adler32 s = adler_field xs \<longrightarrow> p_adler c' = adler_field (xs @ x))))"

lemma block_ok:
  assumes eng: "deflate_engine env coded" and cfg: "config_ok env" and inp: "in_ok env xs s"
    and out: "out_inv s" "0 < used_out s \<longrightarrow> avail_out s = 0" "cur_out s = 0" "used_out s \<le> 5" "nx_stored_block_len + 5 \<le> len_out s div 2"
    and some: "unsent s \<noteq> []"
    and comp: "fc \<noteq> GZIP_FC_WRAP \<Longrightarrow> limit = df_per_job_len env \<and> 0 < avail_out s"
    and wrap: "fc = GZIP_FC_WRAP \<Longrightarrow> 0 < limit \<and> limit \<le> nx_stored_block_len \<and> limit \<le> length (unsent s)"
  shows "(\<exists>rc s' c'. nx_compress_block env fc limit s c = Some (rc, s', c') \<and> rc \<in> {LIBNX_ERR_PAGEFLT, LIBNX_ERR_HISTLEN, LIBNX_ERROR})
    \<or> (\<exists>s1 k c'. nx_compress_block env fc limit s c = Some (LIBNX_OK_BIG_TARGET, s1\<lparr>spbc := k, invoke_cnt := invoke_cnt s1 + 1\<rparr>, c')
         \<and> fc \<noteq> GZIP_FC_WRAP \<and> target_of s s1 \<and> 0 < k \<and> k \<le> nx_stored_block_len \<and> k \<le> length (unsent s))
    \<or> (\<exists>n s2 c'. nx_compress_block env fc limit s c
           = map_option (\<lambda>s3. (LIBNX_OK, s3\<lparr>invoke_cnt := invoke_cnt s3 + 1\<rparr>, c')) (nx_compress_block_append_flush_block s2)
         \<and> 0 < n \<and> n \<le> length (unsent s) \<and> (fc = GZIP_FC_WRAP \<longrightarrow> n = limit) \<and> block_done env coded fc xs s n s2 c')"
proof -
  have cfg': "df_alloc_ok env" "DEF_HIST_LEN < df_per_job_len env" "df_per_job_len env < 2 ^ 32" "nx_stored_block_len \<le> strm_def_bufsz env"
    using cfg by (simp_all add: config_ok_def)
  have lim: "limit < 2 ^ 32" "0 < strm_def_bufsz env"
    using comp wrap cfg' by (cases "fc = GZIP_FC_WRAP"; force simp: nx_stored_block_len_def)+
  obtain hl k where source: "nx_setup_ddl_in env limit s = Some (hl, tail hl xs @ take k (unsent s), hl div 16)"
    and hl: "hl mod 16 = 0" "hl \<le> 32768" "hl \<le> length xs" and k: "k \<le> length (unsent s)"
    "32768 < limit \<Longrightarrow> unsent s \<noteq> [] \<Longrightarrow> 0 < k"
    "limit \<le> length (unsent s) \<Longrightarrow> limit \<le> strm_def_bufsz env \<Longrightarrow> hl = 0 \<and> k = limit"
    by (rule nx_setup_ddl_in_ok [OF inp lim]) (rule that)
  define src where "src = tail hl xs @ take k (unsent s)"
  have k0: "0 < k"
    using k(2,3) some comp wrap cfg' by (cases "fc = GZIP_FC_WRAP") (auto simp: DEF_HIST_LEN_def)
  have ls: "length src = hl + k" using hl(3) k(1) by (simp add: src_def)
  define t1 where "t1 = min (avail_out s) (strm_def_bufsz env)"
  define t2 where "t2 = len_out s div 2 - used_out s"
  have t: "t1 \<le> avail_out s" "out_ok s" "cur_out s + used_out s + t2 \<le> length (fifo_out s)" "0 < t1 + t2" "nx_stored_block_len \<le> t2"
    "cur_out s + used_out s + t2 = len_out s div 2"
    using out by (auto simp: t1_def t2_def out_inv_def)
  have ddl: "nx_compress_nxstrm_to_ddl_out env s = Some (t1, t2)"
    using out by (simp add: nx_compress_nxstrm_to_ddl_out_def t1_def t2_def)
  define c0 where "c0 = c\<lparr>p_histlen := hl div 16\<rparr>"
  have h0: "hl = 16 * p_histlen c0" using hl(1) by (simp add: c0_def) presburger
  have w0: "hl = 0 \<and> length src = length src \<and> length src \<le> t1 + t2 \<and> length src \<le> nx_stored_block_len" if "fc = GZIP_FC_WRAP"
    using that wrap k(3) cfg'(4) ls t(5) by fastforce
  obtain e where e: "df_submit_loop env fc hl src t1 t2 (length src) 0 s c0 = Some e" "submit_end coded fc hl src t1 t2 s c0 e"
    using submit_loop_ends [OF eng t(1-4) h0 _ order_refl w0, where ticks = 0] k0 ls by fastforce
  have ne: "\<not> (next_in s = [] \<and> used_in s = 0)" using unsent_Nil [OF inp] some by blast
  have run: "nx_compress_block env fc limit s c = (case e of
           Gave_up rc s c \<Rightarrow> Some (rc, s\<lparr>invoke_cnt := invoke_cnt s + 1\<rparr>, c)
         | Compressed r s c \<Rightarrow>
             do {
               s \<leftarrow> nx_compress_block_update_offsets env fc c r s;
               s \<leftarrow> nx_compress_block_append_flush_block s;
               Some (LIBNX_OK, s\<lparr>invoke_cnt := invoke_cnt s + 1\<rparr>, c)
             })"
    unfolding nx_compress_block_def if_not_P [OF ne] source ddl Option.bind.bind_lunit prod.case src_def [symmetric] c0_def [symmetric] e(1) ..
  show ?thesis
  proof (cases e)
    case (Gave_up rc s' c')
    then show ?thesis
      using e(2) run ls k(1) unfolding submit_end_def by fastforce
  next
    case (Compressed r s1 c')
    have E: "target_of s s1" "p_histlen c' = p_histlen c0" "p_crc c' = a_crc r" "p_adler c' = a_adler r"
      "seg (obuf s1) (next_out s) (min t1 (length (a_out r))) = take t1 (a_out r)"
      "seg (fifo_out s1) (cur_out s + used_out s) (length (a_out r) - t1) = drop t1 (a_out r)"
      using e(2) target_of_fields(1) unfolding submit_end_def Compressed by auto
    obtain m n where m: "m \<le> length src" "fc = GZIP_FC_WRAP \<longrightarrow> m = length src" "accepts coded (the_job fc m src t1 t2 s c0) n r"
      using e(2) unfolding submit_end_def Compressed by auto
    have acc: "0 < n" "n \<le> m - hl" "get_spbc fc r = hl + n" "a_tpbc r = length (a_out r)" "length (a_out r) \<le> t1 + t2"
      using m h0 ls by (simp_all add: accepts_def the_job_def Let_def)
    have x0: "drop hl (take m src) = take (m - hl) (take k (unsent s))"
      using hl(3) acc(1,2) by (simp add: src_def min_def)
    have n: "n \<le> k" "n \<le> length (unsent s)" using acc(2) m(1) ls k(1) by linarith+
    have x: "take n (drop hl (take m src)) = take n (unsent s)" using acc(2) n(1) by (simp add: x0 min_def)
    have h: "take hl (take m src) = tail hl xs" using acc(1,2) hl(3) by (simp add: src_def min_def)
    have W: "m = length src \<and> n = limit \<and> a_out r = take n (unsent s) \<and> a_crc r = crc_field (take n (unsent s))
        \<and> a_adler r = adler_field (take n (unsent s))" if "fc = GZIP_FC_WRAP"
    proof -
      have lk: "hl = 0" "k = limit" using that wrap k(3) cfg'(4) by auto
      have "m = k" using m(2) that ls lk by simp
      then have "n = k \<and> a_out r = take k (unsent s) \<and> a_crc r = crc_field (take k (unsent s)) \<and> a_adler r = adler_field (take k (unsent s))"
        using m(3) that lk k(1) h0 unfolding accepts_def the_job_def Let_def src_def by (simp add: min_def)
      then show ?thesis using lk m(2) that by simp
    qed
    have C: "(\<exists>f body. valid_bits (length (a_out r)) (a_tebc r mod 8) (a_out r) = f # body \<and> coded (tail hl xs) body (take n (unsent s)))
        \<and> (crc32 s = crc_field xs \<longrightarrow> a_crc r = crc_field (xs @ take n (unsent s)))
        \<and> (adler32 s = adler_field xs \<longrightarrow> a_adler r = adler_field (xs @ take n (unsent s)))" if "fc \<noteq> GZIP_FC_WRAP"
      using m(3) that h0 h x acc(4) unfolding accepts_def the_job_def Let_def by simp
    have o': "out_ok s" "0 < used_out s \<longrightarrow> avail_out s = 0" "used_out s = 0 \<longrightarrow> cur_out s = 0" "length (fifo_out s) = len_out s"
      using out by (simp_all add: out_inv_def)
    have nz: "a_out r \<noteq> [] \<and> 0 < t1" if "fc \<noteq> GZIP_FC_WRAP"
      using C [OF that] valid_bits_final(1) comp [OF that] lim(2) by (auto simp: t1_def)
    have sp: "get_spbc fc r = 16 * p_histlen c' + n" using acc(3) h0 E(2) by simp
    define fin where "fin \<longleftrightarrow> drop n (unsent s) = [] \<and> flush s = Z_FINISH"
    define ob where "ob = (if fc = GZIP_FC_WRAP then a_out r else (a_out r)[0 := with_final fin (a_out r ! 0)])"
    obtain s2 where s2: "nx_compress_block_update_offsets env fc c' r s1 = Some s2" "in_ok env (xs @ take n (unsent s)) s2"
      "unsent s2 = drop n (unsent s)" "out_ok s2" "out_bytes s2 = out_bytes s @ ob" "tebc s2 = (if fc = GZIP_FC_WRAP then 0 else a_tebc r mod 8)"
      "status s2 = (if fc \<noteq> GZIP_FC_WRAP \<and> fin then NX_BFINAL_ST else status s)" "but_io s2 = but_io s" "spbc s2 = n"
      "cur_out s2 = cur_out s" "length (fifo_out s2) = length (fifo_out s)" "length (obuf s2) = length (obuf s)"
      "next_out s2 + avail_out s2 = next_out s + avail_out s" "next_out s \<le> next_out s2" "used_out s \<le> used_out s2"
      by (rule update_offsets_ok [OF E(1) inp cfg'(1) o' t1_def t(6) acc(5) E(5,6) sp acc(1) n(2) acc(4) nz, folded fin_def, folded ob_def])
        (assumption, rule that)
    have "block_done env coded fc xs s n s2 c'"
    proof (cases "fc = GZIP_FC_WRAP")
      case True
      then show ?thesis
        using s2(2-15) W [OF True] E(3,4) unfolding block_done_def Let_def fin_def [symmetric] ob_def by simp
    next
      case False
      then obtain f body where fb: "valid_bits (length (a_out r)) (a_tebc r mod 8) (a_out r) = f # body" "coded (tail hl xs) body (take n (unsent s))"
        using C by blast
      have obf: "ob = (a_out r)[0 := with_final fin (a_out r ! 0)]" using False by (simp add: ob_def)
      have "ob \<noteq> [] \<and> out_bytes s2 = out_bytes s @ ob \<and> valid_bits (length ob) (tebc s2) ob = fin # body \<and> tebc s2 < 8"
        using s2(5,6) valid_bits_final [OF fb(1)] False unfolding obf by simp
      then have "\<exists>out body h. out \<noteq> [] \<and> out_bytes s2 = out_bytes s @ out \<and> valid_bits (length out) (tebc s2) out = fin # body
          \<and> tebc s2 < 8 \<and> h \<le> length xs \<and> coded (tail h xs) body (take n (unsent s))"
        using hl(3) fb(2) by blast
      then show ?thesis
        using s2(2-4,7-15) C [OF False] E(3,4) False unfolding block_done_def Let_def fin_def [symmetric] by simp
    qed
    moreover have "nx_compress_block env fc limit s c
        = map_option (\<lambda>s3. (LIBNX_OK, s3\<lparr>invoke_cnt := invoke_cnt s3 + 1\<rparr>, c')) (nx_compress_block_append_flush_block s2)"
      using run s2(1) by (cases "nx_compress_block_append_flush_block s2") (simp_all add: Compressed)
    ultimately show ?thesis using acc(1) n(2) W by blast
  qed
qed

section \<open>The compression step\<close>

text \<open>What a step may ask for: an error, the stored blocks for data that got longer, or the next round with less input.\<close>

definition next_ok :: "df_env \<Rightarrow> coding \<Rightarrow> u8 list \<Rightarrow> u8 list \<Rightarrow> u8 list \<Rightarrow> nx_def \<Rightarrow> df_next \<Rightarrow> bool" where
  "next_ok env coded hdr pre xs s x \<longleftrightarrow>
     (case x of
        Return rc s' c' \<Rightarrow> rc = Z_STREAM_ERROR
      | Goto_s1 cnt s' c' \<Rightarrow> stream_ok env coded hdr pre xs s' \<and> unsent s' = unsent s \<and> 0 < need_stored_block s' \<and> status s' = NX_DEFLATE_ST
          \<and> used_out s' = 0 \<and> 0 < avail_out s' \<and> flush s' = flush s \<and> wrap s' = wrap s
      | Buffers cnt s' c' \<Rightarrow> \<exists>n. 0 < n \<and> n \<le> length (unsent s) \<and> stream_ok env coded hdr pre (xs @ take n (unsent s)) s'
          \<and> unsent s' = drop n (unsent s) \<and> need_stored_block s' = 0 \<and> flush s' = flush s \<and> wrap s' = wrap s
          \<and> (status s' = NX_BFINAL_ST \<longrightarrow> flush s = Z_FINISH))"

lemma stream_ok_fields:
  assumes "stream_ok env coded hdr pre xs s"
  shows "in_ok env xs s" "out_inv s" "out_ok s" "coded_out coded hdr pre (status s = NX_BFINAL_ST) xs s"
    "status s = NX_DEFLATE_ST \<Longrightarrow> used_out s = 0 \<Longrightarrow> tebc s = 0" "used_out s = 0 \<Longrightarrow> cur_out s = 0"
    "crc32 s = crc_field xs" "adler32 s = adler_field xs" "nx_stored_block_len + 5 \<le> len_out s div 2"
  using assms by (auto simp: stream_ok_def out_inv_def)

lemma big_target_ok:
  assumes ok: "stream_ok env coded hdr pre xs s" and st: "status s = NX_DEFLATE_ST" "used_out s = 0"
    and t: "target_of s s1" and k: "k \<le> nx_stored_block_len" "k \<le> length (unsent s)"
    and s': "s' = s1\<lparr>spbc := k, invoke_cnt := i, need_stored_block := k, tebc := 0\<rparr>"
  shows "stream_ok env coded hdr pre xs s'" and "unsent s' = unsent s"
proof -
  obtain m f where mf: "s1 = s\<lparr>obuf := m, fifo_out := f\<rparr>" "length m = length (obuf s)" "length f = length (fifo_out s)"
    "take (next_out s) m = take (next_out s) (obuf s)"
    using t by (auto simp: target_of_def)
  have si: "same_inp s s'" using mf(1) s' by (simp add: same_inp_def)
  have b: "out_bytes s' = out_bytes s" using mf s' st(2) by (simp add: out_bytes_def delivered_def pending_def)
  have te: "tebc s = 0" using stream_ok_fields(5) [OF ok st] .
  have co: "coded_out coded hdr pre fin xs s' = coded_out coded hdr pre fin xs s" for fin
    using b te s' by (intro coded_out_cong) simp_all
  have oi: "out_inv s'" using stream_ok_fields(2) [OF ok] mf s' by (simp add: out_inv_def out_ok_def)
  show u: "unsent s' = unsent s" using same_inp_ok(2) [OF si] .
  show "stream_ok env coded hdr pre xs s'"
    using ok st k oi same_inp_ok(1) [OF si] u co unfolding stream_ok_def by (simp add: s' mf(1) status_codes)
qed

text \<open>The checksums after a job that compresses, and after one that copies.\<close>

definition with_sums :: "u8 list \<Rightarrow> u32 \<Rightarrow> nx_def \<Rightarrow> nx_def" where
  "with_sums xs z s = s\<lparr>adler32 := adler_field xs, crc32 := crc_field xs, checksum_set := True, zadler := z\<rparr>"

lemma with_sums_eq:
  "s\<lparr>adler32 := a, crc32 := k\<rparr>\<lparr>checksum_set := True, zadler := z\<rparr> = with_sums xs z s" if "a = adler_field xs" "k = crc_field xs"
  using that by (simp add: with_sums_def)

lemma update_checksum_plain:
  assumes "p_crc c = crc_field xs" and "p_adler c = adler_field xs"
  obtains z where "nx_compress_update_checksum False c s = Some (with_sums xs z s)"
proof -
  have "\<exists>z. nx_compress_update_checksum False c s = Some (with_sums xs z s)"
    by (rule exI [of _ "if wrap s = HEADER_ZLIB then adler_field xs else if wrap s = HEADER_GZIP then crc_field xs else zadler s"])
      (simp add: nx_compress_update_checksum_def with_sums_def assms)
  then show ?thesis using that by blast
qed

lemma update_checksum_combined:
  assumes sums: "crc32 s = crc_field xs" "adler32 s = adler_field xs" "\<not> checksum_set s \<longrightarrow> xs = []"
    and ys: "p_crc c = crc_field ys" "p_adler c = adler_field ys" "spbc s = length ys" "ys \<noteq> []"
  obtains z where "nx_compress_update_checksum True c s = Some (with_sums (xs @ ys) z s)"
proof (cases "checksum_set s")
  case False
  have "\<exists>z. nx_compress_update_checksum True c s = Some (with_sums (xs @ ys) z s)"
    by (rule exI [of _ "if wrap s = HEADER_ZLIB then adler_field ys else if wrap s = HEADER_GZIP then crc_field ys else zadler s"])
      (use False sums(3) ys(1,2) in \<open>simp add: nx_compress_update_checksum_def with_sums_def\<close>)
  then show ?thesis using that by blast
next
  case True
  obtain w where w: "nx_crc32_combine (ucast (bswap_32 (crc32 s))) (ucast (bswap_32 (p_crc c))) (int (spbc s)) = Some w"
    "bswap_32 (ucast w) = crc_field (xs @ ys)"
    using crc_field_combine [OF ys(4), of xs] sums(1) ys(1,3) by metis
  have a: "ucast (nx_adler32_combine (ucast (adler32 s)) (ucast (p_adler c)) (int (spbc s))) = adler_field (xs @ ys)"
    using adler_field_combine [of xs ys] sums(2) ys(2,3) by simp
  have c: "True \<and> checksum_set s" using True by simp
  have "\<exists>z. nx_compress_update_checksum True c s = Some (with_sums (xs @ ys) z s)"
    by (rule exI [of _ "if wrap s = HEADER_ZLIB then adler_field (xs @ ys) else if wrap s = HEADER_GZIP then crc_field (xs @ ys) else zadler s"])
      (simp add: nx_compress_update_checksum_def True w a with_sums_def)
  then show ?thesis using that by blast
qed

lemma with_sums_simps [simp]:
  "crc32 (with_sums xs z s) = crc_field xs" "adler32 (with_sums xs z s) = adler_field xs" "checksum_set (with_sums xs z s)"
  "same_inp s (with_sums xs z s)" "out_bytes (with_sums xs z s) = out_bytes s" "out_inv (with_sums xs z s) = out_inv s"
  "tebc (with_sums xs z s) = tebc s" "used_out (with_sums xs z s) = used_out s" "status (with_sums xs z s) = status s"
  "len_out (with_sums xs z s) = len_out s" "level (with_sums xs z s) = level s" "strategy (with_sums xs z s) = strategy s"
  "dict_len (with_sums xs z s) = dict_len s" "need_stored_block (with_sums xs z s) = need_stored_block s" "wrap (with_sums xs z s) = wrap s"
  "flush (with_sums xs z s) = flush s" "next_out (with_sums xs z s) = next_out s" "avail_out (with_sums xs z s) = avail_out s"
  "cur_out (with_sums xs z s) = cur_out s" "spbc (with_sums xs z s) = spbc s" "next_in (with_sums xs z s) = next_in s"
  "used_in (with_sums xs z s) = used_in s" "out_ok (with_sums xs z s) = out_ok s" "fifo_out (with_sums xs z s) = fifo_out s"
  by (simp_all add: with_sums_def same_inp_def out_bytes_def delivered_def pending_def out_inv_def out_ok_def)

lemma compress_step_ok:
  assumes eng: "deflate_engine env coded" and cfg: "config_ok env" and ok: "stream_ok env coded hdr pre xs s"
    and st: "need_stored_block s = 0" "status s = NX_DEFLATE_ST" "used_out s = 0" "0 < avail_out s" "unsent s \<noteq> []" and fc: "fc \<noteq> GZIP_FC_WRAP"
  obtains x where "compress_step env fc cnt s c = Some x" and "next_ok env coded hdr pre xs s x"
proof -
  note F = stream_ok_fields [OF ok]
  have te: "tebc s = 0" and cu: "cur_out s = 0" using F(5,6) st by simp_all
  consider (err) rc s' c' where "nx_compress_block env fc (df_per_job_len env) s c = Some (rc, s', c')"
        "rc \<in> {LIBNX_ERR_PAGEFLT, LIBNX_ERR_HISTLEN, LIBNX_ERROR}"
    | (big) s1 k c' where "nx_compress_block env fc (df_per_job_len env) s c
          = Some (LIBNX_OK_BIG_TARGET, s1\<lparr>spbc := k, invoke_cnt := invoke_cnt s1 + 1\<rparr>, c')"
        "target_of s s1" "0 < k" "k \<le> nx_stored_block_len" "k \<le> length (unsent s)"
    | (ok) n s2 c' where "nx_compress_block env fc (df_per_job_len env) s c
          = map_option (\<lambda>s3. (LIBNX_OK, s3\<lparr>invoke_cnt := invoke_cnt s3 + 1\<rparr>, c')) (nx_compress_block_append_flush_block s2)"
        "0 < n" "n \<le> length (unsent s)" "block_done env coded fc xs s n s2 c'"
    using block_ok [OF eng cfg F(1,2) _ cu _ F(9) st(5), of fc "df_per_job_len env" c] st fc by auto
  then show ?thesis
  proof cases
    case err
    then have "compress_step env fc cnt s c = Some (Return Z_STREAM_ERROR s' c')"
      by (auto simp: compress_step_def libnx_codes)
    then show ?thesis using that by (simp add: next_ok_def)
  next
    case big
    define s' where "s' = s1\<lparr>spbc := k, invoke_cnt := invoke_cnt s1 + 1, need_stored_block := k, tebc := 0\<rparr>"
    have "compress_step env fc cnt s c = Some (Goto_s1 cnt s' c')"
      using big(1) by (simp add: compress_step_def s'_def)
    moreover have "stream_ok env coded hdr pre xs s'" "unsent s' = unsent s"
      using big_target_ok [OF ok st(2,3) big(2,4,5) s'_def] by simp_all
    ultimately show ?thesis
      using that big(2,3) st by (auto simp: next_ok_def s'_def target_of_def)
  next
    case (ok n s2 c')
    define x where "x = take n (unsent s)"
    define fin where "fin \<longleftrightarrow> drop n (unsent s) = [] \<and> flush s = Z_FINISH"
    have D: "in_ok env (xs @ x) s2" "unsent s2 = drop n (unsent s)" "out_ok s2" "but_io s2 = but_io s" "spbc s2 = n" "cur_out s2 = 0"
      "status s2 = (if fin then NX_BFINAL_ST else NX_DEFLATE_ST)" "length (fifo_out s2) = length (fifo_out s)"
      "p_crc c' = crc_field (xs @ x)" "p_adler c' = adler_field (xs @ x)" "tebc s2 < 8"
      using ok(4) cu st(2) fc F(7,8) unfolding block_done_def Let_def by (auto simp: x_def fin_def)
    obtain out body h where O: "out \<noteq> []" "out_bytes s2 = out_bytes s @ out" "valid_bits (length out) (tebc s2) out = fin # body"
      "h \<le> length xs" "coded (tail h xs) body x"
      using ok(4) fc unfolding block_done_def Let_def by (auto simp: x_def fin_def)
    note f2 = but_io_fields [OF D(4)]
    have inv2: "out_inv s2" using F(2) D(3,6,8,11) f2(1) by (simp add: out_inv_def)
    have bits: "out_bits (tebc s2) s2 = out_bits (tebc s) s @ fin # body"
      using O(1-3) te by (simp add: out_bits_sent sent_bits_prefix sent_bits_0) (simp add: sent_bits_def)
    have c2: "coded_out coded hdr pre fin (xs @ x) s2"
    proof (rule coded_out_append [OF _ _ _ bits])
      show "coded_out coded hdr pre False xs s" using F(4) st(2) by (simp add: status_codes)
    qed (use te O encodes_job in auto)
    have fin2: "(status s2 = NX_BFINAL_ST) = fin" using D(7) by (simp add: status_codes)
    have "0 < next_out s2 + used_out s2" using O(1,2) out_bytes_Nil [OF D(3)] by simp
    moreover have "status s2 \<in> {NX_DEFLATE_ST, NX_BFINAL_ST}" "coded_out coded hdr pre (status s2 = NX_BFINAL_ST) (xs @ x) s2"
      using c2 fin2 D(7) by simp_all
    ultimately obtain s3 where s3: "nx_compress_block_append_flush_block s2 = Some s3" "out_inv s3" "out_frame s2 s3"
      "coded_out coded hdr pre (status s2 = NX_BFINAL_ST) (xs @ x) s3" "status s2 = NX_DEFLATE_ST \<longrightarrow> 0 < tebc s3 \<longrightarrow> 0 < used_out s3"
      using append_flush_block_ok [OF inv2] by metis
    define s4 where "s4 = s3\<lparr>invoke_cnt := invoke_cnt s3 + 1\<rparr>"
    obtain z where z: "nx_compress_update_checksum False c' s4 = Some (with_sums (xs @ x) z s4)"
      by (rule update_checksum_plain [OF D(9,10)])
    define s5 where "s5 = with_sums (xs @ x) z s4"
    have step: "compress_step env fc cnt s c = Some (Buffers 0 s5 c')"
      using ok(1) s3(1) z by (simp add: compress_step_def libnx_codes s4_def s5_def)
    have b4: "but_io s4 = but_io s" using but_io_frame [OF s3(3)] D(4) by (simp add: s4_def)
    note f4 = but_io_fields [OF b4]
    have i4: "same_inp s2 s4" using same_inp_frame [OF s3(3)] by (simp add: s4_def same_inp_def)
    have i5: "same_inp s2 s5" using same_inp_trans [OF i4] by (simp add: s5_def)
    have u5: "in_ok env (xs @ x) s5" "unsent s5 = drop n (unsent s)" using same_inp_ok [OF i5] D(1,2) by simp_all
    have o4: "out_inv s4" "status s4 = status s2" "out_bytes s4 = out_bytes s3" "tebc s4 = tebc s3" "used_out s4 = used_out s3"
      using s3(2,3) by (cases s2; cases s3; simp add: s4_def out_inv_def out_ok_def out_bytes_def delivered_def pending_def out_frame_def)+
    have "coded_out coded hdr pre fin (xs @ x) s5"
      using s3(4) fin2 o4 coded_out_cong [of s5 s3] by (simp add: s5_def)
    then have "stream_ok env coded hdr pre (xs @ x) s5"
      using ok(2,3) assms(3) u5 o4 f4 s3(5) fin2 D(7) st(1) unfolding stream_ok_def by (auto simp: s5_def fin_def)
    then have "next_ok env coded hdr pre xs s (Buffers 0 s5 c')"
      using ok(2,3) u5 f4 st(1) o4(2) fin2 unfolding next_ok_def df_next.case
      by (intro exI [of _ n]) (simp add: s5_def x_def fin_def)
    then show ?thesis using that step by blast
  qed
qed

end
