(* ===== verification/DeflateStored.thy ===== *)
theory DeflateStored
  imports DeflateStep
begin

text \<open>
  The stored block of data that the accelerator made longer: a placeholder header, a job that copies the data, perhaps a
  flush, and the header again with the length and the final bit. The data are at most one stored block here.
\<close>

section \<open>Rewriting the header\<close>

lemma pad_mod: "p mod 8 = q mod 8 \<Longrightarrow> pad p = pad q"
  unfolding pad_def by (metis mod_add_left_eq)

lemma read_block_pos: "p mod 8 = q mod 8 \<Longrightarrow> read_block p bs = read_block q bs"
  using pad_mod [of p q] unfolding read_block_def read_stored_def by (simp only:)

lemma encodes_trans:
  assumes "encodes coded f B2 ys" and B1: "encodes coded False B1 xs" "length B1 mod 8 = 0"
  shows "encodes coded f (B1 @ B2) (xs @ ys)"
  using assms(1)
proof induction
  case encodes_Nil
  then show ?case using B1 by simp
next
  case (encodes_job bs ys h body x f)
  then have "tail h (xs @ ys) = tail h ys" by (simp add: tail_append)
  then show ?case
    using encodes.encodes_job [OF encodes_job.IH, of h body x f] encodes_job by simp
next
  case (encodes_own bs ys b f x)
  have "read_block (length (B1 @ bs)) b = read_block (length bs) b"
    using B1(2) by (intro read_block_pos) (simp add: mod_add_left_eq [symmetric, of "length B1"])
  then show ?case
    using encodes.encodes_own [OF encodes_own.IH, of b f x] encodes_own by simp
qed

lemma sent_bits_rewrite:
  assumes "length ws' = length ws" and "drop q ws' = drop q ws" and "byte_bits (take q ws') = P" and "q \<le> length ws"
    and "8 * q \<le> length (sent_bits t ws)"
  shows "sent_bits t ws' = P @ drop (8 * q) (sent_bits t ws)"
proof -
  define L where "L = (if t = 0 then 8 * length ws else 8 * (length ws - 1) + t)"
  have s: "sent_bits t ws = take L (byte_bits ws)" "sent_bits t ws' = take L (byte_bits ws')"
    using assms(1) by (simp_all add: sent_bits_def valid_bits_def L_def)
  have L: "8 * q \<le> L" using assms(5) by (simp add: s(1))
  have P: "length P = 8 * q" using assms(1,3,4) by auto
  have "byte_bits ws' = P @ drop (8 * q) (byte_bits ws)"
    using assms(2,3) by (metis append_take_drop_id byte_bits_append drop_byte_bits)
  then show ?thesis using L P by (simp add: s drop_take)
qed

lemma header_rewritten:
  assumes a: "append_btype00_header ws p 0 fin n = Some (ws', 5)" and n: "n < 0x10000"
    and old: "sent_bits t ws = byte_bits us @ H @ R" "length us = p" "length H = 40" and p: "p + 5 \<le> length ws"
  shows "sent_bits t ws' = byte_bits us @ stored_header 0 fin n @ R"
proof -
  obtain w where w: "append_btype00_header ws p 0 fin n = Some (w, stored_bytes 0)"
    "appends ws p 0 w (stored_bytes 0) (stored_header 0 fin n)"
    by (rule append_btype00_header_correct [of 0 p ws n fin]) (use p n in \<open>simp_all add: stored_bytes_def\<close>)
  then have w': "appends ws p 0 ws' 5 (stored_header 0 fin n)" using a by (simp add: stored_bytes_def)
  have "take p ws = us"
  proof -
    have "byte_bits (take p ws) = take (8 * p) (byte_bits ws)" by (simp add: take_byte_bits)
    also have "\<dots> = take (8 * p) (sent_bits t ws)"
    proof -
      have "8 * p \<le> (if t = 0 then 8 * length ws else 8 * (length ws - 1) + t)" using p by auto
      then show ?thesis by (simp add: sent_bits_def valid_bits_def min_absorb1)
    qed
    also have "\<dots> = byte_bits us" using old by simp
    finally show ?thesis by (metis bytes_of_byte_bits)
  qed
  then have "byte_bits (take (p + 5) ws') = byte_bits us @ stored_header 0 fin n"
    using w' by (simp add: appends_def valid_bits_full)
  moreover have "8 * (p + 5) \<le> length (sent_bits t ws)" "drop (8 * (p + 5)) (sent_bits t ws) = R"
    using old by simp_all
  ultimately show ?thesis
    using sent_bits_rewrite [of ws' ws "p + 5" _ t] w' p by (simp add: appends_def)
qed

lemma length_stored_header: "length (stored_header 0 fin n) = 40"
  by (simp add: stored_header_def pad_def)

section \<open>The copied data\<close>

text \<open>The flush after the data, which are not yet described by their header.\<close>

lemma flush_after_copy:
  assumes inv: "out_inv s" and st: "status s = NX_DEFLATE_ST" and te: "tebc s = 0"
  obtains s' B where "nx_compress_block_append_flush_block s = Some s'" and "out_inv s'" and "out_frame s s'"
    and "sent_bits (tebc s') (out_bytes s') = byte_bits (out_bytes s) @ B" and "encodes coded False B []"
    and "0 < tebc s' \<longrightarrow> 0 < used_out s'" and "used_out s \<noteq> 0 \<Longrightarrow> s' = s" and "flush s = Z_FINISH \<Longrightarrow> s' = s \<and> B = []"
proof (cases "flush s = Z_FINISH")
  case True
  then have "nx_compress_block_append_flush_block s = Some s"
    using te by (simp add: nx_compress_block_append_flush_block_def flush_codes)
  then show ?thesis
    using that [of s "[]"] inv te by (simp add: sent_bits_0 encodes_Nil)
next
  case False
  have "coded_out coded (out_bytes s) [] False [] s"
    using te encodes_Nil [of coded] by (auto simp: coded_out_def sent_bits_0)
  then have c: "coded_out coded (out_bytes s) [] (status s = NX_BFINAL_ST) [] s" "status s \<in> {NX_DEFLATE_ST, NX_BFINAL_ST}"
    using st by (simp_all add: status_codes)
  have t: "0 < tebc s \<longrightarrow> 0 < next_out s + used_out s" using te by simp
  obtain s' where s': "nx_compress_block_append_flush_block s = Some s'" "out_inv s'" "out_frame s s'"
    "coded_out coded (out_bytes s) [] (status s = NX_BFINAL_ST) [] s'" "status s = NX_DEFLATE_ST \<longrightarrow> 0 < tebc s' \<longrightarrow> 0 < used_out s'"
    "used_out s \<noteq> 0 \<Longrightarrow> s' = s"
    by (rule append_flush_block_ok [OF inv c(2,1) t]) (rule that)
  obtain B where "sent_bits (tebc s') (out_bytes s') = byte_bits (out_bytes s) @ B" "encodes coded False B []"
    using s'(4) st by (auto simp: coded_out_def status_codes)
  then show ?thesis using that [of s' B] s' st False by blast
qed

lemma out_frame_fields:
  fixes s s' :: nx_def
  assumes "out_frame s s'"
  shows "status s' = status s" "spbc s' = spbc s" "next_in s' = next_in s" "flush s' = flush s" "wrap s' = wrap s"
  using assms by (cases s; cases s'; simp add: out_frame_def)+

lemma append_flush_block_stop:
  assumes "nx_compress_block_append_flush_block s = Some s'" and "cur_out s = 0"
  shows "cur_out s' = 0"
  using assms append_spanning_stop(1) [where s = s and s' = s']
  by (fastforce simp: nx_compress_block_append_flush_block_def split: if_splits)

text \<open>The placeholder header.\<close>

lemma placeholder_ok:
  assumes inv: "out_inv s" and s: "used_out s = 0" "tebc s = 0" "0 < avail_out s"
  obtains s' where "append_spanning_flush Z_SYNC_FLUSH 0 False s = Some (s', 5)"
    and "byte_bits (out_bytes s') = byte_bits (out_bytes s) @ stored_header 0 False 0" and "out_inv s'" and "out_frame s s'"
    and "tebc s' = 0" and "cur_out s' = 0" and "0 < used_out s' \<longrightarrow> avail_out s' = 0" and "next_out s' + used_out s' = next_out s + 5"
proof -
  have ok: "out_ok s" "cur_out s = 0" "cur_out s + 5 \<le> length (fifo_out s)" using inv s by (auto simp: out_inv_def)
  obtain s' where s': "append_spanning_flush Z_SYNC_FLUSH 0 False s = Some (s', stored_bytes 0)"
    "out_bits 0 s' = out_bits 0 s @ stored_header 0 False 0" "tebc s' = 0" "out_ok s'" "out_frame s s'"
    "next_out s' + used_out s' = next_out s + stored_bytes 0"
    by (rule append_spanning_sync [OF ok(1) s(1) ok(3), of 0 Z_SYNC_FLUSH False]) auto
  note stop = append_spanning_stop [OF s'(1) s(1) ok(2)]
  have "out_inv s'" using out_inv_frame [OF inv s'(5,4)] s'(3) stop(1) by simp
  then show ?thesis
    using that [of s'] s' stop by (simp add: stored_bytes_def out_bits_0)
qed

text \<open>Where the header ends up.\<close>

lemma placeholder_at:
  assumes h: "next_out s1 + used_out s1 = p + 5" "next_out s1 + avail_out s1 = p + a" "0 < used_out s1 \<longrightarrow> avail_out s1 = 0"
    and s2: "next_out s1 \<le> next_out s2" "used_out s1 \<le> used_out s2" "next_out s2 + avail_out s2 = p + a"
    and s3: "next_out s2 \<le> next_out s3" "used_out s2 \<noteq> 0 \<Longrightarrow> used_out s3 = used_out s2 \<and> next_out s3 = next_out s2"
  shows "header_at p a 0 s3"
proof (cases "5 \<le> a")
  case True
  then have "used_out s1 = 0" using h by (cases "used_out s1") auto
  then show ?thesis using True h s2(1) s3(1) by (simp add: header_at_def stored_bytes_def)
next
  case False
  then have "0 < used_out s1" using h by linarith
  then have "next_out s1 = p + a" "used_out s1 = 5 - a" using h by simp_all
  moreover from this have "used_out s2 \<noteq> 0" using False s2(2) by simp
  ultimately show ?thesis using False s2 s3 by (simp add: header_at_def stored_bytes_def)
qed

section \<open>The loop\<close>

lemma stored_loop_end: "need_stored_block s = 0 \<Longrightarrow> stored_loop env a t b cnt s c = Some (None, cnt, s, c)"
  by (subst stored_loop.simps) simp

lemma stored_loop_round:
  assumes "0 < avail_out s" and "0 < need_stored_block s" and "need_stored_block s \<le> nx_stored_block_len"
    and "append_spanning_flush Z_SYNC_FLUSH (tebc s) False s = Some (s1, k)" and "next_in s1 \<noteq> [] \<or> 0 < used_in s1"
  shows "nx_compress_block env GZIP_FC_WRAP (need_stored_block s) (s1\<lparr>spbc := 0\<rparr>) c = Some (rc, s2, c2) \<Longrightarrow>
      rc \<notin> {LIBNX_OK, LIBNX_OK_NO_AVIN} \<Longrightarrow> stored_loop env a t b cnt s c = Some (Some Z_STREAM_ERROR, cnt, s2, c2)"
    and "nx_compress_block env GZIP_FC_WRAP (need_stored_block s) (s1\<lparr>spbc := 0\<rparr>) c = Some (LIBNX_OK, s2, c2) \<Longrightarrow>
      nx_compress_update_checksum True c2 s2 = Some s3 \<Longrightarrow>
      lst = (next_in s3 = [] \<and> used_in s3 = 0 \<and> flush s3 = Z_FINISH) \<Longrightarrow>
      rewrite_spanning_flush (next_out s) a t (b \<or> lst) (spbc s3) (if lst then s3\<lparr>status := NX_BFINAL_ST\<rparr> else s3) = Some (s4, k') \<Longrightarrow>
      spbc s4 = spbc s3 \<Longrightarrow>
      stored_loop env a t b cnt s c
        = stored_loop env a t (b \<or> lst) 0 (s4\<lparr>need_stored_block := need_stored_block s4 - spbc s4\<rparr>) c2"
proof -
  have g: "\<not> (avail_out s = 0 \<or> need_stored_block s = 0)" "min (need_stored_block s) nx_stored_block_len = need_stored_block s"
    "next_in (s1\<lparr>spbc := 0\<rparr>) \<noteq> [] \<or> 0 < used_in (s1\<lparr>spbc := 0\<rparr>)"
    using assms by auto
  show "stored_loop env a t b cnt s c = Some (Some Z_STREAM_ERROR, cnt, s2, c2)"
    if "nx_compress_block env GZIP_FC_WRAP (need_stored_block s) (s1\<lparr>spbc := 0\<rparr>) c = Some (rc, s2, c2)" "rc \<notin> {LIBNX_OK, LIBNX_OK_NO_AVIN}"
  proof -
    have "rc \<noteq> LIBNX_OK \<and> rc \<noteq> LIBNX_OK_NO_AVIN" using that(2) by simp
    note r = if_P [OF this]
    show ?thesis
      by (subst stored_loop.simps)
        (simp only: if_not_P [OF g(1)] g(2) assms(4) if_P [OF g(3)] that(1) r Let_def option.case prod.case Option.bind.bind_lunit if_True)
  qed
  show "stored_loop env a t b cnt s c
        = stored_loop env a t (b \<or> lst) 0 (s4\<lparr>need_stored_block := need_stored_block s4 - spbc s4\<rparr>) c2"
    if "nx_compress_block env GZIP_FC_WRAP (need_stored_block s) (s1\<lparr>spbc := 0\<rparr>) c = Some (LIBNX_OK, s2, c2)"
      "nx_compress_update_checksum True c2 s2 = Some s3" "lst = (next_in s3 = [] \<and> used_in s3 = 0 \<and> flush s3 = Z_FINISH)"
      "rewrite_spanning_flush (next_out s) a t (b \<or> lst) (spbc s3) (if lst then s3\<lparr>status := NX_BFINAL_ST\<rparr> else s3) = Some (s4, k')"
      "spbc s4 = spbc s3"
  proof -
    have r: "(LIBNX_OK \<noteq> LIBNX_OK \<and> LIBNX_OK \<noteq> LIBNX_OK_NO_AVIN) = False" "(LIBNX_OK \<noteq> LIBNX_OK_NO_AVIN) = True"
      by (simp_all add: libnx_codes)
    have sp: "spbc (if lst then s3\<lparr>status := NX_BFINAL_ST\<rparr> else s3) = spbc s3" by simp
    show ?thesis
      by (subst stored_loop.simps)
        (simp only: if_not_P [OF g(1)] g(2) assms(4) if_P [OF g(3)] that(1,2,4) that(3) [symmetric] r Let_def option.case option.map prod.case
          Option.bind.bind_lunit if_True if_False sp simp_thms)
  qed
qed

lemma stored_step_ok:
  assumes eng: "deflate_engine env coded" and cfg: "config_ok env" and ok: "stream_ok env coded hdr pre xs s"
    and st: "0 < need_stored_block s" "status s = NX_DEFLATE_ST" "used_out s = 0" "0 < avail_out s"
  obtains x where "deflate_step env cnt s c = Some x" and "next_ok env coded hdr pre xs s x"
proof -
  note F = stream_ok_fields [OF ok]
  have te: "tebc s = 0" and cu: "cur_out s = 0" using F(5,6) st by simp_all
  define n where "n = need_stored_block s"
  have n: "0 < n" "n \<le> nx_stored_block_len" "n \<le> length (unsent s)" "n < 0x10000"
    using ok st(1) by (simp_all add: stream_ok_def n_def nx_stored_block_len_def)
  have some: "unsent s \<noteq> []" using n by auto
  define x where "x = take n (unsent s)"
  have lx: "length x = n" "x \<noteq> []" using n by (auto simp: x_def)
  have dstep: "deflate_step env cnt s c
      = map_option (\<lambda>(rc, cnt, s, c). case rc of Some rc \<Rightarrow> Return rc s c | None \<Rightarrow> Buffers cnt (s\<lparr>need_stored_block := 0\<rparr>) c)
          (stored_loop env (avail_out s) 0 False cnt s c)"
    using st(1) te by (simp add: deflate_step_def)
  obtain s1 where s1: "append_spanning_flush Z_SYNC_FLUSH 0 False s = Some (s1, 5)"
    "byte_bits (out_bytes s1) = byte_bits (out_bytes s) @ stored_header 0 False 0" "out_inv s1" "out_frame s s1" "tebc s1 = 0"
    "cur_out s1 = 0" "0 < used_out s1 \<longrightarrow> avail_out s1 = 0" "next_out s1 + used_out s1 = next_out s + 5"
    by (rule placeholder_ok [OF F(2) st(3) te st(4)])
  define u where "u = s1\<lparr>spbc := 0\<rparr>"
  have iu: "same_inp s u" using same_inp_frame [OF s1(4)] by (simp add: u_def same_inp_def)
  have u: "in_ok env xs u" "unsent u = unsent s" using same_inp_ok [OF iu] F(1) by simp_all
  have bu: "but_io u = but_io s" using but_io_frame [OF s1(4)] by (simp add: u_def)
  note fu = but_io_fields [OF bu]
  have ou: "out_inv u" "out_bytes u = out_bytes s1" "tebc u = 0" "cur_out u = 0" "used_out u = used_out s1" "avail_out u = avail_out s1"
    "next_out u = next_out s1" "status u = NX_DEFLATE_ST"
    using s1 st(2) by (simp_all add: u_def out_inv_def out_ok_def out_bytes_def delivered_def pending_def)
      (cases s; cases s1; simp add: out_frame_def)
  have u5: "used_out u \<le> 5" using s1(4,8) ou(5) by (simp add: out_frame_def)
  have ne: "next_in s1 \<noteq> [] \<or> 0 < used_in s1"
    using unsent_Nil [OF u(1)] u(2) some by (auto simp: u_def)
  consider (err) rc s' c' where "nx_compress_block env GZIP_FC_WRAP n u c = Some (rc, s', c')"
        "rc \<in> {LIBNX_ERR_PAGEFLT, LIBNX_ERR_HISTLEN, LIBNX_ERROR}"
    | (ok) s2 c' where "nx_compress_block env GZIP_FC_WRAP n u c
          = map_option (\<lambda>s3. (LIBNX_OK, s3\<lparr>invoke_cnt := invoke_cnt s3 + 1\<rparr>, c')) (nx_compress_block_append_flush_block s2)"
        "block_done env coded GZIP_FC_WRAP xs u n s2 c'"
    using block_ok [OF eng cfg u(1) ou(1) _ ou(4) u5 _ _ _ _, of GZIP_FC_WRAP n c] F(9) fu(1) n some u(2) ou s1(7) by auto
  then show ?thesis
  proof cases
    case err
    have "stored_loop env (avail_out s) 0 False cnt s c = Some (Some Z_STREAM_ERROR, cnt, s', c')"
      by (rule stored_loop_round(1) [OF st(4,1) n(2) [unfolded n_def] _ ne err(1) [unfolded u_def n_def]])
        (use s1(1) te err(2) in \<open>auto simp: libnx_codes\<close>)
    then have "deflate_step env cnt s c = Some (Return Z_STREAM_ERROR s' c')" by (simp add: dstep)
    then show ?thesis using that by (simp add: next_ok_def)
  next
    case (ok s2 c')
    have D: "in_ok env (xs @ x) s2" "unsent s2 = drop n (unsent s)" "out_ok s2" "but_io s2 = but_io s" "spbc s2 = n" "cur_out s2 = 0"
      "status s2 = NX_DEFLATE_ST" "length (fifo_out s2) = length (fifo_out u)"
      "next_out s2 + avail_out s2 = next_out u + avail_out u" "next_out u \<le> next_out s2" "used_out u \<le> used_out s2"
      "tebc s2 = 0" "out_bytes s2 = out_bytes s1 @ x" "p_crc c' = crc_field x" "p_adler c' = adler_field x"
      using ok(2) ou u(2) bu unfolding block_done_def Let_def by (simp_all add: x_def)
    note f2 = but_io_fields [OF D(4)]
    have inv2: "out_inv s2" using ou(1) D(3,6,8,12) f2(1) fu(1) by (simp add: out_inv_def)
    obtain s3 B2 where s3: "nx_compress_block_append_flush_block s2 = Some s3" "out_inv s3" "out_frame s2 s3"
      "sent_bits (tebc s3) (out_bytes s3) = byte_bits (out_bytes s2) @ B2" "encodes coded False B2 []"
      "0 < tebc s3 \<longrightarrow> 0 < used_out s3" "used_out s2 \<noteq> 0 \<Longrightarrow> s3 = s2" "flush s2 = Z_FINISH \<Longrightarrow> s3 = s2 \<and> B2 = []"
      by (rule flush_after_copy [OF inv2 D(7,12)]) (rule that)
    have b3: "but_io s3 = but_io s" using but_io_frame [OF s3(3)] D(4) by simp
    note f3 = but_io_fields [OF b3]
    have i3: "same_inp s2 s3" using same_inp_frame [OF s3(3)] .
    have g3: "status s3 = NX_DEFLATE_ST" "spbc s3 = n"
      using s3(3) D(5,7) by (cases s2; cases s3; simp add: out_frame_def)+
    define v where "v = s3\<lparr>invoke_cnt := invoke_cnt s3 + 1\<rparr>"
    have nb: "nx_compress_block env GZIP_FC_WRAP n u c = Some (LIBNX_OK, v, c')" using ok(1) s3(1) by (simp add: v_def)
    have vsums: "crc32 v = crc_field xs" "adler32 v = adler_field xs" "\<not> checksum_set v \<longrightarrow> xs = []" "spbc v = length x"
      using f3 F(7,8) assms(3) g3 lx by (simp_all add: v_def stream_ok_def)
    obtain z where z: "nx_compress_update_checksum True c' v = Some (with_sums (xs @ x) z v)"
      by (rule update_checksum_combined [OF vsums(1-3) D(14,15) vsums(4) lx(2)])
    define w where "w = with_sums (xs @ x) z v"
    define lst where "lst \<longleftrightarrow> drop n (unsent s) = [] \<and> flush s = Z_FINISH"
    have iw: "same_inp s2 w" using same_inp_trans [OF i3, of w] by (simp add: w_def v_def with_sums_def same_inp_def)
    have inw: "in_ok env (xs @ x) w" "unsent w = drop n (unsent s)" using same_inp_ok [OF iw] D(1,2) by simp_all
    have lw: "lst = (next_in w = [] \<and> used_in w = 0 \<and> flush w = Z_FINISH)"
      using unsent_Nil [OF inw(1)] inw(2) f3(5) by (auto simp: lst_def w_def v_def)
    define y where "y = (if lst then w\<lparr>status := NX_BFINAL_ST\<rparr> else w)"
    have oy: "out_bytes y = out_bytes s3" "tebc y = tebc s3" "used_out y = used_out s3" "next_out y = next_out s3" "cur_out y = cur_out s3"
      "out_ok y = out_ok s3" "spbc y = n" "out_inv y = out_inv s3"
      using g3 by (simp_all add: y_def w_def v_def with_sums_def out_bytes_def delivered_def pending_def out_ok_def out_inv_def)
    have cur3: "cur_out s3 = 0" by (rule append_flush_block_stop [OF s3(1) D(6)])
    have at: "header_at (next_out s) (avail_out s) 0 y"
    proof (rule placeholder_at [OF s1(8) _ s1(7), of "avail_out s" s2])
      show "next_out s1 + avail_out s1 = next_out s + avail_out s" using s1(4) by (simp add: out_frame_def)
      then show "next_out s2 + avail_out s2 = next_out s + avail_out s" using D(9) ou by simp
    qed (use D(10,11) ou s3(3,7) oy in \<open>auto simp: out_frame_def\<close>)
    obtain s4 where s4: "rewrite_spanning_flush (next_out s) (avail_out s) 0 lst n y = Some (s4, stored_bytes 0)"
      "append_btype00_header (out_bytes y) (next_out s) 0 lst n = Some (out_bytes s4, stored_bytes 0)"
      "out_ok s4" "out_frame y s4" "next_out s4 = next_out y" "used_out s4 = used_out y" "cur_out s4 = 0" "tebc s4 = tebc y"
      by (rule rewrite_spanning_correct [of y 0 n "next_out s" "avail_out s" lst])
        (use oy s3(2) cur3 at n(4) in \<open>simp_all add: out_inv_def\<close>)
    have iy: "same_inp w y" "but_io y = but_io w" by (simp_all add: y_def)
    note fy = out_frame_fields [OF s4(4)]
    have sy: "spbc s4 = n" "status s4 = (if lst then NX_BFINAL_ST else NX_DEFLATE_ST)"
      using fy(1,2) oy(7) g3(1) by (simp_all add: y_def w_def v_def)
    have b4: "but_io s4 = but_io w" using but_io_frame [OF s4(4)] iy(2) by simp
    note f4 = but_io_fields [OF b4]
    have fw: "need_stored_block w = n" "flush w = flush s" "wrap w = wrap s" "level w = level s" "strategy w = strategy s" "dict_len w = dict_len s"
      "len_out w = len_out s"
      using f3 by (simp_all add: w_def v_def n_def)
    define s6 where "s6 = s4\<lparr>need_stored_block := 0\<rparr>"
    have loop: "stored_loop env (avail_out s) 0 False cnt s c = Some (None, 0, s4\<lparr>need_stored_block := 0\<rparr>, c')"
    proof -
      have ph: "append_spanning_flush Z_SYNC_FLUSH (tebc s) False s = Some (s1, 5)" using s1(1) te by simp
      have rw: "rewrite_spanning_flush (next_out s) (avail_out s) 0 (False \<or> lst) (spbc w) (if lst then w\<lparr>status := NX_BFINAL_ST\<rparr> else w)
          = Some (s4, stored_bytes 0)"
        using s4(1) oy(7) g3(2) by (simp add: y_def w_def v_def)
      have "spbc s4 = spbc w" using sy(1) oy(7) by (simp add: y_def split: if_splits)
      from stored_loop_round(2) [OF st(4,1) n(2) [unfolded n_def] ph ne nb [unfolded u_def n_def] z [folded w_def] lw rw this]
      show ?thesis
        using stored_loop_end [of "s4\<lparr>need_stored_block := 0\<rparr>"] f4(11) fw(1) sy(1) by simp
    qed
    have step: "deflate_step env cnt s c = Some (Buffers 0 s6 c')"
      unfolding dstep loop by (simp add: s6_def)
    have i6: "same_inp w s6"
      using same_inp_trans [OF iy(1) same_inp_frame [OF s4(4)]] by (simp add: s6_def same_inp_def)
    have in6: "in_ok env (xs @ x) s6" "unsent s6 = drop n (unsent s)" using same_inp_ok [OF i6] inw by simp_all
    have ls: "length (out_bytes s) = next_out s" using length_out_bytes [OF F(3)] st(3) by simp
    have old: "sent_bits (tebc y) (out_bytes y) = byte_bits (out_bytes s) @ stored_header 0 False 0 @ byte_bits x @ B2"
      using s3(4) D(13) s1(2) oy(1,2) by simp
    have ly: "next_out s + 5 \<le> length (out_bytes y)"
    proof -
      have "length (sent_bits (tebc y) (out_bytes y)) \<le> 8 * length (out_bytes y)"
        by (simp add: sent_bits_def valid_bits_def)
      then show ?thesis unfolding old using ls by (simp add: length_stored_header)
    qed
    have new: "sent_bits (tebc s4) (out_bytes s4) = byte_bits (out_bytes s) @ stored_header 0 lst n @ byte_bits x @ B2"
      using header_rewritten [OF _ n(4) old ls length_stored_header ly, of lst "out_bytes s4"] s4(2,8) by (simp add: stored_bytes_def)
    have ne4: "out_bytes s4 \<noteq> []" using new length_stored_header [of lst n] by (auto simp: sent_bits_def valid_bits_def)
    have "coded_out coded hdr pre lst (xs @ x) s4"
    proof -
      obtain B where B: "byte_bits (pre @ out_bytes s) = byte_bits hdr @ B" "encodes coded False B xs"
        using F(4) st(2) te by (auto simp: coded_out_def sent_bits_0 status_codes)
      have lB: "length B mod 8 = 0"
        using arg_cong [OF B(1), of length] by simp presburger
      then have e1: "encodes coded lst (B @ stored_header 0 lst n @ byte_bits x) (xs @ x)"
        using encodes_stored [OF B(2), of 0 x lst] lx(1) n(4) by simp
      have "encodes coded lst (B @ stored_header 0 lst n @ byte_bits x @ B2) (xs @ x)"
      proof (cases lst)
        case True
        then have "B2 = []" using s3(8) f2(5) by (simp add: lst_def)
        then show ?thesis using e1 by simp
      next
        case False
        have l8: "length (B @ stored_header 0 lst n @ byte_bits x) mod 8 = 0"
          using lB by (simp add: length_stored_header) presburger
        then show ?thesis using encodes_trans [OF s3(5) _ l8, of "xs @ x"] e1 False by simp
      qed
      moreover have "sent_bits (tebc s4) (pre @ out_bytes s4) = byte_bits hdr @ B @ stored_header 0 lst n @ byte_bits x @ B2"
        using ne4 new B(1) by (simp add: sent_bits_prefix)
      ultimately show ?thesis by (auto simp: coded_out_def)
    qed
    then have c6: "coded_out coded hdr pre lst (xs @ x) s6"
      using coded_out_cong [of s6 s4] by (simp add: s6_def out_bytes_def delivered_def pending_def)
    have o6: "out_inv s6"
    proof -
      have "out_inv y" using oy(8) s3(2) by simp
      then have "out_inv s4" using s4(3,4,7,8) by (intro out_inv_frame [of y s4]) (simp_all add: out_inv_def)
      then show ?thesis by (simp add: s6_def out_inv_def out_ok_def)
    qed
    have "stream_ok env coded hdr pre (xs @ x) s6"
    proof -
      have "crc32 s6 = crc_field (xs @ x)" "adler32 s6 = adler_field (xs @ x)" "checksum_set s6"
        using f4 by (simp_all add: s6_def w_def)
      moreover have "level s6 = level s" "dict_len s6 = dict_len s" "strategy s6 = strategy s" "len_out s6 = len_out s"
        "status s6 = (if lst then NX_BFINAL_ST else NX_DEFLATE_ST)" "need_stored_block s6 = 0" "tebc s6 = tebc s3" "used_out s6 = used_out s3"
        using f4 fw sy s4(6,8) oy(2,3) by (simp_all add: s6_def)
      moreover have "level s \<noteq> 0" "dict_len s = 0" "strategy s \<in> {Z_FIXED, Z_DEFAULT_STRATEGY}" using assms(3) by (simp_all add: stream_ok_def)
      moreover have "(status s6 = NX_BFINAL_ST) = lst" using calculation(8) by (simp add: status_codes)
      moreover have "lst \<Longrightarrow> unsent s6 = []" using in6(2) by (simp add: lst_def)
      ultimately show ?thesis using in6(1) o6 c6 F(9) s3(6) unfolding stream_ok_def by simp
    qed
    then have "next_ok env coded hdr pre xs s (Buffers 0 s6 c')"
      using n in6 f4 fw sy unfolding next_ok_def df_next.case
      by (intro exI [of _ n]) (simp add: s6_def x_def lst_def NX_DEFLATE_ST_def NX_BFINAL_ST_def)
    then show ?thesis using that step by blast
  qed
qed

end
