(* ===== verification/DeflateLoop.thy ===== *)
theory DeflateLoop
  imports DeflateStored
begin

text \<open>
  The end of a deflate stream and the main loop of \<^verbatim>\<open>nx_deflate\<close>: with an accelerator that keeps the contract, the loop
  ends, and what it leaves is a stream that encodes the input that left it, or a complete one.
\<close>

section \<open>Complete streams\<close>

text \<open>The trailer for the data \<open>D\<close>; the CRC-32 is sent low byte first.\<close>

definition trailer_of :: "nat \<Rightarrow> u8 list \<Rightarrow> u8 list" where
  "trailer_of w D =
     (if w = HEADER_GZIP then be32 (crc_field D) @ le32 (word_of_nat (length D))
      else if w = HEADER_ZLIB then be32 (adler_field D) else [])"

text \<open>Header, blocks that encode \<open>D\<close> up to the final one, padding to a whole byte, and trailer.\<close>

definition complete :: "coding \<Rightarrow> u8 list \<Rightarrow> nat \<Rightarrow> u8 list \<Rightarrow> u8 list \<Rightarrow> bool" where
  "complete coded hdr w D ws \<longleftrightarrow>
     (\<exists>body B p. ws = hdr @ body @ trailer_of w D \<and> byte_bits body = B @ p \<and> length p < 8 \<and> encodes coded True B D)"

definition closed_ok :: "coding \<Rightarrow> u8 list \<Rightarrow> u8 list \<Rightarrow> u8 list \<Rightarrow> nx_def \<Rightarrow> bool" where
  "closed_ok coded hdr pre D s \<longleftrightarrow>
     status s = NX_TRAILER_ST \<and> out_inv s \<and> next_in s = [] \<and> used_in s = 0 \<and> unsent s = []
     \<and> level s \<noteq> 0 \<and> dict_len s = 0 \<and> need_stored_block s = 0 \<and> strategy s \<in> {Z_FIXED, Z_DEFAULT_STRATEGY}
     \<and> complete coded hdr (wrap s) D (pre @ out_bytes s)"

lemma sent_bits_pad:
  assumes "t < 8"
  obtains p where "byte_bits ws = sent_bits t ws @ p" and "length p < 8"
proof -
  define L where "L = (if t = 0 then 8 * length ws else 8 * (length ws - 1) + t)"
  have "byte_bits ws = sent_bits t ws @ drop L (byte_bits ws)" by (simp add: sent_bits_def valid_bits_def L_def)
  moreover have "length (drop L (byte_bits ws)) < 8" using assms by (cases ws) (auto simp: L_def)
  ultimately show ?thesis using that by blast
qed

lemma coded_complete:
  assumes "coded_out coded hdr pre True D s" and "tebc s < 8"
  shows "complete coded hdr w D (pre @ out_bytes s @ trailer_of w D)"
proof -
  obtain B where B: "sent_bits (tebc s) (pre @ out_bytes s) = byte_bits hdr @ B" "encodes coded True B D"
    using assms(1) by (auto simp: coded_out_def)
  define ws where "ws = pre @ out_bytes s"
  obtain p where p: "byte_bits ws = byte_bits hdr @ B @ p" "length p < 8"
    using sent_bits_pad [OF assms(2), of ws] B(1) unfolding ws_def by (metis append.assoc)
  have "byte_bits (take (length hdr) ws) = byte_bits hdr"
    using p(1) by (simp flip: take_byte_bits)
  then have h: "take (length hdr) ws = hdr" by (metis bytes_of_byte_bits)
  have "byte_bits (drop (length hdr) ws) = B @ p" using p(1) by (simp flip: drop_byte_bits)
  moreover have "ws = hdr @ drop (length hdr) ws" using h by (metis append_take_drop_id)
  ultimately show ?thesis
    unfolding complete_def using p(2) B(2)
    by (intro exI [of _ "drop (length hdr) ws"] exI [of _ B] exI [of _ p]) (simp add: ws_def)
qed

section \<open>The state in the loop\<close>

definition live :: "df_env \<Rightarrow> coding \<Rightarrow> u8 list \<Rightarrow> u8 list \<Rightarrow> u8 list \<Rightarrow> nx_def \<Rightarrow> bool" where
  "live env coded hdr pre D s \<longleftrightarrow>
     (\<exists>xs. stream_ok env coded hdr pre xs s \<and> D = xs @ unsent s) \<or> closed_ok coded hdr pre D s"

lemma live_fields:
  assumes "live env coded hdr pre D s"
  shows "out_inv s" "level s \<noteq> 0" "dict_len s = 0" "strategy s \<in> {Z_FIXED, Z_DEFAULT_STRATEGY}"
    "status s \<in> {NX_DEFLATE_ST, NX_BFINAL_ST, NX_TRAILER_ST}" "status s \<noteq> NX_DEFLATE_ST \<Longrightarrow> unsent s = []"
    "next_in s = [] \<and> used_in s = 0 \<longleftrightarrow> unsent s = []" "need_stored_block s \<le> length (unsent s)"
    "length (unsent s) = used_in s + length (next_in s)"
proof -
  have "out_inv s \<and> level s \<noteq> 0 \<and> dict_len s = 0 \<and> strategy s \<in> {Z_FIXED, Z_DEFAULT_STRATEGY}
    \<and> status s \<in> {NX_DEFLATE_ST, NX_BFINAL_ST, NX_TRAILER_ST} \<and> (status s \<noteq> NX_DEFLATE_ST \<longrightarrow> unsent s = [])
    \<and> (next_in s = [] \<and> used_in s = 0 \<longleftrightarrow> unsent s = []) \<and> need_stored_block s \<le> length (unsent s)
    \<and> length (unsent s) = used_in s + length (next_in s)"
    using assms unfolding live_def
  proof (elim disjE exE conjE)
    fix xs
    assume s: "stream_ok env coded hdr pre xs s"
    show ?thesis
      using s unsent_Nil [OF stream_ok_fields(1) [OF s]] length_unsent [OF stream_ok_fields(1) [OF s]]
      unfolding stream_ok_def by blast
  qed (simp add: closed_ok_def)
  then show "out_inv s" "level s \<noteq> 0" "dict_len s = 0" "strategy s \<in> {Z_FIXED, Z_DEFAULT_STRATEGY}"
    "status s \<in> {NX_DEFLATE_ST, NX_BFINAL_ST, NX_TRAILER_ST}" "status s \<noteq> NX_DEFLATE_ST \<Longrightarrow> unsent s = []"
    "next_in s = [] \<and> used_in s = 0 \<longleftrightarrow> unsent s = []" "need_stored_block s \<le> length (unsent s)"
    "length (unsent s) = used_in s + length (next_in s)" by blast+
qed

lemma live_DEFLATE:
  assumes "live env coded hdr pre D s" and "status s \<noteq> NX_TRAILER_ST"
  obtains xs where "stream_ok env coded hdr pre xs s" and "D = xs @ unsent s"
  using assms by (auto simp: live_def closed_ok_def)

text \<open>Fields that the invariant does not see.\<close>

lemma stream_ok_cong:
  assumes "stream_ok env coded hdr pre xs s" and "same_inp s s'" and "but_io s' = but_io s" and "status s' = status s"
    and "out_inv s'" and "coded_out coded hdr pre (status s = NX_BFINAL_ST) xs s'"
    and "status s = NX_DEFLATE_ST \<longrightarrow> 0 < tebc s' \<longrightarrow> 0 < used_out s'"
  shows "stream_ok env coded hdr pre xs s'"
  using assms(1,4-7) but_io_fields [OF assms(3)] same_inp_ok [OF assms(2)] by (simp add: stream_ok_def)

lemma stream_ok_invoke:
  assumes "stream_ok env coded hdr pre xs s"
  shows "stream_ok env coded hdr pre xs (s\<lparr>invoke_cnt := i\<rparr>)"
proof (rule stream_ok_cong [OF assms])
  show "out_inv (s\<lparr>invoke_cnt := i\<rparr>)" using stream_ok_fields(2) [OF assms] by (simp add: out_inv_def out_ok_def)
  show "coded_out coded hdr pre (status s = NX_BFINAL_ST) xs (s\<lparr>invoke_cnt := i\<rparr>)"
    using stream_ok_fields(4) [OF assms] by (simp add: coded_out_def out_bytes_def delivered_def pending_def)
qed (use assms in \<open>simp_all add: stream_ok_def\<close>)

lemma unsent_invoke [simp]: "unsent (s\<lparr>invoke_cnt := i\<rparr>) = unsent s"
  by (rule in_ok_cong) simp_all

lemma live_invoke: "live env coded hdr pre D s \<Longrightarrow> live env coded hdr pre D (s\<lparr>invoke_cnt := i\<rparr>)"
  unfolding live_def
  by (auto simp: stream_ok_invoke closed_ok_def out_inv_def out_ok_def out_bytes_def delivered_def pending_def)

section \<open>The end of the stream\<close>

lemma trailer_ok:
  assumes st: "status s = NX_BFINAL_ST" and inv: "out_inv s" and one: "used_out s = 0 \<or> avail_out s = 0" "cur_out s = 0" "used_out s \<le> 5"
    and inp: "in_ok env D s" "unsent s = []" and coded: "coded_out coded hdr pre True D s"
    and sums: "crc32 s = crc_field D" "adler32 s = adler_field D"
    and rest: "level s \<noteq> 0" "dict_len s = 0" "need_stored_block s = 0" "strategy s \<in> {Z_FIXED, Z_DEFAULT_STRATEGY}"
  obtains s' k where "nx_compress_append_trailer s = Some (s', k)" and "closed_ok coded hdr pre D (s'\<lparr>status := NX_TRAILER_ST\<rparr>)"
    and "wrap s' = wrap s" and "flush s' = flush s"
proof -
  have u: "used_in s = 0" "next_in s = []" using unsent_Nil [OF inp(1)] inp(2) by blast+
  have tr: "trailer_bytes s = trailer_of (wrap s) D"
    using sums inp(1) u(1) by (simp add: trailer_bytes_def trailer_of_def in_ok_def)
  have ok: "out_ok s" "length (fifo_out s) = len_out s" "16 \<le> len_out s div 2" "tebc s < 8" using inv by (simp_all add: out_inv_def)
  have lt: "length (trailer_bytes s) \<le> 8" by (simp add: trailer_bytes_def be32_def le32_def)
  have r: "room (length (trailer_bytes s)) s"
    using ok one lt unfolding room_def by auto
  obtain s1 k where s1: "nx_compress_append_trailer s = Some (s1, k)" "emits (trailer_bytes s) 0 s s1"
    by (rule append_trailer_emits [OF r])
  have e: "out_bytes s1 = out_bytes s @ trailer_of (wrap s) D" "room 0 s1" "length (fifo_out s1) = length (fifo_out s)" "same_rest s s1"
    using s1(2) r by (auto simp: emits_def tr)
  obtain ob n a t f v h where f: "s1 = s\<lparr>obuf := ob, next_out := n, avail_out := a, total_out := t, fifo_out := f, used_out := v, header_len := h\<rparr>"
    using e(4) by (auto simp: same_rest_def)
  define s2 where "s2 = s1\<lparr>status := NX_TRAILER_ST\<rparr>"
  have o2: "out_bytes s2 = out_bytes s1" by (simp add: s2_def out_bytes_def delivered_def pending_def)
  have i2: "out_inv s2"
    using e(2,3) ok one(2) by (simp add: s2_def out_inv_def out_ok_def room_def f)
  have n2: "unsent s2 = []" "next_in s2 = []" "used_in s2 = 0" "wrap s2 = wrap s"
    using inp(2) u in_ok_cong(2) [of s2 s] by (simp_all add: s2_def f)
  have "complete coded hdr (wrap s2) D (pre @ out_bytes s2)"
    using coded_complete [OF coded ok(4), of "wrap s"] by (simp add: o2 e(1) n2(4))
  then have "closed_ok coded hdr pre D s2"
    using i2 n2 rest unfolding closed_ok_def by (simp add: s2_def f)
  then show ?thesis using that [OF s1(1)] by (simp add: s2_def f)
qed

lemma stream_end_ok:
  assumes live: "live env coded hdr pre D s" and s: "used_out s = 0" "unsent s = []"
  obtains rc s' where "nx_stream_end s = Some (rc, s')" and "rc \<in> {Z_OK, Z_STREAM_END}" and "closed_ok coded hdr pre D s'"
    and "wrap s' = wrap s" and "rc = Z_STREAM_END \<Longrightarrow> used_out s' = 0" and "flush s' = flush s"
proof (cases "status s = NX_TRAILER_ST")
  case True
  then have "closed_ok coded hdr pre D s" using live by (auto simp: live_def stream_ok_def status_codes)
  moreover have "nx_stream_end s = Some (Z_STREAM_END, s)"
    using True s by (simp add: nx_stream_end_def status_codes)
  ultimately show ?thesis using that s by blast
next
  case False
  obtain xs where ok: "stream_ok env coded hdr pre xs s" "D = xs" using live_DEFLATE [OF live False] s(2) by auto
  note F = stream_ok_fields [OF ok(1) [folded ok(2)]]
  have rest: "level s \<noteq> 0" "dict_len s = 0" "need_stored_block s = 0" "strategy s \<in> {Z_FIXED, Z_DEFAULT_STRATEGY}"
    using ok(1) s(2) by (simp_all add: stream_ok_def)
  have "\<exists>s1. (if status s = NX_DEFLATE_ST
          then map_option (\<lambda>(s, _). s\<lparr>status := NX_BFINAL_ST\<rparr>) (append_spanning_flush Z_SYNC_FLUSH 0 True s) else Some s) = Some s1
      \<and> status s1 = NX_BFINAL_ST \<and> out_inv s1 \<and> (used_out s1 = 0 \<or> avail_out s1 = 0) \<and> cur_out s1 = 0 \<and> used_out s1 \<le> 5
      \<and> in_ok env D s1 \<and> unsent s1 = [] \<and> coded_out coded hdr pre True D s1 \<and> but_io s1 = but_io s"
  proof (cases "status s = NX_DEFLATE_ST")
    case True
    have te: "tebc s = 0" using F(5) True s(1) by simp
    have co: "coded_out coded hdr pre False D s" using F(4) True by (simp add: status_codes)
    obtain s1 n where s1: "append_spanning_flush Z_SYNC_FLUSH (tebc s) True s = Some (s1, n)" "coded_out coded hdr pre True D s1" "out_inv s1"
      "out_frame s s1" "0 < tebc s1 \<longrightarrow> 0 < used_out s1" "0 < used_out s1 \<Longrightarrow> tebc s1 = 0 \<Longrightarrow> avail_out s1 = 0"
      "Z_SYNC_FLUSH \<noteq> Z_PARTIAL_FLUSH \<Longrightarrow> tebc s1 = 0"
      by (rule add_flush [OF F(2) s(1) _ co, of Z_SYNC_FLUSH True]) (use te in \<open>auto simp: flush_codes\<close>)
    have t1: "tebc s1 = 0" using s1(7) by (simp add: flush_codes)
    have one: "used_out s1 = 0 \<or> avail_out s1 = 0" using s1(6) t1 by (cases "used_out s1") auto
    have cu: "cur_out s1 = 0" by (rule append_spanning_stop(1) [OF s1(1) s(1)]) (use F(6) s in simp)
    have le: "used_out s1 \<le> 5"
    proof -
      have o: "out_ok s" "cur_out s + 5 \<le> length (fifo_out s)" using F(2,3,6) s by (auto simp: out_inv_def)
      obtain v where v: "append_spanning_flush Z_SYNC_FLUSH 0 True s = Some (v, stored_bytes 0)" "out_frame s v"
        "next_out v + used_out v = next_out s + stored_bytes 0"
        by (rule append_spanning_sync [OF o(1) s(1) o(2), of 0 Z_SYNC_FLUSH True]) auto
      then show ?thesis using s1(1) te by (simp add: out_frame_def stored_bytes_def)
    qed
    define s2 where "s2 = s1\<lparr>status := NX_BFINAL_ST\<rparr>"
    have "same_inp s s2" using same_inp_frame [OF s1(4)] by (simp add: s2_def same_inp_def)
    then have "in_ok env D s2" "unsent s2 = []" using same_inp_ok F(1) s(2) by simp_all
    moreover have "coded_out coded hdr pre True D s2"
      using s1(2) by (simp add: s2_def coded_out_def out_bytes_def delivered_def pending_def)
    moreover have "out_inv s2" using s1(3) by (simp add: s2_def out_inv_def out_ok_def)
    moreover have "but_io s2 = but_io s" using but_io_frame [OF s1(4)] by (simp add: s2_def)
    ultimately show ?thesis
      using True s1(1) one te cu le by (intro exI [of _ s2]) (auto simp: s2_def)
  next
    case no: False
    then have "status s = NX_BFINAL_ST" using ok(1) by (auto simp: stream_ok_def)
    then show ?thesis using F s no by (intro exI [of _ s]) simp
  qed
  then obtain s1 where s1: "(if status s = NX_DEFLATE_ST
          then map_option (\<lambda>(s, _). s\<lparr>status := NX_BFINAL_ST\<rparr>) (append_spanning_flush Z_SYNC_FLUSH 0 True s) else Some s) = Some s1"
    "status s1 = NX_BFINAL_ST" "out_inv s1" "used_out s1 = 0 \<or> avail_out s1 = 0" "cur_out s1 = 0" "used_out s1 \<le> 5"
    "in_ok env D s1" "unsent s1 = []" "coded_out coded hdr pre True D s1" "but_io s1 = but_io s" by blast
  note f1 = but_io_fields [OF s1(10)]
  obtain s2 k where s2: "nx_compress_append_trailer s1 = Some (s2, k)" "closed_ok coded hdr pre D (s2\<lparr>status := NX_TRAILER_ST\<rparr>)"
    "wrap s2 = wrap s1" "flush s2 = flush s1"
    by (rule trailer_ok [OF s1(2-9)]) (use f1 F(7,8) rest in \<open>simp_all\<close>)
  define s3 where "s3 = s2\<lparr>status := NX_TRAILER_ST\<rparr>"
  define rc where "rc = (if used_out s3 = 0 \<and> (status s3 = NX_TRAILER_ST \<or> flush s3 = Z_FINISH) then Z_STREAM_END else Z_OK)"
  have "nx_stream_end s = Some (rc, s3)"
    unfolding nx_stream_end_def s1(1) Option.bind.bind_lunit if_P [OF s1(2)] rc_def by (simp add: s2(1) s3_def)
  moreover have "rc \<in> {Z_OK, Z_STREAM_END}" "rc = Z_STREAM_END \<Longrightarrow> used_out s3 = 0"
    by (auto simp: rc_def Z_OK_def Z_STREAM_END_def split: if_splits)
  moreover have "wrap s3 = wrap s" "flush s3 = flush s" using s2(3,4) f1(2,5) by (simp_all add: s3_def)
  ultimately show ?thesis using that [of rc s3] s2(2) unfolding s3_def by blast
qed

section \<open>The steps of the loop\<close>

lemma closed_status_iff: "status s \<in> {NX_DEFLATE_ST, NX_BFINAL_ST, NX_TRAILER_ST} \<Longrightarrow> closed_status s \<longleftrightarrow> status s \<noteq> NX_DEFLATE_ST"
  by (auto simp: closed_status_def status_codes)

text \<open>Draining the overflow buffer.\<close>

lemma live_drain:
  assumes live: "live env coded hdr pre D s" and some: "0 < used_out s" "0 < avail_out s"
  obtains s' where "nx_copy_fifo_out_to_nxstrm_out (closed_status s) s = Some (s', True)" and "live env coded hdr pre D s'"
    and "out_frame s s'" and "unsent s' = unsent s" and "0 < used_out s' \<Longrightarrow> avail_out s' = 0"
proof -
  note L = live_fields [OF live]
  note cl = closed_status_iff [OF L(5)]
  obtain s' where s': "nx_copy_fifo_out_to_nxstrm_out (closed_status s) s = Some (s', True)" "out_inv s'" "out_frame s s'"
    "closed_status s \<Longrightarrow> out_bytes s' = out_bytes s \<and> tebc s' = tebc s"
    "0 < used_out s' \<Longrightarrow> avail_out s' = 0"
    by (rule drain_ok [OF L(1) some, of "closed_status s"]) (rule that)
  have unclosed: "coded_out coded hdr pre False xs s' \<and> (0 < tebc s' \<longrightarrow> 0 < used_out s')"
    if "\<not> closed_status s" "coded_out coded hdr pre False xs s" for xs
  proof -
    note o = that
    obtain v where "nx_copy_fifo_out_to_nxstrm_out (closed_status s) s = Some (v, True)"
      "\<not> closed_status s \<Longrightarrow> coded_out coded hdr pre False xs s \<Longrightarrow> coded_out coded hdr pre False xs v \<and> (0 < tebc v \<longrightarrow> 0 < used_out v)"
      by (rule drain_ok [OF L(1) some, of "closed_status s" coded hdr pre xs]) (rule that)
    then show ?thesis using o s'(1) by simp
  qed
  note f = out_frame_fields [OF s'(3)] but_io_fields [OF but_io_frame [OF s'(3)]]
  have si: "same_inp s s'" by (rule same_inp_frame [OF s'(3)])
  have u: "unsent s' = unsent s" using same_inp_ok(2) [OF si] .
  have "live env coded hdr pre D s'"
    using live [unfolded live_def]
  proof (elim disjE exE conjE)
    fix xs
    assume ok: "stream_ok env coded hdr pre xs s" and D: "D = xs @ unsent s"
    have co: "coded_out coded hdr pre (status s = NX_BFINAL_ST) xs s' \<and> (status s = NX_DEFLATE_ST \<longrightarrow> 0 < tebc s' \<longrightarrow> 0 < used_out s')"
    proof (cases "status s = NX_DEFLATE_ST")
      case True
      then have "\<not> closed_status s" "coded_out coded hdr pre False xs s"
        using cl stream_ok_fields(4) [OF ok] by (simp_all add: status_codes)
      then show ?thesis using unclosed True by (simp add: status_codes)
    next
      case False
      then have "out_bytes s' = out_bytes s \<and> tebc s' = tebc s" using s'(4) cl by blast
      then show ?thesis using stream_ok_fields(4) [OF ok] coded_out_cong [of s' s] False by simp
    qed
    have "stream_ok env coded hdr pre xs s'"
      by (rule stream_ok_cong [OF ok si but_io_frame [OF s'(3)] f(1) s'(2) conjunct1 [OF co] conjunct2 [OF co]])
    then show ?thesis unfolding live_def using D u by metis
  next
    assume c: "closed_ok coded hdr pre D s"
    then have "closed_status s" by (simp add: closed_ok_def closed_status_def status_codes)
    then have "out_bytes s' = out_bytes s" using s'(4) by blast
    then have "closed_ok coded hdr pre D s'"
      using c s'(2) f u si by (simp add: closed_ok_def same_inp_def)
    then show ?thesis unfolding live_def by blast
  qed
  then show ?thesis by (rule that [OF s'(1) _ s'(3) u s'(5)])
qed

text \<open>The compression step.\<close>

lemma live_step:
  assumes eng: "deflate_engine env coded" and cfg: "config_ok env" and live: "live env coded hdr pre D s"
    and room: "\<not> (0 < avail_out s \<and> 0 < used_out s)" "status s = NX_DEFLATE_ST \<Longrightarrow> 0 < avail_out s"
  obtains i c' where "unsent s = []" and "deflate_step env cnt s c = Some (Buffers 0 (s\<lparr>invoke_cnt := i\<rparr>) c')"
    | xs x where "unsent s \<noteq> []" and "deflate_step env cnt s c = Some x" and "stream_ok env coded hdr pre xs s" and "D = xs @ unsent s"
      and "status s = NX_DEFLATE_ST" and "next_ok env coded hdr pre xs s x"
proof -
  note L = live_fields [OF live]
  have strat: "strategy s = Z_FIXED \<or> strategy s \<noteq> Z_FIXED \<and> strategy s = Z_DEFAULT_STRATEGY"
    "\<not> (strategy s = Z_DEFAULT_STRATEGY \<and> 0 < dict_len s \<and> length (next_in s) < DEF_DICT_THRESHOLD)"
    using L(3,4) by (auto simp: Z_FIXED_def Z_DEFAULT_STRATEGY_def)
  have plain: "\<exists>fc c1. fc \<noteq> GZIP_FC_WRAP \<and> deflate_step env cnt s c = compress_step env fc cnt s c1" if "need_stored_block s = 0"
  proof (cases "strategy s = Z_FIXED")
    case True
    then have "deflate_step env cnt s c = compress_step env GZIP_FC_COMPRESS_RESUME_FHT cnt s c"
      using that L(2) by (simp add: deflate_step_def)
    then show ?thesis by (intro exI [of _ GZIP_FC_COMPRESS_RESUME_FHT] exI [of _ c]) (simp add: fc_codes)
  next
    case False
    then have "deflate_step env cnt s c = compress_step env GZIP_FC_COMPRESS_RESUME_DHT_COUNT cnt s
        (c\<lparr>p_dht := df_table env (invoke_cnt s = 0) (p_jobs c)\<rparr>)"
      using that L(2,3) strat by (simp add: deflate_step_def)
    then show ?thesis
      by (intro exI [of _ GZIP_FC_COMPRESS_RESUME_DHT_COUNT] exI [of _ "c\<lparr>p_dht := df_table env (invoke_cnt s = 0) (p_jobs c)\<rparr>"])
        (simp add: fc_codes)
  qed
  show ?thesis
  proof (cases "unsent s = []")
    case True
    then have n: "need_stored_block s = 0" "next_in s = [] \<and> used_in s = 0" using L(7,8) by auto
    obtain fc c1 where "deflate_step env cnt s c = compress_step env fc cnt s c1" using plain [OF n(1)] by blast
    then show ?thesis
      using that(1) [OF True] n(2) by (simp add: compress_step_def nx_compress_block_def libnx_codes)
  next
    case False
    have st: "status s = NX_DEFLATE_ST" using L(6) False by blast
    have a: "0 < avail_out s" "used_out s = 0" using room st by auto
    obtain xs where ok: "stream_ok env coded hdr pre xs s" "D = xs @ unsent s"
      using live_DEFLATE [OF live] st by (auto simp: status_codes)
    show ?thesis
    proof (cases "need_stored_block s = 0")
      case True
      obtain fc c1 where f: "fc \<noteq> GZIP_FC_WRAP" "deflate_step env cnt s c = compress_step env fc cnt s c1" using plain [OF True] by blast
      obtain x where "compress_step env fc cnt s c1 = Some x" "next_ok env coded hdr pre xs s x"
        by (rule compress_step_ok [OF eng cfg ok(1) True st a(2,1) False f(1)])
      then show ?thesis using that(2) [OF False _ ok st] f(2) by simp
    next
      case no: False
      obtain x where "deflate_step env cnt s c = Some x" "next_ok env coded hdr pre xs s x"
        by (rule stored_step_ok [OF eng cfg ok(1) _ st a(2,1)]) (use no in auto)
      then show ?thesis using that(2) [OF False _ ok st] by simp
    qed
  qed
qed

section \<open>The loop\<close>

text \<open>How a call may end: an error, or a stream that can go on, or that is complete and delivered.\<close>

definition call_end :: "df_env \<Rightarrow> coding \<Rightarrow> u8 list \<Rightarrow> u8 list \<Rightarrow> u8 list \<Rightarrow> nx_def \<Rightarrow> int \<Rightarrow> nx_def \<Rightarrow> bool" where
  "call_end env coded hdr pre D s rc s' \<longleftrightarrow>
     rc \<in> {Z_STREAM_ERROR, Z_MEM_ERROR}
     \<or> rc \<in> {Z_OK, Z_BUF_ERROR, Z_STREAM_END} \<and> live env coded hdr pre D s' \<and> wrap s' = wrap s
       \<and> (status s' \<noteq> NX_DEFLATE_ST \<longrightarrow> flush s = Z_FINISH)
       \<and> (rc = Z_STREAM_END \<longrightarrow> status s' = NX_TRAILER_ST \<and> used_out s' = 0)"

lemma call_end_same: "call_end env coded hdr pre D s1 rc s' \<Longrightarrow> flush s1 = flush s \<Longrightarrow> wrap s1 = wrap s \<Longrightarrow> call_end env coded hdr pre D s rc s'"
  by (simp add: call_end_def)

definition weight :: "bool \<Rightarrow> nx_def \<Rightarrow> nat" where
  "weight at_s1 s = 8 * length (unsent s) + (if need_stored_block s = 0 then 4 else 0)
     + (if at_s1 then 1 else if 0 < avail_out s \<and> 0 < used_out s then 2 else 0)"

lemma caching_ok:
  assumes cfg: "config_ok env" and live: "live env coded hdr pre D s" and st: "status s = NX_DEFLATE_ST"
    and small: "used_in s + length (next_in s) \<le> df_cache_threshold env"
  obtains s1 s' where "fifo_in_alloc_check env s = (True, s1)" and "cache_input s1 = Some s'" and "live env coded hdr pre D s'"
    and "wrap s' = wrap s" and "status s' = NX_DEFLATE_ST"
proof -
  obtain xs where ok: "stream_ok env coded hdr pre xs s" "D = xs @ unsent s"
    using live_DEFLATE [OF live] st by (auto simp: status_codes)
  have al: "df_alloc_ok env" using cfg by (simp add: config_ok_def)
  obtain s1 m where s1: "fifo_in_alloc_check env s = (True, s1)" "fifo_in s1 = Some m" "in_ok env xs s1" "unsent s1 = unsent s"
    "but_inp s1 = but_inp s" "next_in s1 = next_in s" "used_in s1 = used_in s"
    by (rule fifo_in_alloc_ok [OF stream_ok_fields(1) [OF ok(1)] al]) (rule that)
  have small1: "used_in s1 + length (next_in s1) \<le> df_cache_threshold env" using small s1(6,7) by simp
  obtain s' where s': "cache_input s1 = Some s'" "in_ok env xs s'" "unsent s' = unsent s1" "but_inp s' = but_inp s1"
    by (rule cache_input_ok [OF s1(3,2) small1]) (rule that)
  have b: "but_inp s' = but_inp s" using s'(4) s1(5) by simp
  note f = but_inp_fields [OF b]
  have o: "out_bytes s' = out_bytes s" "out_inv s'"
    using f stream_ok_fields(2) [OF ok(1)] by (simp_all add: out_bytes_def delivered_def pending_def out_inv_def out_ok_def)
  have "stream_ok env coded hdr pre xs s'"
    using ok(1) s'(2,3) s1(4) f o coded_out_cong [of s' s] by (simp add: stream_ok_def)
  then have "live env coded hdr pre D s'" using ok(2) s'(3) s1(4) unfolding live_def by metis
  then show ?thesis by (rule that [OF s1(1) s'(1)]) (use f st in simp_all)
qed

lemma buffers_end:
  assumes live: "live env coded hdr pre D s" and e: "used_out s = 0" "next_in s = []" "used_in s = 0"
    and fl: "status s \<noteq> NX_DEFLATE_ST \<longrightarrow> flush s = Z_FINISH"
  shows "\<exists>rc s' c'. (if flush s \<noteq> Z_FINISH then Some (Z_OK, s, c) else map_option (\<lambda>(rc, s). (rc, s, c)) (nx_stream_end s)) = Some (rc, s', c')
    \<and> call_end env coded hdr pre D s rc s'"
proof (cases "flush s = Z_FINISH")
  case True
  have "unsent s = []" using live_fields(7) [OF live] e by blast
  obtain rc s' where s': "nx_stream_end s = Some (rc, s')" "rc \<in> {Z_OK, Z_STREAM_END}" "closed_ok coded hdr pre D s'" "wrap s' = wrap s"
    "rc = Z_STREAM_END \<Longrightarrow> used_out s' = 0" "flush s' = flush s"
    by (rule stream_end_ok [OF live e(1) \<open>unsent s = []\<close>]) (rule that)
  have "status s' = NX_TRAILER_ST" using s'(3) by (simp add: closed_ok_def)
  then have "call_end env coded hdr pre D s rc s'"
    using s' True unfolding call_end_def live_def by blast
  then show ?thesis using s'(1) True by auto
next
  case False
  then have "call_end env coded hdr pre D s Z_OK s"
    using live fl by (auto simp: call_end_def Z_OK_def Z_STREAM_END_def)
  then show ?thesis using False by auto
qed

lemma no_goto: "0 < need_stored_block s \<Longrightarrow> deflate_step env cnt s c \<noteq> Some (Goto_s1 cnt' s' c')"
  by (auto simp: deflate_step_def split: option.splits)

lemma deflate_loop_ends:
  assumes eng: "deflate_engine env coded" and cfg: "config_ok env"
    and live: "live env coded hdr pre D s" and fl: "status s \<noteq> NX_DEFLATE_ST \<longrightarrow> flush s = Z_FINISH"
    and len: "length (unsent s) < 2 ^ 32" and room: "status s = NX_DEFLATE_ST \<longrightarrow> 0 < avail_out s \<or> at_s1 \<and> 0 < used_out s"
  shows "\<exists>rc s' c'. deflate_loop env at_s1 cnt s c = Some (rc, s', c') \<and> call_end env coded hdr pre D s rc s'"
  using live fl len room
proof (induction "weight at_s1 s" arbitrary: at_s1 cnt s c rule: less_induct)
  case less
  note live = less.prems(1) and fl = less.prems(2) and len = less.prems(3) and room = less.prems(4)
  note L = live_fields [OF live]
  note cl = closed_status_iff [OF L(5)]
  have self: "call_end env coded hdr pre D s rc s" if "rc \<in> {Z_OK, Z_BUF_ERROR}" for rc
    using that live fl by (auto simp: call_end_def Z_OK_def Z_BUF_ERROR_def Z_STREAM_END_def)
  have err: "call_end env coded hdr pre D s Z_STREAM_ERROR s'" for s' by (simp add: call_end_def)
  have again: "\<exists>rc s' c'. deflate_loop env at_s1' cnt' s1 c1 = Some (rc, s', c') \<and> call_end env coded hdr pre D s rc s'"
    if "weight at_s1' s1 < weight at_s1 s" "live env coded hdr pre D s1" "flush s1 = flush s" "wrap s1 = wrap s"
      "status s1 \<noteq> NX_DEFLATE_ST \<longrightarrow> flush s = Z_FINISH" "length (unsent s1) \<le> length (unsent s)"
      "status s1 = NX_DEFLATE_ST \<longrightarrow> 0 < avail_out s1 \<or> at_s1' \<and> 0 < used_out s1" for at_s1' cnt' s1 c1
  proof -
    have f: "status s1 \<noteq> NX_DEFLATE_ST \<longrightarrow> flush s1 = Z_FINISH" "length (unsent s1) < 2 ^ 32" using that len by simp_all
    show ?thesis
      using less.hyps [OF that(1,2) f that(7), of cnt' c1] call_end_same [OF _ that(3,4)] by blast
  qed
  show ?case
  proof (cases at_s1)
    case True
    show ?thesis
    proof (cases "cnt + 1 = df_loop_max")
      case True
      then show ?thesis using \<open>at_s1\<close> err by (subst deflate_loop.simps) simp
    next
      case max: False
      show ?thesis
      proof (cases "0 < used_out s")
        case used: True
        show ?thesis
        proof (cases "0 < avail_out s")
          case av: True
          obtain s1 where s1: "nx_copy_fifo_out_to_nxstrm_out (closed_status s) s = Some (s1, True)" "live env coded hdr pre D s1"
            "out_frame s s1" "unsent s1 = unsent s" "0 < used_out s1 \<Longrightarrow> avail_out s1 = 0"
            by (rule live_drain [OF live used av]) (rule that)
          note f = out_frame_fields [OF s1(3)] but_io_fields(11) [OF but_io_frame [OF s1(3)]]
          have cs: "closed_status s1 = closed_status s" using f(1) by (simp add: closed_status_def)
          have step: "deflate_loop env at_s1 cnt s c
              = (if \<not> closed_status s \<and> avail_out s1 = 0 then Some (Z_OK, s1, c) else deflate_loop env False 0 s1 c)"
            using \<open>at_s1\<close> max used s1(1) cs by (subst deflate_loop.simps) simp
          show ?thesis
          proof (cases "\<not> closed_status s \<and> avail_out s1 = 0")
            case True
            have "call_end env coded hdr pre D s Z_OK s1"
              using s1(2) f fl by (auto simp: call_end_def Z_OK_def Z_STREAM_END_def)
            then show ?thesis using step True by simp
          next
            case False
            have "\<exists>rc s' c'. deflate_loop env False 0 s1 c = Some (rc, s', c') \<and> call_end env coded hdr pre D s rc s'"
            proof (rule again [OF _ s1(2)])
              show "weight False s1 < weight at_s1 s"
                using s1(4,5) f(6) \<open>at_s1\<close> by (auto simp: weight_def)
              show "status s1 = NX_DEFLATE_ST \<longrightarrow> 0 < avail_out s1 \<or> False \<and> 0 < used_out s1"
                using False cl f(1) by auto
            qed (use f fl s1(4) in auto)
            then show ?thesis by (simp only: step if_not_P [OF False])
          qed
        next
          case av: False
          have c0: "nx_copy_fifo_out_to_nxstrm_out (closed_status s) s = Some (s, False)"
            using av by (simp add: nx_copy_fifo_out_to_nxstrm_out_def)
          have step: "deflate_loop env at_s1 cnt s c
              = (if \<not> closed_status s then Some (Z_OK, s, c) else deflate_loop env False (cnt + 1) s c)"
            using \<open>at_s1\<close> max used c0 av by (subst deflate_loop.simps) simp
          show ?thesis
          proof (cases "closed_status s")
            case False
            then show ?thesis using step self [of Z_OK] by simp
          next
            case True
            have "\<exists>rc s' c'. deflate_loop env False (cnt + 1) s c = Some (rc, s', c') \<and> call_end env coded hdr pre D s rc s'"
              using True cl av fl \<open>at_s1\<close> by (intro again [OF _ live]) (auto simp: weight_def)
            then show ?thesis using step True by simp
          qed
        qed
      next
        case used: False
        have step: "deflate_loop env at_s1 cnt s c
            = (if next_in s = [] \<and> (flush s < Z_PARTIAL_FLUSH \<or> Z_FINISH < flush s) then Some (Z_BUF_ERROR, s, c)
               else deflate_loop env False (cnt + 1) s c)"
          using \<open>at_s1\<close> max used by (subst deflate_loop.simps) simp
        have "\<exists>rc s' c'. deflate_loop env False (cnt + 1) s c = Some (rc, s', c') \<and> call_end env coded hdr pre D s rc s'"
          using used room fl \<open>at_s1\<close> by (intro again [OF _ live]) (auto simp: weight_def)
        then show ?thesis using step self [of Z_BUF_ERROR] by simp
      qed
    qed
  next
    case s2: False
    define caching where "caching \<longleftrightarrow> (used_in s + length (next_in s)) mod 2 ^ 32 \<le> df_cache_threshold env \<and> flush s \<noteq> Z_SYNC_FLUSH
      \<and> flush s \<noteq> Z_PARTIAL_FLUSH \<and> flush s \<noteq> Z_FULL_FLUSH \<and> flush s \<noteq> Z_FINISH \<and> level s \<noteq> 0 \<and> dict_len s = 0"
    have step: "deflate_loop env at_s1 cnt s c =
       (if 0 < avail_out s \<and> 0 < used_out s then deflate_loop env True cnt s c
        else if caching then (case fifo_in_alloc_check env s of
              (ok, s) \<Rightarrow> if ok then map_option (\<lambda>s. (Z_OK, s, c)) (cache_input s) else Some (Z_MEM_ERROR, s, c))
        else if cnt + 1 = df_loop_max then Some (Z_STREAM_ERROR, s, c)
        else
        (case deflate_step env (cnt + 1) s c of
           None \<Rightarrow> None
         | Some (Return rc s c) \<Rightarrow> Some (rc, s, c)
         | Some (Goto_s1 cnt s c) \<Rightarrow> deflate_loop env True cnt s c
         | Some (Buffers cnt s c) \<Rightarrow>
             if used_out s = 0 \<and> next_in s = [] \<and> used_in s = 0 then
               (if flush s \<noteq> Z_FINISH then Some (Z_OK, s, c) else map_option (\<lambda>(rc, s). (rc, s, c)) (nx_stream_end s))
             else if avail_out s = 0 then Some (Z_OK, s, c)
             else deflate_loop env (0 < used_out s) cnt s c))"
      using s2 unfolding caching_def by (subst deflate_loop.simps) (simp only: if_False)
    show ?thesis
    proof (cases "0 < avail_out s \<and> 0 < used_out s")
      case True
      have "\<exists>rc s' c'. deflate_loop env True cnt s c = Some (rc, s', c') \<and> call_end env coded hdr pre D s rc s'"
        using True fl s2 by (intro again [OF _ live]) (auto simp: weight_def)
      then show ?thesis by (simp only: step if_P [OF True])
    next
      case drained: False
      note step1 = step [unfolded if_not_P [OF drained]]
      show ?thesis
      proof (cases caching)
        case True
        then have st: "status s = NX_DEFLATE_ST" using fl by (auto simp: caching_def)
        have "(used_in s + length (next_in s)) mod 2 ^ 32 = used_in s + length (next_in s)" using len L(9) by (intro mod_less) simp
        then have small: "used_in s + length (next_in s) \<le> df_cache_threshold env" using True by (simp add: caching_def)
        obtain s1 s' where s': "fifo_in_alloc_check env s = (True, s1)" "cache_input s1 = Some s'" "live env coded hdr pre D s'"
          "wrap s' = wrap s" "status s' = NX_DEFLATE_ST"
          by (rule caching_ok [OF cfg live st small])
        have "call_end env coded hdr pre D s Z_OK s'"
          using s'(3-5) by (simp add: call_end_def Z_OK_def Z_STREAM_END_def)
        then show ?thesis using s'(1,2) True step1 by simp
      next
        case nc: False
        show ?thesis
        proof (cases "cnt + 1 = df_loop_max")
          case True
          then show ?thesis using step1 nc err by simp
        next
          case False
          note step2 = step1 [unfolded if_not_P [OF nc] if_not_P [OF False]]
          have buffers: "\<exists>rc s' c'. (if used_out s1 = 0 \<and> next_in s1 = [] \<and> used_in s1 = 0 then
               (if flush s1 \<noteq> Z_FINISH then Some (Z_OK, s1, c1) else map_option (\<lambda>(rc, s). (rc, s, c1)) (nx_stream_end s1))
             else if avail_out s1 = 0 then Some (Z_OK, s1, c1)
             else deflate_loop env (0 < used_out s1) cnt' s1 c1) = Some (rc, s', c') \<and> call_end env coded hdr pre D s rc s'"
            if l1: "live env coded hdr pre D s1" and f1: "flush s1 = flush s" "wrap s1 = wrap s"
              and fl1: "status s1 \<noteq> NX_DEFLATE_ST \<longrightarrow> flush s = Z_FINISH" and u1: "length (unsent s1) \<le> length (unsent s)"
              and w1: "used_out s1 = 0 \<and> unsent s1 = [] \<or> avail_out s1 = 0 \<or> length (unsent s1) < length (unsent s)" for s1 c1 cnt'
          proof (cases "used_out s1 = 0 \<and> next_in s1 = [] \<and> used_in s1 = 0")
            case True
            have "status s1 \<noteq> NX_DEFLATE_ST \<longrightarrow> flush s1 = Z_FINISH" using fl1 f1 by simp
            note e = buffers_end [OF l1 conjunct1 [OF True] conjunct1 [OF conjunct2 [OF True]] conjunct2 [OF conjunct2 [OF True]] this, of c1]
            show ?thesis
              unfolding if_P [OF True] using e by (elim exE conjE) (intro exI conjI call_end_same [OF _ f1])
          next
            case no: False
            show ?thesis
            proof (cases "avail_out s1 = 0")
              case True
              have "call_end env coded hdr pre D s Z_OK s1"
                using l1 f1 fl1 by (auto simp: call_end_def Z_OK_def Z_STREAM_END_def)
              then show ?thesis unfolding if_not_P [OF no] if_P [OF True] by blast
            next
              case av: False
              have "length (unsent s1) < length (unsent s)" using w1 no av live_fields(7) [OF l1] by blast
              then have "weight (0 < used_out s1) s1 < weight at_s1 s" by (simp add: weight_def)
              then show ?thesis
                unfolding if_not_P [OF no] if_not_P [OF av] using f1 fl1 u1 l1 av by (intro again) auto
            qed
          qed
          show ?thesis
          proof (rule live_step [OF eng cfg live drained, of "cnt + 1" c])
            show "0 < avail_out s" if "status s = NX_DEFLATE_ST" using that room s2 by simp
          next
            fix i c'
            assume u: "unsent s = []" and ds: "deflate_step env (cnt + 1) s c = Some (Buffers 0 (s\<lparr>invoke_cnt := i\<rparr>) c')"
            have "used_out s = 0 \<or> avail_out s = 0" using drained by auto
            then show ?thesis
              unfolding step2 ds option.case df_next.case using u fl by (intro buffers live_invoke live) auto
          next
            fix xs x
            assume u: "unsent s \<noteq> []" and ds: "deflate_step env (cnt + 1) s c = Some x" and ok: "stream_ok env coded hdr pre xs s"
              and D: "D = xs @ unsent s" and st: "status s = NX_DEFLATE_ST" and nx: "next_ok env coded hdr pre xs s x"
            show ?thesis
            proof (cases x)
              case (Return rc s1 c1)
              then show ?thesis using step2 ds nx err by (simp add: next_ok_def)
            next
              case (Goto_s1 cnt1 s1 c1)
              have n: "stream_ok env coded hdr pre xs s1" "unsent s1 = unsent s" "0 < need_stored_block s1" "status s1 = NX_DEFLATE_ST"
                "used_out s1 = 0" "0 < avail_out s1" "flush s1 = flush s" "wrap s1 = wrap s"
                using nx by (simp_all add: next_ok_def Goto_s1)
              have "need_stored_block s = 0" using ds Goto_s1 no_goto by (cases "need_stored_block s") auto
              then have "weight True s1 < weight at_s1 s" using n(2,3) by (simp add: weight_def)
              moreover have "live env coded hdr pre D s1" using n(1,2) D unfolding live_def by metis
              ultimately show ?thesis
                unfolding step2 ds Goto_s1 option.case df_next.case using n by (intro again) auto
            next
              case (Buffers cnt1 s1 c1)
              obtain n where n: "0 < n" "n \<le> length (unsent s)" "stream_ok env coded hdr pre (xs @ take n (unsent s)) s1"
                "unsent s1 = drop n (unsent s)" "flush s1 = flush s" "wrap s1 = wrap s" "status s1 = NX_BFINAL_ST \<longrightarrow> flush s = Z_FINISH"
                using nx by (auto simp: next_ok_def Buffers)
              have "D = (xs @ take n (unsent s)) @ unsent s1" using D n(4) by simp
              then have "live env coded hdr pre D s1" using n(3) unfolding live_def by blast
              moreover have "status s1 \<noteq> NX_DEFLATE_ST \<longrightarrow> flush s = Z_FINISH" using n(3,7) by (auto simp: stream_ok_def)
              ultimately show ?thesis
                unfolding step2 ds Buffers option.case df_next.case using n by (intro buffers) auto
            qed
          qed
        qed
      qed
    qed
  qed
qed

end
