(* ===== verification/DeflateSession.thy ===== *)
theory DeflateSession
  imports DeflateLoop
begin

text \<open>
  Sequences of calls of \<^verbatim>\<open>nx_deflate\<close> on one stream: whatever the sizes of the pieces of input and of the output buffers, when the
  stream ends, the bytes delivered are a complete stream for the whole input.
\<close>

section \<open>A fresh stream\<close>

text \<open>As \<^verbatim>\<open>nx_deflateInit2_\<close> leaves it, perhaps with a gzip header set.\<close>

definition fresh_ok :: "df_env \<Rightarrow> nx_def \<Rightarrow> bool" where
  "fresh_ok env s \<longleftrightarrow>
     init_state s \<and> in_ok env [] s \<and> tebc s = 0 \<and> length (fifo_out s) = len_out s \<and> nx_stored_block_len + 5 \<le> len_out s div 2
     \<and> length (header_bytes s) \<le> len_out s \<and> crc32 s = INIT_CRC \<and> adler32 s = INIT_ADLER
     \<and> level s \<noteq> 0 \<and> dict_len s = 0 \<and> strategy s \<in> {Z_FIXED, Z_DEFAULT_STRATEGY} \<and> need_stored_block s = 0"

lemma coded_out_header:
  assumes "out_bytes s = hdr" and "tebc s = 0"
  shows "coded_out coded hdr [] False [] s"
  using assms encodes_Nil [of coded] by (auto simp: coded_out_def sent_bits_0)

lemma header_room:
  assumes "out_ok s" and "out_bytes s = hdr" and "next_out s + avail_out s = n" and "n \<noteq> length hdr"
  shows "0 < avail_out s \<or> 0 < used_out s"
  using assms length_out_bytes [OF assms(1)] by auto

lemma header_live:
  assumes fresh: "fresh_ok env s" and start: "next_out s = 0" "0 < avail_out s"
    and fit: "status s = NX_GZIP_INIT_ST \<Longrightarrow> avail_out s \<noteq> length (header_bytes s)"
  obtains s1 where "nx_deflate_add_header s = Some s1" and "stream_ok env coded (header_bytes s) [] [] s1" and "unsent s1 = unsent s"
    and "status s1 = NX_DEFLATE_ST" and "flush s1 = flush s" and "wrap s1 = wrap s" and "0 < avail_out s1 \<or> 0 < used_out s1"
proof -
  have F: "init_state s" "in_ok env [] s" "tebc s = 0" "length (fifo_out s) = len_out s" "nx_stored_block_len + 5 \<le> len_out s div 2"
    "length (header_bytes s) \<le> length (fifo_out s)" "crc32 s = crc_field []" "adler32 s = adler_field []" "level s \<noteq> 0" "dict_len s = 0"
    "strategy s \<in> {Z_FIXED, Z_DEFAULT_STRATEGY}" "need_stored_block s = 0"
    using fresh by (simp_all add: fresh_ok_def checksum_fields_Nil INIT_CRC_def INIT_ADLER_def)
  have I: "out_ok s" "used_out s = 0" "cur_out s = 0" using F(1) by (simp_all add: init_state_def)
  have o0: "out_bytes s = []" using start(1) I by (simp add: out_bytes_def delivered_def pending_def)
  have finish: "stream_ok env coded (header_bytes s) [] [] s1 \<and> unsent s1 = unsent s"
    if "same_inp s s1" "out_bytes s1 = header_bytes s" "out_ok s1" "length (fifo_out s1) = length (fifo_out s)" "cur_out s1 = 0" "tebc s1 = 0"
      "len_out s1 = len_out s" "crc32 s1 = crc_field []" "adler32 s1 = adler_field []" "level s1 = level s" "dict_len s1 = dict_len s"
      "strategy s1 = strategy s" "need_stored_block s1 = need_stored_block s" "status s1 = NX_DEFLATE_ST" for s1
  proof -
    have "coded_out coded (header_bytes s) [] False [] s1" by (rule coded_out_header [OF that(2,6)])
    moreover have "out_inv s1" using that F(4,5) by (simp add: out_inv_def nx_stored_block_len_def)
    ultimately show ?thesis
      using that F same_inp_ok [OF that(1)] unfolding stream_ok_def by (simp add: status_codes)
  qed
  consider "status s = NX_ZLIB_INIT_ST" | "status s = NX_GZIP_INIT_ST" | "status s = NX_RAW_INIT_ST"
    using F(1) by (auto simp: init_state_def)
  then show ?thesis
  proof cases
    case 1
    define u where "u = s\<lparr>header_len := length (header_bytes s)\<rparr>"
    have u: "out_ok u" "cur_out u = 0" "used_out u + length (header_bytes s) \<le> length (fifo_out u)" "out_bytes u = []"
      using I F(6) o0 by (simp_all add: u_def out_defs)
    define s1 where "s1 = (fifo_bytes (header_bytes s) u)\<lparr>adler32 := INIT_ADLER, zadler := INIT_ADLER, status := NX_DEFLATE_ST\<rparr>"
    have h: "nx_deflate_add_header s = Some s1" using add_header_zlib [OF F(1) 1 F(6)] by (simp add: s1_def u_def)
    note fb = fifo_bytes_out [OF u(1-3)]
    have "out_bytes s1 = header_bytes s" "out_ok s1" using fb u(4) by (simp_all add: s1_def out_defs)
    moreover have "same_inp s s1" by (simp add: s1_def u_def fifo_bytes_def same_inp_def)
    moreover have "length (fifo_out s1) = length (fifo_out s)" "cur_out s1 = 0" using fb by (simp_all add: s1_def u_def)
    moreover have "adler32 s1 = adler_field []" by (simp add: s1_def checksum_fields_Nil INIT_ADLER_def)
    ultimately have "stream_ok env coded (header_bytes s) [] [] s1 \<and> unsent s1 = unsent s"
      using F(3,7) by (intro finish) (simp_all add: s1_def u_def fifo_bytes_def)
    moreover have "0 < avail_out s1" using start(2) by (simp add: s1_def u_def fifo_bytes_def)
    ultimately show ?thesis using that [OF h] by (simp add: s1_def u_def fifo_bytes_def)
  next
    case 2
    obtain v where v: "nx_deflate_add_header s = Some (v\<lparr>zadler := crc32 v, status := NX_DEFLATE_ST\<rparr>)"
      "emits (header_bytes s) (length (header_bytes s)) (s\<lparr>header_len := 0\<rparr>) v" "room (length (header_bytes s)) (s\<lparr>header_len := 0\<rparr>)"
      by (rule add_header_gzip [OF F(1) 2 F(6)])
    have e: "out_bytes v = header_bytes s" "room 0 v" "length (fifo_out v) = length (fifo_out s)" "same_rest (s\<lparr>header_len := 0\<rparr>) v"
      "next_out v + avail_out v = next_out s + avail_out s"
      using v(2,3) o0 by (auto simp: emits_def out_defs)
    obtain ob n a t f k h where f: "v = s\<lparr>header_len := 0\<rparr>\<lparr>obuf := ob, next_out := n, avail_out := a, total_out := t, fifo_out := f, used_out := k, header_len := h\<rparr>"
      using e(4) unfolding same_rest_def by blast
    define s1 where "s1 = v\<lparr>zadler := crc32 v, status := NX_DEFLATE_ST\<rparr>"
    have o1: "out_bytes s1 = header_bytes s" "out_ok s1" using e(1,2) by (simp_all add: s1_def out_defs room_def)
    have "same_inp s s1" "len_out s1 = len_out s" "crc32 s1 = crc32 s" "adler32 s1 = adler32 s" "level s1 = level s" "dict_len s1 = dict_len s"
      "strategy s1 = strategy s" "need_stored_block s1 = need_stored_block s" "tebc s1 = tebc s" "cur_out s1 = cur_out s" "flush s1 = flush s"
      "wrap s1 = wrap s" "status s1 = NX_DEFLATE_ST"
      by (simp_all add: s1_def f same_inp_def)
    moreover have "stream_ok env coded (header_bytes s) [] [] s1 \<and> unsent s1 = unsent s"
      using F(3,7,8) I(3) e(3) o1 calculation by (intro finish) (simp_all add: s1_def)
    moreover have "0 < avail_out s1 \<or> 0 < used_out s1"
      using header_room [OF o1(2,1)] e(5) start(1) fit [OF 2] by (simp add: s1_def)
    ultimately show ?thesis using that [OF v(1) [folded s1_def]] by blast
  next
    case 3
    define s1 where "s1 = s\<lparr>header_len := 0, zadler := 0, status := NX_DEFLATE_ST\<rparr>"
    have h: "nx_deflate_add_header s = Some s1" using 3 by (simp add: nx_deflate_add_header_def s1_def status_codes Let_def)
    have hb: "header_bytes s = []" using 3 by (simp add: header_bytes_def status_codes)
    have "out_bytes s1 = header_bytes s" "out_ok s1" using o0 I(1) hb by (simp_all add: s1_def out_defs)
    then have "stream_ok env coded (header_bytes s) [] [] s1 \<and> unsent s1 = unsent s"
      using F(3,7,8) I(3) by (intro finish) (simp_all add: s1_def same_inp_def)
    then show ?thesis using that [OF h] start(2) by (simp add: s1_def)
  qed
qed

section \<open>Sequences of calls\<close>

text \<open>A call: the flush mode, the new input and the output buffer. Input that was not taken is passed again.\<close>

type_synonym df_call = "int \<times> u8 list \<times> u8 list"

fun deflate_calls :: "df_env \<Rightarrow> df_call list \<Rightarrow> nx_def \<Rightarrow> nx_cpb \<Rightarrow> (int \<times> u8 list \<times> nx_def \<times> nx_cpb) option" where
  "deflate_calls env [] s c = Some (Z_OK, [], s, c)"
| "deflate_calls env ((f, x, buf) # calls) s c =
     (case nx_deflate env f (next_in s @ x) buf s c of
        None \<Rightarrow> None
      | Some (rc, s', c') \<Rightarrow>
          if rc = Z_OK \<or> rc = Z_BUF_ERROR
          then map_option (\<lambda>(r, out, t). (r, delivered s' @ out, t)) (deflate_calls env calls s' c')
          else Some (rc, delivered s', s', c'))"

definition fed :: "df_call list \<Rightarrow> u8 list" where
  "fed calls = concat (map (\<lambda>(f, x, buf). x) calls)"

text \<open>
  Valid calls: after \<^verbatim>\<open>Z_FINISH\<close> (\<open>fin\<close>) only \<^verbatim>\<open>Z_FINISH\<close> and no new input; and a gzip header, of length \<open>hl\<close> while it has not been
  written, does not fill the output buffer exactly.
\<close>

fun calls_ok :: "nat option \<Rightarrow> bool \<Rightarrow> df_call list \<Rightarrow> bool" where
  "calls_ok hl fin [] \<longleftrightarrow> True"
| "calls_ok hl fin ((f, x, buf) # calls) \<longleftrightarrow>
     0 \<le> f \<and> f \<le> Z_BLOCK \<and> (fin \<longrightarrow> f = Z_FINISH \<and> x = []) \<and> hl \<noteq> Some (length buf)
     \<and> calls_ok (if buf = [] then hl else None) (f = Z_FINISH) calls"

lemma fed_finished: "calls_ok hl True calls \<Longrightarrow> fed calls = []"
  by (induction hl "True" calls rule: calls_ok.induct) (auto simp: fed_def)

lemma fed_simps [simp]: "fed [] = []" "fed ((f, x, buf) # calls) = x @ fed calls"
  by (simp_all add: fed_def)

text \<open>The user's pointers are set.\<close>

definition with_user :: "int \<Rightarrow> u8 list \<Rightarrow> u8 list \<Rightarrow> nx_def \<Rightarrow> nx_def" where
  "with_user f input buf s = s\<lparr>next_in := input, obuf := buf, next_out := 0, avail_out := length buf, flush := f\<rparr>"

lemma with_user_fields [simp]:
  "next_in (with_user f i b s) = i" "obuf (with_user f i b s) = b" "next_out (with_user f i b s) = 0" "avail_out (with_user f i b s) = length b"
  "flush (with_user f i b s) = f" "status (with_user f i b s) = status s" "wrap (with_user f i b s) = wrap s" "used_out (with_user f i b s) = used_out s"
  "cur_out (with_user f i b s) = cur_out s" "fifo_out (with_user f i b s) = fifo_out s" "len_out (with_user f i b s) = len_out s"
  "tebc (with_user f i b s) = tebc s" "level (with_user f i b s) = level s" "dict_len (with_user f i b s) = dict_len s"
  "strategy (with_user f i b s) = strategy s" "need_stored_block (with_user f i b s) = need_stored_block s" "crc32 (with_user f i b s) = crc32 s"
  "adler32 (with_user f i b s) = adler32 s" "checksum_set (with_user f i b s) = checksum_set s" "used_in (with_user f i b s) = used_in s"
  "gzhead (with_user f i b s) = gzhead s" "cached (with_user f i b s) = cached s"
  by (simp_all add: with_user_def cached_def split: option.split)

lemma with_user_inp:
  "in_ok env xs (with_user f i b s) = in_ok env xs s" "unsent (with_user f (next_in s @ x) b s) = unsent s @ x"
  "out_bytes (with_user f i b s) = pending s" "header_bytes (with_user f i b s) = header_bytes s"
proof -
  show "in_ok env xs (with_user f i b s) = in_ok env xs s"
    by (cases "fifo_in s") (simp_all add: in_ok_def with_user_def)
  show "unsent (with_user f (next_in s @ x) b s) = unsent s @ x" by (simp add: unsent_def)
  show "out_bytes (with_user f i b s) = pending s"
    unfolding out_bytes_def delivered_def pending_def by (simp add: with_user_def)
  show "header_bytes (with_user f i b s) = header_bytes s" by (simp add: header_bytes_def zlib_header_bytes_def with_user_def)
qed

lemma live_with_user:
  assumes live: "live env coded hdr pre D s" and more: "status s \<noteq> NX_DEFLATE_ST \<Longrightarrow> x = []"
  shows "live env coded hdr (pre @ delivered s) (D @ x) (with_user f (next_in s @ x) buf s)"
proof -
  define t where "t = with_user f (next_in s @ x) buf s"
  have o: "(pre @ delivered s) @ out_bytes t = pre @ out_bytes s" by (simp add: t_def with_user_inp(3) out_bytes_def [of s])
  have i: "out_inv s \<Longrightarrow> out_inv t" by (simp add: t_def out_inv_def out_ok_def)
  have u: "unsent t = unsent s @ x" by (simp add: t_def with_user_inp(2))
  have ii: "in_ok env xs t = in_ok env xs s" for xs by (simp add: t_def with_user_inp(1))
  have co: "coded_out coded hdr (pre @ delivered s) fin xs t = coded_out coded hdr pre fin xs s" for fin xs
    using o by (simp add: coded_out_def t_def)
  note with_user_t = with_user_fields [of f "next_in s @ x" buf s, folded t_def]
  show ?thesis
    using live [unfolded live_def]
  proof (elim disjE exE conjE)
    fix xs
    assume ok: "stream_ok env coded hdr pre xs s" and D: "D = xs @ unsent s"
    have "stream_ok env coded hdr (pre @ delivered s) xs t"
      using ok more unfolding stream_ok_def ii co u by (auto simp: i with_user_t status_codes)
    then show ?thesis unfolding live_def t_def [symmetric] using D u by (intro disjI1 exI [of _ xs]) simp
  next
    assume c: "closed_ok coded hdr pre D s"
    then have "x = []" using more by (simp add: closed_ok_def status_codes)
    then have "closed_ok coded hdr (pre @ delivered s) D t"
      using c u i unfolding closed_ok_def o by (simp add: t_def)
    then show ?thesis unfolding live_def t_def [symmetric] using \<open>x = []\<close> by simp
  qed
qed

lemma fresh_with_user: "fresh_ok env s \<Longrightarrow> fresh_ok env (with_user f i buf s)"
  by (simp add: fresh_ok_def init_state_def with_user_inp out_ok_def)

section \<open>One call\<close>

lemma live_call:
  assumes eng: "deflate_engine env coded" and cfg: "config_ok env" and live: "live env coded hdr pre D s"
    and f: "0 \<le> f" "f \<le> Z_BLOCK" and fin: "status s \<noteq> NX_DEFLATE_ST \<Longrightarrow> f = Z_FINISH \<and> x = []" and len: "length (D @ x) < 2 ^ 32"
  shows "\<exists>rc s' c'. nx_deflate env f (next_in s @ x) buf s c = Some (rc, s', c')
    \<and> call_end env coded hdr (pre @ delivered s) (D @ x) (with_user f (next_in s @ x) buf s) rc s'"
proof -
  define t where "t = with_user f (next_in s @ x) buf s"
  note t = with_user_fields [of f "next_in s @ x" buf s, folded t_def]
  have lt: "live env coded hdr (pre @ delivered s) (D @ x) t"
    unfolding t_def by (rule live_with_user [OF live]) (use fin in blast)
  have fl: "status t \<noteq> NX_DEFLATE_ST \<longrightarrow> flush t = Z_FINISH" using fin t by auto
  have st: "status t \<in> {NX_DEFLATE_ST, NX_BFINAL_ST, NX_TRAILER_ST}" by (rule live_fields(5) [OF lt])
  have no_init: "status t AND (NX_ZLIB_INIT_ST OR NX_GZIP_INIT_ST OR NX_RAW_INIT_ST) = 0" using st by (auto simp: status_codes)
  have bf: "status t = NX_BFINAL_ST \<Longrightarrow> flush t = Z_FINISH \<and> next_in t = []"
    using fl live_fields(6,7) [OF lt] by (auto simp: status_codes)
  have "length (unsent t) \<le> length (D @ x)" using lt unfolding live_def closed_ok_def by (elim disjE exE conjE) simp_all
  then have len_t: "length (unsent t) < 2 ^ 32" using len by linarith
  show ?thesis
  proof (cases "buf = []")
    case True
    have "nx_deflate env f (next_in s @ x) buf s c = Some (Z_BUF_ERROR, t, c)"
      using f True by (simp add: nx_deflate_def t_def with_user_def)
    moreover have "call_end env coded hdr (pre @ delivered s) (D @ x) t Z_BUF_ERROR t"
      using lt fl by (auto simp: call_end_def Z_BUF_ERROR_def Z_STREAM_END_def)
    ultimately show ?thesis unfolding t_def by blast
  next
    case False
    have "nx_deflate env f (next_in s @ x) buf s c = deflate_loop env True 0 t c"
      using f False no_init bf t(1,5) unfolding nx_deflate_def with_user_def [symmetric] t_def [symmetric]
      by (auto simp: Let_def t)
    moreover have "0 < avail_out t" using False t(4) by simp
    ultimately show ?thesis
      using deflate_loop_ends [OF eng cfg lt fl len_t, of True 0 c] unfolding t_def by auto
  qed
qed

lemma fresh_call:
  assumes eng: "deflate_engine env coded" and cfg: "config_ok env" and fresh: "fresh_ok env s"
    and f: "0 \<le> f" "f \<le> Z_BLOCK" and fit: "status s = NX_GZIP_INIT_ST \<Longrightarrow> length buf \<noteq> length (header_bytes s)"
    and buf: "buf \<noteq> []" and len: "length (unsent s @ x) < 2 ^ 32"
  shows "\<exists>rc s' c'. nx_deflate env f (next_in s @ x) buf s c = Some (rc, s', c')
    \<and> call_end env coded (header_bytes s) [] (unsent s @ x) (with_user f (next_in s @ x) buf s) rc s'"
proof -
  define t where "t = with_user f (next_in s @ x) buf s"
  note t = with_user_fields [of f "next_in s @ x" buf s, folded t_def]
  have ft: "fresh_ok env t" unfolding t_def by (rule fresh_with_user [OF fresh])
  have h: "header_bytes t = header_bytes s" "unsent t = unsent s @ x" by (simp_all add: t_def with_user_inp)
  obtain s1 where s1: "nx_deflate_add_header t = Some s1" "stream_ok env coded (header_bytes t) [] [] s1" "unsent s1 = unsent t"
    "status s1 = NX_DEFLATE_ST" "flush s1 = flush t" "wrap s1 = wrap t" "0 < avail_out s1 \<or> 0 < used_out s1"
    by (rule header_live [OF ft, of coded]) (use t fit buf h in auto)
  have init: "status t AND (NX_ZLIB_INIT_ST OR NX_GZIP_INIT_ST OR NX_RAW_INIT_ST) \<noteq> 0"
    using ft by (auto simp: fresh_ok_def init_state_def status_codes)
  have "live env coded (header_bytes s) [] (unsent s @ x) s1" unfolding live_def using s1(2,3) h by auto
  then have "\<exists>rc s' c'. deflate_loop env True 0 s1 c = Some (rc, s', c')
      \<and> call_end env coded (header_bytes s) [] (unsent s @ x) s1 rc s'"
    using s1 h len by (intro deflate_loop_ends [OF eng cfg]) auto
  moreover have "nx_deflate env f (next_in s @ x) buf s c = deflate_loop env True 0 s1 c"
    using f buf init s1(1,4) unfolding nx_deflate_def with_user_def [symmetric] t_def [symmetric]
    by (auto simp: Let_def t status_codes)
  ultimately show ?thesis unfolding t_def [symmetric] using call_end_same [OF _ s1(5,6)] by metis
qed

section \<open>The whole stream\<close>

text \<open>Between two calls: \<open>sent\<close> are the bytes delivered so far, \<open>D\<close> is the input taken so far.\<close>

definition going :: "df_env \<Rightarrow> coding \<Rightarrow> u8 list \<Rightarrow> nat option \<Rightarrow> bool \<Rightarrow> u8 list \<Rightarrow> u8 list \<Rightarrow> nx_def \<Rightarrow> bool" where
  "going env coded hdr hl fin D sent s \<longleftrightarrow>
     fresh_ok env s \<and> hdr = header_bytes s \<and> hl = (if status s = NX_GZIP_INIT_ST then Some (length hdr) else None) \<and> sent = [] \<and> D = unsent s
     \<or> (\<exists>pre. sent = pre @ delivered s \<and> live env coded hdr pre D s \<and> (status s \<noteq> NX_DEFLATE_ST \<longrightarrow> fin))"

lemma call_end_going:
  assumes "call_end env coded hdr sent D t rc s'" and "rc = Z_OK \<or> rc = Z_BUF_ERROR"
  shows "going env coded hdr hl (flush t = Z_FINISH) D (sent @ delivered s') s'" and "wrap s' = wrap t"
proof -
  have "live env coded hdr sent D s' \<and> wrap s' = wrap t \<and> (status s' \<noteq> NX_DEFLATE_ST \<longrightarrow> flush t = Z_FINISH)"
    using assms by (auto simp: call_end_def Z_OK_def Z_BUF_ERROR_def Z_STREAM_ERROR_def Z_MEM_ERROR_def)
  then show "going env coded hdr hl (flush t = Z_FINISH) D (sent @ delivered s') s'" "wrap s' = wrap t"
    unfolding going_def by blast+
qed

lemma call_end_stream_end:
  assumes "call_end env coded hdr sent D t Z_STREAM_END s'"
  shows "complete coded hdr (wrap t) D (sent @ delivered s')" and "flush t = Z_FINISH"
proof -
  have e: "live env coded hdr sent D s'" "wrap s' = wrap t" "status s' = NX_TRAILER_ST" "used_out s' = 0" "flush t = Z_FINISH"
    using assms by (auto simp: call_end_def Z_STREAM_END_def Z_STREAM_ERROR_def Z_MEM_ERROR_def status_codes)
  have "closed_ok coded hdr sent D s'" using e(1,3) by (auto simp: live_def stream_ok_def status_codes)
  moreover have "out_bytes s' = delivered s'" using e(4) by (simp add: out_bytes_def pending_def)
  ultimately show "complete coded hdr (wrap t) D (sent @ delivered s')" using e(2) by (simp add: closed_ok_def)
  show "flush t = Z_FINISH" by (rule e(5))
qed

lemma calls_end:
  assumes eng: "deflate_engine env coded" and cfg: "config_ok env"
    and "going env coded hdr hl fin D sent s" and "calls_ok hl fin calls" and "length (D @ fed calls) < 2 ^ 32"
  shows "\<exists>r out s' c'. deflate_calls env calls s c = Some (r, out, s', c')
    \<and> r \<in> {Z_OK, Z_STREAM_END, Z_STREAM_ERROR, Z_MEM_ERROR}
    \<and> (r = Z_STREAM_END \<longrightarrow> complete coded hdr (wrap s) (D @ fed calls) (sent @ out))"
  using assms(3-5)
proof (induction calls arbitrary: hl fin D sent s c)
  case Nil
  then show ?case by (simp add: Z_OK_def Z_STREAM_END_def)
next
  case (Cons a calls)
  obtain f x buf where a: "a = (f, x, buf)" by (cases a)
  define t where "t = with_user f (next_in s @ x) buf s"
  note t = with_user_fields [of f "next_in s @ x" buf s, folded t_def]
  have ok: "0 \<le> f" "f \<le> Z_BLOCK" "fin \<longrightarrow> f = Z_FINISH \<and> x = []" "hl \<noteq> Some (length buf)"
    "calls_ok (if buf = [] then hl else None) (f = Z_FINISH) calls"
    using Cons.prems(2) by (simp_all add: a)
  have len: "length ((D @ x) @ fed calls) < 2 ^ 32" using Cons.prems(3) by (simp add: a)
  have len_x: "length (D @ x) < 2 ^ 32" using len by simp
  have go: ?case
    if n: "nx_deflate env f (next_in s @ x) buf s c = Some (rc, s', c')" and e: "call_end env coded hdr sent (D @ x) t rc s'" for rc s' c'
  proof -
    consider "rc = Z_OK \<or> rc = Z_BUF_ERROR" | "rc = Z_STREAM_END" | "rc = Z_STREAM_ERROR \<or> rc = Z_MEM_ERROR"
      using e by (auto simp: call_end_def)
    then show ?case
    proof cases
      case 1
      note g = call_end_going [OF e 1]
      obtain r out s2 c2 where r: "deflate_calls env calls s' c' = Some (r, out, s2, c2)" "r \<in> {Z_OK, Z_STREAM_END, Z_STREAM_ERROR, Z_MEM_ERROR}"
        "r = Z_STREAM_END \<longrightarrow> complete coded hdr (wrap s') ((D @ x) @ fed calls) ((sent @ delivered s') @ out)"
        using Cons.IH [OF g(1) _ len, of "if buf = [] then hl else None" c'] ok(5) t(5) by auto
      then show ?thesis using n 1 g(2) t(7) by (auto simp: a)
    next
      case 2
      note c = call_end_stream_end [OF e [unfolded 2]]
      have "fed calls = []" using fed_finished ok(5) c(2) t(5) by auto
      then show ?thesis using n 2 c(1) t(7) by (simp add: a Z_OK_def Z_BUF_ERROR_def Z_STREAM_END_def)
    next
      case 3
      then show ?thesis using n by (auto simp: a Z_OK_def Z_BUF_ERROR_def Z_STREAM_END_def Z_STREAM_ERROR_def Z_MEM_ERROR_def)
    qed
  qed
  show ?case
    using Cons.prems(1) [unfolded going_def]
  proof (elim disjE exE conjE)
    assume fr: "fresh_ok env s" "hdr = header_bytes s" "hl = (if status s = NX_GZIP_INIT_ST then Some (length hdr) else None)" "sent = []" "D = unsent s"
    show ?thesis
    proof (cases "buf = []")
      case False
      then show ?thesis
        using fresh_call [OF eng cfg fr(1) ok(1,2) _ False, of x c] fr ok(4) len_x go unfolding t_def by (auto split: if_splits)
    next
      case True
      have n: "nx_deflate env f (next_in s @ x) buf s c = Some (Z_BUF_ERROR, t, c)"
        using ok(1,2) True by (simp add: nx_deflate_def t_def with_user_def)
      have d: "delivered t = []" by (simp add: delivered_def t(3))
      have "going env coded hdr hl (f = Z_FINISH) (D @ x) [] t"
        unfolding going_def using fresh_with_user [OF fr(1)] fr(2,3,5) by (simp add: t_def with_user_inp)
      from Cons.IH [OF this _ len, of c] ok(5) True
      show ?thesis using n d fr(4) t(7) by (auto simp: a)
    qed
  next
    fix pre
    assume l: "sent = pre @ delivered s" "live env coded hdr pre D s" "status s \<noteq> NX_DEFLATE_ST \<longrightarrow> fin"
    show ?thesis
      using live_call [OF eng cfg l(2) ok(1,2) _ len_x, of buf c] l(1,3) ok(3) go unfolding t_def by auto
  qed
qed

end
