(* ===== verification/DeflateExample.thy ===== *)
theory DeflateExample
  imports DeflateEngine DeflateSession
begin

text \<open>
  The property of a whole deflate stream, and a run of it: a raw stream of three bytes, finished in one call, on the accelerator of
  \<^verbatim>\<open>DeflateEngine\<close>. The first job finds that the data do not get shorter, so \<^verbatim>\<open>nx_deflate\<close> writes an empty stored block, lets a second
  job copy the data behind it, rewrites the block header with the length and the final bit, and closes the stream. \<open>ex_s1\<close> to \<open>ex_s8\<close>
  are the states in between.
\<close>

section \<open>The start\<close>

definition ex_mem :: "u8 list" where
  "ex_mem = replicate 131072 0"

lemma length_ex_mem [simp]:
  "length ex_mem = 131072" by (simp add: ex_mem_def)





definition ex_buf :: "u8 list" where
  "ex_buf = replicate 20 0"

lemma length_ex_buf [simp]:
  "length ex_buf = 20" "ex_buf \<noteq> []" by (simp_all add: ex_buf_def)



















section \<open>The stored block\<close>


































section \<open>The property\<close>





end
