(* ===== verification/Spec2Isabelle.thy ===== *)
theory Spec2Isabelle
  imports DhtGen DhtRoundtrip NxMap DeflateBlockCorrect InflateRoundtrip InflateProps DeflateExample
begin

text \<open>
  Verification of power-gzip (\<^verbatim>\<open>libnxz\<close>), a replacement of zlib that hands compression and decompression to the NX
  accelerator of Power processors.

  \<^bold>\<open>The program and its model.\<close> The library keeps a \<^verbatim>\<open>nx_stream\<close> (\<^verbatim>\<open>lib/nx_zlib.h\<close>) per zlib stream. Inflate parses the
  header by itself and feeds the accelerator with jobs; deflate writes headers, flush blocks and trailers
  around the accelerator's output, and gives it Huffman tables that \<^verbatim>\<open>nx_dhtgen.c\<close> makes from the symbol counts of
  earlier jobs. Both keep input and output that did not fit in two buffers, \<^verbatim>\<open>fifo_in\<close> and \<^verbatim>\<open>fifo_out\<close>. Checksums of
  pieces are put together by the software. A map from the user's structures to the library's streams says
  who owns what.

  Conventions: \<^verbatim>\<open>uint8_t\<close>, \<^verbatim>\<open>uint32_t\<close> and \<^verbatim>\<open>unsigned long\<close> values are words; lengths, offsets and counters are natural
  numbers where the code's checks keep them in range, with the wrap-around written out where it does not.
  A buffer is the list of its bytes; reading and writing outside it, a failed assertion and a negative offset are the
  value \<open>None\<close>, so that every theorem that shows \<open>Some\<close> also shows memory safety. A pointer in to a buffer is an
  index. Statements of the code keep their order; \<^verbatim>\<open>goto\<close> labels are functions.

  \<^bold>\<open>Which theory models what.\<close>
  \<^item> \<open>NxPrelude\<close>: words as bits, lists, options, the codes of zlib. \<open>NxBuffer\<close>: checked access to buffers.
  \<^item> \<open>DhtQueue\<close>, \<open>CodeTree\<close>, \<open>DhtHuffman\<close>, \<open>HuffmanCorrect\<close>, \<open>Huffmanize\<close>: the Huffman code construction of
    \<^verbatim>\<open>lib/nx_dhtgen.c\<close> (queue macros, \<^verbatim>\<open>huffman_tree\<close>, \<^verbatim>\<open>tree_walk\<close>, \<^verbatim>\<open>length_limit\<close>, \<^verbatim>\<open>huffmanize\<close>). The queues implement the
    interface \<open>fifo_queue\<close>. The result is a complete prefix code of bounded length for the used symbols.
  \<^item> \<open>DhtEncode\<close>, \<open>DhtEncodeCorrect\<close>: \<^verbatim>\<open>encode_lengths\<close>, the run-length state machine that writes a code table. \<open>DhtRef\<close>: a reader of
    such tables written from RFC 1951 alone, and that it reads back what the writer emits. \<open>DhtGen\<close>: \<^verbatim>\<open>dhtgen\<close> as a whole, against that
    reader. \<open>DhtDecomp\<close>, \<open>DhtRoundtrip\<close>: \<^verbatim>\<open>lib/nx_dht_decomp.c\<close>, the library's own reader. It inverts the writer as long as
    the code 16 is not used; at a code 16 it reads \<^verbatim>\<open>prev_alp\<close>, which is local to the body of its loop and not initialised there.
    The theorems are about tables without a block header in front (\<open>skip\<close> is 0).
  \<^item> \<open>NxMap\<close>: the hash map of \<^verbatim>\<open>lib/nx_map.c\<close>, a refinement of a finite map (\<open>finite_map\<close>).
  \<^item> \<open>Adler32\<close>: \<^verbatim>\<open>lib/nx_adler32.c\<close> against the definition of RFC 1950.
  \<^item> \<open>CrcTables\<close>, \<open>Crc32\<close>, \<open>Crc32Correct\<close>, \<open>CrcCombine\<close>: \<^verbatim>\<open>lib/nx_crc.c\<close>, \<^verbatim>\<open>lib/crc32_ppc.c\<close> and \<^verbatim>\<open>inc_nx/crc32.h\<close> against division of
    polynomials over GF(2).
  \<^item> \<open>DeflateBlock\<close>, \<open>DeflateBlockCorrect\<close>, \<open>NxOut\<close>, \<open>NxOutCorrect\<close>: the empty and stored blocks that \<^verbatim>\<open>lib/nx_deflate.c\<close> writes, and the output
    side of deflate, where a block may span both buffers and start inside a byte. The specification is a list of bits.
  \<^item> \<open>DeflateHeader\<close>, \<open>DeflateHeaderCorrect\<close>: \<^verbatim>\<open>nx_deflate_add_header\<close> and \<^verbatim>\<open>nx_compress_append_trailer\<close> against RFC 1950 and 1952.
  \<^item> \<open>DeflateCore\<close>: \<^verbatim>\<open>nx_deflate\<close> with all it calls: the cache, job setup, the submission loop, the history, stored blocks, checksums and
    the end of the stream. \<open>DeflateInput\<close>: the input side, \<open>DeflateOut\<close>: the output as a sequence of blocks, \<open>DeflateJob\<close>: the contract
    of the accelerator and one job, \<open>DeflateStep\<close>: one block, \<open>DeflateStored\<close>: the loop that writes stored blocks when a job made its
    input longer, \<open>DeflateLoop\<close>: the main loop and the end of the stream, \<open>DeflateSession\<close>: sequences of calls. \<open>DeflateEngine\<close>: a concrete
    accelerator that keeps the contract; \<open>DeflateExample\<close>: the theorem on whole streams and a run of it. \<open>NxRegs\<close>, \<open>NxChecksum\<close>: what
    inflate and deflate share.
  \<^item> \<open>InflateHeader\<close>, \<open>InflateHeaderRef\<close>, \<open>InflateHeaderCorrect\<close>, \<open>InflateZlib\<close>, \<open>InflateRoundtrip\<close>, \<open>InflateResume\<close>: the state machine in
    \<^verbatim>\<open>nx_inflate\<close> (\<^verbatim>\<open>lib/nx_inflate.c\<close>) that reads a header byte by byte and may stop at any of them, against parsers that see the
    input at once; its headers are those deflate writes. \<open>running_checksum\<close> is its interface to \<^verbatim>\<open>crc32\<close>.
  \<^item> \<open>InflateCore\<close>: \<^verbatim>\<open>nx_inflate_\<close> with all it calls: job setup, the submission loop with its retries, the suspension
    states, the history, the overflow buffer, the trailer. \<open>InflateFifo\<close>, \<open>InflateInput\<close>: layout invariants of the two buffers and
    that every operation keeps them. \<open>InflateEngine\<close>: the contract of the accelerator. \<open>InflateJob\<close>, \<open>InflateStream\<close>: one job, one
    round, one call.
  \<^item> \<open>InflateEntry\<close>: \<^verbatim>\<open>nx_inflate\<close> as a whole, with reset, initialisation, dictionaries, header requests and copies. \<open>NxCopy\<close>: \<^verbatim>\<open>nx_copy\<close>
    of \<^verbatim>\<open>lib/nx_zlib.c\<close>. \<open>InflateSession\<close>: sequences of calls. \<open>InflateLive\<close>: that they get to the end. \<open>InflateProps\<close>: single
    operations, dictionaries and copies.

  \<^bold>\<open>What is assumed.\<close> The accelerator is a function from the number of a job and its parameters to an answer. \<open>engine_ok\<close> says what
  \<^verbatim>\<open>inc_nx/nxu.h\<close> documents for one job: given the window, the checksums and the parameters of a point where it
  stopped, it continues from there, and it reports what it used and produced. It may fail, stop early at any point
  and answer the same job differently every time. Only \<open>InflateLive\<close> adds that it makes progress (\<open>lively\<close>). \<open>env_ok\<close>
  bounds the configuration, says that an allocated buffer has its length and that page faults and lack of space do not
  come back for ever. For deflate, \<open>deflate_engine\<close> says of one job that an accepted answer consumed some of its data and produced a block
  that encodes them (in the relation \<open>coded\<close>, an argument), with the checksums continued; that a job that copies copies; that the target is
  too small only for more than a minimum of input; and that data that got longer fit in to one stored block. A job may
  fail at any time with another code. \<open>config_ok\<close> bounds the configuration and says that memory is there. The vector routine
  \<^verbatim>\<open>__crc32_vpmsum\<close> of \<^verbatim>\<open>crc32_ppc\<close> is an argument that computes the checksum of whole 16-byte blocks at addresses that are a multiple
  of 16, and is arbitrary elsewhere.

  \<^bold>\<open>Bounds.\<close> Buffers of the user are shorter than \<open>2\<^sup>31\<close> bytes (beyond that \<^verbatim>\<open>overflow_len\<close> is wrong). The main loop of \<^verbatim>\<open>nx_inflate_\<close>
  allows 65534 rounds, which is in the model; the submission loop and the header machine have no bound in the code, are partial
  functions here and are shown to return (the latter in all but three states). The main loop of \<^verbatim>\<open>nx_deflate\<close> has the bound of the code,
  65535 rounds without progress; its loops over completion codes and stored blocks have none and are shown to end. The theorem on deflate
  streams is for less than \<open>2\<^sup>32\<close> bytes of input, a level other than 0, the fixed or default strategy, no
  dictionary, and a first buffer that a gzip header does not fill exactly (there the code writes behind it). The probe counter of
  \<^verbatim>\<open>lib/nx_map.c\<close> is an \<^verbatim>\<open>int\<close> and a natural number here, which differs for more than \<open>2\<^sup>31\<close> cells.

  \<^bold>\<open>Not modelled.\<close> The other interface functions of deflate; the cache of canned Huffman tables (\<^verbatim>\<open>nx_dht.c\<close>, \<^verbatim>\<open>nx_dht_builtin.c\<close>),
  whose choice only affects the compression ratio; configuration, logging, statistics and device lists (\<^verbatim>\<open>nx_zlib.c\<close>, \<^verbatim>\<open>nx_utils.c\<close>); the
  access to the device (\<^verbatim>\<open>gzip_vas.c\<close>); the calls of the zlib library (\<^verbatim>\<open>sw_zlib.c\<close>) and the choice between the libraries; \<^verbatim>\<open>compress\<close>,
  \<^verbatim>\<open>uncompress\<close> and gz files; the vector code of \<^verbatim>\<open>crc32_power.c\<close>; samples and tests. Locks are left out: every model is of one thread.
\<close>

end
